(* ===== verification/Xv6_Prelude.thy ===== *)
theory Xv6_Prelude
  imports Main "HOL-Library.Word"
begin

text \<open>
  Shared vocabulary of the development: the C integer types, the outcome of a kernel
  routine (a value and a state, a panic, a context switch, or undefined behaviour), the
  combinators that compose routines the way C sequences them, the weakest-precondition
  rules that the component proofs use, table searches, and the contract of a slot table
  (an array of structures from which one free entry is claimed).
\<close>

unbundle bit_operations_syntax

section \<open>C integers\<close>

text \<open>
  \<^verbatim>\<open>types.h\<close> and the C type \<^verbatim>\<open>int\<close>: unsigned and signed 32-bit integers are both words;
  signed comparisons are written with \<^term>\<open>word_sless\<close> and \<^term>\<open>word_sle\<close>, unsigned
  ones with the order of the word type.
\<close>

type_synonym uchar = "8 word"
type_synonym ushort = "16 word"
type_synonym uint32 = "32 word"
type_synonym sint32 = "32 word"

section \<open>Outcomes of kernel routines\<close>

text \<open>
  A routine that runs on a kernel state either returns a value and a new state, stops the
  machine in \<^verbatim>\<open>panic\<close>, leaves the processor through \<^verbatim>\<open>swtch\<close> in the state it has then
  (the process is sleeping, runnable or a zombie), or does something the C language leaves
  undefined: a null dereference, an access outside an array.
\<close>

datatype ('s, 'a) outcome = Ok 'a 's | Panic string | Swtch 's | Fault string

type_synonym ('s, 'a) kop = "'s \<Rightarrow> ('s, 'a) outcome"

definition kret :: "'a \<Rightarrow> ('s, 'a) kop" where
  "kret x = (\<lambda>s. Ok x s)"

definition kbind :: "('s, 'a) kop \<Rightarrow> ('a \<Rightarrow> ('s, 'b) kop) \<Rightarrow> ('s, 'b) kop" where
  "kbind m f = (\<lambda>s. case m s of Ok x t \<Rightarrow> f x t | Panic e \<Rightarrow> Panic e
                     | Swtch t \<Rightarrow> Swtch t | Fault e \<Rightarrow> Fault e)"

definition kseq :: "('s, 'a) kop \<Rightarrow> ('s, 'b) kop \<Rightarrow> ('s, 'b) kop" where
  "kseq m n = kbind m (\<lambda>_. n)"

definition kget :: "('s \<Rightarrow> 'a) \<Rightarrow> ('s, 'a) kop" where
  "kget f = (\<lambda>s. Ok (f s) s)"

definition kmod :: "('s \<Rightarrow> 's) \<Rightarrow> ('s, unit) kop" where
  "kmod f = (\<lambda>s. Ok () (f s))"

definition kpanic :: "string \<Rightarrow> ('s, 'a) kop" where
  "kpanic e = (\<lambda>s. Panic e)"

definition kfault :: "string \<Rightarrow> ('s, 'a) kop" where
  "kfault e = (\<lambda>s. Fault e)"

text \<open>\<^verbatim>\<open>if (c) panic(e);\<close>\<close>

definition kcheck :: "bool \<Rightarrow> string \<Rightarrow> ('s, unit) kop" where
  "kcheck bad e = (if bad then kpanic e else kret ())"

text \<open>\<^verbatim>\<open>if (c) m;\<close>\<close>

definition kwhen :: "bool \<Rightarrow> ('s, unit) kop \<Rightarrow> ('s, unit) kop" where
  "kwhen c m = (if c then m else kret ())"

text \<open>\<^verbatim>\<open>for (i in is) body(i);\<close>\<close>

primrec kfor :: "'i list \<Rightarrow> ('i \<Rightarrow> ('s, unit) kop) \<Rightarrow> ('s, unit) kop" where
  "kfor [] body = kret ()"
| "kfor (i # is) body = kseq (body i) (kfor is body)"

lemmas kop_defs = kret_def kbind_def kseq_def kget_def kmod_def kpanic_def kfault_def
  kcheck_def kwhen_def

named_theorems run \<open>evaluation rules: a routine applied to a state\<close>

lemma run_ret [run, simp]: "kret x s = Ok x s"
  by (simp add: kret_def)

lemma run_get [run, simp]: "kget f s = Ok (f s) s"
  by (simp add: kget_def)

lemma run_mod [run, simp]: "kmod f s = Ok () (f s)"
  by (simp add: kmod_def)

lemma run_panic [run, simp]: "kpanic e s = Panic e"
  by (simp add: kpanic_def)

lemma run_fault [run, simp]: "kfault e s = Fault e"
  by (simp add: kfault_def)

lemma run_bind [run]: "kbind m f s = (case m s of Ok x t \<Rightarrow> f x t | Panic e \<Rightarrow> Panic e
                     | Swtch t \<Rightarrow> Swtch t | Fault e \<Rightarrow> Fault e)"
  by (simp add: kbind_def)

lemma run_seq [run]: "kseq m n s = (case m s of Ok x t \<Rightarrow> n t | Panic e \<Rightarrow> Panic e
                     | Swtch t \<Rightarrow> Swtch t | Fault e \<Rightarrow> Fault e)"
  by (simp add: kseq_def kbind_def)

lemma run_check [run, simp]: "kcheck bad e s = (if bad then Panic e else Ok () s)"
  by (simp add: kcheck_def)

lemma run_when [run, simp]: "kwhen c m s = (if c then m s else Ok () s)"
  by (simp add: kwhen_def)

lemma kbind_Ok: "m s = Ok x t \<Longrightarrow> kbind m f s = f x t"
  by (simp add: kbind_def)

lemma kseq_Ok: "m s = Ok x t \<Longrightarrow> kseq m n s = n t"
  by (simp add: run)

lemma kbind_eq_Ok_iff:
  "kbind m f s = Ok y u \<longleftrightarrow> (\<exists>x t. m s = Ok x t \<and> f x t = Ok y u)"
  by (simp add: kbind_def split: outcome.split)

lemma kseq_eq_Ok_iff:
  "kseq m n s = Ok y u \<longleftrightarrow> (\<exists>x t. m s = Ok x t \<and> n t = Ok y u)"
  by (simp add: run split: outcome.split)

lemma kbind_assoc: "kbind (kbind m f) g = kbind m (\<lambda>x. kbind (f x) g)"
  by (rule ext) (simp add: kbind_def split: outcome.split)

lemma kfor_append: "kfor (xs @ ys) body = kseq (kfor xs body) (kfor ys body)"
  by (induction xs) (auto simp: fun_eq_iff run split: outcome.split)

section \<open>Weakest preconditions\<close>

text \<open>
  \<^term>\<open>wpk m Q s\<close>: the routine returns from \<open>s\<close>, and with a value and a state that
  satisfy \<open>Q\<close>. It is false where the routine panics, faults or switches away, so a proof of
  it includes that none of these happens.
\<close>

definition wpk :: "('s, 'a) kop \<Rightarrow> ('a \<Rightarrow> 's \<Rightarrow> bool) \<Rightarrow> 's \<Rightarrow> bool" where
  "wpk m Q s = (case m s of Ok x t \<Rightarrow> Q x t | _ \<Rightarrow> False)"

named_theorems wp \<open>weakest preconditions of the combinators and of the routines\<close>

lemma wp_ret [wp]: "wpk (kret x) Q s = Q x s"
  by (simp add: wpk_def)

lemma wp_Ok [wp]: "wpk (Ok x) Q s = Q x s"
  by (simp add: wpk_def)

lemma wp_bind [wp]: "wpk (kbind m f) Q s = wpk m (\<lambda>x. wpk (f x) Q) s"
  by (simp add: wpk_def run split: outcome.split)

lemma wp_seq [wp]: "wpk (kseq m n) Q s = wpk m (\<lambda>_. wpk n Q) s"
  by (simp add: kseq_def wp_bind)

lemma wp_get [wp]: "wpk (kget f) Q s = Q (f s) s"
  by (simp add: wpk_def)

lemma wp_mod [wp]: "wpk (kmod f) Q s = Q () (f s)"
  by (simp add: wpk_def)

lemma wp_panic [wp]: "wpk (kpanic e) Q s = False"
  by (simp add: wpk_def)

lemma wp_fault [wp]: "wpk (kfault e) Q s = False"
  by (simp add: wpk_def)

lemma wp_check [wp]: "wpk (kcheck bad e) Q s = (\<not> bad \<and> Q () s)"
  by (simp add: wpk_def)

lemma wp_when [wp]: "wpk (kwhen c m) Q s = (if c then wpk m Q s else Q () s)"
  by (simp add: wpk_def)

lemma wp_if [wp]: "wpk (if c then m else n) Q s = (if c then wpk m Q s else wpk n Q s)"
  by simp

lemma wpkI: "m s = Ok x t \<Longrightarrow> Q x t \<Longrightarrow> wpk m Q s"
  by (simp add: wpk_def)

lemma wpkE:
  assumes "wpk m Q s"
  obtains x t where "m s = Ok x t" and "Q x t"
  using assms by (auto simp: wpk_def split: outcome.splits)

lemma wpk_mono: "wpk m P s \<Longrightarrow> (\<And>x t. P x t \<Longrightarrow> Q x t) \<Longrightarrow> wpk m Q s"
  by (auto simp: wpk_def split: outcome.splits)

text \<open>The invariant rule of a loop over a list: what holds before the first element and is
  kept by the body holds afterwards.\<close>

lemma wp_for:
  assumes "I [] s"
    and "\<And>pre i rest t. is = pre @ i # rest \<Longrightarrow> I pre t \<Longrightarrow>
           wpk (body i) (\<lambda>_. I (pre @ [i])) t"
  shows "wpk (kfor is body) (\<lambda>_. I is) s"
proof -
  have "wpk (kfor rest body) (\<lambda>_. I is) t" if "is = pre @ rest" and "I pre t" for pre rest t
    using that
  proof (induction rest arbitrary: pre t)
    case Nil
    then show ?case by (simp add: wp)
  next
    case (Cons i rest)
    from Cons.prems have "wpk (body i) (\<lambda>_. I (pre @ [i])) t"
      by (rule assms(2))
    then have "wpk (body i) (\<lambda>_. wpk (kfor rest body) (\<lambda>_. I is)) t"
      by (rule wpk_mono) (rule Cons.IH, simp_all add: Cons.prems(1))
    then show ?case by (simp add: wp)
  qed
  from this [of "[]" "is" s] assms(1) show ?thesis by simp
qed

section \<open>Searching a table\<close>

text \<open>\<^verbatim>\<open>for (p = table; p < &table[N]; p++) if (P(p)) goto found;\<close>\<close>

fun first_index :: "('a \<Rightarrow> bool) \<Rightarrow> 'a list \<Rightarrow> nat option" where
  "first_index P [] = None"
| "first_index P (x # xs) = (if P x then Some 0 else map_option Suc (first_index P xs))"

lemma first_index_None: "first_index P xs = None \<longleftrightarrow> (\<forall>x\<in>set xs. \<not> P x)"
  by (induction xs) auto

lemma first_index_Some:
  "first_index P xs = Some i \<longleftrightarrow> i < length xs \<and> P (xs ! i) \<and> (\<forall>j<i. \<not> P (xs ! j))"
proof (induction xs arbitrary: i)
  case Nil
  then show ?case by simp
next
  case (Cons x xs)
  show ?case
  proof (cases i)
    case 0
    then show ?thesis by (auto split: option.splits)
  next
    case (Suc k)
    then show ?thesis
      by (auto simp: Cons.IH nth_Cons' less_Suc_eq_0_disj split: if_splits)
  qed
qed

lemma first_index_SomeD:
  assumes "first_index P xs = Some i"
  shows "i < length xs" and "P (xs ! i)" and "\<And>j. j < i \<Longrightarrow> \<not> P (xs ! j)"
  using assms by (auto simp: first_index_Some)

lemma first_index_cong_set:
  "(\<And>x. x \<in> set xs \<Longrightarrow> P x = Q x) \<Longrightarrow> first_index P xs = first_index Q xs"
  by (induction xs) auto

section \<open>Slot tables\<close>

text \<open>
  The kernel keeps its structures in fixed arrays (\<^verbatim>\<open>ptable.proc\<close>, \<^verbatim>\<open>ftable.file\<close>,
  \<^verbatim>\<open>p->ofile\<close>, \<^verbatim>\<open>icache.inode\<close>) and claims the first free entry. The contract: a claimed
  entry is no longer free.
\<close>

definition claim_slot :: "('e \<Rightarrow> bool) \<Rightarrow> ('e \<Rightarrow> 'e) \<Rightarrow> 'e list \<Rightarrow> (nat \<times> 'e list) option" where
  "claim_slot fr mark xs =
     (case first_index fr xs of None \<Rightarrow> None | Some i \<Rightarrow> Some (i, xs[i := mark (xs ! i)]))"

definition slots_free :: "('e \<Rightarrow> bool) \<Rightarrow> 'e list \<Rightarrow> nat set" where
  "slots_free fr xs = {i. i < length xs \<and> fr (xs ! i)}"

lemma finite_slots_free [simp]: "finite (slots_free fr xs)"
  by (simp add: slots_free_def)

locale slot_table =
  fixes fr :: "'e \<Rightarrow> bool" and mark :: "'e \<Rightarrow> 'e"
  assumes mark_used: "fr e \<Longrightarrow> \<not> fr (mark e)"
begin

lemma claim_None: "claim_slot fr mark xs = None \<longleftrightarrow> slots_free fr xs = {}"
proof -
  have "claim_slot fr mark xs = None \<longleftrightarrow> first_index fr xs = None"
    by (simp add: claim_slot_def split: option.split)
  then show ?thesis
    by (auto simp: first_index_None slots_free_def all_set_conv_all_nth)
qed

lemma claim_Some:
  assumes "claim_slot fr mark xs = Some (i, ys)"
  shows "i \<in> slots_free fr xs" and "ys = xs[i := mark (xs ! i)]"
    and "slots_free fr ys = slots_free fr xs - {i}"
    and "\<And>j. j \<noteq> i \<Longrightarrow> ys ! j = xs ! j" and "length ys = length xs"
proof -
  from assms have fi: "first_index fr xs = Some i" and ys: "ys = xs[i := mark (xs ! i)]"
    by (auto simp: claim_slot_def split: option.splits)
  from fi show i: "i \<in> slots_free fr xs"
    by (simp add: slots_free_def first_index_SomeD)
  show "ys = xs[i := mark (xs ! i)]" by (rule ys)
  have "i < length xs" and "\<not> fr (mark (xs ! i))"
    using i by (simp_all add: slots_free_def mark_used)
  then show "slots_free fr ys = slots_free fr xs - {i}"
    by (auto simp: ys slots_free_def nth_list_update split: if_splits)
  show "\<And>j. j \<noteq> i \<Longrightarrow> ys ! j = xs ! j" and "length ys = length xs"
    by (simp_all add: ys)
qed

lemma claim_least:
  assumes "claim_slot fr mark xs = Some (i, ys)" and "j \<in> slots_free fr xs"
  shows "i \<le> j"
  using assms by (auto simp: claim_slot_def slots_free_def not_le
      split: option.splits dest: first_index_SomeD)

lemma claim_twice_distinct:
  assumes "claim_slot fr mark xs = Some (i, ys)" and "claim_slot fr mark ys = Some (j, zs)"
  shows "i \<noteq> j"
  using claim_Some(1) [OF assms(2)] claim_Some(3) [OF assms(1)] by blast

lemma claim_card:
  assumes "claim_slot fr mark xs = Some (i, ys)"
  shows "card (slots_free fr ys) + 1 = card (slots_free fr xs)"
  using claim_Some(1,3) [OF assms]
    card_Suc_Diff1 [OF finite_slots_free, of i fr xs] by simp

end

section \<open>Arithmetic shared by the components\<close>

lemma unat_of_nat_32 [simp]: "n < 2 ^ 32 \<Longrightarrow> unat (of_nat n :: uint32) = n"
  by (simp add: unat_of_nat take_bit_nat_eq_self)

lemma word_add_of_nat_neq:
  assumes "i < 2 ^ 32" and "j < 2 ^ 32" and "i \<noteq> j"
  shows "(a :: uint32) + of_nat i \<noteq> a + of_nat j"
  using assms by (metis add_left_cancel unat_of_nat_32)

lemma word_add_of_nat_inj:
  assumes "i < 2 ^ 32" and "j < 2 ^ 32"
  shows "(a :: uint32) + of_nat i = a + of_nat j \<longleftrightarrow> i = j"
  using word_add_of_nat_neq [OF assms] by blast

lemma unat_add_of_nat:
  assumes "unat (a :: uint32) + n < 2 ^ 32"
  shows "unat (a + of_nat n) = unat a + n"
proof -
  have "unat (of_nat n :: uint32) = n" using assms by simp
  then show ?thesis using assms by (simp add: unat_word_ariths)
qed

lemma kfor_skip: "(\<forall>x\<in>set xs. f x s = Ok () s) \<Longrightarrow> kfor xs f s = Ok () s"
  by (induction xs) (simp_all add: run)

lemma kfor_one:
  assumes "\<forall>x\<in>set xs. f x s = Ok () s" and "f y s = Ok () t" and "\<forall>x\<in>set zs. f x t = Ok () t"
  shows "kfor (xs @ y # zs) f s = Ok () t"
  using assms by (induction xs) (simp_all add: run kfor_skip)

end
