(* ===== verification/Locks.thy ===== *)
theory Locks
  imports Xv6_Prelude
begin

text \<open>
  Spin locks as the rest of the kernel uses them, and the contract of a lock. A kernel
  thread sees of its locks only which ones its processor holds: acquiring a lock it
  already holds and releasing one it does not hold panic, and the number of locks held is
  the nesting depth that \<^verbatim>\<open>sched\<close> checks. \<open>Spinlock\<close> proves that the code of
  \<^verbatim>\<open>spinlock.c\<close> implements this.
\<close>

section \<open>Names of locks and of wait channels\<close>

text \<open>
  Every sleep lock is a field of a buffer or of an in-memory inode; \<^verbatim>\<open>wakeup\<close> and
  \<^verbatim>\<open>sleep\<close> use addresses of kernel objects as channels. The addresses are distinct, so they
  are the constructors of a datatype.
\<close>

datatype slkid = BufSL nat | InodeSL nat

datatype lockid = PtableLock | TicksLock | KmemLock | FtableLock | IcacheLock | BcacheLock
  | LogLock | ConsLock | IdeLock | PipeLock uint32 | SleepSpin slkid

datatype chan = ChanProc nat | ChanTicks | ChanLog | ChanInput | ChanBuf nat
  | ChanSleep slkid | ChanPipeR uint32 | ChanPipeW uint32

section \<open>The contract of a lock\<close>

text \<open>
  \<open>owns l s\<close>: the executing processor holds \<open>l\<close>; \<open>avail l s\<close>: no other one does.
\<close>

locale lock_contract =
  fixes acq :: "'l \<Rightarrow> ('s, unit) kop" and rel :: "'l \<Rightarrow> ('s, unit) kop"
    and owns :: "'l \<Rightarrow> 's \<Rightarrow> bool" and avail :: "'l \<Rightarrow> 's \<Rightarrow> bool" and inv :: "'s \<Rightarrow> bool"
  assumes acq_free: "inv s \<Longrightarrow> \<not> owns l s \<Longrightarrow> avail l s \<Longrightarrow>
      wpk (acq l) (\<lambda>_ t. inv t \<and> (\<forall>k. owns k t \<longleftrightarrow> k = l \<or> owns k s)) s"
    and acq_own: "inv s \<Longrightarrow> owns l s \<Longrightarrow> \<exists>e. acq l s = Panic e"
    and rel_own: "inv s \<Longrightarrow> owns l s \<Longrightarrow>
      wpk (rel l) (\<lambda>_ t. inv t \<and> (\<forall>k. owns k t \<longleftrightarrow> k \<noteq> l \<and> owns k s)) s"
    and rel_other: "inv s \<Longrightarrow> \<not> owns l s \<Longrightarrow> \<exists>e. rel l s = Panic e"
begin

text \<open>A critical section whose body gives back the locks it takes leaves the locks held as
  they were before it.\<close>

lemma critical_section:
  assumes "inv s" and "\<not> owns l s" and "avail l s"
    and body: "\<And>t. inv t \<Longrightarrow> (\<And>k. owns k t \<longleftrightarrow> k = l \<or> owns k s) \<Longrightarrow>
      wpk body (\<lambda>_ u. inv u \<and> (\<forall>k. owns k u \<longleftrightarrow> owns k t)) t"
  shows "wpk (kseq (acq l) (kseq body (rel l))) (\<lambda>_ u. inv u \<and> (\<forall>k. owns k u \<longleftrightarrow> owns k s)) s"
proof -
  have "wpk (kseq body (rel l)) (\<lambda>_ u. inv u \<and> (\<forall>k. owns k u \<longleftrightarrow> owns k s)) t"
    if t: "inv t" "\<forall>k. owns k t \<longleftrightarrow> k = l \<or> owns k s" for t
  proof -
    have "wpk body (\<lambda>_ u. inv u \<and> (\<forall>k. owns k u \<longleftrightarrow> owns k t)) t"
      using t by (intro body) auto
    then show ?thesis
      unfolding wp_seq
    proof (rule wpk_mono)
      fix u
      assume u: "inv u \<and> (\<forall>k. owns k u \<longleftrightarrow> owns k t)"
      with t have "wpk (rel l) (\<lambda>_ v. inv v \<and> (\<forall>k. owns k v \<longleftrightarrow> k \<noteq> l \<and> owns k u)) u"
        by (intro rel_own) auto
      then show "wpk (rel l) (\<lambda>_ u. inv u \<and> (\<forall>k. owns k u \<longleftrightarrow> owns k s)) u"
        by (rule wpk_mono) (use u t assms(2) in auto)
    qed
  qed
  with acq_free [OF assms(1-3)] show ?thesis
    unfolding wp_seq [of "acq l"] by (rule wpk_mono) auto
qed

lemma double_acquire_panics:
  assumes "inv s" and "\<not> owns l s" and "avail l s"
  shows "\<exists>e. kseq (acq l) (acq l) s = Panic e"
proof -
  from acq_free [OF assms] obtain t where "acq l s = Ok () t" and "inv t" and "owns l t"
    by (auto elim: wpkE)
  then show ?thesis using acq_own [of t l] by (auto simp: run)
qed

end

section \<open>The locks of the executing processor\<close>

record locks =
  held :: "lockid set"

definition acquire :: "lockid \<Rightarrow> ('z locks_scheme, unit) kop" where
  "acquire l = (\<lambda>s. if l \<in> held s then Panic ''acquire'' else Ok () (s\<lparr>held := insert l (held s)\<rparr>))"

definition release :: "lockid \<Rightarrow> ('z locks_scheme, unit) kop" where
  "release l = (\<lambda>s. if l \<notin> held s then Panic ''release'' else Ok () (s\<lparr>held := held s - {l}\<rparr>))"

lemma acquire_run [run, simp]:
  "acquire l s = (if l \<in> held s then Panic ''acquire'' else Ok () (s\<lparr>held := insert l (held s)\<rparr>))"
  by (simp add: acquire_def)

lemma release_run [run, simp]:
  "release l s = (if l \<in> held s then Ok () (s\<lparr>held := held s - {l}\<rparr>) else Panic ''release'')"
  by (simp add: release_def)

lemma wp_acquire [wp]:
  "wpk (acquire l) Q s \<longleftrightarrow> l \<notin> held s \<and> Q () (s\<lparr>held := insert l (held s)\<rparr>)"
  by (simp add: wpk_def)

lemma wp_release [wp]:
  "wpk (release l) Q s \<longleftrightarrow> l \<in> held s \<and> Q () (s\<lparr>held := held s - {l}\<rparr>)"
  by (simp add: wpk_def)

interpretation kl: lock_contract acquire release "\<lambda>l s. l \<in> held s" "\<lambda>_ _. True" "\<lambda>_. True"
  by unfold_locales (auto simp: wp)

lemma held_restored [simp]: "l \<notin> A \<Longrightarrow> insert l A - {l} = A"
  by auto

end
