(* ===== verification/Cstring.thy ===== *)
theory Cstring
  imports Xv6_Prelude
begin

text \<open>
  Byte-addressed memory and the C string library: \<^verbatim>\<open>string.c\<close> of the kernel, the
  string half of \<^verbatim>\<open>ulib.c\<close> of user programs, and the two string instructions of
  \<^verbatim>\<open>x86.h\<close> they use. The \<^verbatim>\<open>mem*\<close> routines work on memory, with addresses that wrap
  around at \<open>2 ^ 32\<close>; the \<^verbatim>\<open>str*\<close> routines work on what a \<^verbatim>\<open>char *\<close> shows of memory, a
  function from offsets to bytes.
\<close>

section \<open>Memory\<close>

type_synonym mem = "uint32 \<Rightarrow> uchar"

text \<open>32-bit little-endian loads and stores.\<close>

definition load32 :: "mem \<Rightarrow> uint32 \<Rightarrow> uint32" where
  "load32 m a = ucast (m a) OR push_bit 8 (ucast (m (a + 1)))
     OR push_bit 16 (ucast (m (a + 2))) OR push_bit 24 (ucast (m (a + 3)))"

definition store32 :: "mem \<Rightarrow> uint32 \<Rightarrow> uint32 \<Rightarrow> mem" where
  "store32 m a v = m(a := ucast v, a + 1 := ucast (drop_bit 8 v),
     a + 2 := ucast (drop_bit 16 v), a + 3 := ucast (drop_bit 24 v))"

text \<open>\<^verbatim>\<open>*p\<close>, \<^verbatim>\<open>p[1]\<close>, \<dots> for a pointer into memory.\<close>

definition view :: "mem \<Rightarrow> uint32 \<Rightarrow> nat \<Rightarrow> uchar" where
  "view m a = (\<lambda>i. m (a + of_nat i))"

text \<open>The string of a byte list, followed by its terminating zero.\<close>

definition cview :: "uchar list \<Rightarrow> nat \<Rightarrow> uchar" where
  "cview xs = (\<lambda>i. if i < length xs then xs ! i else 0)"

section \<open>\<^verbatim>\<open>rep stosb\<close> and \<^verbatim>\<open>rep stosl\<close>\<close>

fun stosb :: "mem \<Rightarrow> uint32 \<Rightarrow> uchar \<Rightarrow> nat \<Rightarrow> mem" where
  "stosb m a c 0 = m"
| "stosb m a c (Suc n) = stosb (m(a := c)) (a + 1) c n"

fun stosl :: "mem \<Rightarrow> uint32 \<Rightarrow> uint32 \<Rightarrow> nat \<Rightarrow> mem" where
  "stosl m a w 0 = m"
| "stosl m a w (Suc n) = stosl (store32 m a w) (a + 4) w n"

section \<open>\<^verbatim>\<open>string.c\<close>\<close>

definition memset :: "mem \<Rightarrow> uint32 \<Rightarrow> sint32 \<Rightarrow> uint32 \<Rightarrow> mem" where
  "memset m dst c n =
     (if sint dst mod 4 = 0 \<and> n mod 4 = 0
      then let c = c AND 0xFF
           in stosl m dst (push_bit 24 c OR push_bit 16 c OR push_bit 8 c OR c) (unat (n div 4))
      else stosb m dst (ucast c) (unat n))"

fun memcmp :: "(nat \<Rightarrow> uchar) \<Rightarrow> (nat \<Rightarrow> uchar) \<Rightarrow> nat \<Rightarrow> int" where
  "memcmp s1 s2 0 = 0"
| "memcmp s1 s2 (Suc n) =
     (if s1 0 \<noteq> s2 0 then uint (s1 0) - uint (s2 0)
      else memcmp (\<lambda>i. s1 (Suc i)) (\<lambda>i. s2 (Suc i)) n)"

text \<open>The two loops of \<^verbatim>\<open>memmove\<close>: from the end backwards, and from the start forwards.\<close>

fun copy_down :: "mem \<Rightarrow> uint32 \<Rightarrow> uint32 \<Rightarrow> nat \<Rightarrow> mem" where
  "copy_down m d s 0 = m"
| "copy_down m d s (Suc n) = copy_down (m(d - 1 := m (s - 1))) (d - 1) (s - 1) n"

fun copy_up :: "mem \<Rightarrow> uint32 \<Rightarrow> uint32 \<Rightarrow> nat \<Rightarrow> mem" where
  "copy_up m d s 0 = m"
| "copy_up m d s (Suc n) = copy_up (m(d := m s)) (d + 1) (s + 1) n"

definition memmove :: "mem \<Rightarrow> uint32 \<Rightarrow> uint32 \<Rightarrow> uint32 \<Rightarrow> mem" where
  "memmove m dst src n =
     (if src < dst \<and> src + n > dst then copy_down m (dst + n) (src + n) (unat n)
      else copy_up m dst src (unat n))"

definition memcpy :: "mem \<Rightarrow> uint32 \<Rightarrow> uint32 \<Rightarrow> uint32 \<Rightarrow> mem" where
  "memcpy m dst src n = memmove m dst src n"

fun strncmp :: "(nat \<Rightarrow> uchar) \<Rightarrow> (nat \<Rightarrow> uchar) \<Rightarrow> nat \<Rightarrow> int" where
  "strncmp p q 0 = 0"
| "strncmp p q (Suc n) =
     (if p 0 \<noteq> 0 \<and> p 0 = q 0 then strncmp (\<lambda>i. p (Suc i)) (\<lambda>i. q (Suc i)) n
      else uint (p 0) - uint (q 0))"

text \<open>\<^verbatim>\<open>strncpy\<close>: the loop that copies up to and with the first zero, then the loop that
  fills the rest; \<open>i\<close> is how far \<^verbatim>\<open>s\<close> and \<^verbatim>\<open>t\<close> have moved.\<close>

fun strncpy_zero :: "(nat \<Rightarrow> uchar) \<Rightarrow> nat \<Rightarrow> nat \<Rightarrow> nat \<Rightarrow> uchar" where
  "strncpy_zero s i 0 = s"
| "strncpy_zero s i (Suc n) = strncpy_zero (s(i := 0)) (Suc i) n"

fun strncpy_copy :: "(nat \<Rightarrow> uchar) \<Rightarrow> (nat \<Rightarrow> uchar) \<Rightarrow> nat \<Rightarrow> nat \<Rightarrow> nat \<Rightarrow> uchar" where
  "strncpy_copy s t i 0 = s"
| "strncpy_copy s t i (Suc n) =
     (if t i \<noteq> 0 then strncpy_copy (s(i := t i)) t (Suc i) n
      else strncpy_zero (s(i := t i)) (Suc i) n)"

definition strncpy :: "(nat \<Rightarrow> uchar) \<Rightarrow> (nat \<Rightarrow> uchar) \<Rightarrow> sint32 \<Rightarrow> nat \<Rightarrow> uchar" where
  "strncpy s t n = strncpy_copy s t 0 (nat (sint n))"

fun safestrcpy_copy :: "(nat \<Rightarrow> uchar) \<Rightarrow> (nat \<Rightarrow> uchar) \<Rightarrow> nat \<Rightarrow> nat \<Rightarrow> nat \<Rightarrow> uchar" where
  "safestrcpy_copy s t i 0 = s(i := 0)"
| "safestrcpy_copy s t i (Suc n) =
     (if t i \<noteq> 0 then safestrcpy_copy (s(i := t i)) t (Suc i) n
      else (s(i := t i))(Suc i := 0))"

definition safestrcpy :: "(nat \<Rightarrow> uchar) \<Rightarrow> (nat \<Rightarrow> uchar) \<Rightarrow> sint32 \<Rightarrow> nat \<Rightarrow> uchar" where
  "safestrcpy s t n = (if sint n \<le> 0 then s else safestrcpy_copy s t 0 (nat (sint n) - 1))"

partial_function (option) strlen_from :: "(nat \<Rightarrow> uchar) \<Rightarrow> nat \<Rightarrow> nat option" where
  "strlen_from s n = (if s n \<noteq> 0 then strlen_from s (Suc n) else Some n)"

definition strlen :: "(nat \<Rightarrow> uchar) \<Rightarrow> nat option" where
  "strlen s = strlen_from s 0"

section \<open>\<^verbatim>\<open>ulib.c\<close>\<close>

partial_function (option) strcpy_from ::
    "(nat \<Rightarrow> uchar) \<Rightarrow> (nat \<Rightarrow> uchar) \<Rightarrow> nat \<Rightarrow> (nat \<Rightarrow> uchar) option" where
  "strcpy_from s t i =
     (if t i \<noteq> 0 then strcpy_from (s(i := t i)) t (Suc i) else Some (s(i := t i)))"

definition strcpy :: "(nat \<Rightarrow> uchar) \<Rightarrow> (nat \<Rightarrow> uchar) \<Rightarrow> (nat \<Rightarrow> uchar) option" where
  "strcpy s t = strcpy_from s t 0"

partial_function (option) strcmp_from ::
    "(nat \<Rightarrow> uchar) \<Rightarrow> (nat \<Rightarrow> uchar) \<Rightarrow> nat \<Rightarrow> int option" where
  "strcmp_from p q i =
     (if p i \<noteq> 0 \<and> p i = q i then strcmp_from p q (Suc i)
      else Some (uint (p i) - uint (q i)))"

definition strcmp :: "(nat \<Rightarrow> uchar) \<Rightarrow> (nat \<Rightarrow> uchar) \<Rightarrow> int option" where
  "strcmp p q = strcmp_from p q 0"

definition memset_user :: "mem \<Rightarrow> uint32 \<Rightarrow> sint32 \<Rightarrow> uint32 \<Rightarrow> mem" where
  "memset_user m dst c n = stosb m dst (ucast c) (unat n)"

text \<open>\<^verbatim>\<open>strchr\<close>: \<open>Some None\<close> is the null pointer, \<open>Some (Some i)\<close> a pointer to byte \<open>i\<close>.\<close>

partial_function (option) strchr_from ::
    "(nat \<Rightarrow> uchar) \<Rightarrow> uchar \<Rightarrow> nat \<Rightarrow> nat option option" where
  "strchr_from s c i =
     (if s i = 0 then Some None else if s i = c then Some (Some i)
      else strchr_from s c (Suc i))"

definition strchr :: "(nat \<Rightarrow> uchar) \<Rightarrow> uchar \<Rightarrow> nat option option" where
  "strchr s c = strchr_from s c 0"

text \<open>\<^verbatim>\<open>gets\<close>: \<open>inp\<close> are the bytes that \<^verbatim>\<open>read(0, &c, 1)\<close> will deliver; it returns 0 when
  they are used up. The result is the buffer and the bytes not read.\<close>

fun gets_from :: "(nat \<Rightarrow> uchar) \<Rightarrow> nat \<Rightarrow> nat \<Rightarrow> uchar list \<Rightarrow> (nat \<Rightarrow> uchar) \<times> uchar list" where
  "gets_from buf i 0 inp = (buf(i := 0), inp)"
| "gets_from buf i (Suc k) [] = (buf(i := 0), [])"
| "gets_from buf i (Suc k) (c # inp) =
     (if c = 10 \<or> c = 13 then ((buf(i := c))(Suc i := 0), inp)
      else gets_from (buf(i := c)) (Suc i) k inp)"

definition gets :: "(nat \<Rightarrow> uchar) \<Rightarrow> sint32 \<Rightarrow> uchar list \<Rightarrow> (nat \<Rightarrow> uchar) \<times> uchar list" where
  "gets buf nmax inp = gets_from buf 0 (nat (sint nmax) - 1) inp"

partial_function (option) atoi_from :: "(nat \<Rightarrow> uchar) \<Rightarrow> nat \<Rightarrow> sint32 \<Rightarrow> sint32 option" where
  "atoi_from s i n =
     (if 48 \<le>s s i \<and> s i \<le>s 57 then atoi_from s (Suc i) (n * 10 + scast (s i) - 48)
      else Some n)"

definition atoi :: "(nat \<Rightarrow> uchar) \<Rightarrow> sint32 option" where
  "atoi s = atoi_from s 0 0"

definition memmove_user :: "mem \<Rightarrow> uint32 \<Rightarrow> uint32 \<Rightarrow> sint32 \<Rightarrow> mem" where
  "memmove_user m vdst vsrc n = copy_up m vdst vsrc (nat (sint n))"

section \<open>Loads and stores\<close>

lemma neq_add_small [simp]:
  "(a :: uint32) \<noteq> a + 1" "a \<noteq> a + 2" "a \<noteq> a + 3" "a + 1 \<noteq> a" "a + 2 \<noteq> a" "a + 3 \<noteq> a"
  "a + 1 \<noteq> a + 2" "a + 1 \<noteq> a + 3" "a + 2 \<noteq> a + 1" "a + 2 \<noteq> a + 3" "a + 3 \<noteq> a + 1"
  "a + 3 \<noteq> a + 2"
  by (simp_all add: add_left_cancel)

lemma uchar_bit_ge [simp]: "8 \<le> n \<Longrightarrow> \<not> bit (c :: uchar) n"
  using bit_imp_le_length [of c n] by auto

lemma bytes_of_word:
  "ucast (ucast v :: uchar) OR push_bit 8 (ucast (ucast (drop_bit 8 v) :: uchar))
     OR push_bit 16 (ucast (ucast (drop_bit 16 v) :: uchar))
     OR push_bit 24 (ucast (ucast (drop_bit 24 v) :: uchar)) = (v :: uint32)"
proof (rule bit_word_eqI)
  fix n :: nat
  assume "n < LENGTH(32)"
  then have n: "n < 32" by simp
  have "bit (push_bit k (ucast (ucast (drop_bit k v) :: uchar)) :: uint32) n
      \<longleftrightarrow> k \<le> n \<and> n < k + 8 \<and> bit v n" for k
    using n by (auto simp: bit_simps)
  from this [of 8] this [of 16] this [of 24]
  show "bit (ucast (ucast v :: uchar) OR push_bit 8 (ucast (ucast (drop_bit 8 v) :: uchar))
     OR push_bit 16 (ucast (ucast (drop_bit 16 v) :: uchar))
     OR push_bit 24 (ucast (ucast (drop_bit 24 v) :: uchar)) :: uint32) n = bit v n"
    using n by (simp add: bit_or_iff bit_ucast_iff) linarith
qed

lemma store32_bytes [simp]:
  "store32 m a v a = ucast v" "store32 m a v (a + 1) = ucast (drop_bit 8 v)"
  "store32 m a v (a + 2) = ucast (drop_bit 16 v)" "store32 m a v (a + 3) = ucast (drop_bit 24 v)"
  by (simp_all add: store32_def)

lemma load32_store32_same [simp]: "load32 (store32 m a v) a = v"
  by (simp only: load32_def store32_bytes bytes_of_word)

lemma store32_other:
  "x \<notin> {a, a + 1, a + 2, a + 3} \<Longrightarrow> store32 m a v x = m x"
  by (simp add: store32_def)

lemma load32_cong:
  "(\<And>x. x \<in> {a, a + 1, a + 2, a + 3} \<Longrightarrow> m x = m' x) \<Longrightarrow> load32 m a = load32 m' a"
  by (simp add: load32_def)

lemma load32_store8_other:
  assumes "b \<notin> {a, a + 1, a + 2, a + 3}"
  shows "load32 (m(b := c)) a = load32 m a"
  using assms by (intro load32_cong) auto

lemma load32_store32_other:
  assumes "{a, a + 1, a + 2, a + 3} \<inter> {b, b + 1, b + 2, b + 3} = {}"
  shows "load32 (store32 m b v) a = load32 m a"
  using assms by (intro load32_cong store32_other) blast

section \<open>Filling memory\<close>

lemma unat_lt_32: "unat (x :: uint32) < 2 ^ 32"
  using unsigned_less [of x, where ?'a = nat] by simp

lemma stosb_apply:
  assumes "n \<le> 2 ^ 32"
  shows "stosb m a c n x = (if unat (x - a) < n then c else m x)"
  using assms
proof (induction n arbitrary: m a)
  case 0
  then show ?case by simp
next
  case (Suc n)
  have IH: "stosb (m(a := c)) (a + 1) c n x
      = (if unat (x - (a + 1)) < n then c else (m(a := c)) x)"
    using Suc.prems by (intro Suc.IH) simp
  show ?case
  proof (cases "x = a")
    case True
    with IH show ?thesis by simp
  next
    case False
    then have "x - a \<noteq> 0" by simp
    then have "unat (x - a - 1) = unat (x - a) - 1" and "0 < unat (x - a)"
      by (simp_all add: unat_minus_one unat_gt_0)
    then have "unat (x - (a + 1)) < n \<longleftrightarrow> unat (x - a) < Suc n"
      by (simp add: diff_diff_eq [symmetric]) linarith
    with IH False show ?thesis by simp
  qed
qed

lemma store32_stosb:
  assumes "w = push_bit 24 (ucast c) OR push_bit 16 (ucast c) OR push_bit 8 (ucast c) OR ucast c"
  shows "store32 m a w = stosb m a c 4"
proof -
  have "ucast w = c" "ucast (drop_bit 8 w) = c" "ucast (drop_bit 16 w) = c"
    "ucast (drop_bit 24 w) = c"
    unfolding assms by (auto intro!: bit_word_eqI simp: bit_simps)
  then show ?thesis
    by (simp add: store32_def eval_nat_numeral add.assoc)
qed

lemma stosb_add: "stosb m a c (j + k) = stosb (stosb m a c j) (a + of_nat j) c k"
  by (induction j arbitrary: m a) (simp_all add: add.assoc)

lemma stosl_stosb:
  assumes "w = push_bit 24 (ucast c) OR push_bit 16 (ucast c) OR push_bit 8 (ucast c) OR ucast c"
  shows "stosl m a w n = stosb m a c (4 * n)"
proof (induction n arbitrary: m a)
  case 0
  then show ?case by simp
next
  case (Suc n)
  have "stosb m a c (4 * Suc n) = stosb (stosb m a c 4) (a + of_nat 4) c (4 * n)"
    by (simp only: mult_Suc_right stosb_add)
  then show ?case
    by (simp add: Suc.IH store32_stosb [OF assms])
qed

text \<open>The word-at-a-time path and the byte-at-a-time path of \<^verbatim>\<open>memset\<close> agree.\<close>

lemma memset_stosb: "memset m dst c n = stosb m dst (ucast c) (unat n)"
proof (cases "sint dst mod 4 = 0 \<and> n mod 4 = 0")
  case True
  then have "4 * unat (n div 4) = unat n"
    using mult_div_mod_eq [of 4 "unat n"]
    by (simp add: unat_div_distrib word_arith_nat_defs(7) unat_arith_simps)
  moreover have "c AND 0xFF = take_bit 8 c"
    by (simp add: take_bit_eq_mask mask_numeral)
  moreover have "take_bit 8 c = ucast (ucast c :: uchar)"
    by (rule bit_word_eqI) (auto simp: bit_simps)
  ultimately show ?thesis
    using True by (simp only: memset_def Let_def stosl_stosb [OF refl] if_cancel)
next
  case False
  then show ?thesis by (auto simp: memset_def)
qed

lemma memset_apply:
  "memset m dst c n x = (if unat (x - dst) < unat n then ucast c else m x)"
  using unat_lt_32 [of n] by (simp add: memset_stosb stosb_apply)

section \<open>Copying memory\<close>

text \<open>What \<^verbatim>\<open>memmove\<close> promises: the destination gets the bytes the source had before the
  call, and nothing else changes.\<close>

definition copied :: "mem \<Rightarrow> uint32 \<Rightarrow> uint32 \<Rightarrow> nat \<Rightarrow> mem" where
  "copied m d s n = (\<lambda>x. if unat (x - d) < n then m (s + (x - d)) else m x)"

lemma copy_up_copied:
  assumes "n \<le> 2 ^ 32" and "\<And>i j. i < n \<Longrightarrow> j < i \<Longrightarrow> d + of_nat j \<noteq> s + of_nat i"
  shows "copy_up m d s n = copied m d s n"
  using assms
proof (induction n arbitrary: m d s)
  case 0
  then show ?case by (simp add: copied_def)
next
  case (Suc n)
  have IH: "copy_up (m(d := m s)) (d + 1) (s + 1) n = copied (m(d := m s)) (d + 1) (s + 1) n"
  proof (rule Suc.IH)
    show "n \<le> 2 ^ 32" using Suc.prems(1) by simp
    show "d + 1 + of_nat j \<noteq> s + 1 + of_nat i" if "i < n" "j < i" for i j
      using Suc.prems(2) [of "Suc i" "Suc j"] that by (simp add: add.assoc)
  qed
  show ?case
  proof
    fix x
    define k where "k = unat (x - d)"
    have x: "x = d + of_nat k" by (simp add: k_def)
    have k: "k < 2 ^ 32" unfolding k_def by (rule unat_lt_32)
    have src: "s + 1 + (x - (d + 1)) = s + of_nat k" by (simp add: x)
    show "copy_up m d s (Suc n) x = copied m d s (Suc n) x"
    proof (cases "k = 0")
      case True
      then show ?thesis using Suc.prems(1) by (simp add: IH copied_def x)
    next
      case False
      then have "x \<noteq> d" by (auto simp: k_def)
      moreover from this have "unat (x - (d + 1)) = k - 1"
        using unat_minus_one [of "x - d"] by (simp add: k_def diff_diff_eq)
      moreover have "k < Suc n \<Longrightarrow> s + of_nat k \<noteq> d"
        using False Suc.prems(2) [of k 0] by auto
      moreover have "k - 1 < n \<longleftrightarrow> k < Suc n" using False by linarith
      moreover have "s + (x - d) = s + of_nat k" by (simp add: x)
      ultimately show ?thesis
        using k by (auto simp: IH copied_def src k_def [symmetric])
    qed
  qed
qed

lemma copy_down_copied:
  assumes "n \<le> 2 ^ 32" and "\<And>i j. j < n \<Longrightarrow> i < j \<Longrightarrow> d + of_nat j \<noteq> s + of_nat i"
  shows "copy_down m (d + of_nat n) (s + of_nat n) n = copied m d s n"
  using assms
proof (induction n arbitrary: m)
  case 0
  then show ?case by (simp add: copied_def)
next
  case (Suc n)
  let ?m = "m(d + of_nat n := m (s + of_nat n))"
  have IH: "copy_down ?m (d + of_nat n) (s + of_nat n) n = copied ?m d s n"
    using Suc.prems by (intro Suc.IH) auto
  show ?case
  proof
    fix x
    define k where "k = unat (x - d)"
    have x: "x = d + of_nat k" by (simp add: k_def)
    have k: "k < 2 ^ 32" unfolding k_def by (rule unat_lt_32)
    have xn: "x = d + of_nat n \<longleftrightarrow> k = n"
      using k Suc.prems(1) by (simp only: x) (rule word_add_of_nat_inj, simp_all)
    have "k < n \<Longrightarrow> s + of_nat k \<noteq> d + of_nat n"
      using Suc.prems(2) [of n k] by (auto dest: sym)
    then show "copy_down m (d + of_nat (Suc n)) (s + of_nat (Suc n)) (Suc n) x
        = copied m d s (Suc n) x"
      using xn by (auto simp: IH copied_def k_def [symmetric] algebra_simps less_Suc_eq)
        (simp_all add: x)
  qed
qed

lemma of_nat_le_no_wrap:
  assumes "unat (s :: uint32) + i < 2 ^ 32" and "unat (d :: uint32) + j < 2 ^ 32"
  shows "d + of_nat j = s + of_nat i \<longleftrightarrow> unat d + j = unat s + i"
  using unat_add_of_nat [OF assms(1)] unat_add_of_nat [OF assms(2)] by (metis word_unat_eq_iff)

lemma memmove_copied:
  assumes "unat src + unat n < 2 ^ 32" and "unat dst + unat n \<le> 2 ^ 32"
  shows "memmove m dst src n = copied m dst src (unat n)"
proof (cases "src < dst \<and> src + n > dst")
  case True
  have "copy_down m (dst + of_nat (unat n)) (src + of_nat (unat n)) (unat n)
      = copied m dst src (unat n)"
  proof (rule copy_down_copied)
    show "unat n \<le> 2 ^ 32" using unat_lt_32 [of n] by simp
    show "dst + of_nat j \<noteq> src + of_nat i" if "j < unat n" "i < j" for i j
      using of_nat_le_no_wrap [of src i dst j] assms that True by (simp add: word_less_nat_alt)
  qed
  with True show ?thesis by (simp add: memmove_def)
next
  case False
  have n: "unat (src + n) = unat src + unat n"
    using unat_add_of_nat [OF assms(1)] by simp
  have "copy_up m dst src (unat n) = copied m dst src (unat n)"
  proof (rule copy_up_copied)
    show "unat n \<le> 2 ^ 32" using unat_lt_32 [of n] by simp
    show "dst + of_nat j \<noteq> src + of_nat i" if "i < unat n" "j < i" for i j
      using of_nat_le_no_wrap [of src i dst j] assms that False n
      by (auto simp: word_less_nat_alt not_less)
  qed
  with False show ?thesis by (auto simp: memmove_def)
qed

section \<open>Strings\<close>

text \<open>The string a pointer shows, cut at \<open>n\<close> bytes if it has not ended before.\<close>

definition cprefix :: "(nat \<Rightarrow> uchar) \<Rightarrow> nat \<Rightarrow> uchar list" where
  "cprefix p n = takeWhile (\<lambda>c. c \<noteq> 0) (map p [0..<n])"

lemma cprefix_0 [simp]: "cprefix p 0 = []"
  by (simp add: cprefix_def)

lemma cprefix_Suc: "cprefix p (Suc n) = (if p 0 = 0 then [] else p 0 # cprefix (\<lambda>i. p (Suc i)) n)"
  by (simp add: cprefix_def map_upt_Suc del: upt_Suc)

lemma cprefix_nonzero: "0 \<notin> set (cprefix p n)"
  by (auto simp: cprefix_def dest: set_takeWhileD)

lemma length_cprefix: "length (cprefix p n) \<le> n"
  unfolding cprefix_def using length_takeWhile_le [of _ "map p [0..<n]"] by simp

lemma uint_diff_0: "uint (a :: uchar) - uint b = 0 \<longleftrightarrow> a = b"
  by (auto dest: unsigned_word_eqI)

lemma uint_eq_uint: "uint (a :: uchar) = uint b \<longleftrightarrow> a = b"
  by (auto dest: unsigned_word_eqI)

lemma uint_eq_0: "uint (a :: uchar) = 0 \<longleftrightarrow> a = 0"
  using uint_eq_uint [of a 0] by simp

lemmas uchar_uint_simps = uint_diff_0 uint_eq_uint uint_eq_0

lemma strncmp_eq_0: "strncmp p q n = 0 \<longleftrightarrow> cprefix p n = cprefix q n"
proof (induction p q n rule: strncmp.induct)
  case (1 p q)
  then show ?case by simp
next
  case (2 p q n)
  then show ?case by (auto simp: cprefix_Suc uchar_uint_simps)
qed

lemma strncmp_swap: "strncmp q p n = - strncmp p q n"
  by (induction p q n rule: strncmp.induct) auto

lemma memcmp_eq_0: "memcmp p q n = 0 \<longleftrightarrow> (\<forall>i<n. p i = q i)"
proof (induction p q n rule: memcmp.induct)
  case (1 p q)
  then show ?case by simp
next
  case (2 p q n)
  then show ?case by (auto simp: All_less_Suc2 uchar_uint_simps)
qed

lemma strncpy_zero_apply:
  "strncpy_zero s i n x = (if i \<le> x \<and> x < i + n then 0 else s x)"
  by (induction n arbitrary: s i) auto

lemma strncpy_copy_apply:
  "strncpy_copy s t i n x =
     (if i \<le> x \<and> x < i + n then if \<exists>j. i \<le> j \<and> j \<le> x \<and> t j = 0 then 0 else t x else s x)"
proof (induction n arbitrary: s i)
  case 0
  show ?case by auto
next
  case (Suc n)
  have ex: "(\<exists>j. i \<le> j \<and> j \<le> x \<and> t j = 0) \<longleftrightarrow> (\<exists>j. Suc i \<le> j \<and> j \<le> x \<and> t j = 0)"
    if "t i \<noteq> 0"
    using that by (metis Suc_leD Suc_leI le_neq_implies_less)
  show ?case
  proof (cases "t i \<noteq> 0")
    case True
    then have "strncpy_copy s t i (Suc n) x = strncpy_copy (s(i := t i)) t (Suc i) n x" by simp
    then show ?thesis unfolding Suc.IH using True ex [OF True] by auto
  next
    case False
    then show ?thesis by (auto simp: strncpy_zero_apply)
  qed
qed

lemma strncpy_apply:
  "strncpy s t n x =
     (if x < nat (sint n) then if \<exists>j\<le>x. t j = 0 then 0 else t x else s x)"
  by (simp add: strncpy_def strncpy_copy_apply)

lemma cprefix_strncpy: "cprefix (strncpy s t n) (nat (sint n)) = cprefix t (nat (sint n))"
proof -
  have eq: "takeWhile (\<lambda>c. c \<noteq> 0) (map (\<lambda>x. if \<exists>j\<le>x. t j = 0 then 0 else t x) [i..<i + k])
      = takeWhile (\<lambda>c. c \<noteq> 0) (map t [i..<i + k])"
    if "\<forall>j<i. t j \<noteq> 0" for i k
    using that
  proof (induction k arbitrary: i)
    case 0
    then show ?case by simp
  next
    case (Suc k)
    have upt: "[i..<i + Suc k] = i # [Suc i..<Suc i + k]"
      by (simp add: upt_conv_Cons del: upt_Suc)
    show ?case
    proof (cases "t i = 0")
      case True
      then show ?thesis by (auto simp: upt simp del: upt_Suc add_Suc_right)
    next
      case False
      then have "\<forall>j<Suc i. t j \<noteq> 0" using Suc.prems by (simp add: less_Suc_eq)
      moreover from this have "\<not> (\<exists>j\<le>i. t j = 0)" by auto
      ultimately show ?thesis
        using False Suc.IH [of "Suc i"] by (simp add: upt del: upt_Suc add_Suc_right)
    qed
  qed
  have "map (strncpy s t n) [0..<nat (sint n)]
      = map (\<lambda>x. if \<exists>j\<le>x. t j = 0 then 0 else t x) [0..<nat (sint n)]"
    by (simp add: strncpy_apply)
  with eq [of 0 "nat (sint n)"] show ?thesis
    by (simp only: cprefix_def add_0 not_less_zero simp_thms)
qed

lemma safestrcpy_copy_outside:
  "x < i \<or> i + n < x \<Longrightarrow> safestrcpy_copy s t i n x = s x"
  by (induction n arbitrary: s i) auto

lemma safestrcpy_copy_prefix:
  "takeWhile (\<lambda>c. c \<noteq> 0) (map (safestrcpy_copy s t i n) [i..<Suc (i + n)])
     = takeWhile (\<lambda>c. c \<noteq> 0) (map t [i..<i + n])"
proof (induction n arbitrary: s i)
  case 0
  show ?case by simp
next
  case (Suc n)
  have upt: "[i..<Suc (i + Suc n)] = i # [Suc i..<Suc (Suc i + n)]"
    "[i..<i + Suc n] = i # [Suc i..<Suc i + n]"
    by (simp_all add: upt_conv_Cons del: upt_Suc)
  show ?case
  proof (cases "t i = 0")
    case True
    then show ?thesis by (simp only: upt list.map) simp
  next
    case False
    have "safestrcpy_copy (s(i := t i)) t (Suc i) n i = t i"
      by (simp add: safestrcpy_copy_outside)
    moreover have "safestrcpy_copy s t i (Suc n) = safestrcpy_copy (s(i := t i)) t (Suc i) n"
      using False by simp
    ultimately show ?thesis
      using False by (simp only: upt list.map takeWhile.simps Suc.IH)
  qed
qed

lemma cprefix_safestrcpy:
  assumes "0 < sint n"
  shows "cprefix (safestrcpy s t n) (nat (sint n)) = cprefix t (nat (sint n) - 1)"
proof -
  from assms obtain k where k: "nat (sint n) = Suc k"
    by (metis Suc_pred' zero_less_nat_eq)
  then show ?thesis
    using assms safestrcpy_copy_prefix [of s t 0 k] by (simp add: cprefix_def safestrcpy_def)
qed

lemma safestrcpy_outside:
  "int x \<ge> sint n \<Longrightarrow> safestrcpy s t n x = s x"
  by (auto simp: safestrcpy_def intro!: safestrcpy_copy_outside)

lemma strlen_from_eq:
  assumes "s (i + k) = 0" and "\<And>j. j < k \<Longrightarrow> s (i + j) \<noteq> 0"
  shows "strlen_from s i = Some (i + k)"
  using assms
proof (induction k arbitrary: i)
  case 0
  then show ?case by (simp add: strlen_from.simps)
next
  case (Suc k)
  have "s i \<noteq> 0" using Suc.prems(2) [of 0] by simp
  moreover have "strlen_from s (Suc i) = Some (Suc i + k)"
    using Suc.prems(1) Suc.prems(2) [of "Suc j" for j] by (intro Suc.IH) auto
  ultimately show ?case by (simp add: strlen_from.simps [of s i])
qed

lemma strlen_cview:
  assumes "0 \<notin> set xs"
  shows "strlen (cview xs) = Some (length xs)"
proof -
  have "strlen_from (cview xs) 0 = Some (0 + length xs)"
    by (rule strlen_from_eq) (use assms in \<open>auto simp: cview_def dest: nth_mem\<close>)
  then show ?thesis by (simp add: strlen_def)
qed

lemma strcmp_from_eq:
  assumes "0 \<notin> set xs" and "0 \<notin> set ys"
    and "\<And>j. j < length xs \<Longrightarrow> p (i + j) = xs ! j" and "p (i + length xs) = 0"
    and "\<And>j. j < length ys \<Longrightarrow> q (i + j) = ys ! j" and "q (i + length ys) = 0"
  shows "\<exists>r. strcmp_from p q i = Some r \<and> (r = 0 \<longleftrightarrow> xs = ys)"
  using assms
proof (induction xs arbitrary: ys i)
  case Nil
  then have p: "p i = 0" by simp
  show ?case
  proof (cases ys)
    case Nil
    then show ?thesis using Nil p \<open>q (i + length ys) = 0\<close> by (simp add: strcmp_from.simps [of p q i])
  next
    case (Cons y ys')
    then have "q i = y" "y \<noteq> 0" using Nil.prems(2) Nil.prems(5) [of 0] by auto
    then show ?thesis using p Cons by (simp add: strcmp_from.simps [of p q i] uchar_uint_simps)
  qed
next
  case (Cons x xs)
  have p: "p i = x" "x \<noteq> 0" using Cons.prems(1) Cons.prems(3) [of 0] by auto
  show ?case
  proof (cases ys)
    case Nil
    then have "q i = 0" using Cons.prems(6) by simp
    then show ?thesis using p Nil by (simp add: strcmp_from.simps [of p q i] uchar_uint_simps)
  next
    case (Cons y ys')
    have q: "q i = y" using Cons.prems(5) [of 0] Cons by simp
    show ?thesis
    proof (cases "x = y")
      case True
      have "\<exists>r. strcmp_from p q (Suc i) = Some r \<and> (r = 0 \<longleftrightarrow> xs = ys')"
        using Cons.prems(1,2,4,6) Cons.prems(3) [of "Suc j" for j] Cons.prems(5) [of "Suc j" for j] Cons
        by (intro Cons.IH) auto
      then show ?thesis
        using True p q Cons by (simp add: strcmp_from.simps [of p q i])
    next
      case False
      then show ?thesis using p q Cons by (simp add: strcmp_from.simps [of p q i] uchar_uint_simps)
    qed
  qed
qed

lemma strcmp_cview:
  assumes "0 \<notin> set xs" and "0 \<notin> set ys"
  shows "\<exists>r. strcmp (cview xs) (cview ys) = Some r \<and> (r = 0 \<longleftrightarrow> xs = ys)"
  unfolding strcmp_def by (rule strcmp_from_eq) (use assms in \<open>auto simp: cview_def\<close>)

section \<open>Properties\<close>

text \<open>
  \<^verbatim>\<open>memset\<close>. Whichever of its two string instructions it chooses, the \<open>n\<close> bytes from \<open>dst\<close>
  become the low byte of \<open>c\<close> and no other byte of memory changes.
\<close>

theorem memset_fills:
  "memset m dst c n = (\<lambda>x. if unat (x - dst) < unat n then ucast c else m x)"
  by (rule ext) (rule memset_apply)

text \<open>
  \<^verbatim>\<open>memmove\<close> copies correctly whatever the overlap: if neither range wraps around the
  address space, the \<open>n\<close> bytes from \<open>dst\<close> become the bytes that \<open>src\<close> had before the call,
  and no other byte of memory changes.
\<close>

theorem memmove_overlap:
  assumes "unat src + unat n < 2 ^ 32" and "unat dst + unat n \<le> 2 ^ 32"
  shows "memmove m dst src n
    = (\<lambda>x. if unat (x - dst) < unat n then m (src + (x - dst)) else m x)"
  using memmove_copied [OF assms] by (simp add: copied_def)

theorem memmove_overlap_witness:
  "memmove (\<lambda>x. ucast x) 6 5 10 15 = (14 :: uchar) \<and> memmove (\<lambda>x. ucast x) 6 5 10 16 = (16 :: uchar)"
  using memmove_overlap [of 5 10 6 "\<lambda>x. ucast x"] by simp

text \<open>
  The string copies of the kernel. For a positive \<open>n\<close>, \<^verbatim>\<open>safestrcpy\<close> leaves a string that is
  terminated inside the \<open>n\<close> bytes of the buffer and is the longest prefix of the source that
  fits, and it writes nothing beyond the buffer. \<^verbatim>\<open>strncpy\<close> fills exactly \<open>n\<close> bytes, and the
  copy compares equal with its source.
\<close>

theorem string_copies:
  assumes "0 < sint n"
  shows "cprefix (safestrcpy s t n) (nat (sint n)) = cprefix t (nat (sint n) - 1)
    \<and> length (cprefix (safestrcpy s t n) (nat (sint n))) < nat (sint n)
    \<and> (\<forall>x. int x \<ge> sint n \<longrightarrow> safestrcpy s t n x = s x \<and> strncpy s t n x = s x)
    \<and> strncmp (strncpy s t n) t (nat (sint n)) = 0"
proof -
  have "length (cprefix t (nat (sint n) - 1)) < nat (sint n)"
    using length_cprefix [of t "nat (sint n) - 1"] assms by linarith
  moreover have "strncpy s t n x = s x" if "int x \<ge> sint n" for x
    using that by (subst strncpy_apply) auto
  ultimately show ?thesis
    using assms by (simp add: cprefix_safestrcpy safestrcpy_outside strncmp_eq_0 cprefix_strncpy)
qed

theorem string_copies_witness:
  "cprefix (safestrcpy (\<lambda>_. 7) (cview [97, 98, 99, 100]) 3) 3 = [97, 98]"
proof -
  have n: "sint (3 :: sint32) = 3" by code_simp
  have "[0..<2] = [0, 1 :: nat]" by code_simp
  then have "cprefix (cview [97, 98, 99, 100]) 2 = [97, 98]"
    by (simp add: cprefix_def cview_def)
  then show ?thesis
    using string_copies [of 3 "\<lambda>_. 7" "cview [97, 98, 99, 100]"] n by simp
qed

text \<open>
  The string comparisons. \<^verbatim>\<open>strncmp\<close> is 0 exactly for strings with the same first \<open>n\<close>
  bytes up to their end, and changing the order of its arguments changes its sign;
  \<^verbatim>\<open>memcmp\<close> is 0 exactly for equal blocks. On terminated strings \<^verbatim>\<open>strlen\<close> and the user
  library's \<^verbatim>\<open>strcmp\<close> end, with the length and with 0 exactly for equal strings.
\<close>

theorem string_comparisons:
  assumes "0 \<notin> set xs" and "0 \<notin> set ys"
  shows "(strncmp p q n = 0 \<longleftrightarrow> cprefix p n = cprefix q n) \<and> strncmp q p n = - strncmp p q n
    \<and> (memcmp p q n = 0 \<longleftrightarrow> map p [0..<n] = map q [0..<n])
    \<and> strlen (cview xs) = Some (length xs)
    \<and> (\<exists>r. strcmp (cview xs) (cview ys) = Some r \<and> (r = 0 \<longleftrightarrow> xs = ys))"
  using assms strcmp_cview [OF assms] strncmp_swap [of q p n]
  by (simp add: strncmp_eq_0 memcmp_eq_0 strlen_cview list_eq_iff_nth_eq)

theorem string_comparisons_witness:
  "strlen (cview [115, 104]) = Some 2 \<and> (\<exists>r. strcmp (cview [115, 104]) (cview [115]) = Some r \<and> r \<noteq> 0)"
  using string_comparisons [of "[115, 104]" "[115]"] by auto

end
