(* ===== verification/Ptable.thy ===== *)
theory Ptable
  imports Locks Cstring
begin

text \<open>
  The process table (\<^verbatim>\<open>proc.h\<close>) and the part of \<^verbatim>\<open>proc.c\<close> that every other component
  calls: the current process, sleeping on a channel and being woken, giving up the
  processor. Pointers to processes are indices into the table; the null
  pointer is \<^term>\<open>None\<close>. The trap frame and the saved context, which the code keeps in the
  process's own kernel stack page, are stored by value in the process.
\<close>

section \<open>\<^verbatim>\<open>param.h\<close>, \<^verbatim>\<open>types.h\<close>\<close>

definition NPROC :: nat where "NPROC = 64"
definition NOFILE :: nat where "NOFILE = 16"

definition SIG_DFL :: uint32 where "SIG_DFL = 0"
definition SIG_IGN :: uint32 where "SIG_IGN = 1"
definition SIGKILL :: nat where "SIGKILL = 9"
definition SIGSTOP :: nat where "SIGSTOP = 17"
definition SIGCONT :: nat where "SIGCONT = 19"

section \<open>\<^verbatim>\<open>proc.h\<close>, \<^verbatim>\<open>x86.h\<close>\<close>

record trapframe =
  tf_edi :: uint32
  tf_esi :: uint32
  tf_ebp :: uint32
  tf_oesp :: uint32
  tf_ebx :: uint32
  tf_edx :: uint32
  tf_ecx :: uint32
  tf_eax :: uint32
  tf_gs :: ushort
  tf_padding1 :: ushort
  tf_fs :: ushort
  tf_padding2 :: ushort
  tf_es :: ushort
  tf_padding3 :: ushort
  tf_ds :: ushort
  tf_padding4 :: ushort
  tf_trapno :: uint32
  tf_err :: uint32
  tf_eip :: uint32
  tf_cs :: ushort
  tf_padding5 :: ushort
  tf_eflags :: uint32
  tf_esp :: uint32
  tf_ss :: ushort
  tf_padding6 :: ushort

record contxt =
  ctx_edi :: uint32
  ctx_esi :: uint32
  ctx_ebx :: uint32
  ctx_ebp :: uint32
  ctx_eip :: uint32

datatype procstate = UNUSED | EMBRYO | SLEEPING | RUNNABLE | RUNNING | ZOMBIE

text \<open>\<^verbatim>\<open>ofile\<close> points into the file table, \<^verbatim>\<open>cwd\<close> into the inode cache.\<close>

record proc =
  p_sz :: uint32
  p_pgdir :: uint32
  p_kstack :: uint32
  p_state :: procstate
  p_pid :: sint32
  p_parent :: "nat option"
  p_tf :: trapframe
  p_context :: contxt
  p_chan :: "chan option"
  p_killed :: bool
  p_ofile :: "nat option list"
  p_cwd :: "nat option"
  p_name :: "uchar list"
  p_pending_signals :: uint32
  p_signal_mask :: uint32
  p_signal_handlers :: "uint32 list"
  p_user_trap_fram_backup :: uint32
  p_freeze :: bool
  p_old_signal_mask :: uint32

text \<open>
  The process table and the globals of \<^verbatim>\<open>proc.c\<close> and \<^verbatim>\<open>trap.c\<close>; \<open>cur\<close> is \<^verbatim>\<open>c->proc\<close> of the
  executing processor and \<open>firstrun\<close> the static variable of \<^verbatim>\<open>forkret\<close>.
\<close>

record ptab = locks +
  procs :: "proc list"
  cur :: "nat option"
  initproc :: "nat option"
  nextpid :: sint32
  ticks :: uint32
  firstrun :: bool

definition upd_proc :: "nat \<Rightarrow> (proc \<Rightarrow> proc) \<Rightarrow> ('z ptab_scheme, unit) kop" where
  "upd_proc i f = kmod (\<lambda>s. s\<lparr>procs := (procs s)[i := f (procs s ! i)]\<rparr>)"

definition get_proc :: "nat \<Rightarrow> (proc \<Rightarrow> 'a) \<Rightarrow> ('z ptab_scheme, 'a) kop" where
  "get_proc i f = kget (\<lambda>s. f (procs s ! i))"

section \<open>\<^verbatim>\<open>proc.c\<close>\<close>

definition myproc :: "('z ptab_scheme, nat option) kop" where
  "myproc = kget cur"

text \<open>\<^verbatim>\<open>myproc()->\<close>\<dots>: dereferencing the null pointer is a fault.\<close>

definition curproc :: "('z ptab_scheme, nat) kop" where
  "curproc = kbind myproc (\<lambda>p. case p of Some i \<Rightarrow> kret i | None \<Rightarrow> kfault ''null process'')"

definition allocpid :: "('z ptab_scheme, sint32) kop" where
  "allocpid =
     kseq (acquire PtableLock)
    (kbind (kget nextpid) (\<lambda>pid.
     kseq (kmod (\<lambda>s. s\<lparr>nextpid := nextpid s + 1\<rparr>))
    (kseq (release PtableLock)
          (kret pid))))"

text \<open>
  \<^verbatim>\<open>sched\<close>. Each processor counts in \<^verbatim>\<open>ncli\<close> the locks it holds and has interrupts off
  while it holds one. \<^verbatim>\<open>swtch\<close> leaves the kernel thread.
\<close>

definition swtch :: "('z ptab_scheme, unit) kop" where
  "swtch = (\<lambda>s. Swtch s)"

definition sched :: "('z ptab_scheme, unit) kop" where
  "sched =
     kbind curproc (\<lambda>p.
     kbind (kget held) (\<lambda>h.
     kseq (kcheck (PtableLock \<notin> h) ''sched ptable.lock'')
    (kseq (kcheck (card h \<noteq> 1) ''sched locks'')
    (kbind (get_proc p p_state) (\<lambda>st.
     kseq (kcheck (st = RUNNING) ''sched running'')
    (kseq (kcheck (h = {}) ''sched interruptible'')
          swtch))))))"

definition yield :: "('z ptab_scheme, unit) kop" where
  "yield =
     kseq (acquire PtableLock)
    (kbind curproc (\<lambda>p.
     kseq (upd_proc p (\<lambda>q. q\<lparr>p_state := RUNNABLE\<rparr>))
    (kseq sched
          (release PtableLock))))"

text \<open>
  \<^verbatim>\<open>sleep\<close> and \<^verbatim>\<open>wakeup\<close> as sequences of actions on the locks and the table. Here they run one after the
  other; theory \<open>Sleepwake\<close> runs the same sequences interleaved with those of other processors.
\<close>

datatype act = Acq lockid | Rel lockid | Upd "proc list \<Rightarrow> proc list"

primrec run_act :: "act \<Rightarrow> ('z ptab_scheme, unit) kop" where
  "run_act (Acq l) = acquire l"
| "run_act (Rel l) = release l"
| "run_act (Upd f) = kmod (\<lambda>s. s\<lparr>procs := f (procs s)\<rparr>)"

primrec run_acts :: "act list \<Rightarrow> ('z ptab_scheme, unit) kop" where
  "run_acts [] = kret ()"
| "run_acts (a # as) = kseq (run_act a) (run_acts as)"

definition at_proc :: "nat \<Rightarrow> (proc \<Rightarrow> proc) \<Rightarrow> act" where
  "at_proc p f = Upd (\<lambda>ps. ps[p := f (ps ! p)])"

text \<open>\<^verbatim>\<open>sleep\<close> up to its call of \<^verbatim>\<open>sched\<close>, and what it does when it is run again.\<close>

definition sleep_acts :: "nat \<Rightarrow> chan \<Rightarrow> lockid \<Rightarrow> act list" where
  "sleep_acts p ch lk =
     (if lk \<noteq> PtableLock then [Acq PtableLock, Rel lk] else []) @
     [at_proc p (\<lambda>q. q\<lparr>p_chan := Some ch\<rparr>), at_proc p (\<lambda>q. q\<lparr>p_state := SLEEPING\<rparr>)]"

definition resume_acts :: "nat \<Rightarrow> lockid \<Rightarrow> act list" where
  "resume_acts p lk =
     [at_proc p (\<lambda>q. q\<lparr>p_chan := None\<rparr>)] @
     (if lk \<noteq> PtableLock then [Rel PtableLock, Acq lk] else [])"

definition sleep_resume :: "lockid \<Rightarrow> ('z ptab_scheme, unit) kop" where
  "sleep_resume lk = kbind curproc (\<lambda>p. run_acts (resume_acts p lk))"

definition sleep :: "chan \<Rightarrow> lockid option \<Rightarrow> ('z ptab_scheme, unit) kop" where
  "sleep ch lko =
     kbind myproc (\<lambda>po. case po of None \<Rightarrow> kpanic ''sleep'' | Some p \<Rightarrow>
      case lko of None \<Rightarrow> kpanic ''sleep without lk'' | Some lk \<Rightarrow>
       kseq (run_acts (sleep_acts p ch lk))
      (kseq sched
            (sleep_resume lk)))"

text \<open>The loop of \<^verbatim>\<open>wakeup1\<close> over the table.\<close>

definition woken :: "chan option \<Rightarrow> proc list \<Rightarrow> proc list" where
  "woken ch ps = map (\<lambda>p. if p_state p = SLEEPING \<and> p_chan p = ch
                          then p\<lparr>p_state := RUNNABLE\<rparr> else p) ps"

definition wakeup1 :: "chan option \<Rightarrow> ('z ptab_scheme, unit) kop" where
  "wakeup1 ch = run_act (Upd (woken ch))"

definition wakeup_acts :: "chan \<Rightarrow> act list" where
  "wakeup_acts ch = [Acq PtableLock, Upd (woken (Some ch)), Rel PtableLock]"

definition wakeup :: "chan \<Rightarrow> ('z ptab_scheme, unit) kop" where
  "wakeup ch = run_acts (wakeup_acts ch)"

definition sigprocmask :: "uint32 \<Rightarrow> ('z ptab_scheme, uint32) kop" where
  "sigprocmask sigmask =
     kbind curproc (\<lambda>p.
     kbind (get_proc p p_signal_mask) (\<lambda>old.
     kseq (upd_proc p (\<lambda>q. q\<lparr>p_signal_mask := sigmask\<rparr>))
          (kret old)))"

definition SIGSTOP_handler :: "('z ptab_scheme, unit) kop" where
  "SIGSTOP_handler =
     kbind curproc (\<lambda>p.
     kbind (get_proc p p_state) (\<lambda>st.
     if st = SLEEPING then kret () else upd_proc p (\<lambda>q. q\<lparr>p_freeze := True\<rparr>)))"

definition SIGCONT_handler :: "('z ptab_scheme, unit) kop" where
  "SIGCONT_handler = kbind curproc (\<lambda>p. upd_proc p (\<lambda>q. q\<lparr>p_freeze := False\<rparr>))"

section \<open>Evaluation\<close>

lemmas proc_ops = upd_proc_def get_proc_def myproc_def curproc_def swtch_def

lemma upd_proc_run [run, simp]:
  "upd_proc i f s = Ok () (s\<lparr>procs := (procs s)[i := f (procs s ! i)]\<rparr>)"
  by (simp add: upd_proc_def)

lemma get_proc_run [run, simp]: "get_proc i f s = Ok (f (procs s ! i)) s"
  by (simp add: get_proc_def)

lemma myproc_run [run, simp]: "myproc s = Ok (cur s) s"
  by (simp add: myproc_def)

lemma curproc_run [run, simp]:
  "curproc s = (case cur s of Some i \<Rightarrow> Ok i s | None \<Rightarrow> Fault ''null process'')"
  by (simp add: curproc_def run split: option.split)

lemma wakeup1_run [run, simp]:
  "wakeup1 ch s = Ok () (s\<lparr>procs := woken ch (procs s)\<rparr>)"
  by (simp add: wakeup1_def)

lemma wp_upd_proc [wp]:
  "wpk (upd_proc i f) Q s = Q () (s\<lparr>procs := (procs s)[i := f (procs s ! i)]\<rparr>)"
  by (simp add: wpk_def)

lemma wp_get_proc [wp]: "wpk (get_proc i f) Q s = Q (f (procs s ! i)) s"
  by (simp add: wpk_def)

lemma wp_myproc [wp]: "wpk myproc Q s = Q (cur s) s"
  by (simp add: wpk_def)

lemma wp_curproc [wp]: "wpk curproc Q s \<longleftrightarrow> (\<exists>i. cur s = Some i \<and> Q i s)"
  by (simp add: wpk_def split: option.split)

lemma wp_wakeup1 [wp]:
  "wpk (wakeup1 ch) Q s = Q () (s\<lparr>procs := woken ch (procs s)\<rparr>)"
  by (simp add: wpk_def)

lemma wakeup_run [run]:
  "PtableLock \<notin> held s \<Longrightarrow> wakeup ch s = Ok () (s\<lparr>procs := woken (Some ch) (procs s)\<rparr>)"
  by (simp add: wakeup_def wakeup_acts_def run)

lemma allocpid_run [run]:
  "PtableLock \<notin> held s \<Longrightarrow> allocpid s = Ok (nextpid s) (s\<lparr>nextpid := nextpid s + 1\<rparr>)"
  by (simp add: allocpid_def run)

lemma sched_run [run]:
  "sched s = (case cur s of None \<Rightarrow> Fault ''null process'' | Some p \<Rightarrow>
     if PtableLock \<notin> held s then Panic ''sched ptable.lock''
     else if held s \<noteq> {PtableLock} then Panic ''sched locks''
     else if p_state (procs s ! p) = RUNNING then Panic ''sched running''
     else Swtch s)"
proof (cases "PtableLock \<in> held s")
  case True
  then have "card (held s) = 1 \<longleftrightarrow> held s = {PtableLock}"
    by (auto simp: card_1_singleton_iff)
  with True show ?thesis
    by (auto simp: sched_def run swtch_def split: option.split)
next
  case False
  then show ?thesis by (simp add: sched_def run split: option.split)
qed

section \<open>Waking\<close>

lemma length_woken [simp]: "length (woken ch ps) = length ps"
  by (simp add: woken_def)

lemma woken_nth:
  "i < length ps \<Longrightarrow> woken ch ps ! i =
     (if p_state (ps ! i) = SLEEPING \<and> p_chan (ps ! i) = ch then (ps ! i)\<lparr>p_state := RUNNABLE\<rparr>
      else ps ! i)"
  by (simp add: woken_def)

text \<open>Two tables that differ only in that some sleeping processes have become runnable: all
  that releasing a lock or finishing a transaction does to the processes.\<close>

definition roused :: "proc list \<Rightarrow> proc list \<Rightarrow> bool" where
  "roused ps qs \<longleftrightarrow> length qs = length ps \<and> (\<forall>i<length ps. qs ! i = ps ! i \<or>
     p_state (ps ! i) = SLEEPING \<and> qs ! i = (ps ! i)\<lparr>p_state := RUNNABLE\<rparr>)"

lemma roused_refl [simp, intro]: "roused ps ps"
  by (simp add: roused_def)

lemma roused_woken [simp, intro]: "roused ps (woken ch ps)"
  by (simp add: roused_def woken_nth)

lemma roused_trans [trans]: "roused ps qs \<Longrightarrow> roused qs rs \<Longrightarrow> roused ps rs"
  by (fastforce simp: roused_def)

lemma rousedD:
  assumes "roused ps qs"
  shows "length qs = length ps"
    and "i < length ps \<Longrightarrow> p_state (ps ! i) \<noteq> SLEEPING \<Longrightarrow> qs ! i = ps ! i"
    and "i < length ps \<Longrightarrow> p_pid (qs ! i) = p_pid (ps ! i)"
    and "i < length ps \<Longrightarrow> p_ofile (qs ! i) = p_ofile (ps ! i)"
    and "i < length ps \<Longrightarrow> p_cwd (qs ! i) = p_cwd (ps ! i)"
    and "i < length ps \<Longrightarrow> p_killed (qs ! i) = p_killed (ps ! i)"
  using assms by (auto simp: roused_def dest: spec [of _ i])

section \<open>Sleeping\<close>

lemma sleep_unfold:
  assumes "cur s = Some p"
  shows "sleep ch (Some lk) s =
    kseq (kwhen (lk \<noteq> PtableLock) (kseq (acquire PtableLock) (release lk)))
   (kseq (upd_proc p (\<lambda>q. q\<lparr>p_chan := Some ch\<rparr>))
   (kseq (upd_proc p (\<lambda>q. q\<lparr>p_state := SLEEPING\<rparr>))
   (kseq sched (sleep_resume lk)))) s"
  using assms by (cases "lk = PtableLock") (auto simp: sleep_def sleep_acts_def at_proc_def run_bind run_seq split: outcome.splits)

lemma sleep_run:
  assumes "cur s = Some p" and "lk \<noteq> PtableLock" and "p < length (procs s)"
  shows "sleep ch (Some lk) s =
    (if PtableLock \<in> held s then Panic ''acquire''
     else if lk \<notin> held s then Panic ''release''
     else if held s \<noteq> {lk} then Panic ''sched locks''
     else Swtch (s\<lparr>held := {PtableLock}, procs := (procs s)
       [p := (procs s ! p)\<lparr>p_chan := Some ch, p_state := SLEEPING\<rparr>]\<rparr>))"
proof -
  consider "PtableLock \<in> held s" | "PtableLock \<notin> held s" "lk \<notin> held s"
    | "held s = {lk}"
    | "PtableLock \<notin> held s" "lk \<in> held s" "held s \<noteq> {lk}" by blast
  then show ?thesis
  proof cases
    case 3
    moreover have "{PtableLock, lk} - {lk} = {PtableLock}" using assms(2) by auto
    ultimately show ?thesis using assms by (simp add: sleep_unfold run_bind run_seq sched_run)
  next
    case 4
    obtain l where "l \<in> held s" "l \<noteq> lk" using 4 by blast
    then have "l \<in> insert PtableLock (held s) - {lk}" and "l \<noteq> PtableLock" using 4(1) by auto
    then have "insert PtableLock (held s) - {lk} \<noteq> {PtableLock}" by (metis singletonD)
    moreover have "sleep ch (Some lk) s =
        (if insert PtableLock (held s) - {lk} = {PtableLock}
         then sleep ch (Some lk) s else Panic ''sched locks'')"
      using 4(1,2) assms by (simp add: sleep_unfold run_bind run_seq sched_run)
    ultimately show ?thesis using 4 by simp
  qed (use assms in \<open>simp_all add: sleep_unfold run_bind run_seq\<close>)
qed

lemma sleep_resume_run:
  assumes "cur s = Some p" and "lk \<noteq> PtableLock" and "held s = {PtableLock}"
  shows "sleep_resume lk s =
    Ok () (s\<lparr>held := {lk}, procs := (procs s)[p := (procs s ! p)\<lparr>p_chan := None\<rparr>]\<rparr>)"
  using assms by (simp add: sleep_resume_def resume_acts_def at_proc_def run)

text \<open>
  Seen from one process: \<^verbatim>\<open>sleep\<close> leaves the processor with \<open>lk\<close> released, the process \<^term>\<open>SLEEPING\<close> on \<open>ch\<close> and
  the table locked. Once the scheduler has released the table (\<open>held := {}\<close>), a \<^verbatim>\<open>wakeup(ch)\<close> makes the process
  runnable. When it is dispatched again, in any state \<open>v\<close> in which the table is as \<open>wakeup\<close> left it, it returns from
  \<^verbatim>\<open>sleep\<close> with the channel cleared, holding \<open>lk\<close> again and nothing else.
\<close>

lemma sleep_wakeup_resume:
  fixes s :: "'z ptab_scheme"
  assumes "cur s = Some p" and "p < length (procs s)" and "lk \<noteq> PtableLock" and "held s = {lk}"
  shows "\<exists>t u. sleep ch (Some lk) s = Swtch t \<and> held t = {PtableLock}
    \<and> p_state (procs t ! p) = SLEEPING \<and> p_chan (procs t ! p) = Some ch
    \<and> (\<forall>q. q \<noteq> p \<longrightarrow> procs t ! q = procs s ! q)
    \<and> wakeup ch (t\<lparr>held := {}\<rparr>) = Ok () u \<and> p_state (procs u ! p) = RUNNABLE
    \<and> (\<forall>v :: 'z ptab_scheme. procs v = procs u \<and> cur v = Some p \<and> held v = {PtableLock} \<longrightarrow>
         (\<exists>w. sleep_resume lk v = Ok () w \<and> held w = {lk} \<and> p_chan (procs w ! p) = None))"
proof -
  define t where "t = s\<lparr>held := {PtableLock}, procs := (procs s)
    [p := (procs s ! p)\<lparr>p_chan := Some ch, p_state := SLEEPING\<rparr>]\<rparr>"
  define u where "u = t\<lparr>held := {}, procs := woken (Some ch) (procs t)\<rparr>"
  have "sleep ch (Some lk) s = Swtch t"
    using assms by (simp add: sleep_run t_def)
  moreover have "wakeup ch (t\<lparr>held := {}\<rparr>) = Ok () u"
    by (simp add: wakeup_run u_def)
  moreover have "p < length (procs u)" and "p < length (procs t)"
    using assms(2) by (simp_all add: u_def t_def)
  moreover have "\<exists>w. sleep_resume lk v = Ok () w \<and> held w = {lk} \<and> p_chan (procs w ! p) = None"
    if "procs v = procs u" "cur v = Some p" "held v = {PtableLock}" for v :: "'z ptab_scheme"
    using that assms(3) calculation(3) by (simp add: sleep_resume_run)
  moreover have "p_state (procs u ! p) = RUNNABLE"
    using assms(2) by (simp add: u_def t_def woken_nth)
  moreover have "held t = {PtableLock} \<and> p_state (procs t ! p) = SLEEPING
      \<and> p_chan (procs t ! p) = Some ch \<and> (\<forall>q. q \<noteq> p \<longrightarrow> procs t ! q = procs s ! q)"
    using assms(2) by (simp add: t_def)
  ultimately show ?thesis by (intro exI [of _ t] exI [of _ u]) simp
qed

text \<open>A two-process table: the first runs, the second is not in use.\<close>

definition idle_tf :: trapframe where
  "idle_tf = \<lparr>tf_edi = 0, tf_esi = 0, tf_ebp = 0, tf_oesp = 0, tf_ebx = 0, tf_edx = 0, tf_ecx = 0,
     tf_eax = 0, tf_gs = 0, tf_padding1 = 0, tf_fs = 0, tf_padding2 = 0, tf_es = 0,
     tf_padding3 = 0, tf_ds = 0, tf_padding4 = 0, tf_trapno = 0, tf_err = 0, tf_eip = 0,
     tf_cs = 0, tf_padding5 = 0, tf_eflags = 0, tf_esp = 0, tf_ss = 0, tf_padding6 = 0\<rparr>"

definition idle_proc :: proc where
  "idle_proc = \<lparr>p_sz = 0, p_pgdir = 0, p_kstack = 0, p_state = UNUSED, p_pid = 0,
     p_parent = None, p_tf = idle_tf,
     p_context = \<lparr>ctx_edi = 0, ctx_esi = 0, ctx_ebx = 0, ctx_ebp = 0, ctx_eip = 0\<rparr>,
     p_chan = None, p_killed = False, p_ofile = replicate NOFILE None, p_cwd = None,
     p_name = replicate 16 0, p_pending_signals = 0, p_signal_mask = 0,
     p_signal_handlers = replicate 32 0, p_user_trap_fram_backup = 0, p_freeze = False,
     p_old_signal_mask = 0\<rparr>"

definition demo_ptab :: ptab where
  "demo_ptab = \<lparr>held = {}, procs = [idle_proc\<lparr>p_state := RUNNING, p_pid := 1\<rparr>, idle_proc],
     cur = Some 0, initproc = Some 0, nextpid = 2, ticks = 0, firstrun = False\<rparr>"

end
