(* ===== verification/Sleeplock.thy ===== *)
theory Sleeplock
  imports Ptable
begin

text \<open>
  Sleep locks (\<^verbatim>\<open>sleeplock.c\<close>): a flag protected by a spin lock, on which processes wait with
  \<^verbatim>\<open>sleep\<close>. A buffer and an in-memory inode have one each; \<open>slks\<close> holds them all.
\<close>

section \<open>\<^verbatim>\<open>sleeplock.h\<close>, \<^verbatim>\<open>sleeplock.c\<close>\<close>

record sleeplock =
  sl_locked :: bool
  sl_name :: string
  sl_pid :: sint32

record sleeps = ptab +
  slks :: "slkid \<Rightarrow> sleeplock"

definition initsleeplock :: "slkid \<Rightarrow> string \<Rightarrow> ('z sleeps_scheme, unit) kop" where
  "initsleeplock l nm = kmod (\<lambda>s. s\<lparr>slks := (slks s)(l := \<lparr>sl_locked = False, sl_name = nm, sl_pid = 0\<rparr>)\<rparr>)"

text \<open>
  The body of \<^verbatim>\<open>acquiresleep\<close> from the head of its loop. Where the lock is taken, \<^verbatim>\<open>sleep\<close>
  leaves the processor; the process that is dispatched again goes on at
  \<open>acquiresleep_resume\<close>, which finishes \<^verbatim>\<open>sleep\<close> and comes back to the head of the loop.
\<close>

definition acquiresleep_loop :: "slkid \<Rightarrow> ('z sleeps_scheme, unit) kop" where
  "acquiresleep_loop l =
     kbind (kget (\<lambda>s. sl_locked (slks s l))) (\<lambda>locked.
     if locked then sleep (ChanSleep l) (Some (SleepSpin l))
     else
       kseq (kmod (\<lambda>s. s\<lparr>slks := (slks s)(l := (slks s l)\<lparr>sl_locked := True\<rparr>)\<rparr>))
      (kbind curproc (\<lambda>p.
       kbind (get_proc p p_pid) (\<lambda>pid.
       kseq (kmod (\<lambda>s. s\<lparr>slks := (slks s)(l := (slks s l)\<lparr>sl_pid := pid\<rparr>)\<rparr>))
            (release (SleepSpin l))))))"

definition acquiresleep :: "slkid \<Rightarrow> ('z sleeps_scheme, unit) kop" where
  "acquiresleep l = kseq (acquire (SleepSpin l)) (acquiresleep_loop l)"

definition acquiresleep_resume :: "slkid \<Rightarrow> ('z sleeps_scheme, unit) kop" where
  "acquiresleep_resume l = kseq (sleep_resume (SleepSpin l)) (acquiresleep_loop l)"

definition releasesleep :: "slkid \<Rightarrow> ('z sleeps_scheme, unit) kop" where
  "releasesleep l =
     kseq (acquire (SleepSpin l))
    (kseq (kmod (\<lambda>s. s\<lparr>slks := (slks s)(l := (slks s l)\<lparr>sl_locked := False, sl_pid := 0\<rparr>)\<rparr>))
    (kseq (wakeup (ChanSleep l))
          (release (SleepSpin l))))"

definition holdingsleep :: "slkid \<Rightarrow> ('z sleeps_scheme, bool) kop" where
  "holdingsleep l =
     kseq (acquire (SleepSpin l))
    (kbind (kget (\<lambda>s. slks s l)) (\<lambda>lk.
     kbind (if sl_locked lk then kbind curproc (\<lambda>p. get_proc p (\<lambda>q. sl_pid lk = p_pid q))
            else kret False) (\<lambda>r.
     kseq (release (SleepSpin l)) (kret r))))"

section \<open>What the operations do\<close>

definition sl_take :: "slkid \<Rightarrow> 'z sleeps_scheme \<Rightarrow> 'z sleeps_scheme" where
  "sl_take l s = s\<lparr>slks := (slks s)(l := (slks s l)\<lparr>sl_locked := True,
     sl_pid := p_pid (procs s ! the (cur s))\<rparr>)\<rparr>"

definition sl_give :: "slkid \<Rightarrow> 'z sleeps_scheme \<Rightarrow> 'z sleeps_scheme" where
  "sl_give l s = s\<lparr>procs := woken (Some (ChanSleep l)) (procs s),
     slks := (slks s)(l := (slks s l)\<lparr>sl_locked := False, sl_pid := 0\<rparr>)\<rparr>"

definition sl_mine :: "slkid \<Rightarrow> 'z sleeps_scheme \<Rightarrow> bool" where
  "sl_mine l s \<longleftrightarrow> sl_locked (slks s l) \<and> sl_pid (slks s l) = p_pid (procs s ! the (cur s))"

lemma sl_fields [simp]:
  "held (sl_take l s) = held s" "procs (sl_take l s) = procs s" "cur (sl_take l s) = cur s"
  "held (sl_give l s) = held s" "cur (sl_give l s) = cur s"
  "procs (sl_give l s) = woken (Some (ChanSleep l)) (procs s)"
  "slks (sl_give l s) = (slks s)(l := (slks s l)\<lparr>sl_locked := False, sl_pid := 0\<rparr>)"
  "slks (sl_take l s) = (slks s)(l := (slks s l)\<lparr>sl_locked := True,
     sl_pid := p_pid (procs s ! the (cur s))\<rparr>)"
  by (simp_all add: sl_take_def sl_give_def)

lemma acquiresleep_run [run]:
  assumes "cur s = Some p" and "SleepSpin l \<notin> held s" and "\<not> sl_locked (slks s l)"
  shows "acquiresleep l s = Ok () (sl_take l s)"
  using assms by (simp add: acquiresleep_def acquiresleep_loop_def run sl_take_def)

lemma wp_acquiresleep [wp]:
  assumes "cur s = Some p" and "SleepSpin l \<notin> held s" and "\<not> sl_locked (slks s l)"
  shows "wpk (acquiresleep l) Q s = Q () (sl_take l s)"
  by (simp add: wpk_def acquiresleep_run [OF assms])

lemma releasesleep_run [run]:
  assumes "SleepSpin l \<notin> held s" and "PtableLock \<notin> held s"
  shows "releasesleep l s = Ok () (sl_give l s)"
  using assms by (simp add: releasesleep_def run sl_give_def)

lemma wp_releasesleep [wp]:
  assumes "SleepSpin l \<notin> held s" and "PtableLock \<notin> held s"
  shows "wpk (releasesleep l) Q s = Q () (sl_give l s)"
  by (simp add: wpk_def releasesleep_run [OF assms])

lemma holdingsleep_run [run]:
  assumes "cur s = Some p" and "SleepSpin l \<notin> held s"
  shows "holdingsleep l s = Ok (sl_mine l s) s"
  using assms by (simp add: holdingsleep_def run sl_mine_def)

lemma wp_holdingsleep [wp]:
  assumes "cur s = Some p" and "SleepSpin l \<notin> held s"
  shows "wpk (holdingsleep l) Q s = Q (sl_mine l s) s"
  by (simp add: wpk_def holdingsleep_run [OF assms])

lemma acquiresleep_taken:
  assumes "cur s = Some p" and "p < length (procs s)" and "held s = {}"
    and "sl_locked (slks s l)"
  shows "acquiresleep l s = Swtch (s\<lparr>held := {PtableLock}, procs := (procs s)
       [p := (procs s ! p)\<lparr>p_chan := Some (ChanSleep l), p_state := SLEEPING\<rparr>]\<rparr>)"
  using assms by (simp add: acquiresleep_def acquiresleep_loop_def run sleep_run)

lemma sl_mine_take [simp]: "sl_mine l (sl_take l s)"
  by (simp add: sl_mine_def)

text \<open>
  C23. A sleep lock is handed over. A process \<open>p\<close> that finds the lock taken, holding no spin lock,
  goes to sleep without changing the lock. When the holder, in any later state \<open>t\<close> in which
  \<open>p\<close> still sleeps on the lock, calls \<^verbatim>\<open>releasesleep\<close>, \<open>p\<close> becomes runnable and the lock is
  free. Dispatched in a state \<open>v\<close> in which the lock is still free, \<open>p\<close> returns from
  \<^verbatim>\<open>acquiresleep\<close> as the holder, with no spin lock held; dispatched in one in which another
  process was faster, it is asleep again.
\<close>

theorem sleeplock_handover:
  fixes s t v :: "'z sleeps_scheme"
  assumes "cur s = Some p" and "p < length (procs s)" and "held s = {}" and "sl_locked (slks s l)"
    and "held t = {}" and "p < length (procs t)" and "p_state (procs t ! p) = SLEEPING"
    and "p_chan (procs t ! p) = Some (ChanSleep l)"
    and "cur v = Some p" and "p < length (procs v)" and "held v = {PtableLock}"
  shows "(\<exists>s' t'. acquiresleep l s = Swtch s' \<and> slks s' = slks s
        \<and> p_state (procs s' ! p) = SLEEPING \<and> p_chan (procs s' ! p) = Some (ChanSleep l)
        \<and> releasesleep l t = Ok () t' \<and> p_state (procs t' ! p) = RUNNABLE
        \<and> \<not> sl_locked (slks t' l) \<and> (\<forall>k. k \<noteq> l \<longrightarrow> slks t' k = slks t k))
    \<and> (if sl_locked (slks v l)
       then \<exists>v'. acquiresleep_resume l v = Swtch v' \<and> held v' = {PtableLock}
         \<and> p_state (procs v' ! p) = SLEEPING \<and> p_chan (procs v' ! p) = Some (ChanSleep l)
       else \<exists>v'. acquiresleep_resume l v = Ok () v' \<and> held v' = {}
         \<and> sl_locked (slks v' l) \<and> sl_pid (slks v' l) = p_pid (procs v ! p))"
    (is "?handed \<and> ?dispatched")
proof
  show ?handed
    using assms(1-8) by (simp add: acquiresleep_taken releasesleep_run woken_nth)
  show ?dispatched
    using assms(9-)
    by (simp add: acquiresleep_resume_def acquiresleep_loop_def sleep_resume_run sleep_run run)
qed

definition demo_sleeps :: sleeps where
  "demo_sleeps = ptab.extend demo_ptab
     \<lparr>slks = \<lambda>l. \<lparr>sl_locked = l = InodeSL 0, sl_name = ''inode'', sl_pid = if l = InodeSL 0 then 7 else 0\<rparr>\<rparr>"

lemmas demo_sleeps_defs = demo_sleeps_def ptab.extend_def demo_ptab_def

theorem sleeplock_handover_witness:
  "\<exists>v'. acquiresleep_resume (InodeSL 0) (demo_sleeps\<lparr>held := {PtableLock}, slks := (slks demo_sleeps)
       (InodeSL 0 := \<lparr>sl_locked = False, sl_name = ''inode'', sl_pid = 0\<rparr>)\<rparr>) = Ok () v'
     \<and> sl_pid (slks v' (InodeSL 0)) = 1"
proof -
  have "cur demo_sleeps = Some 0" and "0 < length (procs demo_sleeps)" and "held demo_sleeps = {}"
    and "sl_locked (slks demo_sleeps (InodeSL 0))"
    by (simp_all add: demo_sleeps_defs)
  note s = this
  let ?t = "demo_sleeps\<lparr>procs := [idle_proc\<lparr>p_chan := Some (ChanSleep (InodeSL 0)), p_state := SLEEPING\<rparr>]\<rparr>"
  have "held ?t = {}" and "0 < length (procs ?t)" and "p_state (procs ?t ! 0) = SLEEPING"
    and "p_chan (procs ?t ! 0) = Some (ChanSleep (InodeSL 0))"
    by (simp_all add: demo_sleeps_defs)
  note t = this
  let ?v = "demo_sleeps\<lparr>held := {PtableLock}, slks := (slks demo_sleeps)
       (InodeSL 0 := \<lparr>sl_locked = False, sl_name = ''inode'', sl_pid = 0\<rparr>)\<rparr>"
  have "cur ?v = Some 0" and "0 < length (procs ?v)" and "held ?v = {PtableLock}"
    by (simp_all add: demo_sleeps_defs)
  note v = this
  have "\<not> sl_locked (slks ?v (InodeSL 0))" and "p_pid (procs ?v ! 0) = 1"
    by (simp_all add: demo_sleeps_defs)
  then show ?thesis
    using sleeplock_handover [OF s t v] by (simp only: if_False) blast
qed

end
