(* ===== verification/Kalloc.thy ===== *)
theory Kalloc
  imports Sleeplock
begin

text \<open>
  Physical memory and its allocator (\<^verbatim>\<open>kalloc.c\<close>). Memory is byte-addressed by kernel virtual
  addresses; the free list is threaded through the first word of the free pages, as the code
  has it. The allocator is proved to implement a set of free pages, and clients use it
  through that contract.
\<close>

section \<open>\<^verbatim>\<open>mmu.h\<close>, \<^verbatim>\<open>memlayout.h\<close>\<close>

definition PGSIZE :: uint32 where "PGSIZE = 4096"
definition PHYSTOP :: uint32 where "PHYSTOP = 0xE000000"
definition KERNBASE :: uint32 where "KERNBASE = 0x80000000"

definition V2P :: "uint32 \<Rightarrow> uint32" where "V2P a = a - KERNBASE"
definition P2V :: "uint32 \<Rightarrow> uint32" where "P2V a = a + KERNBASE"

definition PGROUNDUP :: "uint32 \<Rightarrow> uint32" where
  "PGROUNDUP sz = (sz + PGSIZE - 1) AND NOT (PGSIZE - 1)"

definition PGROUNDDOWN :: "uint32 \<Rightarrow> uint32" where
  "PGROUNDDOWN a = a AND NOT (PGSIZE - 1)"

section \<open>\<^verbatim>\<open>kalloc.c\<close>\<close>

text \<open>\<open>kend\<close> is the linker symbol \<^verbatim>\<open>end\<close>, the first address after the kernel image.\<close>

record kmem = sleeps +
  physmem :: mem
  freelist :: uint32
  use_lock :: bool
  kend :: uint32

definition kfree :: "uint32 \<Rightarrow> ('z kmem_scheme, unit) kop" where
  "kfree v =
     kbind (kget kend) (\<lambda>e.
     kseq (kcheck (v mod PGSIZE \<noteq> 0 \<or> v < e \<or> V2P v \<ge> PHYSTOP) ''kfree'')
    (kseq (kmod (\<lambda>s. s\<lparr>physmem := memset (physmem s) v 1 PGSIZE\<rparr>))
    (kbind (kget use_lock) (\<lambda>ul.
     kseq (kwhen ul (acquire KmemLock))
    (kseq (kmod (\<lambda>s. s\<lparr>physmem := store32 (physmem s) v (freelist s)\<rparr>))
    (kseq (kmod (\<lambda>s. s\<lparr>freelist := v\<rparr>))
          (kwhen ul (release KmemLock))))))))"

definition kalloc :: "('z kmem_scheme, uint32) kop" where
  "kalloc =
     kbind (kget use_lock) (\<lambda>ul.
     kseq (kwhen ul (acquire KmemLock))
    (kbind (kget freelist) (\<lambda>r.
     kseq (kwhen (r \<noteq> 0) (kmod (\<lambda>s. s\<lparr>freelist := load32 (physmem s) r\<rparr>)))
    (kseq (kwhen ul (release KmemLock))
          (kret r)))))"

text \<open>The loop of \<^verbatim>\<open>freerange\<close>, whose pointer does not wrap around.\<close>

function freerange_from :: "nat \<Rightarrow> nat \<Rightarrow> ('z kmem_scheme, unit) kop" where
  "freerange_from p vend =
     (if p + 4096 \<le> vend then kseq (kfree (of_nat p)) (freerange_from (p + 4096) vend)
      else kret ())"
  by auto
termination by (relation "measure (\<lambda>(p, vend). vend - p)") auto

definition freerange :: "uint32 \<Rightarrow> uint32 \<Rightarrow> ('z kmem_scheme, unit) kop" where
  "freerange vstart vend = freerange_from (unat (PGROUNDUP vstart)) (unat vend)"

definition kinit1 :: "uint32 \<Rightarrow> uint32 \<Rightarrow> ('z kmem_scheme, unit) kop" where
  "kinit1 vstart vend =
     kseq (kmod (\<lambda>s. s\<lparr>held := held s - {KmemLock}, use_lock := False\<rparr>)) (freerange vstart vend)"

definition kinit2 :: "uint32 \<Rightarrow> uint32 \<Rightarrow> ('z kmem_scheme, unit) kop" where
  "kinit2 vstart vend = kseq (freerange vstart vend) (kmod (\<lambda>s. s\<lparr>use_lock := True\<rparr>))"

declare freerange_from.simps [simp del]

section \<open>Pages\<close>

lemma mask_12: "PGSIZE - 1 = mask 12"
  by (simp add: PGSIZE_def mask_eq_exp_minus_1)

lemma PGROUNDDOWN_unat: "unat (PGROUNDDOWN a) = unat a div 4096 * 4096"
proof -
  have "PGROUNDDOWN a = push_bit 12 (drop_bit 12 a)"
    unfolding PGROUNDDOWN_def mask_12 by (rule bit_word_eqI) (auto simp: bit_simps)
  then have "unat (PGROUNDDOWN a) = take_bit 32 (push_bit 12 (drop_bit 12 (unat a)))"
    by (simp add: unsigned_push_bit_eq unat_drop_bit_eq)
  also have "\<dots> = drop_bit 12 (unat a) * 4096"
  proof -
    have "unat a div 4096 * 4096 < 2 ^ 32"
      using unat_lt_32 [of a] by (meson div_times_less_eq_dividend le_less_trans)
    then show ?thesis by (simp add: take_bit_nat_eq_self push_bit_eq_mult drop_bit_eq_div)
  qed
  finally show ?thesis by (simp add: drop_bit_eq_div)
qed

definition page_of :: "uint32 \<Rightarrow> nat" where
  "page_of a = unat a div 4096"

lemma unat_mod_4096: "(p :: uint32) mod 4096 = 0 \<longleftrightarrow> unat p mod 4096 = 0"
  by (simp add: unat_eq_0 [symmetric] unat_mod_distrib)

lemma same_page:
  assumes "p mod 4096 = 0"
  shows "unat (x - p) < 4096 \<longleftrightarrow> page_of x = page_of p"
proof -
  obtain k where k: "unat p = 4096 * k"
    using assms by (auto simp: unat_mod_4096)
  then have "k < 2 ^ 20" using unat_lt_32 [of p] by simp
  show ?thesis
  proof
    assume a: "unat (x - p) < 4096"
    then have "unat (p + (x - p)) = unat p + unat (x - p)"
      using k \<open>k < 2 ^ 20\<close> by (subst unat_add_lem [THEN iffD1]) auto
    then have "unat x = 4096 * k + unat (x - p)" using k by simp
    then show "page_of x = page_of p" using a k by (simp add: page_of_def)
  next
    assume "page_of x = page_of p"
    then have x: "unat x div 4096 = k" using k by (simp add: page_of_def)
    then have "p \<le> x" using k unfolding word_le_nat_alt by (metis div_times_less_eq_dividend mult.commute)
    then have "unat (x - p) = unat x - 4096 * k" using k by (simp add: unat_sub)
    then show "unat (x - p) < 4096" using x by (metis minus_mult_div_eq_mod mod_less_divisor zero_less_numeral)
  qed
qed

lemma page_of_word:
  assumes "p mod 4096 = 0"
  shows "page_of (p + 1) = page_of p" "page_of (p + 2) = page_of p" "page_of (p + 3) = page_of p"
  using same_page [OF assms, of "p + 1"] same_page [OF assms, of "p + 2"]
    same_page [OF assms, of "p + 3"] by auto

lemma page_of_inj:
  "p mod 4096 = 0 \<Longrightarrow> q mod 4096 = 0 \<Longrightarrow> page_of p = page_of q \<Longrightarrow> p = q"
  by (metis dvd_mult_div_cancel mod_0_imp_dvd page_of_def unat_mod_4096 word_unat_eq_iff)

text \<open>A load from another page does not see a write to this one.\<close>

lemma load32_other_page:
  assumes "p mod 4096 = 0" and "\<And>x. page_of x = page_of p \<Longrightarrow> m x = m' x"
  shows "load32 m p = load32 m' p"
  using page_of_word [OF assms(1)] assms(2) by (intro load32_cong) auto

section \<open>The free list\<close>

definition valid_page :: "uint32 \<Rightarrow> uint32 \<Rightarrow> bool" where
  "valid_page e p \<longleftrightarrow> p mod PGSIZE = 0 \<and> e \<le> p \<and> V2P p < PHYSTOP"

lemma valid_page_not_null: "valid_page e p \<Longrightarrow> p \<noteq> 0"
  by (auto simp: valid_page_def V2P_def KERNBASE_def PHYSTOP_def)

lemma valid_page_aligned: "valid_page e p \<Longrightarrow> p mod 4096 = 0"
  by (simp add: valid_page_def PGSIZE_def)

text \<open>\<open>chain m a ps\<close>: following the links from \<open>a\<close> visits the pages \<open>ps\<close> and ends in null.\<close>

primrec chain :: "mem \<Rightarrow> uint32 \<Rightarrow> uint32 list \<Rightarrow> bool" where
  "chain m a [] = (a = 0)"
| "chain m a (p # ps) = (a = p \<and> p \<noteq> 0 \<and> chain m (load32 m p) ps)"

definition kmem_ok :: "uint32 list \<Rightarrow> 'z kmem_scheme \<Rightarrow> bool" where
  "kmem_ok fl s \<longleftrightarrow> chain (physmem s) (freelist s) fl \<and> distinct fl \<and>
     (\<forall>p\<in>set fl. valid_page (kend s) p) \<and> (use_lock s \<longrightarrow> KmemLock \<notin> held s)"

lemma chain_cong:
  assumes "\<forall>p\<in>set ps. load32 m p = load32 m' p"
  shows "chain m a ps = chain m' a ps"
  using assms by (induction ps arbitrary: a) auto

lemma kmem_ok_mem_cong:
  assumes "kmem_ok fl s" and "\<And>x p. p \<in> set fl \<Longrightarrow> page_of x = page_of p \<Longrightarrow> m x = physmem s x"
  shows "kmem_ok fl (s\<lparr>physmem := m\<rparr>)"
proof -
  have "load32 (physmem s) p = load32 m p" if "p \<in> set fl" for p
    using that assms by (intro load32_other_page) (auto simp: kmem_ok_def valid_page_aligned)
  then show ?thesis
    using assms(1) chain_cong [of fl "physmem s" m] by (simp add: kmem_ok_def)
qed

lemma kalloc_run:
  assumes "kmem_ok fl s"
  shows "kalloc s = (case fl of [] \<Rightarrow> Ok 0 s
     | p # ps \<Rightarrow> Ok p (s\<lparr>freelist := load32 (physmem s) p\<rparr>))"
  using assms by (cases fl) (auto simp: kmem_ok_def kalloc_def run)

lemma kmem_ok_tl:
  "kmem_ok (p # ps) s \<Longrightarrow> kmem_ok ps (s\<lparr>freelist := load32 (physmem s) p\<rparr>)"
  by (simp add: kmem_ok_def)

definition junked :: "mem \<Rightarrow> uint32 \<Rightarrow> uint32 \<Rightarrow> mem" where
  "junked m v nxt = store32 (memset m v 1 PGSIZE) v nxt"

lemma junked_other:
  assumes "v mod 4096 = 0" and "page_of x \<noteq> page_of v"
  shows "junked m v nxt x = m x"
proof -
  have "x \<notin> {v, v + 1, v + 2, v + 3}" using assms page_of_word [OF assms(1)] by auto
  moreover have "\<not> unat (x - v) < 4096" using assms(2) same_page [OF assms(1), of x] by simp
  ultimately show ?thesis
    by (subst junked_def, subst store32_other) (simp_all add: memset_apply PGSIZE_def)
qed

lemma kfree_run:
  assumes "kmem_ok fl s" and "valid_page (kend s) v"
  shows "kfree v s = Ok () (s\<lparr>physmem := junked (physmem s) v (freelist s), freelist := v\<rparr>)"
  using assms by (auto simp: kmem_ok_def kfree_def run valid_page_def not_less not_le junked_def)

lemma kfree_invalid: "\<not> valid_page (kend s) v \<Longrightarrow> kfree v s = Panic ''kfree''"
  by (auto simp: kfree_def run valid_page_def not_less not_le)

lemma kmem_ok_Cons:
  assumes "kmem_ok fl s" and "valid_page (kend s) v" and "v \<notin> set fl"
  shows "kmem_ok (v # fl) (s\<lparr>physmem := junked (physmem s) v (freelist s), freelist := v\<rparr>)"
proof -
  have "page_of p \<noteq> page_of v" if "p \<in> set fl" for p
    using that assms page_of_inj [of p v] by (auto simp: kmem_ok_def valid_page_aligned)
  then have "kmem_ok fl (s\<lparr>physmem := junked (physmem s) v (freelist s)\<rparr>)"
    using assms by (intro kmem_ok_mem_cong junked_other) (auto simp: valid_page_aligned)
  then show ?thesis
    using assms(2,3) by (simp add: kmem_ok_def valid_page_not_null junked_def)
qed

section \<open>The contract of the page allocator\<close>

text \<open>\<open>frees s F\<close>: the allocator is in order and \<open>F\<close> are the free pages.\<close>

locale page_alloc =
  fixes alloc :: "('s, uint32) kop" and free :: "uint32 \<Rightarrow> ('s, unit) kop"
    and frees :: "'s \<Rightarrow> uint32 set \<Rightarrow> bool" and valid :: "'s \<Rightarrow> uint32 \<Rightarrow> bool"
  assumes frees_finite: "frees s F \<Longrightarrow> finite F"
    and alloc_empty: "frees s {} \<Longrightarrow> alloc s = Ok 0 s"
    and alloc_some: "frees s F \<Longrightarrow> F \<noteq> {} \<Longrightarrow>
      wpk alloc (\<lambda>p t. p \<noteq> 0 \<and> p \<in> F \<and> valid s p \<and> frees t (F - {p}) \<and> valid t = valid s) s"
    and free_ok: "frees s F \<Longrightarrow> valid s p \<Longrightarrow> p \<notin> F \<Longrightarrow>
      wpk (free p) (\<lambda>_ t. frees t (insert p F) \<and> valid t = valid s) s"
begin

text \<open>\<open>n\<close> allocations in a row, keeping the pages obtained.\<close>

primrec allocs :: "nat \<Rightarrow> ('s, uint32 list) kop" where
  "allocs 0 = kret []"
| "allocs (Suc n) = kbind alloc (\<lambda>p. kbind (allocs n) (\<lambda>ps. kret (p # ps)))"

lemma allocs_distinct:
  assumes "frees s F" and "n \<le> card F"
  shows "wpk (allocs n) (\<lambda>ps t. length ps = n \<and> distinct ps \<and> set ps \<subseteq> F \<and> 0 \<notin> set ps
           \<and> frees t (F - set ps)) s"
  using assms
proof (induction n arbitrary: s F)
  case 0
  then show ?case by (simp add: wp)
next
  case (Suc n)
  have fin: "finite F" using Suc.prems(1) by (rule frees_finite)
  with Suc.prems(2) have "F \<noteq> {}" by auto
  have step: "wpk (allocs n) (\<lambda>ps u. length (p # ps) = Suc n \<and> distinct (p # ps)
      \<and> set (p # ps) \<subseteq> F \<and> 0 \<notin> set (p # ps) \<and> frees u (F - set (p # ps))) t"
    if "p \<noteq> 0" "p \<in> F" "frees t (F - {p})" for p t
  proof -
    have "n \<le> card (F - {p})" using Suc.prems(2) fin that(2) by simp
    from Suc.IH [OF that(3) this] show ?thesis
    proof (rule wpk_mono)
      fix ps u
      assume a: "length ps = n \<and> distinct ps \<and> set ps \<subseteq> F - {p} \<and> 0 \<notin> set ps
        \<and> frees u (F - {p} - set ps)"
      moreover have "F - set (p # ps) = F - {p} - set ps" by auto
      ultimately show "length (p # ps) = Suc n \<and> distinct (p # ps)
          \<and> set (p # ps) \<subseteq> F \<and> 0 \<notin> set (p # ps) \<and> frees u (F - set (p # ps))"
        using that by auto
    qed
  qed
  show ?case
    unfolding allocs.simps wp_bind wp_ret
    by (rule wpk_mono [OF alloc_some [OF Suc.prems(1) \<open>F \<noteq> {}\<close>]], rule wpk_mono, rule step) auto
qed

lemma alloc_free:
  assumes "frees s F" and "F \<noteq> {}"
  shows "wpk (kbind alloc free) (\<lambda>_ t. frees t F) s"
  unfolding wp_bind
proof (rule wpk_mono [OF alloc_some [OF assms]])
  fix p t
  assume a: "p \<noteq> 0 \<and> p \<in> F \<and> valid s p \<and> frees t (F - {p}) \<and> valid t = valid s"
  then have "wpk (free p) (\<lambda>_ u. frees u (insert p (F - {p})) \<and> valid u = valid t) t"
    by (intro free_ok) auto
  then show "wpk (free p) (\<lambda>_ t. frees t F) t"
    by (rule wpk_mono) (use a in \<open>simp add: insert_absorb\<close>)
qed

end

definition kmem_frees :: "'z kmem_scheme \<Rightarrow> uint32 set \<Rightarrow> bool" where
  "kmem_frees s F \<longleftrightarrow> (\<exists>fl. kmem_ok fl s \<and> set fl = F)"

interpretation pa: page_alloc kalloc kfree kmem_frees "\<lambda>s. valid_page (kend s)"
proof unfold_locales
  fix s :: "'z kmem_scheme" and F p
  show "kmem_frees s F \<Longrightarrow> finite F" by (auto simp: kmem_frees_def)
  show "kmem_frees s {} \<Longrightarrow> kalloc s = Ok 0 s"
    by (auto simp: kmem_frees_def kalloc_run)
  show "wpk kalloc (\<lambda>p t. p \<noteq> 0 \<and> p \<in> F \<and> valid_page (kend s) p \<and> kmem_frees t (F - {p})
      \<and> valid_page (kend t) = valid_page (kend s)) s" if "kmem_frees s F" "F \<noteq> {}"
  proof -
    from that(1) obtain fl0 where "kmem_ok fl0 s" "set fl0 = F" by (auto simp: kmem_frees_def)
    with that(2) obtain q fl where fl: "kmem_ok (q # fl) s" "F = set (q # fl)"
      by (cases fl0) auto
    then have "kmem_frees (s\<lparr>freelist := load32 (physmem s) q\<rparr>) (F - {q})"
      using kmem_ok_tl [OF fl(1)] by (auto simp: kmem_frees_def kmem_ok_def intro!: exI [of _ fl])
    then show ?thesis
      using fl by (auto simp: wpk_def kalloc_run [OF fl(1)] kmem_ok_def)
  qed
  show "wpk (kfree p) (\<lambda>_ t. kmem_frees t (insert p F) \<and> valid_page (kend t) = valid_page (kend s)) s"
    if "kmem_frees s F" "valid_page (kend s) p" "p \<notin> F"
  proof -
    from that(1) obtain fl where fl: "kmem_ok fl s" "set fl = F" by (auto simp: kmem_frees_def)
    with kmem_ok_Cons [OF fl(1) that(2)] that(3) show ?thesis
      by (auto simp: wpk_def kfree_run [OF fl(1) that(2)] kmem_frees_def intro!: exI [of _ "p # fl"])
  qed
qed

lemma kalloc_mem:
  "kmem_ok fl s \<Longrightarrow> wpk kalloc (\<lambda>p t. physmem t = physmem s) s"
  by (simp add: wpk_def kalloc_run split: list.split)

lemma kfree_mem:
  "kmem_ok fl s \<Longrightarrow> valid_page (kend s) v \<Longrightarrow>
   wpk (kfree v) (\<lambda>_ t. \<forall>x. page_of x \<noteq> page_of v \<longrightarrow> physmem t x = physmem s x) s"
  by (simp add: wpk_def kfree_run junked_other valid_page_aligned)

lemma wpk_conj: "wpk m P s \<Longrightarrow> wpk m Q s \<Longrightarrow> wpk m (\<lambda>x t. P x t \<and> Q x t) s"
  by (auto simp: wpk_def split: outcome.splits)

text \<open>
  C7. The linked free list implements a set of free pages. Where no page is free \<^verbatim>\<open>kalloc\<close>
  returns null and changes nothing; otherwise it returns a free page, which is free no
  longer, and leaves memory alone. \<^verbatim>\<open>kfree\<close> of a page of allocatable memory that is not free
  adds it to the set and writes only inside that page; anything else than a page-aligned
  address between the end of the kernel and the top of memory panics.
\<close>

theorem kalloc_kfree_refine:
  fixes s :: "'z kmem_scheme"
  assumes "kmem_frees s F"
  shows "(if F = {} then kalloc s = Ok 0 s
      else wpk kalloc (\<lambda>p t. p \<noteq> 0 \<and> p \<in> F \<and> kmem_frees t (F - {p}) \<and> physmem t = physmem s) s)
    \<and> (if \<not> valid_page (kend s) v then kfree v s = Panic ''kfree''
       else v \<notin> F \<longrightarrow> wpk (kfree v) (\<lambda>_ t. kmem_frees t (insert v F)
         \<and> (\<forall>x. page_of x \<noteq> page_of v \<longrightarrow> physmem t x = physmem s x)) s)"
proof -
  obtain fl where fl: "kmem_ok fl s" using assms by (auto simp: kmem_frees_def)
  have "wpk kalloc (\<lambda>p t. p \<noteq> 0 \<and> p \<in> F \<and> kmem_frees t (F - {p}) \<and> physmem t = physmem s) s"
    if "F \<noteq> {}"
    by (rule wpk_mono [OF wpk_conj [OF pa.alloc_some [OF assms that] kalloc_mem [OF fl]]]) simp
  moreover have "wpk (kfree v) (\<lambda>_ t. kmem_frees t (insert v F)
      \<and> (\<forall>x. page_of x \<noteq> page_of v \<longrightarrow> physmem t x = physmem s x)) s"
    if "v \<notin> F" "valid_page (kend s) v"
    by (rule wpk_mono [OF wpk_conj [OF pa.free_ok [OF assms that(2,1)] kfree_mem [OF fl that(2)]]]) simp
  ultimately show ?thesis
    using assms kfree_invalid [of s v] pa.alloc_empty by auto
qed

definition demo_kmem :: kmem where
  "demo_kmem = sleeps.extend demo_sleeps
     \<lparr>physmem = (\<lambda>_. 0), freelist = 0x80400000, use_lock = True, kend = 0x80115000\<rparr>"

lemma demo_kmem_simps [simp]:
  "held demo_kmem = {}" "physmem demo_kmem = (\<lambda>_. 0)" "freelist demo_kmem = 0x80400000"
  "use_lock demo_kmem" "kend demo_kmem = 0x80115000"
  by (simp_all add: demo_kmem_def sleeps.extend_def demo_sleeps_defs)

lemma demo_kmem_ok: "kmem_ok [0x80400000] demo_kmem"
  by (simp add: kmem_ok_def load32_def valid_page_def PGSIZE_def V2P_def KERNBASE_def PHYSTOP_def)

theorem kalloc_kfree_refine_witness:
  "wpk (kfree 0x80401000) (\<lambda>_ t. kmem_frees t {0x80401000, 0x80400000}) demo_kmem"
proof -
  have "kmem_frees demo_kmem {0x80400000}"
    using demo_kmem_ok by (auto simp: kmem_frees_def intro!: exI [of _ "[0x80400000]"])
  from kalloc_kfree_refine [OF this, of "0x80401000"]
  have "wpk (kfree 0x80401000) (\<lambda>_ t. kmem_frees t {0x80401000, 0x80400000}
      \<and> (\<forall>x. page_of x \<noteq> page_of 0x80401000 \<longrightarrow> physmem t x = physmem demo_kmem x)) demo_kmem"
    by (simp add: valid_page_def PGSIZE_def V2P_def KERNBASE_def PHYSTOP_def)
  then show ?thesis by (rule wpk_mono) simp
qed

section \<open>Initialisation\<close>

text \<open>The pages that lie entirely between two addresses.\<close>

definition pages_between :: "nat \<Rightarrow> nat \<Rightarrow> uint32 set" where
  "pages_between a b = {p. a \<le> unat p \<and> unat p mod 4096 = 0 \<and> unat p + 4096 \<le> b}"

lemma pages_between_step:
  assumes "a + 4096 \<le> b" and "a mod 4096 = 0" and "b < 2 ^ 32"
  shows "pages_between a b = insert (of_nat a) (pages_between (a + 4096) b)"
proof -
  have a: "unat (of_nat a :: uint32) = a" using assms by simp
  have key: "a = unat p \<or> a + 4096 \<le> unat p" if "a \<le> unat p" "unat p mod 4096 = 0" for p :: uint32
    using that assms(2) by (auto elim!: dvdE)
  have "p \<in> pages_between a b \<longleftrightarrow> p = of_nat a \<or> p \<in> pages_between (a + 4096) b" for p
    using key [of p] assms(1,2) a unfolding pages_between_def mem_Collect_eq word_unat_eq_iff [of p]
    by auto
  then show ?thesis by blast
qed

lemma freerange_from_frees:
  fixes s :: "'z kmem_scheme"
  assumes "kmem_frees s F" and "a mod 4096 = 0" and "b < 2 ^ 32"
    and "\<forall>p \<in> pages_between a b. valid_page (kend s) p \<and> p \<notin> F"
  shows "wpk (freerange_from a b) (\<lambda>_ t. kmem_frees t (F \<union> pages_between a b)) s"
  using assms
proof (induction a b arbitrary: s F rule: freerange_from.induct)
  case (1 a b)
  show ?case
  proof (cases "a + 4096 \<le> b")
    case True
    note step = pages_between_step [OF True 1(3,4)]
    have "(of_nat a :: uint32) \<notin> pages_between (a + 4096) b"
      using True 1(4) by (simp add: pages_between_def)
    have "wpk (kfree (of_nat a)) (\<lambda>_ t. kmem_frees t (insert (of_nat a) F)
        \<and> valid_page (kend t) = valid_page (kend s)) s"
      using 1(2,5) step by (intro pa.free_ok) auto
    then have "wpk (kfree (of_nat a)) (\<lambda>_. wpk (freerange_from (a + 4096) b)
        (\<lambda>_ t. kmem_frees t (F \<union> pages_between a b))) s"
    proof (rule wpk_mono)
      fix t :: "'z kmem_scheme"
      assume "kmem_frees t (insert (of_nat a) F) \<and> valid_page (kend t) = valid_page (kend s)"
      then have "wpk (freerange_from (a + 4096) b)
          (\<lambda>_ u. kmem_frees u (insert (of_nat a) F \<union> pages_between (a + 4096) b)) t"
        using 1(3-5) step \<open>of_nat a \<notin> pages_between (a + 4096) b\<close>
        by (intro 1(1) [OF True]) auto
      then show "wpk (freerange_from (a + 4096) b) (\<lambda>_ t. kmem_frees t (F \<union> pages_between a b)) t"
        by (simp add: step Un_insert_right)
    qed
    then show ?thesis using True by (subst freerange_from.simps) (simp add: wp)
  next
    case False
    then have "pages_between a b = {}" by (auto simp: pages_between_def)
    with False 1(2) show ?thesis by (subst freerange_from.simps) (simp add: wp)
  qed
qed

text \<open>
  \<^verbatim>\<open>freerange\<close> ends and frees exactly the pages that lie entirely in its range: given
  that they are allocatable and not free yet, afterwards they are free, and so is what was
  free before, and nothing else.
\<close>

theorem freerange_frees:
  assumes "kmem_frees s F" and "unat vstart + 4095 < 2 ^ 32"
    and "\<forall>p \<in> pages_between (unat vstart) (unat vend). valid_page (kend s) p \<and> p \<notin> F"
  shows "wpk (freerange vstart vend)
    (\<lambda>_ t. kmem_frees t (F \<union> pages_between (unat vstart) (unat vend))) s"
proof -
  let ?a = "unat (PGROUNDUP vstart)"
  have "PGROUNDUP vstart = PGROUNDDOWN (vstart + of_nat 4095)"
    by (simp add: PGROUNDUP_def PGROUNDDOWN_def PGSIZE_def add.commute)
  then have a: "?a = (unat vstart + 4095) div 4096 * 4096"
    using assms(2) by (simp add: PGROUNDDOWN_unat unat_add_of_nat del: of_nat_numeral)
  have "unat vstart \<le> n \<longleftrightarrow> ?a \<le> n" if "n mod 4096 = 0" for n
  proof -
    from that obtain j where "n = j * 4096" by (auto elim!: dvdE)
    then show ?thesis
      using div_less_iff_less_mult [of 4096 "unat vstart + 4095" "Suc j"] unfolding a by auto
  qed
  then have "pages_between (unat vstart) (unat vend) = pages_between ?a (unat vend)"
    by (auto simp: pages_between_def)
  then show ?thesis
    using assms a unat_lt_32 unfolding freerange_def by (simp add: freerange_from_frees)
qed

theorem freerange_frees_witness:
  "wpk (freerange 0x80500001 0x80503000) (\<lambda>_ t. kmem_frees t {0x80400000, 0x80501000, 0x80502000})
     demo_kmem"
proof -
  have F: "kmem_frees demo_kmem {0x80400000}"
    using demo_kmem_ok by (auto simp: kmem_frees_def intro!: exI [of _ "[0x80400000]"])
  have "pages_between (unat (0x80501000 :: uint32)) (unat (0x80503000 :: uint32)) = {0x80501000, 0x80502000}"
    by (simp add: pages_between_step) (auto simp: pages_between_def)
  moreover have "pages_between (unat (0x80500001 :: uint32)) (unat (0x80503000 :: uint32))
      = pages_between (unat (0x80501000 :: uint32)) (unat (0x80503000 :: uint32))"
    by (auto simp: pages_between_def)
  ultimately have P: "pages_between (unat (0x80500001 :: uint32)) (unat (0x80503000 :: uint32))
      = {0x80501000, 0x80502000}" by simp
  have "wpk (freerange 0x80500001 0x80503000)
      (\<lambda>_ t. kmem_frees t ({0x80400000} \<union> {0x80501000, 0x80502000})) demo_kmem"
    unfolding P [symmetric]
    by (rule freerange_frees [OF F]) (simp_all only: P, simp_all add: valid_page_def PGSIZE_def
        V2P_def KERNBASE_def PHYSTOP_def)
  then show ?thesis by (simp add: insert_commute)
qed

end
