(* ===== verification/Vm.thy ===== *)
theory Vm
  imports Kalloc
begin

text \<open>
  Page tables (\<^verbatim>\<open>vm.c\<close>). A page directory and its page tables are pages of physical memory,
  read and written word by word as the code does. The two-level table is proved to implement a
  map from virtual pages to entries.
\<close>

section \<open>\<^verbatim>\<open>mmu.h\<close>, \<^verbatim>\<open>memlayout.h\<close>\<close>

definition EXTMEM :: uint32 where "EXTMEM = 0x100000"
definition DEVSPACE :: uint32 where "DEVSPACE = 0xFE000000"
definition KERNLINK :: uint32 where "KERNLINK = KERNBASE + EXTMEM"

definition PTE_P :: uint32 where "PTE_P = 1"
definition PTE_W :: uint32 where "PTE_W = 2"
definition PTE_U :: uint32 where "PTE_U = 4"

definition PDX :: "uint32 \<Rightarrow> uint32" where "PDX va = drop_bit 22 va AND 0x3FF"
definition PTX :: "uint32 \<Rightarrow> uint32" where "PTX va = drop_bit 12 va AND 0x3FF"
definition PGADDR :: "uint32 \<Rightarrow> uint32 \<Rightarrow> uint32 \<Rightarrow> uint32" where
  "PGADDR d t off = push_bit 22 d OR push_bit 12 t OR off"
definition PTE_ADDR :: "uint32 \<Rightarrow> uint32" where "PTE_ADDR pte = pte AND NOT 0xFFF"
definition PTE_FLAGS :: "uint32 \<Rightarrow> uint32" where "PTE_FLAGS pte = pte AND 0xFFF"

lemma unat_less_4G [simp]: "unat (x :: uint32) < 4294967296"
  using unat_lt_32 [of x] by simp

section \<open>\<^verbatim>\<open>vm.c\<close>\<close>

text \<open>\<open>kdata\<close> is the linker symbol \<^verbatim>\<open>data\<close>; \<open>cr3\<close> the page-table register; \<open>kpgdir\<close> the page
  directory the scheduler runs on; \<open>ts_\<close>\<dots> the processor's task state segment.\<close>

record vmem = kmem +
  kpgdir :: uint32
  cr3 :: uint32
  kdata :: uint32
  ts_esp0 :: uint32
  ts_ss0 :: ushort
  ts_iomb :: ushort

definition mread :: "uint32 \<Rightarrow> ('z kmem_scheme, uint32) kop" where
  "mread a = kget (\<lambda>s. load32 (physmem s) a)"

definition mwrite :: "uint32 \<Rightarrow> uint32 \<Rightarrow> ('z kmem_scheme, unit) kop" where
  "mwrite a v = kmod (\<lambda>s. s\<lparr>physmem := store32 (physmem s) a v\<rparr>)"

definition mzero :: "uint32 \<Rightarrow> ('z kmem_scheme, unit) kop" where
  "mzero a = kmod (\<lambda>s. s\<lparr>physmem := memset (physmem s) a 0 PGSIZE\<rparr>)"

text \<open>\<^verbatim>\<open>walkpgdir\<close> returns the address of the entry, or null.\<close>

definition walkpgdir :: "uint32 \<Rightarrow> uint32 \<Rightarrow> bool \<Rightarrow> ('z kmem_scheme, uint32) kop" where
  "walkpgdir pgdir va alloc =
    (let pde = pgdir + 4 * PDX va in
     kbind (mread pde) (\<lambda>e.
     if e AND PTE_P \<noteq> 0 then kret (P2V (PTE_ADDR e) + 4 * PTX va)
     else if \<not> alloc then kret 0
     else
       kbind kalloc (\<lambda>pgtab.
       if pgtab = 0 then kret 0
       else
         kseq (mzero pgtab)
        (kseq (mwrite pde (V2P pgtab OR PTE_P OR PTE_W OR PTE_U))
              (kret (pgtab + 4 * PTX va))))))"

text \<open>
  The body of the loop of \<^verbatim>\<open>mappages\<close>, and the loop, with the number of pages between \<^verbatim>\<open>a\<close> and
  \<^verbatim>\<open>last\<close>.
\<close>

definition mappage :: "uint32 \<Rightarrow> uint32 \<Rightarrow> uint32 \<Rightarrow> uint32 \<Rightarrow> ('z kmem_scheme, sint32) kop" where
  "mappage pgdir a pa perm =
     kbind (walkpgdir pgdir a True) (\<lambda>pte.
     if pte = 0 then kret (- 1)
     else
       kbind (mread pte) (\<lambda>e.
       kseq (kcheck (e AND PTE_P \<noteq> 0) ''remap'')
      (kseq (mwrite pte (pa OR perm OR PTE_P))
            (kret 0))))"

primrec mappages_from ::
    "nat \<Rightarrow> uint32 \<Rightarrow> uint32 \<Rightarrow> uint32 \<Rightarrow> uint32 \<Rightarrow> ('z kmem_scheme, sint32) kop" where
  "mappages_from 0 pgdir a pa perm = mappage pgdir a pa perm"
| "mappages_from (Suc n) pgdir a pa perm =
     kbind (mappage pgdir a pa perm) (\<lambda>r.
     if r \<noteq> 0 then kret r
     else mappages_from n pgdir (a + PGSIZE) (pa + PGSIZE) perm)"

definition mappages ::
    "uint32 \<Rightarrow> uint32 \<Rightarrow> uint32 \<Rightarrow> uint32 \<Rightarrow> uint32 \<Rightarrow> ('z kmem_scheme, sint32) kop" where
  "mappages pgdir va sz pa perm =
    (let a = PGROUNDDOWN va; last = PGROUNDDOWN (va + sz - 1)
     in mappages_from (unat ((last - a) div PGSIZE)) pgdir a pa perm)"

text \<open>
  \<^verbatim>\<open>deallocuvm\<close>. Its loop ends when \<^verbatim>\<open>a\<close> reaches \<open>oldsz\<close>; where \<^verbatim>\<open>a\<close> wraps around below it,
  the code runs forever, which is a fault here.
\<close>

function deallocuvm_from :: "uint32 \<Rightarrow> uint32 \<Rightarrow> uint32 \<Rightarrow> ('z kmem_scheme, unit) kop" where
  "deallocuvm_from pgdir a oldsz =
     (if a < oldsz then
        kbind (walkpgdir pgdir a False) (\<lambda>pte.
        if pte = 0 then
          (let b = PGADDR (PDX a + 1) 0 0 in
           if a < b then deallocuvm_from pgdir b oldsz else kfault ''endless loop'')
        else
          kbind (mread pte) (\<lambda>e.
          kseq (kwhen (e AND PTE_P \<noteq> 0)
                 (kseq (kcheck (PTE_ADDR e = 0) ''kfree'')
                 (kseq (kfree (P2V (PTE_ADDR e)))
                       (mwrite pte 0))))
               (if a < a + PGSIZE then deallocuvm_from pgdir (a + PGSIZE) oldsz
                else kfault ''endless loop'')))
      else kret ())"
  by auto
termination
  by (relation "measure (\<lambda>(pgdir, a, oldsz). 2 ^ 32 - unat a)")
    (auto simp: word_less_nat_alt intro!: diff_less_mono2 unat_lt_32)

declare deallocuvm_from.simps [simp del]

definition deallocuvm :: "uint32 \<Rightarrow> uint32 \<Rightarrow> uint32 \<Rightarrow> ('z kmem_scheme, uint32) kop" where
  "deallocuvm pgdir oldsz newsz =
     (if newsz \<ge> oldsz then kret oldsz
      else kseq (deallocuvm_from pgdir (PGROUNDUP newsz) oldsz) (kret newsz))"

text \<open>\<open>pr\<close> is \<^verbatim>\<open>cprintf\<close>, which the console provides.\<close>

function allocuvm_from ::
    "(string \<Rightarrow> ('z kmem_scheme, unit) kop) \<Rightarrow> uint32 \<Rightarrow> uint32 \<Rightarrow> uint32 \<Rightarrow> uint32 \<Rightarrow> ('z kmem_scheme, uint32) kop" where
  "allocuvm_from pr pgdir a oldsz newsz =
     (if a < newsz then
        kbind kalloc (\<lambda>m.
        if m = 0 then
          kseq (pr ''allocuvm out of memory'')
         (kseq (deallocuvm pgdir newsz oldsz)
               (kret 0))
        else
          kseq (mzero m)
         (kbind (mappages pgdir a PGSIZE (V2P m) (PTE_W OR PTE_U)) (\<lambda>r.
          if r <s 0 then
            kseq (pr ''allocuvm out of memory (2)'')
           (kseq (deallocuvm pgdir newsz oldsz)
           (kseq (kfree m)
                 (kret 0)))
          else if a < a + PGSIZE then allocuvm_from pr pgdir (a + PGSIZE) oldsz newsz
          else kfault ''endless loop'')))
      else kret newsz)"
  by auto
termination
  by (relation "measure (\<lambda>(pr, pgdir, a, oldsz, newsz). 2 ^ 32 - unat a)")
    (auto simp: word_less_nat_alt intro!: diff_less_mono2 unat_lt_32)

declare allocuvm_from.simps [simp del]

definition allocuvm :: "(string \<Rightarrow> ('z kmem_scheme, unit) kop) \<Rightarrow> uint32 \<Rightarrow> uint32 \<Rightarrow> uint32 \<Rightarrow> ('z kmem_scheme, uint32) kop" where
  "allocuvm pr pgdir oldsz newsz =
     (if newsz \<ge> KERNBASE then kret 0
      else if newsz < oldsz then kret oldsz
      else allocuvm_from pr pgdir (PGROUNDUP oldsz) oldsz newsz)"

definition freevm :: "uint32 \<Rightarrow> ('z kmem_scheme, unit) kop" where
  "freevm pgdir =
     kseq (kcheck (pgdir = 0) ''freevm: no pgdir'')
    (kseq (kbind (deallocuvm pgdir KERNBASE 0) (\<lambda>_. kret ()))
    (kseq (kfor [0..<1024] (\<lambda>i.
             kbind (mread (pgdir + 4 * of_nat i)) (\<lambda>e.
             kwhen (e AND PTE_P \<noteq> 0) (kfree (P2V (PTE_ADDR e))))))
          (kfree pgdir)))"

text \<open>The table \<^verbatim>\<open>kmap\<close>: virtual address, physical start and end, permissions.\<close>

definition kmap :: "uint32 \<Rightarrow> (uint32 \<times> uint32 \<times> uint32 \<times> uint32) list" where
  "kmap dat = [(KERNBASE, 0, EXTMEM, PTE_W), (KERNLINK, V2P KERNLINK, V2P dat, 0),
     (dat, V2P dat, PHYSTOP, PTE_W), (DEVSPACE, DEVSPACE, 0, PTE_W)]"

primrec setupkvm_from ::
    "(uint32 \<times> uint32 \<times> uint32 \<times> uint32) list \<Rightarrow> uint32 \<Rightarrow> ('z kmem_scheme, uint32) kop" where
  "setupkvm_from [] pgdir = kret pgdir"
| "setupkvm_from (k # ks) pgdir =
     (case k of (virt, ps, pe, perm) \<Rightarrow>
       kbind (mappages pgdir virt (pe - ps) ps perm) (\<lambda>r.
       if r <s 0 then kseq (freevm pgdir) (kret 0)
       else setupkvm_from ks pgdir))"

definition setupkvm :: "('z vmem_scheme, uint32) kop" where
  "setupkvm =
     kbind kalloc (\<lambda>pgdir.
     if pgdir = 0 then kret 0
     else
       kseq (mzero pgdir)
      (kseq (kcheck (P2V PHYSTOP > DEVSPACE) ''PHYSTOP too high'')
      (kbind (kget kdata) (\<lambda>dat. setupkvm_from (kmap dat) pgdir))))"

definition switchkvm :: "('z vmem_scheme, unit) kop" where
  "switchkvm = kmod (\<lambda>s. s\<lparr>cr3 := V2P (kpgdir s)\<rparr>)"

definition kvmalloc :: "('z vmem_scheme, unit) kop" where
  "kvmalloc = kbind setupkvm (\<lambda>d. kseq (kmod (\<lambda>s. s\<lparr>kpgdir := d\<rparr>)) switchkvm)"

text \<open>
  \<^verbatim>\<open>switchuvm\<close>; the descriptor through which the processor finds its task state segment is
  always the same one and not part of the state.
\<close>

definition KSTACKSIZE :: uint32 where "KSTACKSIZE = 4096"
definition SEG_KDATA :: ushort where "SEG_KDATA = 2"

definition switchuvm :: "nat option \<Rightarrow> ('z vmem_scheme, unit) kop" where
  "switchuvm po =
     (case po of None \<Rightarrow> kpanic ''switchuvm: no process'' | Some p \<Rightarrow>
       kbind (get_proc p p_kstack) (\<lambda>ks.
       kseq (kcheck (ks = 0) ''switchuvm: no kstack'')
      (kbind (get_proc p p_pgdir) (\<lambda>d.
       kseq (kcheck (d = 0) ''switchuvm: no pgdir'')
            (kmod (\<lambda>s. s\<lparr>ts_ss0 := push_bit 3 SEG_KDATA, ts_esp0 := ks + KSTACKSIZE,
                        ts_iomb := 0xFFFF, cr3 := V2P d\<rparr>))))))"

text \<open>\<^verbatim>\<open>inituvm\<close> does not check that it got a page.\<close>

definition inituvm :: "uint32 \<Rightarrow> uchar list \<Rightarrow> ('z kmem_scheme, unit) kop" where
  "inituvm pgdir init =
     kseq (kcheck (of_nat (length init) \<ge> PGSIZE) ''inituvm: more than a page'')
    (kbind kalloc (\<lambda>m.
     kseq (kwhen (m = 0) (kfault ''null page''))
    (kseq (mzero m)
    (kbind (mappages pgdir 0 PGSIZE (V2P m) (PTE_W OR PTE_U)) (\<lambda>_.
     kmod (\<lambda>s. s\<lparr>physmem := (\<lambda>x. if unat (x - m) < length init then init ! unat (x - m)
                                  else physmem s x)\<rparr>))))))"

definition clearpteu :: "uint32 \<Rightarrow> uint32 \<Rightarrow> ('z kmem_scheme, unit) kop" where
  "clearpteu pgdir uva =
     kbind (walkpgdir pgdir uva False) (\<lambda>pte.
     kseq (kcheck (pte = 0) ''clearpteu'')
    (kbind (mread pte) (\<lambda>e.
     mwrite pte (e AND NOT PTE_U))))"

function copyuvm_from ::
    "uint32 \<Rightarrow> uint32 \<Rightarrow> uint32 \<Rightarrow> uint32 \<Rightarrow> ('z kmem_scheme, uint32) kop" where
  "copyuvm_from pgdir d i sz =
     (if i < sz then
        kbind (walkpgdir pgdir i False) (\<lambda>pte.
        kseq (kcheck (pte = 0) ''copyuvm: pte should exist'')
       (kbind (mread pte) (\<lambda>e.
        kseq (kcheck (e AND PTE_P = 0) ''copyuvm: page not present'')
       (kbind kalloc (\<lambda>m.
        if m = 0 then kseq (freevm d) (kret 0)
        else
          kseq (kmod (\<lambda>s. s\<lparr>physmem := memmove (physmem s) m (P2V (PTE_ADDR e)) PGSIZE\<rparr>))
         (kbind (mappages d i PGSIZE (V2P m) (PTE_FLAGS e)) (\<lambda>r.
          if r <s 0 then kseq (kfree m) (kseq (freevm d) (kret 0))
          else if i < i + PGSIZE then copyuvm_from pgdir d (i + PGSIZE) sz
          else kfault ''endless loop'')))))))
      else kret d)"
  by auto
termination
  by (relation "measure (\<lambda>(pgdir, d, i, sz). 2 ^ 32 - unat i)")
    (auto simp: word_less_nat_alt intro!: diff_less_mono2 unat_lt_32)

declare copyuvm_from.simps [simp del]

definition copyuvm :: "uint32 \<Rightarrow> uint32 \<Rightarrow> ('z vmem_scheme, uint32) kop" where
  "copyuvm pgdir sz = kbind setupkvm (\<lambda>d. if d = 0 then kret 0 else copyuvm_from pgdir d 0 sz)"

text \<open>\<^verbatim>\<open>uva2ka\<close> reads through the entry without looking whether there is one.\<close>

definition uva2ka :: "uint32 \<Rightarrow> uint32 \<Rightarrow> ('z kmem_scheme, uint32) kop" where
  "uva2ka pgdir uva =
     kbind (walkpgdir pgdir uva False) (\<lambda>pte.
     kseq (kwhen (pte = 0) (kfault ''null page-table entry''))
    (kbind (mread pte) (\<lambda>e.
     if e AND PTE_P = 0 then kret 0
     else if e AND PTE_U = 0 then kret 0
     else kret (P2V (PTE_ADDR e)))))"

text \<open>\<^verbatim>\<open>copyout\<close>: \<open>bs\<close> are the bytes at \<^verbatim>\<open>p\<close>, which lie outside the pages written to.\<close>

definition mput :: "uint32 \<Rightarrow> uchar list \<Rightarrow> ('z kmem_scheme, unit) kop" where
  "mput a bs = kmod (\<lambda>s. s\<lparr>physmem := (\<lambda>x. if unat (x - a) < length bs then bs ! unat (x - a)
                                          else physmem s x)\<rparr>)"

lemma page_offset_less: "unat (va - PGROUNDDOWN va) < 4096"
proof -
  have "PGROUNDDOWN va \<le> va"
    unfolding word_le_nat_alt PGROUNDDOWN_unat by (rule div_times_less_eq_dividend)
  then have "unat (va - PGROUNDDOWN va) = unat va mod 4096"
    by (simp add: unat_sub PGROUNDDOWN_unat minus_div_mult_eq_mod)
  then show ?thesis by simp
qed

function copyout :: "uint32 \<Rightarrow> uint32 \<Rightarrow> uchar list \<Rightarrow> ('z kmem_scheme, sint32) kop" where
  "copyout pgdir va bs =
     (if bs = [] then kret 0
      else
       (let va0 = PGROUNDDOWN va; n = min (length bs) (4096 - unat (va - va0)) in
        kbind (uva2ka pgdir va0) (\<lambda>pa0.
        if pa0 = 0 then kret (- 1)
        else
          kseq (mput (pa0 + (va - va0)) (take n bs))
               (copyout pgdir (va0 + PGSIZE) (drop n bs)))))"
  by auto
termination
  by (relation "measure (\<lambda>(pgdir, va, bs). length bs)") (auto simp: page_offset_less)

declare copyout.simps [simp del]

section \<open>Entries of tables\<close>

text \<open>The address of entry \<open>i\<close> of the table in page \<open>p\<close>, and its contents.\<close>

definition slot :: "uint32 \<Rightarrow> nat \<Rightarrow> uint32" where
  "slot p i = p + of_nat (4 * i)"

definition ent :: "mem \<Rightarrow> uint32 \<Rightarrow> nat \<Rightarrow> uint32" where
  "ent m p i = load32 m (slot p i)"

definition pdx :: "uint32 \<Rightarrow> nat" where "pdx va = unat (PDX va)"
definition ptx :: "uint32 \<Rightarrow> nat" where "ptx va = unat (PTX va)"

lemma mask_10: "(0x3FF :: uint32) = mask 10"
  by (simp add: mask_eq_exp_minus_1)

lemma pdx_eq: "pdx va = unat va div 2 ^ 22 mod 1024"
  by (simp add: pdx_def PDX_def mask_10 unsigned_take_bit_eq unat_drop_bit_eq drop_bit_eq_div
      take_bit_eq_mod unat_mod_distrib unat_div_distrib flip: take_bit_eq_mask)

lemma ptx_eq: "ptx va = unat va div 4096 mod 1024"
  by (simp add: ptx_def PTX_def mask_10 unsigned_take_bit_eq unat_drop_bit_eq drop_bit_eq_div
      take_bit_eq_mod unat_mod_distrib unat_div_distrib flip: take_bit_eq_mask)

lemma pdx_less [simp]: "pdx va < 1024" and ptx_less [simp]: "ptx va < 1024"
  by (simp_all add: pdx_eq ptx_eq)

lemma slot_pdx: "pgdir + 4 * PDX va = slot pgdir (pdx va)"
  and slot_ptx: "p + 4 * PTX va = slot p (ptx va)"
  by (simp_all add: slot_def pdx_def ptx_def)

text \<open>The two indices together are the number of the virtual page.\<close>

lemma pdx_page_of: "pdx w = page_of w div 1024" and ptx_page_of: "ptx w = page_of w mod 1024"
proof -
  have "unat w div 2 ^ 22 < 1024" using unat_lt_32 [of w] by (simp add: less_mult_imp_div_less)
  then show "pdx w = page_of w div 1024"
    by (simp add: pdx_eq page_of_def div_mult2_eq [symmetric])
  show "ptx w = page_of w mod 1024" by (simp add: ptx_eq page_of_def)
qed

lemma pdx_ptx_page: "pdx u = pdx v \<and> ptx u = ptx v \<longleftrightarrow> page_of u = page_of v"
  unfolding pdx_page_of ptx_page_of by (metis div_mult_mod_eq)

lemma slot_page_byte:
  assumes "p mod 4096 = 0" and "i < 1024" and "k < 4"
  shows "page_of (slot p i + of_nat k) = page_of p"
proof -
  have "slot p i + of_nat k - p = of_nat (4 * i + k)" by (simp add: slot_def)
  then have "unat (slot p i + of_nat k - p) = 4 * i + k"
    using assms(2,3) by (simp del: of_nat_add of_nat_mult)
  then show ?thesis using assms(2,3) same_page [OF assms(1), of "slot p i + of_nat k"] by simp
qed

lemma slot_page:
  assumes "p mod 4096 = 0" and "i < 1024"
  shows "page_of (slot p i) = page_of p" "page_of (slot p i + 1) = page_of p"
    "page_of (slot p i + 2) = page_of p" "page_of (slot p i + 3) = page_of p"
  using slot_page_byte [OF assms, of 0] slot_page_byte [OF assms, of 1]
    slot_page_byte [OF assms, of 2] slot_page_byte [OF assms, of 3] by simp_all

lemma slot_apart:
  assumes "i < 1024" and "j < 1024" and "i \<noteq> j" and "k < 4" and "l < 4"
  shows "slot p i + of_nat k \<noteq> slot p j + of_nat l"
proof -
  have "4 * i + k \<noteq> 4 * j + l" using assms(3-5) by presburger
  then have "p + of_nat (4 * i + k) \<noteq> p + of_nat (4 * j + l)"
    using assms by (intro word_add_of_nat_neq) auto
  then show ?thesis by (simp add: slot_def add.assoc)
qed

lemma four_bytes: "{a, a + 1, a + 2, a + 3 :: uint32} = (\<lambda>k. a + of_nat k) ` {..<4}"
  by (simp add: lessThan_nat_numeral lessThan_Suc insert_commute)

lemma ent_store:
  assumes "p mod 4096 = 0" and "q mod 4096 = 0" and "i < 1024" and "j < 1024"
  shows "ent (store32 m (slot p i) v) q j = (if p = q \<and> i = j then v else ent m q j)"
proof (cases "p = q \<and> i = j")
  case True
  then show ?thesis by (simp add: ent_def)
next
  case False
  have "{slot q j, slot q j + 1, slot q j + 2, slot q j + 3}
      \<inter> {slot p i, slot p i + 1, slot p i + 2, slot p i + 3} = {}"
  proof (cases "p = q")
    case True
    with False show ?thesis
      unfolding four_bytes using slot_apart [OF assms(4,3)] by fastforce
  next
    case False
    then have "page_of p \<noteq> page_of q" using page_of_inj [OF assms(1,2)] by auto
    then show ?thesis
      unfolding four_bytes using slot_page_byte [OF assms(1,3)] slot_page_byte [OF assms(2,4)]
      by fastforce
  qed
  then show ?thesis using False by (simp only: ent_def load32_store32_other) simp
qed

lemma ent_cong_page:
  assumes "q mod 4096 = 0" and "j < 1024" and "\<And>x. page_of x = page_of q \<Longrightarrow> m x = m' x"
  shows "ent m q j = ent m' q j"
  unfolding ent_def using slot_page [OF assms(1,2)] assms(3) by (intro load32_cong) auto

lemma ent_zeroed:
  assumes "p mod 4096 = 0" and "q mod 4096 = 0" and "j < 1024"
  shows "ent (memset m p 0 PGSIZE) q j = (if p = q then 0 else ent m q j)"
proof (cases "p = q")
  case True
  have "memset m p 0 PGSIZE x = 0" if "page_of x = page_of p" for x
    using that same_page [OF assms(1), of x] by (simp add: memset_apply PGSIZE_def)
  then have "ent (memset m p 0 PGSIZE) q j = ent (\<lambda>_. 0) q j"
    using True assms by (intro ent_cong_page) auto
  then show ?thesis using True by (simp add: ent_def load32_def)
next
  case False
  then have "page_of p \<noteq> page_of q" using page_of_inj [OF assms(1,2)] by auto
  then have "ent (memset m p 0 PGSIZE) q j = ent m q j"
    using assms same_page [OF assms(1)] by (intro ent_cong_page) (auto simp: memset_apply PGSIZE_def)
  then show ?thesis using False by simp
qed

section \<open>The two-level table as a map\<close>

definition present :: "uint32 \<Rightarrow> bool" where
  "present e \<longleftrightarrow> e AND PTE_P \<noteq> 0"

definition tbl :: "mem \<Rightarrow> uint32 \<Rightarrow> nat \<Rightarrow> uint32" where
  "tbl m pgdir i = P2V (PTE_ADDR (ent m pgdir i))"

text \<open>The entry that translates \<open>va\<close>; 0 where there is no table.\<close>

definition pte_of :: "mem \<Rightarrow> uint32 \<Rightarrow> uint32 \<Rightarrow> uint32" where
  "pte_of m pgdir va =
     (if present (ent m pgdir (pdx va)) then ent m (tbl m pgdir (pdx va)) (ptx va) else 0)"

text \<open>
  The directory and its tables are distinct pages of allocatable memory, none of them free.
\<close>

definition pt_ok :: "uint32 list \<Rightarrow> uint32 \<Rightarrow> 'z kmem_scheme \<Rightarrow> bool" where
  "pt_ok fl pgdir s \<longleftrightarrow> kmem_ok fl s \<and> valid_page (kend s) pgdir \<and> pgdir \<notin> set fl \<and>
     (\<forall>i<1024. present (ent (physmem s) pgdir i) \<longrightarrow>
        valid_page (kend s) (tbl (physmem s) pgdir i) \<and> tbl (physmem s) pgdir i \<noteq> pgdir \<and>
        tbl (physmem s) pgdir i \<notin> set fl) \<and>
     (\<forall>i<1024. \<forall>j<1024. present (ent (physmem s) pgdir i) \<longrightarrow> present (ent (physmem s) pgdir j) \<longrightarrow>
        tbl (physmem s) pgdir i = tbl (physmem s) pgdir j \<longrightarrow> i = j)"

lemma pt_okD:
  assumes "pt_ok fl pgdir s"
  shows "kmem_ok fl s" "valid_page (kend s) pgdir" "pgdir \<notin> set fl"
    and "i < 1024 \<Longrightarrow> present (ent (physmem s) pgdir i) \<Longrightarrow> valid_page (kend s) (tbl (physmem s) pgdir i)"
    and "i < 1024 \<Longrightarrow> present (ent (physmem s) pgdir i) \<Longrightarrow> tbl (physmem s) pgdir i \<noteq> pgdir"
    and "i < 1024 \<Longrightarrow> present (ent (physmem s) pgdir i) \<Longrightarrow> tbl (physmem s) pgdir i \<notin> set fl"
    and "i < 1024 \<Longrightarrow> j < 1024 \<Longrightarrow> present (ent (physmem s) pgdir i) \<Longrightarrow>
      present (ent (physmem s) pgdir j) \<Longrightarrow> tbl (physmem s) pgdir i = tbl (physmem s) pgdir j \<Longrightarrow> i = j"
  using assms by (simp_all add: pt_ok_def)

lemmas pt_ok_aligned = pt_okD(2) [THEN valid_page_aligned] pt_okD(4) [THEN valid_page_aligned]

lemma valid_page_inj: "valid_page e p \<Longrightarrow> valid_page e q \<Longrightarrow> page_of p = page_of q \<Longrightarrow> p = q"
  by (rule page_of_inj) (rule valid_page_aligned, assumption)+

text \<open>The directory entry of a fresh table, and that it leads back to the table.\<close>

definition pde_new :: "uint32 \<Rightarrow> uint32" where
  "pde_new p = V2P p OR PTE_P OR PTE_W OR PTE_U"

lemma present_bit: "present e \<longleftrightarrow> bit e 0"
  by (simp add: present_def PTE_P_def and_one_eq even_iff_mod_2_eq_zero bit_0 odd_iff_mod_2_eq_one)

lemma pde_new_present: "present (pde_new p)"
  by (simp add: present_bit pde_new_def PTE_P_def bit_simps)

lemma PTE_ADDR_flags:
  assumes "x mod 4096 = 0" and "f < 4096"
  shows "PTE_ADDR (x OR f) = x"
proof -
  have "unat x mod 4096 = 0" using assms(1) by (simp only: unat_mod_4096)
  then have "PGROUNDDOWN x = x" unfolding word_unat_eq_iff PGROUNDDOWN_unat by auto
  moreover have "PGROUNDDOWN f = 0"
    using assms(2) unfolding word_unat_eq_iff PGROUNDDOWN_unat by (simp add: word_less_nat_alt)
  moreover have "PTE_ADDR (x OR f) = PGROUNDDOWN x OR PGROUNDDOWN f"
    by (simp add: PTE_ADDR_def PGROUNDDOWN_def PGSIZE_def word_ao_dist)
  ultimately show ?thesis by simp
qed

lemma V2P_aligned:
  assumes "valid_page e p"
  shows "V2P p mod 4096 = 0"
proof -
  have "unat (V2P p) + unat KERNBASE < 2 ^ 32"
    using assms by (simp add: valid_page_def PHYSTOP_def KERNBASE_def word_less_nat_alt)
  then have "unat (V2P p + KERNBASE) = unat (V2P p) + unat KERNBASE"
    by (subst unat_add_lem [THEN iffD1]) auto
  then have "unat p = unat (V2P p) + 2147483648" by (simp add: V2P_def KERNBASE_def)
  moreover have "unat p mod 4096 = 0"
    using valid_page_aligned [OF assms] by (simp only: unat_mod_4096)
  ultimately have "unat (V2P p) mod 4096 = 0"
    using mod_mult_self1 [of "unat (V2P p)" 524288 4096] by simp
  then show ?thesis by (simp only: unat_mod_4096)
qed

lemma pde_new_addr:
  assumes "valid_page e p"
  shows "P2V (PTE_ADDR (pde_new p)) = p"
proof -
  have "pde_new p = V2P p OR 7"
    by (simp add: pde_new_def PTE_P_def PTE_W_def PTE_U_def or.assoc)
  then show ?thesis
    using PTE_ADDR_flags [OF V2P_aligned [OF assms], of 7] by (simp add: P2V_def V2P_def)
qed

lemma mread_run [run, simp]: "mread a s = Ok (load32 (physmem s) a) s"
  by (simp add: mread_def)

lemma mwrite_run [run, simp]: "mwrite a v s = Ok () (s\<lparr>physmem := store32 (physmem s) a v\<rparr>)"
  by (simp add: mwrite_def)

lemma mzero_run [run, simp]: "mzero a s = Ok () (s\<lparr>physmem := memset (physmem s) a 0 PGSIZE\<rparr>)"
  by (simp add: mzero_def)

definition with_table :: "uint32 \<Rightarrow> nat \<Rightarrow> uint32 \<Rightarrow> 'z kmem_scheme \<Rightarrow> 'z kmem_scheme" where
  "with_table pgdir i p s = s\<lparr>physmem := store32 (memset (physmem s) p 0 PGSIZE) (slot pgdir i) (pde_new p),
     freelist := load32 (physmem s) p\<rparr>"

lemma walkpgdir_run:
  assumes "pt_ok fl pgdir s"
  shows "walkpgdir pgdir va alloc s =
    (if present (ent (physmem s) pgdir (pdx va))
     then Ok (slot (tbl (physmem s) pgdir (pdx va)) (ptx va)) s
     else if \<not> alloc then Ok 0 s
     else case fl of [] \<Rightarrow> Ok 0 s
       | p # ps \<Rightarrow> Ok (slot p (ptx va)) (with_table pgdir (pdx va) p s))"
proof -
  have ok: "kmem_ok fl s" using assms by (rule pt_okD)
  show ?thesis
  proof (cases fl)
    case Nil
    then show ?thesis
      using kalloc_run [OF ok] by (simp add: walkpgdir_def Let_def slot_pdx slot_ptx present_def
          ent_def tbl_def run)
  next
    case (Cons p ps)
    then have "p \<noteq> 0" using ok by (simp add: kmem_ok_def)
    then show ?thesis
      using Cons kalloc_run [OF ok] by (simp add: walkpgdir_def Let_def slot_pdx slot_ptx present_def
          ent_def tbl_def run with_table_def pde_new_def)
  qed
qed

lemma store32_slot_other:
  assumes "p mod 4096 = 0" and "i < 1024" and "page_of x \<noteq> page_of p"
  shows "store32 m (slot p i) v x = m x"
  using slot_page [OF assms(1,2)] assms(3) by (intro store32_other) auto

lemma memset_page_other:
  assumes "p mod 4096 = 0" and "page_of x \<noteq> page_of p"
  shows "memset m p c PGSIZE x = m x"
  using same_page [OF assms(1), of x] assms(2) by (simp add: memset_apply PGSIZE_def)

lemma ent_with_table:
  assumes "pgdir mod 4096 = 0" and "p mod 4096 = 0" and "q mod 4096 = 0" and "i < 1024" and "j < 1024"
    and "p \<noteq> pgdir"
  shows "ent (physmem (with_table pgdir i p s)) q j =
    (if q = pgdir \<and> j = i then pde_new p else if q = p then 0 else ent (physmem s) q j)"
  unfolding with_table_def using assms by (simp add: ent_store ent_zeroed)

lemma with_table_fields [simp]: "kend (with_table pgdir i p s) = kend s"
  "held (with_table pgdir i p s) = held s" "use_lock (with_table pgdir i p s) = use_lock s"
  "freelist (with_table pgdir i p s) = load32 (physmem s) p"
  by (simp_all add: with_table_def)

lemma with_table_other:
  assumes "pgdir mod 4096 = 0" and "p mod 4096 = 0" and "i < 1024"
    and "page_of x \<noteq> page_of pgdir" and "page_of x \<noteq> page_of p"
  shows "physmem (with_table pgdir i p s) x = physmem s x"
  unfolding with_table_def
  using assms store32_slot_other [OF assms(1,3,4)] memset_page_other [OF assms(2,5)] by simp

text \<open>Adding a table keeps the structure and changes no translation.\<close>

lemma with_table_ok:
  assumes ok: "pt_ok (p # fl) pgdir s" and i: "i < 1024" and np: "\<not> present (ent (physmem s) pgdir i)"
  shows "pt_ok fl pgdir (with_table pgdir i p s)"
    and "pte_of (physmem (with_table pgdir i p s)) pgdir va = pte_of (physmem s) pgdir va"
proof -
  let ?m = "physmem s" and ?m' = "physmem (with_table pgdir i p s)"
  have k: "kmem_ok (p # fl) s" and d: "valid_page (kend s) pgdir" "pgdir \<noteq> p" "pgdir \<notin> set fl"
    using pt_okD(1,2,3) [OF ok] by auto
  have p: "valid_page (kend s) p" "p \<notin> set fl" and fl: "\<forall>q\<in>set fl. valid_page (kend s) q"
    using k by (auto simp: kmem_ok_def)
  note al = valid_page_aligned [OF d(1)] valid_page_aligned [OF p(1)]
  have dir: "ent ?m' pgdir j = (if j = i then pde_new p else ent ?m pgdir j)" if "j < 1024" for j
    using ent_with_table [OF al al(1) i that d(2) [symmetric], of s] d(2) by simp
  then have tb: "tbl ?m' pgdir j = (if j = i then p else tbl ?m pgdir j)" if "j < 1024" for j
    using that pde_new_addr [OF p(1)] by (simp add: tbl_def)
  have old: "valid_page (kend s) (tbl ?m pgdir j)" "tbl ?m pgdir j \<noteq> pgdir" "tbl ?m pgdir j \<noteq> p"
    "tbl ?m pgdir j \<notin> set fl" if "j < 1024" "present (ent ?m pgdir j)" for j
    using pt_okD(4,5,6) [OF ok that] by auto
  have "physmem (with_table pgdir i p s) x = ?m x"
    if "q \<in> set fl" "page_of x = page_of q" for x q
  proof -
    have "page_of q \<noteq> page_of pgdir" "page_of q \<noteq> page_of p"
      using that(1) fl p d valid_page_inj [of "kend s" q] by auto
    then show ?thesis using that(2) by (intro with_table_other [OF al i]) auto
  qed
  then have "kmem_ok fl (s\<lparr>freelist := load32 ?m p, physmem := ?m'\<rparr>)"
    by (intro kmem_ok_mem_cong kmem_ok_tl [OF k]) simp
  then have "kmem_ok fl (with_table pgdir i p s)" by (simp add: kmem_ok_def)
  then show "pt_ok fl pgdir (with_table pgdir i p s)"
    unfolding pt_ok_def with_table_fields
    using d p old by (auto simp: dir tb split: if_splits dest: pt_okD(7) [OF ok])
  show "pte_of ?m' pgdir va = pte_of ?m pgdir va"
  proof (cases "pdx va = i")
    case True
    then show ?thesis
      using np i ent_with_table [OF al al(2) i ptx_less d(2) [symmetric], of s] d(2)
      by (simp add: pte_of_def dir tb pde_new_present)
  next
    case False
    have "ent ?m' (tbl ?m pgdir (pdx va)) (ptx va) = ent ?m (tbl ?m pgdir (pdx va)) (ptx va)"
      if "present (ent ?m pgdir (pdx va))"
      using ent_with_table [OF al valid_page_aligned [OF old(1)] i ptx_less d(2) [symmetric], where s = s]
        old that by simp
    with False show ?thesis by (simp add: pte_of_def dir tb)
  qed
qed

text \<open>Writing an entry of a table keeps the structure and changes one translation.\<close>

lemma set_entry_ok:
  fixes v :: uint32 and s :: "'z kmem_scheme"
  assumes ok: "pt_ok fl pgdir s" and i: "i < 1024" and pr: "present (ent (physmem s) pgdir i)"
    and k: "k < 1024"
  defines "t \<equiv> s\<lparr>physmem := store32 (physmem s) (slot (tbl (physmem s) pgdir i) k) v\<rparr>"
  shows "pt_ok fl pgdir t"
    and "pte_of (physmem t) pgdir va = (if pdx va = i \<and> ptx va = k then v else pte_of (physmem s) pgdir va)"
    and "j < 1024 \<Longrightarrow> ent (physmem t) pgdir j = ent (physmem s) pgdir j"
proof -
  let ?m = "physmem s" and ?T = "tbl (physmem s) pgdir i"
  note T = pt_okD(4-6) [OF ok i pr]
  note al = valid_page_aligned [OF T(1)]
  show dir: "ent (physmem t) pgdir j = ent ?m pgdir j" if "j < 1024" for j
    using ent_store [OF al pt_ok_aligned(1) [OF ok] k that] T(2) by (simp add: t_def)
  then have tb: "tbl (physmem t) pgdir j = tbl ?m pgdir j" if "j < 1024" for j
    using that by (simp add: tbl_def)
  have "kmem_ok fl t"
    unfolding t_def
  proof (rule kmem_ok_mem_cong [OF pt_okD(1) [OF ok]])
    fix x q
    assume q: "q \<in> set fl" "page_of x = page_of q"
    then have "valid_page (kend s) q" using pt_okD(1) [OF ok] by (simp add: kmem_ok_def)
    with q T have "page_of x \<noteq> page_of ?T" using valid_page_inj [of "kend s" q ?T] by auto
    then show "store32 ?m (slot ?T k) v x = ?m x" by (rule store32_slot_other [OF al k])
  qed
  moreover have "kend t = kend s" by (simp add: t_def)
  ultimately show "pt_ok fl pgdir t"
    using ok by (simp add: pt_ok_def dir tb)
  show "pte_of (physmem t) pgdir va = (if pdx va = i \<and> ptx va = k then v else pte_of ?m pgdir va)"
  proof (cases "present (ent ?m pgdir (pdx va))")
    case True
    have "ent (physmem t) (tbl ?m pgdir (pdx va)) (ptx va) =
        (if ?T = tbl ?m pgdir (pdx va) \<and> k = ptx va then v else ent ?m (tbl ?m pgdir (pdx va)) (ptx va))"
      unfolding t_def using ent_store [OF al pt_ok_aligned(2) [OF ok _ True] k ptx_less] by simp
    moreover have "?T = tbl ?m pgdir (pdx va) \<longleftrightarrow> i = pdx va"
      using pt_okD(7) [OF ok i _ pr True] by auto
    ultimately show ?thesis using True by (auto simp: pte_of_def dir tb)
  next
    case False
    then show ?thesis using pr by (auto simp: pte_of_def dir)
  qed
qed

text \<open>The pages of the structure, and how one state extends another.\<close>

definition pt_pages :: "mem \<Rightarrow> uint32 \<Rightarrow> uint32 set" where
  "pt_pages m pgdir = insert pgdir (tbl m pgdir ` {j. j < 1024 \<and> present (ent m pgdir j)})"

definition pt_ext :: "uint32 \<Rightarrow> uint32 list \<Rightarrow> 'z kmem_scheme \<Rightarrow> uint32 list \<Rightarrow> 'z kmem_scheme \<Rightarrow> bool" where
  "pt_ext pgdir fl s fl' t \<longleftrightarrow> pt_ok fl' pgdir t \<and> (\<exists>us. fl = us @ fl') \<and>
     pt_pages (physmem s) pgdir \<subseteq> pt_pages (physmem t) pgdir \<and>
     pt_pages (physmem t) pgdir \<subseteq> pt_pages (physmem s) pgdir \<union> (set fl - set fl') \<and>
     (\<forall>x. page_of x \<notin> page_of ` pt_pages (physmem t) pgdir \<longrightarrow> physmem t x = physmem s x) \<and>
     (\<exists>m f. t = s\<lparr>physmem := m, freelist := f\<rparr>)"

lemma pt_ext_refl: "pt_ok fl pgdir s \<Longrightarrow> pt_ext pgdir fl s fl s"
  unfolding pt_ext_def by (auto intro!: exI [of _ "physmem s"] exI [of _ "freelist s"])

lemma pt_extD:
  assumes "pt_ext pgdir fl s fl' t"
  shows "pt_ok fl' pgdir t" and "\<exists>us. fl = us @ fl'"
    and "pt_pages (physmem s) pgdir \<subseteq> pt_pages (physmem t) pgdir"
    and "pt_pages (physmem t) pgdir \<subseteq> pt_pages (physmem s) pgdir \<union> (set fl - set fl')"
    and "page_of x \<notin> page_of ` pt_pages (physmem t) pgdir \<Longrightarrow> physmem t x = physmem s x"
    and "\<exists>m f. t = s\<lparr>physmem := m, freelist := f\<rparr>"
  using assms by (simp_all add: pt_ext_def)

lemma pt_ext_trans:
  assumes st: "pt_ext pgdir fl s fl' t" and tu: "pt_ext pgdir fl' t fl'' u"
  shows "pt_ext pgdir fl s fl'' u"
  unfolding pt_ext_def
proof (intro conjI allI impI)
  obtain us vs where us: "fl = us @ fl'" and vs: "fl' = vs @ fl''"
    using pt_extD(2) [OF st] pt_extD(2) [OF tu] by blast
  then show "\<exists>ws. fl = ws @ fl''" by (intro exI [of _ "us @ vs"]) simp
  have "set fl' - set fl'' \<subseteq> set fl - set fl''" "set fl - set fl' \<subseteq> set fl - set fl''"
    using us vs by auto
  then show "pt_pages (physmem u) pgdir \<subseteq> pt_pages (physmem s) pgdir \<union> (set fl - set fl'')"
    using pt_extD(4) [OF st] pt_extD(4) [OF tu] by blast
  show "pt_pages (physmem s) pgdir \<subseteq> pt_pages (physmem u) pgdir"
    using pt_extD(3) [OF st] pt_extD(3) [OF tu] by (rule order_trans)
  show "pt_ok fl'' pgdir u" using tu by (rule pt_extD)
  fix x
  assume x: "page_of x \<notin> page_of ` pt_pages (physmem u) pgdir"
  then have "page_of x \<notin> page_of ` pt_pages (physmem t) pgdir" using pt_extD(3) [OF tu] by blast
  then show "physmem u x = physmem s x" using x pt_extD(5) [OF st] pt_extD(5) [OF tu] by simp
next
  obtain m f m' f' where "t = s\<lparr>physmem := m, freelist := f\<rparr>" "u = t\<lparr>physmem := m', freelist := f'\<rparr>"
    using pt_extD(6) [OF st] pt_extD(6) [OF tu] by blast
  then have "u = s\<lparr>physmem := m', freelist := f'\<rparr>" by simp
  then show "\<exists>m f. u = s\<lparr>physmem := m, freelist := f\<rparr>" by blast
qed

lemma pt_ext_table:
  assumes ok: "pt_ok (p # fl) pgdir s" and i: "i < 1024" and np: "\<not> present (ent (physmem s) pgdir i)"
  shows "pt_ext pgdir (p # fl) s fl (with_table pgdir i p s)"
proof -
  let ?t = "with_table pgdir i p s"
  have d: "valid_page (kend s) pgdir" "pgdir \<noteq> p" using pt_okD(2,3) [OF ok] by auto
  have p: "valid_page (kend s) p" "p \<notin> set fl" using pt_okD(1) [OF ok] by (auto simp: kmem_ok_def)
  note al = valid_page_aligned [OF d(1)] valid_page_aligned [OF p(1)]
  have dir: "ent (physmem ?t) pgdir j = (if j = i then pde_new p else ent (physmem s) pgdir j)"
    if "j < 1024" for j
    using ent_with_table [OF al al(1) i that d(2) [symmetric], of s] d(2) by simp
  then have tb: "tbl (physmem ?t) pgdir j = (if j = i then p else tbl (physmem s) pgdir j)"
    if "j < 1024" for j
    using that pde_new_addr [OF p(1)] by (simp add: tbl_def)
  have pg: "pt_pages (physmem ?t) pgdir = insert p (pt_pages (physmem s) pgdir)"
  proof -
    have "{j. j < 1024 \<and> present (ent (physmem ?t) pgdir j)}
        = insert i {j. j < 1024 \<and> present (ent (physmem s) pgdir j)}"
      using i by (auto simp: dir pde_new_present)
    moreover have "tbl (physmem ?t) pgdir ` {j. j < 1024 \<and> present (ent (physmem s) pgdir j)}
        = tbl (physmem s) pgdir ` {j. j < 1024 \<and> present (ent (physmem s) pgdir j)}"
      using np by (intro image_cong) (auto simp: tb)
    ultimately show ?thesis using i tb by (simp add: pt_pages_def insert_commute)
  qed
  moreover have "physmem ?t x = physmem s x" if "page_of x \<notin> page_of ` pt_pages (physmem ?t) pgdir" for x
    using that unfolding pg by (intro with_table_other [OF al i]) (auto simp: pt_pages_def)
  moreover have "\<exists>m f. ?t = s\<lparr>physmem := m, freelist := f\<rparr>" by (auto simp: with_table_def)
  ultimately show ?thesis
    unfolding pt_ext_def using with_table_ok(1) [OF ok i np] p(2) by auto
qed

lemma pt_ext_entry:
  assumes ok: "pt_ok fl pgdir s" and i: "i < 1024" and pr: "present (ent (physmem s) pgdir i)"
    and k: "k < 1024"
  shows "pt_ext pgdir fl s fl
    (s\<lparr>physmem := store32 (physmem s) (slot (tbl (physmem s) pgdir i) k) v\<rparr>)"
proof -
  let ?t = "s\<lparr>physmem := store32 (physmem s) (slot (tbl (physmem s) pgdir i) k) v\<rparr>"
  have pg: "pt_pages (physmem ?t) pgdir = pt_pages (physmem s) pgdir"
    unfolding pt_pages_def using set_entry_ok(3) [OF assms, of _ v]
    by (intro arg_cong [of _ _ "insert pgdir"] image_cong) (auto simp: tbl_def)
  moreover have "physmem ?t x = physmem s x" if "page_of x \<notin> page_of ` pt_pages (physmem ?t) pgdir" for x
  proof -
    have "page_of x \<noteq> page_of (tbl (physmem s) pgdir i)" using that i pr unfolding pg by (auto simp: pt_pages_def)
    then show ?thesis by (simp add: store32_slot_other [OF pt_ok_aligned(2) [OF ok i pr] k])
  qed
  moreover have "\<exists>m f. ?t = s\<lparr>physmem := m, freelist := f\<rparr>"
    by (rule exI [of _ "physmem ?t"], rule exI [of _ "freelist s"]) simp
  ultimately show ?thesis
    unfolding pt_ext_def using set_entry_ok(1) [OF assms] by auto
qed

lemma slot_not_null:
  assumes "valid_page e p" and "k < 1024"
  shows "slot p k \<noteq> 0"
proof
  assume "slot p k = 0"
  then have "page_of p = 0"
    using slot_page(1) [OF valid_page_aligned [OF assms(1)] assms(2)] by (simp add: page_of_def)
  then have "unat p < 4096" by (simp add: page_of_def div_eq_0_iff)
  then have "p < 4096" by (simp add: word_less_nat_alt)
  then show False
    using page_of_inj [OF valid_page_aligned [OF assms(1)], of 0] valid_page_not_null [OF assms(1)]
      \<open>page_of p = 0\<close> by (simp add: page_of_def)
qed

lemma pte_of_slot:
  "present (ent m pgdir (pdx a)) \<Longrightarrow> load32 m (slot (tbl m pgdir (pdx a)) (ptx a)) = pte_of m pgdir a"
  by (simp add: pte_of_def ent_def)

text \<open>One page mapped: the entry for it, and no other translation, changes. Without a page
  for a missing table nothing changes.\<close>

lemma mappage_present:
  fixes v :: uint32 and s :: "'z kmem_scheme"
  assumes ok: "pt_ok fl pgdir s" and pr: "present (ent (physmem s) pgdir (pdx a))"
  defines "t \<equiv> s\<lparr>physmem := store32 (physmem s) (slot (tbl (physmem s) pgdir (pdx a)) (ptx a)) v\<rparr>"
  shows "pt_ext pgdir fl s fl t" and "pte_of (physmem t) pgdir w =
    (if page_of w = page_of a then v else pte_of (physmem s) pgdir w)"
  unfolding t_def
  using pt_ext_entry [OF ok pdx_less pr ptx_less, where v = v]
    set_entry_ok(2) [OF ok pdx_less pr ptx_less, where v = v and va = w]
  by (simp_all add: pdx_ptx_page)

lemma mappage_run:
  assumes ok: "pt_ok fl pgdir s" and free: "\<not> present (pte_of (physmem s) pgdir a)"
  shows "(\<exists>fl' t. mappage pgdir a pa perm s = Ok 0 t \<and> pt_ext pgdir fl s fl' t
        \<and> (\<forall>v. pte_of (physmem t) pgdir v =
            (if page_of v = page_of a then pa OR perm OR PTE_P else pte_of (physmem s) pgdir v)))
    \<or> fl = [] \<and> mappage pgdir a pa perm s = Ok (- 1) s"
proof -
  consider (has) "present (ent (physmem s) pgdir (pdx a))"
    | (none) "\<not> present (ent (physmem s) pgdir (pdx a))" "fl = []"
    | (new) p ps where "\<not> present (ent (physmem s) pgdir (pdx a))" "fl = p # ps"
    by (cases fl) auto
  then show ?thesis
  proof cases
    case has
    have "slot (tbl (physmem s) pgdir (pdx a)) (ptx a) \<noteq> 0"
      using pt_okD(4) [OF ok pdx_less has] by (rule slot_not_null) simp
    then have "mappage pgdir a pa perm s = Ok 0 (s\<lparr>physmem :=
        store32 (physmem s) (slot (tbl (physmem s) pgdir (pdx a)) (ptx a)) (pa OR perm OR PTE_P)\<rparr>)"
      using has free by (simp add: mappage_def run walkpgdir_run [OF ok] pte_of_slot flip: present_def)
    then show ?thesis using mappage_present [OF ok has, of "pa OR perm OR PTE_P"] by blast
  next
    case none
    then show ?thesis by (simp add: mappage_def run walkpgdir_run [OF ok])
  next
    case new
    let ?u = "with_table pgdir (pdx a) p s"
    have ok': "pt_ok (p # ps) pgdir s" using ok new(2) by simp
    note u = with_table_ok [OF ok' pdx_less new(1)]
    have d: "valid_page (kend s) pgdir" "p \<noteq> pgdir" using pt_okD(2,3) [OF ok'] by auto
    have p: "valid_page (kend s) p" using pt_okD(1) [OF ok'] by (auto simp: kmem_ok_def)
    have e: "ent (physmem ?u) pgdir (pdx a) = pde_new p"
      using ent_with_table [OF valid_page_aligned [OF d(1)] valid_page_aligned [OF p]
        valid_page_aligned [OF d(1)] pdx_less pdx_less d(2), of a s a] by simp
    then have pr: "present (ent (physmem ?u) pgdir (pdx a))" and tb: "tbl (physmem ?u) pgdir (pdx a) = p"
      using pde_new_addr [OF p] by (simp_all add: pde_new_present tbl_def)
    have "slot p (ptx a) \<noteq> 0" using p by (rule slot_not_null) simp
    moreover have "load32 (physmem ?u) (slot p (ptx a)) = pte_of (physmem s) pgdir a"
      using pte_of_slot [OF pr] u(2) tb by simp
    ultimately have "mappage pgdir a pa perm s = Ok 0 (?u\<lparr>physmem :=
        store32 (physmem ?u) (slot (tbl (physmem ?u) pgdir (pdx a)) (ptx a)) (pa OR perm OR PTE_P)\<rparr>)"
      using new free tb
      by (simp add: mappage_def run walkpgdir_run [OF ok'] flip: present_def)
    moreover note mappage_present [OF u(1) pr, of "pa OR perm OR PTE_P"]
    ultimately show ?thesis
      using pt_ext_trans [OF pt_ext_table [OF ok' pdx_less new(1)]] u(2) new(2) by metis
  qed
qed

text \<open>The \<open>k\<close>th page from \<open>a\<close>.\<close>

definition npage :: "uint32 \<Rightarrow> nat \<Rightarrow> uint32" where
  "npage a k = a + of_nat (4096 * k)"

lemma npage_0 [simp]: "npage a 0 = a" and npage_Suc: "npage a (Suc k) = npage (a + PGSIZE) k"
  by (simp_all add: npage_def PGSIZE_def)

lemma npage_aligned:
  assumes "a mod 4096 = 0"
  shows "npage a k mod 4096 = 0"
proof -
  have "unat a mod 4096 = 0" using assms by (simp only: unat_mod_4096)
  then obtain j where j: "unat a = 4096 * j" by (auto elim!: dvdE)
  have "unat (npage a k) = (4096 * j + 4096 * k) mod 2 ^ 32"
    unfolding npage_def by (simp add: unat_word_ariths unat_of_nat take_bit_eq_mod j mod_add_right_eq
        del: of_nat_mult)
  also have "\<dots> mod 4096 = 0"
    using mod_mod_cancel [of 4096 "2 ^ 32" "4096 * j + 4096 * k :: nat"] by simp
  finally show ?thesis by (simp only: unat_mod_4096)
qed

lemma npage_inj:
  assumes "a mod 4096 = 0" and "k < 2 ^ 20" and "l < 2 ^ 20"
  shows "page_of (npage a k) = page_of (npage a l) \<longleftrightarrow> k = l"
proof
  assume "page_of (npage a k) = page_of (npage a l)"
  then have "npage a k = npage a l"
    by (rule page_of_inj [OF npage_aligned npage_aligned, OF assms(1) assms(1)])
  moreover have "4096 * k < 2 ^ 32" "4096 * l < 2 ^ 32" using assms(2,3) by simp_all
  ultimately show "k = l" using word_add_of_nat_inj [of "4096 * k" "4096 * l" a] by (simp add: npage_def)
qed simp

lemma mappages_from_run:
  assumes "pt_ok fl pgdir s" and "a mod 4096 = 0" and "n < 2 ^ 20"
    and "\<And>k. k \<le> n \<Longrightarrow> \<not> present (pte_of (physmem s) pgdir (npage a k))"
  shows "\<exists>r fl' t. mappages_from n pgdir a pa perm s = Ok r t \<and> pt_ext pgdir fl s fl' t \<and>
    (if r = 0 then
       (\<forall>k\<le>n. \<forall>v. page_of v = page_of (npage a k) \<longrightarrow>
          pte_of (physmem t) pgdir v = npage pa k OR perm OR PTE_P) \<and>
       (\<forall>v. (\<forall>k\<le>n. page_of v \<noteq> page_of (npage a k)) \<longrightarrow>
          pte_of (physmem t) pgdir v = pte_of (physmem s) pgdir v)
     else r = - 1 \<and> fl' = [])"
  using assms
proof (induction n arbitrary: fl a pa s)
  case 0
  have "\<not> present (pte_of (physmem s) pgdir a)" using 0(4) [of 0] by simp
  from mappage_run [OF 0(1) this, of pa perm] show ?case
  proof
    assume "fl = [] \<and> mappage pgdir a pa perm s = Ok (- 1) s"
    then show ?thesis using pt_ext_refl [OF 0(1)] by auto
  qed auto
next
  case (Suc n)
  have "\<not> present (pte_of (physmem s) pgdir a)" using Suc.prems(4) [of 0] by simp
  from mappage_run [OF Suc.prems(1) this, of pa perm] show ?case
  proof
    assume "fl = [] \<and> mappage pgdir a pa perm s = Ok (- 1) s"
    then show ?thesis using pt_ext_refl [OF Suc.prems(1)] by (auto simp: run)
  next
    assume "\<exists>fl' t. mappage pgdir a pa perm s = Ok 0 t \<and> pt_ext pgdir fl s fl' t
        \<and> (\<forall>v. pte_of (physmem t) pgdir v =
            (if page_of v = page_of a then pa OR perm OR PTE_P else pte_of (physmem s) pgdir v))"
    then obtain fl1 t1 where t1: "mappage pgdir a pa perm s = Ok 0 t1" "pt_ext pgdir fl s fl1 t1"
      and pte1: "\<And>v. pte_of (physmem t1) pgdir v =
            (if page_of v = page_of a then pa OR perm OR PTE_P else pte_of (physmem s) pgdir v)"
      by auto
    have al: "(a + PGSIZE) mod 4096 = 0"
      using npage_aligned [OF Suc.prems(2), of 1] by (simp add: npage_def PGSIZE_def)
    have ne: "page_of (npage (a + PGSIZE) k) \<noteq> page_of a" if "k \<le> n" for k
      using that Suc.prems(3) npage_inj [OF Suc.prems(2), of "Suc k" 0] by (simp add: npage_Suc)
    have "\<exists>r fl' t. mappages_from n pgdir (a + PGSIZE) (pa + PGSIZE) perm t1 = Ok r t \<and> pt_ext pgdir fl1 t1 fl' t \<and>
      (if r = 0 then
         (\<forall>k\<le>n. \<forall>v. page_of v = page_of (npage (a + PGSIZE) k) \<longrightarrow>
            pte_of (physmem t) pgdir v = npage (pa + PGSIZE) k OR perm OR PTE_P) \<and>
         (\<forall>v. (\<forall>k\<le>n. page_of v \<noteq> page_of (npage (a + PGSIZE) k)) \<longrightarrow>
            pte_of (physmem t) pgdir v = pte_of (physmem t1) pgdir v)
       else r = - 1 \<and> fl' = [])"
      using Suc.prems(3) Suc.prems(4) [of "Suc k" for k] ne
      by (intro Suc.IH pt_extD(1) [OF t1(2)] al) (auto simp: pte1 npage_Suc)
    then obtain r fl' t where t: "mappages_from n pgdir (a + PGSIZE) (pa + PGSIZE) perm t1 = Ok r t"
      "pt_ext pgdir fl1 t1 fl' t" and res: "if r = 0 then
         (\<forall>k\<le>n. \<forall>v. page_of v = page_of (npage (a + PGSIZE) k) \<longrightarrow>
            pte_of (physmem t) pgdir v = npage (pa + PGSIZE) k OR perm OR PTE_P) \<and>
         (\<forall>v. (\<forall>k\<le>n. page_of v \<noteq> page_of (npage (a + PGSIZE) k)) \<longrightarrow>
            pte_of (physmem t) pgdir v = pte_of (physmem t1) pgdir v)
       else r = - 1 \<and> fl' = []" by blast
    have all_le: "(\<forall>k\<le>Suc n. P k) \<longleftrightarrow> P 0 \<and> (\<forall>k\<le>n. P (Suc k))" for P
      by (metis Suc_le_mono less_eq_nat.simps(1) not0_implies_Suc)
    have "pte_of (physmem t) pgdir v = pa OR perm OR PTE_P" if "r = 0" "page_of v = page_of a" for v
      using that res ne pte1 by (metis (no_types, lifting))
    then have "if r = 0 then
       (\<forall>k\<le>Suc n. \<forall>v. page_of v = page_of (npage a k) \<longrightarrow>
          pte_of (physmem t) pgdir v = npage pa k OR perm OR PTE_P) \<and>
       (\<forall>v. (\<forall>k\<le>Suc n. page_of v \<noteq> page_of (npage a k)) \<longrightarrow>
          pte_of (physmem t) pgdir v = pte_of (physmem s) pgdir v)
      else r = - 1 \<and> fl' = []"
      using res by (auto simp: all_le npage_Suc pte1)
    moreover have "mappages_from (Suc n) pgdir a pa perm s = Ok r t" using t(1) t1(1) by (simp add: run)
    ultimately show ?thesis using pt_ext_trans [OF t1(2) t(2)] by blast
  qed
qed

text \<open>
  C24. \<^verbatim>\<open>mappages\<close> implements a map from virtual pages to entries. Given a well-formed table in
  which no page of the range is mapped, it never panics; if it returns 0, the \<open>k\<close>th page of the
  range translates to the \<open>k\<close>th physical page with the given permissions, every other page
  translates as before, the table is still well-formed, and only the table's own pages and
  pages taken from the free list were written. It fails only by returning -1 with the free list
  exhausted.
\<close>

theorem mappages_maps:
  assumes "pt_ok fl pgdir s"
    and "n = unat ((PGROUNDDOWN (va + sz - 1) - PGROUNDDOWN va) div PGSIZE)"
    and "\<forall>k\<le>n. \<not> present (pte_of (physmem s) pgdir (npage (PGROUNDDOWN va) k))"
  shows "\<exists>r fl' t. mappages pgdir va sz pa perm s = Ok r t \<and> pt_ext pgdir fl s fl' t \<and>
    (if r = 0 then
       (\<forall>k\<le>n. \<forall>v. page_of v = page_of (npage (PGROUNDDOWN va) k) \<longrightarrow>
          pte_of (physmem t) pgdir v = npage pa k OR perm OR PTE_P) \<and>
       (\<forall>v. (\<forall>k\<le>n. page_of v \<noteq> page_of (npage (PGROUNDDOWN va) k)) \<longrightarrow>
          pte_of (physmem t) pgdir v = pte_of (physmem s) pgdir v)
     else r = - 1 \<and> fl' = [])"
proof -
  have "PGROUNDDOWN va mod 4096 = 0"
    unfolding unat_mod_4096 PGROUNDDOWN_unat by simp
  moreover have "n < 2 ^ 20"
    unfolding assms(2) by (simp add: PGSIZE_def unat_div_distrib less_mult_imp_div_less)
  ultimately show ?thesis
    unfolding mappages_def Let_def assms(2) [symmetric] using assms(3)
    by (intro mappages_from_run [OF assms(1)]) simp_all
qed

lemma demo_pt_ok: "pt_ok [0x80400000] 0x80500000 demo_kmem"
  using demo_kmem_ok
  by (simp add: pt_ok_def ent_def load32_def present_def valid_page_def PGSIZE_def V2P_def
      KERNBASE_def PHYSTOP_def)

theorem mappages_maps_witness:
  "\<exists>r fl' t. mappages 0x80500000 0x1000 8192 0x600000 PTE_W demo_kmem = Ok r t
     \<and> pt_ext 0x80500000 [0x80400000] demo_kmem fl' t"
proof -
  have "\<forall>k\<le>n. \<not> present (pte_of (physmem demo_kmem) 0x80500000 (npage (PGROUNDDOWN 0x1000) k))" for n
    by (simp add: pte_of_def ent_def load32_def present_def)
  from mappages_maps [OF demo_pt_ok refl this, of 8192 "0x600000" PTE_W] show ?thesis by blast
qed

end
