(* ===== verification/Bio.thy ===== *)
theory Bio
  imports Vm
begin

text \<open>
  The buffer cache (\<^verbatim>\<open>bio.c\<close>) on the memory disk (\<^verbatim>\<open>memide.c\<close>). The cache keeps its buffers on
  a doubly linked list through index fields, most recently used first; buffer \<^verbatim>\<open>NBUF\<close> is the
  list head. The list is proved to implement a sequence, and the cache to be transparent: it
  shows one content for every block of the disk, which reading a block does not change.
\<close>

section \<open>\<^verbatim>\<open>param.h\<close>, \<^verbatim>\<open>fs.h\<close>, \<^verbatim>\<open>buf.h\<close>\<close>

definition NBUF :: nat where "NBUF = 30"
definition BSIZE :: nat where "BSIZE = 512"

text \<open>The flags \<^verbatim>\<open>B_VALID\<close> and \<^verbatim>\<open>B_DIRTY\<close> are separate fields; the sleep lock is in \<^term>\<open>slks\<close>.\<close>

record buf =
  b_valid :: bool
  b_dirty :: bool
  b_dev :: uint32
  b_blockno :: uint32
  b_refcnt :: uint32
  b_prev :: nat
  b_next :: nat
  b_data :: "uchar list"

text \<open>\<open>memdisk\<close> holds the blocks of the disk. \<open>wtrace\<close> is a ghost: the writes to the disk so far.\<close>

record bcache = vmem +
  bufs :: "buf list"
  memdisk :: "uchar list list"
  wtrace :: "(nat \<times> uchar list) list"

definition upd_buf :: "nat \<Rightarrow> (buf \<Rightarrow> buf) \<Rightarrow> ('z bcache_scheme, unit) kop" where
  "upd_buf b f = kmod (\<lambda>s. s\<lparr>bufs := (bufs s)[b := f (bufs s ! b)]\<rparr>)"

definition get_buf :: "nat \<Rightarrow> (buf \<Rightarrow> 'a) \<Rightarrow> ('z bcache_scheme, 'a) kop" where
  "get_buf b f = kget (\<lambda>s. f (bufs s ! b))"

section \<open>\<^verbatim>\<open>memide.c\<close>\<close>

definition iderw :: "nat \<Rightarrow> ('z bcache_scheme, unit) kop" where
  "iderw b =
     kbind (holdingsleep (BufSL b)) (\<lambda>h.
     kseq (kcheck (\<not> h) ''iderw: buf not locked'')
    (kbind (get_buf b id) (\<lambda>B.
     kseq (kcheck (b_valid B \<and> \<not> b_dirty B) ''iderw: nothing to do'')
    (kseq (kcheck (b_dev B \<noteq> 1) ''iderw: request not for disk 1'')
    (kbind (kget memdisk) (\<lambda>d.
     kseq (kcheck (unat (b_blockno B) \<ge> length d) ''iderw: block out of range'')
    (kseq (if b_dirty B then
             kseq (upd_buf b (\<lambda>B. B\<lparr>b_dirty := False\<rparr>))
                  (kmod (\<lambda>s. s\<lparr>memdisk := d[unat (b_blockno B) := b_data B],
                              wtrace := wtrace s @ [(unat (b_blockno B), b_data B)]\<rparr>))
           else upd_buf b (\<lambda>B'. B'\<lparr>b_data := d ! unat (b_blockno B)\<rparr>))
          (upd_buf b (\<lambda>B. B\<lparr>b_valid := True\<rparr>)))))))))"

section \<open>\<^verbatim>\<open>bio.c\<close>\<close>

text \<open>
  The loops over the list: from \<open>b\<close> along the links \<open>nx\<close> to the first buffer with \<open>P\<close>, or to the
  head. \<^term>\<open>None\<close>: the head was not reached in \<open>k\<close> steps, which no well-formed list allows.
\<close>

primrec scan :: "nat \<Rightarrow> (nat \<Rightarrow> nat) \<Rightarrow> (nat \<Rightarrow> bool) \<Rightarrow> nat \<Rightarrow> nat option option" where
  "scan 0 nx P b = None"
| "scan (Suc k) nx P b =
     (if b = NBUF then Some None else if P b then Some (Some b) else scan k nx P (nx b))"

definition binit_one :: "nat \<Rightarrow> ('z bcache_scheme, unit) kop" where
  "binit_one b =
     kbind (get_buf NBUF b_next) (\<lambda>hn.
     kseq (upd_buf b (\<lambda>B. B\<lparr>b_next := hn\<rparr>))
    (kseq (upd_buf b (\<lambda>B. B\<lparr>b_prev := NBUF\<rparr>))
    (kseq (initsleeplock (BufSL b) ''buffer'')
    (kseq (upd_buf hn (\<lambda>B. B\<lparr>b_prev := b\<rparr>))
          (upd_buf NBUF (\<lambda>B. B\<lparr>b_next := b\<rparr>))))))"

definition binit :: "('z bcache_scheme, unit) kop" where
  "binit =
     kseq (upd_buf NBUF (\<lambda>B. B\<lparr>b_prev := NBUF\<rparr>))
    (kseq (upd_buf NBUF (\<lambda>B. B\<lparr>b_next := NBUF\<rparr>))
          (kfor [0..<NBUF] binit_one))"

definition bget :: "uint32 \<Rightarrow> uint32 \<Rightarrow> ('z bcache_scheme, nat) kop" where
  "bget dev blockno =
     kseq (acquire BcacheLock)
    (kbind (kget bufs) (\<lambda>bs.
     case scan (Suc NBUF) (\<lambda>i. b_next (bs ! i))
            (\<lambda>i. b_dev (bs ! i) = dev \<and> b_blockno (bs ! i) = blockno) (b_next (bs ! NBUF)) of
       None \<Rightarrow> kfault ''endless loop''
     | Some (Some b) \<Rightarrow>
         kseq (upd_buf b (\<lambda>B. B\<lparr>b_refcnt := b_refcnt B + 1\<rparr>))
        (kseq (release BcacheLock)
        (kseq (acquiresleep (BufSL b))
              (kret b)))
     | Some None \<Rightarrow>
         (case scan (Suc NBUF) (\<lambda>i. b_prev (bs ! i))
                (\<lambda>i. b_refcnt (bs ! i) = 0 \<and> \<not> b_dirty (bs ! i)) (b_prev (bs ! NBUF)) of
            None \<Rightarrow> kfault ''endless loop''
          | Some (Some b) \<Rightarrow>
              kseq (upd_buf b (\<lambda>B. B\<lparr>b_dev := dev, b_blockno := blockno,
                      b_valid := False, b_dirty := False, b_refcnt := 1\<rparr>))
             (kseq (release BcacheLock)
             (kseq (acquiresleep (BufSL b))
                   (kret b)))
          | Some None \<Rightarrow> kpanic ''bget: no buffers'')))"

definition bread :: "uint32 \<Rightarrow> uint32 \<Rightarrow> ('z bcache_scheme, nat) kop" where
  "bread dev blockno =
     kbind (bget dev blockno) (\<lambda>b.
     kbind (get_buf b b_valid) (\<lambda>v.
     kseq (kwhen (\<not> v) (iderw b))
          (kret b)))"

definition bwrite :: "nat \<Rightarrow> ('z bcache_scheme, unit) kop" where
  "bwrite b =
     kbind (holdingsleep (BufSL b)) (\<lambda>h.
     kseq (kcheck (\<not> h) ''bwrite'')
    (kseq (upd_buf b (\<lambda>B. B\<lparr>b_dirty := True\<rparr>))
          (iderw b)))"

text \<open>The unlinking and relinking of \<^verbatim>\<open>brelse\<close>, assignment by assignment.\<close>

definition move_front :: "nat \<Rightarrow> ('z bcache_scheme, unit) kop" where
  "move_front b =
     kbind (get_buf b b_next) (\<lambda>n.
     kbind (get_buf b b_prev) (\<lambda>p.
     kseq (upd_buf n (\<lambda>B. B\<lparr>b_prev := p\<rparr>))
    (kbind (get_buf b b_prev) (\<lambda>p.
     kbind (get_buf b b_next) (\<lambda>n.
     kseq (upd_buf p (\<lambda>B. B\<lparr>b_next := n\<rparr>))
    (kbind (get_buf NBUF b_next) (\<lambda>hn.
     kseq (upd_buf b (\<lambda>B. B\<lparr>b_next := hn\<rparr>))
    (kseq (upd_buf b (\<lambda>B. B\<lparr>b_prev := NBUF\<rparr>))
    (kbind (get_buf NBUF b_next) (\<lambda>hn.
     kseq (upd_buf hn (\<lambda>B. B\<lparr>b_prev := b\<rparr>))
          (upd_buf NBUF (\<lambda>B. B\<lparr>b_next := b\<rparr>))))))))))))"

definition brelse :: "nat \<Rightarrow> ('z bcache_scheme, unit) kop" where
  "brelse b =
     kbind (holdingsleep (BufSL b)) (\<lambda>h.
     kseq (kcheck (\<not> h) ''brelse'')
    (kseq (releasesleep (BufSL b))
    (kseq (acquire BcacheLock)
    (kseq (upd_buf b (\<lambda>B. B\<lparr>b_refcnt := b_refcnt B - 1\<rparr>))
    (kbind (get_buf b b_refcnt) (\<lambda>r.
     kseq (kwhen (r = 0) (move_front b))
          (release BcacheLock)))))))"

text \<open>What the callers do to the data of a buffer they hold.\<close>

definition bset :: "nat \<Rightarrow> (uchar list \<Rightarrow> uchar list) \<Rightarrow> ('z bcache_scheme, unit) kop" where
  "bset b f = upd_buf b (\<lambda>B. B\<lparr>b_data := f (b_data B)\<rparr>)"

lemma upd_buf_run [run, simp]:
  "upd_buf b f s = Ok () (s\<lparr>bufs := (bufs s)[b := f (bufs s ! b)]\<rparr>)"
  by (simp add: upd_buf_def)

lemma get_buf_run [run, simp]: "get_buf b f s = Ok (f (bufs s ! b)) s"
  by (simp add: get_buf_def)

section \<open>The list of buffers\<close>

text \<open>\<open>consec nx pv xs\<close>: the links lead from each element of \<open>xs\<close> to the next and back.\<close>

fun consec :: "(nat \<Rightarrow> nat) \<Rightarrow> (nat \<Rightarrow> nat) \<Rightarrow> nat list \<Rightarrow> bool" where
  "consec nx pv (x # y # zs) = (nx x = y \<and> pv y = x \<and> consec nx pv (y # zs))"
| "consec nx pv _ = True"

definition dll :: "buf list \<Rightarrow> nat list \<Rightarrow> bool" where
  "dll bs ord \<longleftrightarrow> consec (\<lambda>i. b_next (bs ! i)) (\<lambda>i. b_prev (bs ! i)) (NBUF # ord @ [NBUF]) \<and>
     distinct ord \<and> set ord = {..<NBUF}"

lemma consec_append:
  "consec nx pv (xs @ a # ys) \<longleftrightarrow> consec nx pv (xs @ [a]) \<and> consec nx pv (a # ys)"
proof (induction xs)
  case Nil
  then show ?case by simp
next
  case (Cons x xs)
  then show ?case by (cases xs) auto
qed

lemma consec_cong:
  assumes "\<And>x. x \<in> set (butlast xs) \<Longrightarrow> nx x = nx' x" and "\<And>x. x \<in> set (tl xs) \<Longrightarrow> pv x = pv' x"
  shows "consec nx pv xs = consec nx' pv' xs"
  using assms
proof (induction xs)
  case (Cons x xs)
  then show ?case
  proof (cases xs)
    case (Cons y zs)
    have "consec nx pv (y # zs) = consec nx' pv' (y # zs)"
      using Cons.IH Cons.prems Cons by (cases zs) auto
    then show ?thesis using Cons Cons.prems by auto
  qed simp
qed simp

lemma scan_consec:
  assumes "consec nx pv (xs @ [NBUF])" and "NBUF \<notin> set xs" and "length xs < k"
  shows "scan k nx P (hd (xs @ [NBUF])) = Some (find P xs)"
  using assms
proof (induction xs arbitrary: k)
  case Nil
  then show ?case by (cases k) auto
next
  case (Cons x xs)
  then obtain k' where k: "k = Suc k'" by (cases k) auto
  have "nx x = hd (xs @ [NBUF])" and "consec nx pv (xs @ [NBUF])"
    using Cons.prems(1) by (cases xs; simp)+
  with Cons k show ?case by auto
qed

declare scan.simps [simp del]

lemma consec_rev: "consec pv nx (rev xs) = consec nx pv xs"
proof (induction xs)
  case (Cons x xs)
  then show ?case
  proof (cases xs)
    case (Cons y zs)
    have "consec pv nx (rev zs @ y # [x]) \<longleftrightarrow> consec pv nx (rev zs @ [y]) \<and> consec pv nx [y, x]"
      by (rule consec_append)
    then show ?thesis using Cons.IH Cons by auto
  qed simp
qed simp

lemma dll_next:
  assumes "dll bs ord"
  shows "scan (Suc NBUF) (\<lambda>i. b_next (bs ! i)) P (b_next (bs ! NBUF)) = Some (find P ord)"
proof -
  have "length ord = NBUF"
    using assms by (metis card_lessThan distinct_card dll_def)
  moreover have "consec (\<lambda>i. b_next (bs ! i)) (\<lambda>i. b_prev (bs ! i)) (ord @ [NBUF])"
    and "b_next (bs ! NBUF) = hd (ord @ [NBUF])"
    using assms by (cases ord; simp add: dll_def)+
  ultimately show ?thesis
    using assms by (simp only:) (rule scan_consec, auto simp: dll_def)
qed

lemma dll_prev:
  assumes "dll bs ord"
  shows "scan (Suc NBUF) (\<lambda>i. b_prev (bs ! i)) P (b_prev (bs ! NBUF)) = Some (find P (rev ord))"
proof -
  have len: "length ord = NBUF"
    using assms by (metis card_lessThan distinct_card dll_def)
  have c: "consec (\<lambda>i. b_prev (bs ! i)) (\<lambda>i. b_next (bs ! i)) (NBUF # rev ord @ [NBUF])"
    using assms consec_rev [of "\<lambda>i. b_prev (bs ! i)" "\<lambda>i. b_next (bs ! i)" "NBUF # ord @ [NBUF]"]
    by (simp add: dll_def)
  then have "consec (\<lambda>i. b_prev (bs ! i)) (\<lambda>i. b_next (bs ! i)) (rev ord @ [NBUF])"
    and "b_prev (bs ! NBUF) = hd (rev ord @ [NBUF])"
    by (cases "rev ord"; simp)+
  then show ?thesis
    using assms len by (simp only:) (rule scan_consec, auto simp: dll_def)
qed

text \<open>Moving an element to the front, on the links.\<close>

lemma consec_move:
  fixes nx pv :: "nat \<Rightarrow> nat"
  assumes c: "consec nx pv (N # us @ b # vs @ [N])" and d: "distinct (N # us @ b # vs)"
  defines "n \<equiv> nx b" and "p \<equiv> pv b"
  defines "hn \<equiv> (nx(p := n)) N"
  defines "nx' \<equiv> (nx(p := n, b := hn))(N := b)" and "pv' \<equiv> (pv(n := p, b := N))(hn := b)"
  shows "consec nx' pv' (N # b # us @ vs @ [N])"
proof -
  have n: "n = hd (vs @ [N])" and tail: "consec nx pv (vs @ [N])"
    using c consec_append [of nx pv "N # us" b "vs @ [N]"] by (cases vs; simp add: n_def)+
  have head: "consec nx pv (N # us @ [b])"
    using c consec_append [of nx pv "N # us" b "vs @ [N]"] by simp
  have nin: "n \<in> insert N (set vs)" by (simp add: n hd_append)
  have tln: "n \<notin> set (tl (vs @ [N]))" using d by (cases vs) (auto simp: n)
  have tlv: "set (tl (vs @ [N])) \<subseteq> insert N (set vs)" by (cases vs) auto
  have cong: "consec nx' pv' (vs @ [N])" if "p \<notin> set vs" "hn \<notin> set (tl (vs @ [N]))"
  proof (subst consec_cong [of "vs @ [N]" nx' nx pv' pv])
    show "pv' x = pv x" if "x \<in> set (tl (vs @ [N]))" for x
      using that tlv tln \<open>hn \<notin> set (tl (vs @ [N]))\<close> d by (auto simp: pv'_def)
  qed (use tail that d in \<open>auto simp: nx'_def\<close>)
  show ?thesis
  proof (cases us rule: rev_cases)
    case Nil
    then have p: "p = N" using head by (simp add: p_def)
    then have hn: "hn = n" by (simp add: hn_def)
    have "consec nx' pv' (vs @ [N])" using p hn tln d by (intro cong) auto
    moreover have "nx' b = hd (vs @ [N])" "pv' (hd (vs @ [N])) = b" "nx' N = b" "pv' b = N"
      using d nin hn n by (auto simp: nx'_def pv'_def)
    ultimately show ?thesis using Nil by (cases vs) auto
  next
    case (snoc us' q)
    have "consec nx pv (N # us' @ [q])" and q: "pv b = q"
      using head consec_append [of nx pv "N # us'" q "[b]"] by (auto simp: snoc)
    then have us: "consec nx pv us" and "nx N = hd us" by (cases us'; simp add: snoc)+
    have p: "p = q" using q by (simp add: p_def)
    then have hn: "hn = hd us" using \<open>nx N = hd us\<close> d by (simp add: hn_def snoc)
    have hu: "hd us \<in> set us" "hd us \<notin> set (tl us)" using d by (cases us; simp add: snoc)+
    have "consec nx' pv' (us' @ [q])"
    proof (subst consec_cong [of "us' @ [q]" nx' nx pv' pv])
      have "set (tl us) \<subseteq> set us" by (cases us) auto
      then show "pv' x = pv x" if "x \<in> set (tl (us' @ [q]))" for x
        using that hu hn nin d by (auto simp: pv'_def snoc)
    qed (use us p d in \<open>auto simp: nx'_def snoc\<close>)
    moreover have "consec nx' pv' (vs @ [N])"
    proof (rule cong)
      show "p \<notin> set vs" using p d by (simp add: snoc)
      have "hn \<in> set us" using hn hu by simp
      then show "hn \<notin> set (tl (vs @ [N]))" using tlv d by (auto simp: snoc)
    qed
    moreover have "nx' q = hd (vs @ [N])" "pv' (hd (vs @ [N])) = q" "nx' N = b" "pv' b = N"
      "nx' b = hd us" "pv' (hd us) = b"
      using d nin hn n p hu by (auto simp: nx'_def pv'_def snoc)
    ultimately show ?thesis
      using consec_append [of nx' pv' us' q "vs @ [N]"] by (cases us'; cases vs) (auto simp: snoc)
  qed
qed

text \<open>A buffer without its links.\<close>

definition nolinks :: "buf \<Rightarrow> buf" where
  "nolinks B = B\<lparr>b_prev := 0, b_next := 0\<rparr>"

lemma nolinksD:
  assumes "nolinks B = nolinks C"
  shows "b_valid B = b_valid C" "b_dirty B = b_dirty C" "b_dev B = b_dev C"
    "b_blockno B = b_blockno C" "b_refcnt B = b_refcnt C" "b_data B = b_data C"
  using assms by (cases B; cases C; simp add: nolinks_def)+

lemma consec_range:
  assumes "consec nx pv (xs @ b # ys)" and "xs \<noteq> []" and "ys \<noteq> []"
  shows "nx b \<in> set ys" and "pv b \<in> set xs"
proof -
  from assms(3) obtain y zs where "ys = y # zs" by (cases ys) auto
  with assms(1) show "nx b \<in> set ys" using consec_append [of nx pv xs b ys] by auto
  from assms(2) obtain ws w where "xs = ws @ [w]" by (cases xs rule: rev_cases) auto
  with assms(1) show "pv b \<in> set xs"
    using consec_append [of nx pv ws w "b # ys"] by auto
qed

lemma set_link_nth:
  assumes "i < length bs"
  shows "b_next (bs[j := (bs ! j)\<lparr>b_prev := v\<rparr>] ! i) = b_next (bs ! i)"
    and "b_next (bs[j := (bs ! j)\<lparr>b_next := v\<rparr>] ! i) = (if i = j then v else b_next (bs ! i))"
    and "b_prev (bs[j := (bs ! j)\<lparr>b_next := v\<rparr>] ! i) = b_prev (bs ! i)"
    and "b_prev (bs[j := (bs ! j)\<lparr>b_prev := v\<rparr>] ! i) = (if i = j then v else b_prev (bs ! i))"
    and "nolinks (bs[j := (bs ! j)\<lparr>b_prev := v\<rparr>] ! i) = nolinks (bs ! i)"
    and "nolinks (bs[j := (bs ! j)\<lparr>b_next := v\<rparr>] ! i) = nolinks (bs ! i)"
  using assms by (cases "i = j"; simp add: nolinks_def)+

lemma move_front_ok:
  assumes d: "dll (bufs s) ord" and len: "length (bufs s) = Suc NBUF" and b: "b < NBUF"
  shows "\<exists>bs. move_front b s = Ok () (s\<lparr>bufs := bs\<rparr>) \<and> dll bs (b # remove1 b ord)
    \<and> length bs = Suc NBUF \<and> (\<forall>i\<le>NBUF. nolinks (bs ! i) = nolinks (bufs s ! i))"
proof -
  let ?nx = "\<lambda>i. b_next (bufs s ! i)" and ?pv = "\<lambda>i. b_prev (bufs s ! i)"
  have "b \<in> set ord" using d b by (simp add: dll_def)
  then obtain us vs where ord: "ord = us @ b # vs" by (auto simp: in_set_conv_decomp)
  have c: "consec ?nx ?pv (NBUF # us @ b # vs @ [NBUF])" and dis: "distinct (NBUF # us @ b # vs)"
    using d by (auto simp: dll_def ord)
  have rng: "set us \<subseteq> {..<NBUF}" "set vs \<subseteq> {..<NBUF}" using d by (auto simp: dll_def ord)
  have n: "?nx b \<le> NBUF" "?nx b \<noteq> b" and p: "?pv b \<le> NBUF" "?pv b \<noteq> b"
    using consec_range [of ?nx ?pv "NBUF # us" b "vs @ [NBUF]"] c dis rng by auto
  define hn where "hn = (?nx(?pv b := ?nx b)) NBUF"
  have "?nx NBUF \<in> set (us @ [b])"
    using c by (cases us) auto
  then have hn: "hn \<le> NBUF" "hn \<noteq> b"
    using n c dis rng b unfolding hn_def by (cases us; auto simp: dest: subsetD)+
  define bs where "bs =
      (let bs1 = (bufs s)[?nx b := (bufs s ! ?nx b)\<lparr>b_prev := ?pv b\<rparr>];
           bs2 = bs1[?pv b := (bs1 ! ?pv b)\<lparr>b_next := ?nx b\<rparr>];
           bs3 = bs2[b := (bs2 ! b)\<lparr>b_next := hn\<rparr>];
           bs4 = bs3[b := (bs3 ! b)\<lparr>b_prev := NBUF\<rparr>];
           bs5 = bs4[hn := (bs4 ! hn)\<lparr>b_prev := b\<rparr>]
       in bs5[NBUF := (bs5 ! NBUF)\<lparr>b_next := b\<rparr>])"
  have run: "move_front b s = Ok () (s\<lparr>bufs := bs\<rparr>)"
    using len b n p hn unfolding move_front_def bs_def Let_def hn_def
    by (cases "NBUF = ?pv b") (simp_all add: run set_link_nth)
  have lbs: "length bs = Suc NBUF" using len by (simp add: bs_def Let_def)
  have lnk: "b_next (bs ! i) = ((?nx(?pv b := ?nx b, b := hn))(NBUF := b)) i"
    "b_prev (bs ! i) = ((?pv(?nx b := ?pv b, b := NBUF))(hn := b)) i"
    "nolinks (bs ! i) = nolinks (bufs s ! i)" if "i \<le> NBUF" for i
    using that len unfolding bs_def Let_def
    by (simp_all add: set_link_nth del: list_update_overwrite)
  have "consec (\<lambda>i. b_next (bs ! i)) (\<lambda>i. b_prev (bs ! i)) (NBUF # b # us @ vs @ [NBUF])
      = consec ((?nx(?pv b := ?nx b, b := hn))(NBUF := b)) ((?pv(?nx b := ?pv b, b := NBUF))(hn := b))
          (NBUF # b # us @ vs @ [NBUF])"
    using rng b by (intro consec_cong lnk) (auto simp: butlast_append dest!: in_set_butlastD)
  then have "consec (\<lambda>i. b_next (bs ! i)) (\<lambda>i. b_prev (bs ! i)) (NBUF # b # us @ vs @ [NBUF])"
    using consec_move [OF c dis] by (simp only: hn_def)
  moreover have "remove1 b ord = us @ vs" using dis by (simp add: ord remove1_append)
  ultimately have "dll bs (b # remove1 b ord)" using d by (auto simp: dll_def ord)
  then show ?thesis using run lbs lnk(3) by blast
qed

section \<open>The invariant of the cache\<close>

text \<open>
  \<open>H\<close> are the buffers the executing process holds; the others are unlocked and unused. A valid
  buffer is of disk 1; one that is neither held nor dirty agrees with the disk. No two buffers
  are of the same block.
\<close>

definition buf_ok :: "bool \<Rightarrow> 'z bcache_scheme \<Rightarrow> nat \<Rightarrow> bool" where
  "buf_ok h s i \<longleftrightarrow> (let B = bufs s ! i in
     (if h then sl_mine (BufSL i) s \<and> b_refcnt B = 1 \<and> b_valid B
      else \<not> sl_locked (slks s (BufSL i)) \<and> b_refcnt B = 0 \<and>
        (b_valid B \<and> \<not> b_dirty B \<longrightarrow> b_data B = memdisk s ! unat (b_blockno B))) \<and>
     (b_dirty B \<longrightarrow> b_valid B) \<and>
     (b_valid B \<longrightarrow> b_dev B = 1 \<and> unat (b_blockno B) < length (memdisk s) \<and>
        length (b_data B) = BSIZE))"

definition bio_ok :: "nat list \<Rightarrow> nat set \<Rightarrow> 'z bcache_scheme \<Rightarrow> bool" where
  "bio_ok ord H s \<longleftrightarrow> length (bufs s) = Suc NBUF \<and> dll (bufs s) ord \<and> held s = {} \<and>
     (\<exists>p. cur s = Some p \<and> p < length (procs s)) \<and> H \<subseteq> {..<NBUF} \<and>
     (\<forall>i<NBUF. buf_ok (i \<in> H) s i) \<and>
     (\<forall>i<NBUF. \<forall>j<NBUF. b_dev (bufs s ! i) = 1 \<longrightarrow> b_dev (bufs s ! j) = 1 \<longrightarrow>
        b_blockno (bufs s ! i) = b_blockno (bufs s ! j) \<longrightarrow> i = j) \<and>
     (\<forall>d\<in>set (memdisk s). length d = BSIZE)"

lemma bio_okD:
  assumes "bio_ok ord H s"
  shows "length (bufs s) = Suc NBUF" "dll (bufs s) ord" "held s = {}" "H \<subseteq> {..<NBUF}"
    "\<exists>p. cur s = Some p \<and> p < length (procs s)"
    and "i < NBUF \<Longrightarrow> buf_ok (i \<in> H) s i"
    and "i < NBUF \<Longrightarrow> j < NBUF \<Longrightarrow> b_dev (bufs s ! i) = 1 \<Longrightarrow> b_dev (bufs s ! j) = 1 \<Longrightarrow>
      b_blockno (bufs s ! i) = b_blockno (bufs s ! j) \<Longrightarrow> i = j"
    and "d \<in> set (memdisk s) \<Longrightarrow> length d = BSIZE"
  using assms by (simp_all add: bio_ok_def)

text \<open>\<open>has s i k\<close>: buffer \<open>i\<close> holds the data of block \<open>k\<close>. \<open>content\<close>: what the cache shows of a block.\<close>

definition has :: "'z bcache_scheme \<Rightarrow> nat \<Rightarrow> nat \<Rightarrow> bool" where
  "has s i k \<longleftrightarrow> b_valid (bufs s ! i) \<and> b_dev (bufs s ! i) = 1 \<and> unat (b_blockno (bufs s ! i)) = k"

definition content :: "'z bcache_scheme \<Rightarrow> nat \<Rightarrow> uchar list" where
  "content s k = (case find (\<lambda>i. has s i k) [0..<NBUF] of Some i \<Rightarrow> b_data (bufs s ! i)
                  | None \<Rightarrow> memdisk s ! k)"

definition dirty :: "'z bcache_scheme \<Rightarrow> nat \<Rightarrow> bool" where
  "dirty s k \<longleftrightarrow> (\<exists>i<NBUF. b_dirty (bufs s ! i) \<and> unat (b_blockno (bufs s ! i)) = k)"

lemma has_inj:
  assumes "bio_ok ord H s" and "i < NBUF" and "j < NBUF" and "has s i k" and "has s j k"
  shows "i = j"
  using assms(4,5) by (intro bio_okD(7) [OF assms(1-3)]) (auto simp: has_def word_unat_eq_iff)

lemma content_has:
  assumes "bio_ok ord H s" and "i < NBUF" and "has s i k"
  shows "content s k = b_data (bufs s ! i)"
proof -
  obtain j where j: "find (\<lambda>i. has s i k) [0..<NBUF] = Some j"
    using assms(2,3) by (cases "find (\<lambda>i. has s i k) [0..<NBUF]") (auto simp: find_None_iff)
  then have "has s j k" "j < NBUF" by (auto simp: find_Some_iff)
  with assms has_inj [OF assms(1), of i j k] j show ?thesis by (simp add: content_def)
qed

lemma content_hasnt:
  "(\<And>i. i < NBUF \<Longrightarrow> \<not> has s i k) \<Longrightarrow> content s k = memdisk s ! k"
  by (cases "find (\<lambda>i. has s i k) [0..<NBUF]") (auto simp: content_def find_Some_iff)

text \<open>Two states in which every buffer that is valid in either and shows something other than
  the disk is the same have the same contents.\<close>

lemma content_cong:
  assumes s: "bio_ok ord H s" and t: "bio_ok ord' H' t" and d: "memdisk t = memdisk s"
    and eq: "\<And>i. i < NBUF \<Longrightarrow> i \<noteq> b \<Longrightarrow> has t i k = has s i k \<and> b_data (bufs t ! i) = b_data (bufs s ! i)"
    and sb: "b < NBUF \<Longrightarrow> has s b k \<Longrightarrow> content t k = b_data (bufs s ! b)"
    and tb: "b < NBUF \<Longrightarrow> has t b k \<Longrightarrow> \<not> has s b k \<Longrightarrow> b_data (bufs t ! b) = memdisk s ! k"
  shows "content t k = content s k"
proof (cases "\<exists>i<NBUF. has s i k")
  case True
  then obtain i where i: "i < NBUF" "has s i k" by blast
  then have c: "content s k = b_data (bufs s ! i)" by (rule content_has [OF s])
  show ?thesis
  proof (cases "i = b")
    case True
    then show ?thesis using i c sb by simp
  next
    case False
    then show ?thesis using c eq [OF i(1)] i content_has [OF t i(1)] by simp
  qed
next
  case False
  then have c: "content s k = memdisk s ! k" by (intro content_hasnt) auto
  show ?thesis
  proof (cases "b < NBUF \<and> has t b k")
    case True
    then show ?thesis using False c tb content_has [OF t, of b k] by auto
  next
    case nb: False
    have "\<not> has t i k" if "i < NBUF" for i using that eq [OF that] False nb by (cases "i = b") auto
    then show ?thesis using c d by (simp add: content_hasnt)
  qed
qed

section \<open>Getting a buffer\<close>

lemma held_none: "held s = {} \<Longrightarrow> s\<lparr>held := {}\<rparr> = s"
  by (cases s) simp

lemma find_unique:
  "b \<in> set xs \<Longrightarrow> (\<And>x. x \<in> set xs \<Longrightarrow> P x \<longleftrightarrow> x = b) \<Longrightarrow> find P xs = Some b"
  by (induction xs) auto

lemma bget_cached:
  assumes ok: "bio_ok ord H s" and b: "b < NBUF" "b \<notin> H"
    and B: "b_dev (bufs s ! b) = 1" "b_blockno (bufs s ! b) = blk"
  shows "bget 1 blk s = Ok b (sl_take (BufSL b)
    (s\<lparr>bufs := (bufs s)[b := (bufs s ! b)\<lparr>b_refcnt := 1\<rparr>]\<rparr>))"
proof -
  have "b_dev (bufs s ! x) = 1 \<and> b_blockno (bufs s ! x) = blk \<longleftrightarrow> x = b" if "x < NBUF" for x
    using B bio_okD(7) [OF ok that b(1)] by auto
  moreover have "set ord = {..<NBUF}" using bio_okD(2) [OF ok] by (simp add: dll_def)
  ultimately have "find (\<lambda>i. b_dev (bufs s ! i) = 1 \<and> b_blockno (bufs s ! i) = blk) ord = Some b"
    using b(1) by (intro find_unique) simp_all
  moreover have "buf_ok False s b" using bio_okD(6) [OF ok b(1)] b(2) by simp
  moreover obtain p where "cur s = Some p" "held s = {}" using bio_okD(3,5) [OF ok] by blast
  ultimately show ?thesis
    unfolding bget_def
    by (simp add: run dll_next [OF bio_okD(2) [OF ok]] buf_ok_def Let_def held_none)
qed

lemma bget_recycle:
  assumes ok: "bio_ok ord H s"
    and new: "\<And>i. i < NBUF \<Longrightarrow> b_dev (bufs s ! i) = 1 \<Longrightarrow> b_blockno (bufs s ! i) \<noteq> blk"
    and clean: "i < NBUF" "i \<notin> H" "\<not> b_dirty (bufs s ! i)"
  shows "\<exists>b<NBUF. b \<notin> H \<and> \<not> b_dirty (bufs s ! b) \<and> bget 1 blk s = Ok b (sl_take (BufSL b)
    (s\<lparr>bufs := (bufs s)[b := (bufs s ! b)\<lparr>b_dev := 1, b_blockno := blk, b_valid := False,
       b_dirty := False, b_refcnt := 1\<rparr>]\<rparr>))"
proof -
  let ?P = "\<lambda>i. b_refcnt (bufs s ! i) = 0 \<and> \<not> b_dirty (bufs s ! i)"
  have ord: "set ord = {..<NBUF}" using bio_okD(2) [OF ok] by (simp add: dll_def)
  have "find (\<lambda>i. b_dev (bufs s ! i) = 1 \<and> b_blockno (bufs s ! i) = blk) ord = None"
    using new ord by (auto simp: find_None_iff)
  moreover have "?P i" using bio_okD(6) [OF ok clean(1)] clean by (simp add: buf_ok_def Let_def)
  then obtain b where f: "find ?P (rev ord) = Some b"
    using clean(1) ord by (cases "find ?P (rev ord)") (auto simp: find_None_iff)
  then have b: "?P b" "b < NBUF" using ord by (auto simp: find_Some_iff) (metis lessThan_iff nth_mem set_rev length_rev)
  then have "b \<notin> H" using bio_okD(6) [OF ok b(2)] by (auto simp: buf_ok_def Let_def)
  moreover have "buf_ok False s b" using bio_okD(6) [OF ok b(2)] \<open>b \<notin> H\<close> by simp
  moreover obtain p where "cur s = Some p" "held s = {}" using bio_okD(3,5) [OF ok] by blast
  ultimately have "bget 1 blk s = Ok b (sl_take (BufSL b)
    (s\<lparr>bufs := (bufs s)[b := (bufs s ! b)\<lparr>b_dev := 1, b_blockno := blk, b_valid := False,
       b_dirty := False, b_refcnt := 1\<rparr>]\<rparr>))"
    unfolding bget_def
    by (simp add: run dll_next [OF bio_okD(2) [OF ok]] dll_prev [OF bio_okD(2) [OF ok]] f
        buf_ok_def Let_def held_none)
  with b \<open>b \<notin> H\<close> show ?thesis by blast
qed

section \<open>Reading and writing a block\<close>

lemma iderw_read:
  assumes "held s = {}" and "\<exists>p. cur s = Some p" and "sl_mine (BufSL b) s" and "b < length (bufs s)"
    and "bufs s ! b = B" and "\<not> b_valid B" and "\<not> b_dirty B" and "b_dev B = 1"
    and "unat (b_blockno B) < length (memdisk s)"
  shows "iderw b s = Ok () (s\<lparr>bufs := (bufs s)[b := B\<lparr>b_data := memdisk s ! unat (b_blockno B), b_valid := True\<rparr>]\<rparr>)"
  using assms by (auto simp: iderw_def run)

lemma iderw_write:
  assumes "held s = {}" and "\<exists>p. cur s = Some p" and "sl_mine (BufSL b) s" and "b < length (bufs s)"
    and "bufs s ! b = B" and "b_dirty B" and "b_dev B = 1"
    and "unat (b_blockno B) < length (memdisk s)"
  shows "iderw b s = Ok () (s\<lparr>bufs := (bufs s)[b := B\<lparr>b_dirty := False, b_valid := True\<rparr>],
    memdisk := (memdisk s)[unat (b_blockno B) := b_data B],
    wtrace := wtrace s @ [(unat (b_blockno B), b_data B)]\<rparr>)"
  using assms by (auto simp: iderw_def run)

text \<open>What a routine on the cache leaves alone, in terms of the two states.\<close>

definition bio_frame :: "'z bcache_scheme \<Rightarrow> 'z bcache_scheme \<Rightarrow> bool" where
  "bio_frame s t \<longleftrightarrow> t = s\<lparr>procs := procs t, slks := slks t, bufs := bufs t, memdisk := memdisk t,
     wtrace := wtrace t\<rparr> \<and> roused (procs s) (procs t) \<and> (\<forall>i. slks t (InodeSL i) = slks s (InodeSL i))"

lemma dll_cong:
  assumes "\<And>i. i \<le> NBUF \<Longrightarrow> b_next (bs ! i) = b_next (bs' ! i) \<and> b_prev (bs ! i) = b_prev (bs' ! i)"
  shows "dll bs ord = dll bs' ord"
proof -
  have "consec (\<lambda>i. b_next (bs ! i)) (\<lambda>i. b_prev (bs ! i)) (NBUF # ord @ [NBUF])
      = consec (\<lambda>i. b_next (bs' ! i)) (\<lambda>i. b_prev (bs' ! i)) (NBUF # ord @ [NBUF])"
    if "set ord = {..<NBUF}"
    using that assms by (intro consec_cong) (auto simp: butlast_append)
  then show ?thesis by (auto simp: dll_def)
qed

text \<open>A buffer that the process takes and whose data are those of the block.\<close>

lemma take_buf:
  assumes ok: "bio_ok ord H s" and b: "b < NBUF" "b \<notin> H"
    and B: "b_valid B" "b_dev B = 1" "b_refcnt B = 1" "b_next B = b_next (bufs s ! b)"
      "b_prev B = b_prev (bufs s ! b)" "b_data B = content s (unat (b_blockno B))"
      "length (b_data B) = BSIZE" "unat (b_blockno B) < length (memdisk s)"
    and dirt: "b_dirty B = b_dirty (bufs s ! b)" "b_dirty B \<longrightarrow> b_blockno B = b_blockno (bufs s ! b)"
    and uniq: "\<forall>i<NBUF. i \<noteq> b \<longrightarrow> b_dev (bufs s ! i) = 1 \<longrightarrow> b_blockno (bufs s ! i) \<noteq> b_blockno B"
  defines "t \<equiv> sl_take (BufSL b) (s\<lparr>bufs := (bufs s)[b := B]\<rparr>)"
  shows "bio_ok ord (insert b H) t" and "content t k = content s k" and "dirty t k = dirty s k"
    and "bio_frame s t" and "bufs t ! b = B" and "i \<noteq> b \<Longrightarrow> bufs t ! i = bufs s ! i"
proof -
  note len = bio_okD(1) [OF ok]
  have bt: "bufs t = (bufs s)[b := B]" and mt: "memdisk t = memdisk s" and ht: "held t = held s"
    and ct: "cur t = cur s" "procs t = procs s"
    and st: "slks t = (slks s)(BufSL b := (slks s (BufSL b))\<lparr>sl_locked := True,
      sl_pid := p_pid (procs s ! the (cur s))\<rparr>)"
    by (simp_all add: t_def sl_take_def)
  show nb: "bufs t ! b = B" using len b by (simp add: bt)
  show ni: "bufs t ! i = bufs s ! i" if "i \<noteq> b" for i using that by (simp add: bt)
  have bo: "buf_ok (i \<in> insert b H) t i" if i: "i < NBUF" for i
  proof (cases "i = b")
    case True
    then show ?thesis
      using B nb by (simp add: buf_ok_def Let_def mt sl_mine_def st ct)
  next
    case False
    then show ?thesis
      using bio_okD(6) [OF ok i] ni
      by (cases "i \<in> H") (simp_all add: buf_ok_def Let_def mt sl_mine_def st ct)
  qed
  show okt: "bio_ok ord (insert b H) t"
    unfolding bio_ok_def
  proof (intro conjI)
    show "dll (bufs t) ord"
      using bio_okD(2) [OF ok] dll_cong [of "bufs t" "bufs s" ord] B(4,5) nb ni by metis
    show "\<forall>i<NBUF. \<forall>j<NBUF. b_dev (bufs t ! i) = 1 \<longrightarrow> b_dev (bufs t ! j) = 1 \<longrightarrow>
        b_blockno (bufs t ! i) = b_blockno (bufs t ! j) \<longrightarrow> i = j"
      using bio_okD(7) [OF ok] uniq nb ni by metis
  qed (use ok b bo in \<open>auto simp: bio_ok_def bt mt ht ct\<close>)
  show "content t k = content s k"
  proof (rule content_cong [OF ok okt mt, of b])
    show "has t i k = has s i k \<and> b_data (bufs t ! i) = b_data (bufs s ! i)" if "i < NBUF" "i \<noteq> b" for i
      using that ni by (simp add: has_def)
    assume "has s b k"
    then have bs: "b_valid (bufs s ! b)" "unat (b_blockno (bufs s ! b)) = k" by (auto simp: has_def)
    show "content t k = b_data (bufs s ! b)"
    proof (cases "b_blockno B = b_blockno (bufs s ! b)")
      case True
      then have "has t b k" using B nb bs by (simp add: has_def)
      then show ?thesis
        using content_has [OF okt b(1)] nb B(6) True bs content_has [OF ok b(1) \<open>has s b k\<close>] by simp
    next
      case False
      then have nd: "\<not> b_dirty (bufs s ! b)" using dirt by blast
      have "\<not> has t i k" if "i < NBUF" for i
        using that False nb ni bs has_inj [OF ok that b(1) _ \<open>has s b k\<close>]
        by (cases "i = b") (auto simp: has_def word_unat_eq_iff)
      then have "content t k = memdisk s ! k" using content_hasnt [of t k] mt by simp
      then show ?thesis
        using bio_okD(6) [OF ok b(1)] b(2) nd bs by (simp add: buf_ok_def Let_def)
    qed
  next
    assume "has t b k" "\<not> has s b k"
    then have k: "unat (b_blockno B) = k" using nb by (simp add: has_def)
    have "\<not> has s i k" if "i < NBUF" for i
      using that uniq k \<open>\<not> has s b k\<close> by (cases "i = b") (auto simp: has_def word_unat_eq_iff)
    then show "b_data (bufs t ! b) = memdisk s ! k" using nb B(6) k content_hasnt [of s k] by simp
  qed
  show "dirty t k = dirty s k"
    unfolding dirty_def using nb ni dirt by metis
  show "bio_frame s t"
    by (simp add: bio_frame_def t_def sl_take_def)
qed

lemma sl_take_bufs [simp]:
  "(sl_take l s)\<lparr>bufs := x\<rparr> = sl_take l (s\<lparr>bufs := x\<rparr>)" "bufs (sl_take l s) = bufs s"
  "memdisk (sl_take l s) = memdisk s" "wtrace (sl_take l s) = wtrace s"
  by (simp_all add: sl_take_def)

lemma bread_invalid:
  assumes "bget 1 blk s = Ok b (sl_take (BufSL b) (s\<lparr>bufs := (bufs s)[b := B]\<rparr>))"
    and "\<not> b_valid B" "\<not> b_dirty B" "b_dev B = 1" "b_blockno B = blk"
    and "held s = {}" "\<exists>p. cur s = Some p" "b < length (bufs s)" "unat blk < length (memdisk s)"
  shows "bread 1 blk s = Ok b (sl_take (BufSL b)
    (s\<lparr>bufs := (bufs s)[b := B\<lparr>b_data := memdisk s ! unat blk, b_valid := True\<rparr>]\<rparr>))"
proof -
  have "iderw b (sl_take (BufSL b) (s\<lparr>bufs := (bufs s)[b := B]\<rparr>)) = Ok () (sl_take (BufSL b)
    (s\<lparr>bufs := (bufs s)[b := B\<lparr>b_data := memdisk s ! unat blk, b_valid := True\<rparr>]\<rparr>))"
    using assms(2-) by (subst iderw_read [where B = B]) auto
  then show ?thesis using assms(1,2,8) by (simp add: bread_def run)
qed

lemma bread_ok:
  assumes ok: "bio_ok ord H s" and blk: "unat blk < length (memdisk s)"
    and free: "\<forall>i\<in>H. b_blockno (bufs s ! i) \<noteq> blk"
    and room: "(\<exists>i<NBUF. has s i (unat blk)) \<or> (\<exists>i<NBUF. i \<notin> H \<and> \<not> b_dirty (bufs s ! i))"
  shows "\<exists>b t. bread 1 blk s = Ok b t \<and> b < NBUF \<and> b \<notin> H \<and> bio_ok ord (insert b H) t
    \<and> b_blockno (bufs t ! b) = blk \<and> b_data (bufs t ! b) = content s (unat blk)
    \<and> (\<forall>k. content t k = content s k) \<and> (\<forall>k. dirty t k = dirty s k)
    \<and> memdisk t = memdisk s \<and> wtrace t = wtrace s
    \<and> (\<forall>i. i \<noteq> b \<longrightarrow> bufs t ! i = bufs s ! i) \<and> bio_frame s t"
proof -
  note len = bio_okD(1) [OF ok]
  obtain p where p: "cur s = Some p" "held s = {}" using bio_okD(3,5) [OF ok] by blast
  have fin: ?thesis
    if b: "b < NBUF" "b \<notin> H" and run: "bread 1 blk s = Ok b (sl_take (BufSL b) (s\<lparr>bufs := (bufs s)[b := B]\<rparr>))"
      and B: "b_valid B" "b_dev B = 1" "b_refcnt B = 1" "b_next B = b_next (bufs s ! b)"
        "b_prev B = b_prev (bufs s ! b)" "b_blockno B = blk" "b_data B = content s (unat blk)"
        "length (b_data B) = BSIZE"
      and dirt: "b_dirty B = b_dirty (bufs s ! b)" "b_dirty B \<Longrightarrow> blk = b_blockno (bufs s ! b)"
      and uniq: "\<And>i. i < NBUF \<Longrightarrow> i \<noteq> b \<Longrightarrow> b_dev (bufs s ! i) = 1 \<Longrightarrow> b_blockno (bufs s ! i) \<noteq> blk"
    for b B
  proof -
    define t where "t = sl_take (BufSL b) (s\<lparr>bufs := (bufs s)[b := B]\<rparr>)"
    have B': "b_data B = content s (unat (b_blockno B))" "unat (b_blockno B) < length (memdisk s)"
      using B(6,7) blk by simp_all
    have d: "b_dirty B \<longrightarrow> b_blockno B = b_blockno (bufs s ! b)"
      and u: "\<forall>i<NBUF. i \<noteq> b \<longrightarrow> b_dev (bufs s ! i) = 1 \<longrightarrow> b_blockno (bufs s ! i) \<noteq> b_blockno B"
      using dirt(2) uniq B(6) by simp_all
    note T = take_buf [OF ok b B(1-5) B'(1) B(8) B'(2) dirt(1) d u, folded t_def]
    have "memdisk t = memdisk s" "wtrace t = wtrace s" by (simp_all add: t_def)
    then show ?thesis
      using run b T(1,4) B(6,7) unfolding t_def [symmetric]
      by (intro exI [of _ b] exI [of _ t]) (simp add: T(2,3,5,6))
  qed
  have disk: "length (memdisk s ! unat blk) = BSIZE" using bio_okD(8) [OF ok] blk nth_mem by blast
  show ?thesis
  proof (cases "\<exists>b<NBUF. b_dev (bufs s ! b) = 1 \<and> b_blockno (bufs s ! b) = blk")
    case True
    then obtain b where b: "b < NBUF" and B: "b_dev (bufs s ! b) = 1" "b_blockno (bufs s ! b) = blk" by blast
    have "b \<notin> H" using free B by blast
    note get = bget_cached [OF ok b this B]
    have bo: "buf_ok False s b" using bio_okD(6) [OF ok b] \<open>b \<notin> H\<close> by simp
    have uniq: "b_blockno (bufs s ! i) \<noteq> blk" if "i < NBUF" "i \<noteq> b" "b_dev (bufs s ! i) = 1" for i
      using bio_okD(7) [OF ok that(1) b] that B by auto
    show ?thesis
    proof (cases "b_valid (bufs s ! b)")
      case True
      then have "has s b (unat blk)" using B by (simp add: has_def)
      then have c: "content s (unat blk) = b_data (bufs s ! b)" by (rule content_has [OF ok b])
      show ?thesis
        by (rule fin [OF b \<open>b \<notin> H\<close>, where B = "(bufs s ! b)\<lparr>b_refcnt := 1\<rparr>"])
          (use True B c bo get len b uniq in \<open>auto simp: bread_def run buf_ok_def Let_def\<close>)
    next
      case False
      have "\<not> has s i (unat blk)" if "i < NBUF" for i
        using that False uniq [OF that] by (cases "i = b") (auto simp: has_def word_unat_eq_iff)
      then have c: "content s (unat blk) = memdisk s ! unat blk" by (rule content_hasnt)
      have "\<not> b_dirty (bufs s ! b)" using bo False by (simp add: buf_ok_def Let_def)
      then have "bread 1 blk s = Ok b (sl_take (BufSL b) (s\<lparr>bufs := (bufs s)[b := (bufs s ! b)
          \<lparr>b_refcnt := 1, b_data := memdisk s ! unat blk, b_valid := True\<rparr>]\<rparr>))"
        using bread_invalid [OF get] False B p len b blk by simp
      from fin [OF b \<open>b \<notin> H\<close> this] show ?thesis
        using B c disk uniq \<open>\<not> b_dirty (bufs s ! b)\<close> by simp
    qed
  next
    case False
    then have new: "b_blockno (bufs s ! i) \<noteq> blk" if "i < NBUF" "b_dev (bufs s ! i) = 1" for i
      using that by blast
    then have "\<not> has s i (unat blk)" if "i < NBUF" for i
      using that by (auto simp: has_def word_unat_eq_iff)
    then have c: "content s (unat blk) = memdisk s ! unat blk" by (rule content_hasnt)
    from room \<open>\<And>i. i < NBUF \<Longrightarrow> \<not> has s i (unat blk)\<close> obtain i
      where "i < NBUF" "i \<notin> H" "\<not> b_dirty (bufs s ! i)" by blast
    from bget_recycle [OF ok new this] obtain b where b: "b < NBUF" "b \<notin> H" "\<not> b_dirty (bufs s ! b)"
      and get: "bget 1 blk s = Ok b (sl_take (BufSL b) (s\<lparr>bufs := (bufs s)[b := (bufs s ! b)
        \<lparr>b_dev := 1, b_blockno := blk, b_valid := False, b_dirty := False, b_refcnt := 1\<rparr>]\<rparr>))"
      by blast
    have "bread 1 blk s = Ok b (sl_take (BufSL b) (s\<lparr>bufs := (bufs s)[b := (bufs s ! b)
        \<lparr>b_dev := 1, b_blockno := blk, b_dirty := False, b_refcnt := 1,
         b_data := memdisk s ! unat blk, b_valid := True\<rparr>]\<rparr>))"
      using bread_invalid [OF get] p len b blk by simp
    from fin [OF b(1,2) this] show ?thesis
      using b c disk new by simp
  qed
qed

section \<open>Changing and releasing a held buffer\<close>

lemma held_buf:
  fixes s :: "'z bcache_scheme" and w :: "(nat \<times> uchar list) list"
  assumes ok: "bio_ok ord H s" and b: "b \<in> H"
    and B: "b_valid B" "b_dev B = 1" "b_refcnt B = 1" "b_blockno B = b_blockno (bufs s ! b)"
      "b_next B = b_next (bufs s ! b)" "b_prev B = b_prev (bufs s ! b)" "length (b_data B) = BSIZE"
    and m: "length m = length (memdisk s)" "\<forall>d\<in>set m. length d = BSIZE"
      "\<forall>k. k \<noteq> unat (b_blockno B) \<longrightarrow> m ! k = memdisk s ! k"
  defines "t \<equiv> s\<lparr>bufs := (bufs s)[b := B], memdisk := m, wtrace := w\<rparr>"
  shows "bio_ok ord H t"
    and "content t k = (if k = unat (b_blockno B) then b_data B else content s k)"
    and "dirty t k = (if k = unat (b_blockno B) then b_dirty B else dirty s k)"
    and "bufs t ! b = B" and "i \<noteq> b \<Longrightarrow> bufs t ! i = bufs s ! i" and "bio_frame s t"
proof -
  note len = bio_okD(1) [OF ok]
  have bn: "b < NBUF" using b bio_okD(4) [OF ok] by auto
  have bh: "buf_ok True s b" using bio_okD(6) [OF ok bn] b by simp
  then have hb: "has s b (unat (b_blockno B))" using B by (simp add: buf_ok_def Let_def has_def)
  have bt: "bufs t = (bufs s)[b := B]" and ot: "memdisk t = m" "held t = held s" "cur t = cur s"
    "procs t = procs s" "slks t = slks s"
    by (simp_all add: t_def)
  show nb: "bufs t ! b = B" using len bn by (simp add: bt)
  show ni: "bufs t ! i = bufs s ! i" if "i \<noteq> b" for i using that by (simp add: bt)
  have other: "unat (b_blockno (bufs s ! i)) \<noteq> unat (b_blockno B)"
    if "i < NBUF" "i \<noteq> b" "b_valid (bufs s ! i)" for i
  proof
    assume "unat (b_blockno (bufs s ! i)) = unat (b_blockno B)"
    then have "has s i (unat (b_blockno B))"
      using that bio_okD(6) [OF ok that(1)] by (auto simp: has_def buf_ok_def Let_def)
    then show False using has_inj [OF ok that(1) bn _ hb] that(2) by simp
  qed
  have bo: "buf_ok (i \<in> H) t i" if i: "i < NBUF" for i
  proof (cases "i = b")
    case True
    then show ?thesis
      using b B nb bh m(1) by (simp add: buf_ok_def Let_def ot sl_mine_def)
  next
    case False
    then show ?thesis
      using bio_okD(6) [OF ok i] ni [OF False] m(1,3) other [OF i False]
      by (cases "i \<in> H") (simp_all add: buf_ok_def Let_def ot sl_mine_def)
  qed
  show okt: "bio_ok ord H t"
    unfolding bio_ok_def
  proof (intro conjI)
    show "dll (bufs t) ord"
      using bio_okD(2) [OF ok] dll_cong [of "bufs t" "bufs s" ord] B(5,6) nb ni by metis
    have "b_dev (bufs s ! b) = 1" using bh by (simp add: buf_ok_def Let_def)
    then show "\<forall>i<NBUF. \<forall>j<NBUF. b_dev (bufs t ! i) = 1 \<longrightarrow> b_dev (bufs t ! j) = 1 \<longrightarrow>
        b_blockno (bufs t ! i) = b_blockno (bufs t ! j) \<longrightarrow> i = j"
      using bio_okD(7) [OF ok] nb ni B(4) by metis
  qed (use ok bo m in \<open>auto simp: bio_ok_def bt ot\<close>)
  show "content t k = (if k = unat (b_blockno B) then b_data B else content s k)"
  proof (cases "k = unat (b_blockno B)")
    case True
    then have "has t b k" using B nb by (simp add: has_def)
    then show ?thesis using content_has [OF okt bn] nb True by simp
  next
    case False
    have h: "has t i k = has s i k" for i
      using ni [of i] nb B(4) False by (cases "i = b") (auto simp: has_def)
    show ?thesis
    proof (cases "\<exists>i<NBUF. has s i k")
      case True
      then obtain i where i: "i < NBUF" "has s i k" by blast
      then have "i \<noteq> b" using False B(4) by (auto simp: has_def)
      then show ?thesis
        using content_has [OF okt i(1)] content_has [OF ok i] h i ni False by simp
    next
      case nh: False
      then have "content t k = m ! k" "content s k = memdisk s ! k"
        using h ot by (simp_all add: content_hasnt)
      then show ?thesis using m(3) False by simp
    qed
  qed
  show "dirty t k = (if k = unat (b_blockno B) then b_dirty B else dirty s k)"
  proof (cases "k = unat (b_blockno B)")
    case True
    have "\<not> (b_dirty (bufs t ! i) \<and> unat (b_blockno (bufs t ! i)) = k)" if "i < NBUF" "i \<noteq> b" for i
      using other [OF that] ni [OF that(2)] bio_okD(6) [OF ok that(1)] True
      by (auto simp: buf_ok_def Let_def)
    then show ?thesis unfolding dirty_def using True nb bn by metis
  next
    case False
    then show ?thesis unfolding dirty_def using ni nb B(4) by metis
  qed
  show "bio_frame s t" by (simp add: bio_frame_def t_def)
qed

lemma valid_id: "b_valid B \<Longrightarrow> B\<lparr>b_dirty := x, b_valid := True\<rparr> = B\<lparr>b_dirty := x\<rparr>"
  by (cases B) simp

lemma bwrite_ok:
  assumes ok: "bio_ok ord H s" and b: "b \<in> H"
  defines "k0 \<equiv> unat (b_blockno (bufs s ! b))" and "d \<equiv> b_data (bufs s ! b)"
  shows "\<exists>t. bwrite b s = Ok () t \<and> bio_ok ord H t \<and> memdisk t = (memdisk s)[k0 := d]
    \<and> wtrace t = wtrace s @ [(k0, d)] \<and> (\<forall>k. content t k = content s k)
    \<and> (\<forall>k. dirty t k = (dirty s k \<and> k \<noteq> k0)) \<and> bufs t ! b = (bufs s ! b)\<lparr>b_dirty := False\<rparr>
    \<and> (\<forall>i. i \<noteq> b \<longrightarrow> bufs t ! i = bufs s ! i) \<and> bio_frame s t"
proof -
  note len = bio_okD(1) [OF ok]
  have bn: "b < NBUF" using b bio_okD(4) [OF ok] by auto
  have bh: "buf_ok True s b" using bio_okD(6) [OF ok bn] b by simp
  obtain p where p: "cur s = Some p" "held s = {}" using bio_okD(3,5) [OF ok] by blast
  let ?B = "(bufs s ! b)\<lparr>b_dirty := False\<rparr>"
  have v: "b_valid (bufs s ! b)" "b_dev (bufs s ! b) = 1" "b_refcnt (bufs s ! b) = 1"
    "unat (b_blockno (bufs s ! b)) < length (memdisk s)" "length (b_data (bufs s ! b)) = BSIZE"
    using bh by (simp_all add: buf_ok_def Let_def)
  define t where "t = s\<lparr>bufs := (bufs s)[b := ?B], memdisk := (memdisk s)[k0 := d],
    wtrace := wtrace s @ [(k0, d)]\<rparr>"
  have "iderw b (s\<lparr>bufs := (bufs s)[b := (bufs s ! b)\<lparr>b_dirty := True\<rparr>]\<rparr>) = Ok () t"
    using bh p bn len v
    by (subst iderw_write [where B = "(bufs s ! b)\<lparr>b_dirty := True\<rparr>"])
      (simp_all add: buf_ok_def Let_def sl_mine_def t_def k0_def d_def valid_id)
  then have run: "bwrite b s = Ok () t"
    using bh p bn len by (simp add: bwrite_def run buf_ok_def Let_def)
  have "\<forall>x\<in>set ((memdisk s)[k0 := d]). length x = BSIZE"
    using bio_okD(8) [OF ok] v(5) by (auto simp: d_def dest!: set_update_subset_insert [THEN subsetD])
  then have P: "b_valid ?B" "b_dev ?B = 1" "b_refcnt ?B = 1" "b_blockno ?B = b_blockno (bufs s ! b)"
    "b_next ?B = b_next (bufs s ! b)" "b_prev ?B = b_prev (bufs s ! b)" "length (b_data ?B) = BSIZE"
    "length ((memdisk s)[k0 := d]) = length (memdisk s)"
    "\<forall>x\<in>set ((memdisk s)[k0 := d]). length x = BSIZE"
    "\<forall>k. k \<noteq> unat (b_blockno ?B) \<longrightarrow> (memdisk s)[k0 := d] ! k = memdisk s ! k"
    using v by (simp_all add: k0_def)
  note T = held_buf [OF ok b P, where w = "wtrace s @ [(k0, d)]", folded t_def]
  have c: "content s k0 = d"
    using content_has [OF ok bn, of k0] v by (simp add: has_def k0_def d_def)
  have "content t k = content s k" for k
    using T(2) [of k] c by (simp add: k0_def d_def)
  moreover have "dirty t k = (dirty s k \<and> k \<noteq> k0)" for k
    using T(3) [of k] by (simp add: k0_def)
  moreover have "memdisk t = (memdisk s)[k0 := d]" "wtrace t = wtrace s @ [(k0, d)]"
    by (simp_all add: t_def)
  ultimately show ?thesis using run T(1,4,5,6) by blast
qed

lemma dirty_held:
  assumes "bio_ok ord H s" and "b < NBUF" and "b_valid (bufs s ! b)"
  shows "dirty s (unat (b_blockno (bufs s ! b))) = b_dirty (bufs s ! b)"
proof -
  have "i = b" if "i < NBUF" "b_dirty (bufs s ! i)"
    "unat (b_blockno (bufs s ! i)) = unat (b_blockno (bufs s ! b))" for i
    using that assms bio_okD(6) [OF assms(1) that(1)] bio_okD(6) [OF assms(1,2)]
    by (intro has_inj [OF assms(1) that(1) assms(2), of "unat (b_blockno (bufs s ! b))"])
      (auto simp: has_def buf_ok_def Let_def)
  then show ?thesis using assms(2) by (auto simp: dirty_def)
qed

lemma bset_ok:
  assumes ok: "bio_ok ord H s" and b: "b \<in> H" and f: "length (f (b_data (bufs s ! b))) = BSIZE"
  defines "k0 \<equiv> unat (b_blockno (bufs s ! b))" and "d \<equiv> f (b_data (bufs s ! b))"
  shows "\<exists>t. bset b f s = Ok () t \<and> bio_ok ord H t \<and> memdisk t = memdisk s \<and> wtrace t = wtrace s
    \<and> (\<forall>k. content t k = (if k = k0 then d else content s k)) \<and> (\<forall>k. dirty t k = dirty s k)
    \<and> bufs t ! b = (bufs s ! b)\<lparr>b_data := d\<rparr> \<and> (\<forall>i. i \<noteq> b \<longrightarrow> bufs t ! i = bufs s ! i) \<and> bio_frame s t"
proof -
  have bn: "b < NBUF" using b bio_okD(4) [OF ok] by auto
  have bh: "buf_ok True s b" using bio_okD(6) [OF ok bn] b by simp
  let ?B = "(bufs s ! b)\<lparr>b_data := d\<rparr>"
  have v: "b_valid (bufs s ! b)" "b_dev (bufs s ! b) = 1" "b_refcnt (bufs s ! b) = 1"
    using bh by (simp_all add: buf_ok_def Let_def)
  define t where "t = s\<lparr>bufs := (bufs s)[b := ?B], memdisk := memdisk s, wtrace := wtrace s\<rparr>"
  have run: "bset b f s = Ok () t" by (simp add: bset_def t_def d_def)
  have P: "b_valid ?B" "b_dev ?B = 1" "b_refcnt ?B = 1" "b_blockno ?B = b_blockno (bufs s ! b)"
    "b_next ?B = b_next (bufs s ! b)" "b_prev ?B = b_prev (bufs s ! b)" "length (b_data ?B) = BSIZE"
    "length (memdisk s) = length (memdisk s)" "\<forall>x\<in>set (memdisk s). length x = BSIZE"
    "\<forall>k. k \<noteq> unat (b_blockno ?B) \<longrightarrow> memdisk s ! k = memdisk s ! k"
    using v f bio_okD(8) [OF ok] by (simp_all add: d_def)
  note T = held_buf [OF ok b P, where w = "wtrace s", folded t_def]
  have "content t k = (if k = k0 then d else content s k)" for k
    using T(2) [of k] by (simp add: k0_def)
  moreover have "dirty t k = dirty s k" for k
    using T(3) [of k] dirty_held [OF ok bn v(1)] by simp
  moreover have "memdisk t = memdisk s" "wtrace t = wtrace s" by (simp_all add: t_def)
  ultimately show ?thesis using run T(1,4,5,6) by blast
qed

lemma mark_dirty_ok:
  assumes ok: "bio_ok ord H s" and b: "b \<in> H"
  defines "k0 \<equiv> unat (b_blockno (bufs s ! b))"
  shows "\<exists>t. upd_buf b (\<lambda>B. B\<lparr>b_dirty := True\<rparr>) s = Ok () t \<and> bio_ok ord H t \<and> memdisk t = memdisk s
    \<and> wtrace t = wtrace s \<and> (\<forall>k. content t k = content s k) \<and> (\<forall>k. dirty t k = (dirty s k \<or> k = k0))
    \<and> bufs t ! b = (bufs s ! b)\<lparr>b_dirty := True\<rparr> \<and> (\<forall>i. i \<noteq> b \<longrightarrow> bufs t ! i = bufs s ! i)
    \<and> t = s\<lparr>bufs := bufs t\<rparr>"
proof -
  have bn: "b < NBUF" using b bio_okD(4) [OF ok] by auto
  have bh: "buf_ok True s b" using bio_okD(6) [OF ok bn] b by simp
  let ?B = "(bufs s ! b)\<lparr>b_dirty := True\<rparr>"
  have v: "b_valid (bufs s ! b)" "b_dev (bufs s ! b) = 1" "b_refcnt (bufs s ! b) = 1"
    "length (b_data (bufs s ! b)) = BSIZE"
    using bh by (simp_all add: buf_ok_def Let_def)
  define t where "t = s\<lparr>bufs := (bufs s)[b := ?B], memdisk := memdisk s, wtrace := wtrace s\<rparr>"
  have run: "upd_buf b (\<lambda>B. B\<lparr>b_dirty := True\<rparr>) s = Ok () t" by (simp add: t_def)
  have P: "b_valid ?B" "b_dev ?B = 1" "b_refcnt ?B = 1" "b_blockno ?B = b_blockno (bufs s ! b)"
    "b_next ?B = b_next (bufs s ! b)" "b_prev ?B = b_prev (bufs s ! b)" "length (b_data ?B) = BSIZE"
    "length (memdisk s) = length (memdisk s)" "\<forall>x\<in>set (memdisk s). length x = BSIZE"
    "\<forall>k. k \<noteq> unat (b_blockno ?B) \<longrightarrow> memdisk s ! k = memdisk s ! k"
    using v bio_okD(8) [OF ok] by simp_all
  note T = held_buf [OF ok b P, where w = "wtrace s", folded t_def]
  have c: "content s k0 = b_data (bufs s ! b)"
    using content_has [OF ok bn, of k0] v by (simp add: has_def k0_def)
  have "content t k = content s k" for k using T(2) [of k] c by (simp add: k0_def)
  moreover have "dirty t k = (dirty s k \<or> k = k0)" for k using T(3) [of k] by (simp add: k0_def)
  moreover have "memdisk t = memdisk s" "wtrace t = wtrace s" "t = s\<lparr>bufs := bufs t\<rparr>"
    by (simp_all add: t_def)
  ultimately show ?thesis using run T(1,4,5) by blast
qed

lemma sl_give_bufs [simp]: "bufs (sl_give l s) = bufs s"
  by (simp add: sl_give_def)

lemma brelse_ok:
  assumes ok: "bio_ok ord H s" and b: "b \<in> H"
    and clean: "\<not> b_dirty (bufs s ! b) \<Longrightarrow> b_data (bufs s ! b) = memdisk s ! unat (b_blockno (bufs s ! b))"
  shows "\<exists>t. brelse b s = Ok () t \<and> bio_ok (b # remove1 b ord) (H - {b}) t \<and> memdisk t = memdisk s
    \<and> wtrace t = wtrace s \<and> (\<forall>k. content t k = content s k) \<and> (\<forall>k. dirty t k = dirty s k)
    \<and> (\<forall>i<NBUF. i \<noteq> b \<longrightarrow> nolinks (bufs t ! i) = nolinks (bufs s ! i)) \<and> bio_frame s t"
proof -
  note len = bio_okD(1) [OF ok]
  have bn: "b < NBUF" using b bio_okD(4) [OF ok] by auto
  have bh: "buf_ok True s b" using bio_okD(6) [OF ok bn] b by simp
  obtain p where p: "cur s = Some p" "held s = {}" "p < length (procs s)"
    using bio_okD(3,5) [OF ok] by blast
  let ?bs = "(bufs s)[b := (bufs s ! b)\<lparr>b_refcnt := 0\<rparr>]"
  let ?s = "(sl_give (BufSL b) s)\<lparr>held := {BcacheLock}, bufs := ?bs\<rparr>"
  have "dll ?bs ord"
    using bio_okD(2) [OF ok] len bn by (subst dll_cong [of _ "bufs s"]) (auto simp: nth_list_update)
  then obtain bs where mv: "move_front b ?s = Ok () (?s\<lparr>bufs := bs\<rparr>)" "dll bs (b # remove1 b ord)"
      "length bs = Suc NBUF" and nl: "\<forall>i\<le>NBUF. nolinks (bs ! i) = nolinks (?bs ! i)"
    using move_front_ok [of ?s ord b] len bn by auto
  define t where "t = (sl_give (BufSL b) s)\<lparr>bufs := bs\<rparr>"
  have run: "brelse b s = Ok () t"
    using bh p bn len mv(1) unfolding brelse_def
    by (simp add: run buf_ok_def Let_def t_def held_none)
  have bt: "bufs t = bs" and ot: "memdisk t = memdisk s" "wtrace t = wtrace s" "held t = {}" "cur t = cur s"
    "procs t = woken (Some (ChanSleep (BufSL b))) (procs s)"
    "slks t = (slks s)(BufSL b := (slks s (BufSL b))\<lparr>sl_locked := False, sl_pid := 0\<rparr>)"
    using p by (simp_all add: t_def sl_give_def)
  have pid: "p_pid (procs t ! the (cur t)) = p_pid (procs s ! the (cur s))"
    using p by (simp add: ot woken_nth)
  have ni: "nolinks (bufs t ! i) = nolinks (bufs s ! i)" if "i < NBUF" "i \<noteq> b" for i
    using nl that by (simp add: bt)
  have nb: "nolinks (bufs t ! b) = nolinks ((bufs s ! b)\<lparr>b_refcnt := 0\<rparr>)"
    using nl bn len by (simp add: bt)
  have tb: "b_valid (bufs t ! b) = b_valid (bufs s ! b)" "b_dirty (bufs t ! b) = b_dirty (bufs s ! b)"
    "b_dev (bufs t ! b) = b_dev (bufs s ! b)" "b_blockno (bufs t ! b) = b_blockno (bufs s ! b)"
    "b_refcnt (bufs t ! b) = 0" "b_data (bufs t ! b) = b_data (bufs s ! b)"
    using nolinksD [OF nb] by simp_all
  have bo: "buf_ok (i \<in> H - {b}) t i" if i: "i < NBUF" for i
  proof (cases "i = b")
    case True
    then show ?thesis
      using bh clean tb by (simp add: buf_ok_def Let_def ot)
  next
    case False
    then show ?thesis
      using bio_okD(6) [OF ok i] nolinksD [OF ni [OF i False]] pid
      by (cases "i \<in> H") (simp_all add: buf_ok_def Let_def ot sl_mine_def)
  qed
  have same: "b_dev (bufs t ! i) = b_dev (bufs s ! i)" "b_blockno (bufs t ! i) = b_blockno (bufs s ! i)"
    "b_valid (bufs t ! i) = b_valid (bufs s ! i)" "b_dirty (bufs t ! i) = b_dirty (bufs s ! i)"
    "b_data (bufs t ! i) = b_data (bufs s ! i)" if "i < NBUF" for i
    using tb nolinksD [OF ni [OF that]] by (cases "i = b"; simp)+
  have okt: "bio_ok (b # remove1 b ord) (H - {b}) t"
    unfolding bio_ok_def
  proof (intro conjI)
    show "\<forall>i<NBUF. \<forall>j<NBUF. b_dev (bufs t ! i) = 1 \<longrightarrow> b_dev (bufs t ! j) = 1 \<longrightarrow>
        b_blockno (bufs t ! i) = b_blockno (bufs t ! j) \<longrightarrow> i = j"
      using bio_okD(7) [OF ok] same by simp
    show "\<exists>p. cur t = Some p \<and> p < length (procs t)" using p by (simp add: ot)
  qed (use mv bo bio_okD(4,8) [OF ok] in \<open>auto simp: bt ot\<close>)
  have "content t k = content s k" for k
    using same by (intro content_cong [OF ok okt ot(1), of NBUF]) (auto simp: has_def)
  moreover have "dirty t k = dirty s k" for k
    unfolding dirty_def using same by metis
  moreover have "bio_frame s t"
    by (simp add: bio_frame_def t_def sl_give_def)
  ultimately show ?thesis using run okt ot(1,2) ni by blast
qed

section \<open>The contract of the cache\<close>

text \<open>
  What the log and the file system rely on. \<open>inv H s\<close>: the cache is in order and the process
  holds the buffers \<open>H\<close>; \<open>blk\<close> and \<open>dat\<close> are the block and the data of a held buffer; \<open>cont\<close> is
  the content the cache shows of a block, \<open>drt\<close> whether it is pinned, \<open>disk\<close> the blocks on the
  disk and \<open>tr\<close> the writes to it; \<open>cap\<close> is the number of buffers.
\<close>

locale block_cache =
  fixes rd :: "uint32 \<Rightarrow> ('s, nat) kop" and gd :: "nat \<Rightarrow> ('s, uchar list) kop"
    and st :: "nat \<Rightarrow> (uchar list \<Rightarrow> uchar list) \<Rightarrow> ('s, unit) kop"
    and wr :: "nat \<Rightarrow> ('s, unit) kop" and rl :: "nat \<Rightarrow> ('s, unit) kop"
    and inv :: "nat set \<Rightarrow> 's \<Rightarrow> bool" and blk :: "'s \<Rightarrow> nat \<Rightarrow> nat" and dat :: "'s \<Rightarrow> nat \<Rightarrow> uchar list"
    and cont :: "'s \<Rightarrow> nat \<Rightarrow> uchar list" and drt :: "'s \<Rightarrow> nat \<Rightarrow> bool"
    and disk :: "'s \<Rightarrow> uchar list list" and tr :: "'s \<Rightarrow> (nat \<times> uchar list) list"
    and frame :: "'s \<Rightarrow> 's \<Rightarrow> bool" and cap :: nat
  assumes rd_law: "inv H s \<Longrightarrow> unat a < length (disk s) \<Longrightarrow> \<forall>i\<in>H. blk s i \<noteq> unat a \<Longrightarrow>
      drt s (unat a) \<or> card H + card {k. drt s k} < cap \<Longrightarrow>
      wpk (rd a) (\<lambda>b t. b \<notin> H \<and> inv (insert b H) t \<and> blk t b = unat a \<and> dat t b = cont s (unat a)
        \<and> cont t = cont s \<and> drt t = drt s \<and> disk t = disk s \<and> tr t = tr s
        \<and> (\<forall>i\<in>H. blk t i = blk s i \<and> dat t i = dat s i) \<and> frame s t) s"
    and gd_law: "inv H s \<Longrightarrow> b \<in> H \<Longrightarrow> gd b s = Ok (dat s b) s"
    and st_law: "inv H s \<Longrightarrow> b \<in> H \<Longrightarrow> length (f (dat s b)) = BSIZE \<Longrightarrow>
      wpk (st b f) (\<lambda>_ t. inv H t \<and> blk t b = blk s b \<and> dat t b = f (dat s b)
        \<and> cont t = (cont s)(blk s b := f (dat s b)) \<and> drt t = drt s \<and> disk t = disk s \<and> tr t = tr s
        \<and> (\<forall>i\<in>H - {b}. blk t i = blk s i \<and> dat t i = dat s i) \<and> frame s t) s"
    and wr_law: "inv H s \<Longrightarrow> b \<in> H \<Longrightarrow>
      wpk (wr b) (\<lambda>_ t. inv H t \<and> cont t = cont s \<and> drt t = (drt s)(blk s b := False)
        \<and> disk t = (disk s)[blk s b := dat s b] \<and> tr t = tr s @ [(blk s b, dat s b)]
        \<and> (\<forall>i\<in>H. blk t i = blk s i \<and> dat t i = dat s i) \<and> frame s t) s"
    and rl_law: "inv H s \<Longrightarrow> b \<in> H \<Longrightarrow> drt s (blk s b) \<or> dat s b = disk s ! blk s b \<Longrightarrow>
      wpk (rl b) (\<lambda>_ t. inv (H - {b}) t \<and> cont t = cont s \<and> drt t = drt s \<and> disk t = disk s
        \<and> tr t = tr s \<and> (\<forall>i\<in>H - {b}. blk t i = blk s i \<and> dat t i = dat s i) \<and> frame s t) s"
    and held_cont: "inv H s \<Longrightarrow> b \<in> H \<Longrightarrow> dat s b = cont s (blk s b)"
    and clean_cont: "inv {} s \<Longrightarrow> k < length (disk s) \<Longrightarrow> \<not> drt s k \<Longrightarrow> cont s k = disk s ! k"
    and cont_len: "inv H s \<Longrightarrow> k < length (disk s) \<Longrightarrow> length (cont s k) = BSIZE"
    and drt_fin: "inv H s \<Longrightarrow> finite {k. drt s k}"
    and frame_trans: "frame s t \<Longrightarrow> frame t u \<Longrightarrow> frame s u"
begin

text \<open>Reading a block without changing it.\<close>

lemma read_block:
  assumes "inv {} s" and "unat a < length (disk s)" and "drt s (unat a) \<or> card {k. drt s k} < cap"
  shows "wpk (kbind (rd a) (\<lambda>b. kbind (gd b) (\<lambda>d. kseq (rl b) (kret d))))
    (\<lambda>d t. d = cont s (unat a) \<and> inv {} t \<and> cont t = cont s \<and> drt t = drt s \<and> disk t = disk s
       \<and> tr t = tr s \<and> frame s t) s"
proof -
  have clean: "drt s (unat a) \<or> cont s (unat a) = disk s ! unat a"
    using clean_cont [OF assms(1,2)] by blast
  show ?thesis
    unfolding wp_bind wp_seq wp_ret
  proof (rule wpk_mono [OF rd_law [OF assms(1,2)]], simp, use assms(3) in simp)
    fix b t
    assume t: "b \<notin> {} \<and> inv {b} t \<and> blk t b = unat a \<and> dat t b = cont s (unat a)
        \<and> cont t = cont s \<and> drt t = drt s \<and> disk t = disk s \<and> tr t = tr s
        \<and> (\<forall>i\<in>{}. blk t i = blk s i \<and> dat t i = dat s i) \<and> frame s t"
    then have "wpk (rl b) (\<lambda>_ u. inv ({b} - {b}) u \<and> cont u = cont t \<and> drt u = drt t \<and> disk u = disk t
        \<and> tr u = tr t \<and> (\<forall>i\<in>{b} - {b}. blk u i = blk t i \<and> dat u i = dat t i) \<and> frame t u) t"
      using clean by (intro rl_law) auto
    then have "wpk (rl b) (\<lambda>_ u. dat t b = cont s (unat a) \<and> inv {} u \<and> cont u = cont s \<and> drt u = drt s
        \<and> disk u = disk s \<and> tr u = tr s \<and> frame s u) t"
      by (rule wpk_mono) (use t in \<open>auto dest: frame_trans\<close>)
    then show "wpk (gd b) (\<lambda>d. wpk (rl b) (\<lambda>_ u. d = cont s (unat a) \<and> inv {} u \<and> cont u = cont s
        \<and> drt u = drt s \<and> disk u = disk s \<and> tr u = tr s \<and> frame s u)) t"
      using t gd_law [of "{b}" t b] by (simp add: wpk_def)
  qed
qed

text \<open>Copying one block over another and writing it through: the common step of the log.\<close>

lemma copy_tail:
  assumes t: "inv {x, y} t" and xy: "x \<noteq> y" and ne: "blk t x \<noteq> blk t y" and rg: "blk t y < length (disk t)"
    and len: "length (dat t x) = BSIZE" and cl: "drt t (blk t x) \<or> dat t x = disk t ! blk t x"
  shows "wpk (kbind (gd x) (\<lambda>d. kseq (st y (\<lambda>_. d)) (kseq (wr y) (kseq (rl x) (rl y)))))
    (\<lambda>_ u. inv {} u \<and> cont u = (cont t)(blk t y := dat t x) \<and> drt u = (drt t)(blk t y := False)
       \<and> disk u = (disk t)[blk t y := dat t x] \<and> tr u = tr t @ [(blk t y, dat t x)] \<and> frame t u) t"
proof -
  have 1: "wpk (st y (\<lambda>_. dat t x)) (\<lambda>_ u. inv {x, y} u \<and> blk u y = blk t y \<and> dat u y = dat t x
      \<and> cont u = (cont t)(blk t y := dat t x) \<and> drt u = drt t \<and> disk u = disk t \<and> tr u = tr t
      \<and> (\<forall>i\<in>{x, y} - {y}. blk u i = blk t i \<and> dat u i = dat t i) \<and> frame t u) t"
    using len by (intro st_law [OF t]) auto
  have 2: "wpk (wr y) (\<lambda>_ u. inv {x, y} u \<and> cont u = cont s \<and> drt u = (drt s)(blk s y := False)
      \<and> disk u = (disk s)[blk s y := dat s y] \<and> tr u = tr s @ [(blk s y, dat s y)]
      \<and> (\<forall>i\<in>{x, y}. blk u i = blk s i \<and> dat u i = dat s i) \<and> frame s u) s" if "inv {x, y} s" for s
    by (intro wr_law [OF that]) simp
  have 3: "wpk (rl x) (\<lambda>_ u. inv ({x, y} - {x}) u \<and> cont u = cont s \<and> drt u = drt s \<and> disk u = disk s
      \<and> tr u = tr s \<and> (\<forall>i\<in>{x, y} - {x}. blk u i = blk s i \<and> dat u i = dat s i) \<and> frame s u) s"
    if "inv {x, y} s" "drt s (blk s x) \<or> dat s x = disk s ! blk s x" for s
    using that by (intro rl_law) auto
  have 4: "wpk (rl y) (\<lambda>_ u. inv ({y} - {y}) u \<and> cont u = cont s \<and> drt u = drt s \<and> disk u = disk s
      \<and> tr u = tr s \<and> (\<forall>i\<in>{y} - {y}. blk u i = blk s i \<and> dat u i = dat s i) \<and> frame s u) s"
    if "inv {y} s" "dat s y = disk s ! blk s y" for s
    using that by (intro rl_law) auto
  have yx: "{x, y} - {x} = {y}" "{x, y} - {y} = {x}" using xy by auto
  from 1 obtain t1 where e1: "st y (\<lambda>_. dat t x) t = Ok () t1"
    and t1: "inv {x, y} t1" "blk t1 y = blk t y" "dat t1 y = dat t x" "blk t1 x = blk t x" "dat t1 x = dat t x"
      "cont t1 = (cont t)(blk t y := dat t x)" "drt t1 = drt t" "disk t1 = disk t" "tr t1 = tr t" "frame t t1"
    unfolding yx by (elim wpkE) auto
  from 2 [OF t1(1)] obtain t2 where e2: "wr y t1 = Ok () t2"
    and t2: "inv {x, y} t2" "blk t2 y = blk t1 y" "dat t2 y = dat t1 y" "blk t2 x = blk t1 x" "dat t2 x = dat t1 x"
      "cont t2 = cont t1" "drt t2 = (drt t1)(blk t1 y := False)" "disk t2 = (disk t1)[blk t1 y := dat t1 y]"
      "tr t2 = tr t1 @ [(blk t1 y, dat t1 y)]" "frame t1 t2"
    by (elim wpkE) auto
  have "drt t2 (blk t2 x) \<or> dat t2 x = disk t2 ! blk t2 x" using cl ne by (simp add: t1 t2)
  from 3 [OF t2(1) this] obtain t3 where e3: "rl x t2 = Ok () t3"
    and t3: "inv {y} t3" "blk t3 y = blk t2 y" "dat t3 y = dat t2 y" "cont t3 = cont t2" "drt t3 = drt t2"
      "disk t3 = disk t2" "tr t3 = tr t2" "frame t2 t3"
    unfolding yx by (elim wpkE) auto
  have "dat t3 y = disk t3 ! blk t3 y" using rg by (simp add: t1 t2 t3)
  from 4 [OF t3(1) this] obtain t4 where e4: "rl y t3 = Ok () t4"
    and t4: "inv {} t4" "cont t4 = cont t3" "drt t4 = drt t3" "disk t4 = disk t3" "tr t4 = tr t3" "frame t3 t4"
    by (elim wpkE) auto
  have "frame t t4" using t1(10) t2(10) t3(8) t4(6) by (blast intro: frame_trans)
  moreover have "gd x t = Ok (dat t x) t" using gd_law [OF t] by simp
  ultimately show ?thesis using t4(1) by (simp add: wpk_def run e1 e2 e3 e4 t4 t3 t2 t1)
qed

lemma copy_install:
  assumes s: "inv {} s" and rg: "unat a < length (disk s)" "unat b < length (disk s)" and ne: "unat a \<noteq> unat b"
    and room: "drt s (unat a) \<or> card {k. drt s k} < cap" "drt s (unat b) \<or> 1 + card {k. drt s k} < cap"
  shows "wpk (kbind (rd a) (\<lambda>x. kbind (rd b) (\<lambda>y.
      kbind (gd x) (\<lambda>d. kseq (st y (\<lambda>_. d)) (kseq (wr y) (kseq (rl x) (rl y)))))))
    (\<lambda>_ u. inv {} u \<and> cont u = (cont s)(unat b := cont s (unat a)) \<and> drt u = (drt s)(unat b := False)
       \<and> disk u = (disk s)[unat b := cont s (unat a)] \<and> tr u = tr s @ [(unat b, cont s (unat a))]
       \<and> frame s u) s"
proof -
  have cl: "drt s (unat a) \<or> cont s (unat a) = disk s ! unat a" using clean_cont [OF s rg(1)] by blast
  from rd_law [OF s rg(1)] room(1) obtain x t1 where e1: "rd a s = Ok x t1"
    and t1: "inv {x} t1" "blk t1 x = unat a" "dat t1 x = cont s (unat a)" "cont t1 = cont s" "drt t1 = drt s"
      "disk t1 = disk s" "tr t1 = tr s" "frame s t1"
    by (auto elim: wpkE)
  have "unat b < length (disk t1)" "\<forall>i\<in>{x}. blk t1 i \<noteq> unat b"
    "drt t1 (unat b) \<or> card {x} + card {k. drt t1 k} < cap" using rg ne room(2) by (simp_all add: t1)
  from rd_law [OF t1(1) this] obtain y t2 where e2: "rd b t1 = Ok y t2"
    and t2: "x \<noteq> y" "inv {x, y} t2" "blk t2 y = unat b" "blk t2 x = blk t1 x" "dat t2 x = dat t1 x"
      "cont t2 = cont t1" "drt t2 = drt t1" "disk t2 = disk t1" "tr t2 = tr t1" "frame t1 t2"
    by (elim wpkE) (auto simp: insert_commute)
  have "wpk (kbind (gd x) (\<lambda>d. kseq (st y (\<lambda>_. d)) (kseq (wr y) (kseq (rl x) (rl y)))))
    (\<lambda>_ u. inv {} u \<and> cont u = (cont t2)(blk t2 y := dat t2 x) \<and> drt u = (drt t2)(blk t2 y := False)
       \<and> disk u = (disk t2)[blk t2 y := dat t2 x] \<and> tr u = tr t2 @ [(blk t2 y, dat t2 x)] \<and> frame t2 u) t2"
    using rg ne cl cont_len [OF s rg(1)] by (intro copy_tail t2) (simp_all add: t1 t2)
  then have "wpk (kbind (gd x) (\<lambda>d. kseq (st y (\<lambda>_. d)) (kseq (wr y) (kseq (rl x) (rl y)))))
    (\<lambda>_ u. inv {} u \<and> cont u = (cont s)(unat b := cont s (unat a)) \<and> drt u = (drt s)(unat b := False)
       \<and> disk u = (disk s)[unat b := cont s (unat a)] \<and> tr u = tr s @ [(unat b, cont s (unat a))]
       \<and> frame s u) t2"
    by (rule wpk_mono) (auto simp: t1 t2 intro: frame_trans [OF frame_trans [OF t1(8) t2(10)]])
  then show ?thesis by (simp add: wpk_def run e1 e2)
qed

lemma copy_log:
  assumes s: "inv {} s" and rg: "unat a < length (disk s)" "unat b < length (disk s)" and ne: "unat a \<noteq> unat b"
    and room: "drt s (unat a) \<or> card {k. drt s k} < cap" "drt s (unat b) \<or> 1 + card {k. drt s k} < cap"
  shows "wpk (kbind (rd a) (\<lambda>y. kbind (rd b) (\<lambda>x.
      kbind (gd x) (\<lambda>d. kseq (st y (\<lambda>_. d)) (kseq (wr y) (kseq (rl x) (rl y)))))))
    (\<lambda>_ u. inv {} u \<and> cont u = (cont s)(unat a := cont s (unat b)) \<and> drt u = (drt s)(unat a := False)
       \<and> disk u = (disk s)[unat a := cont s (unat b)] \<and> tr u = tr s @ [(unat a, cont s (unat b))]
       \<and> frame s u) s"
proof -
  have cl: "drt s (unat b) \<or> cont s (unat b) = disk s ! unat b" using clean_cont [OF s rg(2)] by blast
  from rd_law [OF s rg(1)] room(1) obtain y t1 where e1: "rd a s = Ok y t1"
    and t1: "inv {y} t1" "blk t1 y = unat a" "cont t1 = cont s" "drt t1 = drt s"
      "disk t1 = disk s" "tr t1 = tr s" "frame s t1"
    by (auto elim: wpkE)
  have "unat b < length (disk t1)" "\<forall>i\<in>{y}. blk t1 i \<noteq> unat b"
    "drt t1 (unat b) \<or> card {y} + card {k. drt t1 k} < cap" using rg ne room(2) by (simp_all add: t1)
  from rd_law [OF t1(1) this] obtain x t2 where e2: "rd b t1 = Ok x t2"
    and t2: "x \<noteq> y" "inv {x, y} t2" "blk t2 x = unat b" "dat t2 x = cont t1 (unat b)" "blk t2 y = blk t1 y"
      "cont t2 = cont t1" "drt t2 = drt t1" "disk t2 = disk t1" "tr t2 = tr t1" "frame t1 t2"
    by (elim wpkE) auto
  have "wpk (kbind (gd x) (\<lambda>d. kseq (st y (\<lambda>_. d)) (kseq (wr y) (kseq (rl x) (rl y)))))
    (\<lambda>_ u. inv {} u \<and> cont u = (cont t2)(blk t2 y := dat t2 x) \<and> drt u = (drt t2)(blk t2 y := False)
       \<and> disk u = (disk t2)[blk t2 y := dat t2 x] \<and> tr u = tr t2 @ [(blk t2 y, dat t2 x)] \<and> frame t2 u) t2"
    using rg ne cl cont_len [OF s rg(2)] by (intro copy_tail t2) (simp_all add: t1 t2)
  then have "wpk (kbind (gd x) (\<lambda>d. kseq (st y (\<lambda>_. d)) (kseq (wr y) (kseq (rl x) (rl y)))))
    (\<lambda>_ u. inv {} u \<and> cont u = (cont s)(unat a := cont s (unat b)) \<and> drt u = (drt s)(unat a := False)
       \<and> disk u = (disk s)[unat a := cont s (unat b)] \<and> tr u = tr s @ [(unat a, cont s (unat b))]
       \<and> frame s u) t2"
    by (rule wpk_mono) (auto simp: t1 t2 intro: frame_trans [OF frame_trans [OF t1(7) t2(10)]])
  then show ?thesis by (simp add: wpk_def run e1 e2)
qed

text \<open>Reading a block, changing it and writing it through.\<close>

lemma update_block:
  assumes s: "inv {} s" and rg: "unat a < length (disk s)" and len: "length (f (cont s (unat a))) = BSIZE"
    and room: "drt s (unat a) \<or> card {k. drt s k} < cap"
  shows "wpk (kbind (rd a) (\<lambda>b. kseq (st b f) (kseq (wr b) (rl b))))
    (\<lambda>_ u. inv {} u \<and> cont u = (cont s)(unat a := f (cont s (unat a))) \<and> drt u = (drt s)(unat a := False)
       \<and> disk u = (disk s)[unat a := f (cont s (unat a))] \<and> tr u = tr s @ [(unat a, f (cont s (unat a)))]
       \<and> frame s u) s"
proof -
  from rd_law [OF s rg] room obtain b t1 where e1: "rd a s = Ok b t1"
    and t1: "inv {b} t1" "blk t1 b = unat a" "dat t1 b = cont s (unat a)" "cont t1 = cont s" "drt t1 = drt s"
      "disk t1 = disk s" "tr t1 = tr s" "frame s t1"
    by (auto elim: wpkE)
  have "length (f (dat t1 b)) = BSIZE" using len by (simp add: t1)
  with st_law [of "{b}" t1 b f] t1(1) obtain t2 where e2: "st b f t1 = Ok () t2"
    and t2: "inv {b} t2" "blk t2 b = unat a" "dat t2 b = f (dat t1 b)" "cont t2 = (cont t1)(unat a := f (dat t1 b))"
      "drt t2 = drt t1" "disk t2 = disk t1" "tr t2 = tr t1" "frame t1 t2"
    by (auto elim: wpkE simp: t1)
  from wr_law [OF t2(1)] obtain t3 where e3: "wr b t2 = Ok () t3"
    and t3: "inv {b} t3" "blk t3 b = unat a" "dat t3 b = dat t2 b" "cont t3 = cont t2"
      "drt t3 = (drt t2)(unat a := False)" "disk t3 = (disk t2)[unat a := dat t2 b]"
      "tr t3 = tr t2 @ [(unat a, dat t2 b)]" "frame t2 t3"
    by (auto elim: wpkE simp: t2)
  have "dat t3 b = disk t3 ! blk t3 b" using rg by (simp add: t1 t2 t3)
  with rl_law [OF t3(1)] obtain t4 where e4: "rl b t3 = Ok () t4"
    and t4: "inv {} t4" "cont t4 = cont t3" "drt t4 = drt t3" "disk t4 = disk t3" "tr t4 = tr t3" "frame t3 t4"
    by (auto elim: wpkE)
  have "frame s t4" using t1(8) t2(8) t3(8) t4(6) by (blast intro: frame_trans)
  then show ?thesis using t4(1) by (simp add: wpk_def run e1 e2 e3 e4 t4 t3 t2 t1)
qed

end

definition bio_inv :: "nat set \<Rightarrow> 'z bcache_scheme \<Rightarrow> bool" where
  "bio_inv H s \<longleftrightarrow> (\<exists>ord. bio_ok ord H s)"

definition blk_of :: "'z bcache_scheme \<Rightarrow> nat \<Rightarrow> nat" where
  "blk_of s b = unat (b_blockno (bufs s ! b))"

definition dat_of :: "'z bcache_scheme \<Rightarrow> nat \<Rightarrow> uchar list" where
  "dat_of s b = b_data (bufs s ! b)"

text \<open>If no buffer is left, every one is held or pinned.\<close>

lemma room_clean:
  assumes ok: "bio_ok ord H s" and room: "card H + card {k. dirty s k} < NBUF"
  shows "\<exists>i<NBUF. i \<notin> H \<and> \<not> b_dirty (bufs s ! i)"
proof (rule ccontr)
  assume "\<not> ?thesis"
  then have all: "{..<NBUF} - H \<subseteq> {i. i < NBUF \<and> b_dirty (bufs s ! i)}" by auto
  let ?D = "{i. i < NBUF \<and> b_dirty (bufs s ! i)}"
  have inj: "inj_on (\<lambda>i. unat (b_blockno (bufs s ! i))) ?D"
  proof (rule inj_onI)
    fix i j
    assume ij: "i \<in> ?D" "j \<in> ?D" "unat (b_blockno (bufs s ! i)) = unat (b_blockno (bufs s ! j))"
    then show "i = j"
      using bio_okD(6) [OF ok, of i] bio_okD(6) [OF ok, of j]
      by (intro has_inj [OF ok, of i j "unat (b_blockno (bufs s ! j))"])
        (auto simp: has_def buf_ok_def Let_def)
  qed
  have img: "(\<lambda>i. unat (b_blockno (bufs s ! i))) ` ?D = {k. dirty s k}" by (auto simp: dirty_def)
  have "card ({..<NBUF} - H) \<le> card ?D" using all by (intro card_mono) auto
  also have "\<dots> = card {k. dirty s k}" using card_image [OF inj] img by simp
  finally have "NBUF - card H \<le> card {k. dirty s k}"
    using bio_okD(4) [OF ok] finite_subset by (subst (asm) card_Diff_subset) auto
  then show False using room by simp
qed

lemma nolinks_view:
  "nolinks (bufs t ! i) = nolinks (bufs s ! i) \<Longrightarrow> blk_of t i = blk_of s i \<and> dat_of t i = dat_of s i"
  using nolinksD [of "bufs t ! i" "bufs s ! i"] by (simp add: blk_of_def dat_of_def)

lemma bio_frame_trans:
  assumes st: "bio_frame s t" and tu: "bio_frame t u"
  shows "bio_frame s u"
proof -
  have t: "t = s\<lparr>procs := procs t, slks := slks t, bufs := bufs t, memdisk := memdisk t, wtrace := wtrace t\<rparr>"
    using st by (simp add: bio_frame_def)
  have "u = t\<lparr>procs := procs u, slks := slks u, bufs := bufs u, memdisk := memdisk u, wtrace := wtrace u\<rparr>"
    using tu by (simp add: bio_frame_def)
  also have "\<dots> = s\<lparr>procs := procs u, slks := slks u, bufs := bufs u, memdisk := memdisk u, wtrace := wtrace u\<rparr>"
    by (subst t) simp
  finally have "u = s\<lparr>procs := procs u, slks := slks u, bufs := bufs u, memdisk := memdisk u, wtrace := wtrace u\<rparr>" .
  moreover have "roused (procs s) (procs u)" using st tu roused_trans by (auto simp: bio_frame_def)
  ultimately show ?thesis using st tu by (simp add: bio_frame_def)
qed

lemma held_valid:
  assumes "bio_ok ord H s" and "b \<in> H"
  shows "b < NBUF" and "has s b (blk_of s b)"
proof -
  show "b < NBUF" using assms bio_okD(4) by blast
  then show "has s b (blk_of s b)"
    using bio_okD(6) [OF assms(1), of b] assms(2) by (simp add: buf_ok_def Let_def has_def blk_of_def)
qed

interpretation bc: block_cache "bread 1" "\<lambda>b. get_buf b b_data" bset bwrite brelse bio_inv blk_of dat_of
  content dirty memdisk wtrace bio_frame NBUF
proof unfold_locales
  fix H a f b k and s t u :: "'z bcache_scheme"
  show "wpk (bread 1 a) (\<lambda>b t. b \<notin> H \<and> bio_inv (insert b H) t \<and> blk_of t b = unat a
      \<and> dat_of t b = content s (unat a) \<and> content t = content s \<and> dirty t = dirty s \<and> memdisk t = memdisk s
      \<and> wtrace t = wtrace s \<and> (\<forall>i\<in>H. blk_of t i = blk_of s i \<and> dat_of t i = dat_of s i) \<and> bio_frame s t) s"
    if inv: "bio_inv H s" and rg: "unat a < length (memdisk s)" and ne: "\<forall>i\<in>H. blk_of s i \<noteq> unat a"
      and room: "dirty s (unat a) \<or> card H + card {k. dirty s k} < NBUF"
  proof -
    obtain ord where ok: "bio_ok ord H s" using inv by (auto simp: bio_inv_def)
    have "\<forall>i\<in>H. b_blockno (bufs s ! i) \<noteq> a" using ne by (auto simp: blk_of_def)
    moreover have "(\<exists>i<NBUF. has s i (unat a)) \<or> (\<exists>i<NBUF. i \<notin> H \<and> \<not> b_dirty (bufs s ! i))"
      using room room_clean [OF ok] bio_okD(6) [OF ok] by (fastforce simp: dirty_def has_def buf_ok_def Let_def)
    ultimately obtain b t where "bread 1 a s = Ok b t" "b \<notin> H" "bio_ok ord (insert b H) t"
      "b_blockno (bufs t ! b) = a" "b_data (bufs t ! b) = content s (unat a)" "\<forall>k. content t k = content s k"
      "\<forall>k. dirty t k = dirty s k" "memdisk t = memdisk s" "wtrace t = wtrace s"
      "\<forall>i. i \<noteq> b \<longrightarrow> bufs t ! i = bufs s ! i" "bio_frame s t"
      using bread_ok [OF ok rg] by blast
    then show ?thesis
      by (intro wpkI) (auto simp: bio_inv_def blk_of_def dat_of_def fun_eq_iff)
  qed
  show "get_buf b b_data s = Ok (dat_of s b) s" if "bio_inv H s" "b \<in> H" by (simp add: dat_of_def)
  show "wpk (bset b f) (\<lambda>_ t. bio_inv H t \<and> blk_of t b = blk_of s b \<and> dat_of t b = f (dat_of s b)
      \<and> content t = (content s)(blk_of s b := f (dat_of s b)) \<and> dirty t = dirty s \<and> memdisk t = memdisk s
      \<and> wtrace t = wtrace s \<and> (\<forall>i\<in>H - {b}. blk_of t i = blk_of s i \<and> dat_of t i = dat_of s i)
      \<and> bio_frame s t) s"
    if inv: "bio_inv H s" and b: "b \<in> H" and f: "length (f (dat_of s b)) = BSIZE"
  proof -
    obtain ord where ok: "bio_ok ord H s" using inv by (auto simp: bio_inv_def)
    obtain t where "bset b f s = Ok () t" "bio_ok ord H t" "memdisk t = memdisk s" "wtrace t = wtrace s"
      "\<forall>k. content t k = (if k = blk_of s b then f (dat_of s b) else content s k)" "\<forall>k. dirty t k = dirty s k"
      "bufs t ! b = (bufs s ! b)\<lparr>b_data := f (dat_of s b)\<rparr>" "\<forall>i. i \<noteq> b \<longrightarrow> bufs t ! i = bufs s ! i" "bio_frame s t"
      using bset_ok [of ord H s b f, OF ok b f [unfolded dat_of_def]]
      unfolding blk_of_def dat_of_def by (elim exE conjE)
    then show ?thesis
      by (intro wpkI) (auto simp: bio_inv_def blk_of_def dat_of_def fun_eq_iff)
  qed
  show "wpk (bwrite b) (\<lambda>_ t. bio_inv H t \<and> content t = content s \<and> dirty t = (dirty s)(blk_of s b := False)
      \<and> memdisk t = (memdisk s)[blk_of s b := dat_of s b] \<and> wtrace t = wtrace s @ [(blk_of s b, dat_of s b)]
      \<and> (\<forall>i\<in>H. blk_of t i = blk_of s i \<and> dat_of t i = dat_of s i) \<and> bio_frame s t) s"
    if inv: "bio_inv H s" and b: "b \<in> H"
  proof -
    obtain ord where ok: "bio_ok ord H s" using inv by (auto simp: bio_inv_def)
    from bwrite_ok [OF ok b] obtain t where t: "bwrite b s = Ok () t" "bio_ok ord H t"
      "memdisk t = (memdisk s)[blk_of s b := dat_of s b]" "wtrace t = wtrace s @ [(blk_of s b, dat_of s b)]"
      "\<forall>k. content t k = content s k" "\<forall>k. dirty t k = (dirty s k \<and> k \<noteq> blk_of s b)"
      "bufs t ! b = (bufs s ! b)\<lparr>b_dirty := False\<rparr>" "\<forall>i. i \<noteq> b \<longrightarrow> bufs t ! i = bufs s ! i" "bio_frame s t"
      by (auto simp: blk_of_def dat_of_def)
    have "blk_of t i = blk_of s i \<and> dat_of t i = dat_of s i" for i
      using t(7,8) by (cases "i = b") (simp_all add: blk_of_def dat_of_def)
    then show ?thesis
      using t by (auto simp: wpk_def bio_inv_def fun_eq_iff)
  qed
  show "wpk (brelse b) (\<lambda>_ t. bio_inv (H - {b}) t \<and> content t = content s \<and> dirty t = dirty s
      \<and> memdisk t = memdisk s \<and> wtrace t = wtrace s
      \<and> (\<forall>i\<in>H - {b}. blk_of t i = blk_of s i \<and> dat_of t i = dat_of s i) \<and> bio_frame s t) s"
    if inv: "bio_inv H s" and b: "b \<in> H" and cl: "dirty s (blk_of s b) \<or> dat_of s b = memdisk s ! blk_of s b"
  proof -
    obtain ord where ok: "bio_ok ord H s" using inv by (auto simp: bio_inv_def)
    have "dirty s (blk_of s b) = b_dirty (bufs s ! b)"
      using dirty_held [OF ok held_valid(1) [OF ok b]] held_valid(2) [OF ok b] by (simp add: has_def blk_of_def)
    then have "\<not> b_dirty (bufs s ! b) \<Longrightarrow> b_data (bufs s ! b) = memdisk s ! unat (b_blockno (bufs s ! b))"
      using cl by (simp add: blk_of_def dat_of_def)
    from brelse_ok [OF ok b this] obtain t where t: "brelse b s = Ok () t" "bio_ok (b # remove1 b ord) (H - {b}) t"
      "memdisk t = memdisk s" "wtrace t = wtrace s" "\<forall>k. content t k = content s k" "\<forall>k. dirty t k = dirty s k"
      "\<forall>i<NBUF. i \<noteq> b \<longrightarrow> nolinks (bufs t ! i) = nolinks (bufs s ! i)" "bio_frame s t"
      by auto
    have "blk_of t i = blk_of s i \<and> dat_of t i = dat_of s i" if "i \<in> H - {b}" for i
      using that t(7) held_valid(1) [OF ok, of i] by (intro nolinks_view) auto
    then show ?thesis
      using t by (auto simp: wpk_def bio_inv_def fun_eq_iff)
  qed
  show "dat_of s b = content s (blk_of s b)" if "bio_inv H s" "b \<in> H"
    using that content_has held_valid by (fastforce simp: bio_inv_def dat_of_def)
  show "content s k = memdisk s ! k" if inv: "bio_inv {} s" and "k < length (memdisk s)" and nd: "\<not> dirty s k"
  proof -
    obtain ord where ok: "bio_ok ord {} s" using inv by (auto simp: bio_inv_def)
    show ?thesis
    proof (cases "\<exists>i<NBUF. has s i k")
      case True
      then obtain i where i: "i < NBUF" "has s i k" by blast
      then show ?thesis
        using content_has [OF ok i] bio_okD(6) [OF ok i(1)] nd
        by (auto simp: buf_ok_def Let_def has_def dirty_def)
    qed (auto intro!: content_hasnt)
  qed
  show "length (content s k) = BSIZE" if inv: "bio_inv H s" and k: "k < length (memdisk s)"
  proof -
    obtain ord where ok: "bio_ok ord H s" using inv by (auto simp: bio_inv_def)
    show ?thesis
    proof (cases "\<exists>i<NBUF. has s i k")
      case True
      then obtain i where i: "i < NBUF" "has s i k" by blast
      then show ?thesis
        using content_has [OF ok i] bio_okD(6) [OF ok i(1)] by (auto simp: buf_ok_def Let_def has_def)
    next
      case False
      then have "content s k = memdisk s ! k" by (intro content_hasnt) auto
      then show ?thesis using bio_okD(8) [OF ok nth_mem [OF k]] by simp
    qed
  qed
  show "finite {k. dirty s k}"
  proof -
    have "{k. dirty s k} = (\<lambda>i. unat (b_blockno (bufs s ! i))) ` {i. i < NBUF \<and> b_dirty (bufs s ! i)}"
      by (auto simp: dirty_def)
    then show ?thesis by simp
  qed
  show "bio_frame s t \<Longrightarrow> bio_frame t u \<Longrightarrow> bio_frame s u" by (rule bio_frame_trans)
qed

section \<open>Initialisation\<close>

lemma consec_push:
  fixes nx pv :: "nat \<Rightarrow> nat"
  assumes c: "consec nx pv (N # xs @ [N])" and d: "distinct (N # b # xs)"
  defines "hn \<equiv> nx N"
  defines "nx' \<equiv> (nx(b := hn))(N := b)" and "pv' \<equiv> (pv(b := N))(hn := b)"
  shows "consec nx' pv' (N # b # xs @ [N])"
proof -
  have hn: "hn = hd (xs @ [N])" and tail: "consec nx pv (xs @ [N])"
    using c by (cases xs; simp add: hn_def)+
  have tl: "set (tl (xs @ [N])) \<subseteq> insert N (set xs)" "hn \<notin> set (tl (xs @ [N]))" "hn \<in> insert N (set xs)"
    using d by (cases xs; auto simp: hn)+
  have "consec nx' pv' (xs @ [N])"
  proof (subst consec_cong [of "xs @ [N]" nx' nx pv' pv])
    show "pv' x = pv x" if "x \<in> set (tl (xs @ [N]))" for x
      using that tl d by (auto simp: pv'_def)
  qed (use tail d in \<open>auto simp: nx'_def\<close>)
  moreover have "nx' N = b" "pv' b = N" "nx' b = hn" "pv' hn = b"
    using d tl(3) by (auto simp: nx'_def pv'_def)
  ultimately show ?thesis using hn by (cases xs) auto
qed

text \<open>The list after \<open>n\<close> rounds of \<^verbatim>\<open>binit\<close>.\<close>

definition binit_inv :: "'z bcache_scheme \<Rightarrow> nat list \<Rightarrow> 'z bcache_scheme \<Rightarrow> bool" where
  "binit_inv s ps t \<longleftrightarrow> length (bufs t) = Suc NBUF \<and>
     consec (\<lambda>i. b_next (bufs t ! i)) (\<lambda>i. b_prev (bufs t ! i)) (NBUF # rev ps @ [NBUF]) \<and>
     (\<forall>i\<le>NBUF. nolinks (bufs t ! i) = nolinks (bufs s ! i)) \<and>
     (\<forall>i\<in>set ps. \<not> sl_locked (slks t (BufSL i))) \<and>
     t = s\<lparr>slks := slks t, bufs := bufs t\<rparr>"

lemma binit_one_inv:
  assumes inv: "binit_inv s ps t" and ps: "distinct ps" "set ps \<subseteq> {..<NBUF}" and b: "b < NBUF" "b \<notin> set ps"
  shows "wpk (binit_one b) (\<lambda>_. binit_inv s (ps @ [b])) t"
proof -
  let ?nx = "\<lambda>i. b_next (bufs t ! i)" and ?pv = "\<lambda>i. b_prev (bufs t ! i)"
  have len: "length (bufs t) = Suc NBUF" and c: "consec ?nx ?pv (NBUF # rev ps @ [NBUF])"
    using inv by (simp_all add: binit_inv_def)
  have dd: "distinct (NBUF # b # rev ps)" using ps b by auto
  define hn where "hn = ?nx NBUF"
  define bs where "bs =
      (let bs1 = (bufs t)[b := (bufs t ! b)\<lparr>b_next := hn\<rparr>];
           bs2 = bs1[b := (bs1 ! b)\<lparr>b_prev := NBUF\<rparr>];
           bs3 = bs2[hn := (bs2 ! hn)\<lparr>b_prev := b\<rparr>]
       in bs3[NBUF := (bs3 ! NBUF)\<lparr>b_next := b\<rparr>])"
  define u where "u = t\<lparr>slks := (slks t)(BufSL b := \<lparr>sl_locked = False, sl_name = ''buffer'', sl_pid = 0\<rparr>),
    bufs := bs\<rparr>"
  have run: "binit_one b t = Ok () u"
    using len b by (simp add: binit_one_def initsleeplock_def run u_def bs_def Let_def hn_def)
  have lnk: "b_next (bs ! i) = ((?nx(b := hn))(NBUF := b)) i"
    "b_prev (bs ! i) = ((?pv(b := NBUF))(hn := b)) i"
    "nolinks (bs ! i) = nolinks (bufs t ! i)" if "i \<le> NBUF" for i
    using that len unfolding bs_def Let_def
    by (simp_all add: set_link_nth del: list_update_overwrite)
  have "consec (\<lambda>i. b_next (bs ! i)) (\<lambda>i. b_prev (bs ! i)) (NBUF # b # rev ps @ [NBUF])
      = consec ((?nx(b := hn))(NBUF := b)) ((?pv(b := NBUF))(hn := b)) (NBUF # b # rev ps @ [NBUF])"
    using ps b by (intro consec_cong lnk) (auto simp: butlast_append)
  then have "consec (\<lambda>i. b_next (bs ! i)) (\<lambda>i. b_prev (bs ! i)) (NBUF # b # rev ps @ [NBUF])"
    using consec_push [OF c dd] by (simp only: hn_def)
  moreover have "length bs = Suc NBUF" using len by (simp add: bs_def Let_def)
  moreover have "u = s\<lparr>slks := slks u, bufs := bufs u\<rparr>"
  proof -
    have t: "t = s\<lparr>slks := slks t, bufs := bufs t\<rparr>" using inv by (simp add: binit_inv_def)
    have "t\<lparr>slks := x, bufs := y\<rparr> = s\<lparr>slks := x, bufs := y\<rparr>" for x y by (subst t) simp
    then show ?thesis by (simp add: u_def)
  qed
  ultimately have "binit_inv s (ps @ [b]) u"
    using inv lnk(3) by (auto simp: binit_inv_def u_def)
  then show ?thesis using run by (simp add: wpk_def)
qed

lemma binit_ok:
  assumes len: "length (bufs s) = Suc NBUF"
    and zero: "\<forall>i<NBUF. b_dev (bufs s ! i) = 0 \<and> \<not> b_valid (bufs s ! i) \<and> \<not> b_dirty (bufs s ! i)
       \<and> b_refcnt (bufs s ! i) = 0"
    and cur: "\<exists>p. cur s = Some p \<and> p < length (procs s)" and held: "held s = {}"
    and disk: "\<forall>d\<in>set (memdisk s). length d = BSIZE"
  shows "wpk binit (\<lambda>_ t. bio_ok (rev [0..<NBUF]) {} t \<and> (\<forall>k. content t k = memdisk s ! k)
    \<and> memdisk t = memdisk s \<and> (\<forall>k. \<not> dirty t k) \<and> (\<forall>i<NBUF. b_dev (bufs t ! i) = 0)) s"
proof -
  define s0 where "s0 = s\<lparr>bufs := (bufs s)[NBUF := (bufs s ! NBUF)\<lparr>b_prev := NBUF, b_next := NBUF\<rparr>]\<rparr>"
  have "binit_inv s0 [] s0"
    using len by (simp add: binit_inv_def s0_def)
  then have "wpk (kfor [0..<NBUF] binit_one) (\<lambda>_. binit_inv s0 [0..<NBUF]) s0"
  proof (rule wp_for)
    fix pre i rest and t :: "'a bcache_scheme"
    assume a: "[0..<NBUF] = pre @ i # rest" and inv: "binit_inv s0 pre t"
    have "distinct (pre @ i # rest)" "set (pre @ i # rest) = {..<NBUF}" by (auto simp flip: a)
    then show "wpk (binit_one i) (\<lambda>_. binit_inv s0 (pre @ [i])) t"
      by (intro binit_one_inv [OF inv]) auto
  qed
  then have "wpk (kfor [0..<NBUF] binit_one) (\<lambda>_ t. bio_ok (rev [0..<NBUF]) {} t
    \<and> (\<forall>k. content t k = memdisk s ! k) \<and> memdisk t = memdisk s \<and> (\<forall>k. \<not> dirty t k) \<and> (\<forall>i<NBUF. b_dev (bufs t ! i) = 0)) s0"
  proof (rule wpk_mono)
    fix t :: "'a bcache_scheme"
    assume inv: "binit_inv s0 [0..<NBUF] t"
    then have t: "t = s0\<lparr>slks := slks t, bufs := bufs t\<rparr>" by (simp add: binit_inv_def)
    have f: "held t = held s" "cur t = cur s" "procs t = procs s" "memdisk t = memdisk s"
      by (subst t, simp add: s0_def)+
    have z: "b_dev (bufs t ! i) = 0 \<and> \<not> b_valid (bufs t ! i) \<and> \<not> b_dirty (bufs t ! i)
       \<and> b_refcnt (bufs t ! i) = 0" if "i < NBUF" for i
    proof -
      have "nolinks (bufs t ! i) = nolinks (bufs s ! i)" using inv that by (simp add: binit_inv_def s0_def)
      then show ?thesis using nolinksD [of "bufs t ! i" "bufs s ! i"] zero that by simp
    qed
    have "dll (bufs t) (rev [0..<NBUF])" using inv by (auto simp: dll_def binit_inv_def)
    moreover have "length (bufs t) = Suc NBUF" "\<forall>i<NBUF. \<not> sl_locked (slks t (BufSL i))"
      using inv by (auto simp: binit_inv_def)
    ultimately have "bio_ok (rev [0..<NBUF]) {} t"
      using z cur held disk by (simp add: bio_ok_def f buf_ok_def Let_def)
    moreover have "content t k = memdisk s ! k" for k
      using content_hasnt [of t k] z f by (simp add: has_def)
    moreover have "\<not> dirty t k" for k using z by (auto simp: dirty_def)
    ultimately show "bio_ok (rev [0..<NBUF]) {} t \<and> (\<forall>k. content t k = memdisk s ! k)
      \<and> memdisk t = memdisk s \<and> (\<forall>k. \<not> dirty t k) \<and> (\<forall>i<NBUF. b_dev (bufs t ! i) = 0)" using f z by simp
  qed
  then show ?thesis using len by (simp add: binit_def wpk_def run s0_def)
qed

section \<open>Properties\<close>

text \<open>
  \<^verbatim>\<open>binit\<close> builds the list of all buffers. From zeroed buffers it establishes the invariant
  with no buffer held, the last buffer first on the list, and the cache showing the disk.
\<close>

theorem binit_establishes:
  assumes "length (bufs s) = Suc NBUF"
    and "\<forall>i<NBUF. b_dev (bufs s ! i) = 0 \<and> \<not> b_valid (bufs s ! i) \<and> \<not> b_dirty (bufs s ! i)
       \<and> b_refcnt (bufs s ! i) = 0"
    and "\<exists>p. cur s = Some p \<and> p < length (procs s)" and "held s = {}"
    and "\<forall>d\<in>set (memdisk s). length d = BSIZE"
  shows "wpk binit (\<lambda>_ t. bio_ok (rev [0..<NBUF]) {} t \<and> (\<forall>k. content t k = memdisk s ! k)
    \<and> memdisk t = memdisk s \<and> (\<forall>k. \<not> dirty t k) \<and> (\<forall>i<NBUF. b_dev (bufs t ! i) = 0)) s"
  using assms by (rule binit_ok)

definition zero_buf :: buf where
  "zero_buf = \<lparr>b_valid = False, b_dirty = False, b_dev = 0, b_blockno = 0, b_refcnt = 0, b_prev = 0,
     b_next = 0, b_data = replicate BSIZE 0\<rparr>"

definition boot_bcache :: "uchar list list \<Rightarrow> bcache" where
  "boot_bcache d = vmem.extend (kmem.extend demo_kmem \<lparr>kpgdir = 0, cr3 = 0, kdata = 0x80108000,
     ts_esp0 = 0, ts_ss0 = 0, ts_iomb = 0\<rparr>)
     \<lparr>bufs = replicate (Suc NBUF) zero_buf, memdisk = d, wtrace = []\<rparr>"

lemma boot_bcache_simps [simp]:
  "bufs (boot_bcache d) = replicate (Suc NBUF) zero_buf" "memdisk (boot_bcache d) = d"
  "held (boot_bcache d) = {}" "cur (boot_bcache d) = Some 0" "length (procs (boot_bcache d)) = 2"
  by (simp_all add: boot_bcache_def vmem.extend_def kmem.extend_def demo_kmem_def sleeps.extend_def
      demo_sleeps_defs)

lemma boot_bcache_ok:
  assumes "\<forall>b\<in>set d. length b = BSIZE"
  shows "wpk binit (\<lambda>_ t. bio_ok (rev [0..<NBUF]) {} t \<and> (\<forall>k. content t k = d ! k)
    \<and> memdisk t = d \<and> (\<forall>k. \<not> dirty t k) \<and> (\<forall>i<NBUF. b_dev (bufs t ! i) = 0)) (boot_bcache d)"
  using binit_ok [of "boot_bcache d"] assms by (simp add: zero_buf_def del: replicate.simps)

theorem binit_establishes_witness:
  "wpk binit (\<lambda>_ t. bio_ok (rev [0..<NBUF]) {} t \<and> (\<forall>k. content t k = [replicate BSIZE 7] ! k)
    \<and> memdisk t = [replicate BSIZE 7] \<and> (\<forall>k. \<not> dirty t k) \<and> (\<forall>i<NBUF. b_dev (bufs t ! i) = 0)) (boot_bcache [replicate BSIZE 7])"
  using binit_establishes [of "boot_bcache [replicate BSIZE 7]"]
  by (simp add: zero_buf_def del: replicate.simps)

text \<open>
  C8. The cache is transparent. In a state in order, with a buffer to spare, reading a block gives
  its content and changes no content and nothing on the disk; changing a block and writing it
  through changes the content and the disk at this block only, appends exactly this write to the
  history of the disk, and leaves no buffer held.
\<close>

theorem bcache_transparent:
  assumes "bio_inv {} s" and "unat a < length (memdisk s)"
    and "dirty s (unat a) \<or> card {k. dirty s k} < NBUF" and "length (f (content s (unat a))) = BSIZE"
  shows "wpk (kbind (bread 1 a) (\<lambda>b. kbind (get_buf b b_data) (\<lambda>d. kseq (brelse b) (kret d))))
      (\<lambda>d t. d = content s (unat a) \<and> bio_inv {} t \<and> content t = content s \<and> dirty t = dirty s
         \<and> memdisk t = memdisk s \<and> wtrace t = wtrace s \<and> bio_frame s t) s
    \<and> wpk (kbind (bread 1 a) (\<lambda>b. kseq (bset b f) (kseq (bwrite b) (brelse b))))
      (\<lambda>_ t. bio_inv {} t \<and> content t = (content s)(unat a := f (content s (unat a)))
         \<and> dirty t = (dirty s)(unat a := False) \<and> memdisk t = (memdisk s)[unat a := f (content s (unat a))]
         \<and> wtrace t = wtrace s @ [(unat a, f (content s (unat a)))] \<and> bio_frame s t) s"
  using bc.read_block [OF assms(1-3)] bc.update_block [OF assms(1,2), of f] assms(3,4) by simp

theorem bcache_transparent_witness:
  "wpk (kseq binit (kbind (bread 1 0) (\<lambda>b. kseq (bset b (\<lambda>_. replicate BSIZE 9)) (kseq (bwrite b) (brelse b)))))
     (\<lambda>_ t. memdisk t = [replicate BSIZE 9]) (boot_bcache [replicate BSIZE 7])"
proof -
  have "wpk binit (\<lambda>_ t. bio_ok (rev [0..<NBUF]) {} t \<and> (\<forall>k. content t k = [replicate BSIZE 7] ! k)
      \<and> memdisk t = [replicate BSIZE 7] \<and> (\<forall>k. \<not> dirty t k) \<and> (\<forall>i<NBUF. b_dev (bufs t ! i) = 0)) (boot_bcache [replicate BSIZE 7])"
    by (rule boot_bcache_ok) simp
  then have "wpk binit (\<lambda>_. wpk (kbind (bread 1 0) (\<lambda>b. kseq (bset b (\<lambda>_. replicate BSIZE 9))
      (kseq (bwrite b) (brelse b)))) (\<lambda>_ t. memdisk t = [replicate BSIZE 9])) (boot_bcache [replicate BSIZE 7])"
  proof (rule wpk_mono)
    fix t :: bcache
    assume t: "bio_ok (rev [0..<NBUF]) {} t \<and> (\<forall>k. content t k = [replicate BSIZE 7] ! k)
      \<and> memdisk t = [replicate BSIZE 7] \<and> (\<forall>k. \<not> dirty t k) \<and> (\<forall>i<NBUF. b_dev (bufs t ! i) = 0)"
    then have "bio_inv {} t" "unat 0 < length (memdisk t)" "dirty t (unat 0) \<or> card {k. dirty t k} < NBUF"
      by (auto simp: bio_inv_def NBUF_def)
    from bcache_transparent [OF this, of "\<lambda>_. replicate BSIZE 9"]
    have "wpk (kbind (bread 1 0) (\<lambda>b. kseq (bset b (\<lambda>_. replicate BSIZE 9)) (kseq (bwrite b) (brelse b))))
      (\<lambda>_ u. memdisk u = (memdisk t)[0 := replicate BSIZE 9]) t"
      by (auto elim!: wpk_mono)
    then show "wpk (kbind (bread 1 0) (\<lambda>b. kseq (bset b (\<lambda>_. replicate BSIZE 9)) (kseq (bwrite b) (brelse b))))
      (\<lambda>_ u. memdisk u = [replicate BSIZE 9]) t"
      using t by simp
  qed
  then show ?thesis by (simp add: wp_seq)
qed

text \<open>
  C25. Buffers are recycled in least-recently-used order. If the block is not cached, \<^verbatim>\<open>bget\<close> takes
  the last buffer of the list that is neither held nor pinned; if there is none it panics.
  Releasing a buffer puts it at the front of the list and keeps the order of the others.
\<close>

theorem bget_least_recently_used:
  assumes "bio_ok ord H s"
    and "\<forall>i<NBUF. b_dev (bufs s ! i) = 1 \<longrightarrow> b_blockno (bufs s ! i) \<noteq> a"
  shows "(case find (\<lambda>i. i \<notin> H \<and> \<not> b_dirty (bufs s ! i)) (rev ord) of
      None \<Rightarrow> bget 1 a s = Panic ''bget: no buffers''
    | Some b \<Rightarrow> \<exists>t. bget 1 a s = Ok b t \<and> b_blockno (bufs t ! b) = a \<and> \<not> b_valid (bufs t ! b)
        \<and> sl_mine (BufSL b) t)
    \<and> (\<forall>b\<in>H. (\<not> b_dirty (bufs s ! b) \<longrightarrow> b_data (bufs s ! b) = memdisk s ! unat (b_blockno (bufs s ! b))) \<longrightarrow>
        (\<exists>t. brelse b s = Ok () t \<and> bio_ok (b # remove1 b ord) (H - {b}) t))"
proof
  let ?P = "\<lambda>i. b_refcnt (bufs s ! i) = 0 \<and> \<not> b_dirty (bufs s ! i)"
  let ?Q = "\<lambda>i. i \<notin> H \<and> \<not> b_dirty (bufs s ! i)"
  have ord: "set ord = {..<NBUF}" using bio_okD(2) [OF assms(1)] by (simp add: dll_def)
  have "?P i = ?Q i" if "i < NBUF" for i
    using bio_okD(6) [OF assms(1) that] by (auto simp: buf_ok_def Let_def split: if_splits)
  then have PQ: "find ?P (rev ord) = find ?Q (rev ord)" using ord by (intro find_cong) auto
  have none: "find (\<lambda>i. b_dev (bufs s ! i) = 1 \<and> b_blockno (bufs s ! i) = a) ord = None"
    using assms(2) ord by (auto simp: find_None_iff)
  obtain p where p: "cur s = Some p" "held s = {}" using bio_okD(3,5) [OF assms(1)] by blast
  show "case find ?Q (rev ord) of None \<Rightarrow> bget 1 a s = Panic ''bget: no buffers''
    | Some b \<Rightarrow> \<exists>t. bget 1 a s = Ok b t \<and> b_blockno (bufs t ! b) = a \<and> \<not> b_valid (bufs t ! b)
        \<and> sl_mine (BufSL b) t"
  proof (cases "find ?Q (rev ord)")
    case None
    then show ?thesis
      using p by (simp add: bget_def run dll_next [OF bio_okD(2) [OF assms(1)]] none
          dll_prev [OF bio_okD(2) [OF assms(1)]] PQ)
  next
    case (Some b)
    then have b: "b \<in> set ord" "b \<notin> H" by (auto simp: find_Some_iff) (metis length_rev nth_mem set_rev)
    then have bn: "b < NBUF" and bo: "buf_ok False s b"
      using ord bio_okD(6) [OF assms(1), of b] by auto
    show ?thesis
      using p Some bn bo bio_okD(1) [OF assms(1)] unfolding bget_def
      by (simp add: run dll_next [OF bio_okD(2) [OF assms(1)]] none dll_prev [OF bio_okD(2) [OF assms(1)]]
          PQ buf_ok_def Let_def held_none)
  qed
  show "\<forall>b\<in>H. (\<not> b_dirty (bufs s ! b) \<longrightarrow> b_data (bufs s ! b) = memdisk s ! unat (b_blockno (bufs s ! b))) \<longrightarrow>
      (\<exists>t. brelse b s = Ok () t \<and> bio_ok (b # remove1 b ord) (H - {b}) t)"
    using brelse_ok [OF assms(1)] by blast
qed

theorem bget_least_recently_used_witness:
  "wpk binit (\<lambda>_ t. \<exists>u. bget 1 3 t = Ok 0 u) (boot_bcache [replicate BSIZE 7])"
proof -
  have "wpk binit (\<lambda>_ t. bio_ok (rev [0..<NBUF]) {} t \<and> (\<forall>k. content t k = [replicate BSIZE 7] ! k)
      \<and> memdisk t = [replicate BSIZE 7] \<and> (\<forall>k. \<not> dirty t k) \<and> (\<forall>i<NBUF. b_dev (bufs t ! i) = 0)) (boot_bcache [replicate BSIZE 7])"
    by (rule boot_bcache_ok) simp
  then show ?thesis
  proof (rule wpk_mono)
    fix t :: bcache
    assume t: "bio_ok (rev [0..<NBUF]) {} t \<and> (\<forall>k. content t k = [replicate BSIZE 7] ! k)
      \<and> memdisk t = [replicate BSIZE 7] \<and> (\<forall>k. \<not> dirty t k) \<and> (\<forall>i<NBUF. b_dev (bufs t ! i) = 0)"
    have "0 < NBUF" by (simp add: NBUF_def)
    then have "\<not> b_dirty (bufs t ! 0)" using t unfolding dirty_def by blast
    moreover have "rev (rev [0..<NBUF]) = 0 # [1..<NBUF]" by (simp add: NBUF_def upt_conv_Cons)
    ultimately have "find (\<lambda>i. i \<notin> {} \<and> \<not> b_dirty (bufs t ! i)) (rev (rev [0..<NBUF])) = Some 0" by simp
    then show "\<exists>u. bget 1 3 t = Ok 0 u"
      using bget_least_recently_used [of "rev [0..<NBUF]" "{}" t 3] t by auto
  qed
qed

end
