(* ===== verification/Layout.thy ===== *)
theory Layout
  imports Bio
begin

text \<open>
  The on-disk structures of \<^verbatim>\<open>fs.h\<close>: little-endian integers in a block, the super block, the
  inode and the directory entry, with the facts that a structure written at its place reads back
  and leaves the others alone.
\<close>

section \<open>Integers in a block\<close>

definition ld16 :: "uchar list \<Rightarrow> nat \<Rightarrow> ushort" where
  "ld16 d k = ucast (d ! k) OR push_bit 8 (ucast (d ! (k + 1)))"

definition ld32 :: "uchar list \<Rightarrow> nat \<Rightarrow> uint32" where
  "ld32 d k = ucast (d ! k) OR push_bit 8 (ucast (d ! (k + 1)))
     OR push_bit 16 (ucast (d ! (k + 2))) OR push_bit 24 (ucast (d ! (k + 3)))"

definition st16 :: "nat \<Rightarrow> ushort \<Rightarrow> uchar list \<Rightarrow> uchar list" where
  "st16 k v d = d[k := ucast v, k + 1 := ucast (drop_bit 8 v)]"

definition st32 :: "nat \<Rightarrow> uint32 \<Rightarrow> uchar list \<Rightarrow> uchar list" where
  "st32 k v d = d[k := ucast v, k + 1 := ucast (drop_bit 8 v),
     k + 2 := ucast (drop_bit 16 v), k + 3 := ucast (drop_bit 24 v)]"

lemma length_st16 [simp]: "length (st16 k v d) = length d"
  and length_st32 [simp]: "length (st32 k w d) = length d"
  by (simp_all add: st16_def st32_def)

lemma nth_st16: "i < k \<or> k + 2 \<le> i \<Longrightarrow> st16 k v d ! i = d ! i"
  and nth_st32: "i < k \<or> k + 4 \<le> i \<Longrightarrow> st32 k w d ! i = d ! i"
  by (auto simp: st16_def st32_def nth_list_update)

lemma ld32_bytes:
  "(ucast (ucast v :: uchar) :: uint32) OR push_bit 8 (ucast (ucast (drop_bit 8 v) :: uchar))
     OR push_bit 16 (ucast (ucast (drop_bit 16 v) :: uchar))
     OR push_bit 24 (ucast (ucast (drop_bit 24 v) :: uchar)) = v"
proof (rule bit_word_eqI)
  fix n
  assume n: "n < LENGTH(32)"
  consider "n < 8" | "8 \<le> n" "n < 16" | "16 \<le> n" "n < 24" | "24 \<le> n" by linarith
  then show "bit ((ucast (ucast v :: uchar) :: uint32) OR push_bit 8 (ucast (ucast (drop_bit 8 v) :: uchar))
     OR push_bit 16 (ucast (ucast (drop_bit 16 v) :: uchar))
     OR push_bit 24 (ucast (ucast (drop_bit 24 v) :: uchar))) n = bit v n"
    using n by cases (auto simp: bit_simps)
qed

lemma ld16_bytes:
  "(ucast (ucast v :: uchar) :: ushort) OR push_bit 8 (ucast (ucast (drop_bit 8 v) :: uchar)) = v"
proof (rule bit_word_eqI)
  fix n
  assume n: "n < LENGTH(16)"
  consider "n < 8" | "8 \<le> n" by linarith
  then show "bit ((ucast (ucast v :: uchar) :: ushort) OR push_bit 8 (ucast (ucast (drop_bit 8 v) :: uchar))) n
     = bit v n"
    using n by cases (auto simp: bit_simps)
qed

lemma ld32_st32 [simp]: "k + 4 \<le> length d \<Longrightarrow> ld32 (st32 k v d) k = v"
  using ld32_bytes [of v] by (simp add: ld32_def st32_def nth_list_update)

lemma ld16_st16 [simp]: "k + 2 \<le> length d \<Longrightarrow> ld16 (st16 k v d) k = v"
  using ld16_bytes [of v] by (simp add: ld16_def st16_def nth_list_update)

lemma ld32_cong: "(\<And>i. k \<le> i \<Longrightarrow> i < k + 4 \<Longrightarrow> d ! i = e ! i) \<Longrightarrow> ld32 d k = ld32 e k"
  by (simp add: ld32_def)

lemma ld16_cong: "(\<And>i. k \<le> i \<Longrightarrow> i < k + 2 \<Longrightarrow> d ! i = e ! i) \<Longrightarrow> ld16 d k = ld16 e k"
  by (simp add: ld16_def)

lemma ld32_st32_other: "j + 4 \<le> k \<or> k + 4 \<le> j \<Longrightarrow> ld32 (st32 k v d) j = ld32 d j"
  by (intro ld32_cong nth_st32) auto

lemma ld16_st32_other: "j + 2 \<le> k \<or> k + 4 \<le> j \<Longrightarrow> ld16 (st32 k v d) j = ld16 d j"
  by (intro ld16_cong nth_st32) auto

lemma ld16_st16_other: "j + 2 \<le> k \<or> k + 2 \<le> j \<Longrightarrow> ld16 (st16 k v d) j = ld16 d j"
  by (intro ld16_cong nth_st16) auto

lemma ld32_st16_other: "j + 4 \<le> k \<or> k + 2 \<le> j \<Longrightarrow> ld32 (st16 k v d) j = ld32 d j"
  by (intro ld32_cong nth_st16) auto

section \<open>Arrays of integers\<close>

text \<open>\<^verbatim>\<open>for (i = 0; i < n; i++) a[i] = v[i];\<close> on an array of 32-bit integers at offset \<open>k\<close>.\<close>

primrec st32s :: "nat \<Rightarrow> uint32 list \<Rightarrow> uchar list \<Rightarrow> uchar list" where
  "st32s k [] d = d"
| "st32s k (v # vs) d = st32s (k + 4) vs (st32 k v d)"

definition ld32s :: "uchar list \<Rightarrow> nat \<Rightarrow> nat \<Rightarrow> uint32 list" where
  "ld32s d k n = map (\<lambda>i. ld32 d (k + 4 * i)) [0..<n]"

lemma length_st32s [simp]: "length (st32s k vs d) = length d"
  by (induction vs arbitrary: k d) simp_all

lemma nth_st32s: "i < k \<or> k + 4 * length vs \<le> i \<Longrightarrow> st32s k vs d ! i = d ! i"
  by (induction vs arbitrary: k d) (auto simp: nth_st32)

lemma ld32_st32s:
  "i < length vs \<Longrightarrow> k + 4 * length vs \<le> length d \<Longrightarrow> ld32 (st32s k vs d) (k + 4 * i) = vs ! i"
proof (induction vs arbitrary: k d i)
  case (Cons v vs)
  show ?case
  proof (cases i)
    case 0
    have "ld32 (st32s (k + 4) vs (st32 k v d)) k = ld32 (st32 k v d) k"
      by (intro ld32_cong nth_st32s) simp
    with 0 Cons.prems show ?thesis by simp
  next
    case (Suc j)
    then show ?thesis using Cons.IH [of j "k + 4" "st32 k v d"] Cons.prems by (simp add: add.assoc)
  qed
qed simp

lemma ld32s_st32s: "k + 4 * length vs \<le> length d \<Longrightarrow> ld32s (st32s k vs d) k (length vs) = vs"
  by (rule nth_equalityI) (simp_all add: ld32s_def ld32_st32s)

lemma length_ld32s [simp]: "length (ld32s d k n) = n"
  by (simp add: ld32s_def)

lemma ld32s_cong: "(\<And>i. k \<le> i \<Longrightarrow> i < k + 4 * n \<Longrightarrow> d ! i = e ! i) \<Longrightarrow> ld32s d k n = ld32s e k n"
  by (auto simp: ld32s_def intro!: ld32_cong)

section \<open>\<^verbatim>\<open>struct superblock\<close>\<close>

record superblock =
  sb_size :: uint32
  sb_nblocks :: uint32
  sb_ninodes :: uint32
  sb_nlog :: uint32
  sb_logstart :: uint32
  sb_inodestart :: uint32
  sb_bmapstart :: uint32

definition sb_get :: "uchar list \<Rightarrow> superblock" where
  "sb_get d = \<lparr>sb_size = ld32 d 0, sb_nblocks = ld32 d 4, sb_ninodes = ld32 d 8, sb_nlog = ld32 d 12,
     sb_logstart = ld32 d 16, sb_inodestart = ld32 d 20, sb_bmapstart = ld32 d 24\<rparr>"

definition sb_put :: "superblock \<Rightarrow> uchar list \<Rightarrow> uchar list" where
  "sb_put b d = st32s 0 [sb_size b, sb_nblocks b, sb_ninodes b, sb_nlog b, sb_logstart b,
     sb_inodestart b, sb_bmapstart b] d"

lemma sb_get_put: "28 \<le> length d \<Longrightarrow> sb_get (sb_put b d) = b"
proof -
  assume d: "28 \<le> length d"
  let ?vs = "[sb_size b, sb_nblocks b, sb_ninodes b, sb_nlog b, sb_logstart b, sb_inodestart b,
    sb_bmapstart b]"
  have "ld32 (sb_put b d) (4 * i) = ?vs ! i" if "i < 7" for i
    using ld32_st32s [of i ?vs 0 d] d that by (simp add: sb_put_def del: st32s.simps)
  from this [of 0] this [of 1] this [of 2] this [of 3] this [of 4] this [of 5] this [of 6]
  show ?thesis by (simp add: sb_get_def)
qed

section \<open>\<^verbatim>\<open>struct dinode\<close>\<close>

definition NDIRECT :: nat where "NDIRECT = 12"
definition NINDIRECT :: nat where "NINDIRECT = BSIZE div 4"
definition MAXFILE :: nat where "MAXFILE = NDIRECT + NINDIRECT"

record dinode =
  di_type :: ushort
  di_major :: ushort
  di_minor :: ushort
  di_nlink :: ushort
  di_size :: uint32
  di_addrs :: "uint32 list"

definition IPB :: nat where "IPB = BSIZE div 64"

definition dinode_get :: "uchar list \<Rightarrow> nat \<Rightarrow> dinode" where
  "dinode_get d k = \<lparr>di_type = ld16 d k, di_major = ld16 d (k + 2), di_minor = ld16 d (k + 4),
     di_nlink = ld16 d (k + 6), di_size = ld32 d (k + 8), di_addrs = ld32s d (k + 12) (NDIRECT + 1)\<rparr>"

definition dinode_put :: "nat \<Rightarrow> dinode \<Rightarrow> uchar list \<Rightarrow> uchar list" where
  "dinode_put k i d = st32s (k + 12) (di_addrs i) (st32 (k + 8) (di_size i) (st16 (k + 6) (di_nlink i)
     (st16 (k + 4) (di_minor i) (st16 (k + 2) (di_major i) (st16 k (di_type i) d)))))"

lemma length_dinode_put [simp]: "length (dinode_put k i d) = length d"
  by (simp add: dinode_put_def)

lemma nth_dinode_put:
  assumes "length (di_addrs i) = NDIRECT + 1" and "j < k \<or> k + 64 \<le> j"
  shows "dinode_put k i d ! j = d ! j"
  using assms by (auto simp: dinode_put_def nth_st32s nth_st32 nth_st16 NDIRECT_def)

lemma dinode_get_put:
  assumes a: "length (di_addrs i) = NDIRECT + 1" and k: "k + 64 \<le> length d"
  shows "dinode_get (dinode_put k i d) k = i"
proof -
  let ?e = "st32 (k + 8) (di_size i) (st16 (k + 6) (di_nlink i)
     (st16 (k + 4) (di_minor i) (st16 (k + 2) (di_major i) (st16 k (di_type i) d))))"
  have p: "dinode_put k i d = st32s (k + 12) (di_addrs i) ?e" by (simp add: dinode_put_def)
  have h: "ld16 (dinode_put k i d) j = ld16 ?e j" if "j + 2 \<le> k + 12" for j
    unfolding p using that by (intro ld16_cong nth_st32s) auto
  have "ld32 (dinode_put k i d) (k + 8) = ld32 ?e (k + 8)"
    unfolding p by (intro ld32_cong nth_st32s) auto
  moreover have "ld32s (dinode_put k i d) (k + 12) (NDIRECT + 1) = di_addrs i"
    using ld32s_st32s [of "k + 12" "di_addrs i" ?e] a k unfolding p by (simp add: NDIRECT_def)
  moreover have "ld16 ?e k = di_type i" "ld16 ?e (k + 2) = di_major i" "ld16 ?e (k + 4) = di_minor i"
    "ld16 ?e (k + 6) = di_nlink i" "ld32 ?e (k + 8) = di_size i"
    using k by (simp_all add: ld16_st32_other ld16_st16_other)
  ultimately show ?thesis using h [of k] h [of "k + 2"] h [of "k + 4"] h [of "k + 6"]
    by (simp add: dinode_get_def)
qed

lemma dinode_get_other:
  assumes "length (di_addrs i) = NDIRECT + 1" and "j + 64 \<le> k \<or> k + 64 \<le> j"
  shows "dinode_get (dinode_put k i d) j = dinode_get d j"
proof -
  have eq: "dinode_put k i d ! x = d ! x" if "j \<le> x" "x < j + 64" for x
    using assms that by (intro nth_dinode_put) auto
  then have "ld32s (dinode_put k i d) (j + 12) (NDIRECT + 1) = ld32s d (j + 12) (NDIRECT + 1)"
    by (intro ld32s_cong) (auto simp: NDIRECT_def)
  moreover have "ld16 (dinode_put k i d) x = ld16 d x" if "j \<le> x" "x + 2 \<le> j + 64" for x
    using eq that by (intro ld16_cong) auto
  moreover have "ld32 (dinode_put k i d) (j + 8) = ld32 d (j + 8)"
    using eq by (intro ld32_cong) auto
  ultimately show ?thesis by (simp add: dinode_get_def)
qed

section \<open>\<^verbatim>\<open>struct dirent\<close>\<close>

definition DIRSIZ :: nat where "DIRSIZ = 14"

record dirent =
  de_inum :: ushort
  de_name :: "uchar list"

definition dirent_get :: "uchar list \<Rightarrow> dirent" where
  "dirent_get d = \<lparr>de_inum = ld16 d 0, de_name = take DIRSIZ (drop 2 d)\<rparr>"

definition dirent_bytes :: "dirent \<Rightarrow> uchar list" where
  "dirent_bytes e = [ucast (de_inum e), ucast (drop_bit 8 (de_inum e))] @ de_name e"

lemma dirent_get_bytes: "length (de_name e) = DIRSIZ \<Longrightarrow> dirent_get (dirent_bytes e) = e"
  using ld16_bytes [of "de_inum e"] by (simp add: dirent_get_def dirent_bytes_def ld16_def)

end
