(* ===== verification/Log.thy ===== *)
theory Log
  imports Layout
begin

text \<open>
  The redo log (\<^verbatim>\<open>log.c\<close>). A transaction gathers the blocks that file-system operations change
  in the cache; \<^verbatim>\<open>commit\<close> writes them to the log, writes the header, installs them and clears the
  header. The theory proves that a crash at any point, and any crashes during recovery, leave
  after recovery either all the changes of the transaction or none.
\<close>

section \<open>\<^verbatim>\<open>log.c\<close>\<close>

definition MAXOPBLOCKS :: nat where "MAXOPBLOCKS = 10"
definition LOGSIZE :: nat where "LOGSIZE = MAXOPBLOCKS * 3"

record logst = bcache +
  log_start :: sint32
  log_size :: sint32
  log_outstanding :: sint32
  log_committing :: bool
  log_dev :: uint32
  lh_n :: sint32
  lh_block :: "uint32 list"

text \<open>How often \<^verbatim>\<open>for (i = 0; i < n; i++)\<close> runs; and an index of an array of \<^verbatim>\<open>LOGSIZE\<close> integers.\<close>

definition cnt :: "sint32 \<Rightarrow> nat" where
  "cnt n = (if n <s 0 then 0 else unat n)"

definition log_index :: "nat \<Rightarrow> ('z logst_scheme, unit) kop" where
  "log_index n = kwhen (LOGSIZE < n) (kfault ''log header index'')"

text \<open>\<^verbatim>\<open>readsb\<close> of \<^verbatim>\<open>fs.c\<close>.\<close>

definition readsb :: "uint32 \<Rightarrow> ('z bcache_scheme, superblock) kop" where
  "readsb dev =
     kbind (bread dev 1) (\<lambda>bp.
     kbind (get_buf bp b_data) (\<lambda>d.
     kseq (brelse bp)
          (kret (sb_get d))))"

text \<open>The bodies of the loops of \<^verbatim>\<open>install_trans\<close> and \<^verbatim>\<open>write_log\<close>.\<close>

definition install_one :: "nat \<Rightarrow> ('z logst_scheme, unit) kop" where
  "install_one tail =
     kbind (kget log_dev) (\<lambda>dev.
     kbind (kget (\<lambda>s. log_start s + of_nat tail + 1)) (\<lambda>lno.
     kbind (kget (\<lambda>s. lh_block s ! tail)) (\<lambda>dno.
     kbind (bread dev lno) (\<lambda>lbuf.
     kbind (bread dev dno) (\<lambda>dbuf.
     kbind (get_buf lbuf b_data) (\<lambda>d.
     kseq (bset dbuf (\<lambda>_. d))
    (kseq (bwrite dbuf)
    (kseq (brelse lbuf)
          (brelse dbuf)))))))))"

definition install_trans :: "('z logst_scheme, unit) kop" where
  "install_trans =
     kbind (kget lh_n) (\<lambda>n.
     kseq (log_index (cnt n))
          (kfor [0..<cnt n] install_one))"

definition read_head :: "('z logst_scheme, unit) kop" where
  "read_head =
     kbind (kget log_dev) (\<lambda>dev.
     kbind (kget log_start) (\<lambda>st.
     kbind (bread dev st) (\<lambda>buf.
     kbind (get_buf buf b_data) (\<lambda>d.
     kseq (kmod (\<lambda>s. s\<lparr>lh_n := ld32 d 0\<rparr>))
    (kseq (log_index (cnt (ld32 d 0)))
    (kseq (kmod (\<lambda>s. s\<lparr>lh_block := ld32s d 4 (cnt (ld32 d 0)) @ drop (cnt (ld32 d 0)) (lh_block s)\<rparr>))
          (brelse buf)))))))"

text \<open>What \<^verbatim>\<open>write_head\<close> does to the bytes of the header block.\<close>

definition head_put :: "sint32 \<Rightarrow> uint32 list \<Rightarrow> uchar list \<Rightarrow> uchar list" where
  "head_put n bl d = st32s 4 (take (cnt n) bl) (st32 0 n d)"

definition write_head :: "('z logst_scheme, unit) kop" where
  "write_head =
     kbind (kget log_dev) (\<lambda>dev.
     kbind (kget log_start) (\<lambda>st.
     kbind (kget lh_n) (\<lambda>n.
     kbind (kget lh_block) (\<lambda>bl.
     kseq (log_index (cnt n))
    (kbind (bread dev st) (\<lambda>buf.
     kseq (bset buf (head_put n bl))
    (kseq (bwrite buf)
          (brelse buf))))))))"

definition recover_from_log :: "('z logst_scheme, unit) kop" where
  "recover_from_log =
     kseq read_head
    (kseq install_trans
    (kseq (kmod (\<lambda>s. s\<lparr>lh_n := 0\<rparr>))
          write_head))"

text \<open>\<^verbatim>\<open>initlog\<close>; the size of \<^verbatim>\<open>struct logheader\<close> is that of \<open>1 + LOGSIZE\<close> integers.\<close>

definition initlog :: "uint32 \<Rightarrow> ('z logst_scheme, unit) kop" where
  "initlog dev =
     kseq (kcheck (4 + 4 * LOGSIZE \<ge> BSIZE) ''initlog: too big logheader'')
    (kbind (readsb dev) (\<lambda>sb.
     kseq (kmod (\<lambda>s. s\<lparr>log_start := sb_logstart sb, log_size := sb_nlog sb, log_dev := dev\<rparr>))
          recover_from_log))"

text \<open>
  The loop of \<^verbatim>\<open>begin_op\<close>; a process that waits goes on at \<open>begin_op_resume\<close> when it is
  dispatched again.
\<close>

definition begin_op_loop :: "('z logst_scheme, unit) kop" where
  "begin_op_loop =
     kbind (kget id) (\<lambda>s.
     if log_committing s then sleep ChanLog (Some LogLock)
     else if of_nat LOGSIZE <s lh_n s + (log_outstanding s + 1) * of_nat MAXOPBLOCKS
       then sleep ChanLog (Some LogLock)
     else
       kseq (kmod (\<lambda>s. s\<lparr>log_outstanding := log_outstanding s + 1\<rparr>))
            (release LogLock))"

definition begin_op :: "('z logst_scheme, unit) kop" where
  "begin_op = kseq (acquire LogLock) begin_op_loop"

definition begin_op_resume :: "('z logst_scheme, unit) kop" where
  "begin_op_resume = kseq (sleep_resume LogLock) begin_op_loop"

definition write_one :: "nat \<Rightarrow> ('z logst_scheme, unit) kop" where
  "write_one tail =
     kbind (kget log_dev) (\<lambda>dev.
     kbind (kget (\<lambda>s. log_start s + of_nat tail + 1)) (\<lambda>lno.
     kbind (kget (\<lambda>s. lh_block s ! tail)) (\<lambda>dno.
     kbind (bread dev lno) (\<lambda>to.
     kbind (bread dev dno) (\<lambda>from.
     kbind (get_buf from b_data) (\<lambda>d.
     kseq (bset to (\<lambda>_. d))
    (kseq (bwrite to)
    (kseq (brelse from)
          (brelse to)))))))))"

definition write_log :: "('z logst_scheme, unit) kop" where
  "write_log =
     kbind (kget lh_n) (\<lambda>n.
     kseq (log_index (cnt n))
          (kfor [0..<cnt n] write_one))"

definition commit :: "('z logst_scheme, unit) kop" where
  "commit =
     kbind (kget lh_n) (\<lambda>n.
     kwhen (0 <s n)
       (kseq write_log
       (kseq write_head
       (kseq install_trans
       (kseq (kmod (\<lambda>s. s\<lparr>lh_n := 0\<rparr>))
             write_head)))))"

definition end_op :: "('z logst_scheme, unit) kop" where
  "end_op =
     kseq (acquire LogLock)
    (kseq (kmod (\<lambda>s. s\<lparr>log_outstanding := log_outstanding s - 1\<rparr>))
    (kbind (kget log_committing) (\<lambda>c.
     kseq (kcheck c ''log.committing'')
    (kbind (kget (\<lambda>s. log_outstanding s = 0)) (\<lambda>do_commit.
     kseq (if do_commit then kmod (\<lambda>s. s\<lparr>log_committing := True\<rparr>) else wakeup ChanLog)
    (kseq (release LogLock)
          (kwhen do_commit
            (kseq commit
            (kseq (acquire LogLock)
            (kseq (kmod (\<lambda>s. s\<lparr>log_committing := False\<rparr>))
            (kseq (wakeup ChanLog)
                  (release LogLock))))))))))))"

definition log_write :: "nat \<Rightarrow> ('z logst_scheme, unit) kop" where
  "log_write b =
     kbind (kget id) (\<lambda>s.
     kseq (kcheck (of_nat LOGSIZE \<le>s lh_n s \<or> log_size s - 1 \<le>s lh_n s) ''too big a transaction'')
    (kseq (kcheck (log_outstanding s <s 1) ''log_write outside of trans'')
    (kseq (acquire LogLock)
    (kbind (kget (\<lambda>s. (lh_block s, lh_n s))) (\<lambda>(bl, n).
     kbind (get_buf b b_blockno) (\<lambda>bno.
     kbind (kret (case first_index (\<lambda>x. x = bno) (take (cnt n) bl) of Some i \<Rightarrow> i | None \<Rightarrow> cnt n)) (\<lambda>i.
     kseq (kmod (\<lambda>s. s\<lparr>lh_block := (lh_block s)[i := bno]\<rparr>))
    (kseq (kwhen (of_nat i = n) (kmod (\<lambda>s. s\<lparr>lh_n := lh_n s + 1\<rparr>)))
    (kseq (upd_buf b (\<lambda>B. B\<lparr>b_dirty := True\<rparr>))
          (release LogLock))))))))))"

section \<open>Sequences of writes\<close>

definition writes :: "(nat \<times> 'a) list \<Rightarrow> 'a list \<Rightarrow> 'a list" where
  "writes w = fold (\<lambda>(k, x) d. d[k := x]) w"

definition fwr :: "(nat \<times> 'a) list \<Rightarrow> (nat \<Rightarrow> 'a) \<Rightarrow> nat \<Rightarrow> 'a" where
  "fwr w = fold (\<lambda>(k, x) c. c(k := x)) w"

lemma writes_simps [simp]:
  "writes [] d = d" "writes ((k, x) # w) d = writes w (d[k := x])" "writes (v @ w) d = writes w (writes v d)"
  by (simp_all add: writes_def)

lemma fwr_simps [simp]:
  "fwr [] c = c" "fwr ((k, x) # w) c = fwr w (c(k := x))" "fwr (v @ w) c = fwr w (fwr v c)"
  by (simp_all add: fwr_def)

lemma length_writes [simp]: "length (writes w d) = length d"
  by (induction w arbitrary: d) auto

lemma fwr_other: "k \<notin> fst ` set w \<Longrightarrow> fwr w c k = c k"
  by (induction w arbitrary: c) auto

lemma fwr_at: "distinct (map fst w) \<Longrightarrow> (k, x) \<in> set w \<Longrightarrow> fwr w c k = x"
  by (induction w arbitrary: c) (auto simp: fwr_other)

lemma fwr_eq: "j \<in> fst ` set w \<Longrightarrow> fwr w c j = fwr w c' j"
proof (induction w arbitrary: c c')
  case (Cons p w)
  obtain k x where p: "p = (k, x)" by fastforce
  show ?case
  proof (cases "j \<in> fst ` set w")
    case True
    from Cons.IH [OF this] show ?thesis by (simp only: p fwr_simps)
  next
    case False
    then show ?thesis using Cons.prems by (auto simp: p fwr_other)
  qed
qed simp

lemma writes_nth: "j < length d \<Longrightarrow> writes w d ! j = fwr w ((!) d) j"
proof (induction w arbitrary: d)
  case (Cons p w)
  obtain k x where p: "p = (k, x)" by fastforce
  have "fwr w ((!) (d[k := x])) j = fwr w (((!) d)(k := x)) j"
    using Cons.prems fwr_eq [of j w] by (cases "j \<in> fst ` set w") (auto simp: fwr_other nth_list_update)
  then show ?case using Cons.IH [of "d[k := x]"] Cons.prems by (simp add: p)
qed simp

section \<open>The header block\<close>

lemma cnt_0 [simp]: "cnt 0 = 0"
  by (simp add: cnt_def)

lemma sint_small:
  assumes "unat (n :: sint32) < 2 ^ 31"
  shows "sint n = int (unat n)"
proof -
  have "signed_take_bit 31 (int m) = int m" if "m < 2 ^ 31" for m
    using that by (intro signed_take_bit_int_eq_self) auto
  from this [OF assms] show ?thesis using sint_uint [of n] by (simp only: uint_nat) simp
qed

lemma cnt_small: "unat n < 2 ^ 31 \<Longrightarrow> cnt n = unat n"
  by (simp add: cnt_def word_sless_alt sint_small)

lemma length_head_put [simp]: "length (head_put n bl d) = length d"
  by (simp add: head_put_def)

lemma head_put_get:
  assumes "length d = BSIZE" and "cnt n \<le> LOGSIZE" and "length bl = LOGSIZE"
  shows "ld32 (head_put n bl d) 0 = n" and "ld32s (head_put n bl d) 4 (cnt n) = take (cnt n) bl"
proof -
  have "ld32 (head_put n bl d) 0 = ld32 (st32 0 n d) 0"
    unfolding head_put_def by (intro ld32_cong nth_st32s) simp
  then show "ld32 (head_put n bl d) 0 = n" using assms(1) by (simp add: BSIZE_def)
  show "ld32s (head_put n bl d) 4 (cnt n) = take (cnt n) bl"
    using ld32s_st32s [of 4 "take (cnt n) bl" "st32 0 n d"] assms
    by (simp add: head_put_def BSIZE_def LOGSIZE_def MAXOPBLOCKS_def)
qed

text \<open>
  What a disk means: the blocks as they are once a committed transaction in the log has been
  installed. \<open>wf_head\<close>: the header names distinct blocks of the disk outside the log.
\<close>

definition head_blocks :: "uchar list \<Rightarrow> nat list" where
  "head_blocks d = map unat (ld32s d 4 (cnt (ld32 d 0)))"

definition view :: "nat \<Rightarrow> (nat \<Rightarrow> uchar list) \<Rightarrow> nat \<Rightarrow> uchar list" where
  "view st c b = (case first_index (\<lambda>x. x = b) (head_blocks (c st)) of
     Some i \<Rightarrow> c (st + 1 + i) | None \<Rightarrow> c b)"

definition wf_blocks :: "nat \<Rightarrow> nat \<Rightarrow> nat \<Rightarrow> nat list \<Rightarrow> bool" where
  "wf_blocks st sz len bl \<longleftrightarrow> length bl < sz \<and> distinct bl \<and>
     (\<forall>b\<in>set bl. b < len \<and> b \<notin> {st..<st + sz})"

lemma head_blocks_empty: "ld32 d 0 = 0 \<Longrightarrow> head_blocks d = []"
  by (simp add: head_blocks_def ld32s_def)

lemma head_blocks_put:
  "length d = BSIZE \<Longrightarrow> cnt n \<le> LOGSIZE \<Longrightarrow> length bl = LOGSIZE \<Longrightarrow>
     head_blocks (head_put n bl d) = map unat (take (cnt n) bl)"
  by (simp add: head_blocks_def head_put_get)

lemma view_empty: "head_blocks (c st) = [] \<Longrightarrow> view st c b = c b"
  by (simp add: view_def)

lemma view_in:
  assumes "distinct (head_blocks (c st))" and "i < length (head_blocks (c st))"
  shows "view st c (head_blocks (c st) ! i) = c (st + 1 + i)"
proof -
  have "first_index (\<lambda>x. x = head_blocks (c st) ! i) (head_blocks (c st)) = Some i"
    using assms by (auto simp: first_index_Some nth_eq_iff_index_eq)
  then show ?thesis by (simp add: view_def)
qed

lemma view_out: "b \<notin> set (head_blocks (c st)) \<Longrightarrow> view st c b = c b"
proof -
  assume "b \<notin> set (head_blocks (c st))"
  then have "first_index (\<lambda>x. x = b) (head_blocks (c st)) = None" by (auto simp: first_index_None)
  then show ?thesis by (simp add: view_def)
qed

section \<open>The loops\<close>

lemma bio_frame_log:
  fixes s t :: "'z logst_scheme"
  assumes "bio_frame s t"
  shows "log_start t = log_start s" "log_size t = log_size s" "log_outstanding t = log_outstanding s"
    "log_committing t = log_committing s" "log_dev t = log_dev s" "lh_n t = lh_n s" "lh_block t = lh_block s"
    "held t = held s" "cur t = cur s"
proof -
  have t: "t = s\<lparr>procs := procs t, slks := slks t, bufs := bufs t, memdisk := memdisk t, wtrace := wtrace t\<rparr>"
    using assms by (simp add: bio_frame_def)
  show "log_start t = log_start s" by (subst t) simp
  show "log_size t = log_size s" by (subst t) simp
  show "log_outstanding t = log_outstanding s" by (subst t) simp
  show "log_committing t = log_committing s" by (subst t) simp
  show "log_dev t = log_dev s" by (subst t) simp
  show "lh_n t = lh_n s" by (subst t) simp
  show "lh_block t = lh_block s" by (subst t) simp
  show "held t = held s" by (subst t) simp
  show "cur t = cur s" by (subst t) simp
qed

lemma bio_frame_refl [simp]: "bio_frame s s"
  by (simp add: bio_frame_def)

abbreviation lst :: "'z logst_scheme \<Rightarrow> nat" where
  "lst s \<equiv> unat (log_start s)"

lemma upt_split:
  assumes "[0..<n] = pre @ i # rest"
  shows "pre = [0..<i]" and "i < n"
proof -
  have "i = [0..<n] ! length pre" using assms by simp
  moreover have l: "length pre < n" using arg_cong [OF assms, of length] by simp
  ultimately have i: "i = length pre" by simp
  then show "i < n" using l by simp
  show "pre = [0..<i]" using arg_cong [OF assms, of "take (length pre)"] i l by (simp add: take_upt)
qed

lemma card_dirty_mono:
  "bio_inv H s \<Longrightarrow> (\<And>k. dirty t k \<Longrightarrow> dirty s k) \<Longrightarrow> card {k. dirty t k} \<le> card {k. dirty s k}"
  by (rule card_mono) (auto simp: bc.drt_fin)

lemma log_block_no:
  "unat (st :: uint32) + 1 + i < 2 ^ 32 \<Longrightarrow> unat (st + of_nat i + 1) = unat st + 1 + i"
  using unat_add_of_nat [of st "Suc i"] by (simp add: ac_simps)

text \<open>
  After the loop over \<open>pre\<close>, the blocks of \<open>W pre\<close> have been written, in this order, and nothing
  else.
\<close>

definition loop_inv :: "'z logst_scheme \<Rightarrow> (nat list \<Rightarrow> (nat \<times> uchar list) list) \<Rightarrow> nat list \<Rightarrow>
    'z logst_scheme \<Rightarrow> bool" where
  "loop_inv s W pre t \<longleftrightarrow> bio_inv {} t \<and> bio_frame s t \<and> content t = fwr (W pre) (content s)
     \<and> memdisk t = writes (W pre) (memdisk s) \<and> wtrace t = wtrace s @ W pre
     \<and> dirty t = (\<lambda>k. dirty s k \<and> k \<notin> fst ` set (W pre))"

lemma loop_invD:
  assumes "loop_inv s W pre t"
  shows "bio_inv {} t" "bio_frame s t" "content t = fwr (W pre) (content s)"
    "memdisk t = writes (W pre) (memdisk s)" "wtrace t = wtrace s @ W pre"
    "dirty t = (\<lambda>k. dirty s k \<and> k \<notin> fst ` set (W pre))"
  using assms by (simp_all add: loop_inv_def)

lemma loop_inv_snoc:
  assumes t: "loop_inv s W pre t" and W: "W (pre @ [i]) = W pre @ [(k, x)]"
    and u: "bio_inv {} u \<and> content u = (content t)(k := x) \<and> dirty u = (dirty t)(k := False)
       \<and> memdisk u = (memdisk t)[k := x] \<and> wtrace u = wtrace t @ [(k, x)] \<and> bio_frame t u"
  shows "loop_inv s W (pre @ [i]) u"
proof -
  note d = loop_invD [OF t]
  have "bio_frame s u" using u d(2) bio_frame_trans by blast
  moreover have "dirty u = (\<lambda>k. dirty s k \<and> k \<notin> fst ` set (W (pre @ [i])))"
    using u by (auto simp: d(6) W fun_eq_iff)
  moreover have "fwr (W (pre @ [i])) (content s) = (content t)(k := x)"
    "writes (W (pre @ [i])) (memdisk s) = (memdisk t)[k := x]"
    "wtrace s @ W (pre @ [i]) = wtrace t @ [(k, x)]"
    unfolding W by (simp_all only: fwr_simps writes_simps d(3) [symmetric] d(4) [symmetric] d(5) append_assoc)
  ultimately show ?thesis using u by (simp only: loop_inv_def)
qed

lemma install_one_step:
  fixes s t :: "'z logst_scheme"
  defines "W \<equiv> map (\<lambda>i. (unat (lh_block s ! i), content s (lst s + 1 + i)))"
  assumes t: "loop_inv s W [0..<i] t" and dev: "log_dev s = 1" and i: "i < n"
    and geo: "lst s + 1 + n \<le> length (memdisk s)" "lst s + 1 + n \<le> 2 ^ 32"
    and dst: "\<forall>j<n. unat (lh_block s ! j) < length (memdisk s) \<and> unat (lh_block s ! j) \<notin> {lst s + 1..<lst s + 1 + n}"
    and dist: "\<forall>j<n. \<forall>k<n. unat (lh_block s ! j) = unat (lh_block s ! k) \<longrightarrow> j = k"
    and room: "bio_inv {} s" "card {k. dirty s k} < NBUF"
      "\<forall>j<n. dirty s (unat (lh_block s ! j)) \<or> card {k. dirty s k} + 1 < NBUF"
  shows "wpk (install_one i) (\<lambda>_. loop_inv s W ([0..<i] @ [i])) t"
proof -
  let ?a = "log_start t + of_nat i + 1" and ?b = "lh_block t ! i"
  note d = loop_invD [OF t]
  note lf = bio_frame_log [OF d(2)]
  have keys: "fst ` set (W [0..<i]) = (\<lambda>j. unat (lh_block s ! j)) ` {..<i}"
    by (force simp: W_def)
  have a: "unat ?a = lst s + 1 + i" using i geo by (simp add: lf log_block_no)
  have b: "unat ?b = unat (lh_block s ! i)" by (simp add: lf)
  have nb: "unat (lh_block s ! i) \<notin> fst ` set (W [0..<i])"
  proof
    assume "unat (lh_block s ! i) \<in> fst ` set (W [0..<i])"
    then obtain j where j: "j < i" "unat (lh_block s ! i) = unat (lh_block s ! j)" unfolding keys by blast
    with dist [rule_format, of i j] i show False by linarith
  qed
  have na: "lst s + 1 + i \<notin> fst ` set (W [0..<i])"
  proof
    assume "lst s + 1 + i \<in> fst ` set (W [0..<i])"
    then obtain j where j: "j < i" "lst s + 1 + i = unat (lh_block s ! j)" unfolding keys by blast
    with dst [rule_format, of j] i show False by simp
  qed
  have ca: "content t (lst s + 1 + i) = content s (lst s + 1 + i)" using na by (simp add: d(3) fwr_other)
  have Wi: "W ([0..<i] @ [i]) = W [0..<i] @ [(unat ?b, content t (unat ?a))]"
    unfolding a b ca by (simp add: W_def)
  have le: "card {k. dirty t k} \<le> card {k. dirty s k}" using room(1) by (rule card_dirty_mono) (simp add: d(6))
  have "dirty t (unat ?b) \<or> 1 + card {k. dirty t k} < NBUF"
    using room(3) i le nb by (auto simp: d(6) b dest!: spec [of _ i])
  moreover have "unat ?a < length (memdisk t)" "unat ?b < length (memdisk t)" "unat ?a \<noteq> unat ?b"
    using i geo dst a b by (fastforce simp: d(4))+
  moreover have "dirty t (unat ?a) \<or> card {k. dirty t k} < NBUF" using le room(2) by simp
  ultimately have "wpk (kbind (bread 1 ?a) (\<lambda>x. kbind (bread 1 ?b) (\<lambda>y.
      kbind (get_buf x b_data) (\<lambda>d. kseq (bset y (\<lambda>_. d)) (kseq (bwrite y) (kseq (brelse x) (brelse y)))))))
    (\<lambda>_. loop_inv s W ([0..<i] @ [i])) t"
    by (intro wpk_mono [OF bc.copy_install [OF d(1)] loop_inv_snoc [OF t Wi]])
  then show ?thesis by (simp add: install_one_def wpk_def run lf dev)
qed

lemma write_one_step:
  fixes s t :: "'z logst_scheme"
  defines "W \<equiv> map (\<lambda>i. (lst s + 1 + i, content s (unat (lh_block s ! i))))"
  assumes t: "loop_inv s W [0..<i] t" and dev: "log_dev s = 1" and i: "i < n"
    and geo: "lst s + 1 + n \<le> length (memdisk s)" "lst s + 1 + n \<le> 2 ^ 32"
    and dst: "\<forall>j<n. unat (lh_block s ! j) < length (memdisk s) \<and> unat (lh_block s ! j) \<notin> {lst s + 1..<lst s + 1 + n}"
    and room: "bio_inv {} s" "card {k. dirty s k} < NBUF" "\<forall>j<n. dirty s (unat (lh_block s ! j))"
  shows "wpk (write_one i) (\<lambda>_. loop_inv s W ([0..<i] @ [i])) t"
proof -
  let ?a = "log_start t + of_nat i + 1" and ?b = "lh_block t ! i"
  note d = loop_invD [OF t]
  note lf = bio_frame_log [OF d(2)]
  have keys: "fst ` set (W [0..<i]) = (\<lambda>j. lst s + 1 + j) ` {..<i}"
    by (force simp: W_def)
  have a: "unat ?a = lst s + 1 + i" using i geo by (simp add: lf log_block_no)
  have b: "unat ?b = unat (lh_block s ! i)" by (simp add: lf)
  have nb: "unat (lh_block s ! i) \<notin> fst ` set (W [0..<i])"
    unfolding keys using dst [rule_format, OF i] i by auto
  have cb: "content t (unat ?b) = content s (unat (lh_block s ! i))" using nb by (simp add: d(3) b fwr_other)
  have Wi: "W ([0..<i] @ [i]) = W [0..<i] @ [(unat ?a, content t (unat ?b))]"
    unfolding a cb by (simp add: W_def)
  have le: "card {k. dirty t k} \<le> card {k. dirty s k}" using room(1) by (rule card_dirty_mono) (simp add: d(6))
  have "dirty t (unat ?b) \<or> 1 + card {k. dirty t k} < NBUF"
    using room(3) i nb by (simp add: d(6) b)
  moreover have "unat ?a < length (memdisk t)" "unat ?b < length (memdisk t)" "unat ?a \<noteq> unat ?b"
    using i geo dst a b by (fastforce simp: d(4))+
  moreover have "dirty t (unat ?a) \<or> card {k. dirty t k} < NBUF" using le room(2) by simp
  ultimately have "wpk (kbind (bread 1 ?a) (\<lambda>y. kbind (bread 1 ?b) (\<lambda>x.
      kbind (get_buf x b_data) (\<lambda>d. kseq (bset y (\<lambda>_. d)) (kseq (bwrite y) (kseq (brelse x) (brelse y)))))))
    (\<lambda>_. loop_inv s W ([0..<i] @ [i])) t"
    by (intro wpk_mono [OF bc.copy_log [OF d(1)] loop_inv_snoc [OF t Wi]])
  then show ?thesis by (simp add: write_one_def wpk_def run lf dev)
qed

text \<open>The conditions under which the loops run, and the loops.\<close>

definition loop_pre :: "nat \<Rightarrow> 'z logst_scheme \<Rightarrow> bool" where
  "loop_pre n s \<longleftrightarrow> bio_inv {} s \<and> log_dev s = 1 \<and> cnt (lh_n s) = n \<and> n \<le> LOGSIZE
     \<and> lst s + 1 + n \<le> length (memdisk s) \<and> lst s + 1 + n \<le> 2 ^ 32 \<and> card {k. dirty s k} < NBUF
     \<and> (\<forall>j<n. unat (lh_block s ! j) < length (memdisk s) \<and> unat (lh_block s ! j) \<notin> {lst s..<lst s + 1 + n})
     \<and> (\<forall>j<n. \<forall>k<n. unat (lh_block s ! j) = unat (lh_block s ! k) \<longrightarrow> j = k)"

definition inst_w :: "'z logst_scheme \<Rightarrow> nat \<Rightarrow> (nat \<times> uchar list) list" where
  "inst_w s n = map (\<lambda>i. (unat (lh_block s ! i), content s (lst s + 1 + i))) [0..<n]"

definition log_w :: "'z logst_scheme \<Rightarrow> nat \<Rightarrow> (nat \<times> uchar list) list" where
  "log_w s n = map (\<lambda>i. (lst s + 1 + i, content s (unat (lh_block s ! i)))) [0..<n]"

definition wrote :: "'z logst_scheme \<Rightarrow> (nat \<times> uchar list) list \<Rightarrow> 'z logst_scheme \<Rightarrow> bool" where
  "wrote s W t \<longleftrightarrow> loop_inv s (\<lambda>_. W) [] t"

lemma install_trans_wp:
  fixes s :: "'z logst_scheme"
  assumes p: "loop_pre n s"
    and room: "\<forall>j<n. dirty s (unat (lh_block s ! j)) \<or> card {k. dirty s k} + 1 < NBUF"
  shows "wpk install_trans (\<lambda>_. wrote s (inst_w s n)) s"
proof -
  let ?W = "map (\<lambda>i. (unat (lh_block s ! i), content s (lst s + 1 + i)))"
  have "wpk (kfor [0..<n] install_one) (\<lambda>_. loop_inv s ?W [0..<n]) s"
  proof (rule wp_for)
    show "loop_inv s ?W [] s" using p by (simp add: loop_inv_def loop_pre_def)
    fix pre i rest and t :: "'z logst_scheme"
    assume sp: "[0..<n] = pre @ i # rest" and t: "loop_inv s ?W pre t"
    note u = upt_split [OF sp]
    show "wpk (install_one i) (\<lambda>_. loop_inv s ?W (pre @ [i])) t"
      unfolding u(1)
      by (rule install_one_step [OF t [unfolded u(1)] _ u(2) _ _ _ _ _ _ room])
        (use p in \<open>simp_all add: loop_pre_def\<close>)
  qed
  moreover have "wrote s (inst_w s n) = loop_inv s ?W [0..<n]"
    by (simp add: fun_eq_iff wrote_def loop_inv_def inst_w_def)
  ultimately show ?thesis using p by (simp add: install_trans_def wp log_index_def loop_pre_def)
qed

lemma write_log_wp:
  fixes s :: "'z logst_scheme"
  assumes p: "loop_pre n s" and room: "\<forall>j<n. dirty s (unat (lh_block s ! j))"
  shows "wpk write_log (\<lambda>_. wrote s (log_w s n)) s"
proof -
  let ?W = "map (\<lambda>i. (lst s + 1 + i, content s (unat (lh_block s ! i))))"
  have "wpk (kfor [0..<n] write_one) (\<lambda>_. loop_inv s ?W [0..<n]) s"
  proof (rule wp_for)
    show "loop_inv s ?W [] s" using p by (simp add: loop_inv_def loop_pre_def)
    fix pre i rest and t :: "'z logst_scheme"
    assume sp: "[0..<n] = pre @ i # rest" and t: "loop_inv s ?W pre t"
    note u = upt_split [OF sp]
    show "wpk (write_one i) (\<lambda>_. loop_inv s ?W (pre @ [i])) t"
      unfolding u(1)
      by (rule write_one_step [OF t [unfolded u(1)] _ u(2) _ _ _ _ _ room])
        (use p in \<open>simp_all add: loop_pre_def\<close>)
  qed
  moreover have "wrote s (log_w s n) = loop_inv s ?W [0..<n]"
    by (simp add: fun_eq_iff wrote_def loop_inv_def log_w_def)
  ultimately show ?thesis using p by (simp add: write_log_def wp log_index_def loop_pre_def)
qed

lemma write_head_wp:
  fixes s :: "'z logst_scheme"
  assumes inv: "bio_inv {} s" and dev: "log_dev s = 1" and n: "cnt (lh_n s) \<le> LOGSIZE"
    and st: "lst s < length (memdisk s)" and room: "card {k. dirty s k} < NBUF"
  shows "wpk write_head (\<lambda>_. wrote s [(lst s, head_put (lh_n s) (lh_block s) (content s (lst s)))]) s"
proof -
  let ?f = "head_put (lh_n s) (lh_block s)"
  have "length (?f (content s (lst s))) = BSIZE" using bc.cont_len [OF inv st] by simp
  from bc.update_block [where f = ?f, OF inv st this] room
  have "wpk (kbind (bread 1 (log_start s)) (\<lambda>b. kseq (bset b ?f) (kseq (bwrite b) (brelse b))))
    (\<lambda>_. wrote s [(lst s, ?f (content s (lst s)))]) s"
    by (auto elim!: wpk_mono simp: wrote_def loop_inv_def fun_eq_iff)
  then show ?thesis using n by (simp add: write_head_def wp dev log_index_def)
qed

section \<open>The fields of the log and the cache\<close>

lemma bio_upd_log:
  fixes s :: "'z logst_scheme"
  defines "P \<equiv> \<lambda>t. (\<forall>H. bio_inv H t = bio_inv H s) \<and> content t = content s \<and> dirty t = dirty s
    \<and> blk_of t = blk_of s \<and> dat_of t = dat_of s"
  shows "P (s\<lparr>lh_n := a\<rparr>)" "P (s\<lparr>lh_block := b\<rparr>)" "P (s\<lparr>log_outstanding := c\<rparr>)" "P (s\<lparr>log_committing := d\<rparr>)"
    "P (s\<lparr>log_start := e\<rparr>)" "P (s\<lparr>log_size := f\<rparr>)" "P (s\<lparr>log_dev := g\<rparr>)"
  unfolding P_def
  by (simp_all add: bio_inv_def bio_ok_def buf_ok_def sl_mine_def fun_eq_iff content_def has_def dirty_def
      blk_of_def dat_of_def cong: option.case_cong)

lemmas bio_upd_log_simps [simp] =
  bio_upd_log [THEN conjunct1, rule_format] bio_upd_log [THEN conjunct2, THEN conjunct1]
  bio_upd_log [THEN conjunct2, THEN conjunct2, THEN conjunct1]
  bio_upd_log [THEN conjunct2, THEN conjunct2, THEN conjunct2, THEN conjunct1]
  bio_upd_log [THEN conjunct2, THEN conjunct2, THEN conjunct2, THEN conjunct2]

lemma bio_frame_lh_n:
  fixes s t :: "'z logst_scheme"
  assumes "bio_frame s t"
  shows "bio_frame (s\<lparr>lh_n := n\<rparr>) (t\<lparr>lh_n := n\<rparr>)"
proof -
  have t: "t = s\<lparr>procs := procs t, slks := slks t, bufs := bufs t, memdisk := memdisk t, wtrace := wtrace t\<rparr>"
    using assms by (simp add: bio_frame_def)
  have "t\<lparr>lh_n := n\<rparr> = s\<lparr>lh_n := n, procs := procs t, slks := slks t, bufs := bufs t, memdisk := memdisk t,
      wtrace := wtrace t\<rparr>" by (subst t) simp
  moreover have "roused (procs s) (procs t)" "\<forall>i. slks t (InodeSL i) = slks s (InodeSL i)"
    using assms by (simp_all add: bio_frame_def)
  ultimately show ?thesis by (simp add: bio_frame_def)
qed

lemma wrote_lh_n: "wrote s W t \<Longrightarrow> wrote (s\<lparr>lh_n := n\<rparr>) W (t\<lparr>lh_n := n\<rparr>)"
  by (simp add: wrote_def loop_inv_def bio_frame_lh_n)

lemma wroteD:
  assumes "wrote s W t"
  shows "bio_inv {} t" "bio_frame s t" "content t = fwr W (content s)" "memdisk t = writes W (memdisk s)"
    "wtrace t = wtrace s @ W" "dirty t = (\<lambda>k. dirty s k \<and> k \<notin> fst ` set W)"
  using assms by (simp_all add: wrote_def loop_inv_def)

lemma wrote_trans:
  assumes st: "wrote s V t" and tu: "wrote t W u"
  shows "wrote s (V @ W) u"
proof -
  have "bio_frame s u" using wroteD(2) [OF st] wroteD(2) [OF tu] by (rule bio_frame_trans)
  then show ?thesis
    using wroteD [OF st] wroteD [OF tu] by (auto simp: wrote_def loop_inv_def image_Un)
qed

section \<open>The invariant of the log\<close>

text \<open>
  \<open>logged\<close>: the blocks of the running transaction, which are the pinned blocks of the cache. The
  log on the disk is empty except during a commit.
\<close>

definition logged :: "'z logst_scheme \<Rightarrow> nat list" where
  "logged s = map unat (take (cnt (lh_n s)) (lh_block s))"

definition log_geom :: "'z logst_scheme \<Rightarrow> bool" where
  "log_geom s \<longleftrightarrow> log_dev s = 1 \<and> length (lh_block s) = LOGSIZE \<and> 0 < unat (log_size s)
     \<and> unat (log_size s) \<le> LOGSIZE \<and> lst s + unat (log_size s) \<le> length (memdisk s)
     \<and> lst s + unat (log_size s) \<le> 2 ^ 32"

abbreviation log_area :: "'z logst_scheme \<Rightarrow> nat set" where
  "log_area s \<equiv> {lst s..<lst s + unat (log_size s)}"

definition log_inv :: "nat set \<Rightarrow> 'z logst_scheme \<Rightarrow> bool" where
  "log_inv H s \<longleftrightarrow> bio_inv H s \<and> log_geom s \<and> unat (lh_n s) < unat (log_size s)
     \<and> wf_blocks (lst s) (unat (log_size s)) (length (memdisk s)) (logged s)
     \<and> {k. dirty s k} = set (logged s) \<and> head_blocks (memdisk s ! lst s) = []"

lemma unat_lh_n:
  assumes "unat (n :: sint32) < unat (z :: sint32)" and "unat z \<le> LOGSIZE"
  shows "cnt n = unat n" and "cnt n < LOGSIZE" and "0 <s n \<longleftrightarrow> 0 < unat n"
proof -
  have n: "unat n < 2 ^ 31" using assms by (simp add: LOGSIZE_def MAXOPBLOCKS_def)
  show c: "cnt n = unat n" using n by (rule cnt_small)
  show "cnt n < LOGSIZE" using assms c by simp
  show "0 <s n \<longleftrightarrow> 0 < unat n" unfolding word_sless_alt sint_small [OF n] by (simp only: sint_0 of_nat_0_less_iff)
qed

section \<open>Commit\<close>

lemma commit_view:
  fixes c c0 :: "nat \<Rightarrow> uchar list"
  assumes w: "w = map (\<lambda>i. (st + 1 + i, c (bl ! i))) [0..<length bl] @ [(st, h)]
    @ map (\<lambda>i. (bl ! i, c (bl ! i))) [0..<length bl] @ [(st, h0)]"
    and hd: "head_blocks (c0 st) = []" "head_blocks h = bl" "head_blocks h0 = []" and d: "distinct bl"
    and bl: "\<forall>x\<in>set bl. x \<notin> {st..<st + sz}" "length bl < sz" and b: "b \<notin> {st..<st + sz}"
    and cl: "\<forall>x. x \<notin> set bl \<longrightarrow> x \<notin> {st..<st + sz} \<longrightarrow> c x = c0 x"
  shows "view st (fwr (take k w) c0) b = (if k \<le> length bl then c0 b else c b)"
    and "head_blocks (fwr (take k w) c0 st) \<in> {[], bl}"
proof -
  let ?n = "length bl" and ?V = "\<lambda>m. map (\<lambda>i. (st + 1 + i, c (bl ! i))) [0..<m]"
  let ?W = "\<lambda>m. map (\<lambda>i. (bl ! i, c (bl ! i))) [0..<m]"
  have W: "x \<notin> fst ` set (?W m)" if "x \<in> {st..<st + sz}" "m \<le> ?n" for x m
    using bl(1) that by (force dest: nth_mem)
  have V: "fst ` set (?V m) = {st + 1..<st + 1 + m}" for m
  proof -
    have "fst ` set (?V m) = (+) (st + 1) ` {0..<m}" by (simp add: image_image)
    also have "\<dots> = {0 + (st + 1)..<m + (st + 1)}" by (rule image_add_atLeastLessThan)
    finally show ?thesis by (simp add: ac_simps)
  qed
  have Vo: "fwr (?V m) c0 x = c0 x" if "x \<notin> {st + 1..<st + 1 + m}" for x m
    using that unfolding V [symmetric] by (rule fwr_other)
  have cb: "c0 b = c b" if "b \<notin> set bl" using cl that b by simp
  consider (before) "k \<le> ?n" | (middle) "?n < k" "k < 2 * ?n + 2" | (after) "2 * ?n + 2 \<le> k"
    by linarith
  then have "view st (fwr (take k w) c0) b = (if k \<le> length bl then c0 b else c b)
    \<and> head_blocks (fwr (take k w) c0 st) \<in> {[], bl}"
  proof cases
    case before
    then have tk: "take k w = ?V k" by (simp add: w take_map take_upt)
    have "fwr (?V k) c0 st = c0 st" "fwr (?V k) c0 b = c0 b"
      using b bl(2) before by (intro Vo; auto)+
    then show ?thesis using before hd(1) by (simp add: tk view_empty)
  next
    case middle
    define m where "m = k - ?n - 1"
    have between: "k = ?n + 1 + m" "m \<le> ?n" using middle by (simp_all add: m_def)
    then have tk: "take k w = ?V ?n @ [(st, h)] @ ?W m" by (simp add: w take_map take_upt)
    let ?c = "fwr (?W m) ((fwr (?V ?n) c0)(st := h))"
    have st: "?c st = h" using W [of st m] between(2) bl(2) by (simp add: fwr_other)
    have "view st ?c b = c b"
    proof (cases "b \<in> set bl")
      case True
      then obtain i where i: "i < ?n" "bl ! i = b" by (auto simp: in_set_conv_nth)
      have "view st ?c b = ?c (st + 1 + i)" using view_in [of ?c st i] st hd(2) d i by simp
      also have "\<dots> = fwr (?V ?n) c0 (st + 1 + i)" using W [of "st + 1 + i" m] between(2) bl(2) i by (simp add: fwr_other)
      also have "\<dots> = c b" using i by (intro fwr_at) (auto simp: distinct_map inj_on_def comp_def image_iff)
      finally show ?thesis .
    next
      case False
      then have "view st ?c b = ?c b" using st hd(2) by (intro view_out) simp
      also have "\<dots> = fwr (?V ?n) c0 b" using False between(2) b bl(2) by (subst fwr_other) auto
      also have "\<dots> = c0 b" using b bl(2) by (intro Vo) auto
      finally show ?thesis using cb [OF False] by simp
    qed
    then show ?thesis using middle st hd(2) unfolding tk by simp
  next
    case after
    then have tk: "take k w = ?V ?n @ [(st, h)] @ ?W ?n @ [(st, h0)]" by (simp add: w)
    let ?c = "(fwr (?W ?n) ((fwr (?V ?n) c0)(st := h)))(st := h0)"
    have "b \<noteq> st" using b bl(2) by auto
    have "fwr (?W ?n) ((fwr (?V ?n) c0)(st := h)) b = c b"
    proof (cases "b \<in> set bl")
      case True
      then obtain i where i: "i < ?n" "bl ! i = b" by (auto simp: in_set_conv_nth)
      then show ?thesis using d
        by (intro fwr_at) (auto simp: comp_def map_nth image_iff intro!: bexI [of _ i])
    next
      case False
      then have "fwr (?W ?n) ((fwr (?V ?n) c0)(st := h)) b = fwr (?V ?n) c0 b"
        using \<open>b \<noteq> st\<close> by (subst fwr_other) auto
      also have "\<dots> = c0 b" using b bl(2) by (intro Vo) auto
      finally show ?thesis using cb [OF False] by simp
    qed
    then show ?thesis using after hd(3) \<open>b \<noteq> st\<close> by (simp add: tk view_empty)
  qed
  then show "view st (fwr (take k w) c0) b = (if k \<le> length bl then c0 b else c b)"
    and "head_blocks (fwr (take k w) c0 st) \<in> {[], bl}" by blast+
qed

lemma take_map_nth: "map (\<lambda>i. f (xs ! i)) [0..<length xs] = map f xs"
  by (rule nth_equalityI) simp_all

lemma logged_nth:
  "i < length (logged s) \<Longrightarrow> logged s ! i = unat (lh_block s ! i)"
  by (simp add: logged_def)

lemma log_invD:
  fixes s :: "'z logst_scheme"
  assumes "log_inv H s"
  shows "bio_inv H s" "log_dev s = 1" "length (lh_block s) = LOGSIZE" "0 < unat (log_size s)"
    "unat (log_size s) \<le> LOGSIZE" "lst s + unat (log_size s) \<le> length (memdisk s)"
    "lst s + unat (log_size s) \<le> 2 ^ 32" "length (logged s) = unat (lh_n s)"
    "unat (lh_n s) < unat (log_size s)" "distinct (logged s)"
    "b \<in> set (logged s) \<Longrightarrow> b < length (memdisk s) \<and> b \<notin> log_area s"
    "{k. dirty s k} = set (logged s)" "head_blocks (memdisk s ! lst s) = []"
    "card {k. dirty s k} = unat (lh_n s)" "unat (lh_n s) + 1 < NBUF \<or> unat (lh_n s) + 1 = NBUF"
proof -
  have i: "log_geom s" "wf_blocks (lst s) (unat (log_size s)) (length (memdisk s)) (logged s)"
    "unat (lh_n s) < unat (log_size s)" "{k. dirty s k} = set (logged s)" "bio_inv H s"
    "head_blocks (memdisk s ! lst s) = []"
    using assms by (simp_all add: log_inv_def)
  then show "bio_inv H s" "log_dev s = 1" "length (lh_block s) = LOGSIZE" "0 < unat (log_size s)"
    "unat (log_size s) \<le> LOGSIZE" "lst s + unat (log_size s) \<le> length (memdisk s)"
    "lst s + unat (log_size s) \<le> 2 ^ 32" "unat (lh_n s) < unat (log_size s)" "distinct (logged s)"
    "b \<in> set (logged s) \<Longrightarrow> b < length (memdisk s) \<and> b \<notin> log_area s" "{k. dirty s k} = set (logged s)"
    "head_blocks (memdisk s ! lst s) = []"
    by (auto simp: log_geom_def wf_blocks_def)
  then show n: "length (logged s) = unat (lh_n s)" using unat_lh_n [of "lh_n s" "log_size s"] by (simp add: logged_def)
  show "card {k. dirty s k} = unat (lh_n s)"
    using i(4) n \<open>distinct (logged s)\<close> by (simp add: distinct_card)
  show "unat (lh_n s) + 1 < NBUF \<or> unat (lh_n s) + 1 = NBUF"
    using i(3) \<open>unat (log_size s) \<le> LOGSIZE\<close> by (auto simp: LOGSIZE_def MAXOPBLOCKS_def NBUF_def)
qed

lemma log_loop_pre:
  fixes s :: "'z logst_scheme"
  assumes s: "log_inv {} s" and t: "bio_inv {} t" "bio_frame s t" "length (memdisk t) = length (memdisk s)"
    "\<And>k. dirty t k \<Longrightarrow> dirty s k"
  shows "loop_pre (unat (lh_n s)) t"
proof -
  note i = log_invD [OF s] and f = bio_frame_log [OF t(2)]
  have "card {k. dirty t k} \<le> unat (lh_n s)" using card_dirty_mono [OF i(1) t(4)] i(14) by simp
  then have cd: "card {k. dirty t k} < NBUF" using i(15) by linarith
  have rg: "unat (lh_block s ! j) < length (memdisk s) \<and> unat (lh_block s ! j) \<notin> {lst s..<lst s + 1 + unat (lh_n s)}"
    if "j < unat (lh_n s)" for j
    using i(11) [of "logged s ! j"] that i(8,9) nth_mem [of j "logged s"] by (auto simp: logged_nth)
  have ds: "j = k" if "j < unat (lh_n s)" "k < unat (lh_n s)" "unat (lh_block s ! j) = unat (lh_block s ! k)" for j k
    using nth_eq_iff_index_eq [OF i(10), of j k] that i(8) by (simp add: logged_nth)
  note n = unat_lh_n [OF i(9,5)]
  show ?thesis
    unfolding loop_pre_def f t(3)
  proof (intro conjI)
    show "unat (lh_n s) \<le> LOGSIZE" "lst s + 1 + unat (lh_n s) \<le> length (memdisk s)"
      "lst s + 1 + unat (lh_n s) \<le> 2 ^ 32" using i(5,6,7,9) by linarith+
  qed (use t(1) i(2) n(1) cd rg ds in blast)+
qed

lemma wrote_fields:
  fixes s t :: "'z logst_scheme"
  assumes "wrote s W t"
  shows "log_start t = log_start s" "log_size t = log_size s" "log_dev t = log_dev s" "lh_n t = lh_n s"
    "lh_block t = lh_block s" "log_outstanding t = log_outstanding s" "log_committing t = log_committing s"
    "held t = held s" "cur t = cur s"
    "length (memdisk t) = length (memdisk s)" "dirty t k \<Longrightarrow> dirty s k"
  using bio_frame_log [OF wroteD(2) [OF assms]] wroteD(4,6) [OF assms] by simp_all

definition commit_w :: "'z logst_scheme \<Rightarrow> (nat \<times> uchar list) list" where
  "commit_w s = (let bl = logged s; h = head_put (lh_n s) (lh_block s) (content s (lst s)) in
     map (\<lambda>i. (lst s + 1 + i, content s (bl ! i))) [0..<length bl] @ [(lst s, h)]
     @ map (\<lambda>i. (bl ! i, content s (bl ! i))) [0..<length bl] @ [(lst s, head_put 0 (lh_block s) h)])"

lemma commit_writes:
  fixes s :: "'z logst_scheme"
  assumes s: "log_inv {} s" and n: "0 < unat (lh_n s)"
  shows "wpk commit (\<lambda>_. wrote (s\<lparr>lh_n := 0\<rparr>) (commit_w s)) s"
proof -
  note i = log_invD [OF s]
  let ?n = "unat (lh_n s)" and ?bl = "logged s" and ?c = "content s"
  define h where "h = head_put (lh_n s) (lh_block s) (?c (lst s))"
  have dj: "dirty s (unat (lh_block s ! j))" if "j < ?n" for j
    using i(8,12) nth_mem [of j ?bl] logged_nth [of j s] that by auto
  have area: "?bl ! j \<notin> log_area s" if "j < ?n" for j using i(8,11) nth_mem [of j ?bl] that by simp
  have cap: "card {k. dirty s k} < NBUF" using i(14,15) by linarith
  have st: "lst s < length (memdisk s)" using i(4,6) by linarith
  have V: "log_w s ?n = map (\<lambda>j. (lst s + 1 + j, ?c (?bl ! j))) [0..<?n]" (is "_ = ?V")
    by (simp add: log_w_def i(8) logged_nth)
  have Vst: "lst s \<notin> fst ` set ?V" by auto
  from write_log_wp [of ?n s] log_loop_pre [OF s i(1)] dj obtain s1
    where e1: "write_log s = Ok () s1" and w1: "wrote s ?V s1" unfolding V by (auto elim: wpkE)
  note f1 = wrote_fields [OF w1]
  have c1: "content s1 (lst s) = ?c (lst s)" using Vst by (simp add: wroteD(3) [OF w1] fwr_other)
  have "card {k. dirty s1 k} < NBUF" using card_dirty_mono [OF i(1), of s1] f1(11) cap by fastforce
  from write_head_wp [OF wroteD(1) [OF w1] _ _ _ this] unat_lh_n [OF i(9,5)] st obtain s2
    where e2: "write_head s1 = Ok () s2" and w2: "wrote s1 [(lst s, h)] s2"
    by (auto elim!: wpkE simp: f1(1-10) i(2) c1 h_def)
  note w12 = wrote_trans [OF w1 w2]
  note f2 = wrote_fields [OF w12] and d2 = wroteD [OF w12]
  have c2: "content s2 (lst s + 1 + j) = ?c (?bl ! j)" if "j < ?n" for j
  proof -
    have "fwr ?V ?c (lst s + 1 + j) = ?c (?bl ! j)"
      using that by (intro fwr_at) (auto simp: comp_def distinct_map inj_on_def)
    then show ?thesis by (simp add: d2(3))
  qed
  have W: "inst_w s2 ?n = map (\<lambda>j. (?bl ! j, ?c (?bl ! j))) [0..<?n]" (is "_ = ?W")
    using c2 by (simp add: inst_w_def f2(1,5) i(8) logged_nth)
  have room: "dirty s2 (unat (lh_block s2 ! j))" if j: "j < ?n" for j
  proof -
    have "unat (lh_block s ! j) \<notin> fst ` set (?V @ [(lst s, h)])"
      using area [OF j] j i(8,9) by (auto simp: logged_nth)
    then show ?thesis using dj [OF j] by (simp only: d2(6) f2(5)) simp
  qed
  have "loop_pre ?n s2" by (rule log_loop_pre [OF s d2(1,2) f2(10)]) (rule f2(11))
  then have "wpk install_trans (\<lambda>_. wrote s2 ?W) s2" unfolding W [symmetric]
    by (rule install_trans_wp) (use room in blast)
  then obtain s3 where e3: "install_trans s2 = Ok () s3" and w3: "wrote s2 ?W s3" by (auto elim: wpkE)
  note w13 = wrote_lh_n [OF wrote_trans [OF w12 w3], where n = 0]
  note f3 = wrote_fields [OF w13] and d3 = wroteD [OF w13]
  have "lst s \<notin> fst ` set ?W" using area i(4) by force
  then have c3: "content (s3\<lparr>lh_n := 0\<rparr>) (lst s) = h" unfolding d3(3) by (simp add: fwr_other)
  have "card {k. dirty (s3\<lparr>lh_n := 0\<rparr>) k} < NBUF"
    using card_dirty_mono [OF i(1), of "s3\<lparr>lh_n := 0\<rparr>"] f3(11) cap by fastforce
  from write_head_wp [OF d3(1) _ _ _ this] st obtain s4
    where e4: "write_head (s3\<lparr>lh_n := 0\<rparr>) = Ok () s4"
      and w4: "wrote (s3\<lparr>lh_n := 0\<rparr>) [(lst s, head_put 0 (lh_block s) h)] s4"
    using f3(1,3,4,5,10) c3 i(2) by (auto elim!: wpkE)
  have "commit s = Ok () s4"
    using unat_lh_n(3) [OF i(9,5)] n by (simp add: commit_def run e1 e2 e3 e4)
  moreover have "wrote (s\<lparr>lh_n := 0\<rparr>) (commit_w s) s4"
    using wrote_trans [OF w13 w4] by (simp add: commit_w_def Let_def h_def i(8))
  ultimately show ?thesis by (simp add: wpk_def)
qed

definition wf_disk :: "nat \<Rightarrow> nat \<Rightarrow> uchar list list \<Rightarrow> bool" where
  "wf_disk st sz d \<longleftrightarrow> wf_blocks st sz (length d) (head_blocks (d ! st))"

lemma view_cong:
  assumes "c st = c' st" and "c b = c' b" and "\<And>i. i < length (head_blocks (c st)) \<Longrightarrow> c (st + 1 + i) = c' (st + 1 + i)"
  shows "view st c b = view st c' b"
  using assms by (auto simp: view_def split: option.split dest!: first_index_SomeD(1))

lemma view_writes:
  assumes "st + sz \<le> length d" and "b < length d" and "wf_disk st sz (writes w d)"
  shows "view st ((!) (writes w d)) b = view st (fwr w ((!) d)) b"
proof (rule view_cong)
  have l: "length (head_blocks (writes w d ! st)) < sz" using assms(3) by (simp add: wf_disk_def wf_blocks_def)
  show "writes w d ! st = fwr w ((!) d) st" "writes w d ! b = fwr w ((!) d) b"
    using assms l by (simp_all add: writes_nth)
  fix i
  assume "i < length (head_blocks (writes w d ! st))"
  then show "writes w d ! (st + 1 + i) = fwr w ((!) d) (st + 1 + i)"
    using assms(1) l by (intro writes_nth) linarith
qed

lemma commit_prefix:
  fixes s :: "'z logst_scheme"
  assumes s: "log_inv {} s" and b: "b < length (memdisk s)" "b \<notin> log_area s"
  defines "d \<equiv> \<lambda>k. writes (take k (commit_w s)) (memdisk s)"
  shows "wf_disk (lst s) (unat (log_size s)) (d k)"
    and "view (lst s) ((!) (d k)) b = (if k \<le> length (logged s) then memdisk s ! b else content s b)"
proof -
  note i = log_invD [OF s]
  let ?bl = "logged s" and ?st = "lst s" and ?sz = "unat (log_size s)"
  let ?h = "head_put (lh_n s) (lh_block s) (content s ?st)"
  have st: "?st < length (memdisk s)" using i(4,6) by linarith
  have hl: "length (content s ?st) = BSIZE" by (rule bc.cont_len [OF i(1) st])
  have h: "head_blocks ?h = ?bl" "head_blocks (head_put 0 (lh_block s) ?h) = []"
    using unat_lh_n [OF i(9,5)] i(3) hl by (simp_all add: head_blocks_put logged_def)
  have w: "commit_w s = map (\<lambda>i. (?st + 1 + i, content s (?bl ! i))) [0..<length ?bl] @ [(?st, ?h)]
    @ map (\<lambda>i. (?bl ! i, content s (?bl ! i))) [0..<length ?bl] @ [(?st, head_put 0 (lh_block s) ?h)]"
    by (simp add: commit_w_def Let_def)
  define c where "c = (\<lambda>x. if x < length (memdisk s) then content s x else memdisk s ! x)"
  have w': "commit_w s = map (\<lambda>i. (?st + 1 + i, c (?bl ! i))) [0..<length ?bl] @ [(?st, ?h)]
    @ map (\<lambda>i. (?bl ! i, c (?bl ! i))) [0..<length ?bl] @ [(?st, head_put 0 (lh_block s) ?h)]"
    using i(11) [OF nth_mem] by (simp add: w c_def)
  have cl: "\<forall>x. x \<notin> set ?bl \<longrightarrow> x \<notin> log_area s \<longrightarrow> c x = memdisk s ! x"
    using bc.clean_cont [OF i(1)] i(12) by (auto simp: c_def)
  have bl: "\<forall>x\<in>set ?bl. x \<notin> log_area s" "length ?bl < ?sz" using i(8,9,11) by auto
  note v = commit_view [OF w' i(13) h i(10) bl _ cl, where k = k]
  have "d k ! ?st = fwr (take k (commit_w s)) ((!) (memdisk s)) ?st" unfolding d_def by (rule writes_nth [OF st])
  then have "head_blocks (d k ! ?st) \<in> {[], ?bl}" using v(2) [OF b(2)] by simp
  then show wf: "wf_disk ?st ?sz (d k)"
    using i(4,8-11) by (auto simp: wf_disk_def wf_blocks_def d_def)
  have "view ?st ((!) (d k)) b = view ?st (fwr (take k (commit_w s)) ((!) (memdisk s))) b"
    using i(6) b(1) wf unfolding d_def by (rule view_writes)
  then show "view ?st ((!) (d k)) b = (if k \<le> length ?bl then memdisk s ! b else content s b)"
    using v(1) [OF b(2)] b(1) by (simp add: c_def)
qed

lemma commit_ok:
  fixes s :: "'z logst_scheme"
  assumes s: "log_inv {} s"
  shows "\<exists>t. commit s = Ok () t \<and> log_inv {} t \<and> lh_n t = 0 \<and> logged t = []
    \<and> wtrace t = wtrace s @ (if 0 < unat (lh_n s) then commit_w s else [])
    \<and> memdisk t = writes (if 0 < unat (lh_n s) then commit_w s else []) (memdisk s)
    \<and> (\<forall>b<length (memdisk s). b \<notin> log_area s \<longrightarrow> content t b = content s b) \<and> bio_frame (s\<lparr>lh_n := 0\<rparr>) t"
proof (cases "0 < unat (lh_n s)")
  case False
  have "lh_n s = 0" using False by (simp add: unat_eq_0 [symmetric])
  moreover then have "commit s = Ok () s" by (simp add: commit_def run)
  moreover have eq: "s\<lparr>lh_n := 0\<rparr> = s" using calculation(1) by simp
  have "bio_frame (s\<lparr>lh_n := 0\<rparr>) s" unfolding eq by simp
  ultimately show ?thesis using s by (auto simp: logged_def)
next
  case True
  note i = log_invD [OF s]
  from commit_writes [OF s True] obtain t where e: "commit s = Ok () t"
    and w: "wrote (s\<lparr>lh_n := 0\<rparr>) (commit_w s) t" by (auto elim: wpkE)
  note f = wrote_fields [OF w] and d = wroteD [OF w]
  have lg: "logged t = []" by (simp add: logged_def f(4))
  have "fst ` set (commit_w s) \<supseteq> set (logged s)" by (force simp: commit_w_def Let_def in_set_conv_nth image_iff)
  then have nd: "dirty t = (\<lambda>_. False)" unfolding d(6) using i(12) by (intro ext) auto
  have st: "lst s < length (memdisk s)" using i(4,6) by linarith
  have "head_blocks (memdisk t ! lst s) = []"
  proof -
    have "memdisk t ! lst s = head_put 0 (lh_block s) (head_put (lh_n s) (lh_block s) (content s (lst s)))"
      using st by (simp add: d(4) commit_w_def Let_def)
    then show ?thesis using bc.cont_len [OF i(1) st] i(3) by (simp add: head_blocks_put)
  qed
  then have inv: "log_inv {} t"
    using i(2-7) d(1) f lg nd by (simp add: log_inv_def log_geom_def wf_blocks_def)
  have "content t b = content s b" if b: "b < length (memdisk s)" "b \<notin> log_area s" for b
  proof -
    have "content t b = memdisk t ! b"
      using bc.clean_cont [OF d(1), of b] b nd f(10) by simp
    also have "\<dots> = view (lst s) ((!) (memdisk t)) b"
      using \<open>head_blocks (memdisk t ! lst s) = []\<close> by (simp add: view_empty)
    also have "\<dots> = content s b"
      using commit_prefix(2) [OF s b, of "length (commit_w s)"] by (simp add: d(4) commit_w_def Let_def)
    finally show ?thesis .
  qed
  then show ?thesis using e inv f(4) lg d True by simp
qed

section \<open>Recovery\<close>

text \<open>A machine that has been started again: nothing is pinned, and the log on the disk is well formed.\<close>

definition fresh_log :: "'z logst_scheme \<Rightarrow> bool" where
  "fresh_log s \<longleftrightarrow> bio_inv {} s \<and> log_geom s \<and> (\<forall>k. \<not> dirty s k)
     \<and> wf_disk (lst s) (unat (log_size s)) (memdisk s)"

lemma read_head_ok:
  fixes s :: "'z logst_scheme"
  assumes s: "fresh_log s"
  defines "hb \<equiv> memdisk s ! lst s"
  defines "s' \<equiv> s\<lparr>lh_n := ld32 hb 0, lh_block := ld32s hb 4 (cnt (ld32 hb 0)) @ drop (cnt (ld32 hb 0)) (lh_block s)\<rparr>"
  shows "wpk read_head (\<lambda>_ t. wrote s' [] t) s"
proof -
  have inv: "bio_inv {} s" and g: "log_geom s" and nd: "\<And>k. \<not> dirty s k"
    and wf: "wf_disk (lst s) (unat (log_size s)) (memdisk s)"
    using s by (simp_all add: fresh_log_def)
  have st: "lst s < length (memdisk s)" and dev: "log_dev s = 1" using g by (simp_all add: log_geom_def)
  have n: "cnt (ld32 hb 0) \<le> LOGSIZE"
    using wf g by (simp add: wf_disk_def wf_blocks_def head_blocks_def hb_def log_geom_def)
  have ct: "content s (lst s) = hb" using bc.clean_cont [OF inv st nd] by (simp add: hb_def)
  from bc.rd_law [OF inv st] nd obtain b t where e1: "bread 1 (log_start s) s = Ok b t"
    and t: "bio_inv {b} t" "blk_of t b = lst s" "dat_of t b = hb" "content t = content s" "dirty t = dirty s"
      "memdisk t = memdisk s" "wtrace t = wtrace s" "bio_frame s t"
    by (auto elim!: wpkE simp: NBUF_def ct)
  have dat: "b_data (bufs t ! b) = hb" using t(3) by (simp add: dat_of_def)
  let ?t = "t\<lparr>lh_n := ld32 hb 0, lh_block := ld32s hb 4 (cnt (ld32 hb 0)) @ drop (cnt (ld32 hb 0)) (lh_block t)\<rparr>"
  have "bio_inv {b} ?t" "dat_of ?t b = memdisk ?t ! blk_of ?t b" using t by (simp_all add: hb_def)
  with bc.rl_law [of "{b}" ?t b] obtain u where e2: "brelse b ?t = Ok () u"
    and u: "bio_inv {} u" "content u = content ?t" "dirty u = dirty ?t" "memdisk u = memdisk ?t"
      "wtrace u = wtrace ?t" "bio_frame ?t u"
    by (auto elim!: wpkE)
  have "bio_frame s' ?t"
  proof -
    have eq: "t = s\<lparr>procs := procs t, slks := slks t, bufs := bufs t, memdisk := memdisk t, wtrace := wtrace t\<rparr>"
      and r: "roused (procs s) (procs t)" "\<forall>i. slks t (InodeSL i) = slks s (InodeSL i)"
      using t(8) by (simp_all add: bio_frame_def)
    have "?t = s'\<lparr>procs := procs t, slks := slks t, bufs := bufs t, memdisk := memdisk t, wtrace := wtrace t\<rparr>"
      by (subst eq) (simp add: s'_def bio_frame_log [OF t(8)])
    then show ?thesis using r by (simp add: bio_frame_def s'_def)
  qed
  then have "bio_frame s' u" using u(6) by (rule bio_frame_trans)
  then have "wrote s' [] u" using u t by (simp add: wrote_def loop_inv_def s'_def)
  moreover have "read_head s = Ok () u"
    using e2 n by (simp add: read_head_def run dev e1 dat log_index_def)
  ultimately show ?thesis by (simp add: wpk_def)
qed

lemma recover_view:
  fixes c :: "nat \<Rightarrow> uchar list"
  assumes w: "w = map (\<lambda>i. (bl ! i, c (st + 1 + i))) [0..<length bl] @ [(st, h0)]"
    and hd: "head_blocks (c st) = bl" "head_blocks h0 = []" and d: "distinct bl"
    and bl: "\<forall>x\<in>set bl. x \<notin> {st..<st + sz}" "length bl < sz" and b: "b \<notin> {st..<st + sz}"
  shows "view st (fwr (take k w) c) b = view st c b"
    and "head_blocks (fwr (take k w) c st) \<in> {[], bl}"
proof -
  let ?n = "length bl" and ?W = "\<lambda>m. map (\<lambda>i. (bl ! i, c (st + 1 + i))) [0..<m]"
  have W: "fwr (?W m) c x = c x" if "x \<in> {st..<st + sz}" "m \<le> ?n" for x m
    using bl(1) that by (intro fwr_other) (force dest: nth_mem)
  have "view st (fwr (take k w) c) b = view st c b \<and> head_blocks (fwr (take k w) c st) \<in> {[], bl}"
  proof (cases "k \<le> ?n")
    case True
    then have tk: "take k w = ?W k" by (simp add: w take_map take_upt)
    have st: "fwr (?W k) c st = c st" using W True bl(2) by simp
    have "view st (fwr (?W k) c) b = view st c b"
    proof (cases "b \<in> set bl")
      case b: True
      then obtain i where i: "i < ?n" "bl ! i = b" by (auto simp: in_set_conv_nth)
      have "fwr (?W k) c (st + 1 + i) = c (st + 1 + i)" using W True bl(2) i by simp
      then show ?thesis using view_in [of "fwr (?W k) c" st i] view_in [of c st i] st hd(1) d i by simp
    next
      case False
      then have "fwr (?W k) c b = c b" using True by (intro fwr_other) (auto dest: nth_mem)
      then show ?thesis using False st hd(1) by (simp add: view_out)
    qed
    then show ?thesis using st hd(1) by (simp add: tk)
  next
    case False
    then have tk: "take k w = ?W ?n @ [(st, h0)]" by (simp add: w)
    have "b \<noteq> st" using b bl(2) by auto
    have "fwr (?W ?n) c b = view st c b"
    proof (cases "b \<in> set bl")
      case b: True
      then obtain i where i: "i < ?n" "bl ! i = b" by (auto simp: in_set_conv_nth)
      then have "fwr (?W ?n) c b = c (st + 1 + i)"
        using d by (intro fwr_at) (auto simp: comp_def map_nth image_iff intro!: bexI [of _ i])
      then show ?thesis using view_in [of c st i] hd(1) d i by simp
    next
      case False
      then have "fwr (?W ?n) c b = c b" by (intro fwr_other) (auto dest: nth_mem)
      then show ?thesis using False hd(1) by (simp add: view_out)
    qed
    then show ?thesis using hd(2) \<open>b \<noteq> st\<close> by (simp add: tk view_empty)
  qed
  then show "view st (fwr (take k w) c) b = view st c b"
    and "head_blocks (fwr (take k w) c st) \<in> {[], bl}" by blast+
qed

lemma fresh_logD:
  fixes s :: "'z logst_scheme"
  assumes "fresh_log s"
  defines "bl \<equiv> head_blocks (memdisk s ! lst s)"
  shows "bio_inv {} s" "log_dev s = 1" "length (lh_block s) = LOGSIZE" "unat (log_size s) \<le> LOGSIZE"
    "lst s + unat (log_size s) \<le> length (memdisk s)" "lst s + unat (log_size s) \<le> 2 ^ 32" "\<not> dirty s k"
    "length bl < unat (log_size s)" "distinct bl" "b \<in> set bl \<Longrightarrow> b < length (memdisk s) \<and> b \<notin> log_area s"
    "lst s < length (memdisk s)"
  using assms by (auto simp: fresh_log_def log_geom_def wf_disk_def wf_blocks_def)

definition recover_w :: "'z logst_scheme \<Rightarrow> (nat \<times> uchar list) list" where
  "recover_w s = (let hb = memdisk s ! lst s; bl = head_blocks hb; n = cnt (ld32 hb 0) in
     map (\<lambda>i. (bl ! i, memdisk s ! (lst s + 1 + i))) [0..<length bl]
     @ [(lst s, head_put 0 (ld32s hb 4 n @ drop n (lh_block s)) hb)])"

lemma recover_writes:
  fixes s :: "'z logst_scheme"
  assumes s: "fresh_log s"
  shows "\<exists>bl t. length bl = LOGSIZE \<and> recover_from_log s = Ok () t
    \<and> wrote (s\<lparr>lh_block := bl, lh_n := 0\<rparr>) (recover_w s) t"
proof -
  note i = fresh_logD [OF s]
  define hb where "hb = memdisk s ! lst s"
  define n where "n = cnt (ld32 hb 0)"
  let ?bl = "head_blocks hb" and ?l = "ld32s hb 4 n @ drop n (lh_block s)"
  define s' where "s' = s\<lparr>lh_n := ld32 hb 0, lh_block := ?l\<rparr>"
  have n: "length ?bl = n" by (simp add: head_blocks_def n_def)
  have nz: "n < unat (log_size s)" using i(8) n by (simp add: hb_def)
  have nth: "unat (lh_block s' ! j) = ?bl ! j" if "j < n" for j
    using that by (simp add: s'_def nth_append head_blocks_def n_def)
  from read_head_ok [OF s] obtain t1 where e1: "read_head s = Ok () t1" and w1: "wrote s' [] t1"
    by (auto elim!: wpkE simp: s'_def n_def hb_def)
  note f1 = wrote_fields [OF w1] and d1 = wroteD [OF w1]
  have nd: "dirty t1 k = False" for k using i(7) [of k] by (simp add: d1(6) s'_def)
  have c1: "content t1 k = memdisk s ! k" if "k < length (memdisk s)" for k
    using bc.clean_cont [OF i(1) that i(7)] by (simp add: d1(3) s'_def)
  have pre: "loop_pre n t1"
    unfolding loop_pre_def f1(1-10)
  proof (intro conjI allI impI)
    show "bio_inv {} t1" by (rule d1(1))
    show "log_dev s' = 1" "cnt (lh_n s') = n" "card {k. dirty t1 k} < NBUF"
      using i(2) nd by (simp_all add: s'_def n_def NBUF_def)
    show "n \<le> LOGSIZE" "lst s' + 1 + n \<le> length (memdisk s')" "lst s' + 1 + n \<le> 2 ^ 32"
      using nz i(4,5,6) by (simp_all add: s'_def)
    fix j
    assume j: "j < n"
    then have m: "?bl ! j \<in> set ?bl" using n by simp
    show "unat (lh_block s' ! j) < length (memdisk s')" "unat (lh_block s' ! j) \<notin> {lst s'..<lst s' + 1 + n}"
      unfolding nth [OF j] using i(10) [OF m [unfolded hb_def]] nz by (auto simp: s'_def hb_def)
    fix k
    assume "k < n" "unat (lh_block s' ! j) = unat (lh_block s' ! k)"
    then show "j = k"
      using nth_eq_iff_index_eq [OF i(9), of j k] j n unfolding nth [OF j] nth [OF \<open>k < n\<close>] by (simp add: hb_def)
  qed
  let ?W = "map (\<lambda>i. (?bl ! i, memdisk s ! (lst s + 1 + i))) [0..<n]"
  have "lst s + 1 + j < length (memdisk s)" if "j < n" for j using that nz i(5) by simp
  then have W: "inst_w t1 n = ?W"
    using nth c1 by (simp add: inst_w_def f1(1,5) s'_def)
  have "wpk install_trans (\<lambda>_. wrote t1 ?W) t1"
    unfolding W [symmetric] by (rule install_trans_wp [OF pre]) (simp add: nd NBUF_def)
  then obtain t2 where e2: "install_trans t1 = Ok () t2" and w2: "wrote t1 ?W t2" by (auto elim: wpkE)
  have w12: "wrote (s'\<lparr>lh_n := 0\<rparr>) ?W (t2\<lparr>lh_n := 0\<rparr>)"
    using wrote_lh_n [OF wrote_trans [OF w1 w2]] by simp
  note f2 = wrote_fields [OF w12] and d2 = wroteD [OF w12]
  have "lst s \<notin> fst ` set ?W"
  proof
    assume "lst s \<in> fst ` set ?W"
    then obtain j where "j < n" "lst s = ?bl ! j" by auto
    then have "lst s \<in> set ?bl" using n by simp
    then show False using i(8,10) [unfolded hb_def [symmetric]] by fastforce
  qed
  then have c2: "content (t2\<lparr>lh_n := 0\<rparr>) (lst s) = hb"
    unfolding d2(3) using bc.clean_cont [OF i(1,11,7)] by (simp add: fwr_other s'_def hb_def)
  have "card {k. dirty (t2\<lparr>lh_n := 0\<rparr>) k} < NBUF" using i(7) unfolding d2(6) by (simp add: s'_def NBUF_def)
  from write_head_wp [OF d2(1) _ _ _ this] i(2,11) c2 obtain t3
    where e3: "write_head (t2\<lparr>lh_n := 0\<rparr>) = Ok () t3"
      and w3: "wrote (t2\<lparr>lh_n := 0\<rparr>) [(lst s, head_put 0 ?l hb)] t3"
    unfolding f2(1-10) by (auto elim!: wpkE simp: s'_def)
  have "wrote (s'\<lparr>lh_n := 0\<rparr>) (recover_w s) t3"
    using wrote_trans [OF w12 w3] n by (simp add: recover_w_def Let_def hb_def n_def)
  moreover have "s'\<lparr>lh_n := 0\<rparr> = s\<lparr>lh_block := ?l, lh_n := 0\<rparr>" by (simp add: s'_def)
  moreover have "recover_from_log s = Ok () t3" by (simp add: recover_from_log_def run e1 e2 e3)
  moreover have "length ?l = LOGSIZE" using i(3,4) nz by simp
  ultimately show ?thesis by metis
qed

lemma recover_ok:
  fixes s :: "'z logst_scheme"
  assumes s: "fresh_log s"
  defines "d \<equiv> \<lambda>k. writes (take k (recover_w s)) (memdisk s)"
  shows "\<exists>t. recover_from_log s = Ok () t \<and> log_inv {} t \<and> lh_n t = 0 \<and> wtrace t = wtrace s @ recover_w s
      \<and> memdisk t = writes (recover_w s) (memdisk s) \<and> log_start t = log_start s \<and> log_size t = log_size s
      \<and> (\<forall>b<length (memdisk s). b \<notin> log_area s \<longrightarrow>
           content t b = view (lst s) ((!) (memdisk s)) b \<and> memdisk t ! b = view (lst s) ((!) (memdisk s)) b)"
    and "b < length (memdisk s) \<Longrightarrow> b \<notin> log_area s \<Longrightarrow>
      view (lst s) ((!) (d k)) b = view (lst s) ((!) (memdisk s)) b"
    and "wf_disk (lst s) (unat (log_size s)) (d k)"
proof -
  note i = fresh_logD [OF s]
  let ?st = "lst s" and ?sz = "unat (log_size s)" and ?bl = "head_blocks (memdisk s ! lst s)"
  have hl: "length (memdisk s ! ?st) = BSIZE"
    using bc.cont_len [OF i(1,11)] bc.clean_cont [OF i(1,11,7)] by simp
  obtain bl t where bl: "length bl = LOGSIZE" and e: "recover_from_log s = Ok () t"
    and w: "wrote (s\<lparr>lh_block := bl, lh_n := 0\<rparr>) (recover_w s) t"
    using recover_writes [OF s] by blast
  note f = wrote_fields [OF w] and d = wroteD [OF w]
  define h0 where "h0 = (let hb = memdisk s ! ?st; n = cnt (ld32 hb 0) in
    head_put 0 (ld32s hb 4 n @ drop n (lh_block s)) hb)"
  have rw: "recover_w s = map (\<lambda>i. (?bl ! i, memdisk s ! (?st + 1 + i))) [0..<length ?bl] @ [(?st, h0)]"
    by (simp add: recover_w_def h0_def Let_def)
  have "cnt (ld32 (memdisk s ! ?st) 0) < LOGSIZE" using i(4,8) by (simp add: head_blocks_def)
  then have h0: "head_blocks h0 = []" using hl i(3) by (simp add: h0_def Let_def head_blocks_put)
  have bl': "\<forall>x\<in>set ?bl. x \<notin> log_area s" "length ?bl < ?sz" using i(8,10) by auto
  note v = recover_view [OF rw refl h0 i(9) bl', where k = k]
  have "d k ! ?st = fwr (take k (recover_w s)) ((!) (memdisk s)) ?st" for k
    unfolding d_def by (rule writes_nth [OF i(11)])
  moreover have "head_blocks (fwr (take k (recover_w s)) ((!) (memdisk s)) ?st) \<in> {[], ?bl}" for k
    by (rule recover_view(2) [OF rw refl h0 i(9) bl', where b = "?st + ?sz"]) simp
  ultimately have hb: "head_blocks (d k ! ?st) \<in> {[], ?bl}" for k by simp
  have wf: "wf_disk ?st ?sz (d k)" for k
    using hb [of k] i(8-10) by (auto simp: wf_disk_def wf_blocks_def d_def)
  then show "wf_disk ?st ?sz (d k)" .
  have vw: "view ?st ((!) (d k)) b = view ?st ((!) (memdisk s)) b" if "b < length (memdisk s)" "b \<notin> log_area s" for b k
    using view_writes [OF i(5) that(1), of "take k (recover_w s)"] wf [of k]
      recover_view(1) [OF rw refl h0 i(9) bl' that(2), where k = k] by (simp add: d_def)
  then show "b < length (memdisk s) \<Longrightarrow> b \<notin> log_area s \<Longrightarrow>
      view ?st ((!) (d k)) b = view ?st ((!) (memdisk s)) b" .
  have hd: "head_blocks (memdisk t ! ?st) = []"
    using i(11) h0 by (simp add: d(4) rw)
  have nd: "dirty t = (\<lambda>_. False)" using i(7) by (simp add: d(6))
  have inv: "log_inv {} t"
    using i(2-6,8) bl d(1) f nd hd by (simp add: log_inv_def log_geom_def wf_blocks_def logged_def)
  have "memdisk t ! b = view ?st ((!) (memdisk s)) b" if b: "b < length (memdisk s)" "b \<notin> log_area s" for b
  proof -
    have "memdisk t ! b = view ?st ((!) (memdisk t)) b" using hd by (simp add: view_empty)
    then show ?thesis using vw [OF b, of "length (recover_w s)"] by (simp add: d(4) d_def)
  qed
  moreover have "content t b = memdisk t ! b" if "b < length (memdisk s)" for b
    using bc.clean_cont [OF d(1), of b] that nd f(10) by simp
  ultimately show "\<exists>t. recover_from_log s = Ok () t \<and> log_inv {} t \<and> lh_n t = 0 \<and> wtrace t = wtrace s @ recover_w s
      \<and> memdisk t = writes (recover_w s) (memdisk s) \<and> log_start t = log_start s \<and> log_size t = log_size s
      \<and> (\<forall>b<length (memdisk s). b \<notin> log_area s \<longrightarrow>
           content t b = view ?st ((!) (memdisk s)) b \<and> memdisk t ! b = view ?st ((!) (memdisk s)) b)"
    using e inv f d by (intro exI [of _ t]) simp
qed

section \<open>Logging a block\<close>

lemma small_sle: "unat (a :: sint32) < 2 ^ 31 \<Longrightarrow> unat b < 2 ^ 31 \<Longrightarrow> a \<le>s b \<longleftrightarrow> unat a \<le> unat b"
  and small_sless: "unat a < 2 ^ 31 \<Longrightarrow> unat b < 2 ^ 31 \<Longrightarrow> a <s b \<longleftrightarrow> unat a < unat b"
  by (simp_all only: word_sle_eq word_sless_alt sint_small of_nat_le_iff of_nat_less_iff)

lemma log_write_ok:
  fixes s :: "'z logst_scheme"
  assumes s: "log_inv H s" and b: "b \<in> H" and out: "blk_of s b \<notin> log_area s" "blk_of s b < length (memdisk s)"
    and room: "unat (lh_n s) + 1 < unat (log_size s)" and op: "1 \<le>s log_outstanding s"
  shows "\<exists>t. log_write b s = Ok () t \<and> log_inv H t
    \<and> logged t = (if blk_of s b \<in> set (logged s) then logged s else logged s @ [blk_of s b])
    \<and> content t = content s \<and> dirty t = (dirty s)(blk_of s b := True) \<and> memdisk t = memdisk s \<and> wtrace t = wtrace s
    \<and> (\<forall>i. blk_of t i = blk_of s i \<and> dat_of t i = dat_of s i)
    \<and> t = s\<lparr>bufs := bufs t, lh_n := lh_n t, lh_block := lh_block t\<rparr>"
proof -
  note i = log_invD [OF s]
  obtain ord where ok: "bio_ok ord H s" using i(1) by (auto simp: bio_inv_def)
  have hl: "held s = {}" by (rule bio_okD(3) [OF ok])
  let ?n = "unat (lh_n s)" and ?bno = "b_blockno (bufs s ! b)"
  note n = unat_lh_n [OF i(9,5)]
  have small: "unat (log_size s) < 2 ^ 31" "?n < 2 ^ 31" "?n < LOGSIZE"
    using i(5,9) by (simp_all add: LOGSIZE_def MAXOPBLOCKS_def)
  have "1 \<le> log_size s" using i(4) by (simp add: word_le_nat_alt)
  then have sz1: "unat (log_size s - 1) = unat (log_size s) - 1" by (simp add: unat_sub)
  have LS: "unat (of_nat LOGSIZE :: sint32) = LOGSIZE" by (simp add: LOGSIZE_def MAXOPBLOCKS_def)
  have g1: "\<not> of_nat LOGSIZE \<le>s lh_n s"
    using small small_sle [of "of_nat LOGSIZE" "lh_n s"] LS by (simp add: LOGSIZE_def MAXOPBLOCKS_def)
  have g2: "\<not> log_size s - 1 \<le>s lh_n s"
    using small small_sle [of "log_size s - 1" "lh_n s"] sz1 room by simp
  have g3: "\<not> log_outstanding s <s 1" using op by (simp add: word_sle_eq word_sless_alt)
  define j where "j = (case first_index (\<lambda>x. x = ?bno) (take ?n (lh_block s)) of Some i \<Rightarrow> i | None \<Rightarrow> ?n)"
  define s1 where "s1 = s\<lparr>lh_block := (lh_block s)[j := ?bno], lh_n := (if j = ?n then lh_n s + 1 else lh_n s)\<rparr>"
  have "bio_ok ord H s1 = bio_ok ord H s" by (simp add: s1_def bio_ok_def buf_ok_def sl_mine_def)
  then have ok1: "bio_ok ord H s1" using ok by simp
  from mark_dirty_ok [OF ok1 b] obtain t where t: "upd_buf b (\<lambda>B. B\<lparr>b_dirty := True\<rparr>) s1 = Ok () t" "bio_ok ord H t"
    "memdisk t = memdisk s1" "wtrace t = wtrace s1" "\<forall>k. content t k = content s1 k"
    "\<forall>k. dirty t k = (dirty s1 k \<or> k = unat (b_blockno (bufs s1 ! b)))"
    "bufs t ! b = (bufs s1 ! b)\<lparr>b_dirty := True\<rparr>" "\<forall>i. i \<noteq> b \<longrightarrow> bufs t ! i = bufs s1 ! i" "t = s1\<lparr>bufs := bufs t\<rparr>"
    by (elim exE conjE)
  have tj: "of_nat j = lh_n s \<longleftrightarrow> j = ?n"
  proof -
    have "j \<le> ?n" unfolding j_def by (auto split: option.split dest: first_index_SomeD(1))
    then have "unat (of_nat j :: sint32) = j" using small(2) by simp
    then show ?thesis by (simp only: word_unat_eq_iff)
  qed
  have run: "log_write b s = Ok () t"
  proof -
    have "t = s1\<lparr>bufs := (bufs s)[b := (bufs s ! b)\<lparr>b_dirty := True\<rparr>]\<rparr>"
      using t(1) by (simp add: s1_def)
    moreover have jj: "(case first_index (\<lambda>x. x = ?bno) (take (cnt (lh_n s)) (lh_block s)) of
        Some i \<Rightarrow> i | None \<Rightarrow> cnt (lh_n s)) = j" unfolding n(1) j_def by (rule refl)
    ultimately show ?thesis
      using g1 g2 g3 by (cases "j = ?n") (simp_all add: log_write_def run s1_def hl held_none jj tj)
  qed
  have bl: "blk_of s b = unat ?bno" by (simp add: blk_of_def)
  have sub: "take ?n (lh_block s) ! m = lh_block s ! m" if "m < ?n" for m using that by simp
  have lt: "logged t = (if blk_of s b \<in> set (logged s) then logged s else logged s @ [blk_of s b])"
  proof (cases "first_index (\<lambda>x. x = ?bno) (take ?n (lh_block s))")
    case None
    then have j: "j = ?n" by (simp add: j_def)
    have "?bno \<notin> set (take ?n (lh_block s))" using None by (auto simp: first_index_None)
    then have "blk_of s b \<notin> set (logged s)" by (auto simp: bl logged_def n(1) dest!: word_unat_eq_iff [THEN iffD2])
    moreover have "unat (lh_n s + 1) = Suc ?n" using small(2) by (simp add: unat_word_ariths)
    then have "cnt (lh_n s + 1) = Suc ?n" using small(3) by (subst cnt_small) (simp_all add: LOGSIZE_def MAXOPBLOCKS_def)
    then have "logged t = logged s @ [blk_of s b]"
      using i(3) small(3) by (subst t(9)) (simp add: logged_def s1_def j n(1) bl take_Suc_conv_app_nth)
    ultimately show ?thesis by simp
  next
    case (Some m)
    then have m: "m < ?n" "lh_block s ! m = ?bno" using first_index_SomeD [OF Some] by auto
    have j: "j = m" using Some by (simp add: j_def)
    have "?bno \<in> set (take ?n (lh_block s))" using m i(3) small(3) by (auto simp: in_set_conv_nth intro!: exI [of _ m])
    then have "blk_of s b \<in> set (logged s)" by (simp add: bl logged_def n(1))
    moreover have "(lh_block s)[m := ?bno] = lh_block s" using m(2) by (metis list_update_id)
    then have "logged t = logged s" using m(1) by (subst t(9)) (simp add: logged_def s1_def j)
    ultimately show ?thesis by simp
  qed
  have ln: "unat (lh_n t) < unat (log_size s)"
  proof -
    have "unat (lh_n s + 1) = Suc ?n" using small(2) by (simp add: unat_word_ariths)
    then show ?thesis using room by (subst t(9)) (simp add: s1_def)
  qed
  have bs: "bufs s1 = bufs s" "content s1 = content s" "dirty s1 = dirty s" "memdisk s1 = memdisk s" "wtrace s1 = wtrace s"
    by (simp_all add: s1_def)
  have dt: "dirty t = (dirty s)(blk_of s b := True)" using t(6) by (auto simp: bs bl fun_eq_iff)
  have ft: "log_start t = log_start s" "log_size t = log_size s" "log_dev t = log_dev s" "length (lh_block t) = LOGSIZE"
    by (subst t(9), simp add: s1_def i(3))+
  have "bio_inv H t" using t(2) by (auto simp: bio_inv_def)
  moreover have "wf_blocks (lst s) (unat (log_size s)) (length (memdisk s)) (logged t)"
    using i(8-11) out room by (auto simp: wf_blocks_def lt)
  moreover have "{k. dirty t k} = set (logged t)" unfolding dt lt using i(12) by auto
  ultimately have "log_inv H t"
    unfolding log_inv_def log_geom_def ft t(3) bs using i(2-7,13) ln by simp
  moreover have "blk_of t k = blk_of s k \<and> dat_of t k = dat_of s k" for k
    using t(7,8) by (cases "k = b") (simp_all add: blk_of_def dat_of_def bs)
  moreover have "lh_n t = lh_n s1" "lh_block t = lh_block s1" by (subst t(9), simp)+
  then have "t = s\<lparr>bufs := bufs t, lh_n := lh_n t, lh_block := lh_block t\<rparr>"
    by (subst t(9)) (simp add: s1_def)
  ultimately show ?thesis using run lt dt t(3,4,5) bs by (intro exI [of _ t]) (simp add: fun_eq_iff)
qed

text \<open>What the operations inside a transaction leave alone.\<close>

definition log_frame :: "'z logst_scheme \<Rightarrow> 'z logst_scheme \<Rightarrow> bool" where
  "log_frame s t \<longleftrightarrow> bio_frame (s\<lparr>lh_n := lh_n t, lh_block := lh_block t\<rparr>) t"

lemma bio_frame_lh:
  fixes s t :: "'z logst_scheme"
  assumes "bio_frame s t"
  shows "bio_frame (s\<lparr>lh_n := n, lh_block := bl\<rparr>) (t\<lparr>lh_n := n, lh_block := bl\<rparr>)"
proof -
  have t: "t = s\<lparr>procs := procs t, slks := slks t, bufs := bufs t, memdisk := memdisk t, wtrace := wtrace t\<rparr>"
    using assms by (simp add: bio_frame_def)
  have "t\<lparr>lh_n := n, lh_block := bl\<rparr> = s\<lparr>lh_n := n, lh_block := bl, procs := procs t, slks := slks t,
      bufs := bufs t, memdisk := memdisk t, wtrace := wtrace t\<rparr>" by (subst t) simp
  moreover have "roused (procs s) (procs t)" "\<forall>i. slks t (InodeSL i) = slks s (InodeSL i)"
    using assms by (simp_all add: bio_frame_def)
  ultimately show ?thesis by (simp add: bio_frame_def)
qed

lemma log_frame_bio:
  fixes s t :: "'z logst_scheme"
  assumes "bio_frame s t"
  shows "log_frame s t"
proof -
  have "s\<lparr>lh_n := lh_n t, lh_block := lh_block t\<rparr> = s" using bio_frame_log [OF assms] by simp
  then show ?thesis using assms by (simp add: log_frame_def)
qed

lemma log_frame_trans:
  fixes s t u :: "'z logst_scheme"
  assumes "log_frame s t" and "log_frame t u"
  shows "log_frame s u"
proof -
  have "bio_frame (s\<lparr>lh_n := lh_n u, lh_block := lh_block u\<rparr>) (t\<lparr>lh_n := lh_n u, lh_block := lh_block u\<rparr>)"
    using bio_frame_lh [OF assms(1) [unfolded log_frame_def], where n = "lh_n u" and bl = "lh_block u"] by simp
  then show ?thesis using assms(2) bio_frame_trans unfolding log_frame_def by blast
qed

lemma log_frame_bufs:
  fixes s t :: "'z logst_scheme"
  assumes t: "t = s\<lparr>bufs := bufs t, lh_n := lh_n t, lh_block := lh_block t\<rparr>"
  shows "log_frame s t"
proof -
  have f: "procs t = procs s" "slks t = slks s" "memdisk t = memdisk s" "wtrace t = wtrace s"
    by (subst t, simp)+
  have "t = s\<lparr>lh_n := lh_n t, lh_block := lh_block t, procs := procs t, slks := slks t, bufs := bufs t,
      memdisk := memdisk t, wtrace := wtrace t\<rparr>"
    by (subst t) (simp add: f)
  then show ?thesis using f by (simp add: log_frame_def bio_frame_def)
qed

lemma log_frame_fields:
  fixes s t :: "'z logst_scheme"
  assumes "log_frame s t"
  shows "log_start t = log_start s" "log_size t = log_size s" "log_outstanding t = log_outstanding s"
    "log_committing t = log_committing s" "log_dev t = log_dev s" "held t = held s" "cur t = cur s"
    "roused (procs s) (procs t)" "slks t (InodeSL i) = slks s (InodeSL i)"
  using bio_frame_log [OF assms [unfolded log_frame_def]] assms
  by (simp_all add: log_frame_def bio_frame_def)

lemma log_inv_bio:
  fixes s t :: "'z logst_scheme"
  assumes s: "log_inv H s" and t: "bio_inv K t" "dirty t = dirty s" "memdisk t = memdisk s"
    and f: "bio_frame s t"
  shows "log_inv K t"
proof -
  have "logged t = logged s" by (simp add: logged_def bio_frame_log [OF f])
  then show ?thesis using s t by (simp add: log_inv_def log_geom_def bio_frame_log [OF f])
qed

lemma log_room:
  assumes "log_inv {} s"
  shows "dirty s a \<or> card {k. dirty s k} < NBUF"
  using log_invD(14,15) [OF assms] by linarith

lemma log_read_block:
  fixes s :: "'z logst_scheme"
  assumes s: "log_inv {} s" and a: "unat a < length (memdisk s)"
  shows "wpk (kbind (bread 1 a) (\<lambda>b. kbind (get_buf b b_data) (\<lambda>d. kseq (brelse b) (kret d))))
    (\<lambda>d t. d = content s (unat a) \<and> log_inv {} t \<and> content t = content s \<and> dirty t = dirty s
       \<and> memdisk t = memdisk s \<and> wtrace t = wtrace s \<and> lh_n t = lh_n s \<and> log_frame s t) s"
  by (rule wpk_mono [OF bc.read_block [OF log_invD(1) [OF s] a log_room [OF s]]])
    (use s in \<open>auto simp: bio_frame_log intro: log_inv_bio log_frame_bio\<close>)

lemma log_bread:
  fixes s :: "'z logst_scheme"
  assumes s: "log_inv {} s" and a: "unat a < length (memdisk s)"
  shows "wpk (bread 1 a) (\<lambda>b t. log_inv {b} t \<and> blk_of t b = unat a \<and> dat_of t b = content s (unat a)
    \<and> content t = content s \<and> dirty t = dirty s \<and> memdisk t = memdisk s \<and> wtrace t = wtrace s
    \<and> logged t = logged s \<and> lh_n t = lh_n s \<and> log_frame s t) s"
proof (rule wpk_mono [OF bc.rd_law [OF log_invD(1) [OF s] a]])
  fix b and t :: "'z logst_scheme"
  assume x: "b \<notin> {} \<and> bio_inv (insert b {}) t \<and> blk_of t b = unat a \<and> dat_of t b = content s (unat a)
    \<and> content t = content s \<and> dirty t = dirty s \<and> memdisk t = memdisk s \<and> wtrace t = wtrace s
    \<and> (\<forall>i\<in>{}. blk_of t i = blk_of s i \<and> dat_of t i = dat_of s i) \<and> bio_frame s t"
  then have f: "bio_frame s t" by simp
  show "log_inv {b} t \<and> blk_of t b = unat a \<and> dat_of t b = content s (unat a)
    \<and> content t = content s \<and> dirty t = dirty s \<and> memdisk t = memdisk s \<and> wtrace t = wtrace s
    \<and> logged t = logged s \<and> lh_n t = lh_n s \<and> log_frame s t"
    using x log_inv_bio [OF s _ _ _ f, of "{b}"] by (simp add: logged_def bio_frame_log [OF f] log_frame_bio)
qed (use log_room [OF s, of "unat a"] in auto)

lemma log_brelse:
  fixes t :: "'z logst_scheme"
  assumes t: "log_inv {b} t" and d: "dirty t (blk_of t b) \<or> dat_of t b = memdisk t ! blk_of t b"
  shows "wpk (brelse b) (\<lambda>_ u. log_inv {} u \<and> content u = content t \<and> dirty u = dirty t \<and> memdisk u = memdisk t
    \<and> wtrace u = wtrace t \<and> logged u = logged t \<and> lh_n u = lh_n t \<and> log_frame t u) t"
  by (rule wpk_mono [OF bc.rl_law [OF log_invD(1) [OF t] _ d]])
    (use t in \<open>auto simp: logged_def bio_frame_log intro: log_inv_bio log_frame_bio\<close>)

lemma log_put:
  fixes t :: "'z logst_scheme"
  assumes t: "log_inv {b} t" and a: "blk_of t b < length (memdisk t)" "blk_of t b \<notin> log_area t"
    and f: "length (f (dat_of t b)) = BSIZE" and room: "unat (lh_n t) + 1 < unat (log_size t)"
    and op: "1 \<le>s log_outstanding t"
  shows "wpk (kseq (bset b f) (kseq (log_write b) (brelse b))) (\<lambda>_ u. log_inv {} u
    \<and> content u = (content t)(blk_of t b := f (dat_of t b)) \<and> memdisk u = memdisk t \<and> wtrace u = wtrace t
    \<and> logged u = (if blk_of t b \<in> set (logged t) then logged t else logged t @ [blk_of t b]) \<and> log_frame t u) t"
proof -
  let ?a = "blk_of t b"
  from bc.st_law [OF log_invD(1) [OF t], of b f] f obtain t2 where e2: "bset b f t = Ok () t2"
    and t2: "bio_inv {b} t2" "blk_of t2 b = ?a" "dat_of t2 b = f (dat_of t b)"
      "content t2 = (content t)(?a := f (dat_of t b))" "dirty t2 = dirty t" "memdisk t2 = memdisk t"
      "wtrace t2 = wtrace t" "bio_frame t t2"
    by (auto elim: wpkE)
  have inv2: "log_inv {b} t2" by (rule log_inv_bio [OF t t2(1,5,6,8)])
  note g = bio_frame_log [OF t2(8)]
  have lg2: "logged t2 = logged t" by (simp add: logged_def g)
  from log_write_ok [OF inv2, of b] a room op obtain t3 where e3: "log_write b t2 = Ok () t3"
    and t3: "log_inv {b} t3" "logged t3 = (if ?a \<in> set (logged t) then logged t else logged t @ [?a])"
      "content t3 = content t2" "dirty t3 = (dirty t2)(?a := True)" "memdisk t3 = memdisk t2"
      "wtrace t3 = wtrace t2" "blk_of t3 b = ?a" "t3 = t2\<lparr>bufs := bufs t3, lh_n := lh_n t3, lh_block := lh_block t3\<rparr>"
    unfolding g t2(2,6) lg2 by (auto simp: t2(2))
  have "dirty t3 (blk_of t3 b)" by (simp add: t3(4,7))
  then obtain t4 where e4: "brelse b t3 = Ok () t4"
    and t4: "log_inv {} t4" "content t4 = content t3" "memdisk t4 = memdisk t3" "wtrace t4 = wtrace t3"
      "logged t4 = logged t3" "log_frame t3 t4"
    using log_brelse [OF t3(1)] by (auto elim: wpkE)
  have "log_frame t t4"
    using log_frame_trans [OF log_frame_trans [OF log_frame_bio [OF t2(8)] log_frame_bufs [OF t3(8)]] t4(6)] .
  then show ?thesis using t2 t3(2,3,5,6) t4 by (simp add: wpk_def run e2 e3 e4)
qed

lemma logged_update:
  fixes s :: "'z logst_scheme"
  assumes s: "log_inv {} s" and a: "unat a < length (memdisk s)" "unat a \<notin> log_area s"
    and f: "length (f (content s (unat a))) = BSIZE" and room: "unat (lh_n s) + 1 < unat (log_size s)"
    and op: "1 \<le>s log_outstanding s"
  shows "wpk (kbind (bread 1 a) (\<lambda>b. kseq (bset b f) (kseq (log_write b) (brelse b))))
    (\<lambda>_ t. log_inv {} t \<and> content t = (content s)(unat a := f (content s (unat a)))
       \<and> logged t = (if unat a \<in> set (logged s) then logged s else logged s @ [unat a])
       \<and> memdisk t = memdisk s \<and> wtrace t = wtrace s \<and> log_frame s t) s"
  unfolding wp_bind
proof (rule wpk_mono [OF log_bread [OF s a(1)]])
  fix b and t :: "'z logst_scheme"
  assume t: "log_inv {b} t \<and> blk_of t b = unat a \<and> dat_of t b = content s (unat a)
    \<and> content t = content s \<and> dirty t = dirty s \<and> memdisk t = memdisk s \<and> wtrace t = wtrace s
    \<and> logged t = logged s \<and> lh_n t = lh_n s \<and> log_frame s t"
  then have "log_frame s t" by simp
  note g = log_frame_fields [OF this]
  show "wpk (kseq (bset b f) (kseq (log_write b) (brelse b)))
    (\<lambda>_ u. log_inv {} u \<and> content u = (content s)(unat a := f (content s (unat a)))
       \<and> logged u = (if unat a \<in> set (logged s) then logged s else logged s @ [unat a])
       \<and> memdisk u = memdisk s \<and> wtrace u = wtrace s \<and> log_frame s u) t"
    by (rule wpk_mono [OF log_put [where f = f]])
      (use t a f room op g in \<open>auto dest: log_frame_trans\<close>)
qed

section \<open>Operations\<close>

definition log_full :: "'z logst_scheme \<Rightarrow> bool" where
  "log_full s \<longleftrightarrow> of_nat LOGSIZE <s lh_n s + (log_outstanding s + 1) * of_nat MAXOPBLOCKS"

lemma begin_op_run:
  fixes s :: "'z logst_scheme"
  assumes "held s = {}" and "cur s = Some p" and "p < length (procs s)"
  shows "begin_op s =
    (if log_committing s \<or> log_full s
     then Swtch (s\<lparr>held := {PtableLock},
       procs := (procs s)[p := (procs s ! p)\<lparr>p_chan := Some ChanLog, p_state := SLEEPING\<rparr>]\<rparr>)
     else Ok () (s\<lparr>log_outstanding := log_outstanding s + 1\<rparr>))"
  using assms by (simp add: begin_op_def begin_op_loop_def log_full_def run sleep_run held_none)

lemma begin_op_resume_run:
  fixes s :: "'z logst_scheme"
  assumes "held s = {PtableLock}" and "cur s = Some p" and "p < length (procs s)"
  shows "begin_op_resume s =
    (if log_committing s \<or> log_full s
     then Swtch (s\<lparr>procs := (procs s)[p := (procs s ! p)\<lparr>p_chan := Some ChanLog, p_state := SLEEPING\<rparr>]\<rparr>)
     else Ok () (s\<lparr>held := {}, procs := (procs s)[p := (procs s ! p)\<lparr>p_chan := None\<rparr>],
       log_outstanding := log_outstanding s + 1\<rparr>))"
  using assms
  by (simp add: begin_op_resume_def begin_op_loop_def log_full_def run sleep_run sleep_resume_run)

lemma log_full_iff:
  fixes s :: "'z logst_scheme"
  assumes "unat (lh_n s) \<le> LOGSIZE" and "unat (log_outstanding s) \<le> LOGSIZE"
  shows "log_full s \<longleftrightarrow> LOGSIZE < unat (lh_n s) + (unat (log_outstanding s) + 1) * MAXOPBLOCKS"
proof -
  let ?n = "unat (lh_n s)" and ?o = "unat (log_outstanding s)"
  have "?o \<le> 30" using assms(2) by (simp add: LOGSIZE_def MAXOPBLOCKS_def)
  moreover have "?n \<le> 30" using assms(1) by (simp add: LOGSIZE_def MAXOPBLOCKS_def)
  ultimately have b: "?n + (?o + 1) * 10 \<le> 340" by (simp add: algebra_simps)
  have "lh_n s + (log_outstanding s + 1) * 10 = of_nat (?n + (?o + 1) * 10)" by simp
  moreover have "unat (of_nat (?n + (?o + 1) * 10) :: sint32) = ?n + (?o + 1) * 10"
    by (rule unat_of_nat_32) (use b in simp)
  ultimately have u: "unat (lh_n s + (log_outstanding s + 1) * 10) = ?n + (?o + 1) * 10" by metis
  then show ?thesis
    using b small_sless [of 30 "lh_n s + (log_outstanding s + 1) * 10"]
    by (simp add: log_full_def LOGSIZE_def MAXOPBLOCKS_def)
qed

lemma end_op_busy:
  fixes s :: "'z logst_scheme"
  assumes "held s = {}" and "\<not> log_committing s" and "log_outstanding s \<noteq> 1"
  shows "end_op s = Ok () (s\<lparr>log_outstanding := log_outstanding s - 1, procs := woken (Some ChanLog) (procs s)\<rparr>)"
  using assms by (simp add: end_op_def run wakeup_run held_none)

lemma log_inv_upd [simp]:
  fixes s :: "'z logst_scheme"
  shows "log_inv H (s\<lparr>log_outstanding := x\<rparr>) = log_inv H s" "log_inv H (s\<lparr>log_committing := c\<rparr>) = log_inv H s"
  by (simp_all add: log_inv_def log_geom_def logged_def)

lemma log_inv_procs:
  fixes s :: "'z logst_scheme"
  assumes inv: "log_inv H s" and ps: "roused (procs s) ps"
  shows "log_inv H (s\<lparr>procs := ps\<rparr>)"
proof -
  have "bio_inv H s" using inv by (rule log_invD(1))
  then obtain ord where ok: "bio_ok ord H s" by (auto simp: bio_inv_def)
  obtain p where p: "cur s = Some p" "p < length (procs s)" using bio_okD(5) [OF ok] by blast
  have "p_pid (ps ! p) = p_pid (procs s ! p)" "length ps = length (procs s)"
    using rousedD(1,3) [OF ps] p(2) by auto
  then have "bio_ok ord H (s\<lparr>procs := ps\<rparr>) = bio_ok ord H s"
    using p by (simp add: bio_ok_def buf_ok_def sl_mine_def)
  then have "bio_inv H (s\<lparr>procs := ps\<rparr>)" using ok by (auto simp: bio_inv_def)
  moreover have "dirty (s\<lparr>procs := ps\<rparr>) = dirty s" by (simp add: dirty_def fun_eq_iff)
  ultimately show ?thesis using inv by (simp add: log_inv_def log_geom_def logged_def)
qed

lemma content_procs [simp]:
  fixes s :: "'z logst_scheme"
  shows "content (s\<lparr>procs := ps\<rparr>) = content s"
  by (simp add: content_def has_def fun_eq_iff cong: option.case_cong)

lemma woken_after_roused:
  assumes "roused ps qs" and "i < length ps" and "p_state (ps ! i) = SLEEPING" and "p_chan (ps ! i) = ch"
  shows "woken ch qs ! i = (ps ! i)\<lparr>p_state := RUNNABLE\<rparr>"
proof -
  have "length qs = length ps" "qs ! i = ps ! i \<or> qs ! i = (ps ! i)\<lparr>p_state := RUNNABLE\<rparr>"
    using assms(1,2) by (auto simp: roused_def)
  then show ?thesis using assms(2-4) by (auto simp: woken_nth)
qed

lemma end_op_last:
  fixes s :: "'z logst_scheme"
  assumes s: "log_inv {} s" and c: "\<not> log_committing s" and o1: "log_outstanding s = 1"
  shows "\<exists>t. end_op s = Ok () t \<and> log_inv {} t \<and> logged t = [] \<and> log_outstanding t = 0 \<and> \<not> log_committing t
    \<and> (\<forall>b<length (memdisk s). b \<notin> log_area s \<longrightarrow> content t b = content s b \<and> memdisk t ! b = content s b)
    \<and> (\<forall>i<length (procs s). p_state (procs s ! i) = SLEEPING \<longrightarrow> p_chan (procs s ! i) = Some ChanLog \<longrightarrow>
         procs t ! i = (procs s ! i)\<lparr>p_state := RUNNABLE\<rparr>)"
proof -
  let ?s = "s\<lparr>log_outstanding := 0, log_committing := True\<rparr>"
  have hl: "held s = {}" using log_invD(1) [OF s] bio_okD(3) by (auto simp: bio_inv_def)
  have "log_inv {} ?s" using s by simp
  from commit_ok [OF this] obtain t where e: "commit ?s = Ok () t" and t: "log_inv {} t" "lh_n t = 0"
    "\<forall>b<length (memdisk s). b \<notin> log_area s \<longrightarrow> content t b = content s b" "bio_frame (?s\<lparr>lh_n := 0\<rparr>) t"
    "memdisk t = writes (if 0 < unat (lh_n s) then commit_w ?s else []) (memdisk s)"
    by auto
  note f = bio_frame_log [OF t(4)]
  have ht: "held t = {}" using f(8) hl by simp
  let ?u = "t\<lparr>log_committing := False, procs := woken (Some ChanLog) (procs t)\<rparr>"
  have "end_op s = Ok () ?u"
    using e c o1 ht by (simp add: end_op_def run hl held_none wakeup_run)
  moreover have "log_inv {} ?u" using log_inv_procs [of "{}" "t\<lparr>log_committing := False\<rparr>"] t(1) by simp
  moreover have "memdisk t ! b = content t b" if "b < length (memdisk s)" for b
  proof -
    have "logged t = []" by (simp add: logged_def t(2))
    then have "\<not> dirty t b" using log_invD(12) [OF t(1)] by auto
    then show ?thesis using bc.clean_cont [OF log_invD(1) [OF t(1)], of b] that t(5) by simp
  qed
  moreover have "roused (procs s) (procs t)" using t(4) by (simp add: bio_frame_def)
  ultimately show ?thesis using t(2,3) f(3) woken_after_roused [of "procs s" "procs t"]
    by (intro exI [of _ ?u]) (simp add: logged_def)
qed

section \<open>A small disk\<close>

definition demo_disk :: "uchar list list" where
  "demo_disk = replicate 50 (replicate BSIZE 0)"

definition with_log :: "bcache \<Rightarrow> logst" where
  "with_log t = bcache.extend t \<lparr>log_start = 2, log_size = 30, log_outstanding = 1, log_committing = False,
     log_dev = 1, lh_n = 0, lh_block = replicate LOGSIZE 0\<rparr>"

lemma with_log_simps [simp]:
  "log_start (with_log t) = 2" "log_size (with_log t) = 30" "log_outstanding (with_log t) = 1"
  "log_dev (with_log t) = 1" "lh_n (with_log t) = 0" "lh_block (with_log t) = replicate LOGSIZE 0"
  "\<not> log_committing (with_log t)" "memdisk (with_log t) = memdisk t" "held (with_log t) = held t"
  "cur (with_log t) = cur t" "procs (with_log t) = procs t"
  by (simp_all add: with_log_def bcache.extend_def)

lemma with_log_bio [simp]:
  "bio_inv H (with_log t) = bio_inv H t" "dirty (with_log t) = dirty t" "content (with_log t) = content t"
  by (simp_all add: with_log_def bcache.extend_def bio_inv_def bio_ok_def buf_ok_def sl_mine_def dirty_def
      content_def has_def fun_eq_iff cong: option.case_cong)

lemma head_blocks_zero: "head_blocks (replicate BSIZE 0) = []"
  by (rule head_blocks_empty) (simp add: ld32_def BSIZE_def)

lemma demo_log:
  obtains t where "fresh_log (with_log t)" and "log_inv {} (with_log t)" and "memdisk t = demo_disk"
    and "content t = (!) demo_disk" and "held t = {}" and "\<exists>p. cur t = Some p \<and> p < length (procs t)"
proof -
  have "\<forall>b\<in>set demo_disk. length b = BSIZE" by (simp add: demo_disk_def)
  from boot_bcache_ok [OF this] obtain t :: bcache where t: "bio_ok (rev [0..<NBUF]) {} t" "\<forall>k. content t k = demo_disk ! k"
    "memdisk t = demo_disk" "\<forall>k. \<not> dirty t k" by (auto elim: wpkE)
  have "bio_inv {} t" using t(1) by (auto simp: bio_inv_def)
  moreover have "log_geom (with_log t)"
    by (simp add: log_geom_def t(3) demo_disk_def LOGSIZE_def MAXOPBLOCKS_def)
  moreover have "head_blocks (memdisk t ! 2) = []" by (simp add: t(3) demo_disk_def head_blocks_zero)
  ultimately show ?thesis
    using that [of t] t bio_okD(3,5) [OF t(1)]
    by (simp add: fresh_log_def log_inv_def wf_disk_def wf_blocks_def logged_def fun_eq_iff)
qed

lemma demo_transaction:
  obtains s :: logst where "log_inv {} s" and "logged s = [40]" and "memdisk s = demo_disk"
    and "content s 40 = replicate BSIZE 9" and "log_start s = 2" and "log_size s = 30"
proof -
  obtain t where t: "log_inv {} (with_log t)" "memdisk t = demo_disk" by (rule demo_log)
  have "unat (40 :: uint32) < length (memdisk (with_log t))" "unat (40 :: uint32) \<notin> log_area (with_log t)"
    "unat (lh_n (with_log t)) + 1 < unat (log_size (with_log t))" "1 \<le>s log_outstanding (with_log t)"
    by (simp_all add: t(2) demo_disk_def)
  with logged_update [OF t(1), of 40 "\<lambda>_. replicate BSIZE 9"] obtain s where "log_inv {} s"
    "content s = (content t)(40 := replicate BSIZE 9)" "logged s = [40]" "memdisk s = demo_disk"
    "log_frame (with_log t) s"
    by (auto elim!: wpkE simp: t(2) logged_def)
  then show ?thesis using that [of s] log_frame_fields(1,2) [of "with_log t" s] by simp
qed

section \<open>Properties\<close>

text \<open>
  C1. A commit is atomic under crashes. In a state in order, \<^verbatim>\<open>commit\<close> returns with an empty
  transaction, the cache showing the same blocks outside the log. Let \<open>w\<close> be the writes it makes
  to the disk. If the machine crashes after any number \<open>k\<close> of them, the log on the disk is well
  formed, and the disk means, outside the log, the old blocks if at most as many writes were made as
  blocks were logged, and otherwise all the new ones.
\<close>

theorem commit_crash_atomic:
  fixes s :: "'z logst_scheme"
  assumes "log_inv {} s"
  shows "\<exists>t w. commit s = Ok () t \<and> log_inv {} t \<and> logged t = [] \<and> wtrace t = wtrace s @ w
    \<and> memdisk t = writes w (memdisk s)
    \<and> (\<forall>b<length (memdisk s). b \<notin> log_area s \<longrightarrow> content t b = content s b
      \<and> (\<forall>k. wf_disk (lst s) (unat (log_size s)) (writes (take k w) (memdisk s))
        \<and> view (lst s) ((!) (writes (take k w) (memdisk s))) b =
            (if k \<le> length (logged s) then memdisk s ! b else content s b)))"
proof (cases "0 < unat (lh_n s)")
  case True
  then show ?thesis using commit_ok [OF assms] commit_prefix [OF assms] by auto
next
  case False
  note i = log_invD [OF assms]
  have "wf_disk (lst s) (unat (log_size s)) (memdisk s)" using i(4,13) by (simp add: wf_disk_def wf_blocks_def)
  moreover have "logged s = []" using i(8) False by simp
  then have "content s b = memdisk s ! b" if "b < length (memdisk s)" for b
    using bc.clean_cont [OF i(1) that] i(12) by auto
  ultimately show ?thesis
    using commit_ok [OF assms] False i(13) by (auto simp: view_empty intro!: exI [of _ "[]"])
qed

theorem commit_crash_atomic_witness:
  "\<exists>s t w. logged (s :: logst) = [40] \<and> memdisk s = demo_disk \<and> commit s = Ok () t
    \<and> view 2 ((!) (writes (take 1 w) demo_disk)) 40 = replicate BSIZE 0
    \<and> view 2 ((!) (writes (take 2 w) demo_disk)) 40 = replicate BSIZE 9"
proof -
  obtain s :: logst where s: "log_inv {} s" and l: "logged s = [40]" and m: "memdisk s = demo_disk"
    and c: "content s 40 = replicate BSIZE 9" and st: "log_start s = 2" "log_size s = 30"
    by (rule demo_transaction)
  have "40 < length (memdisk s)" "40 \<notin> log_area s" "memdisk s ! 40 = replicate BSIZE 0"
    by (simp_all add: m st demo_disk_def)
  moreover from commit_crash_atomic [OF s] obtain t w where e: "commit s = Ok () t"
    and v: "\<forall>b<length (memdisk s). b \<notin> log_area s \<longrightarrow> (\<forall>k. view (lst s) ((!) (writes (take k w) (memdisk s))) b =
      (if k \<le> length (logged s) then memdisk s ! b else content s b))"
    by blast
  ultimately have "view 2 ((!) (writes (take k w) demo_disk)) 40 =
      (if k \<le> 1 then replicate BSIZE 0 else replicate BSIZE 9)" for k
    using l c by (simp add: m st)
  from this [of 1] this [of 2] show ?thesis
    using l m e by (intro exI [of _ s] exI [of _ t] exI [of _ w]) simp
qed

text \<open>
  C11. Recovery installs what the disk means and can itself be interrupted. On a disk with a well
  formed log, \<^verbatim>\<open>recover_from_log\<close> returns with an empty log, in order, and with every block outside
  the log what the disk meant before. If it crashes after any number of its writes, the disk has
  still a well formed log and the same meaning, so recovering again gives the same.
\<close>

theorem recovery_idempotent:
  fixes s :: "'z logst_scheme"
  assumes "fresh_log s"
  shows "\<exists>t w. recover_from_log s = Ok () t \<and> log_inv {} t \<and> logged t = [] \<and> wtrace t = wtrace s @ w
    \<and> memdisk t = writes w (memdisk s)
    \<and> (\<forall>b<length (memdisk s). b \<notin> log_area s \<longrightarrow>
        content t b = view (lst s) ((!) (memdisk s)) b \<and> memdisk t ! b = view (lst s) ((!) (memdisk s)) b
      \<and> (\<forall>k. wf_disk (lst s) (unat (log_size s)) (writes (take k w) (memdisk s))
        \<and> view (lst s) ((!) (writes (take k w) (memdisk s))) b = view (lst s) ((!) (memdisk s)) b))"
proof -
  obtain t where "recover_from_log s = Ok () t" "log_inv {} t" "lh_n t = 0" "wtrace t = wtrace s @ recover_w s"
    "memdisk t = writes (recover_w s) (memdisk s)"
    "\<forall>b<length (memdisk s). b \<notin> log_area s \<longrightarrow>
       content t b = view (lst s) ((!) (memdisk s)) b \<and> memdisk t ! b = view (lst s) ((!) (memdisk s)) b"
    using recover_ok(1) [OF assms] by blast
  then show ?thesis
    using recover_ok(2,3) [OF assms] by (intro exI [of _ t] exI [of _ "recover_w s"]) (auto simp: logged_def)
qed

theorem recovery_idempotent_witness:
  "\<exists>s t. recover_from_log (s :: logst) = Ok () t \<and> memdisk s = demo_disk \<and> memdisk t ! 40 = replicate BSIZE 0"
proof -
  obtain u where u: "fresh_log (with_log u)" "memdisk u = demo_disk" by (rule demo_log)
  have "40 < length (memdisk (with_log u))" "40 \<notin> log_area (with_log u)"
    "view 2 ((!) demo_disk) 40 = replicate BSIZE 0"
    by (simp_all add: u(2) demo_disk_def head_blocks_zero view_empty)
  with recovery_idempotent [OF u(1)] obtain t where "recover_from_log (with_log u) = Ok () t"
    "memdisk t ! 40 = replicate BSIZE 0" by (auto simp: u(2))
  then show ?thesis using u(2) by (intro exI [of _ "with_log u"] exI [of _ t]) simp
qed

text \<open>
  C19. Logging a block. Inside a transaction with room left, reading a block outside the log,
  changing it, \<^verbatim>\<open>log_write\<close> and \<^verbatim>\<open>brelse\<close> change what the cache shows of this block and nothing
  else, write nothing to the disk, record the block once however often it is logged, and pin it.
  With the log full, or outside a transaction, \<^verbatim>\<open>log_write\<close> panics.
\<close>

theorem log_write_spec:
  fixes s :: "'z logst_scheme"
  assumes "log_inv {} s" and "unat a < length (memdisk s)" and "unat a \<notin> log_area s"
    and "length (f (content s (unat a))) = BSIZE"
  shows "if 1 \<le>s log_outstanding s \<and> length (logged s) + 1 < unat (log_size s)
    then wpk (kbind (bread 1 a) (\<lambda>b. kseq (bset b f) (kseq (log_write b) (brelse b))))
      (\<lambda>_ t. log_inv {} t \<and> content t = (content s)(unat a := f (content s (unat a)))
         \<and> logged t = (if unat a \<in> set (logged s) then logged s else logged s @ [unat a])
         \<and> memdisk t = memdisk s \<and> wtrace t = wtrace s \<and> dirty t (unat a)) s
    else \<exists>e. log_write b s = Panic e"
proof (cases "1 \<le>s log_outstanding s \<and> length (logged s) + 1 < unat (log_size s)")
  case True
  note i = log_invD [OF assms(1)]
  have "dirty t (unat a)" if "log_inv {} t" "logged t = (if unat a \<in> set (logged s) then logged s else logged s @ [unat a])"
    for t :: "'z logst_scheme"
    using log_invD(12) [OF that(1)] that(2) by (auto split: if_splits)
  then show ?thesis
    using logged_update [where f = f, OF assms] True i(8) by (auto elim!: wpk_mono)
next
  case False
  note i = log_invD [OF assms(1)]
  have small: "unat (log_size s) < 2 ^ 31" "unat (lh_n s) < 2 ^ 31"
    using i(5,9) by (simp_all add: LOGSIZE_def MAXOPBLOCKS_def)
  have "1 \<le> log_size s" using i(4) by (simp add: word_le_nat_alt)
  then have "unat (log_size s - 1) = unat (log_size s) - 1" by (simp add: unat_sub)
  then have "log_size s - 1 \<le>s lh_n s \<longleftrightarrow> unat (log_size s) \<le> unat (lh_n s) + 1"
    using small small_sle [of "log_size s - 1" "lh_n s"] by auto
  moreover have "log_outstanding s <s 1 \<longleftrightarrow> \<not> 1 \<le>s log_outstanding s"
    by (simp add: word_sle_eq word_sless_alt not_le)
  ultimately show ?thesis using False i(8) by (auto simp: log_write_def run)
qed

theorem log_write_spec_witness:
  "\<exists>s t. wtrace (t :: logst) = wtrace s \<and> logged t = [40]
    \<and> kbind (bread 1 40) (\<lambda>b. kseq (bset b (\<lambda>_. replicate BSIZE 9)) (kseq (log_write b) (brelse b))) s = Ok () t"
proof -
  obtain u where u: "log_inv {} (with_log u)" "memdisk u = demo_disk" by (rule demo_log)
  have "unat (40 :: uint32) < length (memdisk (with_log u))" "unat (40 :: uint32) \<notin> log_area (with_log u)"
    "1 \<le>s log_outstanding (with_log u) \<and> length (logged (with_log u)) + 1 < unat (log_size (with_log u))"
    by (simp_all add: u(2) demo_disk_def logged_def)
  with log_write_spec [OF u(1), of 40 "\<lambda>_. replicate BSIZE 9"] obtain t where
    "kbind (bread 1 40) (\<lambda>b. kseq (bset b (\<lambda>_. replicate BSIZE 9)) (kseq (log_write b) (brelse b))) (with_log u) = Ok () t"
    "wtrace t = wtrace (with_log u)" "logged t = [40]"
    by (auto elim!: wpkE simp: logged_def)
  then show ?thesis by blast
qed

lemma begin_op_again:
  fixes v :: "'z logst_scheme"
  assumes "held v = {PtableLock}" and "cur v = Some p"
  shows "begin_op_resume v = begin_op (v\<lparr>held := {}, procs := (procs v)[p := (procs v ! p)\<lparr>p_chan := None\<rparr>]\<rparr>)"
proof -
  have eq: "v\<lparr>held := {LogLock}, procs := ps\<rparr> = v\<lparr>procs := ps, held := {LogLock}\<rparr>" for ps by simp
  show ?thesis
    using sleep_resume_run [of v p LogLock] assms by (simp add: begin_op_resume_def begin_op_def run_seq eq)
qed

lemma end_op_committing:
  fixes s :: "'z logst_scheme"
  assumes "held s = {}" and "log_committing s"
  shows "end_op s = Panic ''log.committing''"
  using assms by (simp add: end_op_def run)

text \<open>
  C20. Admission and group commit. \<^verbatim>\<open>begin_op\<close> admits an operation exactly if no commit is running and the blocks logged, with
  \<^verbatim>\<open>MAXOPBLOCKS\<close> for each admitted operation and the new one, fit in \<^verbatim>\<open>LOGSIZE\<close>; otherwise nothing changes but that the
  process sleeps on the log, and when it runs again it makes the same test. \<^verbatim>\<open>end_op\<close> panics while a commit is running.
  \<^verbatim>\<open>end_op\<close> of one of several operations only wakes the waiting ones; \<^verbatim>\<open>end_op\<close> of the last one commits: the transaction is
  empty, every block outside the log has on the disk what the cache showed, the log is open again, and every process that
  slept on the log is runnable.
\<close>

theorem begin_end_op:
  fixes s :: "'z logst_scheme"
  assumes "log_inv {} s" and "unat (log_outstanding s) \<le> LOGSIZE" and "cur s = Some p"
  shows "(if \<not> log_committing s \<and> length (logged s) + (unat (log_outstanding s) + 1) * MAXOPBLOCKS \<le> LOGSIZE
      then begin_op s = Ok () (s\<lparr>log_outstanding := log_outstanding s + 1\<rparr>)
      else begin_op s = Swtch (s\<lparr>held := {PtableLock},
          procs := (procs s)[p := (procs s ! p)\<lparr>p_chan := Some ChanLog, p_state := SLEEPING\<rparr>]\<rparr>)
        \<and> (\<forall>v :: 'z logst_scheme. held v = {PtableLock} \<longrightarrow> cur v = Some p \<longrightarrow>
             begin_op_resume v = begin_op (v\<lparr>held := {}, procs := (procs v)[p := (procs v ! p)\<lparr>p_chan := None\<rparr>]\<rparr>)))
    \<and> (if log_committing s then end_op s = Panic ''log.committing''
       else if log_outstanding s = 1
       then \<exists>t. end_op s = Ok () t \<and> log_inv {} t \<and> logged t = [] \<and> log_outstanding t = 0 \<and> \<not> log_committing t
         \<and> (\<forall>b<length (memdisk s). b \<notin> log_area s \<longrightarrow> content t b = content s b \<and> memdisk t ! b = content s b)
         \<and> (\<forall>i<length (procs s). p_state (procs s ! i) = SLEEPING \<longrightarrow> p_chan (procs s ! i) = Some ChanLog \<longrightarrow>
              procs t ! i = (procs s ! i)\<lparr>p_state := RUNNABLE\<rparr>)
       else end_op s =
         Ok () (s\<lparr>log_outstanding := log_outstanding s - 1, procs := woken (Some ChanLog) (procs s)\<rparr>))"
proof -
  note i = log_invD [OF assms(1)]
  obtain ord where ok: "bio_ok ord {} s" using i(1) by (auto simp: bio_inv_def)
  have hl: "held s = {}" by (rule bio_okD(3) [OF ok])
  have p: "p < length (procs s)" using bio_okD(5) [OF ok] assms(3) by auto
  have "unat (lh_n s) \<le> LOGSIZE" using i(5,9) by simp
  note f = log_full_iff [OF this assms(2)]
  have "begin_op s = (if log_committing s \<or> \<not> length (logged s) + (unat (log_outstanding s) + 1) * MAXOPBLOCKS \<le> LOGSIZE
      then Swtch (s\<lparr>held := {PtableLock}, procs := (procs s)[p := (procs s ! p)\<lparr>p_chan := Some ChanLog, p_state := SLEEPING\<rparr>]\<rparr>)
      else Ok () (s\<lparr>log_outstanding := log_outstanding s + 1\<rparr>))"
    using begin_op_run [OF hl assms(3) p] i(8) by (simp add: f not_le)
  then show ?thesis
    using begin_op_again end_op_committing [OF hl] end_op_busy [OF hl] end_op_last [OF assms(1)] by auto
qed

theorem begin_end_op_witness:
  "\<exists>s t. logged (s :: logst) = [40] \<and> memdisk s = demo_disk \<and> end_op (s\<lparr>log_outstanding := 1, log_committing := False\<rparr>) = Ok () t
    \<and> memdisk t ! 40 = replicate BSIZE 9"
proof -
  obtain s :: logst where s: "log_inv {} s" and l: "logged s = [40]" and m: "memdisk s = demo_disk"
    and c: "content s 40 = replicate BSIZE 9" and st: "log_start s = 2" "log_size s = 30"
    by (rule demo_transaction)
  let ?s = "s\<lparr>log_outstanding := 1, log_committing := False\<rparr>"
  obtain p where p: "cur s = Some p" using log_invD(1) [OF s] bio_okD(5) by (fastforce simp: bio_inv_def)
  have "log_inv {} ?s" "unat (log_outstanding ?s) \<le> LOGSIZE" "cur ?s = Some p"
    using s p by (simp_all add: LOGSIZE_def MAXOPBLOCKS_def)
  from begin_end_op [OF this] obtain t where "end_op ?s = Ok () t"
    "\<forall>b<length (memdisk s). b \<notin> log_area s \<longrightarrow> memdisk t ! b = content s b" by auto
  moreover have "40 < length (memdisk s)" "40 \<notin> log_area s" by (simp_all add: m st demo_disk_def)
  ultimately have "end_op ?s = Ok () t \<and> memdisk t ! 40 = replicate BSIZE 9" using c by simp
  then show ?thesis using l m by blast
qed

end
