(* ===== verification/Fs.thy ===== *)
theory Fs
  imports Log
begin

text \<open>
  The file system (\<^verbatim>\<open>fs.c\<close>): the free-block map, inodes on disk and the inode cache, the content
  of files, directories and paths, over the log. A pointer to an inode is an index into the cache.
  Bytes that C copies from or to a caller's buffer are a result or an argument. The table of
  device functions is a parameter, since the functions in it are defined on top of this theory.
\<close>

section \<open>\<^verbatim>\<open>param.h\<close>, \<^verbatim>\<open>stat.h\<close>, \<^verbatim>\<open>file.h\<close>\<close>

definition NINODE :: nat where "NINODE = 50"
definition NDEV :: nat where "NDEV = 10"
definition ROOTDEV :: uint32 where "ROOTDEV = 1"
definition ROOTINO :: uint32 where "ROOTINO = 1"
definition T_DIR :: ushort where "T_DIR = 1"
definition T_FILE :: ushort where "T_FILE = 2"
definition T_DEV :: ushort where "T_DEV = 3"

record stat =
  st_type :: ushort
  st_dev :: uint32
  st_ino :: uint32
  st_nlink :: ushort
  st_size :: uint32

text \<open>The sleep lock of inode \<open>i\<close> is \<^term>\<open>InodeSL i\<close> of \<^term>\<open>slks\<close>.\<close>

record inode =
  i_dev :: uint32
  i_inum :: uint32
  i_ref :: sint32
  i_valid :: bool
  i_type :: ushort
  i_major :: ushort
  i_minor :: ushort
  i_nlink :: ushort
  i_size :: uint32
  i_addrs :: "uint32 list"

record fsst = logst +
  icache :: "inode list"
  fs_sb :: superblock

text \<open>\<^verbatim>\<open>devsw\<close>: for a major number, the functions that read and write the device, if set.\<close>

record 's devsw =
  dev_read :: "nat \<Rightarrow> (nat \<Rightarrow> sint32 \<Rightarrow> ('s, sint32 \<times> uchar list) kop) option"
  dev_write :: "nat \<Rightarrow> (nat \<Rightarrow> uchar list \<Rightarrow> ('s, sint32) kop) option"

definition upd_inode :: "nat \<Rightarrow> (inode \<Rightarrow> inode) \<Rightarrow> ('z fsst_scheme, unit) kop" where
  "upd_inode i f = kmod (\<lambda>s. s\<lparr>icache := (icache s)[i := f (icache s ! i)]\<rparr>)"

definition get_inode :: "nat \<Rightarrow> (inode \<Rightarrow> 'a) \<Rightarrow> ('z fsst_scheme, 'a) kop" where
  "get_inode i f = kget (\<lambda>s. f (icache s ! i))"

section \<open>Blocks\<close>

definition BPB :: nat where "BPB = BSIZE * 8"

definition BBLOCK :: "nat \<Rightarrow> superblock \<Rightarrow> uint32" where
  "BBLOCK b sb = of_nat (b div BPB) + sb_bmapstart sb"

definition bzero :: "uint32 \<Rightarrow> uint32 \<Rightarrow> ('z logst_scheme, unit) kop" where
  "bzero dev bno =
     kbind (bread dev bno) (\<lambda>bp.
     kseq (bset bp (\<lambda>_. replicate BSIZE 0))
    (kseq (log_write bp)
          (brelse bp)))"

definition bit_clear :: "uchar list \<Rightarrow> nat \<Rightarrow> bool" where
  "bit_clear d bi \<longleftrightarrow> d ! (bi div 8) AND push_bit (bi mod 8) 1 = 0"

definition set_bit_of :: "nat \<Rightarrow> uchar list \<Rightarrow> uchar list" where
  "set_bit_of bi d = d[bi div 8 := d ! (bi div 8) OR push_bit (bi mod 8) 1]"

definition clear_bit_of :: "nat \<Rightarrow> uchar list \<Rightarrow> uchar list" where
  "clear_bit_of bi d = d[bi div 8 := d ! (bi div 8) AND NOT (push_bit (bi mod 8) 1)]"

text \<open>
  \<^verbatim>\<open>balloc\<close>: the loop over the blocks of the bit map, each given by the number \<open>b\<close> of the first block
  it describes, and in it the search for a clear bit.
\<close>

primrec balloc_scan :: "uint32 \<Rightarrow> superblock \<Rightarrow> nat list \<Rightarrow> ('z logst_scheme, uint32) kop" where
  "balloc_scan dev sb [] = kpanic ''balloc: out of blocks''"
| "balloc_scan dev sb (b # bs) =
     kbind (bread dev (BBLOCK b sb)) (\<lambda>bp.
     kbind (get_buf bp b_data) (\<lambda>d.
     case first_index (bit_clear d) [0..<min BPB (unat (sb_size sb) - b)] of
       Some bi \<Rightarrow>
         kseq (bset bp (set_bit_of bi))
        (kseq (log_write bp)
        (kseq (brelse bp)
        (kseq (bzero dev (of_nat (b + bi)))
              (kret (of_nat (b + bi))))))
     | None \<Rightarrow> kseq (brelse bp) (balloc_scan dev sb bs)))"

definition balloc :: "uint32 \<Rightarrow> ('z fsst_scheme, uint32) kop" where
  "balloc dev =
     kbind (kget fs_sb) (\<lambda>sb.
     balloc_scan dev sb (map (\<lambda>i. i * BPB) [0..<(unat (sb_size sb) + BPB - 1) div BPB]))"

definition bfree :: "uint32 \<Rightarrow> uint32 \<Rightarrow> ('z fsst_scheme, unit) kop" where
  "bfree dev b =
     kbind (kget fs_sb) (\<lambda>sb.
     kbind (bread dev (BBLOCK (unat b) sb)) (\<lambda>bp.
     kbind (get_buf bp b_data) (\<lambda>d.
     kseq (kcheck (bit_clear d (unat b mod BPB)) ''freeing free block'')
    (kseq (bset bp (clear_bit_of (unat b mod BPB)))
    (kseq (log_write bp)
          (brelse bp))))))"

section \<open>Inodes\<close>

definition IBLOCK :: "nat \<Rightarrow> superblock \<Rightarrow> uint32" where
  "IBLOCK i sb = of_nat (i div IPB) + sb_inodestart sb"

text \<open>\<open>pr\<close> prints the superblock with \<^verbatim>\<open>cprintf\<close>, which the console provides.\<close>

definition iinit :: "(superblock \<Rightarrow> ('z fsst_scheme, unit) kop) \<Rightarrow> uint32 \<Rightarrow> ('z fsst_scheme, unit) kop" where
  "iinit pr dev =
     kseq (kfor [0..<NINODE] (\<lambda>i. initsleeplock (InodeSL i) ''inode''))
    (kbind (readsb dev) (\<lambda>sb.
     kseq (kmod (\<lambda>s. s\<lparr>fs_sb := sb\<rparr>))
          (pr sb)))"

text \<open>\<^verbatim>\<open>iget\<close> takes the entry that holds the inode, and otherwise the first unused entry.\<close>

definition iget :: "uint32 \<Rightarrow> uint32 \<Rightarrow> ('z fsst_scheme, nat) kop" where
  "iget dev inum =
     kseq (acquire IcacheLock)
    (kbind (kget icache) (\<lambda>ic.
     case first_index (\<lambda>ip. 0 <s i_ref ip \<and> i_dev ip = dev \<and> i_inum ip = inum) ic of
       Some i \<Rightarrow>
         kseq (upd_inode i (\<lambda>ip. ip\<lparr>i_ref := i_ref ip + 1\<rparr>))
        (kseq (release IcacheLock)
              (kret i))
     | None \<Rightarrow>
         (case first_index (\<lambda>ip. i_ref ip = 0) ic of
            None \<Rightarrow> kpanic ''iget: no inodes''
          | Some i \<Rightarrow>
              kseq (upd_inode i (\<lambda>ip. ip\<lparr>i_dev := dev, i_inum := inum, i_ref := 1, i_valid := False\<rparr>))
             (kseq (release IcacheLock)
                   (kret i)))))"

definition zero_dinode :: "ushort \<Rightarrow> dinode" where
  "zero_dinode ty = \<lparr>di_type = ty, di_major = 0, di_minor = 0, di_nlink = 0, di_size = 0,
     di_addrs = replicate (NDIRECT + 1) 0\<rparr>"

text \<open>The search of \<^verbatim>\<open>ialloc\<close> over the inode numbers.\<close>

primrec ialloc_scan :: "uint32 \<Rightarrow> ushort \<Rightarrow> superblock \<Rightarrow> nat list \<Rightarrow> ('z fsst_scheme, nat) kop" where
  "ialloc_scan dev ty sb [] = kpanic ''ialloc: no inodes''"
| "ialloc_scan dev ty sb (inum # is) =
     kbind (bread dev (IBLOCK inum sb)) (\<lambda>bp.
     kbind (get_buf bp b_data) (\<lambda>d.
     if di_type (dinode_get d (64 * (inum mod IPB))) = 0 then
       kseq (bset bp (dinode_put (64 * (inum mod IPB)) (zero_dinode ty)))
      (kseq (log_write bp)
      (kseq (brelse bp)
            (iget dev (of_nat inum))))
     else kseq (brelse bp) (ialloc_scan dev ty sb is)))"

definition ialloc :: "uint32 \<Rightarrow> ushort \<Rightarrow> ('z fsst_scheme, nat) kop" where
  "ialloc dev ty =
     kbind (kget fs_sb) (\<lambda>sb. ialloc_scan dev ty sb [1..<unat (sb_ninodes sb)])"

definition to_dinode :: "inode \<Rightarrow> dinode" where
  "to_dinode ip = \<lparr>di_type = i_type ip, di_major = i_major ip, di_minor = i_minor ip,
     di_nlink = i_nlink ip, di_size = i_size ip, di_addrs = i_addrs ip\<rparr>"

definition from_dinode :: "dinode \<Rightarrow> inode \<Rightarrow> inode" where
  "from_dinode d ip = ip\<lparr>i_type := di_type d, i_major := di_major d, i_minor := di_minor d,
     i_nlink := di_nlink d, i_size := di_size d, i_addrs := di_addrs d\<rparr>"

definition iupdate :: "nat \<Rightarrow> ('z fsst_scheme, unit) kop" where
  "iupdate i =
     kbind (get_inode i id) (\<lambda>ip.
     kbind (kget fs_sb) (\<lambda>sb.
     kbind (bread (i_dev ip) (IBLOCK (unat (i_inum ip)) sb)) (\<lambda>bp.
     kseq (bset bp (dinode_put (64 * (unat (i_inum ip) mod IPB)) (to_dinode ip)))
    (kseq (log_write bp)
          (brelse bp)))))"

definition idup :: "nat \<Rightarrow> ('z fsst_scheme, nat) kop" where
  "idup i =
     kseq (acquire IcacheLock)
    (kseq (upd_inode i (\<lambda>ip. ip\<lparr>i_ref := i_ref ip + 1\<rparr>))
    (kseq (release IcacheLock)
          (kret i)))"

text \<open>Reading an inode from the disk, the part of \<^verbatim>\<open>ilock\<close> under \<^verbatim>\<open>ip->valid == 0\<close>.\<close>

definition iread :: "nat \<Rightarrow> ('z fsst_scheme, unit) kop" where
  "iread i =
     kbind (get_inode i id) (\<lambda>ip.
     kbind (kget fs_sb) (\<lambda>sb.
     kbind (bread (i_dev ip) (IBLOCK (unat (i_inum ip)) sb)) (\<lambda>bp.
     kbind (get_buf bp b_data) (\<lambda>d.
     kseq (upd_inode i (from_dinode (dinode_get d (64 * (unat (i_inum ip) mod IPB)))))
    (kseq (brelse bp)
    (kseq (upd_inode i (\<lambda>ip. ip\<lparr>i_valid := True\<rparr>))
    (kbind (get_inode i i_type) (\<lambda>ty.
     kcheck (ty = 0) ''ilock: no type''))))))))"

definition ilock :: "nat option \<Rightarrow> ('z fsst_scheme, unit) kop" where
  "ilock io =
     (case io of None \<Rightarrow> kpanic ''ilock'' | Some i \<Rightarrow>
       kbind (get_inode i i_ref) (\<lambda>r.
       kseq (kcheck (r <s 1) ''ilock'')
      (kseq (acquiresleep (InodeSL i))
      (kbind (get_inode i i_valid) (\<lambda>v.
       kwhen (\<not> v) (iread i))))))"

definition iunlock :: "nat option \<Rightarrow> ('z fsst_scheme, unit) kop" where
  "iunlock io =
     (case io of None \<Rightarrow> kpanic ''iunlock'' | Some i \<Rightarrow>
       kbind (holdingsleep (InodeSL i)) (\<lambda>h.
       kbind (get_inode i i_ref) (\<lambda>r.
       kseq (kcheck (\<not> h \<or> r <s 1) ''iunlock'')
            (releasesleep (InodeSL i)))))"

text \<open>\<^verbatim>\<open>itrunc\<close>: the loops over the direct and the indirect blocks.\<close>

definition itrunc_direct :: "nat \<Rightarrow> nat \<Rightarrow> ('z fsst_scheme, unit) kop" where
  "itrunc_direct i k =
     kbind (get_inode i id) (\<lambda>ip.
     kwhen (i_addrs ip ! k \<noteq> 0)
       (kseq (bfree (i_dev ip) (i_addrs ip ! k))
             (upd_inode i (\<lambda>ip. ip\<lparr>i_addrs := (i_addrs ip)[k := 0]\<rparr>))))"

definition itrunc_indirect :: "nat \<Rightarrow> nat \<Rightarrow> nat \<Rightarrow> ('z fsst_scheme, unit) kop" where
  "itrunc_indirect i bp j =
     kbind (get_inode i i_dev) (\<lambda>dev.
     kbind (get_buf bp b_data) (\<lambda>d.
     kwhen (ld32 d (4 * j) \<noteq> 0) (bfree dev (ld32 d (4 * j)))))"

definition itrunc :: "nat \<Rightarrow> ('z fsst_scheme, unit) kop" where
  "itrunc i =
     kseq (kfor [0..<NDIRECT] (itrunc_direct i))
    (kbind (get_inode i id) (\<lambda>ip.
     kseq (kwhen (i_addrs ip ! NDIRECT \<noteq> 0)
            (kbind (bread (i_dev ip) (i_addrs ip ! NDIRECT)) (\<lambda>bp.
             kseq (kfor [0..<NINDIRECT] (itrunc_indirect i bp))
            (kseq (brelse bp)
            (kseq (bfree (i_dev ip) (i_addrs ip ! NDIRECT))
                  (upd_inode i (\<lambda>ip. ip\<lparr>i_addrs := (i_addrs ip)[NDIRECT := 0]\<rparr>)))))))
    (kseq (upd_inode i (\<lambda>ip. ip\<lparr>i_size := 0\<rparr>))
          (iupdate i))))"

definition iput :: "nat \<Rightarrow> ('z fsst_scheme, unit) kop" where
  "iput i =
     kseq (acquiresleep (InodeSL i))
    (kbind (get_inode i (\<lambda>ip. i_valid ip \<and> i_nlink ip = 0)) (\<lambda>c.
     kseq (kwhen c
            (kseq (acquire IcacheLock)
            (kbind (get_inode i i_ref) (\<lambda>r.
             kseq (release IcacheLock)
                  (kwhen (r = 1)
                    (kseq (itrunc i)
                    (kseq (upd_inode i (\<lambda>ip. ip\<lparr>i_type := 0\<rparr>))
                    (kseq (iupdate i)
                          (upd_inode i (\<lambda>ip. ip\<lparr>i_valid := False\<rparr>))))))))))
    (kseq (releasesleep (InodeSL i))
    (kseq (acquire IcacheLock)
    (kseq (upd_inode i (\<lambda>ip. ip\<lparr>i_ref := i_ref ip - 1\<rparr>))
          (release IcacheLock))))))"

definition iunlockput :: "nat \<Rightarrow> ('z fsst_scheme, unit) kop" where
  "iunlockput i = kseq (iunlock (Some i)) (iput i)"

section \<open>The content of an inode\<close>

definition bmap :: "nat \<Rightarrow> nat \<Rightarrow> ('z fsst_scheme, uint32) kop" where
  "bmap i bn =
     kbind (get_inode i id) (\<lambda>ip.
     if bn < NDIRECT then
       (if i_addrs ip ! bn = 0 then
          kbind (balloc (i_dev ip)) (\<lambda>addr.
          kseq (upd_inode i (\<lambda>ip. ip\<lparr>i_addrs := (i_addrs ip)[bn := addr]\<rparr>))
               (kret addr))
        else kret (i_addrs ip ! bn))
     else if bn - NDIRECT < NINDIRECT then
       kbind (if i_addrs ip ! NDIRECT = 0 then
                kbind (balloc (i_dev ip)) (\<lambda>addr.
                kseq (upd_inode i (\<lambda>ip. ip\<lparr>i_addrs := (i_addrs ip)[NDIRECT := addr]\<rparr>))
                     (kret addr))
              else kret (i_addrs ip ! NDIRECT)) (\<lambda>ind.
       kbind (bread (i_dev ip) ind) (\<lambda>bp.
       kbind (get_buf bp b_data) (\<lambda>d.
       kbind (if ld32 d (4 * (bn - NDIRECT)) = 0 then
                kbind (balloc (i_dev ip)) (\<lambda>addr.
                kseq (bset bp (st32 (4 * (bn - NDIRECT)) addr))
               (kseq (log_write bp)
                     (kret addr)))
              else kret (ld32 d (4 * (bn - NDIRECT)))) (\<lambda>addr.
       kseq (brelse bp)
            (kret addr)))))
     else kpanic ''bmap: out of range'')"

definition stati :: "nat \<Rightarrow> ('z fsst_scheme, stat) kop" where
  "stati i = get_inode i (\<lambda>ip. \<lparr>st_type = i_type ip, st_dev = i_dev ip, st_ino = i_inum ip,
     st_nlink = i_nlink ip, st_size = i_size ip\<rparr>)"

lemma chunk_pos: "0 < n \<Longrightarrow> 0 < min n (BSIZE - unat off mod BSIZE)"
  by (simp add: BSIZE_def)

text \<open>The loop of \<^verbatim>\<open>readi\<close>; \<open>n\<close> bytes are still to be read.\<close>

function readi_loop :: "nat \<Rightarrow> uint32 \<Rightarrow> nat \<Rightarrow> ('z fsst_scheme, uchar list) kop" where
  "readi_loop i off n =
     (if n = 0 then kret []
      else
       (let m = min n (BSIZE - unat off mod BSIZE) in
        kbind (get_inode i i_dev) (\<lambda>dev.
        kbind (bmap i (unat off div BSIZE)) (\<lambda>a.
        kbind (bread dev a) (\<lambda>bp.
        kbind (get_buf bp b_data) (\<lambda>d.
        kseq (brelse bp)
       (kbind (readi_loop i (off + of_nat m) (n - m)) (\<lambda>r.
        kret (take m (drop (unat off mod BSIZE) d) @ r)))))))))"
  by auto
termination
  by (relation "measure (\<lambda>(i, off, n). n)") (auto simp: BSIZE_def)

declare readi_loop.simps [simp del]

text \<open>\<^verbatim>\<open>readi\<close> returns its result and the bytes copied to \<^verbatim>\<open>dst\<close>.\<close>

definition readi :: "('z fsst_scheme) devsw \<Rightarrow> nat \<Rightarrow> uint32 \<Rightarrow> uint32 \<Rightarrow>
    ('z fsst_scheme, sint32 \<times> uchar list) kop" where
  "readi dsw i off n =
     kbind (get_inode i id) (\<lambda>ip.
     if i_type ip = T_DEV then
       (if i_major ip <s 0 \<or> of_nat NDEV \<le>s i_major ip then kret (- 1, [])
        else case dev_read dsw (unat (i_major ip)) of
          None \<Rightarrow> kret (- 1, [])
        | Some f \<Rightarrow> f i n)
     else if i_size ip < off \<or> off + n < off then kret (- 1, [])
     else
       kbind (kret (if i_size ip < off + n then i_size ip - off else n)) (\<lambda>n.
       kbind (readi_loop i off (unat n)) (\<lambda>bs.
       kret (n, bs))))"

text \<open>The loop of \<^verbatim>\<open>writei\<close>; \<open>bs\<close> are the bytes still to be written. It returns the offset after
  the last one.\<close>

definition put_at :: "nat \<Rightarrow> uchar list \<Rightarrow> uchar list \<Rightarrow> uchar list" where
  "put_at k bs d = take k d @ bs @ drop (k + length bs) d"

function writei_loop :: "nat \<Rightarrow> uint32 \<Rightarrow> uchar list \<Rightarrow> ('z fsst_scheme, uint32) kop" where
  "writei_loop i off bs =
     (if bs = [] then kret off
      else
       (let m = min (length bs) (BSIZE - unat off mod BSIZE) in
        kbind (get_inode i i_dev) (\<lambda>dev.
        kbind (bmap i (unat off div BSIZE)) (\<lambda>a.
        kbind (bread dev a) (\<lambda>bp.
        kseq (bset bp (put_at (unat off mod BSIZE) (take m bs)))
       (kseq (log_write bp)
       (kseq (brelse bp)
             (writei_loop i (off + of_nat m) (drop m bs)))))))))"
  by auto
termination
  by (relation "measure (\<lambda>(i, off, bs). length bs)") (auto simp: BSIZE_def)

declare writei_loop.simps [simp del]

definition writei :: "('z fsst_scheme) devsw \<Rightarrow> nat \<Rightarrow> uchar list \<Rightarrow> uint32 \<Rightarrow>
    ('z fsst_scheme, sint32) kop" where
  "writei dsw i bs off =
     kbind (get_inode i id) (\<lambda>ip.
     if i_type ip = T_DEV then
       (if i_major ip <s 0 \<or> of_nat NDEV \<le>s i_major ip then kret (- 1)
        else case dev_write dsw (unat (i_major ip)) of
          None \<Rightarrow> kret (- 1)
        | Some f \<Rightarrow> f i bs)
     else
      (let n = of_nat (length bs) in
       if i_size ip < off \<or> off + n < off then kret (- 1)
       else if of_nat (MAXFILE * BSIZE) < off + n then kret (- 1)
       else
         kbind (writei_loop i off bs) (\<lambda>off.
         kbind (get_inode i i_size) (\<lambda>sz.
         kseq (kwhen (0 < n \<and> sz < off)
                (kseq (upd_inode i (\<lambda>ip. ip\<lparr>i_size := off\<rparr>))
                      (iupdate i)))
              (kret n)))))"

section \<open>Directories\<close>

text \<open>
  Strings are byte lists, up to a NUL or to the end of the list; \<^verbatim>\<open>strncmp\<close> and \<^verbatim>\<open>strncpy\<close> of
  \<^verbatim>\<open>string.c\<close> on them.
\<close>

fun head0 :: "uchar list \<Rightarrow> uchar" where
  "head0 [] = 0"
| "head0 (c # cs) = c"

primrec strncmp_list :: "nat \<Rightarrow> uchar list \<Rightarrow> uchar list \<Rightarrow> sint32" where
  "strncmp_list 0 p q = 0"
| "strncmp_list (Suc n) p q =
     (if head0 p \<noteq> 0 \<and> head0 p = head0 q then strncmp_list n (tl p) (tl q)
      else ucast (head0 p) - ucast (head0 q))"

definition cstr :: "uchar list \<Rightarrow> uchar list" where
  "cstr s = takeWhile (\<lambda>c. c \<noteq> 0) s"

definition strncpy_list :: "nat \<Rightarrow> uchar list \<Rightarrow> uchar list" where
  "strncpy_list n s = take n (cstr s @ replicate n 0)"

definition namecmp :: "uchar list \<Rightarrow> uchar list \<Rightarrow> sint32" where
  "namecmp s t = strncmp_list DIRSIZ s t"

text \<open>The offsets of the entries of a directory of size \<open>sz\<close>.\<close>

definition dir_offsets :: "uint32 \<Rightarrow> uint32 list" where
  "dir_offsets sz = map (\<lambda>k. of_nat (16 * k)) [0..<(unat sz + 15) div 16]"

primrec dirlookup_scan :: "('z fsst_scheme) devsw \<Rightarrow> nat \<Rightarrow> uchar list \<Rightarrow> uint32 list \<Rightarrow>
    ('z fsst_scheme, (nat \<times> uint32) option) kop" where
  "dirlookup_scan dsw dp name [] = kret None"
| "dirlookup_scan dsw dp name (off # offs) =
     kbind (readi dsw dp off 16) (\<lambda>(r, bs).
     kseq (kcheck (r \<noteq> 16) ''dirlookup read'')
    (let de = dirent_get bs in
     if de_inum de = 0 then dirlookup_scan dsw dp name offs
     else if namecmp name (de_name de) = 0 then
       kbind (get_inode dp i_dev) (\<lambda>dev.
       kbind (iget dev (ucast (de_inum de))) (\<lambda>ip.
       kret (Some (ip, off))))
     else dirlookup_scan dsw dp name offs))"

definition dirlookup :: "('z fsst_scheme) devsw \<Rightarrow> nat \<Rightarrow> uchar list \<Rightarrow>
    ('z fsst_scheme, (nat \<times> uint32) option) kop" where
  "dirlookup dsw dp name =
     kbind (get_inode dp id) (\<lambda>ip.
     kseq (kcheck (i_type ip \<noteq> T_DIR) ''dirlookup not DIR'')
          (dirlookup_scan dsw dp name (dir_offsets (i_size ip))))"

text \<open>The search of \<^verbatim>\<open>dirlink\<close> for an empty entry; the end of the directory if there is none.\<close>

primrec dirlink_scan :: "('z fsst_scheme) devsw \<Rightarrow> nat \<Rightarrow> uint32 list \<Rightarrow> uint32 \<Rightarrow>
    ('z fsst_scheme, uint32) kop" where
  "dirlink_scan dsw dp [] fin = kret fin"
| "dirlink_scan dsw dp (off # offs) fin =
     kbind (readi dsw dp off 16) (\<lambda>(r, bs).
     kseq (kcheck (r \<noteq> 16) ''dirlink read'')
          (if de_inum (dirent_get bs) = 0 then kret off
           else dirlink_scan dsw dp offs fin))"

definition dirlink :: "('z fsst_scheme) devsw \<Rightarrow> nat \<Rightarrow> uchar list \<Rightarrow> uint32 \<Rightarrow>
    ('z fsst_scheme, sint32) kop" where
  "dirlink dsw dp name inum =
     kbind (dirlookup dsw dp name) (\<lambda>r. case r of
       Some (ip, _) \<Rightarrow> kseq (iput ip) (kret (- 1))
     | None \<Rightarrow>
         kbind (get_inode dp i_size) (\<lambda>sz.
         kbind (dirlink_scan dsw dp (dir_offsets sz) (of_nat (16 * ((unat sz + 15) div 16)))) (\<lambda>off.
         kbind (writei dsw dp (dirent_bytes \<lparr>de_inum = ucast inum, de_name = strncpy_list DIRSIZ name\<rparr>) off) (\<lambda>r.
         kseq (kcheck (r \<noteq> 16) ''dirlink'')
              (kret 0)))))"

section \<open>Paths\<close>

abbreviation slash :: uchar where "slash \<equiv> 47"

text \<open>\<^verbatim>\<open>skipelem\<close> returns the element, cut to \<^verbatim>\<open>DIRSIZ\<close> bytes, and the rest of the path.\<close>

definition skipelem :: "uchar list \<Rightarrow> (uchar list \<times> uchar list) option" where
  "skipelem path =
    (let p = dropWhile (\<lambda>c. c = slash) path in
     if head0 p = 0 then None
     else
      (let e = takeWhile (\<lambda>c. c \<noteq> slash \<and> c \<noteq> 0) p
       in Some (take DIRSIZ e, dropWhile (\<lambda>c. c = slash) (drop (length e) p))))"

lemma skipelem_shorter:
  assumes "skipelem path = Some (e, rest)"
  shows "length rest < length path"
proof -
  let ?p = "dropWhile (\<lambda>c. c = slash) path"
  let ?e = "takeWhile (\<lambda>c. c \<noteq> slash \<and> c \<noteq> 0) ?p"
  have n: "head0 ?p \<noteq> 0" and r: "rest = dropWhile (\<lambda>c. c = slash) (drop (length ?e) ?p)"
    using assms by (auto simp: skipelem_def Let_def split: if_splits)
  have ne: "?p \<noteq> []" using n by (metis head0.simps(1))
  then have "hd ?p \<noteq> slash" by (rule hd_dropWhile)
  moreover have "hd ?p \<noteq> 0" using n ne by (cases ?p) auto
  ultimately have "?e \<noteq> []" using ne by (cases ?p) auto
  then have "length (drop (length ?e) ?p) < length ?p" using ne by simp
  moreover have "length ?p \<le> length path" "length rest \<le> length (drop (length ?e) ?p)"
    unfolding r by (rule length_dropWhile_le)+
  ultimately show ?thesis by linarith
qed

function namex_loop :: "('z fsst_scheme) devsw \<Rightarrow> nat \<Rightarrow> uchar list \<Rightarrow> bool \<Rightarrow> uchar list \<Rightarrow>
    ('z fsst_scheme, nat option \<times> uchar list) kop" where
  "namex_loop dsw ip path par name =
     (case skipelem path of
        None \<Rightarrow>
          if par then kseq (iput ip) (kret (None, name)) else kret (Some ip, name)
      | Some (name', path') \<Rightarrow>
          kseq (ilock (Some ip))
         (kbind (get_inode ip i_type) (\<lambda>ty.
          if ty \<noteq> T_DIR then kseq (iunlockput ip) (kret (None, name'))
          else if par \<and> head0 path' = 0 then kseq (iunlock (Some ip)) (kret (Some ip, name'))
          else
            kbind (dirlookup dsw ip name') (\<lambda>r. case r of
              None \<Rightarrow> kseq (iunlockput ip) (kret (None, name'))
            | Some (nxt, _) \<Rightarrow> kseq (iunlockput ip) (namex_loop dsw nxt path' par name')))))"
  by auto
termination
  by (relation "measure (\<lambda>(dsw, ip, path, par, name). length path)") (auto dest: skipelem_shorter)

declare namex_loop.simps [simp del]

text \<open>\<^verbatim>\<open>idup(myproc()->cwd)\<close> with a null current directory is a fault.\<close>

definition namex :: "('z fsst_scheme) devsw \<Rightarrow> uchar list \<Rightarrow> bool \<Rightarrow>
    ('z fsst_scheme, nat option \<times> uchar list) kop" where
  "namex dsw path par =
     kbind (if head0 path = slash then iget ROOTDEV ROOTINO
            else kbind curproc (\<lambda>p.
                 kbind (get_proc p p_cwd) (\<lambda>d. case d of
                   None \<Rightarrow> kfault ''null cwd''
                 | Some i \<Rightarrow> idup i))) (\<lambda>ip.
     namex_loop dsw ip path par [])"

definition namei :: "('z fsst_scheme) devsw \<Rightarrow> uchar list \<Rightarrow> ('z fsst_scheme, nat option) kop" where
  "namei dsw path = kbind (namex dsw path False) (\<lambda>(ip, name). kret ip)"

definition nameiparent :: "('z fsst_scheme) devsw \<Rightarrow> uchar list \<Rightarrow>
    ('z fsst_scheme, nat option \<times> uchar list) kop" where
  "nameiparent dsw path = namex dsw path True"

section \<open>Evaluation and frames\<close>

lemma upd_inode_run [run, simp]:
  "upd_inode i f s = Ok () (s\<lparr>icache := (icache s)[i := f (icache s ! i)]\<rparr>)"
  by (simp add: upd_inode_def)

lemma get_inode_run [run, simp]: "get_inode i f s = Ok (f (icache s ! i)) s"
  by (simp add: get_inode_def)

lemma wp_upd_inode [wp]:
  "wpk (upd_inode i f) Q s = Q () (s\<lparr>icache := (icache s)[i := f (icache s ! i)]\<rparr>)"
  by (simp add: wpk_def)

lemma wp_get_inode [wp]: "wpk (get_inode i f) Q s = Q (f (icache s ! i)) s"
  by (simp add: wpk_def)

lemma wpk_seq: "wpk (kseq m n) Q = wpk m (\<lambda>_. wpk n Q)"
  and wpk_bind: "wpk (kbind p f) R = wpk p (\<lambda>x. wpk (f x) R)"
  by (rule ext, rule wp_seq, rule ext, rule wp_bind)

lemma bio_frame_fs:
  fixes s t :: "'z fsst_scheme"
  assumes "bio_frame s t"
  shows "icache t = icache s" "fs_sb t = fs_sb s"
proof -
  have t: "t = s\<lparr>procs := procs t, slks := slks t, bufs := bufs t, memdisk := memdisk t, wtrace := wtrace t\<rparr>"
    using assms by (simp add: bio_frame_def)
  show "icache t = icache s" "fs_sb t = fs_sb s" by (subst t, simp)+
qed

lemma log_frame_fs:
  fixes s t :: "'z fsst_scheme"
  assumes "log_frame s t"
  shows "icache t = icache s" "fs_sb t = fs_sb s"
  using bio_frame_fs [OF assms [unfolded log_frame_def]] by simp_all

lemma fs_upd:
  fixes s :: "'z fsst_scheme"
  defines "P \<equiv> \<lambda>t. (\<forall>H. bio_inv H t = bio_inv H s) \<and> (\<forall>H. log_inv H t = log_inv H s) \<and> content t = content s
    \<and> dirty t = dirty s \<and> blk_of t = blk_of s \<and> dat_of t = dat_of s \<and> logged t = logged s"
  shows "P (s\<lparr>icache := a\<rparr>)" "P (s\<lparr>fs_sb := b\<rparr>)"
proof -
  have "(\<forall>H. bio_inv H t = bio_inv H s) \<and> content t = content s \<and> dirty t = dirty s \<and> blk_of t = blk_of s
      \<and> dat_of t = dat_of s"
    if "t = s\<lparr>icache := a\<rparr> \<or> t = s\<lparr>fs_sb := b\<rparr>" for t
    using that
    by (auto simp: bio_inv_def bio_ok_def buf_ok_def sl_mine_def fun_eq_iff content_def has_def dirty_def
        blk_of_def dat_of_def cong: option.case_cong)
  then show "P (s\<lparr>icache := a\<rparr>)" "P (s\<lparr>fs_sb := b\<rparr>)"
    by (simp_all add: P_def log_inv_def log_geom_def logged_def)
qed

lemmas fs_upd_simps [simp] =
  fs_upd [THEN conjunct1, rule_format] fs_upd [THEN conjunct2, THEN conjunct1, rule_format]
  fs_upd [THEN conjunct2, THEN conjunct2, THEN conjunct1]
  fs_upd [THEN conjunct2, THEN conjunct2, THEN conjunct2, THEN conjunct1]
  fs_upd [THEN conjunct2, THEN conjunct2, THEN conjunct2, THEN conjunct2, THEN conjunct1]
  fs_upd [THEN conjunct2, THEN conjunct2, THEN conjunct2, THEN conjunct2, THEN conjunct2, THEN conjunct1]
  fs_upd [THEN conjunct2, THEN conjunct2, THEN conjunct2, THEN conjunct2, THEN conjunct2, THEN conjunct2]

section \<open>The inode cache\<close>

text \<open>Reference counts are not negative, and no inode is in the cache twice.\<close>

definition icache_ok :: "inode list \<Rightarrow> bool" where
  "icache_ok ic \<longleftrightarrow> (\<forall>i<length ic. 0 \<le>s i_ref (ic ! i)) \<and>
     (\<forall>i<length ic. \<forall>j<length ic. 0 <s i_ref (ic ! i) \<longrightarrow> 0 <s i_ref (ic ! j) \<longrightarrow>
        i_dev (ic ! i) = i_dev (ic ! j) \<longrightarrow> i_inum (ic ! i) = i_inum (ic ! j) \<longrightarrow> i = j)"

lemma sless_succ:
  "0 <s (r :: sint32) \<Longrightarrow> r \<noteq> 0x7FFFFFFF \<Longrightarrow> 0 <s r + 1"
proof -
  assume r: "0 <s r" "r \<noteq> 0x7FFFFFFF"
  have "0 < sint r" using r(1) by (simp add: word_sless_alt)
  moreover have "sint r < 2 ^ 31" using sint_less [of r] by simp
  moreover have "sint r \<noteq> 2 ^ 31 - 1"
  proof
    assume "sint r = 2 ^ 31 - 1"
    moreover have "r = of_int (sint r)" by simp
    ultimately show False using r(2) by simp
  qed
  ultimately have "sint (r + 1) = sint r + 1" by (simp add: sint_word_ariths signed_take_bit_int_eq_self)
  then show "0 <s r + 1" using \<open>0 < sint r\<close> by (simp add: word_sless_alt)
qed

lemma icache_ok_upd:
  assumes ok: "icache_ok ic" and i: "i < length ic" and r: "0 <s i_ref e"
    and d: "\<forall>j<length ic. j \<noteq> i \<longrightarrow> 0 <s i_ref (ic ! j) \<longrightarrow> \<not> (i_dev (ic ! j) = i_dev e \<and> i_inum (ic ! j) = i_inum e)"
  shows "icache_ok (ic[i := e])"
proof -
  have e: "0 \<le>s i_ref e" using r by (simp add: word_sle_eq word_sless_alt)
  have p: "0 \<le>s i_ref (ic ! k)" if "k < length ic" for k using ok that by (simp add: icache_ok_def)
  have u: "k = j" if "k < length ic" "j < length ic" "0 <s i_ref (ic ! k)" "0 <s i_ref (ic ! j)"
    "i_dev (ic ! k) = i_dev (ic ! j)" "i_inum (ic ! k) = i_inum (ic ! j)" for k j
    using ok that by (simp add: icache_ok_def)
  show ?thesis
    unfolding icache_ok_def length_list_update
  proof (intro conjI allI impI)
    fix k
    assume k: "k < length ic"
    then show "0 \<le>s i_ref (ic[i := e] ! k)" using e p by (cases "k = i") simp_all
    fix j
    assume j: "j < length ic" and a: "0 <s i_ref (ic[i := e] ! k)" "0 <s i_ref (ic[i := e] ! j)"
      "i_dev (ic[i := e] ! k) = i_dev (ic[i := e] ! j)" "i_inum (ic[i := e] ! k) = i_inum (ic[i := e] ! j)"
    show "k = j"
    proof (cases "k = i"; cases "j = i")
      assume "k \<noteq> i" "j \<noteq> i"
      then show ?thesis using a u [OF k j] by simp
    qed (use a d i k j in auto)
  qed
qed

lemma iget_run:
  fixes s :: "'z fsst_scheme"
  assumes "IcacheLock \<notin> held s"
  shows "iget dev inum s =
    (case first_index (\<lambda>ip. 0 <s i_ref ip \<and> i_dev ip = dev \<and> i_inum ip = inum) (icache s) of
       Some i \<Rightarrow> Ok i (s\<lparr>icache := (icache s)[i := (icache s ! i)\<lparr>i_ref := i_ref (icache s ! i) + 1\<rparr>]\<rparr>)
     | None \<Rightarrow> (case first_index (\<lambda>ip. i_ref ip = 0) (icache s) of
         None \<Rightarrow> Panic ''iget: no inodes''
       | Some i \<Rightarrow> Ok i (s\<lparr>icache := (icache s)[i := (icache s ! i)
           \<lparr>i_dev := dev, i_inum := inum, i_ref := 1, i_valid := False\<rparr>]\<rparr>)))"
  using assms by (simp add: iget_def run split: option.split)

text \<open>
  C28. The inode cache holds an inode once. \<^verbatim>\<open>iget\<close> panics exactly if the wanted inode is not in the cache and every entry is
  in use. Otherwise it keeps the cache consistent and returns an entry of the inode: if the inode was in use, its entry with
  one more reference and everything else as it was; if not, the first entry that nobody refers to, now with one
  reference and marked as not yet read. No other entry and nothing else in the kernel changes.
\<close>

theorem iget_unique:
  fixes s :: "'z fsst_scheme"
  assumes "icache_ok (icache s)" and "IcacheLock \<notin> held s" and "\<forall>ip\<in>set (icache s). i_ref ip \<noteq> 0x7FFFFFFF"
  shows "if (\<nexists>ip. ip \<in> set (icache s) \<and> 0 <s i_ref ip \<and> i_dev ip = dev \<and> i_inum ip = inum) \<and> (\<forall>ip\<in>set (icache s). i_ref ip \<noteq> 0)
    then iget dev inum s = Panic ''iget: no inodes''
    else \<exists>i e. iget dev inum s = Ok i (s\<lparr>icache := (icache s)[i := e]\<rparr>) \<and> i < length (icache s)
      \<and> icache_ok ((icache s)[i := e]) \<and> i_dev e = dev \<and> i_inum e = inum
      \<and> (if \<exists>ip. ip \<in> set (icache s) \<and> 0 <s i_ref ip \<and> i_dev ip = dev \<and> i_inum ip = inum
         then 0 <s i_ref (icache s ! i) \<and> i_dev (icache s ! i) = dev \<and> i_inum (icache s ! i) = inum
           \<and> e = (icache s ! i)\<lparr>i_ref := i_ref (icache s ! i) + 1\<rparr>
         else i_ref (icache s ! i) = 0 \<and> (\<forall>k<i. i_ref (icache s ! k) \<noteq> 0) \<and> i_ref e = 1 \<and> \<not> i_valid e)"
proof -
  let ?P = "\<lambda>ip. 0 <s i_ref ip \<and> i_dev ip = dev \<and> i_inum ip = inum"
  show ?thesis
  proof (cases "first_index ?P (icache s)")
    case (Some i)
    note P = first_index_SomeD [OF Some]
    let ?e = "(icache s ! i)\<lparr>i_ref := i_ref (icache s ! i) + 1\<rparr>"
    have "icache_ok ((icache s)[i := ?e])"
      using P assms(3) nth_mem [OF P(1)] assms(1) by (intro icache_ok_upd) (auto intro!: sless_succ simp: icache_ok_def)
    moreover have "iget dev inum s = Ok i (s\<lparr>icache := (icache s)[i := ?e]\<rparr>)" by (simp add: iget_run [OF assms(2)] Some)
    moreover have Q: "(\<exists>ip. ip \<in> set (icache s) \<and> ?P ip) = True" using P(1,2) nth_mem by blast
    ultimately show ?thesis using P(1,2)
      by (simp only: Q simp_thms if_True if_False) (intro exI [of _ i] exI [of _ ?e], simp)
  next
    case None
    note N = None [unfolded first_index_None]
    then have Q: "(\<exists>ip. ip \<in> set (icache s) \<and> ?P ip) = False" by blast
    show ?thesis
    proof (cases "first_index (\<lambda>ip. i_ref ip = 0) (icache s)")
      case (Some i)
      note P = first_index_SomeD [OF Some]
      let ?e = "(icache s ! i)\<lparr>i_dev := dev, i_inum := inum, i_ref := 1, i_valid := False\<rparr>"
      have "icache_ok ((icache s)[i := ?e])"
        using P(1) assms(1) N nth_mem [of _ "icache s"] by (intro icache_ok_upd) (auto simp: word_sless_alt)
      moreover have "iget dev inum s = Ok i (s\<lparr>icache := (icache s)[i := ?e]\<rparr>)" by (simp add: iget_run [OF assms(2)] None Some)
      moreover have R: "(\<forall>ip\<in>set (icache s). i_ref ip \<noteq> 0) = False" using P(1,2) nth_mem by blast
      ultimately show ?thesis using P
        by (simp only: Q R simp_thms if_True if_False) (intro exI [of _ i] exI [of _ ?e], simp)
    next
      case none: None
      then have R: "(\<forall>ip\<in>set (icache s). i_ref ip \<noteq> 0) = True" by (simp add: first_index_None)
      show ?thesis by (simp only: Q R simp_thms if_True) (simp add: iget_run [OF assms(2)] None none)
    qed
  qed
qed

definition zero_inode :: inode where
  "zero_inode = \<lparr>i_dev = 0, i_inum = 0, i_ref = 0, i_valid = False, i_type = 0, i_major = 0, i_minor = 0,
     i_nlink = 0, i_size = 0, i_addrs = replicate (NDIRECT + 1) 0\<rparr>"

definition demo_sb :: superblock where
  "demo_sb = \<lparr>sb_size = 50, sb_nblocks = 12, sb_ninodes = 16, sb_nlog = 30, sb_logstart = 2,
     sb_inodestart = 32, sb_bmapstart = 34\<rparr>"

definition with_fs :: "logst \<Rightarrow> fsst" where
  "with_fs s = logst.extend s \<lparr>icache = replicate NINODE zero_inode, fs_sb = demo_sb\<rparr>"

lemma with_fs_simps [simp]:
  "icache (with_fs s) = replicate NINODE zero_inode" "fs_sb (with_fs s) = demo_sb"
  "log_start (with_fs s) = log_start s" "log_size (with_fs s) = log_size s"
  "log_outstanding (with_fs s) = log_outstanding s" "lh_n (with_fs s) = lh_n s" "memdisk (with_fs s) = memdisk s"
  "held (with_fs s) = held s" "cur (with_fs s) = cur s" "procs (with_fs s) = procs s" "slks (with_fs s) = slks s"
  "log_dev (with_fs s) = log_dev s" "lh_block (with_fs s) = lh_block s"
  by (simp_all add: with_fs_def logst.extend_def)

lemma with_fs_log [simp]:
  "bio_inv H (with_fs s) = bio_inv H s" "content (with_fs s) = content s" "dirty (with_fs s) = dirty s"
  "logged (with_fs s) = logged s" "log_inv H (with_fs s) = log_inv H s"
proof -
  show "bio_inv H (with_fs s) = bio_inv H s" "content (with_fs s) = content s" "dirty (with_fs s) = dirty s"
    by (simp_all add: with_fs_def logst.extend_def bio_inv_def bio_ok_def buf_ok_def sl_mine_def dirty_def
        content_def has_def fun_eq_iff cong: option.case_cong)
  then show "logged (with_fs s) = logged s" "log_inv H (with_fs s) = log_inv H s"
    by (simp_all add: logged_def log_inv_def log_geom_def)
qed

theorem iget_unique_witness:
  "\<exists>i e. iget 1 5 (with_fs (with_log (boot_bcache demo_disk))\<lparr>icache := [zero_inode\<lparr>i_ref := 1\<rparr>, zero_inode]\<rparr>) =
      Ok i (with_fs (with_log (boot_bcache demo_disk))\<lparr>icache := [zero_inode\<lparr>i_ref := 1\<rparr>, zero_inode][i := e]\<rparr>) \<and> i = 1 \<and> i_ref e = 1"
proof -
  let ?s = "with_fs (with_log (boot_bcache demo_disk))\<lparr>icache := [zero_inode\<lparr>i_ref := 1\<rparr>, zero_inode]\<rparr>"
  have "icache_ok (icache ?s)" by (simp add: icache_ok_def zero_inode_def word_sless_alt word_sle_eq less_Suc_eq)
  moreover have "IcacheLock \<notin> held ?s" "\<forall>ip\<in>set (icache ?s). i_ref ip \<noteq> 0x7FFFFFFF"
    by (simp_all add: zero_inode_def)
  moreover have Q: "(\<exists>ip. ip \<in> set (icache ?s) \<and> 0 <s i_ref ip \<and> i_dev ip = 1 \<and> i_inum ip = 5) = False" by (auto simp: zero_inode_def)
  moreover have R: "(\<forall>ip\<in>set (icache ?s). i_ref ip \<noteq> 0) = False" by (simp add: zero_inode_def)
  ultimately have "\<exists>i e. iget 1 5 ?s = Ok i (?s\<lparr>icache := (icache ?s)[i := e]\<rparr>) \<and> i < length (icache ?s) \<and> i_ref (icache ?s ! i) = 0 \<and> i_ref e = 1"
    using iget_unique [of ?s 1 5] unfolding Q R simp_thms if_False by blast
  then obtain i e where ie: "iget 1 5 ?s = Ok i (?s\<lparr>icache := (icache ?s)[i := e]\<rparr>)" "i < length (icache ?s)" "i_ref (icache ?s ! i) = 0" "i_ref e = 1"
    by blast
  then have "i = 1" by (cases i) (auto simp: zero_inode_def)
  with ie(1,4) show ?thesis by (intro exI [of _ i] exI [of _ e]) simp
qed

section \<open>Paths\<close>

text \<open>The elements of a path: what stands between slashes, up to the NUL, and is not empty.\<close>

fun split_slash :: "uchar list \<Rightarrow> uchar list list" where
  "split_slash [] = [[]]"
| "split_slash (c # cs) = (if c = slash then [] # split_slash cs
     else case split_slash cs of e # es \<Rightarrow> (c # e) # es | [] \<Rightarrow> [[c]])"

definition path_elems :: "uchar list \<Rightarrow> uchar list list" where
  "path_elems p = filter (\<lambda>e. e \<noteq> []) (split_slash (cstr p))"

lemma split_slash_ne [simp]: "split_slash p \<noteq> []"
  by (induction p) (auto split: list.split)

lemma split_slash_app:
  "slash \<notin> set e \<Longrightarrow> split_slash (e @ r) = (e @ hd (split_slash r)) # tl (split_slash r)"
proof (induction e)
  case Nil
  then show ?case by simp
next
  case (Cons c e)
  then show ?case by (auto split: list.split)
qed

lemma path_elems_slash [simp]: "path_elems (slash # p) = path_elems p"
  by (simp add: path_elems_def cstr_def)

lemma path_elems_dropWhile: "path_elems (dropWhile (\<lambda>c. c = slash) p) = path_elems p"
  by (induction p) auto

lemma path_elems_nil: "head0 p = 0 \<Longrightarrow> path_elems p = []"
  by (cases p) (auto simp: path_elems_def cstr_def)

lemma skip_split:
  assumes p: "p = c # p'" "c \<noteq> slash" "c \<noteq> 0"
  defines "e \<equiv> takeWhile (\<lambda>c. c \<noteq> slash \<and> c \<noteq> 0) p" and "q \<equiv> dropWhile (\<lambda>c. c \<noteq> slash \<and> c \<noteq> 0) p"
  shows "e \<noteq> []" and "drop (length e) p = q" and "path_elems p = e # path_elems q"
proof -
  show ne: "e \<noteq> []" using p by (simp add: e_def)
  show "drop (length e) p = q" by (simp add: e_def q_def dropWhile_eq_drop)
  have eq: "p = e @ q" by (simp add: e_def q_def)
  have e: "slash \<notin> set e" "\<forall>c\<in>set e. c \<noteq> 0" by (auto simp: e_def dest: set_takeWhileD)
  have qh: "q = [] \<or> hd q = slash \<or> hd q = 0"
    using hd_dropWhile [of "\<lambda>c. c \<noteq> slash \<and> c \<noteq> 0" p] by (auto simp: q_def)
  have "cstr (e @ q) = e @ cstr q" using e(2) by (simp add: cstr_def takeWhile_append2)
  then have c: "cstr p = e @ cstr q" by (simp only: eq [symmetric])
  have h: "hd (split_slash (cstr q)) = []" using qh by (cases q) (auto simp: cstr_def)
  have "path_elems p = e # filter (\<lambda>e. e \<noteq> []) (tl (split_slash (cstr q)))"
    using split_slash_app [OF e(1), of "cstr q"] ne h by (simp add: path_elems_def c)
  also have "filter (\<lambda>e. e \<noteq> []) (tl (split_slash (cstr q))) = path_elems q"
    using h by (cases "split_slash (cstr q)") (auto simp: path_elems_def)
  finally show "path_elems p = e # path_elems q" .
qed

lemma path_elems_ne:
  assumes "head0 r \<noteq> 0" and "head0 r \<noteq> slash"
  shows "path_elems r \<noteq> []"
  using assms by (cases r) (auto simp: path_elems_def cstr_def split: list.split)

lemma head0_dropWhile: "head0 (dropWhile (\<lambda>c. c = slash) q) \<noteq> slash"
  by (induction q) auto

text \<open>
  C29. Parsing a path. \<^verbatim>\<open>skipelem\<close> returns null exactly if the path has no elements left; otherwise the
  first element, cut to \<^verbatim>\<open>DIRSIZ\<close> bytes, and a rest whose elements are the remaining ones and which
  does not begin with a slash, so that the rest is empty exactly if the element was the last.
\<close>

theorem skipelem_elems:
  "case skipelem path of
     None \<Rightarrow> path_elems path = []
   | Some (e, rest) \<Rightarrow> \<exists>full. path_elems path = full # path_elems rest \<and> e = take DIRSIZ full
       \<and> head0 rest \<noteq> slash \<and> (head0 rest = 0 \<longleftrightarrow> path_elems rest = [])"
proof -
  define p where "p = dropWhile (\<lambda>c. c = slash) path"
  have pe: "path_elems path = path_elems p" by (simp add: p_def path_elems_dropWhile)
  show ?thesis
  proof (cases "head0 p = 0")
    case True
    then show ?thesis using path_elems_nil [OF True] by (simp add: skipelem_def pe flip: p_def)
  next
    case False
    then obtain c p' where c: "p = c # p'" "c \<noteq> 0" by (cases p) auto
    have "c \<noteq> slash" using head0_dropWhile [of path, folded p_def] c by simp
    note sp = skip_split [OF c(1) this c(2)]
    define q where "q = dropWhile (\<lambda>c. c \<noteq> slash \<and> c \<noteq> 0) p"
    define r where "r = dropWhile (\<lambda>c. c = slash) q"
    have "path_elems r = path_elems q" by (simp add: r_def path_elems_dropWhile)
    moreover have "head0 r \<noteq> slash" unfolding r_def by (rule head0_dropWhile)
    moreover have "head0 r = 0 \<longleftrightarrow> path_elems r = []"
      using path_elems_nil path_elems_ne calculation(2) by blast
    moreover have "skipelem path = Some (take DIRSIZ (takeWhile (\<lambda>c. c \<noteq> slash \<and> c \<noteq> 0) p), r)"
      using False sp(2) by (simp add: skipelem_def Let_def r_def q_def flip: p_def)
    ultimately show ?thesis using sp(3) by (simp add: pe q_def)
  qed
qed

section \<open>Inodes on the disk\<close>

text \<open>Where the inodes are: in blocks of the disk outside the log.\<close>

definition inodes_at :: "'z fsst_scheme \<Rightarrow> bool" where
  "inodes_at s \<longleftrightarrow> length (memdisk s) \<le> 2 ^ 32 \<and>
     (\<forall>n<unat (sb_ninodes (fs_sb s)). n div IPB + unat (sb_inodestart (fs_sb s)) < length (memdisk s)
        \<and> n div IPB + unat (sb_inodestart (fs_sb s)) \<notin> log_area s)"

definition iblk :: "'z fsst_scheme \<Rightarrow> nat \<Rightarrow> nat" where
  "iblk s n = n div IPB + unat (sb_inodestart (fs_sb s))"

definition disk_inode :: "'z fsst_scheme \<Rightarrow> nat \<Rightarrow> dinode" where
  "disk_inode s n = dinode_get (content s (iblk s n)) (64 * (n mod IPB))"

lemma IBLOCK_iblk:
  fixes s :: "'z fsst_scheme"
  assumes "inodes_at s" and "n < unat (sb_ninodes (fs_sb s))"
  shows "unat (IBLOCK n (fs_sb s)) = iblk s n" and "iblk s n < length (memdisk s)" and "iblk s n \<notin> log_area s"
proof -
  have g: "iblk s n < length (memdisk s)" "iblk s n \<notin> log_area s" "length (memdisk s) \<le> 2 ^ 32"
    using assms by (auto simp: inodes_at_def iblk_def)
  then have "unat (sb_inodestart (fs_sb s) + of_nat (n div IPB)) = unat (sb_inodestart (fs_sb s)) + n div IPB"
    by (intro unat_add_of_nat) (simp add: iblk_def)
  then show "unat (IBLOCK n (fs_sb s)) = iblk s n" by (simp add: IBLOCK_def iblk_def ac_simps)
  show "iblk s n < length (memdisk s)" "iblk s n \<notin> log_area s" by (rule g(1), rule g(2))
qed

lemma inode_slot: "64 * (n mod IPB) + 64 \<le> BSIZE"
proof -
  have "n mod 8 < 8" by simp
  then show ?thesis unfolding IPB_def BSIZE_def by simp
qed

lemma iupdate_ok:
  fixes s :: "'z fsst_scheme"
  defines "ip \<equiv> \<lambda>i. icache s ! i" and "n \<equiv> \<lambda>i. unat (i_inum (icache s ! i))"
  assumes s: "log_inv {} s" and g: "inodes_at s" and n: "n i < unat (sb_ninodes (fs_sb s))"
    and ip: "i_dev (ip i) = 1" "length (i_addrs (ip i)) = NDIRECT + 1"
    and room: "length (logged s) + 1 < unat (log_size s)" "1 \<le>s log_outstanding s"
  shows "wpk (iupdate i) (\<lambda>_ t. log_inv {} t
    \<and> content t = (content s)(iblk s (n i) := dinode_put (64 * (n i mod IPB)) (to_dinode (ip i)) (content s (iblk s (n i))))
    \<and> logged t = (if iblk s (n i) \<in> set (logged s) then logged s else logged s @ [iblk s (n i)])
    \<and> memdisk t = memdisk s \<and> log_frame s t) s"
proof -
  note a = IBLOCK_iblk [OF g n]
  have len: "length (dinode_put (64 * (n i mod IPB)) (to_dinode (ip i)) (content s (iblk s (n i)))) = BSIZE"
    using bc.cont_len [OF log_invD(1) [OF s] a(2)] by simp
  have "unat (lh_n s) + 1 < unat (log_size s)" using room(1) log_invD(8) [OF s] by simp
  with logged_update [OF s, of "IBLOCK (n i) (fs_sb s)" "dinode_put (64 * (n i mod IPB)) (to_dinode (ip i))"] a len room(2)
  show ?thesis
    by (auto elim!: wpk_mono simp: iupdate_def wp ip(1) [unfolded ip_def] ip_def n_def)
qed

lemma iread_ok:
  fixes s :: "'z fsst_scheme"
  defines "n \<equiv> \<lambda>i. unat (i_inum (icache s ! i))"
  assumes s: "log_inv {} s" and g: "inodes_at s" and n: "n i < unat (sb_ninodes (fs_sb s))"
    and i: "i < length (icache s)" "i_dev (icache s ! i) = 1" and ty: "di_type (disk_inode s (n i)) \<noteq> 0"
  shows "wpk (iread i) (\<lambda>_ t. log_inv {} t \<and> content t = content s \<and> memdisk t = memdisk s \<and> logged t = logged s
    \<and> icache t = (icache s)[i := (from_dinode (disk_inode s (n i)) (icache s ! i))\<lparr>i_valid := True\<rparr>]
    \<and> fs_sb t = fs_sb s \<and> held t = held s \<and> cur t = cur s
    \<and> (\<forall>j. slks t (InodeSL j) = slks s (InodeSL j)) \<and> roused (procs s) (procs t)) s"
proof -
  note a = IBLOCK_iblk [OF g n] and inv = log_invD(1) [OF s]
  have ni: "unat (i_inum (icache s ! i)) = n i" by (simp add: n_def)
  let ?D = "from_dinode (disk_inode s (n i)) (icache s ! i)"
  from bc.rd_law [OF inv, of "IBLOCK (n i) (fs_sb s)"] a log_room [OF s, of "iblk s (n i)"] obtain b t
    where e1: "bread 1 (IBLOCK (n i) (fs_sb s)) s = Ok b t"
    and t: "bio_inv {b} t" "blk_of t b = iblk s (n i)" "dat_of t b = content s (iblk s (n i))" "content t = content s"
      "dirty t = dirty s" "memdisk t = memdisk s" "bio_frame s t"
    by (auto elim!: wpkE)
  have f: "icache t = icache s" by (rule bio_frame_fs [OF t(7)])
  have dat: "b_data (bufs t ! b) = content s (iblk s (n i))" using t(3) by (simp add: dat_of_def)
  let ?t = "t\<lparr>icache := (icache s)[i := ?D]\<rparr>"
  have "dirty s (iblk s (n i)) \<or> content s (iblk s (n i)) = memdisk s ! iblk s (n i)"
    using bc.clean_cont [OF inv a(2)] by blast
  then have "bio_inv {b} ?t" "dirty ?t (blk_of ?t b) \<or> dat_of ?t b = memdisk ?t ! blk_of ?t b" using t by simp_all
  with bc.rl_law [of "{b}" ?t b] obtain u where e2: "brelse b ?t = Ok () u"
    and u: "bio_inv {} u" "content u = content s" "dirty u = dirty s" "memdisk u = memdisk s" "bio_frame ?t u"
    by (auto elim!: wpkE simp: t(4-6))
  have fu: "icache u = (icache s)[i := ?D]" using bio_frame_fs(1) [OF u(5)] by simp
  have lf: "log_frame ?t u" by (rule log_frame_bio [OF u(5)])
  have fs: "fs_sb u = fs_sb s" "held u = held s" "cur u = cur s" "\<forall>j. slks u (InodeSL j) = slks s (InodeSL j)"
    "roused (procs s) (procs u)" "lh_n u = lh_n s" "lh_block u = lh_block s" "log_start u = log_start s"
    "log_size u = log_size s" "log_dev u = log_dev s"
    using bio_frame_fs(2) [OF u(5)] bio_frame_fs(2) [OF t(7)] log_frame_fields [OF lf] log_frame_fields [OF log_frame_bio [OF t(7)]]
      bio_frame_log [OF u(5)] bio_frame_log [OF t(7)]
    by (auto intro: roused_trans)
  have lg: "logged u = logged s" by (simp add: logged_def fs)
  have "log_inv {} u" using s u lg by (simp add: log_inv_def log_geom_def fs)
  moreover have "iread i s = Ok () (u\<lparr>icache := (icache s)[i := ?D\<lparr>i_valid := True\<rparr>]\<rparr>)"
    using e1 e2 ty i f ni by (simp add: iread_def run dat disk_inode_def fu from_dinode_def)
  ultimately show ?thesis using u fs lg by (simp add: wpk_def)
qed

lemma iread_unfold_n [simp]: "to_dinode (from_dinode d ip) = d"
  by (simp add: to_dinode_def from_dinode_def)

lemma disk_inode_put:
  fixes s t :: "'z fsst_scheme"
  assumes s: "bio_inv {} s" and g: "inodes_at s" and n: "n < unat (sb_ninodes (fs_sb s))"
    and m: "m < unat (sb_ninodes (fs_sb s))" and sb: "fs_sb t = fs_sb s" and d: "length (di_addrs d) = NDIRECT + 1"
    and c: "content t = (content s)(iblk s n := dinode_put (64 * (n mod IPB)) d (content s (iblk s n)))"
  shows "disk_inode t m = (if m = n then d else disk_inode s m)"
proof -
  have len: "length (content s (iblk s n)) = BSIZE" by (rule bc.cont_len [OF s IBLOCK_iblk(2) [OF g n]])
  have b: "iblk t k = iblk s k" for k by (simp add: iblk_def sb)
  consider (same) "m = n" | (off) "m \<noteq> n" "iblk s m = iblk s n" | (other) "iblk s m \<noteq> iblk s n" by blast
  then show ?thesis
  proof cases
    case same
    then show ?thesis
      using dinode_get_put [OF d, of "64 * (n mod IPB)"] inode_slot [of n] len by (simp add: disk_inode_def b c)
  next
    case off
    have "m mod IPB \<noteq> n mod IPB"
    proof
      assume "m mod IPB = n mod IPB"
      moreover have "m div IPB = n div IPB" using off(2) by (simp add: iblk_def)
      ultimately show False using off(1) by (metis div_mult_mod_eq)
    qed
    then have "64 * (m mod IPB) + 64 \<le> 64 * (n mod IPB) \<or> 64 * (n mod IPB) + 64 \<le> 64 * (m mod IPB)"
      by arith
    then show ?thesis using dinode_get_other [OF d] off by (simp add: disk_inode_def b c)
  next
    case other
    then show ?thesis by (auto simp: disk_inode_def b c)
  qed
qed

lemma iblk_upd [simp]: "iblk (s\<lparr>slks := x\<rparr>) = iblk (s :: 'z fsst_scheme)"
  by (simp add: iblk_def fun_eq_iff)

lemma sl_take_inode:
  fixes s :: "'z fsst_scheme"
  shows "log_inv {} (sl_take (InodeSL i) s) = log_inv {} s" "content (sl_take (InodeSL i) s) = content s"
    "icache (sl_take (InodeSL i) s) = icache s" "fs_sb (sl_take (InodeSL i) s) = fs_sb s"
    "memdisk (sl_take (InodeSL i) s) = memdisk s" "log_start (sl_take (InodeSL i) s) = log_start s"
    "log_size (sl_take (InodeSL i) s) = log_size s" "logged (sl_take (InodeSL i) s) = logged s"
  by (simp_all add: sl_take_def log_inv_def bio_inv_def bio_ok_def buf_ok_def sl_mine_def log_geom_def
      logged_def dirty_def content_def has_def fun_eq_iff cong: option.case_cong)

lemma ilock_ok:
  fixes s :: "'z fsst_scheme"
  defines "n \<equiv> \<lambda>i. unat (i_inum (icache s ! i))"
  assumes s: "log_inv {} s" and g: "inodes_at s" and n: "n i < unat (sb_ninodes (fs_sb s))"
    and i: "i < length (icache s)" "i_dev (icache s ! i) = 1" and ty: "di_type (disk_inode s (n i)) \<noteq> 0"
    and r: "1 \<le>s i_ref (icache s ! i)" and free: "\<not> sl_locked (slks s (InodeSL i))" and v: "\<not> i_valid (icache s ! i)"
  shows "wpk (ilock (Some i)) (\<lambda>_ t. log_inv {} t \<and> content t = content s \<and> sl_mine (InodeSL i) t
    \<and> icache t = (icache s)[i := (from_dinode (disk_inode s (n i)) (icache s ! i))\<lparr>i_valid := True\<rparr>]) s"
proof -
  obtain ord p where ok: "bio_ok ord {} s" and p: "cur s = Some p" "p < length (procs s)"
    using log_invD(1) [OF s] bio_okD(5) unfolding bio_inv_def by metis
  have hl: "held s = {}" by (rule bio_okD(3) [OF ok])
  let ?s = "sl_take (InodeSL i) s"
  have ref: "\<not> i_ref (icache s ! i) <s 1" using r by (simp add: word_sle_eq word_sless_alt)
  have ib: "iblk ?s = iblk s" by (simp add: iblk_def fun_eq_iff sl_take_inode)
  have "inodes_at ?s" using g by (simp add: inodes_at_def sl_take_inode)
  with iread_ok [of ?s i] s n i ty have "wpk (iread i) (\<lambda>_ t. log_inv {} t \<and> content t = content s
      \<and> icache t = (icache s)[i := (from_dinode (disk_inode s (n i)) (icache s ! i))\<lparr>i_valid := True\<rparr>]
      \<and> cur t = cur s \<and> slks t (InodeSL i) = slks ?s (InodeSL i) \<and> roused (procs s) (procs t)) ?s"
    by (auto elim!: wpk_mono simp: sl_take_inode n_def disk_inode_def ib)
  then have "wpk (iread i) (\<lambda>_ t. log_inv {} t \<and> content t = content s \<and> sl_mine (InodeSL i) t
      \<and> icache t = (icache s)[i := (from_dinode (disk_inode s (n i)) (icache s ! i))\<lparr>i_valid := True\<rparr>]) ?s"
    by (rule wpk_mono) (use p rousedD(3) in \<open>auto simp: sl_mine_def\<close>)
  then show ?thesis
    using hl free p v ref
    by (simp add: ilock_def wp_bind wp_get_inode wp_seq wp_check wp_acquiresleep wp_when sl_take_inode)
qed

text \<open>What an inode on the disk, and another entry of the cache, has in common with a cached inode.\<close>

definition stored_as :: "dinode \<Rightarrow> inode \<Rightarrow> bool" where
  "stored_as d ip \<longleftrightarrow> di_type d = i_type ip \<and> di_major d = i_major ip \<and> di_minor d = i_minor ip \<and> di_nlink d = i_nlink ip
     \<and> di_size d = i_size ip \<and> di_addrs d = i_addrs ip"

definition same_data :: "inode \<Rightarrow> inode \<Rightarrow> bool" where
  "same_data ip jp \<longleftrightarrow> i_type ip = i_type jp \<and> i_major ip = i_major jp \<and> i_minor ip = i_minor jp \<and> i_nlink ip = i_nlink jp
     \<and> i_size ip = i_size jp \<and> i_addrs ip = i_addrs jp"

lemma stored_to_dinode: "stored_as (to_dinode ip) ip" "length (di_addrs (to_dinode ip)) = length (i_addrs ip)"
  by (simp_all add: stored_as_def to_dinode_def)

lemma stored_from_dinode: "stored_as d jp \<Longrightarrow> same_data (from_dinode d ip) jp"
  by (simp add: stored_as_def same_data_def from_dinode_def)

lemma from_dinode_rest: "i_dev (from_dinode d ip) = i_dev ip" "i_inum (from_dinode d ip) = i_inum ip" "i_ref (from_dinode d ip) = i_ref ip"
  by (simp_all add: from_dinode_def)

lemma same_data_valid [simp]: "same_data (ip\<lparr>i_valid := v\<rparr>) jp = same_data ip jp"
  by (simp add: same_data_def)

text \<open>
  C27. An inode written with \<^verbatim>\<open>iupdate\<close> reads back. In a transaction with room, \<^verbatim>\<open>iupdate\<close> of a cached inode stores its type,
  device numbers, link count, size and block addresses in this inode of the disk, as the cache shows it, and changes no
  other inode. Whatever then happens to the cache of inodes, an entry \<open>j\<close> of a consistent cache for the same inode that is
  referenced, unlocked and not yet read gets exactly these fields from \<^verbatim>\<open>ilock\<close>, with its lock held; nothing else in
  the cache changes.
\<close>

theorem inode_roundtrip:
  fixes s :: "'z fsst_scheme"
  assumes "log_inv {} s" and "inodes_at s" and "unat (i_inum (icache s ! i)) < unat (sb_ninodes (fs_sb s))"
    and "i_dev (icache s ! i) = 1" and "length (i_addrs (icache s ! i)) = NDIRECT + 1" and "i_type (icache s ! i) \<noteq> 0"
    and "length (logged s) + 1 < unat (log_size s)" and "1 \<le>s log_outstanding s"
  shows "wpk (iupdate i) (\<lambda>_ t. icache t = icache s \<and> stored_as (disk_inode t (unat (i_inum (icache s ! i)))) (icache s ! i)
      \<and> (\<forall>m<unat (sb_ninodes (fs_sb s)). m \<noteq> unat (i_inum (icache s ! i)) \<longrightarrow> disk_inode t m = disk_inode s m)
      \<and> (\<forall>ic j. icache_ok ic \<longrightarrow> j < length ic \<longrightarrow> i_dev (ic ! j) = 1 \<longrightarrow> i_inum (ic ! j) = i_inum (icache s ! i) \<longrightarrow>
          1 \<le>s i_ref (ic ! j) \<longrightarrow> \<not> i_valid (ic ! j) \<longrightarrow> \<not> sl_locked (slks s (InodeSL j)) \<longrightarrow>
          wpk (ilock (Some j)) (\<lambda>_ u. log_inv {} u \<and> sl_mine (InodeSL j) u
            \<and> same_data (icache u ! j) (icache s ! i) \<and> i_valid (icache u ! j) \<and> i_dev (icache u ! j) = 1
            \<and> i_inum (icache u ! j) = i_inum (icache s ! i) \<and> i_ref (icache u ! j) = i_ref (ic ! j)
            \<and> (\<forall>k. k \<noteq> j \<longrightarrow> icache u ! k = ic ! k)) (t\<lparr>icache := ic\<rparr>))) s"
proof (rule wpk_mono [OF iupdate_ok [OF assms(1-5,7,8)]])
  fix t :: "'z fsst_scheme"
  let ?ip = "icache s ! i" and ?n = "unat (i_inum (icache s ! i))"
  assume a: "log_inv {} t
    \<and> content t = (content s)(iblk s ?n := dinode_put (64 * (?n mod IPB)) (to_dinode ?ip) (content s (iblk s ?n)))
    \<and> logged t = (if iblk s ?n \<in> set (logged s) then logged s else logged s @ [iblk s ?n])
    \<and> memdisk t = memdisk s \<and> log_frame s t"
  then have f: "icache t = icache s" "fs_sb t = fs_sb s" "log_start t = log_start s" "log_size t = log_size s"
    "\<forall>j. slks t (InodeSL j) = slks s (InodeSL j)"
    using log_frame_fs [of s t] log_frame_fields [of s t] by auto
  have d: "disk_inode t m = (if m = ?n then to_dinode ?ip else disk_inode s m)" if "m < unat (sb_ninodes (fs_sb s))" for m
    using disk_inode_put [OF log_invD(1) [OF assms(1)] assms(2,3) that f(2), of "to_dinode ?ip"] a assms(5)
    by (simp add: stored_to_dinode)
  have st: "stored_as (disk_inode t ?n) ?ip" using d [OF assms(3)] by (simp add: stored_to_dinode)
  have at: "inodes_at t" using assms(2) a f by (simp add: inodes_at_def)
  have "wpk (ilock (Some j)) (\<lambda>_ u. log_inv {} u \<and> sl_mine (InodeSL j) u
            \<and> same_data (icache u ! j) ?ip \<and> i_valid (icache u ! j) \<and> i_dev (icache u ! j) = 1
            \<and> i_inum (icache u ! j) = i_inum ?ip \<and> i_ref (icache u ! j) = i_ref (ic ! j)
            \<and> (\<forall>k. k \<noteq> j \<longrightarrow> icache u ! k = ic ! k)) (t\<lparr>icache := ic\<rparr>)"
    if j: "j < length ic" "i_dev (ic ! j) = 1" "i_inum (ic ! j) = i_inum ?ip" "1 \<le>s i_ref (ic ! j)" "\<not> i_valid (ic ! j)"
      "\<not> sl_locked (slks s (InodeSL j))" for ic j
  proof -
    let ?v = "t\<lparr>icache := ic\<rparr>"
    have b: "iblk ?v = iblk t" by (simp add: iblk_def fun_eq_iff)
    have di: "disk_inode ?v ?n = disk_inode t ?n" by (simp add: disk_inode_def b)
    have "inodes_at ?v" using at by (simp add: inodes_at_def)
    moreover have "di_type (disk_inode ?v ?n) \<noteq> 0" using st assms(6) by (simp add: di stored_as_def)
    ultimately have "wpk (ilock (Some j)) (\<lambda>_ u. log_inv {} u \<and> content u = content ?v \<and> sl_mine (InodeSL j) u
      \<and> icache u = (icache ?v)[j := (from_dinode (disk_inode ?v (unat (i_inum (icache ?v ! j)))) (icache ?v ! j))\<lparr>i_valid := True\<rparr>]) ?v"
      using a assms(3) j f by (intro ilock_ok) simp_all
    then show ?thesis
      by (rule wpk_mono) (use j st in \<open>auto simp: di stored_from_dinode from_dinode_rest\<close>)
  qed
  then show "icache t = icache s \<and> stored_as (disk_inode t ?n) ?ip
      \<and> (\<forall>m<unat (sb_ninodes (fs_sb s)). m \<noteq> ?n \<longrightarrow> disk_inode t m = disk_inode s m)
      \<and> (\<forall>ic j. icache_ok ic \<longrightarrow> j < length ic \<longrightarrow> i_dev (ic ! j) = 1 \<longrightarrow> i_inum (ic ! j) = i_inum ?ip \<longrightarrow>
          1 \<le>s i_ref (ic ! j) \<longrightarrow> \<not> i_valid (ic ! j) \<longrightarrow> \<not> sl_locked (slks s (InodeSL j)) \<longrightarrow>
          wpk (ilock (Some j)) (\<lambda>_ u. log_inv {} u \<and> sl_mine (InodeSL j) u
            \<and> same_data (icache u ! j) ?ip \<and> i_valid (icache u ! j) \<and> i_dev (icache u ! j) = 1
            \<and> i_inum (icache u ! j) = i_inum ?ip \<and> i_ref (icache u ! j) = i_ref (ic ! j)
            \<and> (\<forall>k. k \<noteq> j \<longrightarrow> icache u ! k = ic ! k)) (t\<lparr>icache := ic\<rparr>))" using f(1) st d by auto
qed

lemma fs_upd_slk:
  fixes s :: "'z fsst_scheme"
  shows "log_inv H (s\<lparr>slks := (slks s)(InodeSL i := x)\<rparr>) = log_inv H s"
  by (simp add: log_inv_def bio_inv_def bio_ok_def buf_ok_def sl_mine_def log_geom_def logged_def dirty_def)

lemma demo_inodes_at: "memdisk s = demo_disk \<Longrightarrow> log_start s = 2 \<Longrightarrow> log_size s = 30 \<Longrightarrow> fs_sb s = demo_sb \<Longrightarrow> inodes_at s"
  by (auto simp: inodes_at_def demo_sb_def demo_disk_def IPB_def BSIZE_def)

theorem inode_roundtrip_witness:
  "\<exists>s ic. i_nlink (icache (s :: fsst) ! 0) = 3 \<and> i_nlink (ic ! 0) = 0 \<and> icache_ok (icache s) \<and> icache_ok ic
     \<and> wpk (iupdate 0) (\<lambda>_ t. wpk (ilock (Some 0)) (\<lambda>_ u. i_nlink (icache u ! 0) = 3 \<and> i_size (icache u ! 0) = 77) (t\<lparr>icache := ic\<rparr>)) s"
proof -
  obtain t where t: "log_inv {} (with_log t)" "memdisk t = demo_disk" by (rule demo_log)
  let ?A = "zero_inode\<lparr>i_dev := 1, i_inum := 5, i_ref := 1, i_valid := True, i_type := 2, i_nlink := 3, i_size := 77\<rparr>"
  let ?ic = "[zero_inode\<lparr>i_dev := 1, i_inum := 5, i_ref := 1\<rparr>]"
  let ?s = "(with_fs (with_log t))\<lparr>icache := [?A],
    slks := (slks (with_fs (with_log t)))(InodeSL 0 := \<lparr>sl_locked = False, sl_name = [], sl_pid = 0\<rparr>)\<rparr>"
  have "log_inv {} ?s" using t(1) fs_upd_slk [of "{}" "with_fs (with_log t)\<lparr>icache := [?A]\<rparr>"] by simp
  moreover have "inodes_at ?s" by (rule demo_inodes_at) (simp_all add: t(2))
  moreover have ok: "icache_ok ?ic" "icache_ok [?A]" by (simp_all add: icache_ok_def zero_inode_def word_sle_eq)
  ultimately have "wpk (iupdate 0) (\<lambda>_ t. wpk (ilock (Some 0)) (\<lambda>_ u. same_data (icache u ! 0) ?A) (t\<lparr>icache := ?ic\<rparr>)) ?s"
    using inode_roundtrip [of ?s 0]
    by (auto elim!: wpk_mono simp: zero_inode_def demo_sb_def logged_def)
  then have "wpk (iupdate 0) (\<lambda>_ t. wpk (ilock (Some 0)) (\<lambda>_ u. i_nlink (icache u ! 0) = 3 \<and> i_size (icache u ! 0) = 77) (t\<lparr>icache := ?ic\<rparr>)) ?s"
    by (auto elim!: wpk_mono simp: same_data_def)
  then show ?thesis using ok by (intro exI [of _ ?s] exI [of _ ?ic]) (simp add: zero_inode_def)
qed

section \<open>The free-block map\<close>

text \<open>\<open>bfree_at\<close>: whether the bit of block \<open>b\<close> is clear, in the blocks \<open>c\<close>.\<close>

definition bblk :: "superblock \<Rightarrow> nat \<Rightarrow> nat" where
  "bblk sb b = b div BPB + unat (sb_bmapstart sb)"

definition bfree_at :: "(nat \<Rightarrow> uchar list) \<Rightarrow> superblock \<Rightarrow> nat \<Rightarrow> bool" where
  "bfree_at c sb b \<longleftrightarrow> bit_clear (c (bblk sb b)) (b mod BPB)"

text \<open>Where the map is, and that free blocks are neither in the log nor in the map itself.\<close>

definition bitmap_at :: "superblock \<Rightarrow> 'z logst_scheme \<Rightarrow> bool" where
  "bitmap_at sb s \<longleftrightarrow> length (memdisk s) \<le> 2 ^ 32 \<and> unat (sb_size sb) \<le> length (memdisk s) \<and>
     (\<forall>b<unat (sb_size sb). bblk sb b < length (memdisk s) \<and> bblk sb b \<notin> log_area s \<and>
        (bfree_at (content s) sb b \<longrightarrow> b \<notin> log_area s \<and> (\<forall>x<unat (sb_size sb). bblk sb x \<noteq> b)))"

lemma BPB_pos [simp]: "0 < BPB"
  by (simp add: BPB_def BSIZE_def)

lemma BBLOCK_bblk:
  assumes "bitmap_at sb s" and "b < unat (sb_size sb)"
  shows "unat (BBLOCK b sb) = bblk sb b"
proof -
  have "bblk sb b < 2 ^ 32" using assms by (fastforce simp: bitmap_at_def)
  then have "unat (sb_bmapstart sb + of_nat (b div BPB)) = unat (sb_bmapstart sb) + b div BPB"
    by (intro unat_add_of_nat) (simp add: bblk_def)
  then show ?thesis by (simp add: BBLOCK_def bblk_def ac_simps)
qed

lemma bitmap_at_cong:
  fixes s t :: "'z logst_scheme"
  assumes "bitmap_at sb s" and "content t = content s" and "memdisk t = memdisk s" and "log_frame s t"
  shows "bitmap_at sb t"
  using assms log_frame_fields [OF assms(4)] by (simp add: bitmap_at_def)

lemma first_index_upt:
  "first_index P [0..<n] = Some i \<longleftrightarrow> i < n \<and> P i \<and> (\<forall>j<i. \<not> P j)"
  by (auto simp: first_index_Some)

lemma length_set_bit [simp]: "length (set_bit_of bi d) = length d"
  and length_clear_bit [simp]: "length (clear_bit_of bi d) = length d"
  by (simp_all add: set_bit_of_def clear_bit_of_def)

lemma bzero_ok:
  fixes s :: "'z logst_scheme"
  assumes "log_inv {} s" and "unat a < length (memdisk s)" and "unat a \<notin> log_area s"
    and "length (logged s) + 1 < unat (log_size s)" and "1 \<le>s log_outstanding s"
  shows "wpk (bzero 1 a) (\<lambda>_ t. log_inv {} t \<and> content t = (content s)(unat a := replicate BSIZE 0)
    \<and> length (logged t) \<le> length (logged s) + 1 \<and> memdisk t = memdisk s \<and> log_frame s t) s"
  unfolding bzero_def
  by (rule wpk_mono [OF logged_update [where f = "\<lambda>_. replicate BSIZE 0"]])
    (use assms log_invD(8) [OF assms(1)] in auto)

lemma balloc_take:
  fixes s :: "'z logst_scheme"
  assumes s: "log_inv {} s" and g: "bitmap_at sb s" and b: "b < unat (sb_size sb)" "bfree_at (content s) sb b"
    and room: "length (logged s) + 2 < unat (log_size s)" "1 \<le>s log_outstanding s"
    and bp: "log_inv {bp} t \<and> blk_of t bp = bblk sb b \<and> dat_of t bp = content s (bblk sb b) \<and> content t = content s
      \<and> memdisk t = memdisk s \<and> logged t = logged s \<and> lh_n t = lh_n s \<and> log_frame s t"
  shows "wpk (kseq (bset bp (set_bit_of (b mod BPB))) (kseq (log_write bp) (kseq (brelse bp)
      (kseq (bzero 1 (of_nat b)) (kret (of_nat b :: uint32)))))) (\<lambda>a u. a = of_nat b \<and> log_inv {} u
    \<and> content u = (content s)(bblk sb b := set_bit_of (b mod BPB) (content s (bblk sb b)), b := replicate BSIZE 0)
    \<and> length (logged u) \<le> length (logged s) + 2 \<and> memdisk u = memdisk s \<and> log_frame s u) t"
proof -
  have gb: "bblk sb b < length (memdisk s)" "bblk sb b \<notin> log_area s" "b \<notin> log_area s" "b < length (memdisk s)" "b < 2 ^ 32"
    using g b by (auto simp: bitmap_at_def)
  have f: "log_frame s t" using bp by simp
  note ff = log_frame_fields [OF f]
  have ub: "unat (of_nat b :: uint32) = b" using gb(5) by simp
  have len: "length (content s (bblk sb b)) = BSIZE" by (rule bc.cont_len [OF log_invD(1) [OF s] gb(1)])
  have "wpk (kseq (bset bp (set_bit_of (b mod BPB))) (kseq (log_write bp) (brelse bp))) (\<lambda>_ u. log_inv {} u
    \<and> content u = (content t)(blk_of t bp := set_bit_of (b mod BPB) (dat_of t bp)) \<and> memdisk u = memdisk t \<and> wtrace u = wtrace t
    \<and> logged u = (if blk_of t bp \<in> set (logged t) then logged t else logged t @ [blk_of t bp]) \<and> log_frame t u) t"
    by (rule log_put) (use bp gb len room ff log_invD(8) [OF s] in auto)
  then have "wpk (kseq (bset bp (set_bit_of (b mod BPB))) (kseq (log_write bp) (brelse bp)))
    (\<lambda>_. wpk (kseq (bzero 1 (of_nat b)) (kret (of_nat b :: uint32))) (\<lambda>a u. a = of_nat b \<and> log_inv {} u
    \<and> content u = (content s)(bblk sb b := set_bit_of (b mod BPB) (content s (bblk sb b)), b := replicate BSIZE 0)
    \<and> length (logged u) \<le> length (logged s) + 2 \<and> memdisk u = memdisk s \<and> log_frame s u)) t"
  proof (rule wpk_mono)
    fix v :: "'z logst_scheme"
    assume v: "log_inv {} v \<and> content v = (content t)(blk_of t bp := set_bit_of (b mod BPB) (dat_of t bp))
      \<and> memdisk v = memdisk t \<and> wtrace v = wtrace t
      \<and> logged v = (if blk_of t bp \<in> set (logged t) then logged t else logged t @ [blk_of t bp]) \<and> log_frame t v"
    then have fv: "log_frame s v" using f log_frame_trans by blast
    note fvf = log_frame_fields [OF fv]
    have "length (logged v) \<le> length (logged s) + 1" using v bp by simp
    then have "wpk (bzero 1 (of_nat b)) (\<lambda>_ u. log_inv {} u \<and> content u = (content v)(unat (of_nat b :: uint32) := replicate BSIZE 0)
      \<and> length (logged u) \<le> length (logged v) + 1 \<and> memdisk u = memdisk v \<and> log_frame v u) v"
      by (intro bzero_ok) (use v bp gb fvf ub room in auto)
    then show "wpk (kseq (bzero 1 (of_nat b)) (kret (of_nat b :: uint32))) (\<lambda>a u. a = of_nat b \<and> log_inv {} u
      \<and> content u = (content s)(bblk sb b := set_bit_of (b mod BPB) (content s (bblk sb b)), b := replicate BSIZE 0)
      \<and> length (logged u) \<le> length (logged s) + 2 \<and> memdisk u = memdisk s \<and> log_frame s u) v"
      unfolding wp_seq wp_ret
      by (rule wpk_mono) (use v bp ub fv \<open>length (logged v) \<le> length (logged s) + 1\<close> in \<open>auto intro: log_frame_trans\<close>)
  qed
  then show ?thesis by (simp only: wpk_seq)
qed

lemma balloc_scan_ok:
  fixes s :: "'z logst_scheme"
  assumes s: "log_inv {} s" and g: "bitmap_at sb s" and m: "m * BPB < unat (sb_size sb) + BPB"
    and room: "length (logged s) + 2 < unat (log_size s)" "1 \<le>s log_outstanding s"
  shows "(\<forall>b. k * BPB \<le> b \<and> b < m * BPB \<and> b < unat (sb_size sb) \<and> bfree_at (content s) sb b
        \<and> (\<forall>x. k * BPB \<le> x \<longrightarrow> x < b \<longrightarrow> \<not> bfree_at (content s) sb x) \<longrightarrow>
      wpk (balloc_scan 1 sb (map (\<lambda>i. i * BPB) [k..<m])) (\<lambda>a u. a = of_nat b \<and> log_inv {} u
      \<and> content u = (content s)(bblk sb b := set_bit_of (b mod BPB) (content s (bblk sb b)), b := replicate BSIZE 0)
      \<and> length (logged u) \<le> length (logged s) + 2 \<and> memdisk u = memdisk s \<and> log_frame s u) s)
    \<and> ((\<forall>b. k * BPB \<le> b \<longrightarrow> b < m * BPB \<longrightarrow> b < unat (sb_size sb) \<longrightarrow> \<not> bfree_at (content s) sb b) \<longrightarrow>
      (\<exists>e. balloc_scan 1 sb (map (\<lambda>i. i * BPB) [k..<m]) s = Panic e))"
  using s g room
proof (induction "m - k" arbitrary: k s)
  case 0
  then have "[k..<m] = []" "m \<le> k" by simp_all
  then have "m * BPB \<le> k * BPB" by (intro mult_le_mono1) simp
  then have no: "\<not> (k * BPB \<le> b \<and> b < m * BPB)" for b by linarith
  have "\<exists>e. balloc_scan 1 sb (map (\<lambda>i. i * BPB) [k..<m]) s = Panic e"
    unfolding \<open>[k..<m] = []\<close> by simp
  then show ?case using no by blast
next
  case (Suc d)
  have km: "k < m" and up: "[k..<m] = k # [Suc k..<m]" using Suc.hyps(2) by (simp_all add: upt_conv_Cons)
  have "(k + 1) * BPB \<le> m * BPB" using km by (intro mult_le_mono1) simp
  then have kb: "k * BPB < unat (sb_size sb)" using m by simp
  let ?sz = "unat (sb_size sb)" and ?N = "min BPB (unat (sb_size sb) - k * BPB)"
  have bk: "bblk sb (k * BPB + bi) = k + unat (sb_bmapstart sb)" "(k * BPB + bi) mod BPB = bi" if "bi < BPB" for bi
    using that by (simp_all add: bblk_def)
  have bk0: "bblk sb (k * BPB) = k + unat (sb_bmapstart sb)" by (simp add: bblk_def)
  have a: "unat (BBLOCK (k * BPB) sb) = k + unat (sb_bmapstart sb)"
    using BBLOCK_bblk [OF Suc.prems(2) kb] bk0 by simp
  have rg: "k + unat (sb_bmapstart sb) < length (memdisk s)"
    using Suc.prems(2) kb bk0 by (auto simp: bitmap_at_def)
  from log_bread [OF Suc.prems(1), of "BBLOCK (k * BPB) sb"] a rg obtain bp t
    where e: "bread 1 (BBLOCK (k * BPB) sb) s = Ok bp t"
      and t: "log_inv {bp} t" "blk_of t bp = k + unat (sb_bmapstart sb)" "dat_of t bp = content s (k + unat (sb_bmapstart sb))"
        "content t = content s" "memdisk t = memdisk s" "logged t = logged s" "lh_n t = lh_n s" "log_frame s t" "dirty t = dirty s"
    by (auto elim!: wpkE)
  let ?d = "content s (k + unat (sb_bmapstart sb))"
  have d: "b_data (bufs t ! bp) = ?d" using t(3) by (simp add: dat_of_def)
  have fr: "bfree_at (content s) sb (k * BPB + bi) = bit_clear ?d bi" if "bi < BPB" for bi
    using bk [OF that] by (simp add: bfree_at_def)
  show ?case
  proof (cases "first_index (bit_clear ?d) [0..<?N]")
    case (Some bi)
    then have bi: "bi < BPB" "bi < ?sz - k * BPB" "bit_clear ?d bi" "\<And>j. j < bi \<Longrightarrow> \<not> bit_clear ?d j"
      by (auto simp: first_index_upt)
    let ?b = "k * BPB + bi"
    have fb: "bfree_at (content s) sb ?b" "?b < ?sz" "?b < m * BPB"
      using fr [OF bi(1)] bi \<open>(k + 1) * BPB \<le> m * BPB\<close> by auto
    have nf: "\<not> bfree_at (content s) sb x" if "k * BPB \<le> x" "x < ?b" for x
    proof -
      have "x = k * BPB + (x - k * BPB)" "x - k * BPB < bi" using that by auto
      then show ?thesis using fr [of "x - k * BPB"] bi(1) bi(4) [of "x - k * BPB"] by (metis order.strict_trans)
    qed
    have only: "b = ?b" if "k * BPB \<le> b" "bfree_at (content s) sb b" "\<forall>x. k * BPB \<le> x \<longrightarrow> x < b \<longrightarrow> \<not> bfree_at (content s) sb x" for b
      using nf [of b] that fb(1) by (metis le_add1 linorder_neqE_nat)
    have "wpk (kseq (bset bp (set_bit_of (?b mod BPB))) (kseq (log_write bp) (kseq (brelse bp)
      (kseq (bzero 1 (of_nat ?b)) (kret (of_nat ?b :: uint32)))))) (\<lambda>a u. a = of_nat ?b \<and> log_inv {} u
    \<and> content u = (content s)(bblk sb ?b := set_bit_of (?b mod BPB) (content s (bblk sb ?b)), ?b := replicate BSIZE 0)
    \<and> length (logged u) \<le> length (logged s) + 2 \<and> memdisk u = memdisk s \<and> log_frame s u) t"
      by (rule balloc_take [OF Suc.prems(1,2) fb(2,1) Suc.prems(3,4)]) (use t bk [OF bi(1)] in simp)
    then have W: "wpk (balloc_scan 1 sb (map (\<lambda>i. i * BPB) [k..<m])) (\<lambda>a u. a = of_nat ?b \<and> log_inv {} u
      \<and> content u = (content s)(bblk sb ?b := set_bit_of (?b mod BPB) (content s (bblk sb ?b)), ?b := replicate BSIZE 0)
      \<and> length (logged u) \<le> length (logged s) + 2 \<and> memdisk u = memdisk s \<and> log_frame s u) s"
      using Some bi(1) by (simp add: up wpk_def run_bind e d)
    show ?thesis
    proof (intro conjI allI impI)
      fix b
      assume b: "k * BPB \<le> b \<and> b < m * BPB \<and> b < ?sz \<and> bfree_at (content s) sb b
        \<and> (\<forall>x. k * BPB \<le> x \<longrightarrow> x < b \<longrightarrow> \<not> bfree_at (content s) sb x)"
      then have "b = ?b" by (intro only) simp_all
      then show "wpk (balloc_scan 1 sb (map (\<lambda>i. i * BPB) [k..<m])) (\<lambda>a u. a = of_nat b \<and> log_inv {} u
        \<and> content u = (content s)(bblk sb b := set_bit_of (b mod BPB) (content s (bblk sb b)), b := replicate BSIZE 0)
        \<and> length (logged u) \<le> length (logged s) + 2 \<and> memdisk u = memdisk s \<and> log_frame s u) s"
        using W by (simp only:)
    next
      assume "\<forall>b. k * BPB \<le> b \<longrightarrow> b < m * BPB \<longrightarrow> b < ?sz \<longrightarrow> \<not> bfree_at (content s) sb b"
      then have False using fb le_add1 [of "k * BPB" bi] by blast
      then show "\<exists>e. balloc_scan 1 sb (map (\<lambda>i. i * BPB) [k..<m]) s = Panic e" ..
    qed
  next
    case None
    then have nb: "\<not> bit_clear ?d bi" if "bi < BPB" "bi < ?sz - k * BPB" for bi using that by (auto simp: first_index_None)
    have nf: "\<not> bfree_at (content s) sb b" if "k * BPB \<le> b" "b < Suc k * BPB" "b < ?sz" for b
      using fr [of "b - k * BPB"] nb [of "b - k * BPB"] that by auto
    have "dirty t (blk_of t bp) \<or> dat_of t bp = memdisk t ! blk_of t bp"
      using bc.clean_cont [OF log_invD(1) [OF Suc.prems(1)] rg] by (auto simp: t)
    from log_brelse [OF t(1) this] obtain u where e2: "brelse bp t = Ok () u"
      and u: "log_inv {} u" "content u = content t" "memdisk u = memdisk t" "logged u = logged t" "log_frame t u"
      by (auto elim: wpkE)
    have fu: "log_frame s u" using t(8) u(5) by (rule log_frame_trans)
    have gu: "bitmap_at sb u" by (rule bitmap_at_cong [OF Suc.prems(2)]) (simp_all add: u t fu)
    have step: "balloc_scan 1 sb (map (\<lambda>i. i * BPB) [k..<m]) s = balloc_scan 1 sb (map (\<lambda>i. i * BPB) [Suc k..<m]) u"
      using None by (simp add: up run e d e2)
    have IH: "d = m - Suc k" using Suc.hyps(2) by simp
    note ih = Suc.hyps(1) [OF IH u(1) gu]
    have eqs: "content u = content s" "memdisk u = memdisk s" "logged u = logged s" by (simp_all add: u t)
    have lk: "length (logged u) + 2 < unat (log_size u)" "1 \<le>s log_outstanding u"
      using Suc.prems(3,4) log_frame_fields [OF fu] eqs by simp_all
    note ih2 = ih [OF lk, unfolded eqs]
    have sk: "k * BPB \<le> Suc k * BPB" by simp
    have ge: "Suc k * BPB \<le> b" if "k * BPB \<le> b" "bfree_at (content s) sb b" "b < ?sz" for b
      using nf [of b] that by force
    have P: "wpk (balloc_scan 1 sb (map (\<lambda>i. i * BPB) [k..<m])) (\<lambda>a u. a = of_nat b \<and> log_inv {} u
        \<and> content u = (content s)(bblk sb b := set_bit_of (b mod BPB) (content s (bblk sb b)), b := replicate BSIZE 0)
        \<and> length (logged u) \<le> length (logged s) + 2 \<and> memdisk u = memdisk s \<and> log_frame s u) s"
      if b: "k * BPB \<le> b" "b < m * BPB" "b < ?sz" "bfree_at (content s) sb b"
        "\<forall>x. k * BPB \<le> x \<longrightarrow> x < b \<longrightarrow> \<not> bfree_at (content s) sb x" for b
    proof -
      have "wpk (balloc_scan 1 sb (map (\<lambda>i. i * BPB) [Suc k..<m])) (\<lambda>a v. a = of_nat b \<and> log_inv {} v
        \<and> content v = (content s)(bblk sb b := set_bit_of (b mod BPB) (content s (bblk sb b)), b := replicate BSIZE 0)
        \<and> length (logged v) \<le> length (logged s) + 2 \<and> memdisk v = memdisk s \<and> log_frame u v) u"
      proof (rule ih2 [THEN conjunct1, THEN spec, THEN mp], intro conjI allI impI)
        show "Suc k * BPB \<le> b" "b < m * BPB" "b < ?sz" "bfree_at (content s) sb b" using ge b by blast+
        fix x
        assume "Suc k * BPB \<le> x" "x < b"
        then show "\<not> bfree_at (content s) sb x" using b(5) sk by (meson order_trans)
      qed
      then have "wpk (balloc_scan 1 sb (map (\<lambda>i. i * BPB) [Suc k..<m])) (\<lambda>a v. a = of_nat b \<and> log_inv {} v
        \<and> content v = (content s)(bblk sb b := set_bit_of (b mod BPB) (content s (bblk sb b)), b := replicate BSIZE 0)
        \<and> length (logged v) \<le> length (logged s) + 2 \<and> memdisk v = memdisk s \<and> log_frame s v) u"
        by (rule wpk_mono) (use fu log_frame_trans in blast)
      then show ?thesis by (simp add: wpk_def step)
    qed
    have "\<exists>e. balloc_scan 1 sb (map (\<lambda>i. i * BPB) [k..<m]) s = Panic e"
      if "\<forall>b. k * BPB \<le> b \<longrightarrow> b < m * BPB \<longrightarrow> b < ?sz \<longrightarrow> \<not> bfree_at (content s) sb b"
      unfolding step by (rule ih2 [THEN conjunct2, THEN mp]) (use that sk in \<open>meson order_trans\<close>)
    with P show ?thesis by blast
  qed
qed

lemma bit_clear_iff: "bit_clear d bi \<longleftrightarrow> \<not> bit (d ! (bi div 8)) (bi mod 8)"
  by (simp add: bit_clear_def push_bit_eq_mult and_exp_eq_0_iff_not_bit)

lemma bit_div_mod: "bi div 8 = bj div 8 \<Longrightarrow> bi mod 8 = bj mod 8 \<longleftrightarrow> bi = (bj :: nat)"
  by (metis div_mult_mod_eq)

lemma bit_clear_set:
  assumes "bi div 8 < length d"
  shows "bit_clear (set_bit_of bi d) bj \<longleftrightarrow> bi \<noteq> bj \<and> bit_clear d bj"
proof (cases "bi div 8 = bj div 8")
  case True
  have "bj mod 8 < 8" by simp
  then show ?thesis
    using assms True bit_div_mod [OF True]
    by (auto simp: bit_clear_iff set_bit_of_def bit_simps)
next
  case False
  then show ?thesis using assms by (auto simp: bit_clear_iff set_bit_of_def)
qed

lemma bit_clear_clear:
  assumes "bi div 8 < length d"
  shows "bit_clear (clear_bit_of bi d) bj \<longleftrightarrow> bi = bj \<or> bit_clear d bj"
proof (cases "bi div 8 = bj div 8")
  case True
  have "bj mod 8 < 8" by simp
  then show ?thesis
    using assms True bit_div_mod [OF True]
    by (auto simp: bit_clear_iff clear_bit_of_def bit_simps)
next
  case False
  then show ?thesis using assms by (auto simp: bit_clear_iff clear_bit_of_def)
qed

lemma BPB_byte: "b mod BPB div 8 < BSIZE"
proof -
  have "b mod BPB < BSIZE * 8" using mod_less_divisor [of BPB b] by (simp add: BPB_def BSIZE_def)
  then show ?thesis by (simp add: less_mult_imp_div_less)
qed

lemma same_bit: "bblk sb x = bblk sb b \<Longrightarrow> x mod BPB = b mod BPB \<longleftrightarrow> x = b"
proof -
  assume "bblk sb x = bblk sb b"
  then have "x div BPB = b div BPB" by (simp add: bblk_def)
  then show ?thesis by (metis div_mult_mod_eq)
qed

lemma bfree_ok:
  fixes s :: "'z fsst_scheme"
  assumes s: "log_inv {} s" and g: "bitmap_at (fs_sb s) s" and b: "unat b < unat (sb_size (fs_sb s))"
    and room: "length (logged s) + 1 < unat (log_size s)" "1 \<le>s log_outstanding s"
  shows "if bfree_at (content s) (fs_sb s) (unat b) then \<exists>e. bfree 1 b s = Panic e
    else wpk (bfree 1 b) (\<lambda>_ t. log_inv {} t \<and> content t = (content s)(bblk (fs_sb s) (unat b) :=
        clear_bit_of (unat b mod BPB) (content s (bblk (fs_sb s) (unat b)))) \<and> memdisk t = memdisk s \<and> log_frame s t) s"
proof -
  let ?k = "bblk (fs_sb s) (unat b)" and ?B = "BBLOCK (unat b) (fs_sb s)"
  have a: "unat ?B = ?k" by (rule BBLOCK_bblk [OF g b])
  have gb: "?k < length (memdisk s)" "?k \<notin> log_area s" using g b by (auto simp: bitmap_at_def)
  from log_bread [OF s, of ?B] a gb obtain bp t where e: "bread 1 ?B s = Ok bp t"
    and t: "log_inv {bp} t" "blk_of t bp = ?k" "dat_of t bp = content s ?k" "content t = content s"
      "memdisk t = memdisk s" "logged t = logged s" "lh_n t = lh_n s" "log_frame s t"
    by (auto elim!: wpkE)
  have d: "b_data (bufs t ! bp) = content s ?k" using t(3) by (simp add: dat_of_def)
  have fr: "bit_clear (content s ?k) (unat b mod BPB) = bfree_at (content s) (fs_sb s) (unat b)"
    by (simp add: bfree_at_def)
  note ff = log_frame_fields [OF t(8)]
  have len: "length (content s ?k) = BSIZE" by (rule bc.cont_len [OF log_invD(1) [OF s] gb(1)])
  have "wpk (kseq (bset bp (clear_bit_of (unat b mod BPB))) (kseq (log_write bp) (brelse bp))) (\<lambda>_ u. log_inv {} u
    \<and> content u = (content t)(blk_of t bp := clear_bit_of (unat b mod BPB) (dat_of t bp)) \<and> memdisk u = memdisk t \<and> wtrace u = wtrace t
    \<and> logged u = (if blk_of t bp \<in> set (logged t) then logged t else logged t @ [blk_of t bp]) \<and> log_frame t u) t"
    by (rule log_put) (use t gb len room ff log_invD(8) [OF s] in auto)
  then have "wpk (kseq (bset bp (clear_bit_of (unat b mod BPB))) (kseq (log_write bp) (brelse bp))) (\<lambda>_ u. log_inv {} u
    \<and> content u = (content s)(?k := clear_bit_of (unat b mod BPB) (content s ?k)) \<and> memdisk u = memdisk s \<and> log_frame s u) t"
    by (rule wpk_mono) (use t log_frame_trans in auto)
  then show ?thesis by (auto simp: bfree_def run e d fr wpk_def)
qed

lemma balloc_ok:
  fixes s :: "'z fsst_scheme"
  assumes s: "log_inv {} s" and g: "bitmap_at (fs_sb s) s" and room: "length (logged s) + 2 < unat (log_size s)"
    and op: "1 \<le>s log_outstanding s"
  shows "\<forall>b<unat (sb_size (fs_sb s)). \<not> bfree_at (content s) (fs_sb s) b \<Longrightarrow> \<exists>e. balloc 1 s = Panic e"
    and "b < unat (sb_size (fs_sb s)) \<Longrightarrow> bfree_at (content s) (fs_sb s) b \<Longrightarrow>
      (\<And>x. x < b \<Longrightarrow> \<not> bfree_at (content s) (fs_sb s) x) \<Longrightarrow>
      wpk (balloc 1) (\<lambda>a t. a = of_nat b \<and> log_inv {} t
        \<and> content t = (content s)(bblk (fs_sb s) b := set_bit_of (b mod BPB) (content s (bblk (fs_sb s) b)), b := replicate BSIZE 0)
        \<and> length (logged t) \<le> length (logged s) + 2 \<and> memdisk t = memdisk s \<and> log_frame s t) s"
proof -
  let ?sb = "fs_sb s" and ?c = "content s" and ?sz = "unat (sb_size (fs_sb s))"
  define m where "m = (?sz + BPB - 1) div BPB"
  have "m * BPB \<le> ?sz + BPB - 1" unfolding m_def by (rule div_times_less_eq_dividend)
  then have m1: "m * BPB < ?sz + BPB" using BPB_pos by linarith
  have "?sz + BPB - 1 < (m + 1) * BPB" unfolding m_def
    by (metis BPB_pos Suc_eq_plus1 dividend_less_div_times mult_Suc add.commute)
  then have m2: "?sz \<le> m * BPB" by simp
  note sc = balloc_scan_ok [OF s g m1 room op, of 0]
  have run: "balloc 1 s = balloc_scan 1 ?sb (map (\<lambda>i. i * BPB) [0..<m]) s" by (simp add: balloc_def run m_def)
  show "\<exists>e. balloc 1 s = Panic e" if "\<forall>b<?sz. \<not> bfree_at ?c ?sb b"
    unfolding run by (rule sc [THEN conjunct2, THEN mp]) (use that in blast)
  show "wpk (balloc 1) (\<lambda>a t. a = of_nat b \<and> log_inv {} t
        \<and> content t = ?c(bblk ?sb b := set_bit_of (b mod BPB) (?c (bblk ?sb b)), b := replicate BSIZE 0)
        \<and> length (logged t) \<le> length (logged s) + 2 \<and> memdisk t = memdisk s \<and> log_frame s t) s"
    if "b < ?sz" "bfree_at ?c ?sb b" "\<And>x. x < b \<Longrightarrow> \<not> bfree_at ?c ?sb x"
    unfolding wpk_def run
    by (rule sc [THEN conjunct1, THEN spec, THEN mp, unfolded wpk_def]) (use that m2 in auto)
qed

lemma bfree_at_set:
  assumes len: "length (c (bblk sb b)) = BSIZE" and x: "bblk sb x \<noteq> b"
  shows "bfree_at (c(bblk sb b := set_bit_of (b mod BPB) (c (bblk sb b)), b := z)) sb x \<longleftrightarrow> x \<noteq> b \<and> bfree_at c sb x"
proof (cases "bblk sb x = bblk sb b")
  case True
  have "b mod BPB div 8 < length (c (bblk sb b))" using BPB_byte len by simp
  from bit_clear_set [OF this, of "x mod BPB"] same_bit [OF True] True x show ?thesis by (auto simp: bfree_at_def)
qed (use x in \<open>auto simp: bfree_at_def\<close>)

lemma bfree_at_clear:
  assumes len: "length (c (bblk sb b)) = BSIZE"
  shows "bfree_at (c(bblk sb b := clear_bit_of (b mod BPB) (c (bblk sb b)))) sb x \<longleftrightarrow> x = b \<or> bfree_at c sb x"
proof (cases "bblk sb x = bblk sb b")
  case True
  have "b mod BPB div 8 < length (c (bblk sb b))" using BPB_byte len by simp
  from bit_clear_clear [OF this, of "x mod BPB"] same_bit [OF True] True show ?thesis by (auto simp: bfree_at_def)
qed (auto simp: bfree_at_def)

text \<open>
  C26. Allocating and freeing a block. In a transaction with room, if the map has a free block,
  \<^verbatim>\<open>balloc\<close> returns the first one, marks it and no other block as used, and gives it zeroed; no other
  block but the one of the map changes. Freeing it again makes the map as it was, and freeing a free
  block panics. If no block is free, \<^verbatim>\<open>balloc\<close> panics.
\<close>

theorem balloc_bfree:
  fixes s :: "'z fsst_scheme"
  assumes "log_inv {} s" and "bitmap_at (fs_sb s) s" and "length (logged s) + 3 < unat (log_size s)"
    and "1 \<le>s log_outstanding s"
  shows "(if \<forall>b<unat (sb_size (fs_sb s)). \<not> bfree_at (content s) (fs_sb s) b then \<exists>e. balloc 1 s = Panic e
    else wpk (balloc 1) (\<lambda>a t. log_inv {} t \<and> unat a < unat (sb_size (fs_sb s)) \<and> bfree_at (content s) (fs_sb s) (unat a)
      \<and> (\<forall>x<unat a. \<not> bfree_at (content s) (fs_sb s) x)
      \<and> (\<forall>x<unat (sb_size (fs_sb s)). bfree_at (content t) (fs_sb s) x \<longleftrightarrow> x \<noteq> unat a \<and> bfree_at (content s) (fs_sb s) x)
      \<and> content t (unat a) = replicate BSIZE 0
      \<and> (\<forall>k. k \<noteq> unat a \<longrightarrow> k \<noteq> bblk (fs_sb s) (unat a) \<longrightarrow> content t k = content s k)
      \<and> wpk (bfree 1 a) (\<lambda>_ u. log_inv {} u \<and> (\<forall>x<unat (sb_size (fs_sb s)).
          bfree_at (content u) (fs_sb s) x = bfree_at (content s) (fs_sb s) x)) t) s)
    \<and> (\<forall>b. unat b < unat (sb_size (fs_sb s)) \<longrightarrow> bfree_at (content s) (fs_sb s) (unat b) \<longrightarrow> (\<exists>e. bfree 1 b s = Panic e))"
proof -
  let ?sb = "fs_sb s" and ?c = "content s" and ?sz = "unat (sb_size (fs_sb s))"
  have r2: "length (logged s) + 2 < unat (log_size s)" using assms(3) by simp
  note bo = balloc_ok [OF assms(1,2) r2 assms(4)]
  have "wpk (balloc 1) (\<lambda>a t. log_inv {} t \<and> unat a < ?sz \<and> bfree_at ?c ?sb (unat a) \<and> (\<forall>x<unat a. \<not> bfree_at ?c ?sb x)
      \<and> (\<forall>x<?sz. bfree_at (content t) ?sb x \<longleftrightarrow> x \<noteq> unat a \<and> bfree_at ?c ?sb x)
      \<and> content t (unat a) = replicate BSIZE 0
      \<and> (\<forall>k. k \<noteq> unat a \<longrightarrow> k \<noteq> bblk ?sb (unat a) \<longrightarrow> content t k = ?c k)
      \<and> wpk (bfree 1 a) (\<lambda>_ u. log_inv {} u \<and> (\<forall>x<?sz. bfree_at (content u) ?sb x = bfree_at ?c ?sb x)) t) s"
    if ex: "\<not> (\<forall>b<?sz. \<not> bfree_at ?c ?sb b)"
  proof -
    define b where "b = (LEAST b. b < ?sz \<and> bfree_at ?c ?sb b)"
    have b: "b < ?sz" "bfree_at ?c ?sb b" using LeastI_ex [of "\<lambda>b. b < ?sz \<and> bfree_at ?c ?sb b"] ex by (auto simp: b_def)
    have lb: "\<not> bfree_at ?c ?sb x" if "x < b" for x
      using not_less_Least [of x "\<lambda>b. b < ?sz \<and> bfree_at ?c ?sb b"] that b(1) by (auto simp: b_def)
    have ub: "unat (of_nat b :: uint32) = b" using order.strict_trans [OF b(1) unat_lt_32] by (rule unat_of_nat_32)
    have gk: "bblk ?sb b < length (memdisk s)" "\<And>x. x < ?sz \<Longrightarrow> bblk ?sb x \<noteq> b" using assms(2) b by (auto simp: bitmap_at_def)
    have len: "length (?c (bblk ?sb b)) = BSIZE" by (rule bc.cont_len [OF log_invD(1) [OF assms(1)] gk(1)])
    show ?thesis
    proof (rule wpk_mono [OF bo(2) [OF b lb]])
      fix a :: uint32 and t :: "'z fsst_scheme"
      assume t: "a = of_nat b \<and> log_inv {} t
        \<and> content t = ?c(bblk ?sb b := set_bit_of (b mod BPB) (?c (bblk ?sb b)), b := replicate BSIZE 0)
        \<and> length (logged t) \<le> length (logged s) + 2 \<and> memdisk t = memdisk s \<and> log_frame s t"
      then have a: "unat a = b" and f: "log_frame s t" using ub by simp_all
      note ff = log_frame_fields [OF f] log_frame_fs(2) [OF f]
      have ft: "bfree_at (content t) ?sb x \<longleftrightarrow> x \<noteq> b \<and> bfree_at ?c ?sb x" if "x < ?sz" for x
        using bfree_at_set [where c = ?c, OF len gk(2) [OF that]] t by simp
      have "bitmap_at ?sb t" using assms(2) t ff ft unfolding bitmap_at_def by simp
      with bfree_ok [of t a] t a ff b ft [OF b(1)] assms(3,4)
      have "wpk (bfree 1 a) (\<lambda>_ u. log_inv {} u \<and> content u = (content t)(bblk ?sb b :=
          clear_bit_of (b mod BPB) (content t (bblk ?sb b))) \<and> memdisk u = memdisk t \<and> log_frame t u) t" by simp
      moreover have "length (content t (bblk ?sb b)) = BSIZE" using len t gk(2) [OF b(1)] by simp
      note bfree_at_clear [where c = "content t", OF this]
      ultimately have "wpk (bfree 1 a) (\<lambda>_ u. log_inv {} u \<and> (\<forall>x<?sz. bfree_at (content u) ?sb x = bfree_at ?c ?sb x)) t"
        by (auto elim!: wpk_mono simp: ft b)
      then show "log_inv {} t \<and> unat a < ?sz \<and> bfree_at ?c ?sb (unat a) \<and> (\<forall>x<unat a. \<not> bfree_at ?c ?sb x)
        \<and> (\<forall>x<?sz. bfree_at (content t) ?sb x \<longleftrightarrow> x \<noteq> unat a \<and> bfree_at ?c ?sb x)
        \<and> content t (unat a) = replicate BSIZE 0
        \<and> (\<forall>k. k \<noteq> unat a \<longrightarrow> k \<noteq> bblk ?sb (unat a) \<longrightarrow> content t k = ?c k)
        \<and> wpk (bfree 1 a) (\<lambda>_ u. log_inv {} u \<and> (\<forall>x<?sz. bfree_at (content u) ?sb x = bfree_at ?c ?sb x)) t"
        using t [THEN conjunct2] b lb ft unfolding a by simp
    qed
  qed
  moreover have "\<exists>e. bfree 1 b s = Panic e" if "unat b < ?sz" "bfree_at ?c ?sb (unat b)" for b
    using bfree_ok [OF assms(1,2) that(1)] assms(3,4) that(2) by simp
  ultimately show ?thesis using bo(1) by (metis (no_types, lifting))
qed

lemma demo_bitmap:
  fixes s :: "'z logst_scheme"
  assumes c: "content s 34 = replicate 5 255 @ replicate 507 0" and m: "memdisk s = demo_disk"
    and l: "log_start s = 2" "log_size s = 30"
  shows "bitmap_at demo_sb s" and "b < 50 \<Longrightarrow> bfree_at (content s) demo_sb b \<longleftrightarrow> 40 \<le> b"
proof -
  have bk: "bblk demo_sb b = 34" "b mod BPB = b" if "b < 50" for b
    using that by (simp_all add: bblk_def demo_sb_def BPB_def BSIZE_def)
  have fr: "bfree_at (content s) demo_sb b \<longleftrightarrow> 40 \<le> b" if "b < 50" for b
  proof (cases "b < 40")
    case True
    then have "b div 8 < 5" by (simp add: less_mult_imp_div_less)
    moreover have "b mod 8 < 8" by simp
    moreover have "bit (255 :: uchar) n" if "n < 8" for n
    proof -
      have "(255 :: uchar) = mask 8" by (simp add: mask_eq_exp_minus_1)
      then show ?thesis using that by (simp only: bit_mask_iff) simp
    qed
    ultimately have "bit ((replicate 5 255 @ replicate 507 0) ! (b div 8) :: uchar) (b mod 8)"
      by (simp add: nth_append)
    then show ?thesis using True bk [OF that] by (simp add: bfree_at_def c bit_clear_iff)
  next
    case False
    then have "5 \<le> b div 8" "b div 8 < 512" using that by linarith+
    then show ?thesis using False bk [OF that] by (simp add: bfree_at_def c bit_clear_iff nth_append)
  qed
  show "b < 50 \<Longrightarrow> bfree_at (content s) demo_sb b \<longleftrightarrow> 40 \<le> b" by (rule fr)
  show "bitmap_at demo_sb s"
    using bk fr by (auto simp: bitmap_at_def m l demo_disk_def demo_sb_def)
qed

theorem balloc_bfree_witness:
  "\<exists>s. wpk (balloc 1) (\<lambda>a t. a = 40 \<and> content t 40 = replicate BSIZE 0) (s :: fsst)"
proof -
  obtain t where t: "log_inv {} (with_log t)" "memdisk t = demo_disk" by (rule demo_log)
  let ?m = "replicate 5 255 @ replicate 507 0 :: uchar list"
  have a: "unat (34 :: uint32) < length (memdisk (with_log t))" "unat (34 :: uint32) \<notin> log_area (with_log t)"
    "length ?m = BSIZE" "unat (lh_n (with_log t)) + 1 < unat (log_size (with_log t))" "1 \<le>s log_outstanding (with_log t)"
    by (simp_all add: t(2) demo_disk_def BSIZE_def)
  from logged_update [where f = "\<lambda>_. ?m", OF t(1) a] obtain s where s: "log_inv {} s"
    "content s = (content t)(34 := ?m)" "logged s = [34]" "memdisk s = demo_disk" "log_frame (with_log t) s"
    by (auto elim!: wpkE simp: t(2) logged_def)
  note f = log_frame_fields [OF s(5)]
  have c: "content (with_fs s) 34 = ?m" "memdisk (with_fs s) = demo_disk" "log_start (with_fs s) = 2" "log_size (with_fs s) = 30"
    using s f by simp_all
  have b: "\<not> (\<forall>b<unat (sb_size demo_sb). \<not> bfree_at (content (with_fs s)) demo_sb b)"
  proof -
    have "40 < unat (sb_size demo_sb)" by (simp add: demo_sb_def)
    then show ?thesis using demo_bitmap(2) [OF c, of 40] by auto
  qed
  have g: "log_inv {} (with_fs s)" "bitmap_at (fs_sb (with_fs s)) (with_fs s)"
    "length (logged (with_fs s)) + 3 < unat (log_size (with_fs s))" "1 \<le>s log_outstanding (with_fs s)"
    using s f demo_bitmap(1) [OF c] by simp_all
  have b': "\<not> (\<forall>b<unat (sb_size (fs_sb (with_fs s))). \<not> bfree_at (content (with_fs s)) (fs_sb (with_fs s)) b)"
    using b by simp
  from balloc_bfree [OF g, THEN conjunct1, unfolded if_not_P [OF b']] have "wpk (balloc 1) (\<lambda>a t. unat a < 50 \<and> bfree_at (content (with_fs s)) demo_sb (unat a)
      \<and> (\<forall>x<unat a. \<not> bfree_at (content (with_fs s)) demo_sb x) \<and> content t (unat a) = replicate BSIZE 0) (with_fs s)"
    by (rule wpk_mono) (simp add: demo_sb_def)
  then have "wpk (balloc 1) (\<lambda>a t. a = 40 \<and> content t 40 = replicate BSIZE 0) (with_fs s)"
  proof (rule wpk_mono)
    fix a :: uint32 and u :: fsst
    assume u: "unat a < 50 \<and> bfree_at (content (with_fs s)) demo_sb (unat a)
      \<and> (\<forall>x<unat a. \<not> bfree_at (content (with_fs s)) demo_sb x) \<and> content u (unat a) = replicate BSIZE 0"
    then have "40 \<le> unat a" using demo_bitmap(2) [OF c, of "unat a"] by simp
    moreover have "\<not> 40 < unat a" using u demo_bitmap(2) [OF c, of 40] by auto
    ultimately have "unat a = unat (40 :: uint32)" by simp
    then show "a = 40 \<and> content u 40 = replicate BSIZE 0" using u by (simp add: word_unat_eq_iff)
  qed
  then show ?thesis by blast
qed

end
