(* ===== verification/Ring.thy ===== *)
theory Ring
  imports Xv6_Prelude
begin

text \<open>
  Ring buffers as the kernel uses them in pipes and for console input: an array of \<open>n\<close> entries and
  two 32-bit counters that only grow, and wrap around; entry \<open>i\<close> is at index \<^verbatim>\<open>i % n\<close>. Since \<open>n\<close>
  divides \<open>2 ^ 32\<close>, the wrap-around of the counters does no harm. The contract of a first-in
  first-out buffer, and that ring buffers satisfy it.
\<close>

section \<open>The contract of a bounded queue\<close>

locale fifo =
  fixes put :: "'a \<Rightarrow> 's \<Rightarrow> 's" and front :: "'s \<Rightarrow> 'a" and advance :: "'s \<Rightarrow> 's"
    and abs :: "'s \<Rightarrow> 'a list" and ok :: "'s \<Rightarrow> bool" and cap :: nat
  assumes put_abs: "ok s \<Longrightarrow> length (abs s) < cap \<Longrightarrow> ok (put c s) \<and> abs (put c s) = abs s @ [c]"
    and get_abs: "ok s \<Longrightarrow> abs s \<noteq> [] \<Longrightarrow> ok (advance s) \<and> abs s = front s # abs (advance s)"
begin

primrec puts :: "'a list \<Rightarrow> 's \<Rightarrow> 's" where
  "puts [] s = s"
| "puts (c # cs) s = puts cs (put c s)"

primrec gets_n :: "nat \<Rightarrow> 's \<Rightarrow> 'a list \<times> 's" where
  "gets_n 0 s = ([], s)"
| "gets_n (Suc n) s = (let (cs, t) = gets_n n (advance s) in (front s # cs, t))"

lemma puts_abs:
  "ok s \<Longrightarrow> length (abs s) + length cs \<le> cap \<Longrightarrow> ok (puts cs s) \<and> abs (puts cs s) = abs s @ cs"
  by (induction cs arbitrary: s) (auto simp: put_abs)

lemma gets_abs:
  "ok s \<Longrightarrow> n \<le> length (abs s) \<Longrightarrow>
     fst (gets_n n s) = take n (abs s) \<and> abs (snd (gets_n n s)) = drop n (abs s) \<and> ok (snd (gets_n n s))"
proof (induction n arbitrary: s)
  case (Suc n)
  then have "abs s \<noteq> []" by auto
  with get_abs [OF Suc.prems(1)] have g: "ok (advance s)" "abs s = front s # abs (advance s)" by auto
  then have "n \<le> length (abs (advance s))" using Suc.prems(2) by simp
  from Suc.IH [OF g(1) this] show ?case
    by (subst (1 2) g(2)) (simp add: split_beta Let_def)
qed simp

text \<open>What is put into an empty queue comes out in the same order.\<close>

lemma first_in_first_out:
  assumes "ok s" and "abs s = []" and "length cs \<le> cap"
  shows "fst (gets_n (length cs) (puts cs s)) = cs"
  using puts_abs [of s cs] gets_abs [of "puts cs s" "length cs"] assms by simp

end

section \<open>Counters that wrap around\<close>

definition ring_list :: "'a list \<Rightarrow> uint32 \<Rightarrow> uint32 \<Rightarrow> 'a list" where
  "ring_list buf r w = map (\<lambda>i. buf ! (unat (r + of_nat i) mod length buf)) [0..<unat (w - r)]"

lemma length_ring_list [simp]: "length (ring_list buf r w) = unat (w - r)"
  by (simp add: ring_list_def)

lemma unat_mod_add:
  assumes "n dvd 2 ^ 32"
  shows "unat (r + of_nat i :: uint32) mod n = (unat r + i) mod n"
proof -
  have "unat (r + of_nat i :: uint32) = (unat r + i mod 2 ^ 32) mod 2 ^ 32"
    by (simp add: unat_word_ariths unat_of_nat take_bit_eq_mod)
  then have "unat (r + of_nat i :: uint32) mod n = (unat r + i mod 2 ^ 32) mod n"
    using mod_mod_cancel [OF assms] by simp
  also have "\<dots> = (unat r + i) mod n"
    by (metis assms mod_add_right_eq mod_mod_cancel)
  finally show ?thesis .
qed

lemma mod_diff_neq:
  assumes "0 < n" and "i < j" and "j - i < n"
  shows "(a + i) mod n \<noteq> (a + j) mod (n :: nat)"
proof
  assume "(a + i) mod n = (a + j) mod n"
  then have "n dvd (a + j) - (a + i)" using assms(2) by (metis mod_eq_dvd_iff_nat add_le_cancel_left less_imp_le_nat)
  then show False using assms by (simp add: nat_dvd_not_less)
qed

lemma ring_put:
  assumes n: "length buf = n" "0 < n" "n dvd 2 ^ 32" and room: "unat (w - r) < n" "n < 2 ^ 32"
  shows "ring_list (buf[unat w mod n := c]) r (w + 1) = ring_list buf r w @ [c]"
proof -
  let ?k = "unat (w - r)"
  have w: "w = r + of_nat ?k" by simp
  have k1: "unat (w + 1 - r) = Suc ?k"
  proof -
    have eq: "w + 1 - r = (w - r) + of_nat 1" by simp
    show ?thesis unfolding eq using unat_add_of_nat [of "w - r" 1] room by simp
  qed
  have iw: "unat w mod n = (unat r + ?k) mod n" using unat_mod_add [OF n(3), of r ?k] by simp
  show ?thesis
  proof (rule nth_equalityI)
    show "length (ring_list (buf[unat w mod n := c]) r (w + 1)) = length (ring_list buf r w @ [c])"
      using k1 by simp
    fix i
    assume "i < length (ring_list (buf[unat w mod n := c]) r (w + 1))"
    then have i: "i < Suc ?k" using k1 by simp
    have "ring_list (buf[unat w mod n := c]) r (w + 1) ! i = buf[unat w mod n := c] ! ((unat r + i) mod n)"
      using i k1 unat_mod_add [OF n(3)] n(1) by (simp add: ring_list_def del: upt_Suc)
    also have "\<dots> = (ring_list buf r w @ [c]) ! i"
    proof (cases "i = ?k")
      case True
      then show ?thesis using iw n by (simp add: nth_append)
    next
      case False
      then have "i < ?k" using i by simp
      then have "(unat r + i) mod n \<noteq> unat w mod n"
        using mod_diff_neq [of n i ?k "unat r"] room(1) n(2) iw by simp
      then show ?thesis using \<open>i < ?k\<close> unat_mod_add [OF n(3)] n(1) by (simp add: nth_append ring_list_def)
    qed
    finally show "ring_list (buf[unat w mod n := c]) r (w + 1) ! i = (ring_list buf r w @ [c]) ! i" .
  qed
qed

lemma ring_get:
  assumes "r \<noteq> w"
  shows "ring_list buf r w = buf ! (unat r mod length buf) # ring_list buf (r + 1) w"
proof -
  have "w - r \<noteq> 0" using assms by simp
  then have "unat (w - (r + 1)) = unat (w - r) - 1"
    by (metis diff_diff_eq unat_minus_one)
  moreover have "0 < unat (w - r)" using assms by (simp add: unat_gt_0)
  ultimately have k: "unat (w - r) = Suc (unat (w - (r + 1)))" by simp
  show ?thesis
    unfolding ring_list_def k upt_conv_Cons [OF zero_less_Suc] list.map map_Suc_upt [symmetric]
    by (simp add: comp_def ac_simps del: upt_Suc)
qed

text \<open>A region of the counters cut in two, and the last entry taken back.\<close>

lemma ring_split:
  assumes "unat (w - r) + unat (e - w) = unat (e - r)"
  shows "ring_list buf r e = ring_list buf r w @ ring_list buf w e"
proof -
  let ?f = "\<lambda>i. buf ! (unat (r + of_nat i) mod length buf)"
  have "of_nat (unat (w - r)) = w - r" by simp
  then have sh: "?f (i + unat (w - r)) = buf ! (unat (w + of_nat i) mod length buf)" for i by (simp add: algebra_simps)
  have "map ?f [0..<unat (e - r)] = map ?f [0..<unat (w - r)] @ map ?f [unat (w - r)..<unat (e - w) + unat (w - r)]"
    using assms upt_add_eq_append [of 0 "unat (w - r)" "unat (e - w)"] by (simp add: add.commute)
  also have "[unat (w - r)..<unat (e - w) + unat (w - r)] = map (\<lambda>i. i + unat (w - r)) [0..<unat (e - w)]"
    by (simp add: map_add_upt)
  finally show ?thesis unfolding ring_list_def by (simp add: comp_def sh add.commute)
qed

lemma unat_pred: "w \<noteq> e \<Longrightarrow> unat (e - 1 - w :: uint32) = unat (e - w) - 1"
proof -
  assume "w \<noteq> e"
  then have "e - w \<noteq> 0" by simp
  from unat_minus_one [OF this] show ?thesis by (simp add: diff_right_commute)
qed

lemma ring_butlast:
  assumes "w \<noteq> e"
  shows "ring_list buf w (e - 1) = butlast (ring_list buf w e)"
proof -
  have "0 < unat (e - w)" using assms by (auto simp: unat_gt_0)
  then obtain k where k: "unat (e - w) = Suc k" by (cases "unat (e - w)") auto
  then have "unat (e - 1 - w) = k" using unat_pred [OF assms] by simp
  then show ?thesis by (simp add: ring_list_def k)
qed

lemma ring_last:
  assumes "w \<noteq> e"
  shows "last (ring_list buf w e) = buf ! (unat (e - 1) mod length buf)"
proof -
  have "0 < unat (e - w)" using assms by (auto simp: unat_gt_0)
  then obtain k where k: "unat (e - w) = Suc k" by (cases "unat (e - w)") auto
  then have "k = unat (e - 1 - w)" using unat_pred [OF assms] by simp
  then have "of_nat k = e - 1 - w" by simp
  then show ?thesis by (simp add: ring_list_def k)
qed

end
