(* ===== verification/Pipe.thy ===== *)
theory Pipe
  imports Fs Ring
begin

text \<open>
  Pipes (\<^verbatim>\<open>pipe.c\<close>) without \<^verbatim>\<open>pipealloc\<close>, which needs the file table. A pipe is in a page of its own;
  \<open>pipes\<close> gives for the address of the page the structure in it. A reader or writer that has to wait
  leaves the processor in \<^verbatim>\<open>sleep\<close> and goes on at the \<open>_resume\<close> function.
\<close>

section \<open>\<^verbatim>\<open>pipe.c\<close>\<close>

definition PIPESIZE :: nat where "PIPESIZE = 512"

record pipe =
  pi_data :: "uchar list"
  pi_nread :: uint32
  pi_nwrite :: uint32
  pi_readopen :: bool
  pi_writeopen :: bool

record pipest = fsst +
  pipes :: "uint32 \<Rightarrow> pipe"

definition upd_pipe :: "uint32 \<Rightarrow> (pipe \<Rightarrow> pipe) \<Rightarrow> ('z pipest_scheme, unit) kop" where
  "upd_pipe p f = kmod (\<lambda>s. s\<lparr>pipes := (pipes s)(p := f (pipes s p))\<rparr>)"

text \<open>A call of \<^verbatim>\<open>sleep\<close> in a routine with a result: it never comes back to the caller directly.\<close>

definition sleep_away :: "chan \<Rightarrow> lockid \<Rightarrow> ('z ptab_scheme, 'a) kop" where
  "sleep_away ch lk = kbind (sleep ch (Some lk)) (\<lambda>_. kfault ''sleep'')"

definition pipeclose :: "uint32 \<Rightarrow> bool \<Rightarrow> ('z pipest_scheme, unit) kop" where
  "pipeclose p writable =
     kseq (acquire (PipeLock p))
    (kseq (if writable then
             kseq (upd_pipe p (\<lambda>P. P\<lparr>pi_writeopen := False\<rparr>)) (wakeup (ChanPipeR p))
           else
             kseq (upd_pipe p (\<lambda>P. P\<lparr>pi_readopen := False\<rparr>)) (wakeup (ChanPipeW p)))
    (kbind (kget (\<lambda>s. pipes s p)) (\<lambda>P.
     if \<not> pi_readopen P \<and> \<not> pi_writeopen P then
       kseq (release (PipeLock p)) (kfree p)
     else release (PipeLock p))))"

definition pipe_full :: "pipe \<Rightarrow> bool" where
  "pipe_full P \<longleftrightarrow> pi_nwrite P = pi_nread P + of_nat PIPESIZE"

definition pipe_put :: "uchar \<Rightarrow> pipe \<Rightarrow> pipe" where
  "pipe_put c P = P\<lparr>pi_data := (pi_data P)[unat (pi_nwrite P) mod PIPESIZE := c],
     pi_nwrite := pi_nwrite P + 1\<rparr>"

primrec pipewrite_loop :: "uint32 \<Rightarrow> sint32 \<Rightarrow> uchar list \<Rightarrow> ('z pipest_scheme, sint32) kop" where
  "pipewrite_loop p n [] =
     kseq (wakeup (ChanPipeR p))
    (kseq (release (PipeLock p))
          (kret n))"
| "pipewrite_loop p n (c # cs) =
     kbind (kget (\<lambda>s. pipes s p)) (\<lambda>P.
     if pipe_full P then
       kbind curproc (\<lambda>q.
       kbind (get_proc q p_killed) (\<lambda>killed.
       if \<not> pi_readopen P \<or> killed then kseq (release (PipeLock p)) (kret (- 1))
       else
         kseq (wakeup (ChanPipeR p))
              (sleep_away (ChanPipeW p) (PipeLock p))))
     else
       kseq (upd_pipe p (pipe_put c))
            (pipewrite_loop p n cs))"

definition pipewrite :: "uint32 \<Rightarrow> uchar list \<Rightarrow> sint32 \<Rightarrow> ('z pipest_scheme, sint32) kop" where
  "pipewrite p cs n = kseq (acquire (PipeLock p)) (pipewrite_loop p n cs)"

text \<open>The writer, when it runs again, with the bytes \<open>cs\<close> still to be written.\<close>

definition pipewrite_resume :: "uint32 \<Rightarrow> sint32 \<Rightarrow> uchar list \<Rightarrow> ('z pipest_scheme, sint32) kop" where
  "pipewrite_resume p n cs = kseq (sleep_resume (PipeLock p)) (pipewrite_loop p n cs)"

definition pipe_front :: "pipe \<Rightarrow> uchar" where
  "pipe_front P = pi_data P ! (unat (pi_nread P) mod PIPESIZE)"

definition pipe_advance :: "pipe \<Rightarrow> pipe" where
  "pipe_advance P = P\<lparr>pi_nread := pi_nread P + 1\<rparr>"

text \<open>The copying loop of \<^verbatim>\<open>piperead\<close>.\<close>

primrec piperead_copy :: "uint32 \<Rightarrow> nat \<Rightarrow> ('z pipest_scheme, uchar list) kop" where
  "piperead_copy p 0 = kret []"
| "piperead_copy p (Suc k) =
     kbind (kget (\<lambda>s. pipes s p)) (\<lambda>P.
     if pi_nread P = pi_nwrite P then kret []
     else
       kseq (upd_pipe p pipe_advance)
      (kbind (piperead_copy p k) (\<lambda>cs.
       kret (pipe_front P # cs))))"

definition piperead_loop :: "uint32 \<Rightarrow> sint32 \<Rightarrow> ('z pipest_scheme, sint32 \<times> uchar list) kop" where
  "piperead_loop p n =
     kbind (kget (\<lambda>s. pipes s p)) (\<lambda>P.
     if pi_nread P = pi_nwrite P \<and> pi_writeopen P then
       kbind curproc (\<lambda>q.
       kbind (get_proc q p_killed) (\<lambda>killed.
       if killed then kseq (release (PipeLock p)) (kret (- 1, []))
       else sleep_away (ChanPipeR p) (PipeLock p)))
     else
       kbind (piperead_copy p (cnt n)) (\<lambda>cs.
       kseq (wakeup (ChanPipeW p))
      (kseq (release (PipeLock p))
            (kret (of_nat (length cs), cs)))))"

definition piperead :: "uint32 \<Rightarrow> sint32 \<Rightarrow> ('z pipest_scheme, sint32 \<times> uchar list) kop" where
  "piperead p n = kseq (acquire (PipeLock p)) (piperead_loop p n)"

definition piperead_resume :: "uint32 \<Rightarrow> sint32 \<Rightarrow> ('z pipest_scheme, sint32 \<times> uchar list) kop" where
  "piperead_resume p n = kseq (sleep_resume (PipeLock p)) (piperead_loop p n)"

section \<open>A pipe is a queue\<close>

definition pipe_ok :: "pipe \<Rightarrow> bool" where
  "pipe_ok P \<longleftrightarrow> length (pi_data P) = PIPESIZE \<and> unat (pi_nwrite P - pi_nread P) \<le> PIPESIZE"

definition pipe_list :: "pipe \<Rightarrow> uchar list" where
  "pipe_list P = ring_list (pi_data P) (pi_nread P) (pi_nwrite P)"

lemma length_pipe_list: "length (pipe_list P) = unat (pi_nwrite P - pi_nread P)"
  by (simp add: pipe_list_def)

lemma PIPESIZE_dvd: "PIPESIZE dvd 2 ^ 32"
proof -
  have "(2 :: nat) ^ 32 = PIPESIZE * 2 ^ 23" by (simp add: PIPESIZE_def)
  then show ?thesis by (rule dvdI)
qed

interpretation pq: fifo pipe_put pipe_front pipe_advance pipe_list pipe_ok PIPESIZE
proof unfold_locales
  fix P :: pipe and c
  assume ok: "pipe_ok P"
  show "pipe_ok (pipe_put c P) \<and> pipe_list (pipe_put c P) = pipe_list P @ [c]" if "length (pipe_list P) < PIPESIZE"
  proof -
    have "length (pi_data P) = PIPESIZE" "unat (pi_nwrite P - pi_nread P) < PIPESIZE"
      using ok that by (simp_all add: pipe_ok_def length_pipe_list)
    then have "pipe_list (pipe_put c P) = pipe_list P @ [c]"
      using ring_put [of "pi_data P" PIPESIZE "pi_nwrite P" "pi_nread P" c] PIPESIZE_dvd
      by (simp add: pipe_list_def pipe_put_def PIPESIZE_def)
    moreover from this have "unat (pi_nwrite P + 1 - pi_nread P) \<le> PIPESIZE"
      using length_pipe_list [of "pipe_put c P"] that by (simp add: pipe_put_def)
    ultimately show ?thesis using ok by (simp add: pipe_ok_def pipe_put_def)
  qed
  show "pipe_ok (pipe_advance P) \<and> pipe_list P = pipe_front P # pipe_list (pipe_advance P)" if "pipe_list P \<noteq> []"
  proof -
    have len: "length (pi_data P) = PIPESIZE" using ok by (simp add: pipe_ok_def)
    have "pi_nread P \<noteq> pi_nwrite P"
      using that by (auto simp: pipe_list_def ring_list_def)
    then have eq: "pipe_list P = pipe_front P # pipe_list (pipe_advance P)"
      using ring_get [of "pi_nread P" "pi_nwrite P" "pi_data P"] len by (simp add: pipe_list_def pipe_front_def pipe_advance_def)
    then have "length (pipe_list (pipe_advance P)) \<le> PIPESIZE"
      using ok length_pipe_list [of P] by (simp add: pipe_ok_def)
    then show ?thesis using eq len length_pipe_list [of "pipe_advance P"] by (simp add: pipe_ok_def pipe_advance_def)
  qed
qed

lemma pipe_full_iff: "pipe_ok P \<Longrightarrow> pipe_full P \<longleftrightarrow> length (pipe_list P) = PIPESIZE"
proof -
  assume "pipe_ok P"
  have "pi_nwrite P = pi_nread P + of_nat PIPESIZE \<longleftrightarrow> pi_nwrite P - pi_nread P = of_nat PIPESIZE"
    by (auto simp: algebra_simps)
  also have "\<dots> \<longleftrightarrow> unat (pi_nwrite P - pi_nread P) = PIPESIZE"
    by (simp add: word_unat_eq_iff PIPESIZE_def)
  finally show ?thesis by (simp add: pipe_full_def length_pipe_list)
qed

lemma pipe_empty_iff: "pi_nread P = pi_nwrite P \<longleftrightarrow> pipe_list P = []"
proof -
  have "pipe_list P = [] \<longleftrightarrow> unat (pi_nwrite P - pi_nread P) = 0"
    using length_pipe_list [of P] by auto
  also have "\<dots> \<longleftrightarrow> pi_nread P = pi_nwrite P" by (auto simp: unat_eq_0)
  finally show ?thesis by simp
qed

section \<open>Writing and reading\<close>

definition set_pipe :: "uint32 \<Rightarrow> pipe \<Rightarrow> 'z pipest_scheme \<Rightarrow> 'z pipest_scheme" where
  "set_pipe p P s = s\<lparr>pipes := (pipes s)(p := P)\<rparr>"

lemma set_pipe_simps [simp]:
  "set_pipe p P (set_pipe p Q s) = set_pipe p P s" "pipes (set_pipe p P s) p = P" "set_pipe p (pipes s p) s = s"
  "q \<noteq> p \<Longrightarrow> pipes (set_pipe p P s) q = pipes s q"
  "held (set_pipe p P s) = held s" "procs (set_pipe p P s) = procs s" "cur (set_pipe p P s) = cur s"
  by (simp_all add: set_pipe_def)

lemma upd_pipe_run [run, simp]: "upd_pipe p f s = Ok () (set_pipe p (f (pipes s p)) s)"
  by (simp add: upd_pipe_def set_pipe_def)

lemma pipe_put_open [simp]:
  "pi_readopen (pipe_put c P) = pi_readopen P" "pi_writeopen (pipe_put c P) = pi_writeopen P"
  by (simp_all add: pipe_put_def)

lemma puts_open [simp]:
  "pi_readopen (pq.puts cs P) = pi_readopen P" "pi_writeopen (pq.puts cs P) = pi_writeopen P"
  by (induction cs arbitrary: P) simp_all

lemma pipewrite_fill:
  fixes s :: "'z pipest_scheme"
  assumes "pipe_ok (pipes s p)" and "length (pipe_list (pipes s p)) + length cs \<le> PIPESIZE"
  shows "pipewrite_loop p n (cs @ ds) s = pipewrite_loop p n ds (set_pipe p (pq.puts cs (pipes s p)) s)"
  using assms
proof (induction cs arbitrary: s)
  case (Cons c cs)
  have lt: "length (pipe_list (pipes s p)) < PIPESIZE" using Cons.prems(2) by simp
  then have nf: "\<not> pipe_full (pipes s p)" using pipe_full_iff [OF Cons.prems(1)] by simp
  let ?t = "set_pipe p (pipe_put c (pipes s p)) s"
  have "pipe_ok (pipes ?t p)" "length (pipe_list (pipes ?t p)) + length cs \<le> PIPESIZE"
    using pq.put_abs [OF Cons.prems(1) lt] Cons.prems(2) by simp_all
  from Cons.IH [OF this] show ?case using nf by (simp add: run)
qed simp

lemma piperead_copy_run:
  fixes s :: "'z pipest_scheme"
  assumes "pipe_ok (pipes s p)"
  defines "m \<equiv> \<lambda>k. min k (length (pipe_list (pipes s p)))"
  shows "piperead_copy p k s = Ok (take (m k) (pipe_list (pipes s p)))
     (set_pipe p (snd (pq.gets_n (m k) (pipes s p))) s)"
  using assms(1) unfolding m_def
proof (induction k arbitrary: s)
  case (Suc k)
  let ?P = "pipes s p"
  show ?case
  proof (cases "pi_nread ?P = pi_nwrite ?P")
    case True
    then have "pipe_list ?P = []" by (simp add: pipe_empty_iff)
    then show ?thesis using True by (simp add: run)
  next
    case False
    then have ne: "pipe_list ?P \<noteq> []" by (simp add: pipe_empty_iff)
    from pq.get_abs [OF Suc.prems ne] have g: "pipe_ok (pipe_advance ?P)" "pipe_list ?P = pipe_front ?P # pipe_list (pipe_advance ?P)"
      by auto
    let ?t = "set_pipe p (pipe_advance ?P) s"
    have mm: "min (Suc k) (length (pipe_list ?P)) = Suc (min k (length (pipe_list (pipe_advance ?P))))"
      by (subst g(2)) simp
    have "piperead_copy p k ?t = Ok (take (min k (length (pipe_list (pipe_advance ?P)))) (pipe_list (pipe_advance ?P)))
       (set_pipe p (snd (pq.gets_n (min k (length (pipe_list (pipe_advance ?P)))) (pipe_advance ?P))) ?t)"
      using Suc.IH [of ?t] g(1) by simp
    then show ?thesis
      unfolding mm using False by (subst g(2)) (simp add: run split_beta Let_def)
  qed
qed simp

lemma pipes_held [simp]:
  "pipes (s\<lparr>held := h\<rparr>) = pipes s" "set_pipe p P (s\<lparr>held := h\<rparr>) = (set_pipe p P s)\<lparr>held := h\<rparr>"
  "pipes (s\<lparr>procs := ps\<rparr>) = pipes s"
  by (simp_all add: set_pipe_def)

lemma sleep_away_run:
  fixes s :: "'z ptab_scheme"
  assumes "cur s = Some q" and "q < length (procs s)" and "held s = {lk}" and "lk \<noteq> PtableLock"
  shows "sleep_away ch lk s = Swtch (s\<lparr>held := {PtableLock}, procs := (procs s)
       [q := (procs s ! q)\<lparr>p_chan := Some ch, p_state := SLEEPING\<rparr>]\<rparr>)"
  using assms by (simp add: sleep_away_def run_bind sleep_run)

text \<open>A write that fits and a read that finds something return at once.\<close>

lemma pipewrite_fits:
  fixes s :: "'z pipest_scheme"
  assumes "pipe_ok (pipes s p)" and "held s = {}" and "length (pipe_list (pipes s p)) + length cs \<le> PIPESIZE"
  shows "pipewrite p cs n s = Ok n ((set_pipe p (pq.puts cs (pipes s p)) s)\<lparr>procs := woken (Some (ChanPipeR p)) (procs s)\<rparr>)"
  using pipewrite_fill [of "s\<lparr>held := {PipeLock p}\<rparr>" p cs n "[]"] assms
  by (simp add: pipewrite_def run wakeup_run held_none)

lemma piperead_avail:
  fixes s :: "'z pipest_scheme"
  assumes "pipe_ok (pipes s p)" and "held s = {}" and "m = min (cnt n) (length (pipe_list (pipes s p)))"
    and "pipe_list (pipes s p) \<noteq> [] \<or> \<not> pi_writeopen (pipes s p)"
  shows "piperead p n s = Ok (of_nat m, take m (pipe_list (pipes s p)))
     ((set_pipe p (snd (pq.gets_n m (pipes s p))) s)\<lparr>procs := woken (Some (ChanPipeW p)) (procs s)\<rparr>)"
  using piperead_copy_run [of "s\<lparr>held := {PipeLock p}\<rparr>" p "cnt n"] assms
  by (auto simp: piperead_def piperead_loop_def run wakeup_run pipe_empty_iff held_none)

text \<open>Dispatched again, a process goes on as if it made its call anew with what is left to do.\<close>

lemma pipe_resume:
  fixes v :: "'z pipest_scheme"
  assumes "held v = {PtableLock}" and "cur v = Some q"
  shows "pipewrite_resume p n ds v =
      pipewrite p ds n (v\<lparr>held := {}, procs := (procs v)[q := (procs v ! q)\<lparr>p_chan := None\<rparr>]\<rparr>)"
    and "piperead_resume p n v =
      piperead p n (v\<lparr>held := {}, procs := (procs v)[q := (procs v ! q)\<lparr>p_chan := None\<rparr>]\<rparr>)"
proof -
  have eq: "v\<lparr>held := {PipeLock p}, procs := ps\<rparr> = v\<lparr>procs := ps, held := {PipeLock p}\<rparr>" for ps by simp
  show "pipewrite_resume p n ds v =
      pipewrite p ds n (v\<lparr>held := {}, procs := (procs v)[q := (procs v ! q)\<lparr>p_chan := None\<rparr>]\<rparr>)"
    and "piperead_resume p n v =
      piperead p n (v\<lparr>held := {}, procs := (procs v)[q := (procs v ! q)\<lparr>p_chan := None\<rparr>]\<rparr>)"
    using sleep_resume_run [of v q "PipeLock p"] assms
    by (simp_all add: pipewrite_resume_def pipewrite_def piperead_resume_def piperead_def run_seq eq)
qed

text \<open>
  C31. Writing to a pipe appends. With the pipe well formed and its lock free, \<open>k\<close> bytes of room left:
  if the bytes fit, \<^verbatim>\<open>pipewrite\<close> appends them all, wakes the readers and returns \<open>n\<close>. Otherwise it
  appends the first \<open>k\<close>; then it returns -1 if no reader is left or the process has been killed, and
  else makes every process that sleeps on the read end runnable and sleeps itself, with the lock released. Dispatched again, it goes on with exactly the
  bytes not yet written. In every case the bytes in the pipe are those that were in it followed by a
  prefix of the new ones, also when the 32-bit counters wrap around.
\<close>

theorem pipewrite_spec:
  fixes s :: "'z pipest_scheme" and p :: uint32 and n :: uint32
  defines "L \<equiv> pipe_list (pipes s p)" and "k \<equiv> PIPESIZE - length (pipe_list (pipes s p))"
  assumes "pipe_ok (pipes s p)" and "held s = {}" and "cur s = Some q" and "q < length (procs s)"
  shows "if length cs \<le> k then
      \<exists>t. pipewrite p cs n s = Ok n t \<and> pipe_list (pipes t p) = L @ cs \<and> pipe_ok (pipes t p) \<and> held t = {}
        \<and> procs t = woken (Some (ChanPipeR p)) (procs s)
    else if \<not> pi_readopen (pipes s p) \<or> p_killed (procs s ! q) then
      \<exists>t. pipewrite p cs n s = Ok (- 1) t \<and> pipe_list (pipes t p) = L @ take k cs \<and> pipe_ok (pipes t p) \<and> held t = {}
        \<and> procs t = procs s
    else
      \<exists>t. pipewrite p cs n s = Swtch t \<and> pipe_list (pipes t p) = L @ take k cs \<and> pipe_ok (pipes t p)
        \<and> held t = {PtableLock}
        \<and> procs t = (woken (Some (ChanPipeR p)) (procs s))
            [q := (woken (Some (ChanPipeR p)) (procs s) ! q)\<lparr>p_chan := Some (ChanPipeW p), p_state := SLEEPING\<rparr>]
        \<and> (\<forall>v :: 'z pipest_scheme. held v = {PtableLock} \<longrightarrow> cur v = Some q \<longrightarrow>
             pipewrite_resume p n (drop k cs) v =
             pipewrite p (drop k cs) n (v\<lparr>held := {}, procs := (procs v)[q := (procs v ! q)\<lparr>p_chan := None\<rparr>]\<rparr>))"
proof -
  let ?s = "s\<lparr>held := {PipeLock p}\<rparr>"
  have acq: "pipewrite p xs n s = pipewrite_loop p n xs ?s" for xs using assms(4) by (simp add: pipewrite_def run)
  have fill: "pipewrite_loop p n (xs @ ys) ?s =
      pipewrite_loop p n ys ((set_pipe p (pq.puts xs (pipes s p)) s)\<lparr>held := {PipeLock p}\<rparr>)"
    and abs: "pipe_ok (pq.puts xs (pipes s p)) \<and> pipe_list (pq.puts xs (pipes s p)) = L @ xs" if "length xs \<le> k" for xs ys
  proof -
    have len: "length L + length xs \<le> PIPESIZE"
      using that assms(3) by (auto simp: L_def k_def pipe_ok_def length_pipe_list)
    then show "pipewrite_loop p n (xs @ ys) ?s =
      pipewrite_loop p n ys ((set_pipe p (pq.puts xs (pipes s p)) s)\<lparr>held := {PipeLock p}\<rparr>)"
      using pipewrite_fill [of ?s p xs n ys] assms(3) by (simp add: L_def)
    show "pipe_ok (pq.puts xs (pipes s p)) \<and> pipe_list (pq.puts xs (pipes s p)) = L @ xs"
      using pq.puts_abs [OF assms(3), of xs] len by (simp add: L_def)
  qed
  show ?thesis
  proof (cases "length cs \<le> k")
    case True
    then show ?thesis using fill [OF True, of "[]"] abs [OF True] assms(4) by (simp add: acq run wakeup_run)
  next
    case False
    then have tk: "length (take k cs) \<le> k" and ne: "drop k cs \<noteq> []" by simp_all
    obtain c ds where cd: "drop k cs = c # ds" using ne by (cases "drop k cs") auto
    let ?P = "pq.puts (take k cs) (pipes s p)"
    have "length (pipe_list ?P) = PIPESIZE"
      using abs [OF tk] False assms(3) by (simp add: L_def k_def pipe_ok_def length_pipe_list)
    then have full: "pipe_full ?P" using pipe_full_iff abs [OF tk] by blast
    have go: "pipewrite p cs n s = pipewrite_loop p n (c # ds) ((set_pipe p ?P s)\<lparr>held := {PipeLock p}\<rparr>)"
      using fill [OF tk, of "drop k cs"] unfolding acq cd [symmetric] by simp
    show ?thesis
    proof (cases "\<not> pi_readopen (pipes s p) \<or> p_killed (procs s ! q)")
      case True
      then show ?thesis using False full abs [OF tk] assms(4-6) by (simp add: go run)
    next
      case awake: False
      let ?u = "(set_pipe p ?P s)\<lparr>held := {PipeLock p}, procs := woken (Some (ChanPipeR p)) (procs s)\<rparr>"
      have "pipewrite p cs n s = sleep_away (ChanPipeW p) (PipeLock p) ?u"
        using awake full assms(4-6) by (simp add: go run wakeup_run)
      also have "\<dots> = Swtch (?u\<lparr>held := {PtableLock}, procs := (procs ?u)
         [q := (procs ?u ! q)\<lparr>p_chan := Some (ChanPipeW p), p_state := SLEEPING\<rparr>]\<rparr>)"
        using assms(5,6) by (intro sleep_away_run) simp_all
      finally show ?thesis
        using False awake abs [OF tk] assms(6) by (simp add: pipe_resume)
    qed
  qed
qed

definition with_pipe :: "pipe \<Rightarrow> fsst \<Rightarrow> pipest" where
  "with_pipe P s = fsst.extend s \<lparr>pipes = \<lambda>_. P\<rparr>"

lemma with_pipe_simps [simp]:
  "pipes (with_pipe P s) p = P" "held (with_pipe P s) = held s" "cur (with_pipe P s) = cur s" "procs (with_pipe P s) = procs s"
  by (simp_all add: with_pipe_def fsst.extend_def)

definition demo_pipe :: pipe where
  "demo_pipe = \<lparr>pi_data = replicate 511 0 @ [8], pi_nread = 0xFFFFFFFF, pi_nwrite = 0, pi_readopen = True, pi_writeopen = True\<rparr>"

lemma demo_pipe_facts: "pipe_ok demo_pipe" "pipe_list demo_pipe = [8]"
  by (simp_all add: demo_pipe_def pipe_ok_def pipe_list_def ring_list_def PIPESIZE_def nth_append upt_rec)

theorem pipewrite_spec_witness:
  "\<exists>t. pipewrite 4096 [1, 2, 3] 3 (with_pipe demo_pipe (with_fs (with_log (boot_bcache demo_disk)))) = Ok 3 t
     \<and> pipe_list (pipes t 4096) = [8, 1, 2, 3]"
  using pipewrite_spec [of "with_pipe demo_pipe (with_fs (with_log (boot_bcache demo_disk)))" 4096 0 "[1, 2, 3]" 3]
  by (auto simp: demo_pipe_facts PIPESIZE_def)

text \<open>
  C32. Reading from a pipe takes from the front. If the pipe is empty and a writer is left, \<^verbatim>\<open>piperead\<close>
  returns -1 to a killed process and puts any other to sleep, changing nothing in the pipe; the process
  comes back to the same test. Otherwise it returns the first \<open>n\<close> bytes, or all if there are fewer (none at
  the end of the stream), removes exactly these and wakes the writers.
\<close>

theorem piperead_spec:
  fixes s :: "'z pipest_scheme" and p :: uint32 and n :: uint32
  defines "L \<equiv> pipe_list (pipes s p)" and "m \<equiv> min (cnt n) (length (pipe_list (pipes s p)))"
  assumes "pipe_ok (pipes s p)" and "held s = {}" and "cur s = Some q" and "q < length (procs s)"
  shows "if L = [] \<and> pi_writeopen (pipes s p) then
      if p_killed (procs s ! q) then piperead p n s = Ok (- 1, []) s
      else \<exists>t. piperead p n s = Swtch t \<and> pipes t = pipes s \<and> held t = {PtableLock}
        \<and> p_state (procs t ! q) = SLEEPING \<and> p_chan (procs t ! q) = Some (ChanPipeR p)
        \<and> (\<forall>v :: 'z pipest_scheme. held v = {PtableLock} \<longrightarrow> cur v = Some q \<longrightarrow>
             piperead_resume p n v =
             piperead p n (v\<lparr>held := {}, procs := (procs v)[q := (procs v ! q)\<lparr>p_chan := None\<rparr>]\<rparr>))
    else \<exists>t. piperead p n s = Ok (of_nat m, take m L) t \<and> pipe_list (pipes t p) = drop m L \<and> pipe_ok (pipes t p)
        \<and> held t = {} \<and> procs t = woken (Some (ChanPipeW p)) (procs s)"
proof -
  let ?s = "s\<lparr>held := {PipeLock p}\<rparr>"
  have acq: "piperead p n s = piperead_loop p n ?s" using assms(4) by (simp add: piperead_def run)
  have emp: "pi_nread (pipes s p) = pi_nwrite (pipes s p) \<longleftrightarrow> L = []" by (simp add: pipe_empty_iff L_def)
  show ?thesis
  proof (cases "L = [] \<and> pi_writeopen (pipes s p)")
    case True
    show ?thesis
    proof (cases "p_killed (procs s ! q)")
      case killed: True
      then show ?thesis using True emp assms(4-6) by (simp add: acq piperead_loop_def run held_none)
    next
      case alive: False
      have "piperead p n s = sleep_away (ChanPipeR p) (PipeLock p) ?s"
        using True alive emp assms(4-6) by (simp add: acq piperead_loop_def run)
      also have "\<dots> = Swtch (?s\<lparr>held := {PtableLock}, procs := (procs s)
         [q := (procs s ! q)\<lparr>p_chan := Some (ChanPipeR p), p_state := SLEEPING\<rparr>]\<rparr>)"
        using assms(5,6) by (subst sleep_away_run) simp_all
      finally show ?thesis using True alive assms(6) by (simp add: pipe_resume)
    qed
  next
    case False
    have g: "fst (pq.gets_n m (pipes s p)) = take m L \<and> pipe_list (snd (pq.gets_n m (pipes s p))) = drop m L
        \<and> pipe_ok (snd (pq.gets_n m (pipes s p)))"
      using pq.gets_abs [OF assms(3), of m] by (simp add: m_def L_def)
    have "piperead_copy p (cnt n) ?s = Ok (take m L) ((set_pipe p (snd (pq.gets_n m (pipes s p))) s)\<lparr>held := {PipeLock p}\<rparr>)"
      using piperead_copy_run [of ?s p "cnt n"] assms(3) by (simp add: m_def L_def)
    then show ?thesis
      using False emp g assms(4) by (auto simp: acq piperead_loop_def run wakeup_run m_def L_def)
  qed
qed

theorem piperead_spec_witness:
  "\<exists>t. piperead 4096 5 (with_pipe demo_pipe (with_fs (with_log (boot_bcache demo_disk)))) = Ok (1, [8]) t
     \<and> pipe_list (pipes t 4096) = []"
  using piperead_spec [of "with_pipe demo_pipe (with_fs (with_log (boot_bcache demo_disk)))" 4096 0 5]
  by (auto simp: demo_pipe_facts cnt_def word_sless_alt)

end
