(* ===== verification/File.thy ===== *)
theory File
  imports Pipe
begin

text \<open>
  The file table (\<^verbatim>\<open>file.c\<close>) and \<^verbatim>\<open>pipealloc\<close> of \<^verbatim>\<open>pipe.c\<close>. An open file is an entry of the table
  with a reference count; it is one end of a pipe, or an inode with an offset. A pointer to an
  entry is its index.
\<close>

section \<open>\<^verbatim>\<open>file.c\<close>\<close>

definition NFILE :: nat where "NFILE = 100"

datatype ftype = FD_NONE | FD_PIPE | FD_INODE

record kfile =
  f_type :: ftype
  f_ref :: sint32
  f_readable :: bool
  f_writable :: bool
  f_pipe :: uint32
  f_ip :: "nat option"
  f_off :: uint32

record filest = pipest +
  ftable :: "kfile list"

definition get_file :: "nat \<Rightarrow> (kfile \<Rightarrow> 'a) \<Rightarrow> ('z filest_scheme, 'a) kop" where
  "get_file f g = kget (\<lambda>s. g (ftable s ! f))"

definition upd_file :: "nat \<Rightarrow> (kfile \<Rightarrow> kfile) \<Rightarrow> ('z filest_scheme, unit) kop" where
  "upd_file f g = kmod (\<lambda>s. s\<lparr>ftable := (ftable s)[f := g (ftable s ! f)]\<rparr>)"

text \<open>A pointer to an inode where the code uses it without a test.\<close>

definition deref :: "nat option \<Rightarrow> (nat \<Rightarrow> ('s, 'a) kop) \<Rightarrow> ('s, 'a) kop" where
  "deref io k = (case io of None \<Rightarrow> kfault ''null'' | Some i \<Rightarrow> k i)"

definition filealloc :: "('z filest_scheme, nat option) kop" where
  "filealloc =
     kseq (acquire FtableLock)
    (kbind (kget ftable) (\<lambda>fs.
     case claim_slot (\<lambda>f. f_ref f = 0) (\<lambda>f. f\<lparr>f_ref := 1\<rparr>) fs of
       Some (i, fs') \<Rightarrow>
         kseq (kmod (\<lambda>s. s\<lparr>ftable := fs'\<rparr>))
        (kseq (release FtableLock)
              (kret (Some i)))
     | None \<Rightarrow>
         kseq (release FtableLock)
              (kret None)))"

definition filedup :: "nat \<Rightarrow> ('z filest_scheme, nat) kop" where
  "filedup f =
     kseq (acquire FtableLock)
    (kbind (get_file f f_ref) (\<lambda>r.
     kseq (kcheck (r <s 1) ''filedup'')
    (kseq (upd_file f (\<lambda>F. F\<lparr>f_ref := f_ref F + 1\<rparr>))
    (kseq (release FtableLock)
          (kret f)))))"

definition fileclose :: "nat \<Rightarrow> ('z filest_scheme, unit) kop" where
  "fileclose f =
     kseq (acquire FtableLock)
    (kbind (get_file f f_ref) (\<lambda>r.
     kseq (kcheck (r <s 1) ''fileclose'')
    (kseq (upd_file f (\<lambda>F. F\<lparr>f_ref := f_ref F - 1\<rparr>))
    (kbind (get_file f id) (\<lambda>ff.
     if 0 <s f_ref ff then release FtableLock
     else
       kseq (upd_file f (\<lambda>F. F\<lparr>f_ref := 0, f_type := FD_NONE\<rparr>))
      (kseq (release FtableLock)
            (if f_type ff = FD_PIPE then pipeclose (f_pipe ff) (f_writable ff)
             else if f_type ff = FD_INODE then
               kseq begin_op
              (kseq (deref (f_ip ff) iput)
                    end_op)
             else kret ())))))))"

text \<open>\<^verbatim>\<open>filestat\<close> returns its result and the structure written to \<^verbatim>\<open>st\<close>, if any.\<close>

definition filestat :: "nat \<Rightarrow> ('z filest_scheme, sint32 \<times> stat option) kop" where
  "filestat f =
     kbind (get_file f id) (\<lambda>F.
     if f_type F = FD_INODE then
       kseq (ilock (f_ip F))
      (kbind (deref (f_ip F) stati) (\<lambda>st.
       kseq (iunlock (f_ip F))
            (kret (0, Some st))))
     else kret (- 1, None))"

definition fileread :: "('z filest_scheme) devsw \<Rightarrow> nat \<Rightarrow> sint32 \<Rightarrow>
    ('z filest_scheme, sint32 \<times> uchar list) kop" where
  "fileread dsw f n =
     kbind (get_file f id) (\<lambda>F.
     if \<not> f_readable F then kret (- 1, [])
     else if f_type F = FD_PIPE then piperead (f_pipe F) n
     else if f_type F = FD_INODE then
       kseq (ilock (f_ip F))
      (kbind (get_file f f_off) (\<lambda>off.
       kbind (deref (f_ip F) (\<lambda>i. readi dsw i off n)) (\<lambda>(r, bs).
       kseq (kwhen (0 <s r) (upd_file f (\<lambda>F. F\<lparr>f_off := f_off F + r\<rparr>)))
      (kseq (iunlock (f_ip F))
            (kret (r, bs))))))
     else kpanic ''fileread'')"

text \<open>The most bytes one transaction of \<^verbatim>\<open>filewrite\<close> writes.\<close>

definition write_max :: nat where "write_max = ((MAXOPBLOCKS - 1 - 1 - 2) div 2) * 512"

text \<open>The loop of \<^verbatim>\<open>filewrite\<close>: \<open>i\<close> bytes are written, \<open>bs\<close> are those still to be written. The value
  is \<^verbatim>\<open>i\<close> after the loop.\<close>

function filewrite_loop :: "('z filest_scheme) devsw \<Rightarrow> nat \<Rightarrow> sint32 \<Rightarrow> uchar list \<Rightarrow>
    ('z filest_scheme, sint32) kop" where
  "filewrite_loop dsw f i bs =
     (if bs = [] then kret i
      else
       (let n1 = min (length bs) write_max in
        kseq begin_op
       (kbind (get_file f f_ip) (\<lambda>ip.
        kseq (ilock ip)
       (kbind (get_file f f_off) (\<lambda>off.
        kbind (deref ip (\<lambda>j. writei dsw j (take n1 bs) off)) (\<lambda>r.
        kseq (kwhen (0 <s r) (upd_file f (\<lambda>F. F\<lparr>f_off := f_off F + r\<rparr>)))
       (kseq (iunlock ip)
       (kseq end_op
             (if r <s 0 then kret i
              else if r \<noteq> of_nat n1 then kpanic ''short filewrite''
              else filewrite_loop dsw f (i + r) (drop n1 bs)))))))))))"
  by auto
termination
  by (relation "measure (\<lambda>(dsw, f, i, bs). length bs)") (auto simp: write_max_def MAXOPBLOCKS_def)

declare filewrite_loop.simps [simp del]

text \<open>\<open>bs\<close> are the bytes at \<^verbatim>\<open>addr\<close>, \<open>cnt n\<close> many.\<close>

definition filewrite :: "('z filest_scheme) devsw \<Rightarrow> nat \<Rightarrow> uchar list \<Rightarrow> sint32 \<Rightarrow>
    ('z filest_scheme, sint32) kop" where
  "filewrite dsw f bs n =
     kbind (get_file f id) (\<lambda>F.
     if \<not> f_writable F then kret (- 1)
     else if f_type F = FD_PIPE then pipewrite (f_pipe F) bs n
     else if f_type F = FD_INODE then
       kbind (filewrite_loop dsw f 0 bs) (\<lambda>i.
       kret (if i = n then n else - 1))
     else kpanic ''filewrite'')"

section \<open>\<^verbatim>\<open>pipealloc\<close>\<close>

text \<open>The label \<^verbatim>\<open>bad\<close>: every jump to it is taken with \<^verbatim>\<open>p\<close> null, so no page is freed there.\<close>

definition pipealloc_bad :: "nat option \<Rightarrow> nat option \<Rightarrow> ('z filest_scheme, (nat \<times> nat) option) kop" where
  "pipealloc_bad f0 f1 =
     kseq (case f0 of None \<Rightarrow> kret () | Some f \<Rightarrow> fileclose f)
    (kseq (case f1 of None \<Rightarrow> kret () | Some f \<Rightarrow> fileclose f)
          (kret None))"

text \<open>The value is \<^verbatim>\<open>*f0\<close> and \<^verbatim>\<open>*f1\<close> when the C function returns 0.\<close>

definition pipealloc :: "('z filest_scheme, (nat \<times> nat) option) kop" where
  "pipealloc =
     kbind filealloc (\<lambda>f0. case f0 of None \<Rightarrow> pipealloc_bad None None | Some i0 \<Rightarrow>
     kbind filealloc (\<lambda>f1. case f1 of None \<Rightarrow> pipealloc_bad f0 None | Some i1 \<Rightarrow>
     kbind kalloc (\<lambda>p.
     if p = 0 then pipealloc_bad f0 f1
     else
       kseq (upd_pipe p (\<lambda>P. P\<lparr>pi_readopen := True, pi_writeopen := True, pi_nwrite := 0, pi_nread := 0\<rparr>))
      (kseq (upd_file i0 (\<lambda>F. F\<lparr>f_type := FD_PIPE, f_readable := True, f_writable := False, f_pipe := p\<rparr>))
      (kseq (upd_file i1 (\<lambda>F. F\<lparr>f_type := FD_PIPE, f_readable := False, f_writable := True, f_pipe := p\<rparr>))
            (kret (Some (i0, i1))))))))"

section \<open>The table and its free entries\<close>

lemma get_file_run [run, simp]: "get_file f g s = Ok (g (ftable s ! f)) s"
  by (simp add: get_file_def)

lemma upd_file_run [run, simp]: "upd_file f g s = Ok () (s\<lparr>ftable := (ftable s)[f := g (ftable s ! f)]\<rparr>)"
  by (simp add: upd_file_def)

lemma deref_Some [simp]: "deref (Some i) k = k i"
  by (simp add: deref_def)

interpretation ft: slot_table "\<lambda>f. f_ref f = 0" "\<lambda>f. f\<lparr>f_ref := 1\<rparr>"
  by unfold_locales simp

definition file_free :: "kfile list \<Rightarrow> nat set" where
  "file_free = slots_free (\<lambda>f. f_ref f = 0)"

text \<open>The invariant of the table: no count is negative, and an entry without references has no type,
  so that closing it again cannot close a pipe or drop an inode.\<close>

definition ftable_ok :: "kfile list \<Rightarrow> bool" where
  "ftable_ok fs \<longleftrightarrow> (\<forall>f\<in>set fs. 0 \<le>s f_ref f \<and> (f_ref f = 0 \<longrightarrow> f_type f = FD_NONE))"

lemma filealloc_none:
  assumes "FtableLock \<notin> held s" and "file_free (ftable s) = {}"
  shows "filealloc s = Ok None s"
  using assms ft.claim_None [of "ftable s"] by (simp add: filealloc_def run file_free_def)

lemma filealloc_some:
  assumes "FtableLock \<notin> held s" and "file_free (ftable s) \<noteq> {}"
  obtains i where "i \<in> file_free (ftable s)"
    and "filealloc s = Ok (Some i) (s\<lparr>ftable := (ftable s)[i := (ftable s ! i)\<lparr>f_ref := 1\<rparr>]\<rparr>)"
    and "file_free ((ftable s)[i := (ftable s ! i)\<lparr>f_ref := 1\<rparr>]) = file_free (ftable s) - {i}"
proof -
  from assms(2) obtain i fs where c: "claim_slot (\<lambda>f. f_ref f = 0) (\<lambda>f. f\<lparr>f_ref := 1\<rparr>) (ftable s) = Some (i, fs)"
    using ft.claim_None [of "ftable s"] by (auto simp: file_free_def)
  have eq: "s\<lparr>ftable := fs, held := held s\<rparr> = s\<lparr>ftable := fs\<rparr>" by simp
  show ?thesis
  proof
    show "i \<in> file_free (ftable s)" using ft.claim_Some(1) [OF c] by (simp add: file_free_def)
    show "filealloc s = Ok (Some i) (s\<lparr>ftable := (ftable s)[i := (ftable s ! i)\<lparr>f_ref := 1\<rparr>]\<rparr>)"
      using c assms(1) ft.claim_Some(2) [OF c] by (simp add: filealloc_def run)
    show "file_free ((ftable s)[i := (ftable s ! i)\<lparr>f_ref := 1\<rparr>]) = file_free (ftable s) - {i}"
      using ft.claim_Some(2,3) [OF c] by (simp add: file_free_def)
  qed
qed

text \<open>Closing an entry just claimed, whose type is not yet set, gives it back.\<close>

lemma fileclose_fresh:
  assumes "FtableLock \<notin> held s" and "i < length (ftable s)" and "f_type (ftable s ! i) = FD_NONE" and "f_ref (ftable s ! i) = 1"
  shows "fileclose i s = Ok () (s\<lparr>ftable := (ftable s)[i := (ftable s ! i)\<lparr>f_ref := 0, f_type := FD_NONE\<rparr>]\<rparr>)"
  using assms by (simp add: fileclose_def run word_sless_alt)

lemma file_frame [simp]:
  "kmem_frees (s\<lparr>ftable := fs\<rparr>) F = kmem_frees s F" "kmem_frees (set_pipe p P t) F = kmem_frees t F"
  by (simp_all add: kmem_frees_def kmem_ok_def set_pipe_def)

lemma ftable_set_pipe [simp]: "ftable (set_pipe p P s) = ftable s" "kend (set_pipe p P t) = kend t"
  by (simp_all add: set_pipe_def)

lemma file_freeD:
  assumes "ftable_ok fs" and "i \<in> file_free fs"
  shows "i < length fs" "f_ref (fs ! i) = 0" "f_type (fs ! i) = FD_NONE"
  using assms by (auto simp: file_free_def slots_free_def ftable_ok_def)

text \<open>Claiming an entry and closing it at once leaves the state as it was.\<close>

lemma fileclose_claimed:
  assumes "FtableLock \<notin> held s" and "ftable_ok (ftable s)" and "i \<in> file_free (ftable s)" and "j \<noteq> i"
  shows "fileclose i (s\<lparr>ftable := (ftable s)[i := (ftable s ! i)\<lparr>f_ref := 1\<rparr>]\<rparr>) = Ok () s"
    and "fileclose i (s\<lparr>ftable := (ftable s)[i := (ftable s ! i)\<lparr>f_ref := 1\<rparr>, j := x]\<rparr>) = Ok () (s\<lparr>ftable := (ftable s)[j := x]\<rparr>)"
proof -
  note f = file_freeD [OF assms(2,3)]
  have e: "(ftable s ! i)\<lparr>f_ref := 0, f_type := FD_NONE\<rparr> = ftable s ! i" using f by simp
  have "(ftable s)[i := ftable s ! i] = ftable s" "s\<lparr>ftable := ftable s\<rparr> = s" by simp_all
  then show "fileclose i (s\<lparr>ftable := (ftable s)[i := (ftable s ! i)\<lparr>f_ref := 1\<rparr>]\<rparr>) = Ok () s"
    using fileclose_fresh [of "s\<lparr>ftable := (ftable s)[i := (ftable s ! i)\<lparr>f_ref := 1\<rparr>]\<rparr>" i] assms(1) f e by simp
  have sw: "(ftable s)[i := (ftable s ! i)\<lparr>f_ref := 1\<rparr>, j := x] = (ftable s)[j := x, i := (ftable s ! i)\<lparr>f_ref := 1\<rparr>]"
    using assms(4) by (intro list_update_swap) auto
  have "(ftable s)[j := x, i := ftable s ! i] = (ftable s)[j := x]"
    using assms(4) by (intro list_update_same_conv [THEN iffD2]) (use f in auto)
  then show "fileclose i (s\<lparr>ftable := (ftable s)[i := (ftable s ! i)\<lparr>f_ref := 1\<rparr>, j := x]\<rparr>) = Ok () (s\<lparr>ftable := (ftable s)[j := x]\<rparr>)"
    unfolding sw using fileclose_fresh [of "s\<lparr>ftable := (ftable s)[j := x, i := (ftable s ! i)\<lparr>f_ref := 1\<rparr>]\<rparr>" i] assms(1,4) f e
    by simp
qed

text \<open>The entries \<^verbatim>\<open>pipealloc\<close> makes of two free ones.\<close>

definition pipe_end :: "bool \<Rightarrow> uint32 \<Rightarrow> kfile \<Rightarrow> kfile" where
  "pipe_end wr p F = F\<lparr>f_ref := 1, f_type := FD_PIPE, f_readable := \<not> wr, f_writable := wr, f_pipe := p\<rparr>"

definition new_pipe :: "pipe \<Rightarrow> pipe" where
  "new_pipe P = P\<lparr>pi_readopen := True, pi_writeopen := True, pi_nwrite := 0, pi_nread := 0\<rparr>"

lemma new_pipe_ok:
  "length (pi_data P) = PIPESIZE \<Longrightarrow> pipe_ok (new_pipe P)" "pipe_list (new_pipe P) = []"
  "pi_readopen (new_pipe P)" "pi_writeopen (new_pipe P)"
  by (simp_all add: new_pipe_def pipe_ok_def pipe_list_def ring_list_def)

lemma pipealloc_fails:
  fixes s :: "'z filest_scheme"
  assumes "FtableLock \<notin> held s" and "ftable_ok (ftable s)" and "kmem_frees s F"
    and "card (file_free (ftable s)) < 2 \<or> F = {}"
  shows "pipealloc s = Ok None s"
proof (cases "file_free (ftable s) = {}")
  case True
  then show ?thesis using filealloc_none [OF assms(1)] by (simp add: pipealloc_def pipealloc_bad_def run)
next
  case False
  from filealloc_some [OF assms(1) False] obtain i where i: "i \<in> file_free (ftable s)"
    and a: "filealloc s = Ok (Some i) (s\<lparr>ftable := (ftable s)[i := (ftable s ! i)\<lparr>f_ref := 1\<rparr>]\<rparr>)"
    and fr: "file_free ((ftable s)[i := (ftable s ! i)\<lparr>f_ref := 1\<rparr>]) = file_free (ftable s) - {i}" .
  let ?s = "s\<lparr>ftable := (ftable s)[i := (ftable s ! i)\<lparr>f_ref := 1\<rparr>]\<rparr>"
  have l: "FtableLock \<notin> held ?s" using assms(1) by simp
  show ?thesis
  proof (cases "file_free (ftable ?s) = {}")
    case True
    then show ?thesis using a filealloc_none [OF l] fileclose_claimed(1) [OF assms(1,2) i, of "Suc i"]
      by (simp add: pipealloc_def pipealloc_bad_def run)
  next
    case two: False
    from filealloc_some [OF l two] obtain j where j: "j \<in> file_free (ftable ?s)"
      and b: "filealloc ?s = Ok (Some j) (?s\<lparr>ftable := (ftable ?s)[j := (ftable ?s ! j)\<lparr>f_ref := 1\<rparr>]\<rparr>)" .
    have ji: "j \<noteq> i" "j \<in> file_free (ftable s)" using j fr by simp_all
    have "{i, j} \<subseteq> file_free (ftable s)" using i ji by simp
    then have "card {i, j} \<le> card (file_free (ftable s))" by (intro card_mono) (simp_all add: file_free_def)
    then have "F = {}" using ji assms(4) by simp
    then have "kalloc (s\<lparr>ftable := fs\<rparr>) = Ok 0 (s\<lparr>ftable := fs\<rparr>)" for fs
      using assms(3) by (intro pa.alloc_empty) simp
    then show ?thesis
      using a b ji fileclose_claimed(2) [OF assms(1,2) i ji(1)] fileclose_claimed(1) [OF assms(1,2) ji(2), of i]
      by (simp add: pipealloc_def pipealloc_bad_def run)
  qed
qed

lemma pipealloc_succeeds:
  fixes s :: "'z filest_scheme"
  assumes "FtableLock \<notin> held s" and "ftable_ok (ftable s)" and "kmem_frees s F"
    and "2 \<le> card (file_free (ftable s))" and "F \<noteq> {}"
  obtains i0 i1 p u where "i0 \<noteq> i1" and "i0 \<in> file_free (ftable s)" and "i1 \<in> file_free (ftable s)"
    and "p \<in> F" and "kalloc s = Ok p u" and "kmem_frees u (F - {p})"
    and "pipealloc s = Ok (Some (i0, i1)) ((set_pipe p (new_pipe (pipes s p)) u)
       \<lparr>ftable := (ftable s)[i0 := pipe_end False p (ftable s ! i0), i1 := pipe_end True p (ftable s ! i1)]\<rparr>)"
proof -
  obtain fl where fl: "kmem_ok fl s" "set fl = F" using assms(3) by (auto simp: kmem_frees_def)
  then obtain p ps where ps: "fl = p # ps" using assms(5) by (cases fl) auto
  let ?u = "s\<lparr>freelist := load32 (physmem s) p\<rparr>"
  have k: "kalloc s = Ok p ?u" using kalloc_run [OF fl(1)] ps by simp
  have p: "p \<in> F" "p \<noteq> 0" using fl ps by (auto simp: kmem_ok_def)
  have fu: "kmem_frees ?u (F - {p})"
    using pa.alloc_some [OF assms(3,5)] k by (simp add: wpk_def)
  have k': "kalloc (s\<lparr>ftable := fs\<rparr>) = Ok p (?u\<lparr>ftable := fs\<rparr>)" for fs
    using fl(1) ps kalloc_run [of fl "s\<lparr>ftable := fs\<rparr>"] by (simp add: kmem_ok_def)
  have ne: "file_free (ftable s) \<noteq> {}" using assms(4) by auto
  from filealloc_some [OF assms(1) ne] obtain i where i: "i \<in> file_free (ftable s)"
    and a: "filealloc s = Ok (Some i) (s\<lparr>ftable := (ftable s)[i := (ftable s ! i)\<lparr>f_ref := 1\<rparr>]\<rparr>)"
    and fr: "file_free ((ftable s)[i := (ftable s ! i)\<lparr>f_ref := 1\<rparr>]) = file_free (ftable s) - {i}" .
  let ?s = "s\<lparr>ftable := (ftable s)[i := (ftable s ! i)\<lparr>f_ref := 1\<rparr>]\<rparr>"
  have l: "FtableLock \<notin> held ?s" using assms(1) by simp
  have "\<not> file_free (ftable s) \<subseteq> {i}" using assms(4) card_mono [of "{i}" "file_free (ftable s)"] by auto
  then have two: "file_free (ftable ?s) \<noteq> {}" using fr by auto
  from filealloc_some [OF l two] obtain j where j: "j \<in> file_free (ftable ?s)"
    and b: "filealloc ?s = Ok (Some j) (?s\<lparr>ftable := (ftable ?s)[j := (ftable ?s ! j)\<lparr>f_ref := 1\<rparr>]\<rparr>)" .
  have ji: "i \<noteq> j" "j \<in> file_free (ftable s)" using j fr by auto
  note len = file_freeD(1) [OF assms(2) i] file_freeD(1) [OF assms(2) ji(2)]
  have "pipealloc s = Ok (Some (i, j)) ((set_pipe p (new_pipe (pipes s p)) ?u)
       \<lparr>ftable := (ftable s)[i := pipe_end False p (ftable s ! i), j := pipe_end True p (ftable s ! j)]\<rparr>)"
    using a b k' p(2) ji len
    by (simp add: pipealloc_def run pipe_end_def new_pipe_def set_pipe_def list_update_swap [of j i])
  then show ?thesis using that [OF ji(1) i ji(2) p(1) k fu] by blast
qed

text \<open>
  C30. \<^verbatim>\<open>pipealloc\<close> makes a pipe or nothing. If the table has two free entries and a page is free, it
  returns two different entries that were free, one the reading end and one the writing end of a pipe in a
  page that was free, which is empty and open at both ends; no other entry and no other pipe changes. Else it
  fails and leaves no trace: an entry or page it had taken is given back, and the state is the one before.
\<close>

theorem pipealloc_spec:
  fixes s :: "'z filest_scheme"
  assumes "FtableLock \<notin> held s" and "ftable_ok (ftable s)" and "kmem_frees s F"
    and "\<And>p. length (pi_data (pipes s p)) = PIPESIZE"
  shows "if card (file_free (ftable s)) < 2 \<or> F = {} then pipealloc s = Ok None s
    else \<exists>i0 i1 p t. pipealloc s = Ok (Some (i0, i1)) t \<and> i0 \<noteq> i1 \<and> {i0, i1} \<subseteq> file_free (ftable s) \<and> p \<in> F
      \<and> ftable t = (ftable s)[i0 := pipe_end False p (ftable s ! i0), i1 := pipe_end True p (ftable s ! i1)]
      \<and> kmem_frees t (F - {p}) \<and> (\<forall>q. q \<noteq> p \<longrightarrow> pipes t q = pipes s q)
      \<and> pipe_ok (pipes t p) \<and> pipe_list (pipes t p) = [] \<and> pi_readopen (pipes t p) \<and> pi_writeopen (pipes t p)"
proof (cases "card (file_free (ftable s)) < 2 \<or> F = {}")
  case True
  then show ?thesis using pipealloc_fails [OF assms(1-3)] by simp
next
  case False
  then have "2 \<le> card (file_free (ftable s))" "F \<noteq> {}" by auto
  from pipealloc_succeeds [OF assms(1-3) this] obtain i0 i1 p u where
    r: "i0 \<noteq> i1" "i0 \<in> file_free (ftable s)" "i1 \<in> file_free (ftable s)" "p \<in> F" "kalloc s = Ok p u" "kmem_frees u (F - {p})"
    "pipealloc s = Ok (Some (i0, i1)) ((set_pipe p (new_pipe (pipes s p)) u)
       \<lparr>ftable := (ftable s)[i0 := pipe_end False p (ftable s ! i0), i1 := pipe_end True p (ftable s ! i1)]\<rparr>)" .
  have "pipes u = pipes s" using r(5) by (auto simp: kalloc_def run split: if_splits)
  then show ?thesis using False r new_pipe_ok assms(4) by auto
qed

definition zero_file :: kfile where
  "zero_file = \<lparr>f_type = FD_NONE, f_ref = 0, f_readable = False, f_writable = False, f_pipe = 0, f_ip = None, f_off = 0\<rparr>"

definition dev_none :: "filest devsw" where
  "dev_none = \<lparr>dev_read = \<lambda>_. None, dev_write = \<lambda>_. None\<rparr>"

definition demo_files :: "kfile list \<Rightarrow> filest" where
  "demo_files fs = pipest.extend (with_pipe demo_pipe (with_fs (with_log (boot_bcache demo_disk)))) \<lparr>ftable = fs\<rparr>"

lemma demo_files_simps [simp]:
  "ftable (demo_files fs) = fs" "held (demo_files fs) = {}" "pipes (demo_files fs) p = demo_pipe"
  "physmem (demo_files fs) = (\<lambda>_. 0)" "freelist (demo_files fs) = 0x80400000" "use_lock (demo_files fs)"
  "kend (demo_files fs) = 0x80115000" "cur (demo_files fs) = Some 0" "length (procs (demo_files fs)) = 2"
  by (simp_all add: demo_files_def pipest.extend_def with_pipe_def fsst.extend_def with_fs_def logst.extend_def
      with_log_def bcache.extend_def boot_bcache_def vmem.extend_def kmem.extend_def demo_kmem_def sleeps.extend_def
      demo_sleeps_def ptab.extend_def demo_ptab_def)

lemma demo_files_frees: "kmem_frees (demo_files fs) {0x80400000}"
  by (auto simp: kmem_frees_def kmem_ok_def load32_def valid_page_def PGSIZE_def V2P_def KERNBASE_def PHYSTOP_def
      intro!: exI [of _ "[0x80400000]"])

lemma demo_files_ok:
  "ftable_ok (replicate n zero_file)" "file_free (replicate n zero_file) = {..<n}" "length (pi_data demo_pipe) = PIPESIZE"
  by (auto simp: ftable_ok_def zero_file_def file_free_def slots_free_def demo_pipe_def PIPESIZE_def)

theorem pipealloc_spec_witness:
  "pipealloc (demo_files [zero_file]) = Ok None (demo_files [zero_file])"
  using pipealloc_spec [of "demo_files [zero_file]" "{0x80400000}"] demo_files_ok(1,2) [of 1] demo_files_ok(3) demo_files_frees by simp

section \<open>The life of a pipe\<close>

lemma fileclose_pipe:
  assumes "FtableLock \<notin> held s" and "i < length (ftable s)" and "f_type (ftable s ! i) = FD_PIPE" and "f_ref (ftable s ! i) = 1"
  shows "fileclose i s = pipeclose (f_pipe (ftable s ! i)) (f_writable (ftable s ! i))
     (s\<lparr>ftable := (ftable s)[i := (ftable s ! i)\<lparr>f_ref := 0, f_type := FD_NONE\<rparr>]\<rparr>)"
  using assms by (simp add: fileclose_def run word_sless_alt)

lemma pipeclose_write:
  assumes "held s = {}" and "pi_readopen (pipes s p)"
  shows "pipeclose p True s = Ok () ((set_pipe p ((pipes s p)\<lparr>pi_writeopen := False\<rparr>) s)
     \<lparr>procs := woken (Some (ChanPipeR p)) (procs s)\<rparr>)"
  using assms by (simp add: pipeclose_def run wakeup_run held_none)

lemma pipeclose_last:
  assumes "held s = {}" and "\<not> pi_writeopen (pipes s p)"
  shows "pipeclose p False s = kfree p ((set_pipe p ((pipes s p)\<lparr>pi_readopen := False\<rparr>) s)
     \<lparr>procs := woken (Some (ChanPipeW p)) (procs s)\<rparr>)"
  using assms by (simp add: pipeclose_def run wakeup_run held_none)

lemma kfree_fs:
  fixes s :: "'z filest_scheme"
  assumes "kmem_frees s F" and "valid_page (kend s) p" and "p \<notin> F"
  obtains t where "kfree p s = Ok () t" and "kmem_frees t (insert p F)" and "ftable t = ftable s"
proof -
  obtain fl where fl: "kmem_ok fl s" using assms(1) by (auto simp: kmem_frees_def)
  from pa.free_ok [OF assms] kfree_run [OF fl assms(2)] show ?thesis
    using that [of "s\<lparr>physmem := junked (physmem s) p (freelist s), freelist := p\<rparr>"] by (simp add: wpk_def)
qed

lemma file_free_update:
  assumes "i < length fs"
  shows "file_free (fs[i := F]) = (if f_ref F = 0 then insert i (file_free fs) else file_free fs - {i})"
  using assms by (auto simp: file_free_def slots_free_def nth_list_update split: if_splits)

lemma procs_frees [simp]: "kmem_frees (s\<lparr>procs := ps\<rparr>) F = kmem_frees s F"
  by (simp add: kmem_frees_def kmem_ok_def)

lemma pipe_write_then_close:
  fixes t :: "'z filest_scheme"
  assumes h: "held t = {}" and i1: "i1 < length (ftable t)" "ftable t ! i1 = pipe_end True p E"
    and P: "pipe_ok (pipes t p)" "pipe_list (pipes t p) = []" "pi_readopen (pipes t p)" and len: "length bs \<le> PIPESIZE"
  obtains u v where "filewrite dsw i1 bs n t = Ok n u" and "fileclose i1 u = Ok () v" and "held v = {}"
    and "ftable v = (ftable t)[i1 := (ftable t ! i1)\<lparr>f_ref := 0, f_type := FD_NONE\<rparr>]"
    and "pipe_ok (pipes v p)" and "pipe_list (pipes v p) = bs" and "\<not> pi_writeopen (pipes v p)"
    and "\<forall>F. kmem_frees v F = kmem_frees t F" and "kend v = kend t"
proof -
  let ?u = "(set_pipe p (pq.puts bs (pipes t p)) t)\<lparr>procs := woken (Some (ChanPipeR p)) (procs t)\<rparr>"
  have w: "filewrite dsw i1 bs n t = Ok n ?u"
    using pipewrite_fits [OF P(1) h, of bs n] P(2) len i1 by (simp add: filewrite_def run pipe_end_def)
  have pl: "pipe_ok (pq.puts bs (pipes t p))" "pipe_list (pq.puts bs (pipes t p)) = bs"
    using pq.puts_abs [OF P(1), of bs] P(2) len by simp_all
  let ?F = "ftable t ! i1"
  let ?w = "?u\<lparr>ftable := (ftable t)[i1 := ?F\<lparr>f_ref := 0, f_type := FD_NONE\<rparr>]\<rparr>"
  let ?v = "(set_pipe p ((pq.puts bs (pipes t p))\<lparr>pi_writeopen := False\<rparr>) ?w)\<lparr>procs := woken (Some (ChanPipeR p)) (procs ?u)\<rparr>"
  have "fileclose i1 ?u = pipeclose p True ?w"
    using fileclose_pipe [of ?u i1] i1 h by (simp add: pipe_end_def)
  also have "\<dots> = Ok () ?v" using pipeclose_write [of ?w p] h P(3) by simp
  finally have "fileclose i1 ?u = Ok () ?v" .
  from that [OF w this] show ?thesis using h pl by (simp add: pipe_ok_def pipe_list_def set_pipe_def kmem_frees_def kmem_ok_def)
qed

lemma pipe_read_then_close:
  fixes v :: "'z filest_scheme"
  assumes h: "held v = {}" and i0: "i0 < length (ftable v)" "ftable v ! i0 = pipe_end False p E"
    and P: "pipe_ok (pipes v p)" "pipe_list (pipes v p) = bs" "\<not> pi_writeopen (pipes v p)"
    and K: "kmem_frees v (F - {p})" "valid_page (kend v) p"
  obtains w x where "fileread dsw i0 m v = Ok (of_nat (min (cnt m) (length bs)), take (cnt m) bs) w"
    and "fileclose i0 w = Ok () x" and "kmem_frees x (insert p F)"
    and "ftable x = (ftable v)[i0 := (ftable v ! i0)\<lparr>f_ref := 0, f_type := FD_NONE\<rparr>]"
proof -
  let ?m = "min (cnt m) (length bs)"
  let ?P = "snd (pq.gets_n ?m (pipes v p))"
  let ?w = "(set_pipe p ?P v)\<lparr>procs := woken (Some (ChanPipeW p)) (procs v)\<rparr>"
  have tk: "take ?m bs = take (cnt m) bs" by (simp add: min_def)
  have r: "fileread dsw i0 m v = Ok (of_nat ?m, take (cnt m) bs) ?w"
    using piperead_avail [OF P(1) h, of ?m m] P(2,3) i0 tk by (simp add: fileread_def run pipe_end_def)
  have cl: "pi_writeopen (snd (pq.gets_n k Q)) = pi_writeopen Q" for k Q
    by (induction k arbitrary: Q) (simp_all add: split_beta Let_def pipe_advance_def)
  let ?G = "(ftable v ! i0)\<lparr>f_ref := 0, f_type := FD_NONE\<rparr>"
  let ?a = "?w\<lparr>ftable := (ftable v)[i0 := ?G]\<rparr>"
  let ?b = "(set_pipe p (?P\<lparr>pi_readopen := False\<rparr>) ?a)\<lparr>procs := woken (Some (ChanPipeW p)) (procs ?w)\<rparr>"
  have "fileclose i0 ?w = pipeclose p False ?a"
    using fileclose_pipe [of ?w i0] i0 h by (simp add: pipe_end_def)
  also have "\<dots> = kfree p ?b" using pipeclose_last [of ?a p] h P(3) cl by simp
  finally have c: "fileclose i0 ?w = kfree p ?b" .
  have "kmem_frees ?b (F - {p})" "valid_page (kend ?b) p" using K by simp_all
  from kfree_fs [OF this] obtain x where "kfree p ?b = Ok () x" "kmem_frees x (insert p F)" "ftable x = ftable ?b"
    by auto
  with that [OF r] c show ?thesis by simp
qed

text \<open>
  C12. The life of a pipe, from \<^verbatim>\<open>pipealloc\<close> through \<^verbatim>\<open>filewrite\<close>, \<^verbatim>\<open>fileread\<close> and \<^verbatim>\<open>fileclose\<close>. Up to 512
  bytes written to the writing end are read from the reading end in order, also after the writing end is
  closed, and a read may ask for any number. Reading the writing end and writing the reading end fail with
  -1. When both ends are closed, the two table entries and the page are free again.
\<close>

theorem pipe_lifetime:
  fixes s :: "'z filest_scheme"
  assumes "held s = {}" and "ftable_ok (ftable s)" and "kmem_frees s F" and "2 \<le> card (file_free (ftable s))" and "F \<noteq> {}"
    and "\<And>p. length (pi_data (pipes s p)) = PIPESIZE" and "length bs \<le> PIPESIZE"
  shows "\<exists>i0 i1 t u v w x. pipealloc s = Ok (Some (i0, i1)) t
    \<and> fileread dsw i1 m t = Ok (- 1, []) t \<and> filewrite dsw i0 bs n t = Ok (- 1) t
    \<and> filewrite dsw i1 bs n t = Ok n u \<and> fileclose i1 u = Ok () v
    \<and> fileread dsw i0 m v = Ok (of_nat (min (cnt m) (length bs)), take (cnt m) bs) w \<and> fileclose i0 w = Ok () x
    \<and> file_free (ftable x) = file_free (ftable s) \<and> kmem_frees x F"
proof -
  have l: "FtableLock \<notin> held s" using assms(1) by simp
  from pipealloc_succeeds [OF l assms(2-5)] obtain i0 i1 p k where
    r: "i0 \<noteq> i1" "i0 \<in> file_free (ftable s)" "i1 \<in> file_free (ftable s)" "p \<in> F" "kalloc s = Ok p k" "kmem_frees k (F - {p})"
    "pipealloc s = Ok (Some (i0, i1)) ((set_pipe p (new_pipe (pipes s p)) k)
       \<lparr>ftable := (ftable s)[i0 := pipe_end False p (ftable s ! i0), i1 := pipe_end True p (ftable s ! i1)]\<rparr>)" .
  let ?fs = "(ftable s)[i0 := pipe_end False p (ftable s ! i0), i1 := pipe_end True p (ftable s ! i1)]"
  let ?t = "(set_pipe p (new_pipe (pipes s p)) k)\<lparr>ftable := ?fs\<rparr>"
  have hk: "held k = {}" "valid_page (kend k) p"
    using pa.alloc_some [OF assms(3,5)] r(5) assms(1) by (auto simp: wpk_def kalloc_def run split: if_splits)
  note len = file_freeD(1) [OF assms(2) r(2)] file_freeD(1) [OF assms(2) r(3)]
  have pt: "pipe_ok (pipes ?t p)" "pipe_list (pipes ?t p) = []" "pi_readopen (pipes ?t p)"
    using new_pipe_ok assms(6) by simp_all
  have t0: "ftable ?t ! i0 = pipe_end False p (ftable s ! i0)" "ftable ?t ! i1 = pipe_end True p (ftable s ! i1)"
    using r(1) len by simp_all
  have bad: "fileread dsw i1 m ?t = Ok (- 1, []) ?t" "filewrite dsw i0 bs n ?t = Ok (- 1) ?t"
    using t0 by (simp_all add: fileread_def filewrite_def run pipe_end_def)
  have ht: "held ?t = {}" and i1: "i1 < length (ftable ?t)" using hk(1) len by simp_all
  from pipe_write_then_close [where dsw = dsw and n = n, OF ht i1 t0(2) pt assms(7)] obtain u v where
    uv: "filewrite dsw i1 bs n ?t = Ok n u" "fileclose i1 u = Ok () v" "held v = {}"
    "ftable v = (ftable ?t)[i1 := (ftable ?t ! i1)\<lparr>f_ref := 0, f_type := FD_NONE\<rparr>]"
    "pipe_ok (pipes v p)" "pipe_list (pipes v p) = bs" "\<not> pi_writeopen (pipes v p)"
    "\<forall>F. kmem_frees v F = kmem_frees ?t F" "kend v = kend ?t" .
  have v: "i0 < length (ftable v)" "ftable v ! i0 = pipe_end False p (ftable s ! i0)"
    "kmem_frees v (F - {p})" "valid_page (kend v) p"
    using uv(4,8,9) t0 r(1,6) len hk by simp_all
  from pipe_read_then_close [where dsw = dsw and m = m, OF uv(3) v(1,2) uv(5,6,7) v(3,4)] obtain w x where
    wx: "fileread dsw i0 m v = Ok (of_nat (min (cnt m) (length bs)), take (cnt m) bs) w"
    "fileclose i0 w = Ok () x" "kmem_frees x (insert p F)"
    "ftable x = (ftable v)[i0 := (ftable v ! i0)\<lparr>f_ref := 0, f_type := FD_NONE\<rparr>]" .
  have "insert p F = F" using r(4) by auto
  moreover have "file_free (ftable x) = file_free (ftable s)"
    using wx(4) uv(4) len r(1-3) by (auto simp: file_free_update pipe_end_def)
  ultimately show ?thesis using r(7) bad uv(1,2) wx(1-3) by metis
qed

theorem pipe_lifetime_witness:
  "\<exists>i0 i1 t u v w x. pipealloc (demo_files (replicate 2 zero_file)) = Ok (Some (i0, i1)) t
    \<and> filewrite dev_none i1 [5, 6] 2 t = Ok 2 u \<and> fileclose i1 u = Ok () v
    \<and> fileread dev_none i0 9 v = Ok (2, [5, 6]) w \<and> fileclose i0 w = Ok () x \<and> file_free (ftable x) = {0, 1}"
proof -
  have "cnt 9 = 9" by (simp add: cnt_def word_sless_alt)
  then show ?thesis
    using pipe_lifetime [of "demo_files (replicate 2 zero_file)" "{0x80400000}" "[5, 6]" dev_none 9 2]
      demo_files_ok(1,2) [of 2] demo_files_ok(3) demo_files_frees
    by (fastforce simp: PIPESIZE_def lessThan_Suc eval_nat_numeral)
qed

end
