(* ===== verification/Spinlock.thy ===== *)
theory Spinlock
  imports Locks Cstring
begin

text \<open>
  The code of \<^verbatim>\<open>spinlock.c\<close> (and \<^verbatim>\<open>mycpu\<close>, \<^verbatim>\<open>cpuid\<close> of \<^verbatim>\<open>proc.c\<close>, on which it rests): nested
  disabling of interrupts, the atomic exchange, the recorded owner. Two results: on the
  executing processor the code implements the abstract locks of \<open>Locks\<close>; and when any
  number of processors interleave the atomic steps of \<^verbatim>\<open>acquire\<close> and \<^verbatim>\<open>release\<close>, at most
  one is inside.
\<close>

section \<open>Processors and locks\<close>

text \<open>The fields of \<^verbatim>\<open>struct cpu\<close> that locking uses.\<close>

record cpu =
  apicid :: uchar
  ncli :: sint32
  intena :: bool

record spinlock =
  locked :: uint32
  lkcpu :: "nat option"
  pcs :: "uint32 list"

text \<open>
  What the executing processor sees: its local APIC id, its interrupt flag
  (\<^verbatim>\<open>FL_IF\<close> of \<^verbatim>\<open>eflags\<close>), the array \<^verbatim>\<open>cpus\<close> (whose length is \<^verbatim>\<open>ncpu\<close>), the locks, memory.
\<close>

record machine =
  lapicid :: uchar
  fl_if :: bool
  cpus :: "cpu list"
  slock :: "lockid \<Rightarrow> spinlock"
  kmem :: mem

definition initlock :: "lockid \<Rightarrow> (machine, unit) kop" where
  "initlock l = kmod (\<lambda>s. s\<lparr>slock := (slock s)(l := (slock s l)\<lparr>locked := 0, lkcpu := None\<rparr>)\<rparr>)"

definition mycpu :: "(machine, nat) kop" where
  "mycpu =
     kbind (kget fl_if) (\<lambda>f.
     kseq (kcheck f ''mycpu called with interrupts enabled'')
    (kbind (kget (\<lambda>s. first_index (\<lambda>c. apicid c = lapicid s) (cpus s))) (\<lambda>r.
     case r of Some i \<Rightarrow> kret i | None \<Rightarrow> kpanic ''unknown apicid'')))"

definition cpuid :: "(machine, nat) kop" where
  "cpuid = kbind mycpu kret"

definition upd_cpu :: "nat \<Rightarrow> (cpu \<Rightarrow> cpu) \<Rightarrow> (machine, unit) kop" where
  "upd_cpu i f = kmod (\<lambda>s. s\<lparr>cpus := (cpus s)[i := f (cpus s ! i)]\<rparr>)"

definition pushcli :: "(machine, unit) kop" where
  "pushcli =
     kbind (kget fl_if) (\<lambda>eflags.
     kseq (kmod (\<lambda>s. s\<lparr>fl_if := False\<rparr>))
    (kbind mycpu (\<lambda>c.
     kbind (kget (\<lambda>s. ncli (cpus s ! c))) (\<lambda>n.
     kseq (kwhen (n = 0) (upd_cpu c (\<lambda>cp. cp\<lparr>intena := eflags\<rparr>)))
          (upd_cpu c (\<lambda>cp. cp\<lparr>ncli := ncli cp + 1\<rparr>))))))"

definition popcli :: "(machine, unit) kop" where
  "popcli =
     kbind (kget fl_if) (\<lambda>f.
     kseq (kcheck f ''popcli - interruptible'')
    (kbind mycpu (\<lambda>c.
     kseq (upd_cpu c (\<lambda>cp. cp\<lparr>ncli := ncli cp - 1\<rparr>))
    (kbind (kget (\<lambda>s. cpus s ! c)) (\<lambda>cp.
     kseq (kcheck (ncli cp <s 0) ''popcli'')
          (kwhen (ncli cp = 0 \<and> intena cp) (kmod (\<lambda>s. s\<lparr>fl_if := True\<rparr>))))))))"

definition holding :: "lockid \<Rightarrow> (machine, bool) kop" where
  "holding l =
     kseq pushcli
    (kbind mycpu (\<lambda>c.
     kbind (kget (\<lambda>s. locked (slock s l) \<noteq> 0 \<and> lkcpu (slock s l) = Some c)) (\<lambda>r.
     kseq popcli (kret r))))"

text \<open>\<^verbatim>\<open>getcallerpcs\<close>: the saved program counters along the chain of saved \<^verbatim>\<open>%ebp\<close>.\<close>

fun getcallerpcs_from :: "mem \<Rightarrow> uint32 \<Rightarrow> nat \<Rightarrow> uint32 list" where
  "getcallerpcs_from m ebp 0 = []"
| "getcallerpcs_from m ebp (Suc n) =
     (if ebp = 0 \<or> ebp < 0x80000000 \<or> ebp = 0xffffffff then replicate (Suc n) 0
      else load32 m (ebp + 4) # getcallerpcs_from m (load32 m ebp) n)"

definition getcallerpcs :: "mem \<Rightarrow> uint32 \<Rightarrow> uint32 list" where
  "getcallerpcs m v = getcallerpcs_from m (v - 8) 10"

text \<open>
  \<^verbatim>\<open>while(xchg(&lk->locked, 1) != 0);\<close> \<^emph>\<open>as one processor sees it while nobody else moves:\<close>
  the first exchange takes a free lock, and while another processor holds it the loop goes
  on (no return: \<^term>\<open>Swtch\<close>).
\<close>

definition spin :: "lockid \<Rightarrow> (machine, unit) kop" where
  "spin l = (\<lambda>s. if locked (slock s l) = 0
                 then Ok () (s\<lparr>slock := (slock s)(l := (slock s l)\<lparr>locked := 1\<rparr>)\<rparr>)
                 else Swtch (s\<lparr>slock := (slock s)(l := (slock s l)\<lparr>locked := 1\<rparr>)\<rparr>))"

text \<open>\<open>v\<close> is the address of the parameter, \<^verbatim>\<open>&lk\<close>, from which the call stack is recorded.\<close>

definition spin_acquire :: "uint32 \<Rightarrow> lockid \<Rightarrow> (machine, unit) kop" where
  "spin_acquire v l =
     kseq pushcli
    (kbind (holding l) (\<lambda>h.
     kseq (kcheck h ''acquire'')
    (kseq (spin l)
    (kbind mycpu (\<lambda>c.
     kmod (\<lambda>s. s\<lparr>slock := (slock s)(l := (slock s l)
       \<lparr>lkcpu := Some c, pcs := getcallerpcs (kmem s) v\<rparr>)\<rparr>))))))"

definition spin_release :: "lockid \<Rightarrow> (machine, unit) kop" where
  "spin_release l =
     kbind (holding l) (\<lambda>h.
     kseq (kcheck (\<not> h) ''release'')
    (kseq (kmod (\<lambda>s. s\<lparr>slock := (slock s)(l := (slock s l)
             \<lparr>pcs := (pcs (slock s l))[0 := 0], lkcpu := None\<rparr>)\<rparr>))
    (kseq (kmod (\<lambda>s. s\<lparr>slock := (slock s)(l := (slock s l)\<lparr>locked := 0\<rparr>)\<rparr>))
          popcli)))"

section \<open>On one processor\<close>

definition me :: "machine \<Rightarrow> nat option" where
  "me s = first_index (\<lambda>c. apicid c = lapicid s) (cpus s)"

definition owns :: "lockid \<Rightarrow> machine \<Rightarrow> bool" where
  "owns l s \<longleftrightarrow> locked (slock s l) \<noteq> 0 \<and> lkcpu (slock s l) = me s"

text \<open>The nesting depth, and a lock that is free while there is room for one more level: \<^verbatim>\<open>ncli\<close> is a signed number.\<close>

definition depth :: "machine \<Rightarrow> int" where
  "depth s = (case me s of None \<Rightarrow> 0 | Some c \<Rightarrow> sint (ncli (cpus s ! c)))"

definition avail :: "lockid \<Rightarrow> machine \<Rightarrow> bool" where
  "avail l s \<longleftrightarrow> locked (slock s l) = 0 \<and> depth s < 2 ^ 31 - 3"

text \<open>The depth is exactly the number of the locks held and of the \<open>d\<close> other calls of \<^verbatim>\<open>pushcli\<close>. Interrupts are off while it is
  positive, and the processor remembers in \<^verbatim>\<open>intena\<close> whether they were on at depth zero, which is \<open>i\<close>.\<close>

definition cpu_inv :: "nat \<Rightarrow> bool \<Rightarrow> machine \<Rightarrow> bool" where
  "cpu_inv d i s \<longleftrightarrow> (case me s of None \<Rightarrow> False | Some c \<Rightarrow>
     finite {l. owns l s} \<and> sint (ncli (cpus s ! c)) = int (d + card {l. owns l s}) \<and>
     int (d + card {l. owns l s}) \<le> 2 ^ 31 - 3 \<and>
     fl_if s = (ncli (cpus s ! c) = 0 \<and> i) \<and> (ncli (cpus s ! c) \<noteq> 0 \<longrightarrow> intena (cpus s ! c) = i))"

lemma cpu_invE:
  assumes "cpu_inv d i s"
  obtains c where "me s = Some c" and "c < length (cpus s)" and "finite {l. owns l s}"
    and "sint (ncli (cpus s ! c)) = int (d + card {l. owns l s})" and "int (d + card {l. owns l s}) \<le> 2 ^ 31 - 3"
    and "fl_if s = (ncli (cpus s ! c) = 0 \<and> i)" and "ncli (cpus s ! c) \<noteq> 0 \<Longrightarrow> intena (cpus s ! c) = i"
  using assms
  by (auto simp: cpu_inv_def me_def dest: first_index_SomeD split: option.splits)

lemma cpu_invI:
  assumes "me s = Some c" and "finite {l. owns l s}" and "sint (ncli (cpus s ! c)) = int (d + card {l. owns l s})"
    and "int (d + card {l. owns l s}) \<le> 2 ^ 31 - 3"
    and "fl_if s = (ncli (cpus s ! c) = 0 \<and> i)" and "ncli (cpus s ! c) \<noteq> 0 \<Longrightarrow> intena (cpus s ! c) = i"
  shows "cpu_inv d i s"
  using assms by (simp add: cpu_inv_def)

lemma cpu_inv_depth: "cpu_inv d i s \<Longrightarrow> depth s = int (d + card {l. owns l s})"
  by (elim cpu_invE) (simp add: depth_def)

lemma cpu_inv_off: "cpu_inv d i s \<Longrightarrow> owns l s \<Longrightarrow> \<not> fl_if s"
proof
  assume a: "cpu_inv d i s" "owns l s" "fl_if s"
  then have z: "int (d + card {l. owns l s}) = 0" and f: "finite {l. owns l s}" by (auto elim!: cpu_invE)
  from z have "card {l. owns l s} = 0" by linarith
  then show False using a(2) f by simp
qed

lemma cpu_inv_same:
  assumes "cpu_inv d i u" and "cpu_inv d i s" and "\<And>k. owns k u \<longleftrightarrow> owns k s"
  shows "depth u = depth s" and "fl_if u = fl_if s"
proof -
  have fl: "fl_if w = (d + card {l. owns l w} = 0 \<and> i)" if "cpu_inv d i w" for w
    using that by (rule cpu_invE) (metis of_nat_eq_0_iff signed_0 signed_eq_0_iff)
  show "depth u = depth s" "fl_if u = fl_if s"
    using cpu_inv_depth [OF assms(1)] cpu_inv_depth [OF assms(2)] fl [OF assms(1)] fl [OF assms(2)] assms(3) by simp_all
qed

lemma sint_succ: "sint (n :: sint32) < 2 ^ 31 - 1 \<Longrightarrow> sint (n + 1) = sint n + 1"
  using sint_greater_eq [of n] by (simp add: sint_word_ariths signed_take_bit_int_eq_self)

lemma sint_pred: "0 < sint (n :: sint32) \<Longrightarrow> sint (n - 1) = sint n - 1"
  using sint_less [of n] by (simp add: sint_word_ariths signed_take_bit_int_eq_self)

lemma mycpu_run [run]:
  "mycpu s = (if fl_if s then Panic ''mycpu called with interrupts enabled''
              else case me s of Some i \<Rightarrow> Ok i s | None \<Rightarrow> Panic ''unknown apicid'')"
  by (simp add: mycpu_def run me_def split: option.split)

lemma me_upd [simp]:
  "me (s\<lparr>fl_if := b\<rparr>) = me s" "me (s\<lparr>slock := f\<rparr>) = me s"
  by (simp_all add: me_def)

lemma first_index_list_update:
  assumes "P (f (xs ! i)) = P (xs ! i)"
  shows "first_index P (xs[i := f (xs ! i)]) = first_index P xs"
  using assms by (induction xs arbitrary: i) (auto simp: nth_Cons' split: nat.split)

lemma me_upd_cpus [simp]:
  assumes "apicid (f (cpus s ! i)) = apicid (cpus s ! i)"
  shows "me (s\<lparr>cpus := (cpus s)[i := f (cpus s ! i)]\<rparr>) = me s"
  using assms by (simp add: me_def first_index_list_update)

text \<open>The state after \<^verbatim>\<open>pushcli\<close>.\<close>

definition pushed :: "nat \<Rightarrow> machine \<Rightarrow> machine" where
  "pushed c s = s\<lparr>fl_if := False, cpus := (cpus s)[c := (cpus s ! c)
     \<lparr>intena := (if ncli (cpus s ! c) = 0 then fl_if s else intena (cpus s ! c)),
      ncli := ncli (cpus s ! c) + 1\<rparr>]\<rparr>"

lemma pushcli_run:
  assumes "me s = Some c"
  shows "pushcli s = Ok () (pushed c s)"
proof -
  have c: "c < length (cpus s)"
    using assms by (auto simp: me_def dest: first_index_SomeD)
  show ?thesis
    using assms c by (simp add: pushcli_def run upd_cpu_def pushed_def)
qed

lemma me_pushed [simp]: "me (pushed c s) = me s"
  unfolding me_def pushed_def
  using first_index_list_update [where P = "\<lambda>x. apicid x = lapicid s" and xs = "cpus s" and i = c
      and f = "\<lambda>x. x\<lparr>intena := (if ncli (cpus s ! c) = 0 then fl_if s else intena (cpus s ! c)),
        ncli := ncli (cpus s ! c) + 1\<rparr>"]
  by simp

lemma owns_pushed [simp]: "owns l (pushed c s) = owns l s"
  by (simp add: owns_def) (simp add: pushed_def)

text \<open>The state after \<^verbatim>\<open>popcli\<close>.\<close>

definition popped :: "nat \<Rightarrow> machine \<Rightarrow> machine" where
  "popped c s = s\<lparr>fl_if := (fl_if s \<or> ncli (cpus s ! c) = 1 \<and> intena (cpus s ! c)),
     cpus := (cpus s)[c := (cpus s ! c)\<lparr>ncli := ncli (cpus s ! c) - 1\<rparr>]\<rparr>"

lemma popcli_run:
  assumes "me s = Some c" and "\<not> fl_if s" and "0 < sint (ncli (cpus s ! c))"
  shows "popcli s = Ok () (popped c s)"
proof -
  have c: "c < length (cpus s)"
    using assms(1) by (auto simp: me_def dest: first_index_SomeD)
  have n: "\<not> ncli (cpus s ! c) - 1 <s 0" using sint_pred [OF assms(3)] assms(3) by (simp add: word_sless_alt)
  show ?thesis
    using assms(1,2) c n by (auto simp: popcli_def run upd_cpu_def popped_def)
qed

lemma me_popped [simp]: "me (popped c s) = me s"
  unfolding me_def popped_def
  using first_index_list_update [where P = "\<lambda>x. apicid x = lapicid s" and xs = "cpus s" and i = c
      and f = "\<lambda>x. x\<lparr>ncli := ncli (cpus s ! c) - 1\<rparr>"]
  by simp

lemma slock_pushed_popped [simp]: "slock (pushed c s) = slock s" "slock (popped c s) = slock s"
  by (simp_all add: pushed_def popped_def)

lemma owns_popped [simp]: "owns l (popped c s) = owns l s"
  by (simp add: owns_def)

lemma cpus_pushed_popped:
  assumes "c < length (cpus s)"
  shows "ncli (cpus (pushed c s) ! c) = ncli (cpus s ! c) + 1"
    and "intena (cpus (pushed c s) ! c) = (if ncli (cpus s ! c) = 0 then fl_if s else intena (cpus s ! c))"
    and "ncli (cpus (popped c s) ! c) = ncli (cpus s ! c) - 1" and "intena (cpus (popped c s) ! c) = intena (cpus s ! c)"
    and "fl_if (pushed c s) = False" and "fl_if (popped c s) = (fl_if s \<or> ncli (cpus s ! c) = 1 \<and> intena (cpus s ! c))"
    and "length (cpus (pushed c s)) = length (cpus s)" and "length (cpus (popped c s)) = length (cpus s)"
  using assms by (simp_all add: pushed_def popped_def)

lemma holding_run:
  assumes "me s = Some c" and "0 \<le> sint (ncli (cpus s ! c))" and "sint (ncli (cpus s ! c)) < 2 ^ 31 - 1"
  shows "holding l s = Ok (owns l s) (popped c (pushed c s))"
proof -
  have c: "c < length (cpus s)"
    using assms(1) by (auto simp: me_def dest: first_index_SomeD)
  have "\<not> fl_if (pushed c s)" and "0 < sint (ncli (cpus (pushed c s) ! c))"
    using assms(2) sint_succ [OF assms(3)] c by (simp_all add: cpus_pushed_popped)
  then show ?thesis
    using assms(1) by (simp add: holding_def run pushcli_run popcli_run owns_def)
qed

text \<open>\<^verbatim>\<open>pushcli\<close> adds a level, and with \<^verbatim>\<open>popcli\<close> leaves interrupts and nesting depth as they were.\<close>

lemma cpu_inv_pushed:
  assumes "cpu_inv d i s" and "me s = Some c" and "depth s < 2 ^ 31 - 3"
  shows "cpu_inv (Suc d) i (pushed c s)"
  using assms(1)
proof (rule cpu_invE)
  fix c'
  assume s: "me s = Some c'" "c' < length (cpus s)" "finite {l. owns l s}" "sint (ncli (cpus s ! c')) = int (d + card {l. owns l s})"
    "int (d + card {l. owns l s}) \<le> 2 ^ 31 - 3" "fl_if s = (ncli (cpus s ! c') = 0 \<and> i)"
    and i: "ncli (cpus s ! c') \<noteq> 0 \<Longrightarrow> intena (cpus s ! c') = i"
  have c: "c' = c" using s(1) assms(2) by simp
  have n: "sint (ncli (cpus s ! c) + 1) = int (Suc d + card {l. owns l s})" using s(4,5) c sint_succ by simp
  then have z: "ncli (cpus s ! c) + 1 \<noteq> 0" by (metis of_nat_eq_0_iff add_is_0 nat.distinct(1) signed_0)
  show ?thesis
    by (rule cpu_invI [where c = c])
      (use s i c n z assms(3) in \<open>auto simp: cpus_pushed_popped cpu_inv_depth [OF assms(1)]\<close>)
qed

lemma popped_pushed:
  assumes "cpu_inv d i s" and "me s = Some c"
  shows "cpu_inv d i (popped c (pushed c s))"
    and "fl_if (popped c (pushed c s)) = fl_if s" and "ncli (cpus (popped c (pushed c s)) ! c) = ncli (cpus s ! c)"
  using assms(1)
proof (atomize (full), rule cpu_invE)
  fix c'
  assume s: "me s = Some c'" "c' < length (cpus s)" "finite {l. owns l s}" "sint (ncli (cpus s ! c')) = int (d + card {l. owns l s})"
    "int (d + card {l. owns l s}) \<le> 2 ^ 31 - 3" "fl_if s = (ncli (cpus s ! c') = 0 \<and> i)"
    and i: "ncli (cpus s ! c') \<noteq> 0 \<Longrightarrow> intena (cpus s ! c') = i"
  have c: "c' = c" using s(1) assms(2) by simp
  have f: "fl_if (popped c (pushed c s)) = fl_if s" "ncli (cpus (popped c (pushed c s)) ! c) = ncli (cpus s ! c)"
    using s(2,6) c by (auto simp: cpus_pushed_popped)
  have "cpu_inv d i (popped c (pushed c s))"
    by (rule cpu_invI [where c = c]) (use s i c f in \<open>auto simp: cpus_pushed_popped\<close>)
  then show "cpu_inv d i (popped c (pushed c s)) \<and> fl_if (popped c (pushed c s)) = fl_if s \<and>
      ncli (cpus (popped c (pushed c s)) ! c) = ncli (cpus s ! c)" using f by simp
qed

lemma spin_acquire_free:
  assumes inv: "cpu_inv d i s" and "\<not> owns l s" and av: "avail l s"
  shows "wpk (spin_acquire v l) (\<lambda>_ t. cpu_inv d i t \<and> (\<forall>k. owns k t \<longleftrightarrow> k = l \<or> owns k s)) s"
proof -
  from inv obtain c where c: "me s = Some c" and fin: "finite {l. owns l s}" by (auto elim!: cpu_invE)
  let ?p = "pushed c s"
  have pinv: "cpu_inv (Suc d) i ?p" and pme: "me ?p = Some c"
    using cpu_inv_pushed [OF inv c] av c by (simp_all add: avail_def)
  let ?q = "popped c (pushed c ?p)"
  have qinv: "cpu_inv (Suc d) i ?q" and qme: "me ?q = Some c" using popped_pushed(1) [OF pinv pme] c by simp_all
  have h: "holding l ?p = Ok False ?q"
    using holding_run [OF pme] pinv pme assms(2) by (auto elim!: cpu_invE)
  have qoff: "\<not> fl_if ?q" using popped_pushed(2) [OF pinv pme] by (simp add: pushed_def)
  have free: "locked (slock ?q l) = 0" using av by (simp add: avail_def)
  let ?t = "?q\<lparr>slock := (slock s)(l := (slock s l)
    \<lparr>locked := 1, lkcpu := Some c, pcs := getcallerpcs (kmem ?q) v\<rparr>)\<rparr>"
  have run: "spin_acquire v l s = Ok () ?t"
    using c free qoff by (simp add: spin_acquire_def run pushcli_run h spin_def)
  have own: "owns k ?t \<longleftrightarrow> k = l \<or> owns k s" for k
    using c by (simp add: owns_def)
  have "{k. owns k ?t} = insert l {k. owns k ?q}" "l \<notin> {k. owns k ?q}" using assms(2) by (auto simp: own)
  then have "card {k. owns k ?t} = Suc (card {k. owns k ?q})" "finite {k. owns k ?t}" using fin by simp_all
  then have "cpu_inv d i ?t" using qinv qme by (simp add: cpu_inv_def)
  with run own show ?thesis by (simp add: wpk_def)
qed

lemma spin_acquire_own:
  assumes inv: "cpu_inv d i s" and "owns l s"
  shows "spin_acquire v l s = Panic ''acquire''"
proof -
  from inv obtain c where c: "me s = Some c" "c < length (cpus s)"
    and n: "0 \<le> sint (ncli (cpus s ! c))" "sint (ncli (cpus s ! c)) \<le> 2 ^ 31 - 3"
    by (auto elim!: cpu_invE)
  have "sint (ncli (cpus (pushed c s) ! c)) = sint (ncli (cpus s ! c)) + 1" using n c sint_succ by (simp add: cpus_pushed_popped)
  then have "holding l (pushed c s) = Ok True (popped c (pushed c (pushed c s)))"
    using holding_run [of "pushed c s" c l] n c assms(2) by simp
  then show ?thesis
    using c(1) by (simp add: spin_acquire_def run pushcli_run)
qed

lemma spin_release_own:
  assumes inv: "cpu_inv d i s" and "owns l s"
  shows "wpk (spin_release l) (\<lambda>_ t. cpu_inv d i t \<and> (\<forall>k. owns k t \<longleftrightarrow> k \<noteq> l \<and> owns k s)) s"
proof -
  from inv obtain c where c: "me s = Some c" "c < length (cpus s)" and fin: "finite {l. owns l s}"
    and n0: "sint (ncli (cpus s ! c)) = int (d + card {l. owns l s})" "int (d + card {l. owns l s}) \<le> 2 ^ 31 - 3"
    by (auto elim!: cpu_invE)
  have pos: "0 < card {l. owns l s}" using fin assms(2) by (auto simp: card_gt_0_iff)
  let ?q = "popped c (pushed c s)"
  have qinv: "cpu_inv d i ?q" and qme: "me ?q = Some c" and qoff: "\<not> fl_if ?q"
    and n: "0 < sint (ncli (cpus ?q ! c))" and cq: "c < length (cpus ?q)"
    using popped_pushed [OF inv c(1)] cpu_inv_off [OF assms] c n0 pos by (simp_all add: cpus_pushed_popped)
  let ?r = "?q\<lparr>slock := (slock s)(l := (slock s l)
    \<lparr>pcs := (pcs (slock s l))[0 := 0], lkcpu := None, locked := 0\<rparr>)\<rparr>"
  have "popcli ?r = Ok () (popped c ?r)"
    using qme n qoff by (intro popcli_run) simp_all
  then have run: "spin_release l s = Ok () (popped c ?r)"
    using holding_run [OF c(1)] n0 assms(2) by (simp add: spin_release_def run)
  have own: "owns k (popped c ?r) \<longleftrightarrow> k \<noteq> l \<and> owns k s" for k
    using c(1) by (simp add: owns_def)
  have "{k. owns k (popped c ?r)} = {k. owns k s} - {l}"
    by (simp only: own) blast
  then have card: "card {k. owns k (popped c ?r)} = card {k. owns k s} - 1" "finite {k. owns k (popped c ?r)}"
    using assms(2) fin by simp_all
  have i: "intena (cpus ?q ! c) = i" using qinv qme n by (auto simp: cpu_inv_def)
  have p: "ncli (cpus (popped c ?r) ! c) = ncli (cpus ?q ! c) - 1" "intena (cpus (popped c ?r) ! c) = i"
    "fl_if (popped c ?r) = (ncli (cpus ?q ! c) = 1 \<and> i)"
    using cq qoff i cpus_pushed_popped(3,4,6) [of c ?r] by simp_all
  have "cpu_inv d i (popped c ?r)"
  proof (rule cpu_invI [where c = c])
    show "sint (ncli (cpus (popped c ?r) ! c)) = int (d + card {k. owns k (popped c ?r)})"
      using p(1) sint_pred [OF n] popped_pushed(3) [OF inv c(1)] n0(1) card(1) pos by simp
    show "int (d + card {k. owns k (popped c ?r)}) \<le> 2 ^ 31 - 3" using n0(2) card(1) by linarith
  qed (use c p card(2) in auto)
  with run own show ?thesis by (simp add: wpk_def)
qed

lemma spin_release_other:
  assumes "cpu_inv d i s" and "\<not> owns l s"
  shows "spin_release l s = Panic ''release''"
proof -
  from assms(1) obtain c where "me s = Some c" "0 \<le> sint (ncli (cpus s ! c))" "sint (ncli (cpus s ! c)) < 2 ^ 31 - 1"
    by (auto elim!: cpu_invE)
  with assms show ?thesis by (simp add: spin_release_def run holding_run)
qed

text \<open>\<^verbatim>\<open>spinlock.c\<close> implements the lock contract.\<close>

interpretation sl: lock_contract "spin_acquire v" spin_release owns avail "cpu_inv d i"
  by unfold_locales
    (auto intro: spin_acquire_free spin_release_own simp: spin_acquire_own spin_release_other)

section \<open>Many processors\<close>

text \<open>
  One lock and any number of processors, each at one of the points of \<^verbatim>\<open>acquire\<close> and
  \<^verbatim>\<open>release\<close>: outside; spinning on the exchange; past it but not yet recorded as owner;
  inside; past \<^verbatim>\<open>lk->cpu = 0\<close> but not yet past the store that frees the lock.
\<close>

datatype phase = Outside | Spinning | Taken | Inside | Leaving

record smp =
  lk_locked :: uint32
  lk_cpu :: "nat option"
  phase :: "nat \<Rightarrow> phase"

definition smp_init :: smp where
  "smp_init = \<lparr>lk_locked = 0, lk_cpu = None, phase = (\<lambda>_. Outside)\<rparr>"

inductive spin_step :: "smp \<Rightarrow> smp \<Rightarrow> bool" where
  enter: "phase s i = Outside \<Longrightarrow> spin_step s (s\<lparr>phase := (phase s)(i := Spinning)\<rparr>)"
| xchg_free: "phase s i = Spinning \<Longrightarrow> lk_locked s = 0 \<Longrightarrow>
    spin_step s (s\<lparr>lk_locked := 1, phase := (phase s)(i := Taken)\<rparr>)"
| xchg_busy: "phase s i = Spinning \<Longrightarrow> lk_locked s \<noteq> 0 \<Longrightarrow> spin_step s (s\<lparr>lk_locked := 1\<rparr>)"
| record_cpu: "phase s i = Taken \<Longrightarrow>
    spin_step s (s\<lparr>lk_cpu := Some i, phase := (phase s)(i := Inside)\<rparr>)"
| clear_cpu: "phase s i = Inside \<Longrightarrow> lk_locked s \<noteq> 0 \<Longrightarrow> lk_cpu s = Some i \<Longrightarrow>
    spin_step s (s\<lparr>lk_cpu := None, phase := (phase s)(i := Leaving)\<rparr>)"
| unlock: "phase s i = Leaving \<Longrightarrow>
    spin_step s (s\<lparr>lk_locked := 0, phase := (phase s)(i := Outside)\<rparr>)"

inductive spin_reach :: "smp \<Rightarrow> bool" where
  init: "spin_reach smp_init"
| step: "spin_reach s \<Longrightarrow> spin_step s t \<Longrightarrow> spin_reach t"

definition has_lock :: "smp \<Rightarrow> nat \<Rightarrow> bool" where
  "has_lock s i \<longleftrightarrow> phase s i \<in> {Taken, Inside, Leaving}"

text \<open>\<open>ow\<close> is the processor that has the lock, if any.\<close>

definition smp_ok :: "smp \<Rightarrow> nat option \<Rightarrow> bool" where
  "smp_ok s ow \<longleftrightarrow> (\<forall>i. has_lock s i \<longleftrightarrow> ow = Some i) \<and> (lk_locked s = 0 \<longleftrightarrow> ow = None) \<and>
     (\<forall>i. phase s i = Inside \<longrightarrow> lk_cpu s = Some i)"

lemma has_lock_upd [simp]:
  "has_lock (s\<lparr>lk_locked := v\<rparr>) j = has_lock s j" "has_lock (s\<lparr>lk_cpu := c\<rparr>) j = has_lock s j"
  "has_lock (s\<lparr>phase := (phase t)(i := p)\<rparr>) j =
     (if j = i then p \<in> {Taken, Inside, Leaving} else has_lock t j)"
  by (simp_all add: has_lock_def)

lemma has_lock_phase:
  "phase s i = Outside \<Longrightarrow> \<not> has_lock s i" "phase s i = Spinning \<Longrightarrow> \<not> has_lock s i"
  "phase s i = Taken \<Longrightarrow> has_lock s i" "phase s i = Inside \<Longrightarrow> has_lock s i"
  "phase s i = Leaving \<Longrightarrow> has_lock s i"
  by (simp_all add: has_lock_def)

lemma smp_okI:
  assumes "\<And>i. has_lock s i \<longleftrightarrow> ow = Some i" and "lk_locked s = 0 \<longleftrightarrow> ow = None"
    and "\<And>i. phase s i = Inside \<Longrightarrow> lk_cpu s = Some i"
  shows "\<exists>ow. smp_ok s ow"
  using assms unfolding smp_ok_def by blast

lemma smp_okD:
  assumes "smp_ok s ow"
  shows "has_lock s i \<longleftrightarrow> ow = Some i" and "lk_locked s = 0 \<longleftrightarrow> ow = None"
    and "phase s i = Inside \<Longrightarrow> lk_cpu s = Some i"
  using assms by (simp_all add: smp_ok_def)

lemma smp_ok_step: "spin_step s t \<Longrightarrow> smp_ok s ow \<Longrightarrow> \<exists>ow. smp_ok t ow"
proof (induction rule: spin_step.induct)
  case (enter s i)
  note ok = smp_okD [OF enter(2)] and no = has_lock_phase(1) [OF enter(1)]
  show ?case by (rule smp_okI [where ow = ow]) (use ok no in \<open>auto split: if_splits\<close>)
next
  case (xchg_free s i)
  note ok = smp_okD [OF xchg_free(3)]
  have none: "\<not> has_lock s j" "phase s j \<noteq> Inside" for j
    using ok(1) [of j] ok(2) xchg_free(2) has_lock_phase(4) [of s j] by auto
  show ?case
    by (rule smp_okI [where ow = "Some i"]) (use none in \<open>auto split: if_splits\<close>)
next
  case (xchg_busy s i)
  note ok = smp_okD [OF xchg_busy(3)]
  show ?case
    by (rule smp_okI [where ow = ow]) (use ok xchg_busy(2) in \<open>simp_all\<close>)
next
  case (record_cpu s i)
  note ok = smp_okD [OF record_cpu(2)]
  have ow: "ow = Some i" using ok(1) has_lock_phase(3) [OF record_cpu(1)] by simp
  have "phase s j = Inside \<Longrightarrow> j = i" for j
    using ok(1) [of j] ow has_lock_phase(4) [of s j] by simp
  then show ?case
    by (intro smp_okI [where ow = ow]) (use ok(1,2) ow in \<open>auto split: if_splits\<close>)
next
  case (clear_cpu s i)
  note ok = smp_okD [OF clear_cpu(4)]
  have ow: "ow = Some i" using ok(1) has_lock_phase(4) [OF clear_cpu(1)] by simp
  have "phase s j = Inside \<Longrightarrow> j = i" for j
    using ok(1) [of j] ow has_lock_phase(4) [of s j] by simp
  then show ?case
    by (intro smp_okI [where ow = ow]) (use ok(1,2) ow in \<open>auto split: if_splits\<close>)
next
  case (unlock s i)
  note ok = smp_okD [OF unlock(2)]
  have ow: "ow = Some i" using ok(1) has_lock_phase(5) [OF unlock(1)] by simp
  have "phase s j = Inside \<Longrightarrow> j = i" for j
    using ok(1) [of j] ow has_lock_phase(4) [of s j] by simp
  then show ?case
    by (intro smp_okI [where ow = None]) (use ok(1) ow unlock(1) in \<open>auto split: if_splits\<close>)
qed

lemma smp_ok_reach: "spin_reach s \<Longrightarrow> \<exists>ow. smp_ok s ow"
proof (induction rule: spin_reach.induct)
  case init
  have "smp_ok smp_init None" by (simp add: smp_ok_def smp_init_def has_lock_def)
  then show ?case ..
next
  case (step s t)
  then show ?case by (blast intro: smp_ok_step)
qed

section \<open>Properties\<close>

text \<open>C3. Mutual exclusion: whatever the interleaving of the processors' steps through
  \<^verbatim>\<open>acquire\<close> and \<^verbatim>\<open>release\<close>, two processors that are both past the atomic exchange and not
  yet past the freeing store are the same one; and a processor inside the critical section
  is the one the lock records, so its \<^verbatim>\<open>release\<close> does not panic.\<close>

theorem spinlock_mutual_exclusion:
  assumes "spin_reach s" and "has_lock s i"
  shows "(has_lock s j \<longrightarrow> i = j) \<and> lk_locked s \<noteq> 0 \<and>
    (phase s i = Inside \<longrightarrow> lk_cpu s = Some i)"
  using smp_ok_reach [OF assms(1)] assms(2) by (auto simp: smp_ok_def)

lemma reach_one_inside:
  "spin_reach (smp_init\<lparr>phase := (\<lambda>_. Outside)(3 := Spinning), lk_locked := 1,
     phase := (\<lambda>_. Outside)(3 := Taken)\<rparr>)"
proof -
  have "spin_reach (smp_init\<lparr>phase := (phase smp_init)(3 := Spinning)\<rparr>)"
    by (rule spin_reach.step [OF spin_reach.init]) (rule spin_step.enter, simp add: smp_init_def)
  from spin_reach.step [OF this spin_step.xchg_free [where i = 3]] show ?thesis
    by (simp add: smp_init_def)
qed

theorem spinlock_mutual_exclusion_witness:
  "\<exists>s. spin_reach s \<and> has_lock s 3 \<and> \<not> has_lock s 4 \<and> lk_locked s = 1"
  using reach_one_inside spinlock_mutual_exclusion [OF reach_one_inside, of 3 4]
  by (auto simp: has_lock_def smp_init_def)

text \<open>C21. Nested critical sections: on a processor whose nesting depth is the number of locks held and of other calls of
  \<^verbatim>\<open>pushcli\<close>, taking a free lock, running a body that gives back the locks it takes, and releasing the lock returns
  without a panic, with the same locks held, the same depth and the same interrupt flag as before. The body runs with
  interrupts off. Taking a lock that the processor holds panics, and so does releasing one that it does not hold.\<close>

theorem spinlock_critical_section:
  assumes "cpu_inv d i s"
    and "\<And>t. cpu_inv d i t \<Longrightarrow> \<not> fl_if t \<Longrightarrow> (\<And>k. owns k t \<longleftrightarrow> k = l \<or> owns k s) \<Longrightarrow>
      wpk body (\<lambda>_ u. cpu_inv d i u \<and> (\<forall>k. owns k u \<longleftrightarrow> owns k t)) t"
  shows "(\<not> owns l s \<longrightarrow> avail l s \<longrightarrow>
      wpk (kseq (spin_acquire v l) (kseq body (spin_release l)))
        (\<lambda>_ u. cpu_inv d i u \<and> (\<forall>k. owns k u \<longleftrightarrow> owns k s) \<and> depth u = depth s \<and> fl_if u = fl_if s) s)
    \<and> (owns l s \<longrightarrow> spin_acquire v l s = Panic ''acquire'')
    \<and> (\<not> owns l s \<longrightarrow> spin_release l s = Panic ''release'')"
proof -
  have "wpk body (\<lambda>_ u. cpu_inv d i u \<and> (\<forall>k. owns k u \<longleftrightarrow> owns k t)) t"
    if "cpu_inv d i t" "\<And>k. owns k t \<longleftrightarrow> k = l \<or> owns k s" for t
    using assms(2) [OF that(1) cpu_inv_off [OF that(1), of l]] that(2) by blast
  then have "wpk (kseq (spin_acquire v l) (kseq body (spin_release l))) (\<lambda>_ u. cpu_inv d i u \<and> (\<forall>k. owns k u \<longleftrightarrow> owns k s)) s"
    if "\<not> owns l s" "avail l s"
    using sl.critical_section [OF assms(1) that] by blast
  moreover have "depth u = depth s \<and> fl_if u = fl_if s" if "cpu_inv d i u" "\<forall>k. owns k u \<longleftrightarrow> owns k s" for u
    using cpu_inv_same [OF that(1) assms(1)] that(2) by blast
  ultimately show ?thesis
    using spin_acquire_own [OF assms(1)] spin_release_other [OF assms(1)] by (auto elim!: wpk_mono)
qed

definition demo_machine :: machine where
  "demo_machine = \<lparr>lapicid = 0, fl_if = True, cpus = [\<lparr>apicid = 0, ncli = 0, intena = False\<rparr>],
     slock = (\<lambda>_. \<lparr>locked = 0, lkcpu = None, pcs = []\<rparr>), kmem = (\<lambda>_. 0)\<rparr>"

theorem spinlock_critical_section_witness:
  "wpk (kseq (spin_acquire 0 PtableLock) (kseq (kret ()) (spin_release PtableLock)))
    (\<lambda>_ u. cpu_inv 0 True u \<and> (\<forall>k. owns k u \<longleftrightarrow> owns k demo_machine) \<and> depth u = depth demo_machine \<and> fl_if u = fl_if demo_machine)
    demo_machine"
proof -
  have inv: "cpu_inv 0 True demo_machine"
    by (simp add: cpu_inv_def demo_machine_def me_def owns_def)
  have "\<not> owns PtableLock demo_machine" and "avail PtableLock demo_machine"
    by (simp_all add: demo_machine_def owns_def avail_def depth_def me_def)
  then show ?thesis using spinlock_critical_section [OF inv, of PtableLock "kret ()" 0] by (simp add: wp)
qed

end
