(* ===== verification/Numfmt.thy ===== *)
theory Numfmt
  imports Cstring
begin

text \<open>
  Formatted output: \<^verbatim>\<open>printint\<close> and the format loops of \<^verbatim>\<open>cprintf\<close> in the kernel (\<^verbatim>\<open>console.c\<close>) and
  of \<^verbatim>\<open>printf\<close> in user programs (\<^verbatim>\<open>printf.c\<close>). What they put out is a list of bytes; \<^term>\<open>None\<close> stands
  for an access outside an array or a missing or wrong argument.
\<close>

section \<open>Numbers\<close>

definition bytes :: "string \<Rightarrow> uchar list" where
  "bytes = map of_char"

text \<open>The loop \<^verbatim>\<open>do buf[i++] = digits[x % base]; while((x /= base) != 0)\<close> with \<open>k\<close> bytes left in \<^verbatim>\<open>buf\<close>.\<close>

primrec print_digits :: "nat \<Rightarrow> uchar list \<Rightarrow> uint32 \<Rightarrow> uint32 \<Rightarrow> uchar list option" where
  "print_digits 0 ds x base = None"
| "print_digits (Suc k) ds x base =
     (if base = 0 \<or> length ds \<le> unat (x mod base) then None
      else if x div base = 0 then Some [ds ! unat (x mod base)]
      else map_option ((#) (ds ! unat (x mod base))) (print_digits k ds (x div base) base))"

text \<open>The digits come out in reverse order, after a minus sign if there is one; \<^verbatim>\<open>buf\<close> has 16 bytes.\<close>

definition print_buf :: "uchar list \<Rightarrow> uint32 \<Rightarrow> uint32 \<Rightarrow> bool \<Rightarrow> uchar list option" where
  "print_buf ds x base neg =
     (case print_digits 16 ds x base of None \<Rightarrow> None
      | Some buf \<Rightarrow> if neg then (if length buf < 16 then Some (rev (buf @ [45])) else None) else Some (rev buf))"

definition digits_lower :: "uchar list" where
  "digits_lower = bytes ''0123456789abcdef''"

definition digits_upper :: "uchar list" where
  "digits_upper = bytes ''0123456789ABCDEF''"

text \<open>\<^verbatim>\<open>printint\<close> of the kernel, where the test assigns to \<^verbatim>\<open>sign\<close>, and of user programs.\<close>

definition printint :: "sint32 \<Rightarrow> uint32 \<Rightarrow> bool \<Rightarrow> uchar list option" where
  "printint xx base sign =
     (let sign = (sign \<and> xx <s 0);
          x = (if sign then - xx else xx)
      in print_buf digits_lower x base sign)"

definition uprintint :: "sint32 \<Rightarrow> uint32 \<Rightarrow> bool \<Rightarrow> uchar list option" where
  "uprintint xx base sgned =
     (if sgned \<and> xx <s 0 then print_buf digits_upper (- xx) base True
      else print_buf digits_upper xx base False)"

section \<open>Formats\<close>

text \<open>The arguments after the format: integers, and strings, which may be null.\<close>

datatype farg = FInt uint32 | FStr "uchar list option"

definition str_arg :: "uchar list option \<Rightarrow> uchar list" where
  "str_arg so = (case so of None \<Rightarrow> bytes ''(null)'' | Some bs \<Rightarrow> takeWhile (\<lambda>b. b \<noteq> 0) bs)"

text \<open>\<^verbatim>\<open>cprintf\<close>: the loop over the format.\<close>

fun cprintf_out :: "uchar list \<Rightarrow> farg list \<Rightarrow> uchar list option" where
  "cprintf_out [] as = Some []"
| "cprintf_out (c # fmt) as =
     (if c = 0 then Some []
      else if c \<noteq> 37 then map_option ((#) c) (cprintf_out fmt as)
      else case fmt of [] \<Rightarrow> Some []
      | d # fmt' \<Rightarrow>
        if d = 0 then Some []
        else if d = of_char CHR ''d'' then
          (case as of FInt n # as' \<Rightarrow>
             (case printint n 10 True of None \<Rightarrow> None | Some out \<Rightarrow> map_option ((@) out) (cprintf_out fmt' as'))
           | _ \<Rightarrow> None)
        else if d = of_char CHR ''x'' \<or> d = of_char CHR ''p'' then
          (case as of FInt n # as' \<Rightarrow>
             (case printint n 16 False of None \<Rightarrow> None | Some out \<Rightarrow> map_option ((@) out) (cprintf_out fmt' as'))
           | _ \<Rightarrow> None)
        else if d = of_char CHR ''s'' then
          (case as of FStr so # as' \<Rightarrow> map_option ((@) (str_arg so)) (cprintf_out fmt' as')
           | _ \<Rightarrow> None)
        else if d = 37 then map_option ((#) 37) (cprintf_out fmt' as)
        else map_option ((@) [37, d]) (cprintf_out fmt' as))"

text \<open>\<^verbatim>\<open>printf\<close>: a loop with a state, \<open>pct\<close> after a percent sign.\<close>

fun printf_out :: "bool \<Rightarrow> uchar list \<Rightarrow> farg list \<Rightarrow> uchar list option" where
  "printf_out pct [] as = Some []"
| "printf_out pct (c # fmt) as =
     (if c = 0 then Some []
      else if \<not> pct then
        (if c = 37 then printf_out True fmt as else map_option ((#) c) (printf_out False fmt as))
      else if c = of_char CHR ''d'' then
        (case as of FInt n # as' \<Rightarrow>
           (case uprintint n 10 True of None \<Rightarrow> None | Some out \<Rightarrow> map_option ((@) out) (printf_out False fmt as'))
         | _ \<Rightarrow> None)
      else if c = of_char CHR ''x'' \<or> c = of_char CHR ''p'' then
        (case as of FInt n # as' \<Rightarrow>
           (case uprintint n 16 False of None \<Rightarrow> None | Some out \<Rightarrow> map_option ((@) out) (printf_out False fmt as'))
         | _ \<Rightarrow> None)
      else if c = of_char CHR ''s'' then
        (case as of FStr so # as' \<Rightarrow> map_option ((@) (str_arg so)) (printf_out False fmt as')
         | _ \<Rightarrow> None)
      else if c = of_char CHR ''c'' then
        (case as of FInt n # as' \<Rightarrow> map_option ((#) (ucast n)) (printf_out False fmt as')
         | _ \<Rightarrow> None)
      else if c = 37 then map_option ((#) c) (printf_out False fmt as)
      else map_option ((@) [37, c]) (printf_out False fmt as))"

section \<open>What is printed can be read back\<close>

text \<open>The digits of a number, least significant first.\<close>

function digs :: "nat \<Rightarrow> nat \<Rightarrow> nat list" where
  "digs b n = (if 2 \<le> b \<and> b \<le> n then n mod b # digs b (n div b) else [n mod b])"
  by auto
termination
  by (relation "measure snd") (auto intro!: div_less_dividend)

declare digs.simps [simp del]

lemma digs_bound: "0 < b \<Longrightarrow> d \<in> set (digs b n) \<Longrightarrow> d < b"
proof (induction b n rule: digs.induct)
  case (1 b n)
  then show ?case using digs.simps [of b n] by (auto split: if_splits)
qed

lemma length_digs: "2 \<le> b \<Longrightarrow> n < b ^ Suc k \<Longrightarrow> length (digs b n) \<le> Suc k"
proof (induction k arbitrary: n)
  case 0
  then show ?case by (simp add: digs.simps)
next
  case (Suc k)
  have "n div b < b ^ Suc k" using Suc.prems by (simp add: div_less_iff_less_mult mult.commute)
  from Suc.IH [OF Suc.prems(1) this] show ?case by (simp add: digs.simps [of b n])
qed

lemma digs_value: "2 \<le> b \<Longrightarrow> foldr (\<lambda>d a. d + b * a) (digs b n) 0 = n"
proof (induction b n rule: digs.induct)
  case (1 b n)
  then show ?case by (subst digs.simps) auto
qed

lemma print_digits_digs:
  assumes "2 \<le> unat base" and "unat base \<le> length ds" and "unat x < unat base ^ Suc k"
  shows "print_digits (Suc k) ds x base = Some (map ((!) ds) (digs (unat base) (unat x)))"
  using assms(3)
proof (induction k arbitrary: x)
  case 0
  then have "x div base = 0" using assms(1) by (simp add: word_unat_eq_iff unat_div)
  moreover have "base \<noteq> 0" using assms(1) by auto
  ultimately show ?case using 0 assms(1,2) by (subst digs.simps) (simp add: unat_mod)
next
  case (Suc k)
  have b: "base \<noteq> 0" using assms(1) by auto
  have m: "unat (x mod base) = unat x mod unat base" by (simp add: unat_mod)
  then have lt: "\<not> length ds \<le> unat (x mod base)" using assms(1,2) by (simp add: not_le order_less_le_trans [OF mod_less_divisor])
  have "unat (x div base) < unat base ^ Suc k"
    using Suc.prems assms(1) by (simp add: unat_div div_less_iff_less_mult mult.commute)
  note IH = Suc.IH [OF this]
  have z: "x div base = 0 \<longleftrightarrow> \<not> unat base \<le> unat x"
    using assms(1) by (auto simp: word_unat_eq_iff unat_div div_eq_0_iff)
  show ?case
    unfolding print_digits.simps(2) [of "Suc k"] IH using b lt z m assms(1)
    by (subst digs.simps) (simp add: unat_div)
qed

text \<open>Reading a numeral, most significant digit first.\<close>

definition digit_val :: "uchar \<Rightarrow> nat" where
  "digit_val c = (if c < 58 then unat c - 48 else if c < 71 then unat c - 55 else unat c - 87)"

definition num_val :: "nat \<Rightarrow> uchar list \<Rightarrow> nat" where
  "num_val b cs = foldl (\<lambda>a c. a * b + digit_val c) 0 cs"

lemma num_val_digs:
  assumes "2 \<le> b" and "\<And>d. d < b \<Longrightarrow> digit_val (ds ! d) = d"
  shows "num_val b (rev (map ((!) ds) (digs b n))) = n"
proof -
  have "foldr (\<lambda>c a. a * b + digit_val c) (map ((!) ds) xs) 0 = foldr (\<lambda>d a. d + b * a) xs 0"
    if "\<forall>d\<in>set xs. d < b" for xs
    using that by (induction xs) (simp_all add: assms(2) mult.commute)
  moreover have "\<forall>d\<in>set (digs b n). d < b" using digs_bound assms(1) by auto
  ultimately show ?thesis using digs_value [OF assms(1), of n] by (simp add: num_val_def foldl_conv_foldr)
qed

lemma digit_tables:
  "length digits_lower = 16" "length digits_upper = 16"
  "d < 16 \<Longrightarrow> digit_val (digits_lower ! d) = d" "d < 16 \<Longrightarrow> digit_val (digits_upper ! d) = d"
proof -
  show len: "length digits_lower = 16" "length digits_upper = 16" by (simp_all add: digits_lower_def digits_upper_def bytes_def)
  have "map digit_val digits_lower = [0..<16]" "map digit_val digits_upper = [0..<16]"
    by (simp_all add: digits_lower_def digits_upper_def bytes_def digit_val_def upt_rec)
  then have "map digit_val digits_lower ! d = [0..<16] ! d" "map digit_val digits_upper ! d = [0..<16] ! d" by simp_all
  then show "d < 16 \<Longrightarrow> digit_val (digits_lower ! d) = d" "d < 16 \<Longrightarrow> digit_val (digits_upper ! d) = d"
    by (simp_all add: len)
qed

lemma print_buf_digs:
  assumes "length ds = 16" and "2 \<le> unat base" and "unat base \<le> 16" and "unat x < unat base ^ Suc k" and "k < 15"
  shows "print_buf ds x base neg =
      Some ((if neg then [45] else []) @ rev (map ((!) ds) (digs (unat base) (unat x))))"
    and "length (digs (unat base) (unat x)) \<le> Suc k"
proof -
  show len: "length (digs (unat base) (unat x)) \<le> Suc k" using assms by (intro length_digs)
  have "unat base ^ Suc k \<le> unat base ^ 16" using assms(2,5) by (intro power_increasing) auto
  then have "print_digits (Suc 15) ds x base = Some (map ((!) ds) (digs (unat base) (unat x)))"
    using assms by (intro print_digits_digs) auto
  then show "print_buf ds x base neg =
      Some ((if neg then [45] else []) @ rev (map ((!) ds) (digs (unat base) (unat x))))"
    using len assms(5) by (simp add: print_buf_def eval_nat_numeral del: print_digits.simps)
qed

lemma unat_neg:
  assumes "xx <s (0 :: sint32)"
  shows "int (unat (- xx)) = - sint xx"
proof -
  have "sint xx < 0" using assms by (simp add: word_sless_alt)
  moreover have "sint xx \<ge> - (2 ^ 31)" using sint_ge [of xx] by simp
  moreover have "uint (- xx) = (- sint xx) mod 2 ^ 32"
  proof -
    have "- xx = word_of_int (- sint xx)" by simp
    then show ?thesis by (simp only: uint_word_of_int take_bit_eq_mod) simp
  qed
  ultimately show ?thesis by (simp add: mod_pos_pos_trivial)
qed

lemma uint_nonneg:
  assumes "\<not> xx <s (0 :: sint32)"
  shows "int (unat xx) = sint xx"
proof -
  have "0 \<le> sint xx" using assms by (simp add: word_sless_alt)
  moreover have "sint xx < 2 ^ 31" using sint_lt [of xx] by simp
  ultimately show ?thesis by (simp add: uint_sint take_bit_int_eq_self)
qed

text \<open>
  \<^verbatim>\<open>printint\<close> prints the number: for every 32-bit argument, the smallest negative one included, its
  buffer of 16 bytes is large enough, the decimal output is a minus sign for a negative number and then a
  numeral of at most 10 digits whose value is the absolute value, and the hexadecimal output is a numeral of
  at most 8 digits whose value is the argument read as unsigned. The same holds of the user library.
\<close>

theorem printint_roundtrip:
  "(\<exists>ds. printint xx 10 True = Some ((if xx <s 0 then [45] else []) @ ds) \<and> length ds \<le> 10 \<and> int (num_val 10 ds) = \<bar>sint xx\<bar>)
   \<and> (\<exists>ds. uprintint xx 10 True = Some ((if xx <s 0 then [45] else []) @ ds) \<and> length ds \<le> 10 \<and> int (num_val 10 ds) = \<bar>sint xx\<bar>)
   \<and> (\<exists>ds. printint xx 16 False = Some ds \<and> length ds \<le> 8 \<and> num_val 16 ds = unat xx)
   \<and> (\<exists>ds. uprintint xx 16 False = Some ds \<and> length ds \<le> 8 \<and> num_val 16 ds = unat xx)"
proof -
  have lt: "unat (y :: uint32) < 10 ^ Suc 9" "unat y < 16 ^ Suc 7" for y using unsigned_less [of y, where ?'a = nat] by simp_all
  have abs: "int (unat (if xx <s 0 then - xx else xx)) = \<bar>sint xx\<bar>"
    using unat_neg uint_nonneg by (auto simp: word_sless_alt)
  have val: "num_val 10 (rev (map ((!) tb) (digs 10 n))) = n" "num_val 16 (rev (map ((!) tb) (digs 16 n))) = n"
    if "tb = digits_lower \<or> tb = digits_upper" for tb n
    using that digit_tables by (auto intro!: num_val_digs)
  have pb: "print_buf tb y 10 neg = Some ((if neg then [45] else []) @ rev (map ((!) tb) (digs 10 (unat y))))"
    "print_buf tb y 16 False = Some (rev (map ((!) tb) (digs 16 (unat y))))"
    "length (digs 10 (unat y)) \<le> 10" "length (digs 16 (unat y)) \<le> 8"
    if "tb = digits_lower \<or> tb = digits_upper" for tb y neg
    using that print_buf_digs(1) [of tb 10 y 9 neg] print_buf_digs(2) [of tb 10 y 9]
      print_buf_digs(1) [of tb 16 y 7 False] print_buf_digs(2) [of tb 16 y 7] lt digit_tables by auto
  let ?x = "if xx <s 0 then - xx else xx"
  have p0: "\<exists>ds. printint xx 10 True = Some ((if xx <s 0 then [45] else []) @ ds) \<and> length ds \<le> 10 \<and> int (num_val 10 ds) = \<bar>sint xx\<bar>"
    using pb(1) [of digits_lower ?x "xx <s 0"] pb(3) [of digits_lower ?x] val(1) [of digits_lower "unat ?x"] abs
    by (intro exI [of _ "rev (map ((!) digits_lower) (digs 10 (unat ?x)))"]) (simp add: printint_def)
  have p1: "\<exists>ds. uprintint xx 10 True = Some ((if xx <s 0 then [45] else []) @ ds) \<and> length ds \<le> 10 \<and> int (num_val 10 ds) = \<bar>sint xx\<bar>"
    using pb(1) [of digits_upper ?x "xx <s 0"] pb(3) [of digits_upper ?x] val(1) [of digits_upper "unat ?x"] abs
    by (intro exI [of _ "rev (map ((!) digits_upper) (digs 10 (unat ?x)))"]) (auto simp: uprintint_def)
  have p2: "\<exists>ds. printint xx 16 False = Some ds \<and> length ds \<le> 8 \<and> num_val 16 ds = unat xx"
    using pb(2,4) [of digits_lower xx] val(2) [of digits_lower "unat xx"]
    by (intro exI [of _ "rev (map ((!) digits_lower) (digs 16 (unat xx)))"]) (simp add: printint_def)
  have p3: "\<exists>ds. uprintint xx 16 False = Some ds \<and> length ds \<le> 8 \<and> num_val 16 ds = unat xx"
    using pb(2,4) [of digits_upper xx] val(2) [of digits_upper "unat xx"]
    by (intro exI [of _ "rev (map ((!) digits_upper) (digs 16 (unat xx)))"]) (simp add: uprintint_def)
  show ?thesis using p0 p1 p2 p3 by blast
qed

text \<open>Reading digits with \<^verbatim>\<open>atoi\<close>.\<close>

definition digit_char :: "nat \<Rightarrow> uchar" where
  "digit_char d = of_nat (48 + d)"

lemma digit_char_table: "d < 10 \<Longrightarrow> digits_upper ! d = digit_char d"
proof -
  have "map ((!) digits_upper) [0..<10] = map digit_char [0..<10]"
    by (simp add: digits_upper_def bytes_def digit_char_def upt_rec)
  then show "d < 10 \<Longrightarrow> digits_upper ! d = digit_char d" by simp
qed

lemma digit_char_atoi:
  assumes "d < 10"
  shows "48 \<le>s digit_char d" "digit_char d \<le>s 57" "n * 10 + scast (digit_char d) - 48 = (n * 10 + of_nat d :: sint32)"
proof -
  have "d \<in> set [0..<10]" using assms by simp
  then have "48 \<le>s digit_char d \<and> digit_char d \<le>s 57 \<and> (scast (digit_char d) - 48 :: sint32) = of_nat d"
    by (auto simp: upt_rec digit_char_def word_sle_eq)
  then show "48 \<le>s digit_char d" "digit_char d \<le>s 57" "n * 10 + scast (digit_char d) - 48 = (n * 10 + of_nat d :: sint32)"
    by (auto simp: algebra_simps)
qed

lemma atoi_from_digits:
  assumes "\<forall>d\<in>set ds. d < 10"
  shows "atoi_from (cview (map digit_char (pre @ ds))) (length pre) n = Some (foldl (\<lambda>a d. a * 10 + of_nat d) n ds)"
  using assms
proof (induction ds arbitrary: pre n)
  case Nil
  then show ?case by (simp add: atoi_from.simps [of _ "length pre"] cview_def word_sle_eq)
next
  case (Cons d ds)
  have at: "cview (map digit_char (pre @ d # ds)) (length pre) = digit_char d" by (simp add: cview_def nth_append)
  have "d < 10" using Cons.prems by simp
  note dc = digit_char_atoi [OF this]
  from Cons.IH [of "pre @ [d]" "n * 10 + of_nat d"] Cons.prems show ?case
    by (subst atoi_from.simps) (simp only: at dc, simp)
qed

lemma foldl_of_nat: "foldl (\<lambda>a d. a * 10 + of_nat d) (of_nat n) ds = (of_nat (foldl (\<lambda>a d. a * 10 + d) n ds) :: sint32)"
proof (induction ds arbitrary: n)
  case (Cons d ds)
  have "of_nat n * 10 + of_nat d = (of_nat (n * 10 + d) :: sint32)" by simp
  then show ?case using Cons.IH [of "n * 10 + d"] by (simp only: foldl_Cons)
qed simp

text \<open>
  C36. \<^verbatim>\<open>atoi\<close> reads what \<^verbatim>\<open>printf\<close> writes: for every non-negative number the output of \<^verbatim>\<open>%d\<close>, as a string, is
  converted back to the number, and the conversion ends.
\<close>

theorem printf_atoi_roundtrip:
  assumes "\<not> xx <s 0"
  shows "\<exists>out. printf_out False [37, 100] [FInt xx] = Some out \<and> atoi (cview out) = Some xx"
proof -
  let ?ds = "digs 10 (unat xx)"
  have "unat xx < 10 ^ Suc 9" using unsigned_less [of xx, where ?'a = nat] by simp
  then have "print_buf digits_upper xx 10 False = Some (rev (map ((!) digits_upper) ?ds))"
    using print_buf_digs(1) [of digits_upper 10 xx 9 False] digit_tables by simp
  moreover have lt: "\<forall>d\<in>set ?ds. d < 10" using digs_bound [of 10] by auto
  then have "map ((!) digits_upper) ?ds = map digit_char ?ds" using digit_char_table by simp
  ultimately have out: "printf_out False [37, 100] [FInt xx] = Some (map digit_char (rev ?ds))"
    using assms by (simp add: uprintint_def rev_map)
  have "foldl (\<lambda>a d. a * 10 + d) 0 (rev ?ds) = unat xx"
    using digs_value [of 10 "unat xx"] by (simp add: foldl_conv_foldr add.commute mult.commute)
  then have "atoi (cview (map digit_char (rev ?ds))) = Some xx"
    using atoi_from_digits [of "rev ?ds" "[]" 0] lt foldl_of_nat [of 0 "rev ?ds"] by (simp add: atoi_def)
  with out show ?thesis by blast
qed

theorem printf_atoi_roundtrip_witness:
  "\<exists>out. printf_out False [37, 100] [FInt 202] = Some out \<and> atoi (cview out) = Some 202"
  using printf_atoi_roundtrip [of 202] by (simp add: word_sless_alt)

end
