(* ===== verification/Console.thy ===== *)
theory Console
  imports File Spinlock Numfmt
begin

text \<open>
  The console (\<^verbatim>\<open>console.c\<close>): the text screen and the serial port behind \<^verbatim>\<open>consputc\<close>, formatted output,
  the line editor on the input buffer, the read and write functions of the device, and the process
  listing of \<^verbatim>\<open>proc.c\<close> that \<^verbatim>\<open>^P\<close> asks for.
\<close>

section \<open>State\<close>

definition CONSOLE :: nat where "CONSOLE = 1"
definition INPUT_BUF :: nat where "INPUT_BUF = 128"
definition BACKSPACE :: sint32 where "BACKSPACE = 0x100"

record inputbuf =
  in_buf :: "uchar list"
  in_r :: uint32
  in_w :: uint32
  in_e :: uint32

text \<open>\<open>crt\<close>: the cells of the text screen; \<open>cursor\<close>: registers 14 and 15 of the controller; \<open>serial\<close>: the
  bytes sent to the serial port, if \<open>uart\<close> says that there is one.\<close>

record consst = filest +
  cons_locking :: bool
  panicked :: bool
  inp :: inputbuf
  crt :: "ushort list"
  cursor :: ushort
  uart :: bool
  serial :: "uchar list"

section \<open>Output\<close>

definition uartputc :: "sint32 \<Rightarrow> ('z consst_scheme, unit) kop" where
  "uartputc c = kbind (kget uart) (\<lambda>u. kwhen u (kmod (\<lambda>s. s\<lparr>serial := serial s @ [ucast c]\<rparr>)))"

text \<open>The cursor after a character, and the screen after it, before scrolling.\<close>

definition cga_pos :: "sint32 \<Rightarrow> int \<Rightarrow> int" where
  "cga_pos c pos =
     (if c = 10 then pos + (80 - pos mod 80)
      else if c = BACKSPACE then (if 0 < pos then pos - 1 else pos)
      else pos + 1)"

definition cga_char :: "sint32 \<Rightarrow> int \<Rightarrow> ushort list \<Rightarrow> ushort list" where
  "cga_char c pos cells =
     (if c = 10 \<or> c = BACKSPACE then cells else cells[nat pos := ucast (c AND 0xff) OR 0x0700])"

text \<open>Scrolling by one row: rows 1 to 23 are moved up and the cells from the new cursor \<open>pos\<close> to the end of
  row 23 are cleared.\<close>

definition cga_scroll :: "nat \<Rightarrow> ushort list \<Rightarrow> ushort list" where
  "cga_scroll pos cells =
     (let moved = take (23 * 80) (drop 80 cells) @ drop (23 * 80) cells
      in take pos moved @ replicate (24 * 80 - pos) 0 @ drop (24 * 80) moved)"

definition cgaputc :: "sint32 \<Rightarrow> ('z consst_scheme, unit) kop" where
  "cgaputc c =
     kbind (kget (\<lambda>s. uint (cursor s))) (\<lambda>pos.
     kseq (kmod (\<lambda>s. s\<lparr>crt := cga_char c pos (crt s)\<rparr>))
    (kbind (kret (cga_pos c pos)) (\<lambda>pos.
     kseq (kcheck (pos < 0 \<or> 25 * 80 < pos) ''pos under/overflow'')
    (kbind (if 24 \<le> pos div 80 then
              kseq (kmod (\<lambda>s. s\<lparr>crt := cga_scroll (nat (pos - 80)) (crt s)\<rparr>)) (kret (pos - 80))
            else kret pos) (\<lambda>pos.
     kseq (kmod (\<lambda>s. s\<lparr>cursor := word_of_int pos\<rparr>))
          (kmod (\<lambda>s. s\<lparr>crt := (crt s)[nat pos := 0x0720]\<rparr>)))))))"

text \<open>After a panic every processor that prints stops for good.\<close>

definition consputc :: "sint32 \<Rightarrow> ('z consst_scheme, unit) kop" where
  "consputc c =
     kbind (kget panicked) (\<lambda>p.
     kseq (kcheck p ''frozen'')
    (kseq (if c = BACKSPACE then kseq (uartputc 8) (kseq (uartputc 32) (uartputc 8)) else uartputc c)
          (cgaputc c)))"

text \<open>Bytes go to \<^verbatim>\<open>consputc\<close> as numbers from 0 to 255; where C extends the sign, as for \<^verbatim>\<open>%s\<close>, the output is the same.\<close>

definition cprintf :: "uchar list option \<Rightarrow> farg list \<Rightarrow> ('z consst_scheme, unit) kop" where
  "cprintf fmt as =
     kbind (kget cons_locking) (\<lambda>locking.
     kseq (kwhen locking (acquire ConsLock))
    (kseq (case fmt of None \<Rightarrow> kpanic ''null fmt''
           | Some f \<Rightarrow>
             (case cprintf_out f as of None \<Rightarrow> kfault ''cprintf''
              | Some out \<Rightarrow> kfor out (\<lambda>c. consputc (ucast c))))
          (kwhen locking (release ConsLock))))"

text \<open>\<^verbatim>\<open>panic\<close> up to the endless loop; \<open>lid\<close> is the number of the processor and \<open>v\<close> the address from which
  the call stack is found.\<close>

definition panic :: "uchar list \<Rightarrow> uint32 \<Rightarrow> uint32 \<Rightarrow> ('z consst_scheme, unit) kop" where
  "panic msg lid v =
     kseq (kmod (\<lambda>s. s\<lparr>cons_locking := False\<rparr>))
    (kseq (cprintf (Some (bytes ''lapicid %d: panic: '')) [FInt lid])
    (kseq (cprintf (Some msg) [])
    (kseq (cprintf (Some [10]) [])
    (kbind (kget (\<lambda>s. getcallerpcs (physmem s) v)) (\<lambda>pcs.
     kseq (kfor pcs (\<lambda>pc. cprintf (Some (bytes '' %p'')) [FInt pc]))
          (kmod (\<lambda>s. s\<lparr>panicked := True\<rparr>)))))))"

section \<open>The process listing\<close>

definition state_name :: "procstate \<Rightarrow> string" where
  "state_name st = (case st of UNUSED \<Rightarrow> ''unused'' | EMBRYO \<Rightarrow> ''embryo'' | SLEEPING \<Rightarrow> ''sleep ''
     | RUNNABLE \<Rightarrow> ''runble'' | RUNNING \<Rightarrow> ''run   '' | ZOMBIE \<Rightarrow> ''zombie'')"

definition procdump1 :: "nat \<Rightarrow> ('z consst_scheme, unit) kop" where
  "procdump1 p =
     kbind (get_proc p id) (\<lambda>P.
     kwhen (p_state P \<noteq> UNUSED)
      (kseq (cprintf (Some (bytes ''%d %s %s'')) [FInt (p_pid P), FStr (Some (bytes (state_name (p_state P)))), FStr (Some (p_name P))])
      (kseq (kwhen (p_state P = SLEEPING)
              (kbind (kget (\<lambda>s. getcallerpcs (physmem s) (ctx_ebp (p_context P) + 8))) (\<lambda>pc.
               kfor (takeWhile (\<lambda>x. x \<noteq> 0) pc) (\<lambda>x. cprintf (Some (bytes '' %p'')) [FInt x]))))
            (cprintf (Some [10]) []))))"

definition procdump :: "('z consst_scheme, unit) kop" where
  "procdump = kfor [0..<NPROC] procdump1"

section \<open>Input\<close>

definition upd_inp :: "(inputbuf \<Rightarrow> inputbuf) \<Rightarrow> ('z consst_scheme, unit) kop" where
  "upd_inp f = kmod (\<lambda>s. s\<lparr>inp := f (inp s)\<rparr>)"

definition in_put :: "uchar \<Rightarrow> inputbuf \<Rightarrow> inputbuf" where
  "in_put c I = I\<lparr>in_buf := (in_buf I)[unat (in_e I) mod INPUT_BUF := c], in_e := in_e I + 1\<rparr>"

text \<open>\<^verbatim>\<open>^U\<close>; \<open>n\<close> bounds the characters of the line that is edited.\<close>

primrec kill_line :: "nat \<Rightarrow> ('z consst_scheme, unit) kop" where
  "kill_line 0 = kret ()"
| "kill_line (Suc n) =
     kbind (kget inp) (\<lambda>I.
     kwhen (in_e I \<noteq> in_w I \<and> in_buf I ! (unat (in_e I - 1) mod INPUT_BUF) \<noteq> 10)
      (kseq (upd_inp (\<lambda>I. I\<lparr>in_e := in_e I - 1\<rparr>))
      (kseq (consputc BACKSPACE)
            (kill_line n))))"

text \<open>One turn of the loop of \<^verbatim>\<open>consoleintr\<close>; the value is \<^verbatim>\<open>doprocdump\<close>.\<close>

definition consoleintr1 :: "sint32 \<Rightarrow> bool \<Rightarrow> ('z consst_scheme, bool) kop" where
  "consoleintr1 c doprocdump =
     (if c = 0x10 then kret True
      else if c = 0x15 then
        kbind (kget inp) (\<lambda>I.
        kseq (kill_line (unat (in_e I - in_w I))) (kret doprocdump))
      else if c = 8 \<or> c = 0x7f then
        kbind (kget inp) (\<lambda>I.
        kseq (kwhen (in_e I \<noteq> in_w I)
               (kseq (upd_inp (\<lambda>I. I\<lparr>in_e := in_e I - 1\<rparr>)) (consputc BACKSPACE)))
             (kret doprocdump))
      else
        kbind (kget inp) (\<lambda>I.
        kseq (kwhen (c \<noteq> 0 \<and> in_e I - in_r I < of_nat INPUT_BUF)
               (kbind (kret (if c = 13 then 10 else c)) (\<lambda>c.
                kseq (upd_inp (in_put (ucast c)))
               (kseq (consputc c)
               (kbind (kget inp) (\<lambda>I.
                kwhen (c = 10 \<or> c = 4 \<or> in_e I = in_r I + of_nat INPUT_BUF)
                 (kseq (upd_inp (\<lambda>I. I\<lparr>in_w := in_e I\<rparr>))
                       (wakeup ChanInput))))))))
             (kret doprocdump)))"

primrec consoleintr_loop :: "sint32 list \<Rightarrow> bool \<Rightarrow> ('z consst_scheme, bool) kop" where
  "consoleintr_loop [] d = kret d"
| "consoleintr_loop (c # cs) d = kbind (consoleintr1 c d) (consoleintr_loop cs)"

text \<open>\<open>cs\<close> are the values \<^verbatim>\<open>getc\<close> returns until it returns a negative one.\<close>

definition consoleintr :: "sint32 list \<Rightarrow> ('z consst_scheme, unit) kop" where
  "consoleintr cs =
     kseq (acquire ConsLock)
    (kbind (consoleintr_loop cs False) (\<lambda>doprocdump.
     kseq (release ConsLock)
          (kwhen doprocdump procdump)))"

section \<open>The device\<close>

definition in_front :: "inputbuf \<Rightarrow> uchar" where
  "in_front I = in_buf I ! (unat (in_r I) mod INPUT_BUF)"

definition in_advance :: "inputbuf \<Rightarrow> inputbuf" where
  "in_advance I = I\<lparr>in_r := in_r I + 1\<rparr>"

text \<open>The end of \<^verbatim>\<open>consoleread\<close>: \<open>acc\<close> are the bytes copied.\<close>

definition consoleread_end :: "nat \<Rightarrow> sint32 \<Rightarrow> uchar list \<Rightarrow> ('z consst_scheme, sint32 \<times> uchar list) kop" where
  "consoleread_end ip r acc =
     kseq (release ConsLock)
    (kseq (ilock (Some ip))
          (kret (r, acc)))"

text \<open>The loop of \<^verbatim>\<open>consoleread\<close>: \<open>k\<close> is \<^verbatim>\<open>n\<close>, the number of bytes still wanted.\<close>

primrec consoleread_loop :: "nat \<Rightarrow> sint32 \<Rightarrow> nat \<Rightarrow> uchar list \<Rightarrow> ('z consst_scheme, sint32 \<times> uchar list) kop" where
  "consoleread_loop ip target 0 acc = consoleread_end ip target acc"
| "consoleread_loop ip target (Suc k) acc =
     kbind (kget inp) (\<lambda>I.
     if in_r I = in_w I then
       kbind curproc (\<lambda>q.
       kbind (get_proc q p_killed) (\<lambda>killed.
       if killed then consoleread_end ip (- 1) acc
       else sleep_away ChanInput ConsLock))
     else
       kseq (upd_inp in_advance)
            (if in_front I = 4 then
               kseq (kwhen (of_nat (Suc k) < target) (upd_inp (\<lambda>I. I\<lparr>in_r := in_r I - 1\<rparr>)))
                    (consoleread_end ip (target - of_nat (Suc k)) acc)
             else if in_front I = 10 then consoleread_end ip (target - of_nat k) (acc @ [10])
             else consoleread_loop ip target k (acc @ [in_front I])))"

definition consoleread :: "nat \<Rightarrow> sint32 \<Rightarrow> ('z consst_scheme, sint32 \<times> uchar list) kop" where
  "consoleread ip n =
     kseq (iunlock (Some ip))
    (kseq (acquire ConsLock)
          (if n \<le>s 0 then consoleread_end ip 0 []
           else consoleread_loop ip n (cnt n) []))"

text \<open>A reader that runs again after it has waited, with \<open>k\<close> bytes wanted and \<open>acc\<close> copied.\<close>

definition consoleread_resume :: "nat \<Rightarrow> sint32 \<Rightarrow> nat \<Rightarrow> uchar list \<Rightarrow> ('z consst_scheme, sint32 \<times> uchar list) kop" where
  "consoleread_resume ip target k acc = kseq (sleep_resume ConsLock) (consoleread_loop ip target k acc)"

definition consolewrite :: "nat \<Rightarrow> uchar list \<Rightarrow> ('z consst_scheme, sint32) kop" where
  "consolewrite ip bs =
     kseq (iunlock (Some ip))
    (kseq (acquire ConsLock)
    (kseq (kfor bs (\<lambda>b. consputc (ucast b)))
    (kseq (release ConsLock)
    (kseq (ilock (Some ip))
          (kret (of_nat (length bs)))))))"

text \<open>\<^verbatim>\<open>consoleinit\<close>: the entries of the device table, and locking from now on.\<close>

definition devsw_table :: "('z consst_scheme) devsw" where
  "devsw_table = \<lparr>dev_read = (\<lambda>d. if d = CONSOLE then Some consoleread else None),
     dev_write = (\<lambda>d. if d = CONSOLE then Some consolewrite else None)\<rparr>"

definition consoleinit :: "('z consst_scheme, unit) kop" where
  "consoleinit = kmod (\<lambda>s. s\<lparr>cons_locking := True\<rparr>)"

section \<open>The screen\<close>

text \<open>The cursor is on one of the first 24 rows, and no processor has panicked.\<close>

definition screen_ok :: "'z consst_scheme \<Rightarrow> bool" where
  "screen_ok s \<longleftrightarrow> uint (cursor s) < 24 * 80 \<and> 24 * 80 < length (crt s) \<and> \<not> panicked s"

lemma cga_pos_bounds:
  assumes "0 \<le> pos" and "pos < 24 * 80"
  shows "0 \<le> cga_pos c pos" and "cga_pos c pos \<le> 24 * 80"
proof -
  have "pos - pos mod 80 \<le> 23 * 80" using assms by presburger
  moreover have "0 \<le> pos mod 80" "pos mod 80 < 80" by simp_all
  ultimately have "0 \<le> pos + (80 - pos mod 80)" "pos + (80 - pos mod 80) \<le> 24 * 80" using assms by linarith+
  then show "0 \<le> cga_pos c pos" and "cga_pos c pos \<le> 24 * 80" using assms by (auto simp: cga_pos_def)
qed

lemma length_cga [simp]:
  "length (cga_char c pos cells) = length cells"
  "k \<le> 24 * 80 \<Longrightarrow> 24 * 80 < length cells \<Longrightarrow> length (cga_scroll k cells) = length cells"
  by (auto simp: cga_char_def cga_scroll_def Let_def)

lemma cga_scroll_nth:
  assumes "1920 < length cells" and "i < length cells"
  shows "cga_scroll 1840 cells ! i = (if i < 1840 then cells ! (i + 80) else if i < 1920 then 0 else cells ! i)"
  using assms by (auto simp: cga_scroll_def Let_def nth_append add.commute)

text \<open>What one character does to a screen of rows of 80 columns. The place of the cursor: a newline goes to the start of
  the next row, a backspace one column back, or to the end of the row above, and any other character one column on,
  or to the start of the next row. The character is shown where the cursor was, with attribute 7.\<close>

definition next_place :: "sint32 \<Rightarrow> nat \<Rightarrow> nat \<Rightarrow> nat \<times> nat" where
  "next_place c r q =
     (if c = 10 then (r + 1, 0)
      else if c = BACKSPACE then (if 0 < q then (r, q - 1) else if 0 < r then (r - 1, 79) else (0, 0))
      else if q = 79 then (r + 1, 0) else (r, q + 1))"

definition shown :: "sint32 \<Rightarrow> 'z consst_scheme \<Rightarrow> nat \<Rightarrow> ushort" where
  "shown c s i = (if c \<noteq> 10 \<and> c \<noteq> BACKSPACE \<and> i = unat (cursor s) then of_nat (0x0700 + unat c mod 256) else crt s ! i)"

text \<open>If the cursor leaves row 23, rows 1 to 23 move up, row 23 is cleared and the cursor stays on it. The cell under the
  cursor is blank, and every other cell is kept, those behind row 23 in any case.\<close>

definition screen_step :: "sint32 \<Rightarrow> 'z consst_scheme \<Rightarrow> 'z consst_scheme \<Rightarrow> bool" where
  "screen_step c s t \<longleftrightarrow>
     (let (r, q) = next_place c (unat (cursor s) div 80) (unat (cursor s) mod 80) in
        unat (cursor t) = 80 * min r 23 + q \<and> length (crt t) = length (crt s) \<and>
        (\<forall>i < length (crt s). crt t ! i =
           (if i = unat (cursor t) then 0x0720
            else if r < 24 \<or> 1920 \<le> i then shown c s i
            else if i < 1840 then shown c s (i + 80)
            else 0)))"

lemma cga_pos_place:
  assumes "n < 1920" and "next_place c (n div 80) (n mod 80) = (r, q)"
  shows "cga_pos c (int n) = int (80 * r + q)" and "r < 24 \<or> r = 24 \<and> q = 0" and "q < 80"
proof -
  define i j where "i = n div 80" and "j = n mod 80"
  then have n: "n = 80 * i + j" "i < 24" "j < 80" using assms(1) by auto
  have m: "int n mod 80 = int j" by (simp add: j_def zmod_int)
  have p: "next_place c i j = (r, q)" using assms(2) by (simp add: i_def j_def)
  show "cga_pos c (int n) = int (80 * r + q)"
    using p m n(3) unfolding cga_pos_def m by (auto simp: next_place_def n(1) split: if_splits)
  show "r < 24 \<or> r = 24 \<and> q = 0" "q < 80"
    using p n(2,3) by (auto simp: next_place_def split: if_splits)
qed

lemma cga_cell: "ucast ((c :: sint32) AND 0xff) OR 0x0700 = (of_nat (0x0700 + unat c mod 256) :: ushort)"
proof -
  have m: "c AND 0xff = take_bit 8 c" by (simp add: take_bit_eq_mask mask_eq_exp_minus_1)
  have u: "(ucast (c AND 0xff) :: ushort) = take_bit 8 (ucast c)" unfolding m by (simp add: unsigned_take_bit_eq)
  have "(0x0700 :: ushort) = push_bit 8 7" by simp
  then have "take_bit 8 (ucast c :: ushort) AND 0x0700 = 0"
    by (intro bit_word_eqI) (simp only: bit_and_iff bit_take_bit_iff bit_push_bit_iff, simp)
  then have "take_bit 8 (ucast c :: ushort) OR 0x0700 = take_bit 8 (ucast c) + 0x0700" by (simp add: disjunctive_add_eq_or)
  moreover have "(ucast (c AND 0xff) :: ushort) = of_nat (unat c mod 256)"
    unfolding u by (rule unsigned_word_eqI [where ?'a = nat])
      (simp add: unsigned_take_bit_eq take_bit_eq_mod unat_of_nat unat_mod unsigned_ucast_eq mod_mod_cancel)
  ultimately show ?thesis using u by simp
qed

lemma cga_char_nth:
  "i < length (crt s) \<Longrightarrow> cga_char c (uint (cursor s)) (crt s) ! i = shown c s i"
  by (auto simp: cga_char_def shown_def cga_cell nth_list_update nat_uint_eq simp del: of_nat_add)

lemma cgaputc_run:
  fixes s :: "'z consst_scheme"
  assumes "screen_ok s"
  obtains cells cu where "cgaputc c s = Ok () (s\<lparr>crt := cells, cursor := cu\<rparr>)"
    and "screen_step c s (s\<lparr>crt := cells, cursor := cu\<rparr>)" and "uint cu < 24 * 80" and "length cells = length (crt s)"
proof -
  let ?n = "unat (cursor s)"
  let ?c = "cga_char c (uint (cursor s)) (crt s)"
  obtain r q where rq: "next_place c (?n div 80) (?n mod 80) = (r, q)" by (cases "next_place c (?n div 80) (?n mod 80)")
  have n: "uint (cursor s) = int ?n" by (rule uint_nat)
  then have lt: "?n < 1920" using assms unfolding screen_ok_def by linarith
  note P = cga_pos_place [OF lt rq]
  have len: "24 * 80 < length (crt s)" using assms(1) by (simp add: screen_ok_def)
  have lc: "length ?c = length (crt s)" by simp
  show ?thesis
  proof (cases "r = 24")
    case True
    let ?new = "(cga_scroll 1840 ?c)[1840 := 0x0720]"
    have p: "cga_pos c (uint (cursor s)) = 1920" unfolding n P(1) using P(2) True by simp
    have nth: "?new ! i = (if i = 1840 then 0x0720 else if 1920 \<le> i then shown c s i else if i < 1840 then shown c s (i + 80) else 0)"
      if "i < length (crt s)" for i
      using that len by (simp add: nth_list_update cga_scroll_nth cga_char_nth)
    show ?thesis
    proof (rule that [where cells = ?new and cu = 1840])
      show "cgaputc c s = Ok () (s\<lparr>crt := ?new, cursor := 1840\<rparr>)" using p by (simp add: cgaputc_def run)
      show "screen_step c s (s\<lparr>crt := ?new, cursor := 1840\<rparr>)"
        unfolding screen_step_def rq using True P(2) len by (simp add: nth)
    qed (use len in simp_all)
  next
    case False
    then have b: "80 * r + q < 1920" using P(2,3) by simp
    have p: "cga_pos c (uint (cursor s)) = int (80 * r + q)" unfolding n by (rule P(1))
    have u: "unat (word_of_nat (80 * r + q) :: ushort) = 80 * r + q" using b by (simp add: unat_of_nat del: of_nat_add of_nat_mult)
    have w: "word_of_int (int (80 * r + q)) = (word_of_nat (80 * r + q) :: ushort)" by (simp del: of_nat_add of_nat_mult)
    have k: "\<not> 24 \<le> int (80 * r + q) div 80" "\<not> (int (80 * r + q) < 0 \<or> 25 * 80 < int (80 * r + q))" using b by linarith+
    have r: "r < 24" "min r 23 = r" using False P(2) by auto
    let ?cu = "word_of_nat (80 * r + q) :: ushort"
    let ?new = "?c[80 * r + q := 0x0720]"
    have nth: "?new ! i = (if i = 80 * r + q then 0x0720 else shown c s i)" if "i < length (crt s)" for i
      using that by (simp add: nth_list_update cga_char_nth)
    show ?thesis
    proof (rule that [where cells = ?new and cu = ?cu])
      show "cgaputc c s = Ok () (s\<lparr>crt := ?new, cursor := ?cu\<rparr>)"
        using k by (simp add: cgaputc_def run p w del: of_nat_add of_nat_mult)
      show "screen_step c s (s\<lparr>crt := ?new, cursor := ?cu\<rparr>)"
        unfolding screen_step_def rq by (simp add: r u nth del: of_nat_add of_nat_mult)
      show "uint ?cu < 24 * 80" using b u uint_nat [of ?cu] by linarith
    qed simp
  qed
qed

lemma screen_step_serial [simp]: "screen_step c (s\<lparr>serial := out\<rparr>) t = screen_step c s t"
  by (simp add: screen_step_def shown_def)

lemma consputc_run:
  fixes s :: "'z consst_scheme"
  assumes "screen_ok s"
  obtains t where "consputc c s = Ok () t" and "screen_ok t"
    and "screen_step c s t"
    and "serial t = serial s @ (if uart s then (if c = BACKSPACE then [8, 32, 8] else [ucast c]) else [])"
    and "\<exists>cells cu. t = s\<lparr>serial := serial t, crt := cells, cursor := cu\<rparr>"
proof -
  let ?o = "serial s @ (if uart s then (if c = BACKSPACE then [8, 32, 8] else [ucast c]) else [])"
  let ?s = "s\<lparr>serial := ?o\<rparr>"
  have "screen_ok ?s" using assms by (simp add: screen_ok_def)
  from cgaputc_run [OF this] obtain cells cu where
    r: "cgaputc c ?s = Ok () (?s\<lparr>crt := cells, cursor := cu\<rparr>)" "screen_step c ?s (?s\<lparr>crt := cells, cursor := cu\<rparr>)"
      "uint cu < 24 * 80" "length cells = length (crt ?s)" .
  have "consputc c s = Ok () (?s\<lparr>crt := cells, cursor := cu\<rparr>)"
    using assms r(1) by (cases "uart s"; cases "c = BACKSPACE") (simp_all add: consputc_def uartputc_def run screen_ok_def)
  then show ?thesis
  proof (rule that)
    show "\<exists>cells' cu'. ?s\<lparr>crt := cells, cursor := cu\<rparr>
        = s\<lparr>serial := serial (?s\<lparr>crt := cells, cursor := cu\<rparr>), crt := cells', cursor := cu'\<rparr>"
      by (intro exI [of _ cells] exI [of _ cu]) simp
    show "screen_step c s (?s\<lparr>crt := cells, cursor := cu\<rparr>)" using r(2) by simp
  qed (use r assms in \<open>simp_all add: screen_ok_def\<close>)
qed

lemma kfor_consputc:
  "screen_ok s \<Longrightarrow> wpk (kfor cs consputc) (\<lambda>_. screen_ok) s"
proof (rule wp_for [where I = "\<lambda>_. screen_ok"])
  fix t :: "'z consst_scheme" and c :: sint32
  assume "screen_ok t"
  from consputc_run [OF this] show "wpk (consputc c) (\<lambda>_. screen_ok) t" by (metis wpkI)
qed simp

text \<open>
  C35. The console driver is a terminal of 24 rows. From a cursor on one of them, \<^verbatim>\<open>consputc\<close> does not panic,
  whatever the character, and the cursor stays there, also after any number of characters. The cursor goes where the
  character says: to the start of the next row, one column back or one column on, over the ends of the rows. A visible
  character appears where the cursor was, and the cell under the new cursor is blank. When the cursor would leave row 23,
  the rows move up by one and the last one is cleared. Every other cell is kept, all those behind row 23 included, and the
  serial port receives the character, or the three that erase one.
\<close>

theorem consputc_screen:
  fixes s :: "'z consst_scheme"
  assumes "screen_ok s"
  shows "(\<exists>t. consputc c s = Ok () t \<and> screen_ok t \<and> screen_step c s t
      \<and> serial t = serial s @ (if uart s then if c = BACKSPACE then [8, 32, 8] else [ucast c] else []))
    \<and> wpk (kfor cs consputc) (\<lambda>_. screen_ok) s"
  using consputc_run [OF assms, of c] kfor_consputc [OF assms, of cs] by metis

definition zero_input :: inputbuf where
  "zero_input = \<lparr>in_buf = replicate INPUT_BUF 0, in_r = 0, in_w = 0, in_e = 0\<rparr>"

definition demo_console :: "inputbuf \<Rightarrow> ushort \<Rightarrow> consst" where
  "demo_console I cu = filest.extend (demo_files [])
     \<lparr>cons_locking = True, panicked = False, inp = I, crt = replicate 2000 0x0720, cursor = cu, uart = True, serial = []\<rparr>"

lemma demo_console_simps [simp]:
  "held (demo_console I cu) = {}" "inp (demo_console I cu) = I" "cursor (demo_console I cu) = cu" "crt (demo_console I cu) = replicate 2000 0x0720"
  "cur (demo_console I cu) = Some 0" "length (procs (demo_console I cu)) = 2"
  by (simp_all add: demo_console_def filest.extend_def demo_files_def pipest.extend_def with_pipe_def fsst.extend_def with_fs_def
      logst.extend_def with_log_def bcache.extend_def boot_bcache_def vmem.extend_def kmem.extend_def demo_kmem_def
      sleeps.extend_def demo_sleeps_def ptab.extend_def demo_ptab_def)

lemma demo_console_ok: "uint cu < 1920 \<Longrightarrow> screen_ok (demo_console I cu)"
  by (simp add: screen_ok_def) (simp add: demo_console_def filest.extend_def)

theorem consputc_screen_witness:
  "\<exists>t. consputc 65 (demo_console zero_input 1919) = Ok () t \<and> uint (cursor t) = 1840 \<and> crt t ! 1839 = 0x0741"
proof -
  have "screen_ok (demo_console zero_input 1919)" by (rule demo_console_ok) simp
  from consputc_screen [OF this, of 65 "[]"] obtain t where
    t: "consputc 65 (demo_console zero_input 1919) = Ok () t" "screen_step 65 (demo_console zero_input 1919) t" by blast
  have n: "next_place 65 23 79 = (24, 0)" by (simp add: next_place_def BACKSPACE_def)
  have st: "unat (cursor t) = 1840"
    "\<forall>i < 2000. crt t ! i = (if i = unat (cursor t) then 0x0720
       else if (24 :: nat) < 24 \<or> 1920 \<le> i then shown 65 (demo_console zero_input 1919) i
       else if i < 1840 then shown 65 (demo_console zero_input 1919) (i + 80) else 0)"
    using t(2) by (simp_all only: screen_step_def demo_console_simps length_replicate)
      (simp_all add: n)
  have "crt t ! 1839 = shown 65 (demo_console zero_input 1919) 1919" using spec [OF st(2), of 1839] st(1) by simp
  moreover have "uint (cursor t) = 1840" using st(1) uint_nat [of "cursor t"] by simp
  ultimately show ?thesis using t(1) by (simp add: shown_def BACKSPACE_def)
qed

section \<open>The line editor\<close>

text \<open>The input buffer holds the lines that may be read and, behind them, the line that is being edited, which
  has no newline in it.\<close>

definition ready :: "inputbuf \<Rightarrow> uchar list" where
  "ready I = ring_list (in_buf I) (in_r I) (in_w I)"

definition editing :: "inputbuf \<Rightarrow> uchar list" where
  "editing I = ring_list (in_buf I) (in_w I) (in_e I)"

definition input_ok :: "inputbuf \<Rightarrow> bool" where
  "input_ok I \<longleftrightarrow> length (in_buf I) = INPUT_BUF \<and> unat (in_e I - in_r I) \<le> INPUT_BUF
     \<and> unat (in_w I - in_r I) + unat (in_e I - in_w I) = unat (in_e I - in_r I) \<and> 10 \<notin> set (editing I)"

lemma INPUT_BUF_dvd: "INPUT_BUF dvd 2 ^ 32"
proof -
  have "(2 :: nat) ^ 32 = INPUT_BUF * 2 ^ 25" by (simp add: INPUT_BUF_def)
  then show ?thesis by (rule dvdI)
qed

lemma length_lines: "length (ready I) = unat (in_w I - in_r I)" "length (editing I) = unat (in_e I - in_w I)"
  by (simp_all add: ready_def editing_def)

lemma editing_empty: "in_e I = in_w I \<longleftrightarrow> editing I = []"
proof -
  have "editing I = [] \<longleftrightarrow> unat (in_e I - in_w I) = 0" using length_lines(2) [of I] by auto
  then show ?thesis by (auto simp: unat_eq_0)
qed

lemma input_erase:
  assumes "input_ok I" and "in_e I \<noteq> in_w I"
  shows "input_ok (I\<lparr>in_e := in_e I - 1\<rparr>)" and "ready (I\<lparr>in_e := in_e I - 1\<rparr>) = ready I"
    and "editing (I\<lparr>in_e := in_e I - 1\<rparr>) = butlast (editing I)"
proof -
  have w: "in_w I \<noteq> in_e I" using assms(2) by simp
  have "unat (in_e I - in_w I) \<noteq> 0" using assms(2) by (simp add: unat_eq_0)
  then have r: "in_r I \<noteq> in_e I" using assms(1) by (auto simp: input_ok_def)
  show ed: "editing (I\<lparr>in_e := in_e I - 1\<rparr>) = butlast (editing I)" using ring_butlast [OF w] by (simp add: editing_def)
  show "ready (I\<lparr>in_e := in_e I - 1\<rparr>) = ready I" by (simp add: ready_def)
  have "0 < unat (in_e I - in_w I)" using assms(2) by (auto simp: unat_gt_0)
  then show "input_ok (I\<lparr>in_e := in_e I - 1\<rparr>)"
    using assms(1) ed unat_pred [OF w] unat_pred [OF r] by (auto simp: input_ok_def dest: in_set_butlastD)
qed

lemma input_put:
  assumes "input_ok I" and "unat (in_e I - in_r I) < INPUT_BUF"
  shows "ready (in_put c I) = ready I" and "editing (in_put c I) = editing I @ [c]"
    and "unat (in_e I + 1 - in_r I) = Suc (unat (in_e I - in_r I))" and "unat (in_e I + 1 - in_w I) = Suc (unat (in_e I - in_w I))"
proof -
  let ?b = "(in_buf I)[unat (in_e I) mod INPUT_BUF := c]"
  have sum: "unat (in_w I - in_r I) + unat (in_e I - in_w I) = unat (in_e I - in_r I)" and len: "length (in_buf I) = INPUT_BUF"
    using assms(1) by (simp_all add: input_ok_def)
  have ew: "unat (in_e I - in_w I) < INPUT_BUF" using assms(2) sum by simp
  note put = ring_put [OF len _ INPUT_BUF_dvd]
  have r: "ring_list ?b (in_r I) (in_e I + 1) = ring_list (in_buf I) (in_r I) (in_e I) @ [c]"
    using put [of "in_e I" "in_r I" c] assms(2) by (simp add: INPUT_BUF_def)
  show w: "editing (in_put c I) = editing I @ [c]"
    using put [of "in_e I" "in_w I" c] ew by (simp add: INPUT_BUF_def editing_def in_put_def)
  show e1: "unat (in_e I + 1 - in_r I) = Suc (unat (in_e I - in_r I))"
    using arg_cong [OF r, of length] by simp
  show e2: "unat (in_e I + 1 - in_w I) = Suc (unat (in_e I - in_w I))"
    using arg_cong [OF w, of length] by (simp add: editing_def in_put_def)
  have "ring_list ?b (in_r I) (in_e I + 1) = ring_list ?b (in_r I) (in_w I) @ ring_list ?b (in_w I) (in_e I + 1)"
    "ring_list (in_buf I) (in_r I) (in_e I) = ring_list (in_buf I) (in_r I) (in_w I) @ ring_list (in_buf I) (in_w I) (in_e I)"
    using sum e1 e2 by (intro ring_split; simp)+
  with r show "ready (in_put c I) = ready I" using w by (simp add: ready_def editing_def in_put_def)
qed

text \<open>The editor as it appears to the user: \<open>rd\<close> are the lines that may be read, \<open>ed\<close> the line being edited.\<close>

definition line_step :: "sint32 \<Rightarrow> uchar list \<times> uchar list \<Rightarrow> uchar list \<times> uchar list" where
  "line_step c = (\<lambda>(rd, ed).
     if c = 0x10 then (rd, ed)
     else if c = 0x15 then (rd, [])
     else if c = 8 \<or> c = 0x7f then (rd, butlast ed)
     else if c = 0 \<or> INPUT_BUF \<le> length rd + length ed then (rd, ed)
     else
      (let ed' = ed @ [ucast (if c = 13 then 10 else c)] in
       if c \<in> {10, 13, 4} \<or> length rd + length ed' = INPUT_BUF then (rd @ ed', []) else (rd, ed')))"

text \<open>What the console leaves alone, apart from processes it wakes up.\<close>

definition cons_frame :: "'z consst_scheme \<Rightarrow> 'z consst_scheme \<Rightarrow> bool" where
  "cons_frame s t \<longleftrightarrow> held t = held s \<and> cur t = cur s \<and> icache t = icache s \<and> slks t = slks s \<and> roused (procs s) (procs t)"

lemma cons_frame_refl [simp]: "cons_frame s s"
  by (simp add: cons_frame_def)

lemma cons_frame_trans [trans]: "cons_frame s t \<Longrightarrow> cons_frame t u \<Longrightarrow> cons_frame s u"
  by (auto simp: cons_frame_def intro: roused_trans)

lemma wp_consputc:
  fixes s :: "'z consst_scheme"
  assumes "screen_ok s"
  shows "wpk (consputc c) (\<lambda>_ t. screen_ok t \<and> inp t = inp s \<and> cons_frame s t) s"
proof -
  from consputc_run [OF assms, of c] obtain t cells cu where
    t: "consputc c s = Ok () t" "screen_ok t" "t = s\<lparr>serial := serial t, crt := cells, cursor := cu\<rparr>" by metis
  have "inp t = inp s" by (subst t(3)) simp
  moreover have "cons_frame s t" by (subst t(3)) (simp add: cons_frame_def)
  ultimately show ?thesis using t by (simp add: wpk_def)
qed

lemma upd_inp_run [run, simp]: "upd_inp f s = Ok () (s\<lparr>inp := f (inp s)\<rparr>)"
  by (simp add: upd_inp_def)

lemma wp_upd_inp [wp]: "wpk (upd_inp f) Q s = Q () (s\<lparr>inp := f (inp s)\<rparr>)"
  by (simp add: wpk_def)

lemma screen_ok_inp [simp]: "screen_ok (s\<lparr>inp := I\<rparr>) = screen_ok s" "cons_frame (s\<lparr>inp := I\<rparr>) t = cons_frame s t"
  by (simp_all add: screen_ok_def cons_frame_def)

lemma wp_erase:
  fixes s :: "'z consst_scheme"
  assumes "screen_ok s"
  shows "wpk (kseq (upd_inp (\<lambda>I. I\<lparr>in_e := in_e I - 1\<rparr>)) (consputc BACKSPACE))
    (\<lambda>_ t. screen_ok t \<and> inp t = (inp s)\<lparr>in_e := in_e (inp s) - 1\<rparr> \<and> cons_frame s t) s"
  using wp_consputc [of "s\<lparr>inp := (inp s)\<lparr>in_e := in_e (inp s) - 1\<rparr>\<rparr>" BACKSPACE] assms by (simp add: wp)

lemma wp_kill_line:
  fixes s :: "'z consst_scheme"
  assumes "screen_ok s" and "input_ok (inp s)" and "n = length (editing (inp s))"
  shows "wpk (kill_line n) (\<lambda>_ t. screen_ok t \<and> input_ok (inp t) \<and> ready (inp t) = ready (inp s)
    \<and> editing (inp t) = [] \<and> cons_frame s t) s"
  using assms
proof (induction n arbitrary: s)
  case 0
  then show ?case by (simp add: wp)
next
  case (Suc n)
  let ?I = "inp s"
  have ne: "in_e ?I \<noteq> in_w ?I" using Suc.prems(3) by (auto simp: editing_empty)
  have "last (editing ?I) \<in> set (editing ?I)" using ne by (simp add: editing_empty)
  then have "in_buf ?I ! (unat (in_e ?I - 1) mod INPUT_BUF) \<noteq> 10"
    using ring_last [of "in_w ?I" "in_e ?I" "in_buf ?I"] ne Suc.prems(2) by (auto simp: input_ok_def editing_def)
  note go = ne this
  note er = input_erase [OF Suc.prems(2) ne]
  have step: "wpk (kill_line n) (\<lambda>_ u. screen_ok u \<and> input_ok (inp u) \<and> ready (inp u) = ready ?I
      \<and> editing (inp u) = [] \<and> cons_frame s u) t"
    if t: "screen_ok t \<and> inp t = ?I\<lparr>in_e := in_e ?I - 1\<rparr> \<and> cons_frame s t" for t :: "'z consst_scheme"
  proof -
    have "wpk (kill_line n) (\<lambda>_ u. screen_ok u \<and> input_ok (inp u) \<and> ready (inp u) = ready (inp t)
      \<and> editing (inp u) = [] \<and> cons_frame t u) t"
      using t er Suc.prems(3) by (intro Suc.IH) auto
    then show ?thesis by (rule wpk_mono) (use t er in \<open>auto intro: cons_frame_trans\<close>)
  qed
  have "wpk (kseq (kseq (upd_inp (\<lambda>I. I\<lparr>in_e := in_e I - 1\<rparr>)) (consputc BACKSPACE)) (kill_line n)) (\<lambda>_ u. screen_ok u \<and> input_ok (inp u)
      \<and> ready (inp u) = ready ?I \<and> editing (inp u) = [] \<and> cons_frame s u) s"
    unfolding wp_seq [where n = "kill_line n"] by (rule wpk_mono [OF wp_erase [OF Suc.prems(1)] step])
  then show ?case using go by (simp add: wp)
qed

definition lines :: "'z consst_scheme \<Rightarrow> uchar list \<times> uchar list" where
  "lines s = (ready (inp s), editing (inp s))"

definition edits :: "'z consst_scheme \<Rightarrow> sint32 list \<Rightarrow> 'z consst_scheme \<Rightarrow> bool" where
  "edits s cs t \<longleftrightarrow> screen_ok t \<and> input_ok (inp t) \<and> lines t = fold line_step cs (lines s) \<and> cons_frame s t"

lemma word_lt_INPUT_BUF: "x < (of_nat INPUT_BUF :: uint32) \<longleftrightarrow> unat x < INPUT_BUF"
  by (simp add: word_less_nat_alt INPUT_BUF_def)

lemma input_full_iff: "in_e I = in_r I + of_nat INPUT_BUF \<longleftrightarrow> unat (in_e I - in_r I) = INPUT_BUF"
proof -
  have "in_e I = in_r I + of_nat INPUT_BUF \<longleftrightarrow> in_e I - in_r I = of_nat INPUT_BUF" by (auto simp: algebra_simps)
  also have "\<dots> \<longleftrightarrow> unat (in_e I - in_r I) = INPUT_BUF" by (simp add: word_unat_eq_iff INPUT_BUF_def)
  finally show ?thesis .
qed

text \<open>An ordinary character: put into the buffer, and the line made readable if it ends there.\<close>

lemma input_char:
  assumes I: "input_ok I" and room: "unat (in_e I - in_r I) < INPUT_BUF" and c: "c \<noteq> 10 \<or> nl"
  defines "J \<equiv> (if nl then (in_put c I)\<lparr>in_w := in_e (in_put c I)\<rparr> else in_put c I)"
  shows "input_ok J" and "ready J = (if nl then ready I @ editing I @ [c] else ready I)"
    and "editing J = (if nl then [] else editing I @ [c])"
proof -
  note p = input_put [OF I room]
  have len: "length (in_buf (in_put c I)) = INPUT_BUF" using I by (simp add: in_put_def input_ok_def)
  have sum: "unat (in_w I - in_r I) + unat (in_e I + 1 - in_w I) = unat (in_e I + 1 - in_r I)"
    using p(3,4) I by (simp add: input_ok_def)
  have whole: "ring_list (in_buf (in_put c I)) (in_r I) (in_e I + 1) = ready I @ editing I @ [c]"
    using ring_split [OF sum, of "in_buf (in_put c I)"] p(1,2) [of c] by (simp add: ready_def editing_def in_put_def)
  have f: "in_r (in_put c I) = in_r I" "in_w (in_put c I) = in_w I" "in_e (in_put c I) = in_e I + 1" by (simp_all add: in_put_def)
  show "ready J = (if nl then ready I @ editing I @ [c] else ready I)"
    using whole p(1) [of c] unfolding J_def ready_def by (simp add: f)
  show ed: "editing J = (if nl then [] else editing I @ [c])"
    using p(2) [of c] unfolding J_def editing_def by (simp add: f ring_list_def)
  show "input_ok J"
    using ed I c room p(3) sum len by (auto simp: input_ok_def J_def f)
qed

lemma wpk_ret: "wpk (kret x) Q = Q x"
  by (simp add: fun_eq_iff wp)

lemma wp_consoleintr_char:
  fixes s :: "'z consst_scheme"
  assumes s: "screen_ok s" "input_ok (inp s)" "PtableLock \<notin> held s" and c: "c < 256" "c \<notin> {0x10, 0x15, 8, 0x7f}"
  shows "wpk (consoleintr1 c d) (\<lambda>d' t. d' = d \<and> edits s [c] t) s"
proof (cases "c \<noteq> 0 \<and> unat (in_e (inp s) - in_r (inp s)) < INPUT_BUF")
  case False
  have "length (ready (inp s)) + length (editing (inp s)) = unat (in_e (inp s) - in_r (inp s))"
    using s(2) by (simp add: input_ok_def length_lines)
  then have "line_step c (lines s) = lines s" using False c(2) by (auto simp: line_step_def lines_def)
  then show ?thesis using False c(2) s by (auto simp: consoleintr1_def wp word_lt_INPUT_BUF edits_def)
next
  case True
  define c' where "c' = (if c = 13 then 10 else c)"
  let ?I = "inp s"
  let ?b = "ucast c' :: uchar"
  have tot: "length (ready ?I) + length (editing ?I) = unat (in_e ?I - in_r ?I)"
    using s(2) by (simp add: input_ok_def length_lines)
  have full: "in_e (in_put ?b ?I) = in_r (in_put ?b ?I) + of_nat INPUT_BUF \<longleftrightarrow> Suc (unat (in_e ?I - in_r ?I)) = INPUT_BUF"
    using input_put(3) [OF s(2)] True by (simp only: input_full_iff) (simp add: in_put_def)
  let ?k = "c' = 10 \<or> c' = 4 \<or> Suc (unat (in_e ?I - in_r ?I)) = INPUT_BUF"
  have b10: "?b \<noteq> 10 \<or> ?k"
  proof -
    have "unat c' < 256" using c(1) by (simp add: c'_def word_less_nat_alt)
    then have "unat ?b = unat c'" by (simp add: unsigned_ucast_eq take_bit_nat_eq_self)
    then show ?thesis by (auto simp: word_unat_eq_iff)
  qed
  note ch = input_char [OF s(2) conjunct2 [OF True] b10]
  have step: "line_step c (lines s) = (if ?k then ready ?I @ editing ?I @ [?b] else ready ?I, if ?k then [] else editing ?I @ [?b])"
    using True c(2) tot by (auto simp: line_step_def lines_def Let_def c'_def)
  let ?s = "s\<lparr>inp := in_put ?b ?I\<rparr>"
  let ?fin = "kbind (kget inp) (\<lambda>I. kwhen (c' = 10 \<or> c' = 4 \<or> in_e I = in_r I + of_nat INPUT_BUF)
      (kseq (upd_inp (\<lambda>I. I\<lparr>in_w := in_e I\<rparr>)) (wakeup ChanInput)))"
  have fin: "wpk ?fin (\<lambda>_ u. edits s [c] u) t"
    if t: "screen_ok t \<and> inp t = inp ?s \<and> cons_frame ?s t" for t :: "'z consst_scheme"
  proof -
    have k: "(c' = 10 \<or> c' = 4 \<or> in_e (inp t) = in_r (inp t) + of_nat INPUT_BUF) = ?k" using t full by simp
    have pl: "PtableLock \<notin> held t" using t s(3) by (simp add: cons_frame_def)
    show ?thesis unfolding wp_bind wp_get k
      using t ch step pl by (cases ?k) (auto simp: wp wpk_def wakeup_run run edits_def lines_def screen_ok_def cons_frame_def intro: roused_trans)
  qed
  have "wpk (consputc c') (\<lambda>_ t. screen_ok t \<and> inp t = inp ?s \<and> cons_frame ?s t) ?s" using s(1) by (intro wp_consputc) simp
  then have "wpk (consputc c') (\<lambda>_. wpk ?fin (\<lambda>_ u. edits s [c] u)) ?s" by (rule wpk_mono) (rule fin)
  then show ?thesis using True c(2) by (simp add: consoleintr1_def wp wpk_ret word_lt_INPUT_BUF flip: c'_def)
qed

lemma wp_consoleintr1:
  fixes s :: "'z consst_scheme"
  assumes s: "screen_ok s" "input_ok (inp s)" "PtableLock \<notin> held s" and c: "c < 256"
  shows "wpk (consoleintr1 c d) (\<lambda>d' t. d' = (d \<or> c = 0x10) \<and> edits s [c] t) s"
proof -
  let ?I = "inp s"
  consider "c = 0x10" | "c = 0x15" | "c = 8 \<or> c = 0x7f" "editing ?I = []" | "c = 8 \<or> c = 0x7f" "editing ?I \<noteq> []"
    | "c \<notin> {0x10, 0x15, 8, 0x7f}" by auto
  then show ?thesis
  proof cases
    case 1
    then show ?thesis using s by (simp add: consoleintr1_def wp edits_def line_step_def lines_def)
  next
    case 2
    have "wpk (kill_line (unat (in_e ?I - in_w ?I))) (\<lambda>_ t. screen_ok t \<and> input_ok (inp t) \<and> ready (inp t) = ready ?I
        \<and> editing (inp t) = [] \<and> cons_frame s t) s"
      using wp_kill_line [OF s(1,2)] by (simp add: length_lines)
    then have "wpk (kill_line (unat (in_e ?I - in_w ?I))) (\<lambda>_ t. edits s [c] t) s"
      by (rule wpk_mono) (use 2 in \<open>auto simp: edits_def lines_def line_step_def\<close>)
    then show ?thesis using 2 by (simp add: consoleintr1_def wp wpk_ret)
  next
    case 3
    then show ?thesis using s by (auto simp: consoleintr1_def wp edits_def line_step_def lines_def editing_empty)
  next
    case 4
    then have ne: "in_e ?I \<noteq> in_w ?I" by (simp add: editing_empty)
    note er = input_erase [OF s(2) ne]
    have "wpk (kseq (upd_inp (\<lambda>I. I\<lparr>in_e := in_e I - 1\<rparr>)) (consputc BACKSPACE)) (\<lambda>_ t. edits s [c] t) s"
      by (rule wpk_mono [OF wp_erase [OF s(1)]]) (use 4 er in \<open>auto simp: edits_def lines_def line_step_def\<close>)
    then show ?thesis using 4 ne by (auto simp: consoleintr1_def wp wpk_ret)
  next
    case 5
    then show ?thesis using wp_consoleintr_char [OF s c 5, of d] by simp
  qed
qed

lemma edits_trans: "edits s [c] t \<Longrightarrow> edits t cs u \<Longrightarrow> edits s (c # cs) u"
  by (auto simp: edits_def intro: cons_frame_trans)

lemma wp_consoleintr_loop:
  fixes s :: "'z consst_scheme"
  assumes "screen_ok s" and "input_ok (inp s)" and "PtableLock \<notin> held s" and "\<forall>c\<in>set cs. c < 256"
  shows "wpk (consoleintr_loop cs d) (\<lambda>d' t. d' = (d \<or> 0x10 \<in> set cs) \<and> edits s cs t) s"
  using assms
proof (induction cs arbitrary: s d)
  case Nil
  then show ?case by (simp add: wp edits_def)
next
  case (Cons c cs)
  have "wpk (consoleintr_loop cs d') (\<lambda>d'' u. d'' = (d \<or> 0x10 \<in> set (c # cs)) \<and> edits s (c # cs) u) t"
    if t: "d' = (d \<or> c = 0x10) \<and> edits s [c] t" for d' and t :: "'z consst_scheme"
  proof -
    have "wpk (consoleintr_loop cs d') (\<lambda>d'' u. d'' = (d' \<or> 0x10 \<in> set cs) \<and> edits t cs u) t"
      using t Cons.prems by (intro Cons.IH) (auto simp: edits_def cons_frame_def)
    then show ?thesis by (rule wpk_mono) (use t in \<open>auto intro: edits_trans\<close>)
  qed
  then show ?case using wp_consoleintr1 [of s c d] Cons.prems by (auto simp: wp elim: wpk_mono)
qed

text \<open>
  C33. The line editor. For any sequence of characters that are not \<^verbatim>\<open>^P\<close>, \<^verbatim>\<open>consoleintr\<close> on the ring buffer
  with its three wrapping counters behaves as the editor on two lists: ordinary characters are appended to the
  line, a carriage return being a newline, backspace removes one and \<^verbatim>\<open>^U\<close> all of the current line and nothing
  of an earlier one; a newline, \<^verbatim>\<open>^D\<close> or a full buffer makes the line readable; a full buffer drops input. It
  does not panic, keeps the buffer and the screen in order, leaves the locks, the current process and the inode cache
  alone, and does nothing to the processes but wake sleepers.
\<close>

theorem console_line_editor:
  fixes s :: "'z consst_scheme"
  assumes "screen_ok s" and "input_ok (inp s)" and "held s = {}" and "\<forall>c\<in>set cs. c < 256 \<and> c \<noteq> 0x10"
  shows "\<exists>t. consoleintr cs s = Ok () t \<and> screen_ok t \<and> input_ok (inp t)
    \<and> (ready (inp t), editing (inp t)) = fold line_step cs (ready (inp s), editing (inp s)) \<and> cons_frame s t"
proof -
  let ?s = "s\<lparr>held := {ConsLock}\<rparr>"
  have "wpk (consoleintr_loop cs False) (\<lambda>d' t. d' = (False \<or> 0x10 \<in> set cs) \<and> edits ?s cs t) ?s"
    using assms by (intro wp_consoleintr_loop) (auto simp: screen_ok_def)
  then obtain d t where "consoleintr_loop cs False ?s = Ok d t" "d = (False \<or> 0x10 \<in> set cs) \<and> edits ?s cs t" by (rule wpkE)
  moreover from this have "\<not> d" using assms(4) by auto
  ultimately show ?thesis
    using assms by (auto simp: consoleintr_def run edits_def lines_def cons_frame_def screen_ok_def)
qed

lemma zero_input_ok: "input_ok zero_input" "ready zero_input = []" "editing zero_input = []"
  by (simp_all add: zero_input_def input_ok_def ready_def editing_def ring_list_def)

text \<open>\<^verbatim>\<open>a\<close>, \<^verbatim>\<open>b\<close>, backspace, carriage return, \<^verbatim>\<open>c\<close>.\<close>

theorem console_line_editor_witness:
  "\<exists>t. consoleintr [97, 98, 8, 13, 99] (demo_console zero_input 0) = Ok () t
     \<and> ready (inp t) = [97, 10] \<and> editing (inp t) = [99]"
proof -
  let ?s = "demo_console zero_input 0"
  have "fold line_step [97, 98, 8, 13, 99] (ready (inp ?s), editing (inp ?s)) = ([97, 10], [99])"
    by (simp add: zero_input_ok line_step_def Let_def INPUT_BUF_def)
  moreover have "screen_ok ?s" by (rule demo_console_ok) simp
  ultimately show ?thesis
    using console_line_editor [of ?s "[97, 98, 8, 13, 99]"] zero_input_ok by auto
qed

section \<open>Reading a line\<close>

lemma ready_empty: "in_r I = in_w I \<longleftrightarrow> ready I = []"
proof -
  have "ready I = [] \<longleftrightarrow> unat (in_w I - in_r I) = 0" using length_lines(1) [of I] by auto
  then show ?thesis by (auto simp: unat_eq_0)
qed

lemma unat_succ: "r \<noteq> w \<Longrightarrow> unat (w - (r + 1) :: uint32) = unat (w - r) - 1"
proof -
  assume "r \<noteq> w"
  then have "w - r \<noteq> 0" by simp
  from unat_minus_one [OF this] show ?thesis by (simp add: algebra_simps)
qed

lemma input_advance:
  assumes "input_ok I" and "ready I \<noteq> []"
  shows "input_ok (in_advance I)" and "ready I = in_front I # ready (in_advance I)" and "editing (in_advance I) = editing I"
proof -
  have ne: "in_r I \<noteq> in_w I" using assms(2) by (simp add: ready_empty)
  have len: "length (in_buf I) = INPUT_BUF" using assms(1) by (simp add: input_ok_def)
  show ed: "editing (in_advance I) = editing I" by (simp add: editing_def in_advance_def)
  show "ready I = in_front I # ready (in_advance I)"
    using ring_get [OF ne, of "in_buf I"] len by (simp add: ready_def in_front_def in_advance_def)
  have pos: "0 < unat (in_w I - in_r I)" using ne by (auto simp: unat_gt_0)
  then have "unat (in_e I - in_r I) \<noteq> 0" using assms(1) by (auto simp: input_ok_def)
  then have er: "in_r I \<noteq> in_e I" by auto
  show "input_ok (in_advance I)"
    using assms(1) ed unat_succ [OF ne] unat_succ [OF er] pos by (auto simp: input_ok_def in_advance_def)
qed

lemma consoleread_loop_line:
  fixes s :: "'z consst_scheme"
  assumes "input_ok (inp s)" and "ready (inp s) = l @ 10 # rest" and "set l \<inter> {4, 10} = {}" and "length l < k"
  shows "\<exists>I. consoleread_loop ip target k acc s =
      consoleread_end ip (target - of_nat (k - Suc (length l))) (acc @ l @ [10]) (s\<lparr>inp := I\<rparr>)
      \<and> input_ok I \<and> ready I = rest \<and> editing I = editing (inp s)"
  using assms
proof (induction l arbitrary: k acc s)
  case Nil
  then obtain k' where k: "k = Suc k'" by (cases k) auto
  have "ready (inp s) \<noteq> []" using Nil by simp
  note adv = input_advance [OF Nil.prems(1) this]
  show ?case using Nil.prems adv k by (auto simp: run ready_empty)
next
  case (Cons c l)
  then obtain k' where k: "k = Suc k'" by (cases k) auto
  have "ready (inp s) \<noteq> []" using Cons.prems by simp
  note adv = input_advance [OF Cons.prems(1) this]
  let ?s = "s\<lparr>inp := in_advance (inp s)\<rparr>"
  have "c = in_front (inp s)" "ready (in_advance (inp s)) = l @ 10 # rest" using adv(2) Cons.prems(2) by simp_all
  moreover have "\<exists>I. consoleread_loop ip target k' (acc @ [c]) ?s =
      consoleread_end ip (target - of_nat (k' - Suc (length l))) ((acc @ [c]) @ l @ [10]) (?s\<lparr>inp := I\<rparr>)
      \<and> input_ok I \<and> ready I = rest \<and> editing I = editing (inp ?s)"
    using Cons.prems adv calculation k by (intro Cons.IH) auto
  ultimately show ?case using Cons.prems adv k by (auto simp: run ready_empty)
qed

text \<open>An inode that is in memory is unlocked and locked again without reading the disk.\<close>

lemma iunlock_run:
  fixes s :: "'z fsst_scheme"
  assumes "cur s = Some q" and "held s = {}" and "sl_mine (InodeSL i) s" and "\<not> i_ref (icache s ! i) <s 1"
  shows "iunlock (Some i) s = Ok () (sl_give (InodeSL i) s)"
  using assms by (simp add: iunlock_def get_inode_def run holdingsleep_run releasesleep_run)

lemma ilock_run:
  fixes s :: "'z fsst_scheme"
  assumes "cur s = Some q" and "held s = {}" and "\<not> sl_locked (slks s (InodeSL i))" and "\<not> i_ref (icache s ! i) <s 1" and "i_valid (icache s ! i)"
  shows "ilock (Some i) s = Ok () (sl_take (InodeSL i) s)"
  using assms by (simp add: ilock_def get_inode_def run acquiresleep_run sl_take_def)

lemma consoleread_end_run:
  fixes s :: "'z consst_scheme"
  assumes "cur s = Some q" and "held s = {ConsLock}" and "\<not> sl_locked (slks s (InodeSL i))" and "\<not> i_ref (icache s ! i) <s 1" and "i_valid (icache s ! i)"
  shows "consoleread_end i r acc s = Ok (r, acc) (sl_take (InodeSL i) (s\<lparr>held := {}\<rparr>))"
  using assms ilock_run [of "s\<lparr>held := {}\<rparr>" q i] by (simp add: consoleread_end_def run)

lemma sl_inp [simp]:
  "inp (sl_take l s) = inp s" "inp (sl_give l s) = inp s" "icache (sl_give l t) = icache t" "icache (sl_take l t) = icache t"
  by (simp_all add: sl_take_def sl_give_def)

text \<open>
  C34. Reading the console. A read of \<open>n > 0\<close> bytes returns the first line with its newline, if it is complete and
  not longer than \<open>n\<close>, removes it from the buffer and leaves what follows; a line that is just \<^verbatim>\<open>^D\<close> is an end of
  file, 0 bytes. When nothing can be read, a killed process gets -1 and any other sleeps, with the lock of the
  device file and the lock of the console given up.
\<close>

theorem consoleread_line:
  fixes s :: "'z consst_scheme"
  assumes "held s = {}" and "cur s = Some q" and "q < length (procs s)" and "sl_mine (InodeSL i) s"
    and "\<not> i_ref (icache s ! i) <s 1" and "i_valid (icache s ! i)" and "input_ok (inp s)" and "0 <s n"
  shows "(\<forall>l rest. ready (inp s) = l @ 10 # rest \<longrightarrow> set l \<inter> {4, 10} = {} \<longrightarrow> length l < cnt n \<longrightarrow>
        (\<exists>t. consoleread i n s = Ok (of_nat (Suc (length l)), l @ [10]) t \<and> input_ok (inp t)
          \<and> ready (inp t) = rest \<and> editing (inp t) = editing (inp s) \<and> sl_mine (InodeSL i) t \<and> held t = {}))
    \<and> (\<forall>rest. ready (inp s) = 4 # rest \<longrightarrow>
        (\<exists>t. consoleread i n s = Ok (0, []) t \<and> ready (inp t) = rest \<and> sl_mine (InodeSL i) t \<and> held t = {}))
    \<and> (ready (inp s) = [] \<longrightarrow>
        (if p_killed (procs s ! q) then \<exists>t. consoleread i n s = Ok (- 1, []) t \<and> inp t = inp s
         else \<exists>t. consoleread i n s = Swtch t \<and> inp t = inp s \<and> p_state (procs t ! q) = SLEEPING
           \<and> p_chan (procs t ! q) = Some ChanInput \<and> \<not> sl_locked (slks t (InodeSL i)) \<and> held t = {PtableLock}))"
proof -
  let ?u = "(sl_give (InodeSL i) s)\<lparr>held := {ConsLock}\<rparr>"
  have n: "\<not> n \<le>s 0" and cn: "of_nat (cnt n) = n" and pos: "0 < cnt n"
    using assms(8) by (auto simp: word_sless_alt word_sle_eq cnt_def unat_gt_0)
  have start: "consoleread i n s = consoleread_loop i n (cnt n) [] ?u"
    using iunlock_run [OF assms(2,1,4,5)] n assms(1) by (simp add: consoleread_def run)
  have fin: "consoleread_end i r acc (?u\<lparr>inp := I\<rparr>) = Ok (r, acc) (sl_take (InodeSL i) ((sl_give (InodeSL i) s)\<lparr>inp := I, held := {}\<rparr>))" for r acc I
    using assms consoleread_end_run [of "?u\<lparr>inp := I\<rparr>" q i r acc] by (simp add: sl_give_def)
  have "\<exists>t. consoleread i n s = Ok (of_nat (Suc (length l)), l @ [10]) t \<and> input_ok (inp t)
      \<and> ready (inp t) = rest \<and> editing (inp t) = editing (inp s) \<and> sl_mine (InodeSL i) t \<and> held t = {}"
    if l: "ready (inp s) = l @ 10 # rest" "set l \<inter> {4, 10} = {}" "length l < cnt n" for l rest
  proof -
    have inu: "input_ok (inp ?u)" "ready (inp ?u) = l @ 10 # rest" using assms(7) l(1) by simp_all
    have r: "n - of_nat (cnt n - Suc (length l)) = of_nat (Suc (length l))"
      using l(3) cn by (simp add: of_nat_diff del: of_nat_Suc)
    from consoleread_loop_line [OF inu l(2,3), of i n "[]"] show ?thesis using fin by (auto simp: start r)
  qed
  moreover have "\<exists>t. consoleread i n s = Ok (0, []) t \<and> ready (inp t) = rest \<and> sl_mine (InodeSL i) t \<and> held t = {}"
    if l: "ready (inp s) = 4 # rest" for rest
  proof -
    obtain k where k: "cnt n = Suc k" using pos by (cases "cnt n") auto
    have "ready (inp s) \<noteq> []" using l by simp
    note adv = input_advance [OF assms(7) this]
    have nk: "1 + of_nat k = n" using cn k by simp
    have "in_front (inp s) = 4" "ready (in_advance (inp s)) = rest" using adv(2) l by simp_all
    then show ?thesis using l fin [of 0 "[]" "in_advance (inp s)"]
      by (simp add: start k nk run ready_empty)
  qed
  moreover have "if p_killed (procs s ! q) then \<exists>t. consoleread i n s = Ok (- 1, []) t \<and> inp t = inp s
      else \<exists>t. consoleread i n s = Swtch t \<and> inp t = inp s \<and> p_state (procs t ! q) = SLEEPING
        \<and> p_chan (procs t ! q) = Some ChanInput \<and> \<not> sl_locked (slks t (InodeSL i)) \<and> held t = {PtableLock}"
    if l: "ready (inp s) = []"
  proof -
    obtain k where k: "cnt n = Suc k" using pos by (cases "cnt n") auto
    have same: "?u\<lparr>inp := inp s\<rparr> = ?u" by (simp add: sl_give_def)
    have kq: "p_killed (woken ch (procs s) ! q) = p_killed (procs s ! q)" for ch using assms(3) by (simp add: woken_nth)
    show ?thesis
      using l assms(2,3) fin [of "- 1" "[]" "inp s", unfolded same]
      by (simp add: start k run ready_empty kq sleep_away_run [of ?u q])
  qed
  ultimately show ?thesis by blast
qed

theorem consoleread_line_witness:
  "\<exists>t. consoleread 0 100 (demo_console (zero_input\<lparr>in_buf := [104, 105, 10] @ replicate 125 0, in_w := 3, in_e := 3\<rparr>) 0
       \<lparr>icache := [zero_inode\<lparr>i_ref := 1, i_valid := True\<rparr>],
        slks := (\<lambda>_. \<lparr>sl_locked = True, sl_name = [], sl_pid = p_pid (procs (demo_console zero_input 0) ! 0)\<rparr>)\<rparr>) = Ok (3, [104, 105, 10]) t
     \<and> ready (inp t) = []"
proof -
  let ?I = "zero_input\<lparr>in_buf := [104, 105, 10] @ replicate 125 0, in_w := 3, in_e := 3\<rparr>"
  let ?s = "demo_console ?I 0\<lparr>icache := [zero_inode\<lparr>i_ref := 1, i_valid := True\<rparr>],
        slks := (\<lambda>_. \<lparr>sl_locked = True, sl_name = [], sl_pid = p_pid (procs (demo_console zero_input 0) ! 0)\<rparr>)\<rparr>"
  have rd: "ready ?I = [104, 105] @ 10 # []" by (simp add: ready_def ring_list_def zero_input_def INPUT_BUF_def upt_rec)
  have ok: "input_ok ?I" by (simp add: input_ok_def editing_def ring_list_def zero_input_def INPUT_BUF_def)
  have "sl_mine (InodeSL 0) ?s" by (simp add: sl_mine_def) (simp add: demo_console_def filest.extend_def)
  moreover have "cnt 100 = 100" by (simp add: cnt_def word_sless_alt)
  ultimately show ?thesis
    using conjunct1 [OF consoleread_line [of ?s 0 0 100], THEN spec [of _ "[104, 105]"], THEN spec [of _ "[]"]] ok rd by (auto simp: zero_inode_def word_sless_alt)
qed

section \<open>Printing changes only the screen and the serial line\<close>

definition quiet :: "'z consst_scheme \<Rightarrow> 'z consst_scheme \<Rightarrow> bool" where
  "quiet s t \<longleftrightarrow> screen_ok t \<and> (\<exists>out cells cu. t = s\<lparr>serial := out, crt := cells, cursor := cu\<rparr>)"

lemma quiet_refl: "screen_ok s \<Longrightarrow> quiet s s"
  unfolding quiet_def by (intro conjI exI [of _ "serial s"] exI [of _ "crt s"] exI [of _ "cursor s"]) simp_all

lemma quiet_trans: "quiet s t \<Longrightarrow> quiet t u \<Longrightarrow> quiet s u"
  unfolding quiet_def by (elim conjE exE) (simp, blast)

lemma quiet_fields:
  assumes "quiet s t"
  shows "screen_ok t" "held t = held s" "cur t = cur s" "procs t = procs s" "physmem t = physmem s" "cr3 t = cr3 s"
  using assms by (auto simp: quiet_def)

lemma wp_cprintf:
  fixes s :: "'z consst_scheme"
  assumes "screen_ok s" and "ConsLock \<notin> held s" and "cprintf_out f as \<noteq> None"
  shows "wpk (cprintf (Some f) as) (\<lambda>_. quiet s) s"
proof -
  obtain out where out: "cprintf_out f as = Some out" using assms(3) by auto
  have for1: "wpk (kfor out (\<lambda>c. consputc (ucast c))) (\<lambda>_. quiet u) u" if "screen_ok u" for u :: "'z consst_scheme"
  proof (rule wp_for [where I = "\<lambda>_. quiet u"])
    fix c :: uchar and t :: "'z consst_scheme"
    assume t: "quiet u t"
    from consputc_run [OF quiet_fields(1) [OF this], of "ucast c"] obtain v cells cu where
      v: "consputc (ucast c) t = Ok () v" "screen_ok v" "v = t\<lparr>serial := serial v, crt := cells, cursor := cu\<rparr>" by metis
    have "quiet t v" unfolding quiet_def using v(2,3) by blast
    then show "wpk (consputc (ucast c)) (\<lambda>_. quiet u) t" using v(1) quiet_trans [OF t] by (auto intro: wpkI)
  qed (rule quiet_refl [OF that])
  have rel: "wpk (release ConsLock) (\<lambda>_. quiet s) t" if "quiet (s\<lparr>held := insert ConsLock (held s)\<rparr>) t" for t
  proof -
    from that obtain out cells cu where t: "screen_ok t" "t = s\<lparr>held := insert ConsLock (held s), serial := out, crt := cells, cursor := cu\<rparr>"
      by (auto simp: quiet_def)
    have "release ConsLock t = Ok () (s\<lparr>serial := out, crt := cells, cursor := cu\<rparr>)" using assms(2) by (simp add: t(2) run)
    moreover have "screen_ok (s\<lparr>serial := out, crt := cells, cursor := cu\<rparr>)" using t by (simp add: screen_ok_def)
    ultimately show ?thesis unfolding quiet_def by (intro wpkI) (assumption, blast)
  qed
  have so: "screen_ok (s\<lparr>held := insert ConsLock (held s)\<rparr>)" using assms(1) by (simp add: screen_ok_def)
  have "wpk (kseq (kfor out (\<lambda>c. consputc (ucast c))) (release ConsLock)) (\<lambda>_. quiet s) (s\<lparr>held := insert ConsLock (held s)\<rparr>)"
    unfolding wpk_seq by (rule wpk_mono [OF for1 [OF so]]) (rule rel)
  then obtain t where t: "kseq (kfor out (\<lambda>c. consputc (ucast c))) (release ConsLock) (s\<lparr>held := insert ConsLock (held s)\<rparr>) = Ok () t" "quiet s t"
    by (rule wpkE) simp
  obtain u where u: "kfor out (\<lambda>c. consputc (ucast c)) s = Ok () u" "quiet s u"
    using for1 [OF assms(1)] by (rule wpkE) simp
  show ?thesis
  proof (cases "cons_locking s")
    case True
    then have "cprintf (Some f) as s = Ok () t" using t(1) assms(2) by (simp add: cprintf_def out run kwhen_def)
    then show ?thesis using t(2) by (rule wpkI)
  next
    case False
    then have "cprintf (Some f) as s = Ok () u" using u(1) by (simp add: cprintf_def out run kwhen_def)
    then show ?thesis using u(2) by (rule wpkI)
  qed
qed

lemma cprintf_run:
  fixes s :: "'z consst_scheme"
  assumes "screen_ok s" and "ConsLock \<notin> held s" and "cprintf_out f as \<noteq> None"
  obtains t where "cprintf (Some f) as s = Ok () t" and "quiet s t"
  using wp_cprintf [OF assms] by (auto simp: wpk_def split: outcome.splits)

end
