(* ===== verification/Kbd.thy ===== *)
theory Kbd
  imports Console
begin

text \<open>
  The keyboard (\<^verbatim>\<open>kbd.c\<close>, \<^verbatim>\<open>kbd.h\<close>): scan codes are translated to characters by tables, with the state of the
  modifier keys, and go to the line editor of the console. The serial port (\<^verbatim>\<open>uart.c\<close>) is a second source.
\<close>

section \<open>\<^verbatim>\<open>kbd.h\<close>\<close>

definition KBS_DIB :: uchar where "KBS_DIB = 0x01"
definition SHIFT :: uint32 where "SHIFT = 1"
definition CTL :: uint32 where "CTL = 2"
definition ALT :: uint32 where "ALT = 4"
definition CAPSLOCK :: uint32 where "CAPSLOCK = 8"
definition NUMLOCK :: uint32 where "NUMLOCK = 16"
definition SCROLLLOCK :: uint32 where "SCROLLLOCK = 32"
definition E0ESC :: uint32 where "E0ESC = 64"

text \<open>An array of 256 bytes with an initialiser: the first elements in order, then designated ones.\<close>

definition bytetab :: "uchar list \<Rightarrow> (nat \<times> uchar) list \<Rightarrow> uchar list" where
  "bytetab pre des = fold (\<lambda>(i, c) t. t[i := c]) des (pre @ replicate (256 - length pre) 0)"

definition shiftcode :: "uchar list" where
  "shiftcode = bytetab [] [(0x1D, ucast CTL), (0x2A, ucast SHIFT), (0x36, ucast SHIFT), (0x38, ucast ALT),
     (0x9D, ucast CTL), (0xB8, ucast ALT)]"

definition togglecode :: "uchar list" where
  "togglecode = bytetab [] [(0x3A, ucast CAPSLOCK), (0x45, ucast NUMLOCK), (0x46, ucast SCROLLLOCK)]"

text \<open>The keys of the extended set other than Enter and the division sign, the same in all three maps.\<close>

definition special_keys :: "(nat \<times> uchar) list" where
  "special_keys = [(0xC8, 0xE2), (0xD0, 0xE3), (0xC9, 0xE6), (0xD1, 0xE7), (0xCB, 0xE4), (0xCD, 0xE5),
     (0x97, 0xE0), (0xCF, 0xE1), (0xD2, 0xE8), (0xD3, 0xE9)]"

definition normalmap :: "uchar list" where
  "normalmap = bytetab
     ([0, 0x1B] @ bytes ''123456'' @
      bytes ''7890-='' @ [8, 9] @
      bytes ''qwertyui'' @
      bytes ''op[]'' @ [10, 0] @ bytes ''as'' @
      bytes ''dfghjkl;'' @
      [39, 96, 0, 92] @ bytes ''zxcv'' @
      bytes ''bnm,./'' @ [0] @ bytes ''*'' @
      [0] @ bytes '' '' @ replicate 6 0 @
      replicate 7 0 @ bytes ''7'' @
      bytes ''89-456+1'' @
      bytes ''230.'' @ replicate 4 0)
     ([(0x9C, 10), (0xB5, 47)] @ special_keys)"

definition shiftmap :: "uchar list" where
  "shiftmap = bytetab
     ([0, 0x1B] @ bytes ''!@#$%^'' @
      bytes ''&*()_+'' @ [8, 9] @
      bytes ''QWERTYUI'' @
      bytes ''OP{}'' @ [10, 0] @ bytes ''AS'' @
      bytes ''DFGHJKL:'' @
      [34, 126, 0, 124] @ bytes ''ZXCV'' @
      bytes ''BNM<>?'' @ [0] @ bytes ''*'' @
      [0] @ bytes '' '' @ replicate 6 0 @
      replicate 7 0 @ bytes ''7'' @
      bytes ''89-456+1'' @
      bytes ''230.'' @ replicate 4 0)
     ([(0x9C, 10), (0xB5, 47)] @ special_keys)"

text \<open>\<^verbatim>\<open>C(x)\<close> for the characters of a string.\<close>

definition ctl :: "string \<Rightarrow> uchar list" where
  "ctl cs = map (\<lambda>c. of_char c - 64) cs"

definition ctlmap :: "uchar list" where
  "ctlmap = bytetab
     (replicate 8 0 @
      replicate 8 0 @
      ctl ''QWERTYUI'' @
      ctl ''OP'' @ [0, 0, 13, 0] @ ctl ''AS'' @
      ctl ''DFGHJKL'' @ [0] @
      [0, 0, 0, 28] @ ctl ''ZXCV'' @
      ctl ''BNM'' @ [0, 0] @ ctl ''/'' @ [0, 0])
     ([(0x9C, 13)] @ [(0xB5, 47 - 64)] @ special_keys)"

section \<open>\<^verbatim>\<open>kbd.c\<close>\<close>

definition charcode :: "uint32 \<Rightarrow> uchar list" where
  "charcode i = [normalmap, shiftmap, ctlmap, ctlmap] ! unat i"

text \<open>The letters change case under the caps lock.\<close>

definition capslock :: "uint32 \<Rightarrow> uint32" where
  "capslock c = (if 97 \<le> c \<and> c \<le> 122 then c + (65 - 97) else if 65 \<le> c \<and> c \<le> 90 then c + (97 - 65) else c)"

text \<open>\<open>st\<close> and \<open>data\<close> are what the two ports deliver; the value is the result and the new state of the modifiers.\<close>

definition kbdgetc :: "uchar \<Rightarrow> uchar \<Rightarrow> uint32 \<Rightarrow> sint32 \<times> uint32" where
  "kbdgetc st data shift =
     (if st AND KBS_DIB = 0 then (- 1, shift)
      else if data = 0xE0 then (0, shift OR E0ESC)
      else if data AND 0x80 \<noteq> 0 then
        (let data = (if shift AND E0ESC \<noteq> 0 then data else data AND 0x7F)
         in (0, shift AND NOT (ucast (shiftcode ! unat data) OR E0ESC)))
      else
        (let (data, shift) = (if shift AND E0ESC \<noteq> 0 then (data OR 0x80, shift AND NOT E0ESC) else (data, shift));
             shift = shift OR ucast (shiftcode ! unat data);
             shift = shift XOR ucast (togglecode ! unat data);
             c = ucast (charcode (shift AND (CTL OR SHIFT)) ! unat data)
         in (if shift AND CAPSLOCK \<noteq> 0 then capslock c else c, shift)))"

record kbdst = consst +
  kbd_shift :: uint32

text \<open>The calls of \<^verbatim>\<open>kbdgetc\<close> while the controller has the scan codes \<open>ds\<close>.\<close>

primrec kbd_codes :: "uchar list \<Rightarrow> uint32 \<Rightarrow> sint32 list \<times> uint32" where
  "kbd_codes [] shift = ([], shift)"
| "kbd_codes (d # ds) shift =
     (let (c, shift) = kbdgetc KBS_DIB d shift; (cs, shift) = kbd_codes ds shift in (c # cs, shift))"

definition kbdintr :: "uchar list \<Rightarrow> ('z kbdst_scheme, unit) kop" where
  "kbdintr ds =
     kbind (kget (\<lambda>s. kbd_codes ds (kbd_shift s))) (\<lambda>(cs, shift).
     kseq (kmod (\<lambda>s. s\<lparr>kbd_shift := shift\<rparr>))
          (consoleintr cs))"

section \<open>\<^verbatim>\<open>uart.c\<close>\<close>

text \<open>The line status says for each byte whether there is one; without a port there is none.\<close>

definition uartgetc :: "bool \<Rightarrow> uchar \<Rightarrow> uchar \<Rightarrow> sint32" where
  "uartgetc there status data =
     (if \<not> there then - 1 else if status AND 0x01 = 0 then - 1 else ucast data)"

definition uartintr :: "uchar list \<Rightarrow> ('z consst_scheme, unit) kop" where
  "uartintr ds =
     kbind (kget uart) (\<lambda>u.
     consoleintr (takeWhile (\<lambda>c. 0 \<le>s c) (map (uartgetc u 0x01) ds)))"

section \<open>What the keyboard delivers\<close>

text \<open>The state of the modifier keys, and the keys that change it: those that are held down and those that toggle.\<close>

record modifiers =
  m_shift :: bool
  m_ctl :: bool
  m_alt :: bool
  m_caps :: bool
  m_num :: bool
  m_scroll :: bool
  m_esc :: bool

definition kabs :: "uint32 \<Rightarrow> modifiers" where
  "kabs x = \<lparr>m_shift = bit x 0, m_ctl = bit x 1, m_alt = bit x 2, m_caps = bit x 3, m_num = bit x 4, m_scroll = bit x 5, m_esc = bit x 6\<rparr>"

definition hold :: "nat \<Rightarrow> bool \<Rightarrow> modifiers \<Rightarrow> modifiers" where
  "hold key down K =
     (if key \<in> {0x2A, 0x36} then K\<lparr>m_shift := down\<rparr>
      else if key \<in> {0x1D, 0x9D} then K\<lparr>m_ctl := down\<rparr>
      else if key \<in> {0x38, 0xB8} then K\<lparr>m_alt := down\<rparr>
      else K)"

definition toggle :: "nat \<Rightarrow> modifiers \<Rightarrow> modifiers" where
  "toggle key K =
     (if key = 0x3A then K\<lparr>m_caps := \<not> m_caps K\<rparr>
      else if key = 0x45 then K\<lparr>m_num := \<not> m_num K\<rparr>
      else if key = 0x46 then K\<lparr>m_scroll := \<not> m_scroll K\<rparr>
      else K)"

definition swap_case :: "nat \<Rightarrow> nat" where
  "swap_case c = (if 97 \<le> c \<and> c \<le> 122 then c - 32 else if 65 \<le> c \<and> c \<le> 90 then c + 32 else c)"

definition key_char :: "nat \<Rightarrow> modifiers \<Rightarrow> nat" where
  "key_char key K =
     (let c = unat ((if m_ctl K then ctlmap else if m_shift K then shiftmap else normalmap) ! key)
      in if m_caps K then swap_case c else c)"

text \<open>A code from the controller: the escape code, a key let go, or a key pressed. Escaped keys have numbers from 128 on.\<close>

definition key_event :: "nat \<Rightarrow> modifiers \<Rightarrow> nat \<times> modifiers" where
  "key_event d K =
     (if d = 0xE0 then (0, K\<lparr>m_esc := True\<rparr>)
      else if 128 \<le> d then (0, (hold (if m_esc K then d else d - 128) False K)\<lparr>m_esc := False\<rparr>)
      else
        (let key = (if m_esc K then d + 128 else d);
             K = toggle key ((hold key True K)\<lparr>m_esc := False\<rparr>)
         in (key_char key K, K)))"

lemma shiftcode_nth: "d < 256 \<Longrightarrow> shiftcode ! d =
  (if d \<in> {0x2A, 0x36} then 1 else if d \<in> {0x1D, 0x9D} then 2 else if d \<in> {0x38, 0xB8} then 4 else 0)"
  by (simp add: shiftcode_def bytetab_def nth_list_update SHIFT_def CTL_def ALT_def)

lemma togglecode_nth: "d < 256 \<Longrightarrow> togglecode ! d = (if d = 0x3A then 8 else if d = 0x45 then 16 else if d = 0x46 then 32 else 0)"
  by (simp add: togglecode_def bytetab_def nth_list_update CAPSLOCK_def NUMLOCK_def SCROLLLOCK_def)

lemma byte_high: "(d :: uchar) AND 0x80 \<noteq> 0 \<longleftrightarrow> 128 \<le> unat d"
proof -
  have "d AND 0x80 \<noteq> 0 \<longleftrightarrow> bit d 7" using bit_iff_and_push_bit_not_eq_0 [of d 7] by simp
  also have "\<dots> \<longleftrightarrow> bit (unat d) 7" by (simp add: bit_unsigned_iff)
  also have "\<dots> \<longleftrightarrow> odd (unat d div 128)" by (simp add: bit_iff_odd)
  also have "\<dots> \<longleftrightarrow> 128 \<le> unat d"
  proof -
    have "unat d < 256" using unsigned_less [of d, where ?'a = nat] by simp
    then have "unat d div 128 = (if 128 \<le> unat d then 1 else 0)" by (auto simp: div_nat_eqI)
    then show ?thesis by simp
  qed
  finally show ?thesis .
qed

lemma byte_low: "unat ((d :: uchar) AND 0x7F) = unat d mod 128"
proof -
  have "d AND 0x7F = take_bit 7 d" by (simp add: take_bit_eq_mask mask_eq_exp_minus_1)
  then show ?thesis by (simp add: take_bit_eq_mod unat_mod)
qed

lemma byte_escaped: "unat (d :: uchar) < 128 \<Longrightarrow> unat (d OR 0x80) = unat d + 128"
proof -
  assume d: "unat d < 128"
  have "d AND 0x80 = 0" using d byte_high [of d] by auto
  then have "d OR 0x80 = d + 0x80" by (rule disjunctive_add_eq_or [symmetric])
  then show ?thesis using d by (simp add: unat_word_ariths)
qed

lemma esc_bit: "(x :: uint32) AND E0ESC \<noteq> 0 \<longleftrightarrow> bit x 6" "x AND CAPSLOCK \<noteq> 0 \<longleftrightarrow> bit x 3"
  using bit_iff_and_push_bit_not_eq_0 [of x 6] bit_iff_and_push_bit_not_eq_0 [of x 3] by (simp_all add: E0ESC_def CAPSLOCK_def)

lemma map_index: "(x :: uint32) AND (CTL OR SHIFT) = (if bit x 1 then (if bit x 0 then 3 else 2) else if bit x 0 then 1 else 0)"
proof -
  have "x AND (CTL OR SHIFT) = take_bit 2 x" by (simp add: CTL_def SHIFT_def take_bit_eq_mask mask_eq_exp_minus_1)
  also have "\<dots> = (if bit x 1 then (if bit x 0 then 3 else 2) else if bit x 0 then 1 else 0)"
    by (simp add: numeral_2_eq_2 take_bit_Suc bit_Suc bit_0 odd_iff_mod_2_eq_one even_iff_mod_2_eq_zero)
  finally show ?thesis .
qed

lemma kabs_let_go:
  assumes "k < 256"
  shows "kabs (x AND NOT (ucast (shiftcode ! k) OR E0ESC)) = (hold k False (kabs x))\<lparr>m_esc := False\<rparr>"
  using assms by (auto simp: shiftcode_nth kabs_def hold_def E0ESC_def bit_simps)

lemma kabs_unesc: "kabs (x AND NOT E0ESC) = (kabs x)\<lparr>m_esc := False\<rparr>"
  by (auto simp: kabs_def E0ESC_def bit_simps)

lemma kabs_press:
  assumes "k < 256"
  shows "kabs ((x OR ucast (shiftcode ! k)) XOR ucast (togglecode ! k)) = toggle k (hold k True (kabs x))"
  using assms by (auto simp: shiftcode_nth togglecode_nth kabs_def hold_def toggle_def bit_simps)

lemma hold_esc: "hold k b (K\<lparr>m_esc := e\<rparr>) = (hold k b K)\<lparr>m_esc := e\<rparr>"
  by (simp add: hold_def)

lemma unat_caps: "unat (if bit x 3 then capslock (ucast (b :: uchar)) else ucast b) = (if m_caps (kabs x) then swap_case (unat b) else unat b)"
proof -
  have l: "unat b < 256" using unsigned_less [of b, where ?'a = nat] by simp
  then have u: "unat (ucast b :: uint32) = unat b" by (simp add: unsigned_ucast_eq take_bit_nat_eq_self)
  have "97 \<le> unat b \<Longrightarrow> unat (ucast b - 32 :: uint32) = unat b - 32" using unat_sub [of 32 "ucast b :: uint32"] by (simp add: word_le_nat_alt u)
  then show ?thesis using l u by (auto simp: kabs_def capslock_def swap_case_def word_le_nat_alt unat_word_ariths)
qed

lemma charcode_key: "charcode (x AND (CTL OR SHIFT)) = (if m_ctl (kabs x) then ctlmap else if m_shift (kabs x) then shiftmap else normalmap)"
  by (simp add: charcode_def map_index kabs_def)

lemma kbdgetc_event:
  assumes "st AND KBS_DIB \<noteq> 0"
  shows "unat (fst (kbdgetc st data shift)) = fst (key_event (unat data) (kabs shift))"
    and "kabs (snd (kbdgetc st data shift)) = snd (key_event (unat data) (kabs shift))"
proof -
  have d: "unat data < 256" using unsigned_less [of data, where ?'a = nat] by simp
  have e0: "data = 0xE0 \<longleftrightarrow> unat data = 0xE0" by (simp add: word_unat_eq_iff)
  have esc: "m_esc (kabs shift) = bit shift 6" by (simp add: kabs_def)
  consider (esc) "unat data = 0xE0" | (up) "unat data \<noteq> 0xE0" "128 \<le> unat data" | (down) "unat data < 128" by linarith
  then have "unat (fst (kbdgetc st data shift)) = fst (key_event (unat data) (kabs shift)) \<and>
    kabs (snd (kbdgetc st data shift)) = snd (key_event (unat data) (kabs shift))"
  proof cases
    case esc
    then show ?thesis using assms e0 by (auto simp: kbdgetc_def key_event_def kabs_def E0ESC_def bit_simps)
  next
    case up
    have "unat data mod 128 = unat data - 128" using up(2) d by (simp add: mod_if)
    then show ?thesis using up assms e0 d kabs_let_go
      by (auto simp: kbdgetc_def key_event_def byte_high esc_bit byte_low esc Let_def)
  next
    case down
    let ?d = "if bit shift 6 then data OR 0x80 else data" and ?s = "if bit shift 6 then shift AND NOT E0ESC else shift"
    let ?k = "if bit shift 6 then unat data + 128 else unat data"
    have k: "unat ?d = ?k" "?k < 256" using byte_escaped [OF down] down by auto
    have s: "kabs ?s = (kabs shift)\<lparr>m_esc := False\<rparr>"
      using kabs_unesc [of shift] by (auto simp: kabs_def)
    let ?x = "(?s OR ucast (shiftcode ! ?k)) XOR ucast (togglecode ! ?k)"
    have x: "kabs ?x = toggle ?k ((hold ?k True (kabs shift))\<lparr>m_esc := False\<rparr>)"
      using kabs_press [OF k(2), of ?s] by (simp only: s hold_esc)
    have "kbdgetc st data shift =
        (if bit ?x 3 then capslock (ucast (charcode (?x AND (CTL OR SHIFT)) ! ?k)) else ucast (charcode (?x AND (CTL OR SHIFT)) ! ?k), ?x)"
      using assms down e0 byte_escaped [OF down] by (cases "bit shift 6") (simp_all add: kbdgetc_def byte_high esc_bit Let_def not_le)
    moreover have "key_event (unat data) (kabs shift) = (key_char ?k (kabs ?x), kabs ?x)"
      unfolding x using down by (simp add: key_event_def esc Let_def)
    ultimately show ?thesis by (simp only: fst_conv snd_conv unat_caps charcode_key key_char_def Let_def)
  qed
  then show "unat (fst (kbdgetc st data shift)) = fst (key_event (unat data) (kabs shift))"
    "kabs (snd (kbdgetc st data shift)) = snd (key_event (unat data) (kabs shift))" by simp_all
qed

text \<open>The keys of the letters and what the tables have for them.\<close>

definition letter_keys :: "(nat \<times> char) list" where
  "letter_keys = zip [0x10, 0x11, 0x12, 0x13, 0x14, 0x15, 0x16, 0x17, 0x18, 0x19, 0x1E, 0x1F, 0x20, 0x21, 0x22, 0x23, 0x24,
     0x25, 0x26, 0x2C, 0x2D, 0x2E, 0x2F, 0x30, 0x31, 0x32] ''qwertyuiopasdfghjklzxcvbnm''"

lemma bytetab_nth: "k < length pre \<Longrightarrow> length pre \<le> 256 \<Longrightarrow> k \<notin> fst ` set des \<Longrightarrow> bytetab pre des ! k = pre ! k"
proof -
  assume k: "k < length pre" "length pre \<le> 256" "k \<notin> fst ` set des"
  have "k < length xs \<Longrightarrow> fold (\<lambda>(i, c) t. t[i := c]) des xs ! k = xs ! k" for xs :: "uchar list"
    using k(3) by (induction des arbitrary: xs) auto
  then show ?thesis using k(1,2) by (simp add: bytetab_def nth_append)
qed

lemma letter_tables:
  "list_all (\<lambda>(k, c). unat (normalmap ! k) = of_char c \<and> unat (shiftmap ! k) = of_char c - 32 \<and> unat (ctlmap ! k) = of_char c - 96
     \<and> 97 \<le> (of_char c :: nat) \<and> (of_char c :: nat) \<le> 122 \<and> k < 128) letter_keys"
  by (simp add: letter_keys_def normalmap_def shiftmap_def ctlmap_def bytetab_nth special_keys_def bytes_def ctl_def nth_append)

lemma letter_event:
  assumes "(k, c) \<in> set letter_keys" and "\<not> m_esc K"
  shows "fst (key_event k K) = (if m_ctl K then of_char c - 96 else if m_shift K \<noteq> m_caps K then of_char c - 32 else of_char c)"
proof -
  have *: "unat (normalmap ! k) = of_char c" "unat (shiftmap ! k) = of_char c - 32" "unat (ctlmap ! k) = of_char c - 96"
    "97 \<le> (of_char c :: nat)" "(of_char c :: nat) \<le> 122" "k < 128"
    using letter_tables assms(1) by (auto simp: list_all_iff)
  have "k \<notin> {0x2A, 0x36, 0x1D, 0x9D, 0x38, 0xB8, 0x3A, 0x45, 0x46}" using assms(1) by (auto simp: letter_keys_def)
  then have "toggle k ((hold k True K)\<lparr>m_esc := False\<rparr>) = K" using assms(2) by (simp add: toggle_def hold_def)
  then have "fst (key_event k K) = key_char k K" using assms(2) *(6) by (simp add: key_event_def Let_def)
  then show ?thesis using *(1-5) by (auto simp: key_char_def swap_case_def Let_def)
qed

text \<open>
  C37. The keyboard driver follows the events of the keys. Without data from the controller, \<^verbatim>\<open>kbdgetc\<close> returns -1 and changes
  nothing. Otherwise its value and the modifier keys after it are those of \<^const>\<open>key_event\<close>: the escape code is remembered
  for one code; a released key lets its modifier go; a pressed key sets its modifier or toggles its lock and delivers the
  character of the map that shift and control select, with the case swapped under the caps lock. So a key with a letter
  yields the small letter, the capital one if exactly one of shift and caps lock is on, and its control character with
  control.
\<close>

theorem kbdgetc_events:
  "(st AND KBS_DIB = 0 \<longrightarrow> kbdgetc st data shift = (- 1, shift)) \<and>
   (st AND KBS_DIB \<noteq> 0 \<longrightarrow>
      unat (fst (kbdgetc st data shift)) = fst (key_event (unat data) (kabs shift)) \<and>
      kabs (snd (kbdgetc st data shift)) = snd (key_event (unat data) (kabs shift)) \<and>
      (\<forall>c. (unat data, c) \<in> set letter_keys \<longrightarrow> \<not> bit shift 6 \<longrightarrow>
         unat (fst (kbdgetc st data shift)) =
           (if bit shift 1 then of_char c - 96 else if bit shift 0 \<noteq> bit shift 3 then of_char c - 32 else of_char c)))"
proof -
  have "kbdgetc st data shift = (- 1, shift)" if "st AND KBS_DIB = 0" using that by (simp add: kbdgetc_def)
  moreover have "unat (fst (kbdgetc st data shift)) =
      (if bit shift 1 then of_char c - 96 else if bit shift 0 \<noteq> bit shift 3 then of_char c - 32 else of_char c)"
    if "st AND KBS_DIB \<noteq> 0" "(unat data, c) \<in> set letter_keys" "\<not> bit shift 6" for c
    using kbdgetc_event(1) [OF that(1), of data shift] letter_event [OF that(2), of "kabs shift"] that(3) by (simp add: kabs_def)
  ultimately show ?thesis using kbdgetc_event by blast
qed

text \<open>The key of the letter A under the caps lock.\<close>

theorem kbdgetc_events_witness: "unat (fst (kbdgetc 1 0x1E 8)) = 65"
proof -
  have "(unat (0x1E :: uchar), CHR ''a'') \<in> set letter_keys" by (simp add: letter_keys_def)
  moreover have "\<not> bit (8 :: uint32) 6" "\<not> bit (8 :: uint32) 1" "bit (8 :: uint32) 0 \<noteq> bit (8 :: uint32) 3" "(1 :: uchar) AND KBS_DIB \<noteq> 0"
    by (simp_all add: KBS_DIB_def)
  ultimately show ?thesis using kbdgetc_events [of 1 "0x1E" 8] by auto
qed

end
