(* ===== verification/Umem.thy ===== *)
theory Umem
  imports Layout
begin

text \<open>
  User memory as the kernel reaches it: it dereferences user addresses directly, and the processor
  translates them through the page table in \<^verbatim>\<open>%cr3\<close>. A page that is not present, or a store to a page
  that is not writable (the kernel runs with write protection on), is a fault. Also the trap frame as the
  76 bytes it is in memory.
\<close>

section \<open>Loads and stores through the page table\<close>

definition translate :: "bool \<Rightarrow> mem \<Rightarrow> uint32 \<Rightarrow> uint32 \<Rightarrow> uint32 option" where
  "translate wr m pgdir va =
     (let e = pte_of m pgdir va
      in if e AND PTE_P = 0 \<or> wr \<and> e AND PTE_W = 0 then None
         else Some (P2V (PTE_ADDR e) + of_nat (unat va mod 4096)))"

definition uload1 :: "uint32 \<Rightarrow> ('z vmem_scheme, uchar) kop" where
  "uload1 va = (\<lambda>s. case translate False (physmem s) (P2V (cr3 s)) va of
     None \<Rightarrow> Fault ''page fault'' | Some a \<Rightarrow> Ok (physmem s a) s)"

definition ustore1 :: "uint32 \<Rightarrow> uchar \<Rightarrow> ('z vmem_scheme, unit) kop" where
  "ustore1 va b = (\<lambda>s. case translate True (physmem s) (P2V (cr3 s)) va of
     None \<Rightarrow> Fault ''page fault'' | Some a \<Rightarrow> Ok () (s\<lparr>physmem := (physmem s)(a := b)\<rparr>))"

primrec uload :: "nat \<Rightarrow> uint32 \<Rightarrow> ('z vmem_scheme, uchar list) kop" where
  "uload 0 va = kret []"
| "uload (Suc n) va = kbind (uload1 va) (\<lambda>b. kbind (uload n (va + 1)) (\<lambda>bs. kret (b # bs)))"

primrec ustore :: "uchar list \<Rightarrow> uint32 \<Rightarrow> ('z vmem_scheme, unit) kop" where
  "ustore [] va = kret ()"
| "ustore (b # bs) va = kseq (ustore1 va b) (ustore bs (va + 1))"

definition bytes32 :: "uint32 \<Rightarrow> uchar list" where
  "bytes32 w = st32 0 w (replicate 4 0)"

definition uload32 :: "uint32 \<Rightarrow> ('z vmem_scheme, uint32) kop" where
  "uload32 va = kbind (uload 4 va) (\<lambda>bs. kret (ld32 bs 0))"

definition ustore32 :: "uint32 \<Rightarrow> uint32 \<Rightarrow> ('z vmem_scheme, unit) kop" where
  "ustore32 va w = ustore (bytes32 w) va"

section \<open>Inside one page\<close>

definition frame :: "mem \<Rightarrow> uint32 \<Rightarrow> uint32 \<Rightarrow> uint32" where
  "frame m pgdir va = P2V (PTE_ADDR (pte_of m pgdir va))"

text \<open>The page of \<open>va\<close> is present and writable, and its frame holds neither the directory nor the table that lead
  to it.\<close>

definition upage_ok :: "mem \<Rightarrow> uint32 \<Rightarrow> uint32 \<Rightarrow> bool" where
  "upage_ok m pgdir va \<longleftrightarrow> pte_of m pgdir va AND PTE_P \<noteq> 0 \<and> pte_of m pgdir va AND PTE_W \<noteq> 0
     \<and> pgdir mod 4096 = 0 \<and> page_of (frame m pgdir va) \<noteq> page_of pgdir
     \<and> page_of (frame m pgdir va) \<noteq> page_of (tbl m pgdir (pdx va))"

lemma frame_aligned: "P2V (PTE_ADDR e) mod 4096 = 0"
proof -
  have e: "unat (PTE_ADDR e) = unat e div 4096 * 4096"
    using PGROUNDDOWN_unat [of e] by (simp add: PTE_ADDR_def PGROUNDDOWN_def PGSIZE_def)
  have "unat (P2V (PTE_ADDR e)) mod 4096 = (unat (PTE_ADDR e) + 0x80000000) mod 4096"
    by (simp add: P2V_def KERNBASE_def unat_word_ariths mod_mod_cancel)
  also have "\<dots> = 0" unfolding e by (simp add: mod_add_left_eq [symmetric])
  finally show ?thesis by (simp add: unat_mod_4096)
qed

lemma pte_of_page:
  assumes "page_of u = page_of va"
  shows "pte_of m pgdir u = pte_of m pgdir va" "frame m pgdir u = frame m pgdir va" "pdx u = pdx va"
  using assms pdx_ptx_page [of u va] by (simp_all add: pte_of_def frame_def)

lemma page_step:
  assumes "unat va mod 4096 + k < 4096"
  shows "page_of (va + of_nat k) = page_of va" and "unat (va + of_nat k) mod 4096 = unat va mod 4096 + k"
proof -
  have d: "unat va = unat va div 4096 * 4096 + unat va mod 4096" by simp
  have "unat va div 4096 < 1048576" using unat_lt_32 [of va] by (simp add: less_mult_imp_div_less)
  then have "unat va + k < 4294967296" using assms d by linarith
  then have "unat va + k < 2 ^ 32" by simp
  then have u: "unat (va + of_nat k) = unat va + k" by (rule unat_add_of_nat)
  define q r where qr: "q = unat va div 4096" "r = unat va mod 4096"
  have v: "unat va = q * 4096 + r" "unat va + k = q * 4096 + (r + k)" "r + k < 4096" using assms by (simp_all add: qr)
  have w: "(q * 4096 + (r + k)) div 4096 = q" "(q * 4096 + (r + k)) mod 4096 = r + k" using v(3) by simp_all
  show "page_of (va + of_nat k) = page_of va" unfolding page_of_def u v(2) w by (simp only: qr)
  show "unat (va + of_nat k) mod 4096 = unat va mod 4096 + k" unfolding u v(2) w by (simp only: qr)
qed

text \<open>A frame with bytes written at an offset; the tables are not touched.\<close>

definition put_mem :: "uint32 \<Rightarrow> uchar list \<Rightarrow> mem \<Rightarrow> mem" where
  "put_mem a bs m = (\<lambda>x. if unat (x - a) < length bs then bs ! unat (x - a) else m x)"

lemma put_mem_Nil [simp]: "put_mem a [] m = m"
  by (simp add: put_mem_def)

lemma put_mem_Cons:
  assumes "length bs < 2 ^ 32 - 1"
  shows "put_mem (a + 1) bs (m(a := b)) = put_mem a (b # bs) m"
proof
  fix x
  show "put_mem (a + 1) bs (m(a := b)) x = put_mem a (b # bs) m x"
  proof (cases "x = a")
    case True
    have "a - (a + 1) = - 1" by simp
    then have "unat (a - (a + 1)) = 2 ^ 32 - 1" by (simp only: unsigned_minus_1_eq_mask mask_eq_exp_minus_1) simp
    then show ?thesis using True assms by (simp add: put_mem_def)
  next
    case False
    then have "x - a \<noteq> 0" by simp
    from unat_minus_one [OF this] have "unat (x - (a + 1)) = unat (x - a) - 1" by (simp add: algebra_simps)
    moreover have "unat (x - a) \<noteq> 0" using False by (simp add: unat_eq_0)
    ultimately show ?thesis using False by (auto simp: put_mem_def nth_Cons')
  qed
qed

lemma page_of_frame:
  assumes "k < 4096"
  shows "page_of (P2V (PTE_ADDR e) + of_nat k) = page_of (P2V (PTE_ADDR e))"
  using assms same_page [OF frame_aligned [of e], of "P2V (PTE_ADDR e) + of_nat k"] by simp

lemma pte_of_put:
  assumes "upage_ok m pgdir va" and "page_of x = page_of (frame m pgdir va)" and "tbl m pgdir (pdx va) mod 4096 = 0"
  shows "pte_of (m(x := b)) pgdir va = pte_of m pgdir va" and "tbl (m(x := b)) pgdir (pdx va) = tbl m pgdir (pdx va)"
proof -
  have "ent (m(x := b)) pgdir j = ent m pgdir j" if "j < 1024" for j
    using assms that by (intro ent_cong_page) (auto simp: upage_ok_def)
  moreover have "ent (m(x := b)) (tbl m pgdir (pdx va)) j = ent m (tbl m pgdir (pdx va)) j" if "j < 1024" for j
    using assms that by (intro ent_cong_page) (auto simp: upage_ok_def)
  ultimately show "pte_of (m(x := b)) pgdir va = pte_of m pgdir va" "tbl (m(x := b)) pgdir (pdx va) = tbl m pgdir (pdx va)"
    by (simp_all add: pte_of_def tbl_def)
qed

lemma tbl_aligned: "tbl m pgdir i mod 4096 = 0"
  by (simp add: tbl_def frame_aligned)

lemma upage_ok_put:
  assumes "upage_ok m pgdir va" and "page_of x = page_of (frame m pgdir va)"
  shows "upage_ok (m(x := b)) pgdir va" and "frame (m(x := b)) pgdir va = frame m pgdir va"
  using assms pte_of_put [OF assms tbl_aligned] by (simp_all add: upage_ok_def frame_def)

lemma upage_ok_page:
  assumes "page_of u = page_of va"
  shows "upage_ok m pgdir u = upage_ok m pgdir va"
  unfolding upage_ok_def pte_of_page [OF assms] ..

lemma translate_ok:
  assumes "upage_ok m pgdir va"
  shows "translate wr m pgdir va = Some (frame m pgdir va + of_nat (unat va mod 4096))"
  using assms by (simp add: translate_def upage_ok_def frame_def)

lemma ustore_run:
  fixes s :: "'z vmem_scheme"
  assumes "upage_ok (physmem s) (P2V (cr3 s)) va" and "unat va mod 4096 + length bs \<le> 4096"
  shows "ustore bs va s = Ok () (s\<lparr>physmem := put_mem (frame (physmem s) (P2V (cr3 s)) va + of_nat (unat va mod 4096)) bs (physmem s)\<rparr>)"
  using assms
proof (induction bs arbitrary: va s)
  case (Cons b bs)
  let ?d = "P2V (cr3 s)"
  let ?a = "frame (physmem s) ?d va + of_nat (unat va mod 4096)"
  let ?s = "s\<lparr>physmem := (physmem s)(?a := b)\<rparr>"
  have pa: "page_of ?a = page_of (frame (physmem s) ?d va)" using page_of_frame [of "unat va mod 4096"] by (simp add: frame_def)
  have st: "ustore1 va b s = Ok () ?s" using translate_ok [OF Cons.prems(1)] by (simp add: ustore1_def)
  note up = upage_ok_put [OF Cons.prems(1) pa]
  show ?case
  proof (cases "bs = []")
    case True
    then show ?thesis using st put_mem_Cons [of "[]" ?a "physmem s" b] by (simp add: run)
  next
    case False
    then have lt: "unat va mod 4096 + 1 < 4096" using Cons.prems(2) by (cases bs) auto
    note pg = page_step [OF lt, simplified]
    have "upage_ok (physmem ?s) (P2V (cr3 ?s)) (va + 1)" using up(1) upage_ok_page [OF pg(1)] by simp
    moreover have "unat (va + 1) mod 4096 + length bs \<le> 4096" using pg(2) Cons.prems(2) by simp
    ultimately have "ustore bs (va + 1) ?s = Ok () (?s\<lparr>physmem := put_mem (frame (physmem ?s) (P2V (cr3 ?s)) (va + 1)
        + of_nat (unat (va + 1) mod 4096)) bs (physmem ?s)\<rparr>)" by (rule Cons.IH)
    moreover have "frame (physmem ?s) (P2V (cr3 ?s)) (va + 1) + of_nat (unat (va + 1) mod 4096) = ?a + 1"
      using up(2) pte_of_page(2) [OF pg(1)] pg(2) by simp
    moreover have "length bs < 2 ^ 32 - 1" using Cons.prems(2) by simp
    ultimately show ?thesis using st put_mem_Cons [of bs ?a "physmem s" b] by (simp add: run)
  qed
qed (simp add: run)

lemma uload_run:
  fixes s :: "'z vmem_scheme"
  assumes "upage_ok (physmem s) (P2V (cr3 s)) va" and "unat va mod 4096 + n \<le> 4096"
  shows "uload n va s = Ok (map (\<lambda>i. physmem s (frame (physmem s) (P2V (cr3 s)) va + of_nat (unat va mod 4096 + i))) [0..<n]) s"
  using assms
proof (induction n arbitrary: va)
  case (Suc n)
  let ?d = "P2V (cr3 s)"
  let ?f = "\<lambda>va i. physmem s (frame (physmem s) ?d va + of_nat (unat va mod 4096 + i))"
  have ld: "uload1 va s = Ok (?f va 0) s" using translate_ok [OF Suc.prems(1)] by (simp add: uload1_def)
  show ?case
  proof (cases "n = 0")
    case True
    then show ?thesis using ld by (simp add: run)
  next
    case False
    then have lt: "unat va mod 4096 + 1 < 4096" using Suc.prems(2) by simp
    note pg = page_step [OF lt, simplified]
    have "upage_ok (physmem s) ?d (va + 1)" using Suc.prems(1) upage_ok_page [OF pg(1)] by simp
    moreover have "unat (va + 1) mod 4096 + n \<le> 4096" using pg(2) Suc.prems(2) by simp
    ultimately have "uload n (va + 1) s = Ok (map (?f (va + 1)) [0..<n]) s" by (rule Suc.IH)
    moreover have "?f (va + 1) i = ?f va (Suc i)" for i
      using pte_of_page(2) [OF pg(1)] pg(2) by simp
    ultimately show ?thesis using ld by (simp add: run map_upt_Suc ac_simps del: upt_Suc)
  qed
qed (simp add: run)

text \<open>Bytes written to another part of the same page do not disturb those read.\<close>

lemma put_mem_other:
  assumes "\<not> unat (x - a) < length bs"
  shows "put_mem a bs m x = m x"
  using assms by (simp add: put_mem_def)

section \<open>The trap frame in memory\<close>

definition pack16 :: "ushort \<Rightarrow> ushort \<Rightarrow> uint32" where
  "pack16 lo hi = ucast lo OR push_bit 16 (ucast hi)"

definition tf_words :: "trapframe \<Rightarrow> uint32 list" where
  "tf_words tf = [tf_edi tf, tf_esi tf, tf_ebp tf, tf_oesp tf, tf_ebx tf, tf_edx tf, tf_ecx tf, tf_eax tf,
     pack16 (tf_gs tf) (tf_padding1 tf), pack16 (tf_fs tf) (tf_padding2 tf), pack16 (tf_es tf) (tf_padding3 tf),
     pack16 (tf_ds tf) (tf_padding4 tf), tf_trapno tf, tf_err tf, tf_eip tf, pack16 (tf_cs tf) (tf_padding5 tf),
     tf_eflags tf, tf_esp tf, pack16 (tf_ss tf) (tf_padding6 tf)]"

definition tf_of_words :: "uint32 list \<Rightarrow> trapframe" where
  "tf_of_words w = \<lparr>tf_edi = w ! 0, tf_esi = w ! 1, tf_ebp = w ! 2, tf_oesp = w ! 3, tf_ebx = w ! 4, tf_edx = w ! 5,
     tf_ecx = w ! 6, tf_eax = w ! 7, tf_gs = ucast (w ! 8), tf_padding1 = ucast (drop_bit 16 (w ! 8)),
     tf_fs = ucast (w ! 9), tf_padding2 = ucast (drop_bit 16 (w ! 9)), tf_es = ucast (w ! 10),
     tf_padding3 = ucast (drop_bit 16 (w ! 10)), tf_ds = ucast (w ! 11), tf_padding4 = ucast (drop_bit 16 (w ! 11)),
     tf_trapno = w ! 12, tf_err = w ! 13, tf_eip = w ! 14, tf_cs = ucast (w ! 15),
     tf_padding5 = ucast (drop_bit 16 (w ! 15)), tf_eflags = w ! 16, tf_esp = w ! 17, tf_ss = ucast (w ! 18),
     tf_padding6 = ucast (drop_bit 16 (w ! 18))\<rparr>"

definition sizeof_trapframe :: nat where "sizeof_trapframe = 76"

definition tf_bytes :: "trapframe \<Rightarrow> uchar list" where
  "tf_bytes tf = st32s 0 (tf_words tf) (replicate sizeof_trapframe 0)"

definition tf_of_bytes :: "uchar list \<Rightarrow> trapframe" where
  "tf_of_bytes bs = tf_of_words (ld32s bs 0 19)"

lemma pack16_unpack: "ucast (pack16 lo hi) = lo" "ucast (drop_bit 16 (pack16 lo hi)) = hi"
  by (rule bit_word_eqI; auto simp: pack16_def bit_simps dest: bit_imp_le_length)+

lemma tf_of_bytes_bytes: "tf_of_bytes (tf_bytes tf) = tf"
proof -
  have "ld32s (tf_bytes tf) 0 19 = tf_words tf"
  proof -
    have "length (tf_words tf) = 19" by (simp add: tf_words_def)
    then show ?thesis using ld32s_st32s [of 0 "tf_words tf" "replicate sizeof_trapframe 0"]
      by (simp add: tf_bytes_def sizeof_trapframe_def)
  qed
  then show ?thesis by (simp add: tf_of_bytes_def tf_of_words_def tf_words_def pack16_unpack)
qed

lemma length_tf_bytes [simp]: "length (tf_bytes tf) = sizeof_trapframe"
  by (simp add: tf_bytes_def)

section \<open>Writing parts of a page\<close>

lemma put_mem_append:
  assumes "length xs + length ys < 2 ^ 32"
  shows "put_mem a xs (put_mem (a + of_nat (length xs)) ys m) = put_mem a (xs @ ys) m"
proof
  fix x
  have d: "x - (a + of_nat (length xs)) = x - a - of_nat (length xs)" by (simp add: algebra_simps)
  have u: "unat (of_nat (length xs) :: uint32) = length xs" using assms by (intro unat_of_nat_32) simp
  show "put_mem a xs (put_mem (a + of_nat (length xs)) ys m) x = put_mem a (xs @ ys) m x"
  proof (cases "unat (x - a) < length xs")
    case False
    then have le: "of_nat (length xs) \<le> x - a" by (simp add: word_le_nat_alt u)
    have "unat (x - a - of_nat (length xs)) = unat (x - a) - length xs" using le by (simp add: unat_sub u)
    then show ?thesis using False unfolding put_mem_def d by (auto simp: nth_append)
  qed (simp add: put_mem_def nth_append)
qed

lemma pte_of_outside:
  assumes "upage_ok m d va" and "\<And>x. page_of x \<noteq> page_of (frame m d va) \<Longrightarrow> m' x = m x"
  shows "upage_ok m' d va" and "frame m' d va = frame m d va"
proof -
  have e: "ent m' d j = ent m d j" if "j < 1024" for j
    using assms that by (intro ent_cong_page) (auto simp: upage_ok_def)
  have f: "ent m' (tbl m d (pdx va)) j = ent m (tbl m d (pdx va)) j" if "j < 1024" for j
    using assms that tbl_aligned by (intro ent_cong_page) (auto simp: upage_ok_def)
  have "pte_of m' d va = pte_of m d va" "tbl m' d (pdx va) = tbl m d (pdx va)"
    using e f by (simp_all add: pte_of_def tbl_def)
  then show "upage_ok m' d va" "frame m' d va = frame m d va" using assms(1) by (simp_all add: upage_ok_def frame_def)
qed

text \<open>\<open>A\<close> is where the kernel sees the user address \<open>va\<close>, in a page that user code may write.\<close>

definition seen_at :: "'z vmem_scheme \<Rightarrow> uint32 \<Rightarrow> uint32 \<Rightarrow> bool" where
  "seen_at s va A \<longleftrightarrow> upage_ok (physmem s) (P2V (cr3 s)) va
     \<and> A = frame (physmem s) (P2V (cr3 s)) va + of_nat (unat va mod 4096)"

lemma ustore_seen:
  fixes s :: "'z vmem_scheme"
  assumes "seen_at s va A" and "unat va mod 4096 + k + length bs \<le> 4096" and "bs \<noteq> []"
  defines "t \<equiv> s\<lparr>physmem := put_mem (A + of_nat k) bs (physmem s)\<rparr>"
  shows "ustore bs (va + of_nat k) s = Ok () t" and "seen_at t va A"
proof -
  let ?m = "physmem s" and ?d = "P2V (cr3 s)"
  have k: "unat va mod 4096 + k < 4096" using assms(2,3) by (cases bs) auto
  note pg = page_step [OF k]
  have ok: "upage_ok ?m ?d (va + of_nat k)" and A: "A = frame ?m ?d va + of_nat (unat va mod 4096)"
    using assms(1) upage_ok_page [OF pg(1)] by (simp_all add: seen_at_def)
  have a: "frame ?m ?d (va + of_nat k) + of_nat (unat (va + of_nat k) mod 4096) = A + of_nat k"
    using pte_of_page(2) [OF pg(1)] pg(2) by (simp add: A algebra_simps)
  show "ustore bs (va + of_nat k) s = Ok () t"
    using ustore_run [OF ok, of bs, unfolded a] pg(2) assms(2) by (simp add: t_def)
  have out: "put_mem (A + of_nat k) bs ?m x = ?m x" if "page_of x \<noteq> page_of (frame ?m ?d va)" for x
  proof (rule put_mem_other, rule notI)
    assume lt: "unat (x - (A + of_nat k)) < length bs"
    have "x = frame ?m ?d va + of_nat (unat va mod 4096 + k + unat (x - (A + of_nat k)))"
      by (simp add: A algebra_simps)
    moreover have "unat va mod 4096 + k + unat (x - (A + of_nat k)) < 4096" using lt assms(2) by simp
    ultimately have "page_of x = page_of (frame ?m ?d va)" using page_of_frame unfolding frame_def by metis
    then show False using that by simp
  qed
  have "upage_ok ?m ?d va" using assms(1) by (simp add: seen_at_def)
  note o = pte_of_outside [OF this out]
  show "seen_at t va A" using o by (simp add: seen_at_def t_def A)
qed

lemma uload_put_mem:
  fixes s :: "'z vmem_scheme"
  assumes "seen_at s va A" and "unat va mod 4096 + length bs \<le> 4096" and "physmem s = put_mem A bs m"
  shows "uload (length bs) va s = Ok bs s"
proof -
  have "upage_ok (physmem s) (P2V (cr3 s)) va" using assms(1) by (simp add: seen_at_def)
  from uload_run [OF this assms(2)] have
    "uload (length bs) va s = Ok (map (\<lambda>i. put_mem A bs m (A + of_nat i)) [0..<length bs]) s"
    using assms(1,3) by (simp add: seen_at_def algebra_simps)
  moreover have "put_mem A bs m (A + of_nat i) = bs ! i" if "i < length bs" for i
    using that assms(2) unat_of_nat_32 [of i] by (simp add: put_mem_def)
  then have "map (\<lambda>i. put_mem A bs m (A + of_nat i)) [0..<length bs] = bs" by (intro nth_equalityI) simp_all
  ultimately show ?thesis by simp
qed

lemma length_bytes32 [simp]: "length (bytes32 w) = 4"
  by (simp add: bytes32_def)

lemma seen_at_procs [simp]: "seen_at (s\<lparr>procs := ps\<rparr>) va A = seen_at s va A"
  by (simp add: seen_at_def)

lemma uload_suffix:
  assumes "uload (m + n) va s = Ok bs s"
  shows "uload n (va + of_nat m) s = Ok (drop m bs) s"
  using assms
proof (induction m arbitrary: va bs)
  case (Suc m)
  from Suc.prems obtain b bs' where "bs = b # bs'" and "uload (m + n) (va + 1) s = Ok bs' s"
    by (auto simp: run uload1_def split: outcome.splits option.splits)
  with Suc.IH [of "va + 1" bs'] show ?case by (simp add: add.assoc)
qed simp

end
