(* ===== verification/Proc.thy ===== *)
theory Proc
  imports Console Umem
begin

text \<open>
  The life of processes (\<^verbatim>\<open>proc.c\<close>): allocation of a table entry, the first process, \<^verbatim>\<open>growproc\<close>, \<^verbatim>\<open>fork\<close>,
  \<^verbatim>\<open>exit\<close>, \<^verbatim>\<open>wait\<close>, and the scheduler. The addresses of the kernel functions \<^verbatim>\<open>forkret\<close> and
  \<^verbatim>\<open>SIGCONT_handler\<close>, which the code stores and compares, are parameters.
\<close>

section \<open>Creation\<close>

definition SEG_UCODE :: ushort where "SEG_UCODE = 3"
definition SEG_UDATA :: ushort where "SEG_UDATA = 4"
definition DPL_USER :: ushort where "DPL_USER = 3"
definition FL_IF :: uint32 where "FL_IF = 0x200"

definition zero_tf :: trapframe where
  "zero_tf = \<lparr>tf_edi = 0, tf_esi = 0, tf_ebp = 0, tf_oesp = 0, tf_ebx = 0, tf_edx = 0, tf_ecx = 0, tf_eax = 0,
     tf_gs = 0, tf_padding1 = 0, tf_fs = 0, tf_padding2 = 0, tf_es = 0, tf_padding3 = 0, tf_ds = 0,
     tf_padding4 = 0, tf_trapno = 0, tf_err = 0, tf_eip = 0, tf_cs = 0, tf_padding5 = 0, tf_eflags = 0,
     tf_esp = 0, tf_ss = 0, tf_padding6 = 0\<rparr>"

text \<open>The part of \<^verbatim>\<open>allocproc\<close> after the kernel stack has been allocated. The trap frame and the context are kept
  by value; the trap frame has whatever was in the page.\<close>

definition embryo :: "uint32 \<Rightarrow> proc \<Rightarrow> proc" where
  "embryo forkret_addr p = p\<lparr>p_context := \<lparr>ctx_edi = 0, ctx_esi = 0, ctx_ebx = 0, ctx_ebp = 0, ctx_eip = forkret_addr\<rparr>,
     p_signal_handlers := replicate 32 SIG_DFL, p_pending_signals := 0\<rparr>"

definition allocproc :: "uint32 \<Rightarrow> ('z kmem_scheme, nat option) kop" where
  "allocproc forkret_addr =
     kseq (acquire PtableLock)
    (kbind (kget procs) (\<lambda>ps.
     case claim_slot (\<lambda>p. p_state p = UNUSED) (\<lambda>p. p\<lparr>p_state := EMBRYO\<rparr>) ps of
       None \<Rightarrow> kseq (release PtableLock) (kret None)
     | Some (p, ps') \<Rightarrow>
         kseq (kmod (\<lambda>s. s\<lparr>procs := ps'\<rparr>))
        (kseq (release PtableLock)
        (kbind allocpid (\<lambda>pid.
         kseq (upd_proc p (\<lambda>q. q\<lparr>p_pid := pid\<rparr>))
        (kbind kalloc (\<lambda>k.
         kseq (upd_proc p (\<lambda>q. q\<lparr>p_kstack := k\<rparr>))
             (if k = 0 then
                kseq (upd_proc p (\<lambda>q. q\<lparr>p_state := UNUSED\<rparr>)) (kret None)
              else
                kseq (upd_proc p (embryo forkret_addr)) (kret (Some p))))))))))"

text \<open>\<^verbatim>\<open>safestrcpy\<close> into an array: the bytes after the terminating zero keep their values.\<close>

definition set_name :: "uchar list \<Rightarrow> uchar list \<Rightarrow> uchar list" where
  "set_name old src = (let c = take 15 (cstr src) in c @ [0] @ drop (Suc (length c)) old)"

text \<open>\<^verbatim>\<open>userinit\<close>; \<open>initcode\<close> are the bytes of the first program.\<close>

definition userinit :: "uint32 \<Rightarrow> uchar list \<Rightarrow> ('z consst_scheme, unit) kop" where
  "userinit forkret_addr initcode =
     kbind (allocproc forkret_addr) (\<lambda>po.
     kseq (kmod (\<lambda>s. s\<lparr>initproc := po\<rparr>))
    (deref po (\<lambda>p.
     kbind setupkvm (\<lambda>d.
     kseq (upd_proc p (\<lambda>q. q\<lparr>p_pgdir := d\<rparr>))
    (kseq (kcheck (d = 0) ''userinit: out of memory?'')
    (kseq (inituvm d initcode)
    (kseq (upd_proc p (\<lambda>q. q\<lparr>p_sz := PGSIZE,
             p_tf := zero_tf\<lparr>tf_cs := push_bit 3 SEG_UCODE OR DPL_USER, tf_ds := push_bit 3 SEG_UDATA OR DPL_USER,
               tf_es := push_bit 3 SEG_UDATA OR DPL_USER, tf_ss := push_bit 3 SEG_UDATA OR DPL_USER,
               tf_eflags := FL_IF, tf_esp := PGSIZE, tf_eip := 0\<rparr>,
             p_name := set_name (p_name q) (bytes ''initcode'')\<rparr>))
    (kbind (namei devsw_table [47]) (\<lambda>ip.
     kseq (upd_proc p (\<lambda>q. q\<lparr>p_cwd := ip\<rparr>))
    (kseq (acquire PtableLock)
    (kseq (upd_proc p (\<lambda>q. q\<lparr>p_state := RUNNABLE\<rparr>))
          (release PtableLock))))))))))))"

definition print_line :: "string \<Rightarrow> ('z consst_scheme, unit) kop" where
  "print_line m = cprintf (Some (bytes m @ [10])) []"

definition growproc :: "sint32 \<Rightarrow> ('z consst_scheme, sint32) kop" where
  "growproc n =
     kbind curproc (\<lambda>p.
     kbind (get_proc p p_sz) (\<lambda>sz.
     kbind (get_proc p p_pgdir) (\<lambda>d.
     kbind (if 0 <s n then allocuvm print_line d sz (sz + n)
            else if n <s 0 then deallocuvm d sz (sz + n)
            else kret sz) (\<lambda>sz'.
     if n \<noteq> 0 \<and> sz' = 0 then kret (- 1)
     else
       kseq (upd_proc p (\<lambda>q. q\<lparr>p_sz := sz'\<rparr>))
      (kseq (switchuvm (Some p))
            (kret 0))))))"

section \<open>\<^verbatim>\<open>fork\<close>\<close>

definition fork_files :: "nat \<Rightarrow> nat \<Rightarrow> ('z filest_scheme, unit) kop" where
  "fork_files p np =
     kfor [0..<NOFILE] (\<lambda>i.
       kbind (get_proc p (\<lambda>q. p_ofile q ! i)) (\<lambda>fo. case fo of None \<Rightarrow> kret () | Some f \<Rightarrow>
       kbind (filedup f) (\<lambda>g.
       upd_proc np (\<lambda>q. q\<lparr>p_ofile := (p_ofile q)[i := Some g]\<rparr>))))"

definition fork :: "uint32 \<Rightarrow> ('z filest_scheme, sint32) kop" where
  "fork forkret_addr =
     kbind curproc (\<lambda>p.
     kbind (allocproc forkret_addr) (\<lambda>npo. case npo of None \<Rightarrow> kret (- 1) | Some np \<Rightarrow>
     kbind (get_proc p id) (\<lambda>P.
     kseq (upd_proc np (\<lambda>q. q\<lparr>p_signal_mask := p_signal_mask P, p_signal_handlers := p_signal_handlers P\<rparr>))
    (kbind (copyuvm (p_pgdir P) (p_sz P)) (\<lambda>d.
     kseq (upd_proc np (\<lambda>q. q\<lparr>p_pgdir := d\<rparr>))
    (if d = 0 then
       kbind (get_proc np p_kstack) (\<lambda>k.
       kseq (kfree k)
      (kseq (upd_proc np (\<lambda>q. q\<lparr>p_kstack := 0, p_state := UNUSED\<rparr>))
            (kret (- 1))))
     else
       kseq (upd_proc np (\<lambda>q. q\<lparr>p_sz := p_sz P, p_parent := Some p, p_tf := (p_tf P)\<lparr>tf_eax := 0\<rparr>\<rparr>))
      (kseq (fork_files p np)
      (kbind (deref (p_cwd P) idup) (\<lambda>c.
       kseq (upd_proc np (\<lambda>q. q\<lparr>p_cwd := Some c, p_name := set_name (p_name q) (p_name P)\<rparr>))
      (kbind (get_proc np p_pid) (\<lambda>pid.
       kseq (acquire PtableLock)
      (kseq (upd_proc np (\<lambda>q. q\<lparr>p_state := RUNNABLE\<rparr>))
      (kseq (release PtableLock)
            (kret pid))))))))))))))"

section \<open>\<^verbatim>\<open>exit\<close> and \<^verbatim>\<open>wait\<close>\<close>

definition exit_files :: "nat \<Rightarrow> ('z filest_scheme, unit) kop" where
  "exit_files p =
     kfor [0..<NOFILE] (\<lambda>fd.
       kbind (get_proc p (\<lambda>q. p_ofile q ! fd)) (\<lambda>fo. case fo of None \<Rightarrow> kret () | Some f \<Rightarrow>
       kseq (fileclose f)
            (upd_proc p (\<lambda>q. q\<lparr>p_ofile := (p_ofile q)[fd := None]\<rparr>))))"

text \<open>\<^verbatim>\<open>wakeup1\<close> on a pointer to a process, which may be null.\<close>

definition wakeup_proc :: "nat option \<Rightarrow> ('z ptab_scheme, unit) kop" where
  "wakeup_proc po = wakeup1 (map_option ChanProc po)"

text \<open>Children pass to the first process, which is woken for each zombie among them.\<close>

definition reparent :: "nat \<Rightarrow> ('z ptab_scheme, unit) kop" where
  "reparent p =
     kbind (kget initproc) (\<lambda>ini.
     kfor [0..<NPROC] (\<lambda>i.
       kbind (get_proc i id) (\<lambda>P.
       kwhen (p_parent P = Some p)
        (kseq (upd_proc i (\<lambda>q. q\<lparr>p_parent := ini\<rparr>))
              (kwhen (p_state P = ZOMBIE) (wakeup_proc ini))))))"

text \<open>\<^verbatim>\<open>exit\<close> from \<^verbatim>\<open>acquire(&ptable.lock)\<close> on.\<close>

definition exit_sched :: "nat \<Rightarrow> ('z ptab_scheme, unit) kop" where
  "exit_sched p =
     kseq (acquire PtableLock)
    (kbind (get_proc p p_parent) (\<lambda>par.
     kseq (wakeup_proc par)
    (kseq (reparent p)
    (kseq (upd_proc p (\<lambda>q. q\<lparr>p_state := ZOMBIE\<rparr>))
    (kseq sched
          (kpanic ''zombie exit''))))))"

definition exit :: "('z filest_scheme, unit) kop" where
  "exit =
     kbind curproc (\<lambda>p.
     kbind (kget initproc) (\<lambda>ini.
     kseq (kcheck (ini = Some p) ''init exiting'')
    (kseq (exit_files p)
    (kseq begin_op
    (kbind (get_proc p p_cwd) (\<lambda>c.
     kseq (deref c iput)
    (kseq end_op
    (kseq (upd_proc p (\<lambda>q. q\<lparr>p_cwd := None\<rparr>))
          (exit_sched p)))))))))"

definition reap :: "nat \<Rightarrow> ('z vmem_scheme, sint32) kop" where
  "reap i =
     kbind (get_proc i id) (\<lambda>P.
     kseq (kfree (p_kstack P))
    (kseq (upd_proc i (\<lambda>q. q\<lparr>p_kstack := 0\<rparr>))
    (kseq (freevm (p_pgdir P))
    (kseq (upd_proc i (\<lambda>q. q\<lparr>p_pid := 0, p_parent := None, p_name := (p_name q)[0 := 0], p_killed := False, p_state := UNUSED\<rparr>))
    (kseq (release PtableLock)
          (kret (p_pid P)))))))"

text \<open>One turn of the loop of \<^verbatim>\<open>wait\<close>, with the lock held.\<close>

definition wait_loop :: "('z vmem_scheme, sint32) kop" where
  "wait_loop =
     kbind curproc (\<lambda>p.
     kbind (kget procs) (\<lambda>ps.
     case first_index (\<lambda>q. p_parent q = Some p \<and> p_state q = ZOMBIE) ps of
       Some i \<Rightarrow> reap i
     | None \<Rightarrow>
         if first_index (\<lambda>q. p_parent q = Some p) ps = None \<or> p_killed (ps ! p) then
           kseq (release PtableLock) (kret (- 1))
         else sleep_away (ChanProc p) PtableLock))"

definition wait :: "('z vmem_scheme, sint32) kop" where
  "wait = kseq (acquire PtableLock) wait_loop"

definition wait_resume :: "('z vmem_scheme, sint32) kop" where
  "wait_resume = kseq (sleep_resume PtableLock) wait_loop"

section \<open>The scheduler\<close>

text \<open>
  What \<^verbatim>\<open>scheduler\<close> does about a frozen process: it looks for a pending \<^verbatim>\<open>SIGCONT\<close>, or another signal whose handler is the
  kernel function \<^verbatim>\<open>SIGCONT_handler\<close>, at address \<open>contaddr\<close>, and calls that function; no process is current then.
\<close>

definition cont_signal :: "uint32 \<Rightarrow> proc \<Rightarrow> bool" where
  "cont_signal contaddr P \<longleftrightarrow>
     (if p_pending_signals P AND push_bit SIGCONT 1 \<noteq> 0 \<and> p_signal_handlers P ! SIGCONT = SIG_DFL then True
      else \<exists>i\<in>set [0..<32]. i \<noteq> SIGKILL \<and> i \<noteq> SIGSTOP \<and> p_pending_signals P AND push_bit i 1 \<noteq> 0
             \<and> p_signal_handlers P ! i = contaddr)"

definition thaw :: "uint32 \<Rightarrow> nat \<Rightarrow> ('z ptab_scheme, unit) kop" where
  "thaw contaddr p =
     kbind (get_proc p id) (\<lambda>P.
     kwhen (p_freeze P \<and> cont_signal contaddr P)
      (kseq SIGCONT_handler
            (upd_proc p (\<lambda>q. q\<lparr>p_pending_signals := p_pending_signals q XOR push_bit SIGCONT 1\<rparr>))))"

text \<open>The loop over the table up to the next \<^verbatim>\<open>swtch\<close>: the value is the process that runs now, or \<^term>\<open>None\<close> when the
  table has been passed and the lock released.\<close>

primrec scheduler_scan :: "uint32 \<Rightarrow> nat list \<Rightarrow> ('z vmem_scheme, nat option) kop" where
  "scheduler_scan contaddr [] = kseq (release PtableLock) (kret None)"
| "scheduler_scan contaddr (p # ps) =
     kbind (get_proc p p_state) (\<lambda>st.
     if st \<noteq> RUNNABLE then scheduler_scan contaddr ps
     else
       kseq (thaw contaddr p)
      (kbind (get_proc p p_freeze) (\<lambda>fz.
       if fz then scheduler_scan contaddr ps
       else
         kseq (kmod (\<lambda>s. s\<lparr>cur := Some p\<rparr>))
        (kseq (switchuvm (Some p))
        (kseq (upd_proc p (\<lambda>q. q\<lparr>p_state := RUNNING\<rparr>))
              (kret (Some p)))))))"

text \<open>A pass over the table from its start, its continuation when process \<open>p\<close> comes back through \<^verbatim>\<open>swtch\<close>, and the entry from
  \<^verbatim>\<open>main\<close>, when no process is current yet. The \<^verbatim>\<open>sti\<close> before each pass is left out, since this state has no interrupt flag.\<close>

definition scheduler :: "uint32 \<Rightarrow> ('z vmem_scheme, nat option) kop" where
  "scheduler contaddr =
     kseq (acquire PtableLock)
          (scheduler_scan contaddr [0..<NPROC])"

definition scheduler_back :: "uint32 \<Rightarrow> nat \<Rightarrow> ('z vmem_scheme, nat option) kop" where
  "scheduler_back contaddr p =
     kseq switchkvm
    (kseq (kmod (\<lambda>s. s\<lparr>cur := None\<rparr>))
          (scheduler_scan contaddr [Suc p..<NPROC]))"

definition scheduler_entry :: "uint32 \<Rightarrow> ('z vmem_scheme, nat option) kop" where
  "scheduler_entry contaddr = kseq (kmod (\<lambda>s. s\<lparr>cur := None\<rparr>)) (scheduler contaddr)"

definition print_sb :: "superblock \<Rightarrow> ('z consst_scheme, unit) kop" where
  "print_sb sb = cprintf (Some (bytes ''sb: size %d nblocks %d ninodes %d nlog %d logstart %d inodestart %d bmap start %d'' @ [10]))
     (map FInt [sb_size sb, sb_nblocks sb, sb_ninodes sb, sb_nlog sb, sb_logstart sb, sb_inodestart sb, sb_bmapstart sb])"

definition forkret :: "('z consst_scheme, unit) kop" where
  "forkret =
     kseq (release PtableLock)
    (kbind (kget firstrun) (\<lambda>f.
     kwhen f
      (kseq (kmod (\<lambda>s. s\<lparr>firstrun := False\<rparr>))
      (kseq (iinit print_sb ROOTDEV)
            (initlog ROOTDEV)))))"

section \<open>The scheduler is fair\<close>

text \<open>A process that the scheduler may dispatch.\<close>

definition eligible :: "proc \<Rightarrow> bool" where
  "eligible P \<longleftrightarrow> p_state P = RUNNABLE \<and> \<not> p_freeze P"

text \<open>Dispatching \<open>p\<close>: its page table and kernel stack are installed, it runs and is current.\<close>

definition dispatched :: "nat \<Rightarrow> 'z vmem_scheme \<Rightarrow> 'z vmem_scheme" where
  "dispatched p s = s\<lparr>cur := Some p, ts_ss0 := push_bit 3 SEG_KDATA, ts_esp0 := p_kstack (procs s ! p) + KSTACKSIZE,
     ts_iomb := 0xFFFF, cr3 := V2P (p_pgdir (procs s ! p)), procs := (procs s)[p := (procs s ! p)\<lparr>p_state := RUNNING\<rparr>]\<rparr>"

lemma scheduler_scan_run:
  fixes s :: "'z vmem_scheme"
  assumes "\<forall>q\<in>set ps. q < length (procs s) \<and> \<not> (p_freeze (procs s ! q) \<and> cont_signal a (procs s ! q))"
    and "\<forall>q\<in>set ps. eligible (procs s ! q) \<longrightarrow> p_kstack (procs s ! q) \<noteq> 0 \<and> p_pgdir (procs s ! q) \<noteq> 0"
    and "PtableLock \<in> held s"
  shows "scheduler_scan a ps s = (case first_index (\<lambda>q. eligible (procs s ! q)) ps of
      None \<Rightarrow> Ok None (s\<lparr>held := held s - {PtableLock}\<rparr>)
    | Some k \<Rightarrow> Ok (Some (ps ! k)) (dispatched (ps ! k) s))"
  using assms
proof (induction ps)
  case (Cons q ps)
  have IH: "scheduler_scan a ps s = (case first_index (\<lambda>q. eligible (procs s ! q)) ps of
      None \<Rightarrow> Ok None (s\<lparr>held := held s - {PtableLock}\<rparr>) | Some k \<Rightarrow> Ok (Some (ps ! k)) (dispatched (ps ! k) s))"
    using Cons by simp
  show ?case
  proof (cases "eligible (procs s ! q)")
    case True
    then show ?thesis using Cons.prems by (simp add: run thaw_def switchuvm_def eligible_def dispatched_def)
  next
    case False
    then have "scheduler_scan a (q # ps) s = scheduler_scan a ps s"
      using Cons.prems by (auto simp: run thaw_def eligible_def)
    then show ?thesis using IH False by (auto split: option.splits)
  qed
qed (simp add: run)

text \<open>How many entries lie between \<open>p\<close> and \<open>q\<close>, going round the table from \<open>p\<close>.\<close>

definition turn :: "nat \<Rightarrow> nat \<Rightarrow> nat" where
  "turn p q = (if p < q then q - Suc p else q + NPROC - Suc p)"

lemma first_index_range:
  assumes "first_index P [a..<b] = Some k"
  shows "P (a + k)" "a + k < b" "\<And>j. a \<le> j \<Longrightarrow> j < a + k \<Longrightarrow> \<not> P j" "[a..<b] ! k = a + k"
proof -
  note f = first_index_SomeD [OF assms]
  show "a + k < b" "P (a + k)" "[a..<b] ! k = a + k" using f(1,2) by simp_all
  show "\<not> P j" if "a \<le> j" "j < a + k" for j
    using f(3) [of "j - a"] f(1) that by simp
qed

text \<open>
  C6. The scheduler is fair: when process \<open>p\<close> has given up the processor and some process can run, the scheduler
  dispatches the first such process after \<open>p\<close> in the order of the table, going round from the end to the
  start. So a process that stays runnable is passed over at most once by each other entry before its turn.
  It takes no frozen process, as long as none of them has a signal pending that continues it.
\<close>

theorem scheduler_round_robin:
  fixes s :: "'z vmem_scheme"
  assumes "length (procs s) = NPROC" and "held s = {PtableLock}" and "p < NPROC"
    and "\<forall>P\<in>set (procs s). \<not> (p_freeze P \<and> cont_signal a P)"
    and "\<forall>P\<in>set (procs s). eligible P \<longrightarrow> p_kstack P \<noteq> 0 \<and> p_pgdir P \<noteq> 0"
    and "x < NPROC" and "eligible (procs s ! x)"
  shows "\<exists>j t. (scheduler_back a p s = Ok (Some j) t
        \<or> (\<exists>u. scheduler_back a p s = Ok None u \<and> scheduler a u = Ok (Some j) t))
      \<and> j < NPROC \<and> eligible (procs s ! j) \<and> (\<forall>q<NPROC. eligible (procs s ! q) \<longrightarrow> turn p j \<le> turn p q)
      \<and> cur t = Some j \<and> procs t = (procs s)[j := (procs s ! j)\<lparr>p_state := RUNNING\<rparr>] \<and> held t = {PtableLock}"
proof -
  let ?s = "s\<lparr>cr3 := V2P (kpgdir s), cur := None\<rparr>"
  let ?e = "\<lambda>q. eligible (procs s ! q)"
  have ok: "\<forall>q\<in>set ps. q < length (procs v) \<and> \<not> (p_freeze (procs v ! q) \<and> cont_signal a (procs v ! q))"
      "\<forall>q\<in>set ps. eligible (procs v ! q) \<longrightarrow> p_kstack (procs v ! q) \<noteq> 0 \<and> p_pgdir (procs v ! q) \<noteq> 0"
    if "procs v = procs s" "set ps \<subseteq> {..<NPROC}" for ps and v :: "'z vmem_scheme"
    using that assms(1,4,5) by (auto simp: subset_iff)
  have bk: "scheduler_back a p s = (case first_index ?e [Suc p..<NPROC] of
      None \<Rightarrow> Ok None (?s\<lparr>held := {}\<rparr>) | Some k \<Rightarrow> Ok (Some ([Suc p..<NPROC] ! k)) (dispatched ([Suc p..<NPROC] ! k) ?s))"
    using scheduler_scan_run [OF ok, of ?s "[Suc p..<NPROC]"] assms(2)
    by (simp add: scheduler_back_def switchkvm_def run subset_iff cong: option.case_cong)
  show ?thesis
  proof (cases "first_index ?e [Suc p..<NPROC]")
    case (Some k)
    note f = first_index_range [OF Some]
    let ?j = "Suc p + k"
    have le: "?j \<le> q" if "p < q" "?e q" for q using f(3) [of q] that by (cases "q < ?j") auto
    have "turn p ?j \<le> turn p q" if "q < NPROC" "?e q" for q
      using f(2) le [of q] that by (cases "p < q") (auto simp: turn_def)
    then show ?thesis using bk Some f assms(2) by (auto simp: dispatched_def intro!: exI [of _ ?j])
  next
    case None
    let ?u = "?s\<lparr>held := {}\<rparr>"
    have none: "\<not> ?e q" if "p < q" "q < NPROC" for q using None that by (auto simp: first_index_None)
    have sch: "scheduler a ?u = (case first_index ?e [0..<NPROC] of
      None \<Rightarrow> Ok None (?s\<lparr>held := {}\<rparr>) | Some k \<Rightarrow> Ok (Some ([0..<NPROC] ! k)) (dispatched ([0..<NPROC] ! k) (?u\<lparr>held := {PtableLock}\<rparr>)))"
      using scheduler_scan_run [OF ok, of "?u\<lparr>held := {PtableLock}\<rparr>" "[0..<NPROC]"]
      by (simp add: scheduler_def run subset_iff cong: option.case_cong)
    obtain k where k: "first_index ?e [0..<NPROC] = Some k"
      using assms(6,7) by (cases "first_index ?e [0..<NPROC]") (auto simp: first_index_None)
    note f = first_index_range [OF k, simplified]
    have kp: "k \<le> p" using none f by (auto simp: not_le [symmetric])
    have le: "k \<le> q" if "?e q" for q using f(3) [of q] that by (cases "q < k") auto
    have "turn p k \<le> turn p q" if "q < NPROC" "?e q" for q
      using kp le [of q] none [of q] that by (auto simp: turn_def)
    then show ?thesis using bk None sch k f by (auto simp: dispatched_def intro!: exI [of _ k])
  qed
qed

definition demo_vm :: vmem where
  "demo_vm = kmem.extend demo_kmem \<lparr>kpgdir = 0, cr3 = 0, kdata = 0x80108000, ts_esp0 = 0, ts_ss0 = 0, ts_iomb = 0\<rparr>"

lemma demo_vm_held [simp]: "held demo_vm = {}"
  by (simp add: demo_vm_def kmem.extend_def demo_kmem_def sleeps.extend_def demo_sleeps_defs)

theorem scheduler_round_robin_witness:
  "\<exists>j t. (scheduler_back 0 5 (demo_vm\<lparr>procs := (replicate NPROC idle_proc)
        [9 := idle_proc\<lparr>p_state := RUNNABLE, p_kstack := 4096, p_pgdir := 4096\<rparr>], held := {PtableLock}\<rparr>) = Ok (Some j) t
      \<or> (\<exists>u. scheduler_back 0 5 (demo_vm\<lparr>procs := (replicate NPROC idle_proc)
        [9 := idle_proc\<lparr>p_state := RUNNABLE, p_kstack := 4096, p_pgdir := 4096\<rparr>], held := {PtableLock}\<rparr>) = Ok None u
          \<and> scheduler 0 u = Ok (Some j) t)) \<and> j = 9 \<and> cur t = Some 9"
proof -
  let ?P = "idle_proc\<lparr>p_state := RUNNABLE, p_kstack := 4096, p_pgdir := 4096\<rparr>"
  let ?ps = "(replicate NPROC idle_proc)[9 := ?P]"
  let ?s = "demo_vm\<lparr>procs := ?ps, held := {PtableLock}\<rparr>"
  have st: "set ?ps \<subseteq> {idle_proc, ?P}"
    using set_update_subset_insert [of "replicate NPROC idle_proc" 9 ?P] by auto
  have el: "eligible (?ps ! q) \<longleftrightarrow> q = 9" if "q < NPROC" for q
    using that by (cases "q = 9") (simp_all add: eligible_def idle_proc_def)
  have "\<forall>P\<in>set (procs ?s). \<not> (p_freeze P \<and> cont_signal 0 P)"
    using st by (auto simp: idle_proc_def)
  moreover have "\<forall>P\<in>set (procs ?s). eligible P \<longrightarrow> p_kstack P \<noteq> 0 \<and> p_pgdir P \<noteq> 0"
    using st by (auto simp: eligible_def idle_proc_def)
  moreover have n: "9 < NPROC" "5 < NPROC" "length (procs ?s) = NPROC" "held ?s = {PtableLock}" by (simp_all add: NPROC_def)
  moreover have "eligible (procs ?s ! 9)" using n(1) by (simp add: eligible_def idle_proc_def)
  ultimately obtain j t where jt: "scheduler_back 0 5 ?s = Ok (Some j) t
      \<or> (\<exists>u. scheduler_back 0 5 ?s = Ok None u \<and> scheduler 0 u = Ok (Some j) t)"
    "j < NPROC" "eligible (procs ?s ! j)" "cur t = Some j"
    using scheduler_round_robin [of ?s 5 0 9] by blast
  then have "j = 9" using el by simp
  with jt show ?thesis by blast
qed

text \<open>A frozen process with a signal pending that should continue it makes the scheduler dereference the null pointer: the
  handler works on the current process, and there is none.\<close>

lemma scheduler_cont_fault:
  fixes s :: "'z vmem_scheme"
  assumes "cur s = None" and "p_state (procs s ! p) = RUNNABLE" and "p_freeze (procs s ! p)" and "cont_signal a (procs s ! p)"
  shows "scheduler_scan a (p # ps) s = Fault ''null process''"
  using assms by (simp add: run thaw_def SIGCONT_handler_def)

text \<open>A new process in the entry of one that was stopped when it exited is stopped as well.\<close>

lemma embryo_stopped: "p_freeze (embryo a P) = p_freeze P"
  by (simp add: embryo_def)

section \<open>\<^verbatim>\<open>exit\<close> meets \<^verbatim>\<open>wait\<close>\<close>

text \<open>What happens to a process while another one exits: it may be woken up and it may be given to the first process.\<close>

definition exit_effect :: "nat \<Rightarrow> nat option \<Rightarrow> bool \<Rightarrow> proc \<Rightarrow> proc \<Rightarrow> bool" where
  "exit_effect p ini passed P Q \<longleftrightarrow>
     Q = P\<lparr>p_parent := (if passed \<and> p_parent P = Some p then ini else p_parent P), p_state := p_state Q\<rparr>
     \<and> (p_state Q = p_state P \<or> p_state P = SLEEPING \<and> p_state Q = RUNNABLE)"

lemma exit_effect_refl: "exit_effect p ini False P P"
  by (simp add: exit_effect_def)

lemma exit_effect_flag: "p_parent P \<noteq> Some p \<Longrightarrow> exit_effect p ini b P Q = exit_effect p ini c P Q"
  by (simp add: exit_effect_def)

lemma exit_effect_fields:
  assumes "exit_effect p ini True (P\<lparr>p_state := st\<rparr>) Q"
  shows "p_parent Q = (if p_parent P = Some p then ini else p_parent P)"
    and "Q = P\<lparr>p_parent := p_parent Q, p_state := p_state Q\<rparr>"
proof -
  have Q: "Q = P\<lparr>p_state := st, p_parent := (if p_parent P = Some p then ini else p_parent P), p_state := p_state Q\<rparr>"
    using assms by (cases "p_parent P = Some p") (simp_all add: exit_effect_def)
  show par: "p_parent Q = (if p_parent P = Some p then ini else p_parent P)" by (subst Q) simp
  show "Q = P\<lparr>p_parent := p_parent Q, p_state := p_state Q\<rparr>" by (subst (1) Q, subst par) simp
qed

lemma exit_effect_woken:
  assumes "exit_effect p ini b P Q" and "length ps = length qs" and "i < length qs" and "qs ! i = Q"
  shows "exit_effect p ini b P (woken ch qs ! i)"
proof -
  have "(P\<lparr>p_parent := x, p_state := SLEEPING\<rparr>)\<lparr>p_state := RUNNABLE\<rparr> = P\<lparr>p_parent := x, p_state := RUNNABLE\<rparr>" for x by simp
  then show ?thesis
    using assms by (auto simp: woken_nth exit_effect_def)
qed

lemma wp_reparent:
  fixes s :: "'z ptab_scheme"
  assumes "length (procs s) = NPROC"
  shows "wpk (reparent p) (\<lambda>_ t. \<exists>ps. t = s\<lparr>procs := ps\<rparr> \<and> length ps = NPROC
    \<and> (\<forall>i<NPROC. exit_effect p (initproc s) True (procs s ! i) (ps ! i))) s"
proof -
  let ?I = "\<lambda>pre t. \<exists>ps. t = s\<lparr>procs := ps\<rparr> \<and> length ps = NPROC
    \<and> (\<forall>i<NPROC. exit_effect p (initproc s) (i \<in> set pre) (procs s ! i) (ps ! i))"
  have "wpk (kfor [0..<NPROC] (\<lambda>i. kbind (get_proc i id) (\<lambda>P. kwhen (p_parent P = Some p)
        (kseq (upd_proc i (\<lambda>q. q\<lparr>p_parent := initproc s\<rparr>)) (kwhen (p_state P = ZOMBIE) (wakeup_proc (initproc s)))))))
      (\<lambda>_. ?I [0..<NPROC]) s"
  proof (rule wp_for [where I = ?I])
    show "?I [] s" using assms by (intro exI [of _ "procs s"]) (simp add: exit_effect_refl)
    fix pre i rest and t :: "'z ptab_scheme"
    assume split: "[0..<NPROC] = pre @ i # rest" and "?I pre t"
    then obtain ps where t: "t = s\<lparr>procs := ps\<rparr>" "length ps = NPROC"
      "\<forall>j<NPROC. exit_effect p (initproc s) (j \<in> set pre) (procs s ! j) (ps ! j)" by auto
    have i: "i < NPROC" "i \<notin> set pre"
      using arg_cong [OF split, of set] arg_cong [OF split, of distinct] by auto
    have par: "p_parent (ps ! i) = p_parent (procs s ! i)" using t(3) i by (auto simp: exit_effect_def)
    show "wpk (kbind (get_proc i id) (\<lambda>P. kwhen (p_parent P = Some p)
        (kseq (upd_proc i (\<lambda>q. q\<lparr>p_parent := initproc s\<rparr>)) (kwhen (p_state P = ZOMBIE) (wakeup_proc (initproc s))))))
        (\<lambda>_. ?I (pre @ [i])) t"
    proof (cases "p_parent (ps ! i) = Some p")
      case False
      have q: "exit_effect p (initproc s) (j \<in> set (pre @ [i])) (procs s ! j) (ps ! j)" if "j < NPROC" for j
        using t(3) i(1) that False par exit_effect_flag [of "procs s ! i" p "initproc s" "i \<in> set pre" "ps ! i" True]
        by (cases "j = i") auto
      show ?thesis using t(1,2) False q by (auto simp: wp intro!: exI [of _ ps])
    next
      case True
      let ?qs = "ps[i := (ps ! i)\<lparr>p_parent := initproc s\<rparr>]"
      have q: "exit_effect p (initproc s) (j \<in> set (pre @ [i])) (procs s ! j) (?qs ! j)" if "j < NPROC" for j
        using t(2,3) i that True par by (cases "j = i") (auto simp: exit_effect_def)
      have w: "exit_effect p (initproc s) (j \<in> set (pre @ [i])) (procs s ! j) (woken ch ?qs ! j)" if "j < NPROC" for j ch
        by (rule exit_effect_woken [OF q [OF that] refl]) (use t(2) that in auto)
      show ?thesis
        using True t(1,2) q w by (auto simp: wp wakeup_proc_def split: option.split intro!: exI)
    qed
  qed
  then show ?thesis unfolding reparent_def by (simp add: wp)
qed

lemma exit_sched_run:
  fixes s :: "'z ptab_scheme"
  assumes len: "length (procs s) = NPROC" and h: "held s = {}" and p: "cur s = Some p" "p < NPROC"
  obtains ps where "exit_sched p s = Swtch (s\<lparr>held := {PtableLock}, procs := ps[p := (ps ! p)\<lparr>p_state := ZOMBIE\<rparr>]\<rparr>)"
    and "length ps = NPROC"
    and "\<forall>i<NPROC. exit_effect p (initproc s) True
       (woken (map_option ChanProc (p_parent (procs s ! p))) (procs s) ! i) (ps ! i)"
proof -
  let ?w = "woken (map_option ChanProc (p_parent (procs s ! p))) (procs s)"
  let ?s = "s\<lparr>held := {PtableLock}, procs := ?w\<rparr>"
  have "wpk (reparent p) (\<lambda>_ t. \<exists>ps. t = ?s\<lparr>procs := ps\<rparr> \<and> length ps = NPROC
    \<and> (\<forall>i<NPROC. exit_effect p (initproc ?s) True (procs ?s ! i) (ps ! i))) ?s"
    using len by (intro wp_reparent) simp
  then obtain ps where r: "reparent p ?s = Ok () (?s\<lparr>procs := ps\<rparr>)" "length ps = NPROC"
    "\<forall>i<NPROC. exit_effect p (initproc s) True (?w ! i) (ps ! i)" by (auto elim: wpkE)
  have "exit_sched p s = Swtch (s\<lparr>held := {PtableLock}, procs := ps[p := (ps ! p)\<lparr>p_state := ZOMBIE\<rparr>]\<rparr>)"
    using h p r(1,2) by (simp add: exit_sched_def run wakeup_proc_def sched_run)
  with that r(2,3) show ?thesis by blast
qed

text \<open>
  C38. A parent waiting in \<^verbatim>\<open>wait\<close> learns that its child has exited. When process \<open>p\<close> gets to the end of \<^verbatim>\<open>exit\<close>, it leaves
  the processor as a zombie; its children pass to the first process; a parent \<open>q\<close> asleep in \<^verbatim>\<open>wait\<close> is runnable
  again. When \<open>q\<close> runs next, whatever the other processes have done to their own entries in the meantime, its
  scan finds the zombie or an earlier one, and it neither fails nor goes back to sleep: \<^verbatim>\<open>wait\<close> reaps the first
  zombie child in the table. Nothing but its state and parent changes in the entry of any other process.
\<close>

theorem exit_wakes_parent:
  fixes s :: "'z vmem_scheme"
  assumes "length (procs s) = NPROC" and "held s = {}" and "cur s = Some p" and "p < NPROC"
    and "p_parent (procs s ! p) = Some q" and "q < NPROC" and "q \<noteq> p"
    and "p_state (procs s ! q) = SLEEPING" and "p_chan (procs s ! q) = Some (ChanProc q)"
  shows "\<exists>t. exit_sched p s = Swtch t \<and> held t = {PtableLock} \<and> length (procs t) = NPROC
    \<and> p_state (procs t ! p) = ZOMBIE \<and> p_parent (procs t ! p) = Some q \<and> p_state (procs t ! q) = RUNNABLE
    \<and> (\<forall>i<NPROC. p_parent (procs t ! i) = (if p_parent (procs s ! i) = Some p then initproc s else p_parent (procs s ! i)))
    \<and> (\<forall>i<NPROC. i \<noteq> p \<longrightarrow> procs t ! i = (procs s ! i)\<lparr>p_parent := p_parent (procs t ! i), p_state := p_state (procs t ! i)\<rparr>)
    \<and> (\<forall>v :: 'z vmem_scheme. cur v = Some q \<longrightarrow> length (procs v) = NPROC
        \<longrightarrow> p_state (procs v ! p) = ZOMBIE \<longrightarrow> p_parent (procs v ! p) = Some q \<longrightarrow>
        (\<exists>i\<le>p. p_parent (procs v ! i) = Some q \<and> p_state (procs v ! i) = ZOMBIE \<and>
          (\<forall>j<i. \<not> (p_parent (procs v ! j) = Some q \<and> p_state (procs v ! j) = ZOMBIE)) \<and>
          wait_resume v = reap i (v\<lparr>procs := (procs v)[q := (procs v ! q)\<lparr>p_chan := None\<rparr>]\<rparr>)))"
proof -
  from exit_sched_run [OF assms(1-4)] obtain ps where
    r: "exit_sched p s = Swtch (s\<lparr>held := {PtableLock}, procs := ps[p := (ps ! p)\<lparr>p_state := ZOMBIE\<rparr>]\<rparr>)" "length ps = NPROC"
    "\<forall>i<NPROC. exit_effect p (initproc s) True
       (woken (map_option ChanProc (p_parent (procs s ! p))) (procs s) ! i) (ps ! i)" .
  have e: "exit_effect p (initproc s) True (woken (Some (ChanProc q)) (procs s) ! i) (ps ! i)" if "i < NPROC" for i
    using r(3) that assms(5) by simp
  let ?t = "s\<lparr>held := {PtableLock}, procs := ps[p := (ps ! p)\<lparr>p_state := ZOMBIE\<rparr>]\<rparr>"
  have wk: "\<exists>st. woken (Some (ChanProc q)) (procs s) ! i = (procs s ! i)\<lparr>p_state := st\<rparr>" if "i < NPROC" for i
  proof (cases "p_state (procs s ! i) = SLEEPING \<and> p_chan (procs s ! i) = Some (ChanProc q)")
    case True
    then show ?thesis using that assms(1) by (auto simp: woken_nth)
  next
    case False
    then show ?thesis using that assms(1) by (intro exI [of _ "p_state (procs s ! i)"]) (simp add: woken_nth)
  qed
  have fld: "p_parent (ps ! i) = (if p_parent (procs s ! i) = Some p then initproc s else p_parent (procs s ! i))"
    "ps ! i = (procs s ! i)\<lparr>p_parent := p_parent (ps ! i), p_state := p_state (ps ! i)\<rparr>" if "i < NPROC" for i
    using e [OF that] wk [OF that] exit_effect_fields by metis+
  have "p_state (procs ?t ! q) = RUNNABLE"
    using e [OF assms(6)] assms(1,6,7,8,9) by (auto simp: exit_effect_def woken_nth)
  moreover have "\<exists>i\<le>p. p_parent (procs v ! i) = Some q \<and> p_state (procs v ! i) = ZOMBIE \<and>
      (\<forall>j<i. \<not> (p_parent (procs v ! j) = Some q \<and> p_state (procs v ! j) = ZOMBIE)) \<and>
      wait_resume v = reap i (v\<lparr>procs := (procs v)[q := (procs v ! q)\<lparr>p_chan := None\<rparr>]\<rparr>)"
    if v: "cur v = Some q" "length (procs v) = NPROC" "p_state (procs v ! p) = ZOMBIE" "p_parent (procs v ! p) = Some q"
    for v :: "'z vmem_scheme"
  proof -
    let ?Z = "\<lambda>P. p_parent P = Some q \<and> p_state P = ZOMBIE"
    let ?ps = "(procs v)[q := (procs v ! q)\<lparr>p_chan := None\<rparr>]"
    have same: "?Z (?ps ! i) = ?Z (procs v ! i)" if "i < NPROC" for i
      using that v(2) assms(6) by (cases "i = q") simp_all
    have z: "?Z (?ps ! p)" "p < length ?ps" using same [OF assms(4)] v assms(4) by simp_all
    from nth_mem [OF z(2)] z(1) have "first_index ?Z ?ps \<noteq> None" unfolding first_index_None by blast
    then obtain i where i: "first_index ?Z ?ps = Some i" by blast
    note f = first_index_SomeD [OF i]
    have "i \<le> p" using f(3) [of p] z(1) by (cases "p < i") auto
    moreover have "?Z (procs v ! i)" using f(1,2) same [of i] v(2) by simp
    moreover have "\<not> ?Z (procs v ! j)" if "j < i" for j using f(1) f(3) [OF that] same [of j] that v(2) by simp
    ultimately show ?thesis using i v(1) by (auto simp: wait_resume_def wait_loop_def sleep_resume_def resume_acts_def at_proc_def run)
  qed
  moreover have "procs ?t ! i = (procs s ! i)\<lparr>p_parent := p_parent (procs ?t ! i), p_state := p_state (procs ?t ! i)\<rparr>"
    if "i < NPROC" "i \<noteq> p" for i using fld(2) [OF that(1)] that by simp
  moreover have "p_parent (procs ?t ! i) = (if p_parent (procs s ! i) = Some p then initproc s else p_parent (procs s ! i))"
    if "i < NPROC" for i using fld(1) [OF that] that r(2) by (cases "i = p") simp_all
  moreover have "p_state (procs ?t ! p) = ZOMBIE" "length (procs ?t) = NPROC" "held ?t = {PtableLock}" using r(2) assms(4) by simp_all
  moreover have "p_parent (procs ?t ! p) = Some q" using fld(1) [OF assms(4)] assms(4,5,7) r(2) by simp
  ultimately show ?thesis using r(1) by (intro exI [of _ ?t]) blast
qed

text \<open>Entry 0 waits for its child, entry 1, which exits.\<close>

definition demo_procs :: "proc list" where
  "demo_procs = (replicate NPROC idle_proc)
     [0 := idle_proc\<lparr>p_state := SLEEPING, p_chan := Some (ChanProc 0), p_pid := 1, p_kstack := 4096, p_pgdir := 4096\<rparr>,
      1 := idle_proc\<lparr>p_state := RUNNING, p_parent := Some 0, p_pid := 2, p_kstack := 4096, p_pgdir := 4096\<rparr>]"

lemma demo_procs_simps [simp]:
  "length demo_procs = NPROC" "demo_procs ! 0 = idle_proc\<lparr>p_state := SLEEPING, p_chan := Some (ChanProc 0), p_pid := 1, p_kstack := 4096, p_pgdir := 4096\<rparr>"
  "demo_procs ! Suc 0 = idle_proc\<lparr>p_state := RUNNING, p_parent := Some 0, p_pid := 2, p_kstack := 4096, p_pgdir := 4096\<rparr>"
  by (simp_all add: demo_procs_def NPROC_def)

theorem exit_wakes_parent_witness:
  "\<exists>t. exit_sched 1 (demo_vm\<lparr>procs := demo_procs, cur := Some 1\<rparr>) = Swtch t
     \<and> p_state (procs t ! 1) = ZOMBIE \<and> p_state (procs t ! 0) = RUNNABLE"
  using exit_wakes_parent [of "demo_vm\<lparr>procs := demo_procs, cur := Some 1\<rparr>" 1 0] by (auto simp: NPROC_def)

end
