(* ===== verification/Signal.thy ===== *)
theory Signal
  imports Proc
begin

text \<open>
  Signals (\<^verbatim>\<open>proc.c\<close>): registering handlers, acting on pending signals on the way back to user mode, and
  returning from a handler. Sending a signal and the two handlers that only set a flag are in \<open>Ptable\<close>, what
  the scheduler does about stopped processes in \<open>Proc\<close>. The code between \<^verbatim>\<open>start_implicit_sigret\<close> and
  \<^verbatim>\<open>done_implicit_sigret\<close>, which the assembler produces, is the parameter \<open>tramp\<close>.
\<close>

section \<open>\<^verbatim>\<open>proc.c\<close>\<close>

definition kill :: "sint32 \<Rightarrow> sint32 \<Rightarrow> ('z consst_scheme, sint32) kop" where
  "kill pid signum =
     (if signum <s 0 \<or> 31 <s signum then kret (- 1)
      else
        kseq (acquire PtableLock)
       (kbind (kget (\<lambda>s. first_index (\<lambda>p. p_pid p = pid) (procs s))) (\<lambda>r. case r of
          Some i \<Rightarrow>
            kseq (cprintf (Some (bytes ''Signsl recieved:%d'' @ [10])) [FInt signum])
           (kseq (upd_proc i (\<lambda>p. p\<lparr>p_pending_signals :=
                    p_pending_signals p OR push_bit (unat signum) 1\<rparr>))
           (kbind (get_proc i p_state) (\<lambda>st.
            kseq (kwhen (st = SLEEPING \<and> unat signum = SIGKILL)
                   (upd_proc i (\<lambda>p. p\<lparr>p_state := RUNNABLE\<rparr>)))
           (kseq (release PtableLock)
                 (kret 0)))))
        | None \<Rightarrow>
            kseq (release PtableLock) (kret (- 1)))))"

definition SIGKILL_handler :: "('z consst_scheme, unit) kop" where
  "SIGKILL_handler =
     kseq (cprintf (Some (bytes ''Killed'' @ [10])) [])
          (kbind curproc (\<lambda>p. upd_proc p (\<lambda>q. q\<lparr>p_killed := True\<rparr>)))"

text \<open>\<^verbatim>\<open>sigaction\<close>; \<open>act\<close> and \<open>oldact\<close> are user addresses. The test \<^verbatim>\<open>act->sigmask < 0\<close> compares an unsigned number and
  is never true. \<^verbatim>\<open>signum\<close> is used as an index without a test.\<close>

definition sigaction :: "sint32 \<Rightarrow> uint32 \<Rightarrow> uint32 \<Rightarrow> ('z vmem_scheme, sint32) kop" where
  "sigaction signum act oldact =
     (if unat signum = SIGKILL \<or> unat signum = SIGSTOP then kret (- 1)
      else
       kbind curproc (\<lambda>p.
       kseq (kwhen (32 \<le> unat signum) (kfault ''signal_handlers''))
      (kseq (kwhen (oldact \<noteq> 0)
              (kbind (get_proc p (\<lambda>q. p_signal_handlers q ! unat signum)) (\<lambda>h.
               kseq (ustore32 oldact h)
              (kbind (get_proc p p_signal_mask) (\<lambda>m.
               ustore32 (oldact + 4) m)))))
      (kbind (uload32 act) (\<lambda>h.
       kseq (upd_proc p (\<lambda>q. q\<lparr>p_signal_handlers := (p_signal_handlers q)[unat signum := h]\<rparr>))
      (kbind (uload32 (act + 4)) (\<lambda>m.
       kseq (upd_proc p (\<lambda>q. q\<lparr>p_signal_mask := m\<rparr>))
            (kret 0))))))))"

definition sigret :: "('z vmem_scheme, unit) kop" where
  "sigret =
     kbind curproc (\<lambda>p.
     kbind (get_proc p p_user_trap_fram_backup) (\<lambda>a.
     kbind (uload sizeof_trapframe a) (\<lambda>bs.
     kseq (upd_proc p (\<lambda>q. q\<lparr>p_tf := tf_of_bytes bs\<rparr>))
          (upd_proc p (\<lambda>q. q\<lparr>p_tf := (p_tf q)\<lparr>tf_esp := tf_esp (p_tf q) + of_nat sizeof_trapframe\<rparr>\<rparr>)))))"

definition upd_tf :: "nat \<Rightarrow> (trapframe \<Rightarrow> trapframe) \<Rightarrow> ('z ptab_scheme, unit) kop" where
  "upd_tf p f = upd_proc p (\<lambda>q. q\<lparr>p_tf := f (p_tf q)\<rparr>)"

text \<open>The artificial frame for a handler in user space: the trap frame is saved on the user stack, below it the
  code that calls \<^verbatim>\<open>sigret\<close>, the signal number and the address of that code as the return address.\<close>

definition push_handler :: "uchar list \<Rightarrow> nat \<Rightarrow> nat \<Rightarrow> ('z vmem_scheme, unit) kop" where
  "push_handler tramp p i =
     kseq (upd_tf p (\<lambda>tf. tf\<lparr>tf_esp := tf_esp tf - of_nat sizeof_trapframe\<rparr>))
    (kbind (get_proc p p_tf) (\<lambda>tf.
     kseq (ustore (tf_bytes tf) (tf_esp tf))
    (kseq (upd_proc p (\<lambda>q. q\<lparr>p_user_trap_fram_backup := tf_esp tf\<rparr>))
    (kseq (upd_tf p (\<lambda>tf. tf\<lparr>tf_esp := tf_esp tf - of_nat (length tramp)\<rparr>))
    (kbind (get_proc p (\<lambda>q. tf_esp (p_tf q))) (\<lambda>esp.
     kseq (ustore tramp esp)
    (kseq (ustore32 (esp - 4) (of_nat i))
    (kseq (ustore32 (esp - 8) esp)
    (kseq (upd_tf p (\<lambda>tf. tf\<lparr>tf_esp := tf_esp tf - 8\<rparr>))
          (upd_proc p (\<lambda>q. q\<lparr>p_tf := (p_tf q)\<lparr>tf_eip := p_signal_handlers q ! i\<rparr>\<rparr>)))))))))))"

text \<open>What is done about signal \<open>i\<close>, whose bit is \<open>sig\<close>, once it has been removed from the set.\<close>

definition sig_act :: "uchar list \<Rightarrow> nat \<Rightarrow> nat \<Rightarrow> uint32 \<Rightarrow> ('z consst_scheme, unit) kop" where
  "sig_act tramp p i sig =
     (if i = SIGSTOP then SIGSTOP_handler
      else if i = SIGKILL then SIGKILL_handler
      else
        kbind (get_proc p id) (\<lambda>P.
        if p_signal_mask P AND sig \<noteq> 0 then kret ()
        else if i = SIGCONT \<and> p_signal_handlers P ! i = SIG_DFL then
          kseq (cprintf (Some (bytes ''bennuy'' @ [10])) []) SIGCONT_handler
        else if p_signal_handlers P ! i = SIG_DFL then SIGKILL_handler
        else if p_signal_handlers P ! i = SIG_IGN then kret ()
        else
          kseq (cprintf (Some (bytes ''before backup'' @ [10])) [FInt (of_nat i)])
         (kseq (push_handler tramp p i)
               (cprintf (Some (bytes ''after backup'' @ [10])) [FInt (of_nat i)]))))"

text \<open>The body of the loop of \<^verbatim>\<open>sig_handler_runner\<close> for signal \<open>i\<close>.\<close>

definition sig_step :: "uchar list \<Rightarrow> nat \<Rightarrow> nat \<Rightarrow> ('z consst_scheme, unit) kop" where
  "sig_step tramp p i =
     kbind (get_proc p (\<lambda>q. p_pending_signals q AND push_bit i 1)) (\<lambda>sig.
     kwhen (sig \<noteq> 0)
      (kseq (cprintf (Some (bytes ''Execute (if not block) signal number %d...'' @ [10])) [FInt (of_nat i)])
      (kseq (upd_proc p (\<lambda>q. q\<lparr>p_pending_signals := p_pending_signals q XOR push_bit i 1\<rparr>))
            (sig_act tramp p i sig))))"

text \<open>\<open>tf\<close> is the trap frame of the trap that is being left; from user mode it is \<^verbatim>\<open>p->tf\<close>.\<close>

definition sig_handler_runner :: "uchar list \<Rightarrow> trapframe \<Rightarrow> ('z consst_scheme, unit) kop" where
  "sig_handler_runner tramp tf =
     (if tf_cs tf AND 3 \<noteq> DPL_USER then kret ()
      else
       kbind curproc (\<lambda>p.
       kfor [0..<32] (sig_step tramp p)))"

section \<open>Messages and frames\<close>

lemma printint_dec: "\<exists>out. printint i 10 True = Some out"
proof -
  have "(2 :: nat) ^ 32 \<le> 10 ^ Suc 9" by simp
  then have "unat (y :: uint32) < 10 ^ Suc 9" for y using unat_lt_32 [of y] by (rule less_le_trans [rotated])
  then show ?thesis using print_buf_digs(1) [of digits_lower 10 _ 9] digit_tables(1) by (simp add: printint_def Let_def)
qed

lemma messages_printable:
  "cprintf_out (bytes ''Execute (if not block) signal number %d...'' @ [10]) [FInt i] \<noteq> None"
  "cprintf_out (bytes ''Signsl recieved:%d'' @ [10]) [FInt i] \<noteq> None"
  "cprintf_out (bytes ''Killed'' @ [10]) [] \<noteq> None" "cprintf_out (bytes ''bennuy'' @ [10]) [] \<noteq> None"
  "cprintf_out (bytes ''before backup'' @ [10]) [FInt i] \<noteq> None" "cprintf_out (bytes ''after backup'' @ [10]) [FInt i] \<noteq> None"
  using printint_dec [of i] by (auto simp: bytes_def)

text \<open>What the kernel puts on the user stack for a handler, from the lowest address: the return address, the signal
  number, the code that calls \<^verbatim>\<open>sigret\<close>, the trap frame.\<close>

definition handler_frame :: "uchar list \<Rightarrow> nat \<Rightarrow> uint32 \<Rightarrow> trapframe \<Rightarrow> uchar list" where
  "handler_frame tramp i base tf = bytes32 (base + 8) @ bytes32 (of_nat i) @ tramp
     @ tf_bytes (tf\<lparr>tf_esp := base + 8 + of_nat (length tramp)\<rparr>)"

lemma push_handler_run:
  fixes s :: "'z vmem_scheme"
  assumes p: "p < length (procs s)" and P: "procs s ! p = P" and at: "seen_at s base A" and "tramp \<noteq> []"
    and fit: "unat base mod 4096 + (84 + length tramp) \<le> 4096" and esp: "tf_esp (p_tf P) = base + of_nat (84 + length tramp)"
  shows "push_handler tramp p i s = Ok () (s\<lparr>physmem := put_mem A (handler_frame tramp i base (p_tf P)) (physmem s),
      procs := (procs s)[p := P\<lparr>p_user_trap_fram_backup := base + 8 + of_nat (length tramp),
        p_tf := (p_tf P)\<lparr>tf_esp := base, tf_eip := p_signal_handlers P ! i\<rparr>\<rparr>]\<rparr>)" (is ?run)
    and "seen_at (s\<lparr>physmem := put_mem A (handler_frame tramp i base (p_tf P)) (physmem s)\<rparr>) base A"
proof -
  let ?L = "of_nat (length tramp) :: uint32"
  let ?P1 = "P\<lparr>p_tf := (p_tf P)\<lparr>tf_esp := base + 8 + ?L\<rparr>\<rparr>"
  let ?tf = "tf_bytes (p_tf ?P1)"
  let ?P2 = "P\<lparr>p_user_trap_fram_backup := base + 8 + ?L, p_tf := (p_tf P)\<lparr>tf_esp := base + 8\<rparr>\<rparr>"
  let ?s1 = "s\<lparr>procs := (procs s)[p := ?P1]\<rparr>"
  let ?m1 = "put_mem (A + of_nat (8 + length tramp)) ?tf (physmem s)"
  let ?s2 = "s\<lparr>physmem := ?m1, procs := (procs s)[p := ?P2]\<rparr>"
  let ?m2 = "put_mem (A + of_nat 8) tramp ?m1"
  let ?s3 = "?s2\<lparr>physmem := ?m2\<rparr>"
  let ?m3 = "put_mem (A + of_nat 4) (bytes32 (of_nat i)) ?m2"
  let ?s4 = "?s3\<lparr>physmem := ?m3\<rparr>"
  let ?m4 = "put_mem A (bytes32 (base + 8)) ?m3"
  have tb: "?tf \<noteq> []" "bytes32 w \<noteq> []" for w
    using length_tf_bytes [of "p_tf ?P1"] length_bytes32 [of w] by (auto simp del: length_tf_bytes length_bytes32 simp: sizeof_trapframe_def)
  have sz: "length ?tf = 76" by (simp add: sizeof_trapframe_def)
  have 1: "ustore ?tf (base + of_nat (8 + length tramp)) ?s1 = Ok () (?s1\<lparr>physmem := ?m1\<rparr>)"
    "seen_at (?s1\<lparr>physmem := ?m1\<rparr>) base A"
    using ustore_seen [of ?s1 base A "8 + length tramp" ?tf] at fit tb sz by simp_all
  have 2: "ustore tramp (base + of_nat 8) ?s2 = Ok () ?s3" "seen_at ?s3 base A"
    using ustore_seen [of ?s2 base A 8 tramp] 1(2) fit assms(4) by (simp_all add: seen_at_def)
  have 3: "ustore (bytes32 (of_nat i)) (base + of_nat 4) ?s3 = Ok () ?s4" "seen_at ?s4 base A"
    using ustore_seen [of ?s3 base A 4 "bytes32 (of_nat i)"] 2(2) fit tb by simp_all
  have 4: "ustore (bytes32 (base + 8)) base ?s4 = Ok () (?s4\<lparr>physmem := ?m4\<rparr>)" "seen_at (?s4\<lparr>physmem := ?m4\<rparr>) base A"
    using ustore_seen [of ?s4 base A 0 "bytes32 (base + 8)"] 3(2) fit tb by simp_all
  have m4: "?m4 = put_mem A (handler_frame tramp i base (p_tf P)) (physmem s)"
    using fit put_mem_append [of "bytes32 (base + 8)" "bytes32 (of_nat i) @ tramp @ ?tf" A "physmem s"]
      put_mem_append [of "bytes32 (of_nat i)" "tramp @ ?tf" "A + of_nat 4" "physmem s"]
      put_mem_append [of tramp ?tf "A + of_nat 8" "physmem s"]
    by (simp add: handler_frame_def sizeof_trapframe_def add.assoc)
  show "seen_at (s\<lparr>physmem := put_mem A (handler_frame tramp i base (p_tf P)) (physmem s)\<rparr>) base A"
    using 4(2) unfolding m4 [symmetric] by (simp add: seen_at_def)
  show ?run using 1(1) 2(1) 3(1) 4(1) p P esp
    by (simp add: push_handler_def upd_tf_def run ustore32_def sizeof_trapframe_def m4 [symmetric] algebra_simps)
qed

lemma and_single: "w AND push_bit i 1 \<noteq> (0 :: uint32) \<longleftrightarrow> i < 32 \<and> bit w i"
proof
  assume "w AND push_bit i 1 \<noteq> 0"
  then obtain j where "bit (w AND push_bit i 1) j" by (auto simp: bit_eq_iff)
  then show "i < 32 \<and> bit w i" by (auto simp: bit_simps)
next
  assume "i < 32 \<and> bit w i"
  then have "bit (w AND push_bit i 1) i" by (auto simp: bit_simps)
  then show "w AND push_bit i 1 \<noteq> 0" by auto
qed

section \<open>A handler in user space\<close>

text \<open>Signal \<open>i\<close> is pending, and the process has a handler for it and does not block it.\<close>

definition caught :: "proc \<Rightarrow> nat \<Rightarrow> bool" where
  "caught P i \<longleftrightarrow> i < 32 \<and> i \<noteq> SIGKILL \<and> i \<noteq> SIGSTOP \<and> bit (p_pending_signals P) i \<and> \<not> bit (p_signal_mask P) i
     \<and> p_signal_handlers P ! i \<noteq> SIG_DFL \<and> p_signal_handlers P ! i \<noteq> SIG_IGN"

lemma sig_step_skip:
  assumes "\<not> bit (p_pending_signals (procs s ! p)) i"
  shows "sig_step tramp p i s = Ok () s"
  using assms and_single [of "p_pending_signals (procs s ! p)" i] by (simp add: sig_step_def run)

lemma sig_step_caught:
  fixes s :: "'z consst_scheme"
  assumes s: "screen_ok s" "ConsLock \<notin> held s" "p < length (procs s)" and P: "procs s ! p = P" "caught P i"
    and at: "seen_at s base A" "tramp \<noteq> []" "unat base mod 4096 + (84 + length tramp) \<le> 4096"
    and esp: "tf_esp (p_tf P) = base + of_nat (84 + length tramp)"
  obtains t where "sig_step tramp p i s = Ok () t" and "cur t = cur s" and "cr3 t = cr3 s" and "seen_at t base A"
    and "procs t = (procs s)[p := P\<lparr>p_pending_signals := p_pending_signals P XOR push_bit i 1,
      p_user_trap_fram_backup := base + 8 + of_nat (length tramp),
      p_tf := (p_tf P)\<lparr>tf_esp := base, tf_eip := p_signal_handlers P ! i\<rparr>\<rparr>]"
    and "physmem t = put_mem A (handler_frame tramp i base (p_tf P)) (physmem s)"
proof -
  let ?P = "P\<lparr>p_pending_signals := p_pending_signals P XOR push_bit i 1\<rparr>"
  let ?Q = "?P\<lparr>p_user_trap_fram_backup := base + 8 + of_nat (length tramp), p_tf := (p_tf P)\<lparr>tf_esp := base, tf_eip := p_signal_handlers P ! i\<rparr>\<rparr>"
  obtain s1 where s1: "cprintf (Some (bytes ''Execute (if not block) signal number %d...'' @ [10])) [FInt (of_nat i)] s = Ok () s1" "quiet s s1"
    using s(1,2) messages_printable(1) by (rule cprintf_run)
  let ?s2 = "s1\<lparr>procs := (procs s)[p := ?P]\<rparr>"
  note f1 = quiet_fields [OF s1(2)]
  have q2: "screen_ok ?s2" "ConsLock \<notin> held ?s2" using f1 s(2) by (simp_all add: screen_ok_def)
  obtain s3 where s3: "cprintf (Some (bytes ''before backup'' @ [10])) [FInt (of_nat i)] ?s2 = Ok () s3" "quiet ?s2 s3"
    using q2 messages_printable(5) by (rule cprintf_run)
  note f3 = quiet_fields [OF s3(2)]
  let ?m = "put_mem A (handler_frame tramp i base (p_tf P)) (physmem s)"
  let ?s4 = "s3\<lparr>physmem := ?m, procs := (procs s)[p := ?Q]\<rparr>"
  have at3: "seen_at s3 base A" using at(1) f1 f3 by (simp add: seen_at_def)
  have ph: "push_handler tramp p i s3 = Ok () ?s4" "seen_at (s3\<lparr>physmem := ?m\<rparr>) base A"
    using push_handler_run [OF _ _ at3 at(2,3), of p ?P i] s(3) f1 f3 esp P(1) by simp_all
  have q4: "screen_ok ?s4" "ConsLock \<notin> held ?s4" using f3 q2 by (simp_all add: screen_ok_def)
  obtain s5 where s5: "cprintf (Some (bytes ''after backup'' @ [10])) [FInt (of_nat i)] ?s4 = Ok () s5" "quiet ?s4 s5"
    using q4 messages_printable(6) by (rule cprintf_run)
  note f5 = quiet_fields [OF s5(2)]
  have pm: "p_pending_signals P AND push_bit i 1 \<noteq> 0" "p_signal_mask P AND push_bit i 1 = 0"
    using P(2) and_single [of "p_pending_signals P" i] and_single [of "p_signal_mask P" i] by (simp_all add: caught_def)
  have "p_signal_mask P AND (p_pending_signals P AND push_bit i 1) = p_pending_signals P AND (p_signal_mask P AND push_bit i 1)"
    by (rule and.left_commute)
  also have "\<dots> = 0" by (simp only: pm(2) and_zero_eq)
  finally have "p_signal_mask P AND (p_pending_signals P AND push_bit i 1) = 0" .
  with pm(1) s1(1) s3(1) ph(1) s5(1) have "sig_step tramp p i s = Ok () s5"
    using P s(3) f1 f3 by (simp add: sig_step_def sig_act_def run caught_def)
  moreover have "seen_at ?s4 base A" using ph(2) by (simp add: seen_at_def)
  ultimately show ?thesis using f1 f3 f5 s(3) by (intro that [of s5]) (simp_all add: seen_at_def)
qed

text \<open>
  C2. A caught signal is handled in user space and leaves no trace there. When one signal is pending that the
  process catches, and the top of its stack lies in a writable page, the way back to user mode clears the
  signal and starts the handler with, on the stack, its return address, the signal number, the code that
  calls \<^verbatim>\<open>sigret\<close> and the registers; and \<^verbatim>\<open>sigret\<close>, whatever the handler did to the registers and to other memory,
  brings back every register the process had, the stack pointer included.
\<close>

theorem sigret_restores:
  fixes s :: "'z consst_scheme"
  assumes "cur s = Some p" and "p < length (procs s)" and "procs s ! p = P" and "screen_ok s" and "ConsLock \<notin> held s"
    and "tf_cs tf AND 3 = DPL_USER" and "caught P i" and "p_pending_signals P = push_bit i 1"
    and "upage_ok (physmem s) (P2V (cr3 s)) base" and "tramp \<noteq> []" and "unat base mod 4096 + (84 + length tramp) \<le> 4096"
    and "tf_esp (p_tf P) = base + of_nat (84 + length tramp)"
  shows "\<exists>t. sig_handler_runner tramp tf s = Ok () t \<and> cur t = Some p
    \<and> procs t = (procs s)[p := P\<lparr>p_pending_signals := 0, p_user_trap_fram_backup := base + 8 + of_nat (length tramp),
        p_tf := (p_tf P)\<lparr>tf_esp := base, tf_eip := p_signal_handlers P ! i\<rparr>\<rparr>]
    \<and> uload (84 + length tramp) base t = Ok (handler_frame tramp i base (p_tf P)) t
    \<and> (\<exists>bs. uload sizeof_trapframe (p_user_trap_fram_backup (procs t ! p)) t = Ok bs t
        \<and> (\<forall>u :: 'z consst_scheme. cur u = Some p \<and> p < length (procs u)
              \<and> p_user_trap_fram_backup (procs u ! p) = p_user_trap_fram_backup (procs t ! p)
              \<and> uload sizeof_trapframe (p_user_trap_fram_backup (procs u ! p)) u = Ok bs u
            \<longrightarrow> (\<exists>v. sigret u = Ok () v \<and> p_tf (procs v ! p) = p_tf P)))"
proof -
  let ?L = "length tramp" and ?F = "handler_frame tramp i base (p_tf P)"
  obtain A where A: "seen_at s base A" using assms(9) by (simp add: seen_at_def)
  obtain t where t: "sig_step tramp p i s = Ok () t" "cur t = cur s" "seen_at t base A"
      "procs t = (procs s)[p := P\<lparr>p_pending_signals := p_pending_signals P XOR push_bit i 1,
        p_user_trap_fram_backup := base + 8 + of_nat ?L, p_tf := (p_tf P)\<lparr>tf_esp := base, tf_eip := p_signal_handlers P ! i\<rparr>\<rparr>]"
      "physmem t = put_mem A ?F (physmem s)"
    using assms(4,5,2,3,7) A assms(10-12) by (rule sig_step_caught)
  have pt: "p_pending_signals (procs t ! p) = 0" using t(4) assms(2,8) by simp
  have i: "i < 32" using assms(7) by (simp add: caught_def)
  have split: "[0..<32] = [0..<i] @ i # [Suc i..<32]" using i upt_add_eq_append [of 0 i "32 - i"] upt_conv_Cons [of i 32] by simp
  have "kfor [0..<32] (sig_step tramp p) s = Ok () t" unfolding split
  proof (rule kfor_one)
    show "sig_step tramp p i s = Ok () t" by (rule t(1))
    show "\<forall>j\<in>set [0..<i]. sig_step tramp p j s = Ok () s"
      using assms(3,8) by (auto intro!: sig_step_skip simp: bit_simps)
    show "\<forall>j\<in>set [Suc i..<32]. sig_step tramp p j t = Ok () t" using pt by (auto intro!: sig_step_skip)
  qed
  then have rn: "sig_handler_runner tramp tf s = Ok () t" using assms(1,6) by (simp add: sig_handler_runner_def run)
  have lF: "length ?F = 84 + ?L" by (simp add: handler_frame_def sizeof_trapframe_def)
  have ld: "uload (84 + ?L) base t = Ok ?F t" using uload_put_mem [OF t(3) _ t(5)] assms(11) lF by simp
  let ?bs = "tf_bytes ((p_tf P)\<lparr>tf_esp := base + 8 + of_nat ?L\<rparr>)"
  have "uload ((8 + ?L) + sizeof_trapframe) base t = Ok ?F t" using ld by (simp add: sizeof_trapframe_def)
  from uload_suffix [OF this] have bs: "uload sizeof_trapframe (base + 8 + of_nat ?L) t = Ok ?bs t"
    by (simp add: handler_frame_def add.assoc)
  have e: "base + 8 + of_nat ?L + of_nat sizeof_trapframe = tf_esp (p_tf P)" using assms(12) by (simp add: sizeof_trapframe_def)
  have ret: "\<exists>v. sigret u = Ok () v \<and> p_tf (procs v ! p) = p_tf P"
    if "cur u = Some p" "p < length (procs u)" "uload sizeof_trapframe (p_user_trap_fram_backup (procs u ! p)) u = Ok ?bs u"
    for u :: "'z consst_scheme"
    using that by (simp add: sigret_def run tf_of_bytes_bytes e)
  show ?thesis using rn pt ld bs ret t(2,4) assms(1,2,8) by (intro exI [of _ t]) auto
qed

text \<open>A page directory at physical address 1M, one page table after it, and one user page, at user address 4096.\<close>

definition demo_mem :: mem where
  "demo_mem = (\<lambda>_. 0)(0x80100000 := 7, 0x80100001 := 0x10, 0x80100002 := 0x10,
     0x80101004 := 7, 0x80101005 := 0x20, 0x80101006 := 0x10)"

definition demo_sig :: consst where
  "demo_sig = (demo_console zero_input 0)\<lparr>physmem := demo_mem, cr3 := 0x100000, procs := [idle_proc\<lparr>p_state := RUNNING,
     p_pending_signals := push_bit 5 1, p_signal_handlers := (replicate 32 0)[5 := 0x100],
     p_tf := zero_tf\<lparr>tf_esp := 0x185B, tf_eax := 42, tf_cs := 0x1B\<rparr>\<rparr>]\<rparr>"

lemma demo_page: "upage_ok demo_mem 0x80100000 0x1800"
proof -
  have "pdx 0x1800 = 0" "ptx 0x1800 = 1" by (simp_all add: pdx_def ptx_def PDX_def PTX_def)
  then show ?thesis
    by (simp add: upage_ok_def frame_def pte_of_def tbl_def ent_def slot_def load32_def demo_mem_def present_def
        PTE_P_def PTE_W_def PTE_ADDR_def P2V_def KERNBASE_def page_of_def)
qed

theorem sigret_restores_witness:
  "\<exists>t. sig_handler_runner [0xB8, 24, 0, 0, 0, 0xCD, 64] (p_tf (procs demo_sig ! 0)) demo_sig = Ok () t
     \<and> tf_eip (p_tf (procs t ! 0)) = 0x100 \<and> tf_esp (p_tf (procs t ! 0)) = 0x1800
     \<and> (\<exists>v. sigret t = Ok () v \<and> p_tf (procs v ! 0) = p_tf (procs demo_sig ! 0))"
proof -
  let ?P = "procs demo_sig ! 0"
  have c: "caught ?P 5" by (simp add: demo_sig_def caught_def SIGKILL_def SIGSTOP_def SIG_DFL_def SIG_IGN_def idle_proc_def bit_simps)
  have s: "cur demo_sig = Some 0" "length (procs demo_sig) = 1" "screen_ok demo_sig" "held demo_sig = {}"
    using demo_console_ok [of 0 zero_input] by (simp_all add: demo_sig_def screen_ok_def)
  have d: "physmem demo_sig = demo_mem" "P2V (cr3 demo_sig) = 0x80100000" "p_pending_signals ?P = push_bit 5 1"
    "tf_cs (p_tf ?P) AND 3 = DPL_USER" "tf_esp (p_tf ?P) = 0x185B" "p_signal_handlers ?P ! 5 = 0x100"
    by (simp_all add: demo_sig_def P2V_def KERNBASE_def DPL_USER_def)
  from sigret_restores [of demo_sig 0 ?P "p_tf ?P" 5 "0x1800" "[0xB8, 24, 0, 0, 0, 0xCD, 64]"] s c d demo_page
  obtain t bs where t: "sig_handler_runner [0xB8, 24, 0, 0, 0, 0xCD, 64] (p_tf ?P) demo_sig = Ok () t"
    "cur t = Some 0" "procs t = (procs demo_sig)[0 := ?P\<lparr>p_pending_signals := 0, p_user_trap_fram_backup := 0x1800 + 8 + 7,
       p_tf := (p_tf ?P)\<lparr>tf_esp := 0x1800, tf_eip := 0x100\<rparr>\<rparr>]"
    "uload sizeof_trapframe (p_user_trap_fram_backup (procs t ! 0)) t = Ok bs t"
    "\<forall>u :: consst. cur u = Some 0 \<and> 0 < length (procs u)
       \<and> p_user_trap_fram_backup (procs u ! 0) = p_user_trap_fram_backup (procs t ! 0)
       \<and> uload sizeof_trapframe (p_user_trap_fram_backup (procs u ! 0)) u = Ok bs u
       \<longrightarrow> (\<exists>v. sigret u = Ok () v \<and> p_tf (procs v ! 0) = p_tf ?P)" by auto
  have "0 < length (procs t)" "procs t ! 0 = ?P\<lparr>p_pending_signals := 0, p_user_trap_fram_backup := 0x1800 + 8 + 7,
       p_tf := (p_tf ?P)\<lparr>tf_esp := 0x1800, tf_eip := 0x100\<rparr>\<rparr>" using s(2) by (simp_all add: t(3))
  then show ?thesis using t(1,2,4,5) by auto
qed

section \<open>Signals without a handler\<close>

text \<open>A pending signal that kills the process, and one that lets it continue.\<close>

definition fatal :: "proc \<Rightarrow> nat \<Rightarrow> bool" where
  "fatal P i \<longleftrightarrow> bit (p_pending_signals P) i \<and> (i = SIGKILL \<or> i \<noteq> SIGSTOP \<and> i \<noteq> SIGCONT
     \<and> \<not> bit (p_signal_mask P) i \<and> p_signal_handlers P ! i = SIG_DFL)"

definition continued :: "proc \<Rightarrow> bool" where
  "continued P \<longleftrightarrow> bit (p_pending_signals P) SIGCONT \<and> \<not> bit (p_signal_mask P) SIGCONT \<and> p_signal_handlers P ! SIGCONT = SIG_DFL"

text \<open>The process after the signals below \<open>k\<close>.\<close>

definition signalled :: "nat \<Rightarrow> proc \<Rightarrow> proc" where
  "signalled k P = P\<lparr>p_pending_signals := p_pending_signals P AND NOT (mask k),
     p_killed := (p_killed P \<or> (\<exists>i<k. fatal P i)),
     p_freeze := ((p_freeze P \<or> SIGSTOP < k \<and> bit (p_pending_signals P) SIGSTOP) \<and> \<not> (SIGCONT < k \<and> continued P))\<rparr>"

lemma wp_sigkill:
  fixes s :: "'z consst_scheme"
  assumes "screen_ok s" and "ConsLock \<notin> held s" and "cur s = Some p"
  shows "wpk SIGKILL_handler (\<lambda>_ t. screen_ok t \<and> held t = held s \<and> cur t = cur s
    \<and> procs t = (procs s)[p := (procs s ! p)\<lparr>p_killed := True\<rparr>]) s"
proof -
  obtain t where t: "cprintf (Some (bytes ''Killed'' @ [10])) [] s = Ok () t" "quiet s t"
    using assms(1,2) messages_printable(3) by (rule cprintf_run)
  show ?thesis using t(1) quiet_fields [OF t(2)] assms by (simp add: SIGKILL_handler_def wpk_def run screen_ok_def)
qed

lemma pending_clear:
  fixes w :: uint32
  assumes "k < 32"
  shows "bit (w AND NOT (mask k)) k = bit w k"
    and "bit w k \<Longrightarrow> (w AND NOT (mask k)) XOR push_bit k 1 = w AND NOT (mask (Suc k))"
    and "\<not> bit w k \<Longrightarrow> w AND NOT (mask k) = w AND NOT (mask (Suc k))"
  using assms by (auto intro!: bit_word_eqI simp: bit_simps less_Suc_eq)

lemma signalled_Suc:
  assumes "k < 32"
  shows "signalled (Suc k) P = (signalled k P)\<lparr>p_pending_signals := p_pending_signals P AND NOT (mask (Suc k)),
     p_killed := (p_killed (signalled k P) \<or> fatal P k),
     p_freeze := (if bit (p_pending_signals P) k then if k = SIGSTOP then True
                  else if k = SIGCONT \<and> continued P then False else p_freeze (signalled k P) else p_freeze (signalled k P))\<rparr>"
  by (rule proc.equality) (auto simp: signalled_def less_Suc_eq SIGSTOP_def SIGCONT_def continued_def)

lemma signalled_cases:
  fixes P k
  defines "Q \<equiv> (signalled k P)\<lparr>p_pending_signals := p_pending_signals P AND NOT (mask (Suc k))\<rparr>"
  assumes "k < 32" and "bit (p_pending_signals P) k"
  obtains (stop) "k = SIGSTOP" and "signalled (Suc k) P = Q\<lparr>p_freeze := True\<rparr>"
  | (kill) "k = SIGKILL \<or> \<not> bit (p_signal_mask P) k \<and> p_signal_handlers P ! k = SIG_DFL" and "k \<noteq> SIGSTOP" and "k \<noteq> SIGCONT"
      and "signalled (Suc k) P = Q\<lparr>p_killed := True\<rparr>"
  | (cont) "k = SIGCONT" and "\<not> bit (p_signal_mask P) k" and "p_signal_handlers P ! k = SIG_DFL"
      and "signalled (Suc k) P = Q\<lparr>p_freeze := False\<rparr>"
  | (none) "k \<noteq> SIGSTOP" and "k \<noteq> SIGKILL" and "bit (p_signal_mask P) k \<or> p_signal_handlers P ! k \<noteq> SIG_DFL"
      and "signalled (Suc k) P = Q"
proof -
  note S = signalled_Suc [OF assms(2), of P]
  consider "k = SIGSTOP" | "fatal P k" | "k = SIGCONT" "continued P" | "k \<noteq> SIGSTOP" "\<not> fatal P k" "\<not> (k = SIGCONT \<and> continued P)"
    by blast
  then show thesis
  proof cases
    case 1
    then have "signalled (Suc k) P = Q\<lparr>p_freeze := True\<rparr>"
      unfolding S Q_def using assms(3) by (intro proc.equality) (simp_all add: fatal_def SIGSTOP_def SIGKILL_def)
    with 1 show ?thesis by (rule stop)
  next
    case 2
    then have n: "k \<noteq> SIGSTOP" "k \<noteq> SIGCONT" by (auto simp: fatal_def SIGSTOP_def SIGKILL_def SIGCONT_def)
    with 2 have "signalled (Suc k) P = Q\<lparr>p_killed := True\<rparr>" unfolding S Q_def by (intro proc.equality) simp_all
    with 2 n show ?thesis by (intro kill) (auto simp: fatal_def)
  next
    case 3
    then have "signalled (Suc k) P = Q\<lparr>p_freeze := False\<rparr>"
      unfolding S Q_def using assms(3) by (intro proc.equality) (simp_all add: fatal_def SIGSTOP_def SIGKILL_def SIGCONT_def)
    with 3 show ?thesis by (intro cont) (auto simp: continued_def)
  next
    case 4
    then have "signalled (Suc k) P = Q"
      unfolding S Q_def using assms(3) by (intro proc.equality) auto
    with 4 show ?thesis using assms(3) by (intro none) (auto simp: fatal_def continued_def)
  qed
qed

lemma sig_step_default:
  fixes s :: "'z consst_scheme"
  assumes "cprintf (Some (bytes ''Execute (if not block) signal number %d...'' @ [10])) [FInt (of_nat k)] s = Ok () t"
    and "procs t = procs s" and "procs s ! p = Q" and "p < length (procs s)"
    and "bit (p_pending_signals Q) k" and "k < 32" and "\<not> caught Q k"
  shows "sig_step tramp p k s = (if k = SIGSTOP then SIGSTOP_handler else if k = SIGKILL then SIGKILL_handler
     else if bit (p_signal_mask Q) k then kret ()
     else if k = SIGCONT \<and> p_signal_handlers Q ! k = SIG_DFL then kseq (cprintf (Some (bytes ''bennuy'' @ [10])) []) SIGCONT_handler
     else if p_signal_handlers Q ! k = SIG_DFL then SIGKILL_handler else kret ())
       (t\<lparr>procs := (procs s)[p := Q\<lparr>p_pending_signals := p_pending_signals Q XOR push_bit k 1\<rparr>]\<rparr>)"
proof -
  have m: "(p_signal_mask Q AND (p_pending_signals Q AND push_bit k 1) = 0) = (\<not> bit (p_signal_mask Q) k)"
    using and_single [of "p_signal_mask Q AND p_pending_signals Q" k] assms(5,6) by (auto simp: bit_simps and.assoc)
  have n: "p_pending_signals Q AND push_bit k 1 \<noteq> 0" using and_single [of "p_pending_signals Q" k] assms(5,6) by auto
  have "k = SIGSTOP \<or> k = SIGKILL \<or> bit (p_signal_mask Q) k \<or> p_signal_handlers Q ! k = SIG_DFL \<or> p_signal_handlers Q ! k = SIG_IGN"
    using assms(5-7) by (auto simp: caught_def)
  then show ?thesis using assms(1-4) m n by (elim disjE) (simp_all add: sig_step_def sig_act_def run)
qed

lemma sig_step_uncaught:
  fixes s :: "'z consst_scheme"
  assumes s: "screen_ok s" "ConsLock \<notin> held s" "cur s = Some p" "p < length (procs s)" and k: "k < 32"
    and P: "procs s ! p = signalled k P" "\<not> caught P k" "p_state P \<noteq> SLEEPING"
  shows "wpk (sig_step tramp p k) (\<lambda>_ t. screen_ok t \<and> held t = held s \<and> cur t = cur s
    \<and> procs t = (procs s)[p := signalled (Suc k) P]) s"
proof (cases "bit (p_pending_signals P) k")
  case False
  have "signalled (Suc k) P = signalled k P"
    using False pending_clear(3) [OF k] unfolding signalled_Suc [OF k] by (simp add: fatal_def) (simp add: signalled_def)
  moreover have "sig_step tramp p k s = Ok () s"
    using False P(1) pending_clear(1) [OF k] by (intro sig_step_skip) (simp add: signalled_def)
  moreover have "(procs s)[p := signalled k P] = procs s" using P(1) list_update_id by metis
  ultimately show ?thesis using s by (intro wpkI) auto
next
  case True
  let ?P = "(signalled k P)\<lparr>p_pending_signals := p_pending_signals P AND NOT (mask (Suc k))\<rparr>"
  obtain s1 where s1: "cprintf (Some (bytes ''Execute (if not block) signal number %d...'' @ [10])) [FInt (of_nat k)] s = Ok () s1" "quiet s s1"
    using s(1,2) messages_printable(1) by (rule cprintf_run)
  let ?s = "s1\<lparr>procs := (procs s)[p := ?P]\<rparr>"
  note f1 = quiet_fields [OF s1(2)]
  have q: "screen_ok ?s" "ConsLock \<notin> held ?s" "cur ?s = Some p" using f1 s by (simp_all add: screen_ok_def)
  let ?fin = "if k = SIGSTOP then SIGSTOP_handler else if k = SIGKILL then SIGKILL_handler
     else if bit (p_signal_mask P) k then kret ()
     else if k = SIGCONT \<and> p_signal_handlers P ! k = SIG_DFL then kseq (cprintf (Some (bytes ''bennuy'' @ [10])) []) SIGCONT_handler
     else if p_signal_handlers P ! k = SIG_DFL then SIGKILL_handler else kret ()"
  have sp: "p_signal_mask (signalled k P) = p_signal_mask P" "p_signal_handlers (signalled k P) = p_signal_handlers P"
    "bit (p_pending_signals (signalled k P)) k" "\<not> caught (signalled k P) k"
    "p_pending_signals (signalled k P) XOR push_bit k 1 = p_pending_signals P AND NOT (mask (Suc k))"
    using pending_clear(1,2) [OF k, of "p_pending_signals P"] True P(2) by (simp_all add: signalled_def caught_def)
  have "sig_step tramp p k s = ?fin ?s"
    using sig_step_default [OF s1(1) f1(4) P(1) s(4) sp(3) k sp(4), of tramp] unfolding sp(1,2,5) .
  moreover have "wpk ?fin (\<lambda>_ t. screen_ok t \<and> held t = held s \<and> cur t = cur s
    \<and> procs t = (procs s)[p := signalled (Suc k) P]) ?s"
  proof -
    note len = s(4)
    show ?thesis using k True
    proof (cases rule: signalled_cases)
      case stop
      have "p_state (signalled k P) \<noteq> SLEEPING" using P(3) by (simp add: signalled_def)
      then have "wpk SIGSTOP_handler (\<lambda>_ t. screen_ok t \<and> held t = held s \<and> cur t = cur s
        \<and> procs t = (procs s)[p := signalled (Suc k) P]) ?s"
        unfolding stop(2) using q f1 len by (simp add: SIGSTOP_handler_def wpk_def run screen_ok_def)
      then show ?thesis using stop(1) by simp
    next
      case kill
      have "wpk SIGKILL_handler (\<lambda>_ t. screen_ok t \<and> held t = held s \<and> cur t = cur s
        \<and> procs t = (procs s)[p := signalled (Suc k) P]) ?s"
        by (rule wpk_mono [OF wp_sigkill [OF q]]) (use f1 len kill(4) in simp)
      then show ?thesis using kill(1-3) by auto
    next
      case cont
      obtain t where t: "cprintf (Some (bytes ''bennuy'' @ [10])) [] ?s = Ok () t" "quiet ?s t"
        using q(1,2) messages_printable(4) by (rule cprintf_run)
      show ?thesis using t(1) quiet_fields [OF t(2)] cont q f1 len
        by (simp add: SIGCONT_handler_def wpk_def run screen_ok_def SIGCONT_def SIGSTOP_def SIGKILL_def)
    next
      case none
      then show ?thesis using q f1 by (auto simp: wpk_def run)
    qed
  qed
  ultimately show ?thesis by (simp add: wpk_def)
qed

lemma signals_uncaught:
  fixes s :: "'z consst_scheme"
  assumes "cur s = Some p" and "p < length (procs s)" and "procs s ! p = P" and "screen_ok s" and "ConsLock \<notin> held s"
    and "tf_cs tf AND 3 = DPL_USER" and "p_state P \<noteq> SLEEPING" and "\<forall>i. \<not> caught P i"
  shows "\<exists>t. sig_handler_runner tramp tf s = Ok () t \<and> screen_ok t \<and> held t = held s \<and> cur t = cur s
    \<and> procs t = (procs s)[p := P\<lparr>p_pending_signals := 0,
        p_killed := (p_killed P \<or> (\<exists>i<32. fatal P i)),
        p_freeze := ((p_freeze P \<or> bit (p_pending_signals P) SIGSTOP) \<and> \<not> continued P)\<rparr>]"
proof -
  let ?I = "\<lambda>pre t. screen_ok t \<and> held t = held s \<and> cur t = cur s \<and> procs t = (procs s)[p := signalled (length pre) P]"
  have s0: "signalled 0 P = P" by (simp add: signalled_def)
  have "wpk (kfor [0..<32] (sig_step tramp p)) (\<lambda>_. ?I [0..<32]) s"
  proof (rule wp_for [where I = ?I])
    show "?I [] s" using assms(3,4) list_update_id [of "procs s" p] by (simp add: s0)
    fix pre k rest and t :: "'z consst_scheme"
    assume pre: "[0..<32] = pre @ k # rest" and t: "?I pre t"
    have "length pre < length [0..<32]" unfolding pre by simp
    then have l: "length pre < 32" by simp
    have "[0..<32] ! length pre = k" unfolding pre by simp
    then have k: "k = length pre" using l by simp
    show "wpk (sig_step tramp p k) (\<lambda>_. ?I (pre @ [k])) t"
      using sig_step_uncaught [of t p k P tramp] t assms l by (simp add: k)
  qed
  then obtain t where t: "kfor [0..<32] (sig_step tramp p) s = Ok () t" "?I [0..<32] t" by (rule wpkE) simp
  have "p_pending_signals P AND NOT (mask 32) = 0" by (rule bit_word_eqI) (simp add: bit_simps)
  then have "signalled 32 P = P\<lparr>p_pending_signals := 0, p_killed := (p_killed P \<or> (\<exists>i<32. fatal P i)),
        p_freeze := ((p_freeze P \<or> bit (p_pending_signals P) SIGSTOP) \<and> \<not> continued P)\<rparr>"
    by (simp add: signalled_def SIGSTOP_def SIGCONT_def)
  then show ?thesis using t assms(1,6) by (intro exI [of _ t]) (simp add: sig_handler_runner_def run)
qed

text \<open>
  C39. Pending signals that no handler catches, on the way back to user mode: afterwards no signal is pending; the process is
  killed exactly when it was before, or \<^verbatim>\<open>SIGKILL\<close> was pending, whatever the mask and the handlers are, or
  another signal with the default action that is not blocked; it is stopped exactly when it was before or
  \<^verbatim>\<open>SIGSTOP\<close> was pending, unless \<^verbatim>\<open>SIGCONT\<close> was pending too, not blocked and with its default action. A signal that is
  blocked is dropped, not kept for later.
\<close>

theorem pending_signals_spec:
  fixes s :: "'z consst_scheme"
  assumes "cur s = Some p" and "p < length (procs s)" and "procs s ! p = P" and "screen_ok s" and "ConsLock \<notin> held s"
    and "tf_cs tf AND 3 = DPL_USER" and "p_state P \<noteq> SLEEPING" and "\<forall>i. \<not> caught P i"
  shows "\<exists>t. sig_handler_runner tramp tf s = Ok () t \<and> screen_ok t \<and> held t = held s \<and> cur t = cur s
    \<and> procs t = (procs s)[p := P\<lparr>p_pending_signals := 0,
        p_killed := (p_killed P \<or> (\<exists>i<32. fatal P i)),
        p_freeze := ((p_freeze P \<or> bit (p_pending_signals P) SIGSTOP) \<and> \<not> continued P)\<rparr>]"
  using assms by (rule signals_uncaught)

theorem pending_signals_spec_witness:
  "\<exists>t. sig_handler_runner [] (zero_tf\<lparr>tf_cs := 0x1B\<rparr>) (demo_sig\<lparr>procs := [idle_proc\<lparr>p_state := RUNNING, p_signal_mask := - 1,
        p_signal_handlers := replicate 32 SIG_IGN, p_pending_signals := 0x20208\<rparr>]\<rparr>) = Ok () t
     \<and> p_killed (procs t ! 0) \<and> p_freeze (procs t ! 0) \<and> p_pending_signals (procs t ! 0) = 0"
proof -
  let ?P = "idle_proc\<lparr>p_state := RUNNING, p_signal_mask := - 1, p_signal_handlers := replicate 32 SIG_IGN, p_pending_signals := 0x20208\<rparr>"
  let ?s = "demo_sig\<lparr>procs := [?P]\<rparr>"
  have s: "cur ?s = Some 0" "screen_ok ?s" "held ?s = {}"
    using demo_console_ok [of 0 zero_input] by (simp_all add: demo_sig_def screen_ok_def)
  have b: "bit (0x20208 :: uint32) 9" "bit (0x20208 :: uint32) 17" by (simp_all add: bit_numeral_rec)
  then have "fatal ?P 9" "\<not> continued ?P" "\<forall>i. \<not> caught ?P i"
    by (simp_all add: fatal_def continued_def caught_def SIGKILL_def SIGCONT_def SIG_IGN_def SIG_DFL_def)
  then show ?thesis using pending_signals_spec [of ?s 0 ?P "zero_tf\<lparr>tf_cs := 0x1B\<rparr>" "[]"] s b
    by (auto simp: DPL_USER_def SIGSTOP_def)
qed

text \<open>\<^verbatim>\<open>sigaction\<close> reads and writes outside the table of handlers for a number that is not a signal.\<close>

lemma sigaction_unchecked:
  fixes s :: "'z vmem_scheme"
  assumes "cur s = Some p" and "32 \<le> unat signum"
  shows "sigaction signum act oldact s = Fault ''signal_handlers''"
  using assms by (simp add: sigaction_def run SIGKILL_def SIGSTOP_def)

section \<open>Sending a signal\<close>

text \<open>
  C22. \<^verbatim>\<open>kill\<close>. A signal number outside 0--31, or a pid that no entry of the table has, is
  refused with -1 and nothing changes. Otherwise the first entry with the pid, and no
  other, gets the signal's bit in \<^verbatim>\<open>pending_signals\<close>, keeping the bits that were there, and
  becomes runnable exactly when it is asleep and the signal is \<^verbatim>\<open>SIGKILL\<close>; every other field
  is kept, and apart from a message on the console nothing else changes.
\<close>

theorem kill_spec:
  fixes s :: "'z consst_scheme"
  assumes "PtableLock \<notin> held s" and "ConsLock \<notin> held s" and "screen_ok s"
  shows "if signum <s 0 \<or> 31 <s signum then kill pid signum s = Ok (- 1) s
     else case first_index (\<lambda>p. p_pid p = pid) (procs s) of None \<Rightarrow> kill pid signum s = Ok (- 1) s
     | Some i \<Rightarrow> \<exists>t. kill pid signum s = Ok 0 t \<and> quiet (s\<lparr>procs := (procs s)[i := (procs s ! i)\<lparr>
           p_pending_signals := p_pending_signals (procs s ! i) OR push_bit (unat signum) 1,
           p_state := if p_state (procs s ! i) = SLEEPING \<and> unat signum = SIGKILL then RUNNABLE
                      else p_state (procs s ! i)\<rparr>]\<rparr>) t"
proof (cases "(signum <s 0 \<or> 31 <s signum) \<or> first_index (\<lambda>p. p_pid p = pid) (procs s) = None")
  case True
  then show ?thesis using assms(1) by (auto simp: kill_def run)
next
  case False
  then obtain i where i: "first_index (\<lambda>p. p_pid p = pid) (procs s) = Some i" and sg: "\<not> (signum <s 0 \<or> 31 <s signum)" by auto
  let ?s = "s\<lparr>held := insert PtableLock (held s)\<rparr>"
  have "screen_ok ?s" "ConsLock \<notin> held ?s" using assms by (simp_all add: screen_ok_def)
  then obtain u where u: "cprintf (Some (bytes ''Signsl recieved:%d'' @ [10])) [FInt signum] ?s = Ok () u" "quiet ?s u"
    using messages_printable(2) by (rule cprintf_run)
  from u(2) obtain out cells cu where ue: "screen_ok u" "u = ?s\<lparr>serial := out, crt := cells, cursor := cu\<rparr>"
    by (auto simp: quiet_def)
  let ?P = "(procs s ! i)\<lparr>p_pending_signals := p_pending_signals (procs s ! i) OR push_bit (unat signum) 1,
           p_state := if p_state (procs s ! i) = SLEEPING \<and> unat signum = SIGKILL then RUNNABLE
                      else p_state (procs s ! i)\<rparr>"
  let ?t = "s\<lparr>procs := (procs s)[i := ?P], serial := out, crt := cells, cursor := cu\<rparr>"
  have "kill pid signum s = Ok 0 ?t"
    using first_index_SomeD(1) [OF i] i sg u(1) assms(1) by (auto simp: kill_def run ue(2))
  moreover have "quiet (s\<lparr>procs := (procs s)[i := ?P]\<rparr>) ?t"
    using ue unfolding quiet_def by (auto simp: screen_ok_def)
  ultimately show ?thesis using i sg by auto
qed

theorem kill_spec_witness:
  "\<exists>t. kill 1 9 (demo_sig\<lparr>procs := [idle_proc\<lparr>p_state := SLEEPING, p_pid := 1, p_pending_signals := 4\<rparr>]\<rparr>) = Ok 0 t
     \<and> procs t = [idle_proc\<lparr>p_state := RUNNABLE, p_pid := 1, p_pending_signals := 516\<rparr>]"
proof -
  let ?s = "demo_sig\<lparr>procs := [idle_proc\<lparr>p_state := SLEEPING, p_pid := 1, p_pending_signals := 4\<rparr>]\<rparr>"
  have s: "screen_ok ?s" "held ?s = {}"
    using demo_console_ok [of 0 zero_input] by (simp_all add: demo_sig_def screen_ok_def)
  have "\<not> (9 :: sint32) <s 0" and "\<not> 31 <s (9 :: sint32)" by code_simp+
  then show ?thesis
    using kill_spec [of ?s 9 1] s quiet_fields(4) by (fastforce simp: idle_proc_def SIGKILL_def)
qed

end
