(* ===== verification/Syscall.thy ===== *)
theory Syscall
  imports Signal
begin

text \<open>
  Arguments of system calls (\<^verbatim>\<open>syscall.c\<close>) and the system calls on processes (\<^verbatim>\<open>sysproc.c\<close>). A routine
  that returns -1 or sets a variable returns an option; a string in user memory is passed on as its bytes.
\<close>

section \<open>Arguments\<close>

definition fetchint :: "uint32 \<Rightarrow> ('z vmem_scheme, sint32 option) kop" where
  "fetchint addr =
     kbind curproc (\<lambda>p.
     kbind (get_proc p p_sz) (\<lambda>sz.
     if sz \<le> addr \<or> sz < addr + 4 then kret None
     else kbind (uload32 addr) (\<lambda>w. kret (Some w))))"

text \<open>The loop of \<^verbatim>\<open>fetchstr\<close>; \<open>n\<close> is the distance to \<^verbatim>\<open>ep\<close>.\<close>

primrec fetchstr_loop :: "nat \<Rightarrow> uint32 \<Rightarrow> ('z vmem_scheme, uchar list option) kop" where
  "fetchstr_loop 0 va = kret None"
| "fetchstr_loop (Suc n) va =
     kbind (uload1 va) (\<lambda>b.
     if b = 0 then kret (Some [])
     else kbind (fetchstr_loop n (va + 1)) (\<lambda>r. kret (map_option ((#) b) r)))"

definition fetchstr :: "uint32 \<Rightarrow> ('z vmem_scheme, uchar list option) kop" where
  "fetchstr addr =
     kbind curproc (\<lambda>p.
     kbind (get_proc p p_sz) (\<lambda>sz.
     if sz \<le> addr then kret None
     else fetchstr_loop (unat (sz - addr)) addr))"

definition argint :: "nat \<Rightarrow> ('z vmem_scheme, sint32 option) kop" where
  "argint n =
     kbind curproc (\<lambda>p.
     kbind (get_proc p (\<lambda>q. tf_esp (p_tf q))) (\<lambda>esp.
     fetchint (esp + 4 + 4 * of_nat n)))"

definition argptr :: "nat \<Rightarrow> sint32 \<Rightarrow> ('z vmem_scheme, uint32 option) kop" where
  "argptr n sz =
     kbind curproc (\<lambda>p.
     kbind (argint n) (\<lambda>io. case io of None \<Rightarrow> kret None | Some i \<Rightarrow>
     kbind (get_proc p p_sz) (\<lambda>psz.
     if sz <s 0 \<or> psz \<le> i \<or> psz < i + sz then kret None
     else kret (Some i))))"

definition argstr :: "nat \<Rightarrow> ('z vmem_scheme, uchar list option) kop" where
  "argstr n = kbind (argint n) (\<lambda>ao. case ao of None \<Rightarrow> kret None | Some addr \<Rightarrow> fetchstr addr)"

text \<open>A system call returns -1 where an argument cannot be fetched.\<close>

definition orfail :: "('s, 'a option) kop \<Rightarrow> ('a \<Rightarrow> ('s, sint32) kop) \<Rightarrow> ('s, sint32) kop" where
  "orfail m f = kbind m (\<lambda>xo. case xo of None \<Rightarrow> kret (- 1) | Some x \<Rightarrow> f x)"

section \<open>\<^verbatim>\<open>sysproc.c\<close>\<close>

definition sys_fork :: "uint32 \<Rightarrow> ('z filest_scheme, sint32) kop" where
  "sys_fork forkret_addr = fork forkret_addr"

definition sys_exit :: "('z filest_scheme, sint32) kop" where
  "sys_exit = kseq exit (kret 0)"

definition sys_wait :: "('z vmem_scheme, sint32) kop" where
  "sys_wait = wait"

definition sys_kill :: "('z consst_scheme, sint32) kop" where
  "sys_kill = orfail (argint 0) (\<lambda>pid. orfail (argint 1) (\<lambda>signum. kill pid signum))"

definition sys_getpid :: "('z ptab_scheme, sint32) kop" where
  "sys_getpid = kbind curproc (\<lambda>p. get_proc p p_pid)"

definition sys_sbrk :: "('z consst_scheme, sint32) kop" where
  "sys_sbrk =
     orfail (argint 0) (\<lambda>n.
     kbind curproc (\<lambda>p.
     kbind (get_proc p p_sz) (\<lambda>addr.
     kbind (growproc n) (\<lambda>r.
     kret (if r <s 0 then - 1 else addr)))))"

text \<open>The loop of \<^verbatim>\<open>sys_sleep\<close>, with \<^verbatim>\<open>tickslock\<close> held; the comparison of \<^verbatim>\<open>uint\<close> with \<^verbatim>\<open>int\<close> is unsigned.\<close>

definition sys_sleep_loop :: "sint32 \<Rightarrow> uint32 \<Rightarrow> ('z vmem_scheme, sint32) kop" where
  "sys_sleep_loop n ticks0 =
     kbind (kget ticks) (\<lambda>t.
     if t - ticks0 < n then
       kbind curproc (\<lambda>p.
       kbind (get_proc p p_killed) (\<lambda>k.
       if k then kseq (release TicksLock) (kret (- 1))
       else sleep_away ChanTicks TicksLock))
     else kseq (release TicksLock) (kret 0))"

definition sys_sleep :: "('z vmem_scheme, sint32) kop" where
  "sys_sleep =
     orfail (argint 0) (\<lambda>n.
     kseq (acquire TicksLock)
    (kbind (kget ticks) (\<lambda>ticks0.
     sys_sleep_loop n ticks0)))"

definition sys_sleep_resume :: "sint32 \<Rightarrow> uint32 \<Rightarrow> ('z vmem_scheme, sint32) kop" where
  "sys_sleep_resume n ticks0 = kseq (sleep_resume TicksLock) (sys_sleep_loop n ticks0)"

definition sys_uptime :: "('z ptab_scheme, sint32) kop" where
  "sys_uptime =
     kseq (acquire TicksLock)
    (kbind (kget ticks) (\<lambda>xticks.
     kseq (release TicksLock)
          (kret xticks)))"

definition sys_sigprocmask :: "('z vmem_scheme, sint32) kop" where
  "sys_sigprocmask = orfail (argint 0) sigprocmask"

definition sys_sigaction :: "('z vmem_scheme, sint32) kop" where
  "sys_sigaction =
     orfail (argint 0) (\<lambda>signum.
     orfail (argptr 1 8) (\<lambda>act.
     orfail (argptr 2 8) (\<lambda>oldact.
     sigaction signum act oldact)))"

definition sys_sigret :: "('z vmem_scheme, sint32) kop" where
  "sys_sigret = kseq sigret (kret 0)"

section \<open>The kernel trusts no argument\<close>

text \<open>The bytes of user memory as the page table shows them, and a process all of whose memory is mapped.\<close>

definition user_byte :: "'z vmem_scheme \<Rightarrow> uint32 \<Rightarrow> uchar" where
  "user_byte s va = physmem s (the (translate False (physmem s) (P2V (cr3 s)) va))"

definition user_bytes :: "'z vmem_scheme \<Rightarrow> uint32 \<Rightarrow> nat \<Rightarrow> uchar list" where
  "user_bytes s va n = map (\<lambda>k. user_byte s (va + of_nat k)) [0..<n]"

definition mapped_below :: "'z vmem_scheme \<Rightarrow> uint32 \<Rightarrow> bool" where
  "mapped_below s sz \<longleftrightarrow> (\<forall>va < sz. translate False (physmem s) (P2V (cr3 s)) va \<noteq> None)"

lemma uload1_mapped: "mapped_below s sz \<Longrightarrow> va < sz \<Longrightarrow> uload1 va s = Ok (user_byte s va) s"
  by (auto simp: uload1_def mapped_below_def user_byte_def)

lemma user_bytes_Suc: "user_bytes s va (Suc n) = user_byte s va # user_bytes s (va + 1) n"
  by (simp add: user_bytes_def map_upt_Suc add.assoc del: upt_Suc)

lemma step_below:
  assumes "unat va + Suc n \<le> unat (sz :: uint32)"
  shows "va < sz" and "0 < n \<Longrightarrow> unat (va + 1) + n \<le> unat sz"
proof -
  show "va < sz" using assms by (simp add: word_less_nat_alt)
  assume "0 < n"
  then have "unat va + 1 < 2 ^ 32" using assms unat_lt_32 [of sz] by linarith
  then have "unat (va + 1) = unat va + 1" using unat_add_of_nat [of va 1] by simp
  then show "unat (va + 1) + n \<le> unat sz" using assms by simp
qed

lemma uload_mapped:
  assumes "mapped_below s sz" and "unat va + n \<le> unat sz"
  shows "uload n va s = Ok (user_bytes s va n) s"
  using assms(2)
proof (induction n arbitrary: va)
  case (Suc n)
  have "uload n (va + 1) s = Ok (user_bytes s (va + 1) n) s"
    using Suc.IH [of "va + 1"] step_below(2) [OF Suc.prems] by (cases "n = 0") (simp_all add: run user_bytes_def)
  then show ?case using uload1_mapped [OF assms(1) step_below(1) [OF Suc.prems]] by (simp add: run user_bytes_Suc)
qed (simp add: run user_bytes_def)

lemma fetchstr_loop_mapped:
  assumes "mapped_below s sz" and "unat va + n \<le> unat sz"
  shows "fetchstr_loop n va s = Ok (if 0 \<in> set (user_bytes s va n) then Some (cstr (user_bytes s va n)) else None) s"
  using assms(2)
proof (induction n arbitrary: va)
  case (Suc n)
  have "fetchstr_loop n (va + 1) s =
      Ok (if 0 \<in> set (user_bytes s (va + 1) n) then Some (cstr (user_bytes s (va + 1) n)) else None) s"
    using Suc.IH [of "va + 1"] step_below(2) [OF Suc.prems] by (cases "n = 0") (simp_all add: run user_bytes_def)
  then show ?case using uload1_mapped [OF assms(1) step_below(1) [OF Suc.prems]] by (simp add: run user_bytes_Suc cstr_def)
qed (simp add: run user_bytes_def)

text \<open>Sizes up to \<^verbatim>\<open>KERNBASE\<close> make the sums of the tests exact.\<close>

lemma sum_exact:
  fixes i n sz :: uint32
  assumes "sz \<le> KERNBASE" and "\<not> n <s 0" and "i < sz"
  shows "sz < i + n \<longleftrightarrow> unat sz < unat i + nat (sint n)"
proof -
  have n: "int (unat n) = sint n" using assms(2) by (intro uint_nonneg) simp
  have "sint n < 2 ^ 31" using sint_lt [of n] by simp
  then have "int (unat n) < int (2 ^ 31)" using n by simp
  then have n2: "unat n < 2 ^ 31" by (simp only: of_nat_less_iff)
  have i: "unat i < 2 ^ 31" using assms(1,3) by (simp add: KERNBASE_def word_le_nat_alt word_less_nat_alt)
  have "unat (i + n) = unat i + unat n" using i n2 by (simp add: unat_word_ariths)
  then show ?thesis using n by (simp add: word_less_nat_alt flip: n)
qed

lemma fetchint_spec:
  fixes s :: "'z vmem_scheme"
  assumes "cur s = Some p" and "p_sz (procs s ! p) = sz" and "sz \<le> KERNBASE" and "mapped_below s sz"
  shows "fetchint addr s = Ok (if unat addr + 4 \<le> unat sz then Some (ld32 (user_bytes s addr 4) 0) else None) s"
proof (cases "addr < sz")
  case True
  have "sz < addr + 4 \<longleftrightarrow> unat sz < unat addr + nat (sint (4 :: uint32))"
    using assms(3) True by (intro sum_exact) (simp_all add: word_sless_alt)
  then have e: "sz < addr + 4 \<longleftrightarrow> \<not> unat addr + 4 \<le> unat sz" by auto
  show ?thesis
  proof (cases "unat addr + 4 \<le> unat sz")
    case inside: True
    then show ?thesis using assms(1,2) True e uload_mapped [OF assms(4) inside] by (simp add: fetchint_def uload32_def run)
  next
    case False
    then show ?thesis using assms(1,2) e by (simp add: fetchint_def run)
  qed
next
  case False
  then have "\<not> unat addr + 4 \<le> unat sz" by (simp add: word_less_nat_alt)
  then show ?thesis using assms(1,2) False by (simp add: fetchint_def run not_less)
qed

lemma fetchstr_spec:
  fixes s :: "'z vmem_scheme"
  assumes "cur s = Some p" and "p_sz (procs s ! p) = sz" and "mapped_below s sz"
  shows "fetchstr addr s =
      (let bs = user_bytes s addr (unat sz - unat addr) in Ok (if 0 \<in> set bs then Some (cstr bs) else None) s)"
proof (cases "addr < sz")
  case True
  then have u: "unat (sz - addr) = unat sz - unat addr" "unat addr + (unat sz - unat addr) \<le> unat sz"
    using unat_sub [of addr sz] by (simp_all add: word_less_nat_alt word_le_nat_alt)
  show ?thesis using assms(1,2) True fetchstr_loop_mapped [OF assms(3) u(2)] by (simp add: fetchstr_def run u(1) Let_def not_le [symmetric])
next
  case False
  then have "unat sz - unat addr = 0" by (simp add: word_less_nat_alt)
  then show ?thesis using assms(1,2) False by (simp add: fetchstr_def run user_bytes_def not_less)
qed

lemma argptr_spec:
  fixes s :: "'z vmem_scheme"
  assumes "cur s = Some p" and "p_sz (procs s ! p) = sz" and "sz \<le> KERNBASE" and "mapped_below s sz"
  shows "argptr n len s =
      (let a = tf_esp (p_tf (procs s ! p)) + 4 + 4 * of_nat n; i = ld32 (user_bytes s a 4) 0
       in Ok (if unat a + 4 \<le> unat sz \<and> 0 \<le> sint len \<and> i < sz \<and> unat i + nat (sint len) \<le> unat sz
              then Some i else None) s)"
proof -
  let ?a = "tf_esp (p_tf (procs s ! p)) + 4 + 4 * of_nat n"
  let ?i = "ld32 (user_bytes s ?a 4) 0"
  have a: "argint n s = Ok (if unat ?a + 4 \<le> unat sz then Some ?i else None) s"
    using fetchint_spec [OF assms] assms(1) by (simp add: argint_def run)
  have "len <s 0 \<longleftrightarrow> \<not> 0 \<le> sint len" by (auto simp: word_sless_alt)
  moreover have "\<not> len <s 0 \<Longrightarrow> ?i < sz \<Longrightarrow> sz < ?i + len \<longleftrightarrow> unat sz < unat ?i + nat (sint len)"
    using assms(3) by (rule sum_exact)
  ultimately show ?thesis using a assms(1,2) by (auto simp: argptr_def run Let_def not_le not_less)
qed

text \<open>
  C4. The arguments of system calls are checked. For a process whose memory is mapped, whatever its stack pointer
  and its arguments are, fetching an argument neither faults nor changes the state, and it succeeds exactly when
  everything it reads lies in the memory of the process: the four bytes of an integer, a string with
  its terminating zero, and every byte of a buffer of the size asked for. No sum in the tests wraps around.
\<close>

theorem arguments_checked:
  fixes s :: "'z vmem_scheme"
  assumes "cur s = Some p" and "p_sz (procs s ! p) = sz" and "sz \<le> KERNBASE" and "mapped_below s sz"
  shows "fetchint addr s = Ok (if unat addr + 4 \<le> unat sz then Some (ld32 (user_bytes s addr 4) 0) else None) s
    \<and> fetchstr addr s =
      (let bs = user_bytes s addr (unat sz - unat addr) in Ok (if 0 \<in> set bs then Some (cstr bs) else None) s)
    \<and> argptr n len s =
      (let a = tf_esp (p_tf (procs s ! p)) + 4 + 4 * of_nat n; i = ld32 (user_bytes s a 4) 0
       in Ok (if unat a + 4 \<le> unat sz \<and> 0 \<le> sint len \<and> i < sz \<and> unat i + nat (sint len) \<le> unat sz
              then Some i else None) s)"
  using fetchint_spec [OF assms] fetchstr_spec [OF assms(1,2,4)] argptr_spec [OF assms] by blast

text \<open>The state of \<^term>\<open>demo_sig\<close> with the user page at address 0; the process has 16 bytes of it.\<close>

definition demo_user :: consst where
  "demo_user = demo_sig\<lparr>physmem := (\<lambda>_. 0)(0x80100000 := 7, 0x80100001 := 0x10, 0x80100002 := 0x10,
       0x80101000 := 7, 0x80101001 := 0x20, 0x80101002 := 0x10, 0x80102008 := 12, 0x8010200C := 65),
     procs := [idle_proc\<lparr>p_state := RUNNING, p_sz := 16, p_tf := zero_tf\<lparr>tf_esp := 4\<rparr>\<rparr>]\<rparr>"

lemma demo_user_translate:
  assumes "va < 4096"
  shows "translate False (physmem demo_user) 0x80100000 va = Some (0x80102000 + of_nat (unat va))"
proof -
  have u: "unat va < 4096" using assms by (simp add: word_less_nat_alt)
  then have "page_of va = page_of 0" by (simp add: page_of_def)
  note pg = pte_of_page(1) [OF this]
  have "pdx 0 = 0" "ptx 0 = 0" by (simp_all add: pdx_def ptx_def PDX_def PTX_def)
  then have "pte_of (physmem demo_user) 0x80100000 0 = 0x102007"
    by (simp add: pte_of_def tbl_def ent_def slot_def load32_def demo_user_def demo_sig_def present_def
        PTE_P_def PTE_ADDR_def P2V_def KERNBASE_def)
  then show ?thesis using u by (simp add: translate_def pg PTE_P_def PTE_W_def PTE_ADDR_def P2V_def KERNBASE_def)
qed

theorem arguments_checked_witness:
  "mapped_below demo_user 16 \<and> fetchstr 12 demo_user = Ok (Some [65]) demo_user
     \<and> argptr 0 4 demo_user = Ok (Some 12) demo_user \<and> argptr 0 5 demo_user = Ok None demo_user
     \<and> fetchint 0xFFFFFFFD demo_user = Ok None demo_user"
proof -
  have c: "cur demo_user = Some 0" "p_sz (procs demo_user ! 0) = 16" "P2V (cr3 demo_user) = 0x80100000"
    "tf_esp (p_tf (procs demo_user ! 0)) = 4"
    by (simp_all add: demo_user_def demo_sig_def P2V_def KERNBASE_def)
  have m: "mapped_below demo_user 16"
    unfolding mapped_below_def c(3) by (intro allI impI, subst demo_user_translate) (auto intro: order.strict_trans)
  have b: "user_byte demo_user va = physmem demo_user (0x80102000 + va)" if "va < 4096" for va
    using demo_user_translate [OF that] by (simp add: user_byte_def c(3) of_nat_unat)
  have "user_bytes demo_user 12 4 = [65, 0, 0, 0]" "user_bytes demo_user 8 4 = [12, 0, 0, 0]"
    by (simp_all add: user_bytes_def upt_rec b) (simp_all add: demo_user_def demo_sig_def)
  then show ?thesis
    using arguments_checked [OF c(1,2) _ m, of 12 0 4] arguments_checked [OF c(1,2) _ m, of "0xFFFFFFFD" 0 5] m c(4)
    by (simp add: KERNBASE_def Let_def cstr_def ld32_def)
qed

end
