(* ===== verification/Exec.thy ===== *)
theory Exec
  imports Syscall
begin

text \<open>
  Loading a program: \<^verbatim>\<open>exec.c\<close>, the ELF structures of \<^verbatim>\<open>elf.h\<close> as bytes of a file, and \<^verbatim>\<open>loaduvm\<close> of \<^verbatim>\<open>vm.c\<close>.
\<close>

section \<open>\<^verbatim>\<open>elf.h\<close>\<close>

definition ELF_MAGIC :: uint32 where "ELF_MAGIC = 0x464C457F"
definition ELF_PROG_LOAD :: uint32 where "ELF_PROG_LOAD = 1"

record elfhdr =
  e_magic :: uint32
  e_elf :: "uchar list"
  e_type :: ushort
  e_machine :: ushort
  e_version :: uint32
  e_entry :: uint32
  e_phoff :: uint32
  e_shoff :: uint32
  e_flags :: uint32
  e_ehsize :: ushort
  e_phentsize :: ushort
  e_phnum :: ushort
  e_shentsize :: ushort
  e_shnum :: ushort
  e_shstrndx :: ushort

definition elfhdr_get :: "uchar list \<Rightarrow> elfhdr" where
  "elfhdr_get d = \<lparr>e_magic = ld32 d 0, e_elf = take 12 (drop 4 d), e_type = ld16 d 16, e_machine = ld16 d 18,
     e_version = ld32 d 20, e_entry = ld32 d 24, e_phoff = ld32 d 28, e_shoff = ld32 d 32, e_flags = ld32 d 36,
     e_ehsize = ld16 d 40, e_phentsize = ld16 d 42, e_phnum = ld16 d 44, e_shentsize = ld16 d 46,
     e_shnum = ld16 d 48, e_shstrndx = ld16 d 50\<rparr>"

record proghdr =
  ph_type :: uint32
  ph_off :: uint32
  ph_vaddr :: uint32
  ph_paddr :: uint32
  ph_filesz :: uint32
  ph_memsz :: uint32
  ph_flags :: uint32
  ph_align :: uint32

definition proghdr_get :: "uchar list \<Rightarrow> proghdr" where
  "proghdr_get d = \<lparr>ph_type = ld32 d 0, ph_off = ld32 d 4, ph_vaddr = ld32 d 8, ph_paddr = ld32 d 12,
     ph_filesz = ld32 d 16, ph_memsz = ld32 d 20, ph_flags = ld32 d 24, ph_align = ld32 d 28\<rparr>"

section \<open>\<^verbatim>\<open>loaduvm\<close>\<close>

text \<open>The loop; its counter does not wrap around as long as it stays below \<open>sz\<close>, or the loop has no end.\<close>

function loaduvm_from ::
    "uint32 \<Rightarrow> uint32 \<Rightarrow> nat \<Rightarrow> uint32 \<Rightarrow> uint32 \<Rightarrow> uint32 \<Rightarrow> ('z consst_scheme, sint32) kop" where
  "loaduvm_from pgdir addr ip off i sz =
     (if i < sz then
        kbind (walkpgdir pgdir (addr + i) False) (\<lambda>pte.
        kseq (kcheck (pte = 0) ''loaduvm: address should exist'')
       (kbind (mread pte) (\<lambda>e.
        (let n = if sz - i < PGSIZE then sz - i else PGSIZE in
         kbind (readi devsw_table ip (off + i) n) (\<lambda>(r, bs).
         kseq (mput (P2V (PTE_ADDR e)) bs)
        (if r \<noteq> n then kret (- 1)
         else if i < i + PGSIZE then loaduvm_from pgdir addr ip off (i + PGSIZE) sz
         else kfault ''endless loop''))))))
      else kret 0)"
  by auto
termination
  by (relation "measure (\<lambda>(pgdir, addr, ip, off, i, sz). 2 ^ 32 - unat i)")
    (auto simp: word_less_nat_alt intro!: diff_less_mono2 unat_lt_32)

declare loaduvm_from.simps [simp del]

definition loaduvm :: "uint32 \<Rightarrow> uint32 \<Rightarrow> nat \<Rightarrow> uint32 \<Rightarrow> uint32 \<Rightarrow> ('z consst_scheme, sint32) kop" where
  "loaduvm pgdir addr ip off sz =
     kseq (kcheck (addr mod PGSIZE \<noteq> 0) ''loaduvm: addr must be page aligned'')
          (loaduvm_from pgdir addr ip off 0 sz)"

section \<open>\<^verbatim>\<open>exec\<close>\<close>

definition MAXARG :: nat where "MAXARG = 32"

text \<open>The loop over the \<open>n\<close> program headers from offset \<open>off\<close> on; the size of the image, or \<^term>\<open>None\<close> for \<^verbatim>\<open>goto bad\<close>.\<close>

primrec exec_load :: "nat \<Rightarrow> uint32 \<Rightarrow> nat \<Rightarrow> uint32 \<Rightarrow> uint32 \<Rightarrow> ('z consst_scheme, uint32 option) kop" where
  "exec_load ip pgdir 0 off sz = kret (Some sz)"
| "exec_load ip pgdir (Suc n) off sz =
     kbind (readi devsw_table ip off 32) (\<lambda>(r, bs).
     let ph = proghdr_get bs in
     if r \<noteq> 32 then kret None
     else if ph_type ph \<noteq> ELF_PROG_LOAD then exec_load ip pgdir n (off + 32) sz
     else if ph_memsz ph < ph_filesz ph then kret None
     else if ph_vaddr ph + ph_memsz ph < ph_vaddr ph then kret None
     else
       kbind (allocuvm print_line pgdir sz (ph_vaddr ph + ph_memsz ph)) (\<lambda>sz'.
       if sz' = 0 then kret None
       else if ph_vaddr ph mod PGSIZE \<noteq> 0 then kret None
       else
         kbind (loaduvm pgdir (ph_vaddr ph) ip (ph_off ph) (ph_filesz ph)) (\<lambda>r.
         if r <s 0 then kret None
         else exec_load ip pgdir n (off + 32) sz')))"

text \<open>The part of \<^verbatim>\<open>exec\<close> that reads the file: the page directory, 0 if there is none, and the entry point and the size.\<close>

definition exec_image :: "nat \<Rightarrow> ('z consst_scheme, uint32 \<times> (uint32 \<times> uint32) option) kop" where
  "exec_image ip =
     kbind (readi devsw_table ip 0 52) (\<lambda>(r, bs).
     let elf = elfhdr_get bs in
     if r \<noteq> 52 \<or> e_magic elf \<noteq> ELF_MAGIC then kret (0, None)
     else
       kbind setupkvm (\<lambda>pgdir.
       if pgdir = 0 then kret (0, None)
       else
         kbind (exec_load ip pgdir (unat (e_phnum elf)) (e_phoff elf) 0) (\<lambda>szo.
         kret (pgdir, map_option (\<lambda>sz. (e_entry elf, sz)) szo))))"

text \<open>The argument strings on the new stack, and their addresses.\<close>

primrec exec_args :: "uint32 \<Rightarrow> uchar list list \<Rightarrow> nat \<Rightarrow> uint32 \<Rightarrow> ('z kmem_scheme, (uint32 \<times> uint32 list) option) kop" where
  "exec_args pgdir [] argc sp = kret (Some (sp, []))"
| "exec_args pgdir (a # argv) argc sp =
     (if MAXARG \<le> argc then kret None
      else
       (let sp = (sp - (of_nat (length a) + 1)) AND NOT 3 in
        kbind (copyout pgdir sp (a @ [0])) (\<lambda>r.
        if r <s 0 then kret None
        else
          kbind (exec_args pgdir argv (Suc argc) sp) (\<lambda>ro.
          kret (map_option (\<lambda>(sp', us). (sp', sp # us)) ro)))))"

text \<open>The stack: two pages, of which user code may reach the upper one, with the arguments; the size of the image and
  the stack pointer.\<close>

definition exec_stack :: "uint32 \<Rightarrow> uint32 \<Rightarrow> uchar list list \<Rightarrow> ('z consst_scheme, (uint32 \<times> uint32) option) kop" where
  "exec_stack pgdir sz argv =
     kbind (kret (PGROUNDUP sz)) (\<lambda>sz.
     kbind (allocuvm print_line pgdir sz (sz + 2 * PGSIZE)) (\<lambda>sz.
     if sz = 0 then kret None
     else
       kseq (clearpteu pgdir (sz - 2 * PGSIZE))
      (kbind (exec_args pgdir argv 0 sz) (\<lambda>ao. case ao of None \<Rightarrow> kret None | Some (sp, us) \<Rightarrow>
       (let argc = of_nat (length argv);
            ustack = [0xFFFFFFFF, argc, sp - (argc + 1) * 4] @ us @ [0];
            sp = sp - (3 + argc + 1) * 4 in
        kbind (copyout pgdir sp (concat (map bytes32 ustack))) (\<lambda>r.
        kret (if r <s 0 then None else Some (sz, sp))))))))"

definition exec_bad :: "uint32 \<Rightarrow> nat option \<Rightarrow> ('z consst_scheme, sint32) kop" where
  "exec_bad pgdir ipo =
     kseq (kwhen (pgdir \<noteq> 0) (freevm pgdir))
    (kseq (case ipo of None \<Rightarrow> kret () | Some ip \<Rightarrow> kseq (iunlockput ip) end_op)
          (kret (- 1)))"

text \<open>The name of a program is what follows the last slash of its path.\<close>

definition last_elem :: "uchar list \<Rightarrow> uchar list" where
  "last_elem path = rev (takeWhile (\<lambda>c. c \<noteq> 47) (rev (cstr path)))"

definition exec_handlers :: "uint32 list \<Rightarrow> uint32 list" where
  "exec_handlers hs = map (\<lambda>h. if h \<noteq> SIG_DFL \<and> h \<noteq> SIG_IGN then SIG_DFL else h) hs"

definition exec_commit :: "uchar list \<Rightarrow> uint32 \<Rightarrow> uint32 \<Rightarrow> uint32 \<Rightarrow> uint32 \<Rightarrow> proc \<Rightarrow> proc" where
  "exec_commit path pgdir sz entr sp q = q\<lparr>p_name := set_name (p_name q) (last_elem path), p_pgdir := pgdir, p_sz := sz,
     p_tf := (p_tf q)\<lparr>tf_eip := entr, tf_esp := sp\<rparr>, p_signal_handlers := exec_handlers (p_signal_handlers q)\<rparr>"

definition exec :: "uchar list \<Rightarrow> uchar list list \<Rightarrow> ('z consst_scheme, sint32) kop" where
  "exec path argv =
     kbind curproc (\<lambda>p.
     kseq begin_op
    (kbind (namei devsw_table path) (\<lambda>ipo. case ipo of
       None \<Rightarrow> kseq end_op (kseq (cprintf (Some (bytes ''exec: fail'' @ [10])) []) (kret (- 1)))
     | Some ip \<Rightarrow>
         kseq (ilock (Some ip))
        (kbind (exec_image ip) (\<lambda>(pgdir, io). case io of None \<Rightarrow> exec_bad pgdir (Some ip) | Some (entr, sz) \<Rightarrow>
         kseq (iunlockput ip)
        (kseq end_op
        (kbind (exec_stack pgdir sz argv) (\<lambda>so. case so of None \<Rightarrow> exec_bad pgdir None | Some (sz, sp) \<Rightarrow>
         kbind (get_proc p p_pgdir) (\<lambda>oldpgdir.
         kseq (upd_proc p (exec_commit path pgdir sz entr sp))
        (kseq (switchuvm (Some p))
        (kseq (freevm oldpgdir)
              (kret 0))))))))))))"

end
