(* ===== verification/Sysfile.thy ===== *)
theory Sysfile
  imports Exec
begin

text \<open>
  The system calls on files (\<^verbatim>\<open>sysfile.c\<close>). What a routine of \<^verbatim>\<open>file.c\<close> writes to a buffer is stored in user memory
  when it returns; what it reads is loaded before.
\<close>

definition O_RDONLY :: sint32 where "O_RDONLY = 0"
definition O_WRONLY :: sint32 where "O_WRONLY = 1"
definition O_RDWR :: sint32 where "O_RDWR = 2"
definition O_CREATE :: sint32 where "O_CREATE = 0x200"

section \<open>Descriptors\<close>

definition argfd :: "nat \<Rightarrow> ('z vmem_scheme, (nat \<times> nat) option) kop" where
  "argfd n =
     kbind (argint n) (\<lambda>fo. case fo of None \<Rightarrow> kret None | Some fd \<Rightarrow>
     kbind curproc (\<lambda>p.
     if fd <s 0 \<or> of_nat NOFILE \<le>s fd then kret None
     else kbind (get_proc p (\<lambda>q. p_ofile q ! unat fd)) (\<lambda>f. kret (map_option (Pair (unat fd)) f))))"

definition fdalloc :: "nat \<Rightarrow> ('z ptab_scheme, nat option) kop" where
  "fdalloc f =
     kbind curproc (\<lambda>p.
     kbind (get_proc p p_ofile) (\<lambda>fs. case claim_slot (\<lambda>o'. o' = None) (\<lambda>_. Some f) fs of
       None \<Rightarrow> kret None
     | Some (fd, fs') \<Rightarrow> kseq (upd_proc p (\<lambda>q. q\<lparr>p_ofile := fs'\<rparr>)) (kret (Some fd))))"

definition sys_dup :: "('z filest_scheme, sint32) kop" where
  "sys_dup =
     orfail (argfd 0) (\<lambda>(_, f).
     orfail (fdalloc f) (\<lambda>fd.
     kseq (kbind (filedup f) (\<lambda>_. kret ()))
          (kret (of_nat fd))))"

definition sys_read :: "('z consst_scheme, sint32) kop" where
  "sys_read =
     orfail (argfd 0) (\<lambda>(_, f).
     orfail (argint 2) (\<lambda>n.
     orfail (argptr 1 n) (\<lambda>p.
     kbind (fileread devsw_table f n) (\<lambda>(r, bs).
     kseq (ustore bs p)
          (kret r)))))"

definition sys_write :: "('z consst_scheme, sint32) kop" where
  "sys_write =
     orfail (argfd 0) (\<lambda>(_, f).
     orfail (argint 2) (\<lambda>n.
     orfail (argptr 1 n) (\<lambda>p.
     kbind (uload (unat n) p) (\<lambda>bs.
     filewrite devsw_table f bs n))))"

definition sys_close :: "('z filest_scheme, sint32) kop" where
  "sys_close =
     orfail (argfd 0) (\<lambda>(fd, f).
     kbind curproc (\<lambda>p.
     kseq (upd_proc p (\<lambda>q. q\<lparr>p_ofile := (p_ofile q)[fd := None]\<rparr>))
    (kseq (fileclose f)
          (kret 0))))"

text \<open>\<^verbatim>\<open>struct stat\<close> in user memory: the padding after the two \<^verbatim>\<open>short\<close> fields is left alone.\<close>

definition ustore_stat :: "uint32 \<Rightarrow> stat \<Rightarrow> ('z vmem_scheme, unit) kop" where
  "ustore_stat a st =
     kseq (ustore32 (a + 4) (st_dev st))
    (kseq (ustore32 (a + 8) (st_ino st))
    (kseq (ustore (st16 0 (st_type st) [0, 0]) a)
    (kseq (ustore (st16 0 (st_nlink st) [0, 0]) (a + 12))
          (ustore32 (a + 16) (st_size st)))))"

definition sys_fstat :: "('z filest_scheme, sint32) kop" where
  "sys_fstat =
     orfail (argfd 0) (\<lambda>(_, f).
     orfail (argptr 1 20) (\<lambda>a.
     kbind (filestat f) (\<lambda>(r, so).
     kseq (case so of None \<Rightarrow> kret () | Some st \<Rightarrow> ustore_stat a st)
          (kret r))))"

definition sys_pipe :: "('z filest_scheme, sint32) kop" where
  "sys_pipe =
     orfail (argptr 0 8) (\<lambda>a.
     orfail pipealloc (\<lambda>(rf, wf).
     kbind (fdalloc rf) (\<lambda>fd0. case fd0 of None \<Rightarrow> kseq (fileclose rf) (kseq (fileclose wf) (kret (- 1))) | Some fd0 \<Rightarrow>
     kbind (fdalloc wf) (\<lambda>fd1. case fd1 of
       None \<Rightarrow>
         kbind curproc (\<lambda>p.
         kseq (upd_proc p (\<lambda>q. q\<lparr>p_ofile := (p_ofile q)[fd0 := None]\<rparr>))
        (kseq (fileclose rf)
        (kseq (fileclose wf)
              (kret (- 1)))))
     | Some fd1 \<Rightarrow>
         kseq (ustore32 a (of_nat fd0))
        (kseq (ustore32 (a + 4) (of_nat fd1))
              (kret 0))))))"

section \<open>Names\<close>

definition upd_nlink :: "(ushort \<Rightarrow> ushort) \<Rightarrow> nat \<Rightarrow> ('z fsst_scheme, unit) kop" where
  "upd_nlink f i = kseq (upd_inode i (\<lambda>ip. ip\<lparr>i_nlink := f (i_nlink ip)\<rparr>)) (iupdate i)"

definition sys_link_bad :: "nat \<Rightarrow> ('z consst_scheme, sint32) kop" where
  "sys_link_bad ip =
     kseq (ilock (Some ip))
    (kseq (upd_nlink (\<lambda>n. n - 1) ip)
    (kseq (iunlockput ip)
    (kseq end_op
          (kret (- 1)))))"

definition sys_link :: "('z consst_scheme, sint32) kop" where
  "sys_link =
     orfail (argstr 0) (\<lambda>old.
     orfail (argstr 1) (\<lambda>new.
     kseq begin_op
    (kbind (namei devsw_table old) (\<lambda>ipo. case ipo of None \<Rightarrow> kseq end_op (kret (- 1)) | Some ip \<Rightarrow>
     kseq (ilock (Some ip))
    (kbind (get_inode ip i_type) (\<lambda>ty.
     if ty = T_DIR then kseq (iunlockput ip) (kseq end_op (kret (- 1)))
     else
       kseq (upd_nlink (\<lambda>n. n + 1) ip)
      (kseq (iunlock (Some ip))
      (kbind (nameiparent devsw_table new) (\<lambda>(dpo, name). case dpo of None \<Rightarrow> sys_link_bad ip | Some dp \<Rightarrow>
       kseq (ilock (Some dp))
      (kbind (kget (\<lambda>s. i_dev (icache s ! dp) \<noteq> i_dev (icache s ! ip))) (\<lambda>other.
       kbind (if other then kret (- 1) else kbind (get_inode ip i_inum) (dirlink devsw_table dp name)) (\<lambda>r.
       if r <s 0 then kseq (iunlockput dp) (sys_link_bad ip)
       else
         kseq (iunlockput dp)
        (kseq (iput ip)
        (kseq end_op
              (kret 0)))))))))))))))"

text \<open>\<^verbatim>\<open>isdirempty\<close>: the entries after the first two.\<close>

primrec isdirempty_scan :: "nat \<Rightarrow> uint32 list \<Rightarrow> ('z consst_scheme, bool) kop" where
  "isdirempty_scan dp [] = kret True"
| "isdirempty_scan dp (off # offs) =
     kbind (readi devsw_table dp off 16) (\<lambda>(r, bs).
     kseq (kcheck (r \<noteq> 16) ''isdirempty: readi'')
          (if de_inum (dirent_get bs) \<noteq> 0 then kret False else isdirempty_scan dp offs))"

definition isdirempty :: "nat \<Rightarrow> ('z consst_scheme, bool) kop" where
  "isdirempty dp = kbind (get_inode dp i_size) (\<lambda>sz. isdirempty_scan dp (drop 2 (dir_offsets sz)))"

definition sys_unlink_bad :: "nat \<Rightarrow> ('z fsst_scheme, sint32) kop" where
  "sys_unlink_bad dp = kseq (iunlockput dp) (kseq end_op (kret (- 1)))"

definition sys_unlink :: "('z consst_scheme, sint32) kop" where
  "sys_unlink =
     orfail (argstr 0) (\<lambda>path.
     kseq begin_op
    (kbind (nameiparent devsw_table path) (\<lambda>(dpo, name). case dpo of None \<Rightarrow> kseq end_op (kret (- 1)) | Some dp \<Rightarrow>
     kseq (ilock (Some dp))
    (if namecmp name [46] = 0 \<or> namecmp name [46, 46] = 0 then sys_unlink_bad dp
     else
       kbind (dirlookup devsw_table dp name) (\<lambda>r. case r of None \<Rightarrow> sys_unlink_bad dp | Some (ip, off) \<Rightarrow>
       kseq (ilock (Some ip))
      (kbind (get_inode ip id) (\<lambda>I.
       kseq (kcheck (i_nlink I <s 1) ''unlink: nlink < 1'')
      (kbind (if i_type I = T_DIR then isdirempty ip else kret True) (\<lambda>ok.
       if \<not> ok then kseq (iunlockput ip) (sys_unlink_bad dp)
       else
         kbind (writei devsw_table dp (replicate 16 0) off) (\<lambda>r.
         kseq (kcheck (r \<noteq> 16) ''unlink: writei'')
        (kseq (kwhen (i_type I = T_DIR) (upd_nlink (\<lambda>n. n - 1) dp))
        (kseq (iunlockput dp)
        (kseq (upd_nlink (\<lambda>n. n - 1) ip)
        (kseq (iunlockput ip)
        (kseq end_op
              (kret 0))))))))))))))))"

text \<open>\<^verbatim>\<open>create\<close> returns a locked inode. \<^verbatim>\<open>ialloc\<close> panics where it finds no inode, so its result is not null.\<close>

definition create :: "uchar list \<Rightarrow> ushort \<Rightarrow> ushort \<Rightarrow> ushort \<Rightarrow> ('z consst_scheme, nat option) kop" where
  "create path ty major minor =
     kbind (nameiparent devsw_table path) (\<lambda>(dpo, name). case dpo of None \<Rightarrow> kret None | Some dp \<Rightarrow>
     kseq (ilock (Some dp))
    (kbind (dirlookup devsw_table dp name) (\<lambda>r. case r of
       Some (ip, _) \<Rightarrow>
         kseq (iunlockput dp)
        (kseq (ilock (Some ip))
        (kbind (get_inode ip i_type) (\<lambda>ity.
         if ty = T_FILE \<and> ity = T_FILE then kret (Some ip)
         else kseq (iunlockput ip) (kret None))))
     | None \<Rightarrow>
         kbind (kbind (get_inode dp i_dev) (\<lambda>dev. ialloc dev ty)) (\<lambda>ip.
         kseq (ilock (Some ip))
        (kseq (upd_inode ip (\<lambda>I. I\<lparr>i_major := major, i_minor := minor, i_nlink := 1\<rparr>))
        (kseq (iupdate ip)
        (kbind (get_inode ip i_inum) (\<lambda>inum.
         kseq (kwhen (ty = T_DIR)
                (kseq (upd_nlink (\<lambda>n. n + 1) dp)
                (kbind (dirlink devsw_table ip [46] inum) (\<lambda>r.
                 kseq (kcheck (r <s 0) ''create dots'')
                (kbind (get_inode dp i_inum) (\<lambda>dnum.
                 kbind (dirlink devsw_table ip [46, 46] dnum) (\<lambda>r.
                 kcheck (r <s 0) ''create dots'')))))))
        (kbind (dirlink devsw_table dp name inum) (\<lambda>r.
         kseq (kcheck (r <s 0) ''create: dirlink'')
        (kseq (iunlockput dp)
              (kret (Some ip)))))))))))))"

text \<open>The inode that \<^verbatim>\<open>sys_open\<close> opens, locked.\<close>

definition open_inode :: "uchar list \<Rightarrow> sint32 \<Rightarrow> ('z consst_scheme, nat option) kop" where
  "open_inode path omode =
     (if omode AND O_CREATE \<noteq> 0 then create path T_FILE 0 0
      else
       kbind (namei devsw_table path) (\<lambda>ipo. case ipo of None \<Rightarrow> kret None | Some ip \<Rightarrow>
       kseq (ilock (Some ip))
      (kbind (get_inode ip i_type) (\<lambda>ty.
       if ty = T_DIR \<and> omode \<noteq> O_RDONLY then kseq (iunlockput ip) (kret None)
       else kret (Some ip)))))"

definition sys_open :: "('z consst_scheme, sint32) kop" where
  "sys_open =
     orfail (argstr 0) (\<lambda>path.
     orfail (argint 1) (\<lambda>omode.
     kseq begin_op
    (kbind (open_inode path omode) (\<lambda>ipo. case ipo of None \<Rightarrow> kseq end_op (kret (- 1)) | Some ip \<Rightarrow>
     kbind filealloc (\<lambda>fo. case fo of None \<Rightarrow> kseq (iunlockput ip) (kseq end_op (kret (- 1))) | Some f \<Rightarrow>
     kbind (fdalloc f) (\<lambda>fdo. case fdo of
       None \<Rightarrow> kseq (fileclose f) (kseq (iunlockput ip) (kseq end_op (kret (- 1))))
     | Some fd \<Rightarrow>
         kseq (iunlock (Some ip))
        (kseq end_op
        (kseq (upd_file f (\<lambda>F. F\<lparr>f_type := FD_INODE, f_ip := Some ip, f_off := 0,
                 f_readable := (omode AND O_WRONLY = 0),
                 f_writable := (omode AND O_WRONLY \<noteq> 0 \<or> omode AND O_RDWR \<noteq> 0)\<rparr>))
              (kret (of_nat fd))))))))))"

definition sys_mkdir :: "('z consst_scheme, sint32) kop" where
  "sys_mkdir =
     kseq begin_op
    (kbind (argstr 0) (\<lambda>po.
     kbind (case po of None \<Rightarrow> kret None | Some path \<Rightarrow> create path T_DIR 0 0) (\<lambda>ipo. case ipo of
       None \<Rightarrow> kseq end_op (kret (- 1))
     | Some ip \<Rightarrow> kseq (iunlockput ip) (kseq end_op (kret 0)))))"

definition sys_mknod :: "('z consst_scheme, sint32) kop" where
  "sys_mknod =
     kseq begin_op
    (kbind (argstr 0) (\<lambda>po.
     kbind (case po of None \<Rightarrow> kret None | Some path \<Rightarrow>
            kbind (argint 1) (\<lambda>mo. case mo of None \<Rightarrow> kret None | Some major \<Rightarrow>
            kbind (argint 2) (\<lambda>mo. case mo of None \<Rightarrow> kret None | Some minor \<Rightarrow>
            create path T_DEV (ucast major) (ucast minor)))) (\<lambda>ipo. case ipo of
       None \<Rightarrow> kseq end_op (kret (- 1))
     | Some ip \<Rightarrow> kseq (iunlockput ip) (kseq end_op (kret 0)))))"

definition sys_chdir :: "('z consst_scheme, sint32) kop" where
  "sys_chdir =
     kbind curproc (\<lambda>p.
     kseq begin_op
    (kbind (argstr 0) (\<lambda>po.
     kbind (case po of None \<Rightarrow> kret None | Some path \<Rightarrow> namei devsw_table path) (\<lambda>ipo. case ipo of
       None \<Rightarrow> kseq end_op (kret (- 1))
     | Some ip \<Rightarrow>
         kseq (ilock (Some ip))
        (kbind (get_inode ip i_type) (\<lambda>ty.
         if ty \<noteq> T_DIR then kseq (iunlockput ip) (kseq end_op (kret (- 1)))
         else
           kseq (iunlock (Some ip))
          (kbind (get_proc p p_cwd) (\<lambda>cwd.
           kseq (deref cwd iput)
          (kseq end_op
          (kseq (upd_proc p (\<lambda>q. q\<lparr>p_cwd := Some ip\<rparr>))
                (kret 0)))))))))))"

text \<open>The loop of \<^verbatim>\<open>sys_exec\<close>; \<open>n\<close> is the room left in \<^verbatim>\<open>argv\<close>.\<close>

primrec sys_exec_args :: "nat \<Rightarrow> uint32 \<Rightarrow> ('z vmem_scheme, uchar list list option) kop" where
  "sys_exec_args 0 a = kret None"
| "sys_exec_args (Suc n) a =
     kbind (fetchint a) (\<lambda>uo. case uo of None \<Rightarrow> kret None | Some uarg \<Rightarrow>
     if uarg = 0 then kret (Some [])
     else
       kbind (fetchstr uarg) (\<lambda>so. case so of None \<Rightarrow> kret None | Some str \<Rightarrow>
       kbind (sys_exec_args n (a + 4)) (\<lambda>ro. kret (map_option ((#) str) ro))))"

definition sys_exec :: "('z consst_scheme, sint32) kop" where
  "sys_exec =
     orfail (argstr 0) (\<lambda>path.
     orfail (argint 1) (\<lambda>uargv.
     orfail (sys_exec_args MAXARG uargv) (\<lambda>argv.
     exec path argv)))"

end
