(* ===== verification/Trap.thy ===== *)
theory Trap
  imports Kbd Sysfile
begin

text \<open>
  Entry into the kernel: the dispatch of system calls (\<^verbatim>\<open>syscall\<close> of \<^verbatim>\<open>syscall.c\<close>), \<^verbatim>\<open>trap\<close> of \<^verbatim>\<open>trap.c\<close>, and
  the path of \<^verbatim>\<open>trapasm.S\<close> through \<^verbatim>\<open>trap\<close> and the check for signals. What the processor and the devices
  deliver, its number, the register \<^verbatim>\<open>%cr2\<close>, the scan codes and the bytes of the serial port, is an argument.
\<close>

section \<open>System calls\<close>

definition SYS_exec :: nat where "SYS_exec = 7"
definition SYS_sigret :: nat where "SYS_sigret = 24"

text \<open>The table of system calls; no function has number 0.\<close>

definition syscalls :: "uint32 \<Rightarrow> ('z consst_scheme, sint32) kop option list" where
  "syscalls forkret_addr = None # map Some
     [sys_fork forkret_addr, sys_exit, sys_wait, sys_pipe, sys_read, sys_kill, sys_exec, sys_fstat, sys_chdir, sys_dup,
      sys_getpid, sys_sbrk, sys_sleep, sys_uptime, sys_open, sys_write, sys_mknod, sys_unlink, sys_link, sys_mkdir,
      sys_close, sys_sigprocmask, sys_sigaction, sys_sigret]"

definition syscall :: "uint32 \<Rightarrow> ('z consst_scheme, unit) kop" where
  "syscall forkret_addr =
     kbind curproc (\<lambda>p.
     kbind (get_proc p (\<lambda>q. tf_eax (p_tf q))) (\<lambda>num.
     case (if 0 <s num \<and> unat num < length (syscalls forkret_addr :: ('z consst_scheme, sint32) kop option list)
           then syscalls forkret_addr ! unat num else None) of
       Some f \<Rightarrow> kbind f (\<lambda>r. upd_tf p (\<lambda>tf. tf\<lparr>tf_eax := r\<rparr>))
     | None \<Rightarrow>
         kbind (get_proc p id) (\<lambda>P.
         kseq (cprintf (Some (bytes ''%d %s: unknown sys call %d'' @ [10])) [FInt (p_pid P), FStr (Some (p_name P)), FInt num])
              (upd_tf p (\<lambda>tf. tf\<lparr>tf_eax := - 1\<rparr>)))))"

section \<open>\<^verbatim>\<open>trap.c\<close>\<close>

definition T_SYSCALL :: uint32 where "T_SYSCALL = 64"
definition T_IRQ0 :: uint32 where "T_IRQ0 = 32"
definition IRQ_TIMER :: uint32 where "IRQ_TIMER = 0"
definition IRQ_KBD :: uint32 where "IRQ_KBD = 1"
definition IRQ_COM1 :: uint32 where "IRQ_COM1 = 4"
definition IRQ_IDE :: uint32 where "IRQ_IDE = 14"
definition IRQ_SPURIOUS :: uint32 where "IRQ_SPURIOUS = 31"

text \<open>What comes from outside: the number of the processor, \<^verbatim>\<open>%cr2\<close>, scan codes and bytes that have arrived.\<close>

record hw =
  hw_cpu :: uint32
  hw_cr2 :: uint32
  hw_keys :: "uchar list"
  hw_com1 :: "uchar list"

definition user_mode :: "trapframe \<Rightarrow> bool" where
  "user_mode tf \<longleftrightarrow> tf_cs tf AND 3 = DPL_USER"

definition exit_if_killed :: "bool \<Rightarrow> ('z filest_scheme, unit) kop" where
  "exit_if_killed c =
     kbind myproc (\<lambda>po. case po of None \<Rightarrow> kret () | Some p \<Rightarrow>
     kbind (get_proc p p_killed) (\<lambda>k.
     kwhen (k \<and> c) exit))"

definition trap_syscall :: "uint32 \<Rightarrow> trapframe \<Rightarrow> ('z consst_scheme, unit) kop" where
  "trap_syscall forkret_addr tf =
     kbind curproc (\<lambda>p.
     kseq (exit_if_killed True)
    (kseq (upd_proc p (\<lambda>q. q\<lparr>p_tf := tf\<rparr>))
    (kseq (syscall forkret_addr)
          (exit_if_killed True))))"

text \<open>Where the function of the system call gives up the processor, \<^verbatim>\<open>trap\<close> goes on when it is resumed: \<open>f\<close> is the rest of the
  function, whose value is stored as before, and the same test follows.\<close>

definition trap_syscall_resume :: "nat \<Rightarrow> ('z consst_scheme, sint32) kop \<Rightarrow> ('z consst_scheme, unit) kop" where
  "trap_syscall_resume p f =
     kseq (kbind f (\<lambda>r. upd_tf p (\<lambda>tf. tf\<lparr>tf_eax := r\<rparr>)))
          (exit_if_killed True)"

definition timer_tick :: "uint32 \<Rightarrow> ('z ptab_scheme, unit) kop" where
  "timer_tick cpu =
     kwhen (cpu = 0)
      (kseq (acquire TicksLock)
      (kseq (kmod (\<lambda>s. s\<lparr>ticks := ticks s + 1\<rparr>))
      (kseq (wakeup ChanTicks)
            (release TicksLock))))"

text \<open>The \<^verbatim>\<open>switch\<close>; \<^verbatim>\<open>ideintr\<close> of the memory disk does nothing.\<close>

definition trap_interrupt :: "hw \<Rightarrow> trapframe \<Rightarrow> ('z kbdst_scheme, unit) kop" where
  "trap_interrupt h tf =
     (if tf_trapno tf = T_IRQ0 + IRQ_TIMER then timer_tick (hw_cpu h)
      else if tf_trapno tf = T_IRQ0 + IRQ_IDE then kret ()
      else if tf_trapno tf = T_IRQ0 + IRQ_IDE + 1 then kret ()
      else if tf_trapno tf = T_IRQ0 + IRQ_KBD then kbdintr (hw_keys h)
      else if tf_trapno tf = T_IRQ0 + IRQ_COM1 then uartintr (hw_com1 h)
      else if tf_trapno tf = T_IRQ0 + 7 \<or> tf_trapno tf = T_IRQ0 + IRQ_SPURIOUS then
        cprintf (Some (bytes ''cpu%d: spurious interrupt at %x:%x'' @ [10])) [FInt (hw_cpu h), FInt (ucast (tf_cs tf)), FInt (tf_eip tf)]
      else
        kbind myproc (\<lambda>po.
        case (if tf_cs tf AND 3 = 0 then None else po) of
          None \<Rightarrow>
            kseq (cprintf (Some (bytes ''unexpected trap %d from cpu %d eip %x (cr2=0x%x)'' @ [10]))
                    [FInt (tf_trapno tf), FInt (hw_cpu h), FInt (tf_eip tf), FInt (hw_cr2 h)])
                 (kpanic ''trap'')
        | Some p \<Rightarrow>
            kbind (get_proc p id) (\<lambda>P.
            kseq (cprintf (Some (bytes ''pid %d %s: trap %d err %d on cpu %d eip 0x%x addr 0x%x--kill proc'' @ [10]))
                    [FInt (p_pid P), FStr (Some (p_name P)), FInt (tf_trapno tf), FInt (tf_err tf), FInt (hw_cpu h),
                     FInt (tf_eip tf), FInt (hw_cr2 h)])
                 (upd_proc p (\<lambda>q. q\<lparr>p_killed := True\<rparr>)))))"

text \<open>After the \<^verbatim>\<open>switch\<close>: a timer interrupt takes the processor from the process, which goes on with \<open>trap_resume\<close>.\<close>

definition trap_end :: "trapframe \<Rightarrow> ('z consst_scheme, unit) kop" where
  "trap_end tf =
     kseq (exit_if_killed (user_mode tf))
    (kbind myproc (\<lambda>po.
     kseq (case po of None \<Rightarrow> kret () | Some p \<Rightarrow>
             kbind (get_proc p p_state) (\<lambda>st.
             kwhen (st = RUNNING \<and> tf_trapno tf = T_IRQ0 + IRQ_TIMER) yield))
          (exit_if_killed (user_mode tf))))"

definition trap_resume :: "trapframe \<Rightarrow> ('z consst_scheme, unit) kop" where
  "trap_resume tf =
     kseq (release PtableLock)
          (exit_if_killed (user_mode tf))"

definition trap :: "uint32 \<Rightarrow> hw \<Rightarrow> trapframe \<Rightarrow> ('z kbdst_scheme, unit) kop" where
  "trap forkret_addr h tf =
     (if tf_trapno tf = T_SYSCALL then trap_syscall forkret_addr tf
      else kseq (trap_interrupt h tf) (trap_end tf))"

section \<open>\<^verbatim>\<open>trapasm.S\<close>\<close>

text \<open>
  The frame of a trap from user mode lies at the top of the kernel stack, where \<^verbatim>\<open>p->tf\<close> points, so that it is
  the frame that \<^verbatim>\<open>sig_handler_runner\<close> gets; from kernel mode it is elsewhere on the stack. The value is
  the frame from which the registers are loaded.
\<close>

definition trapret :: "uchar list \<Rightarrow> nat \<Rightarrow> ('z consst_scheme, trapframe) kop" where
  "trapret tramp p =
     kbind (get_proc p p_tf) (\<lambda>tf.
     kseq (sig_handler_runner tramp tf)
          (get_proc p p_tf))"

definition alltraps :: "uint32 \<Rightarrow> uchar list \<Rightarrow> hw \<Rightarrow> trapframe \<Rightarrow> ('z kbdst_scheme, trapframe) kop" where
  "alltraps forkret_addr tramp h tf =
     (if user_mode tf then
        kbind curproc (\<lambda>p.
        kseq (upd_proc p (\<lambda>q. q\<lparr>p_tf := tf\<rparr>))
       (kseq (trap forkret_addr h tf)
             (trapret tramp p)))
      else
        kseq (trap forkret_addr h tf)
       (kseq (sig_handler_runner tramp tf)
             (kret tf)))"

section \<open>The mark of a killed process\<close>

text \<open>Computations that never return to their caller.\<close>

definition never_ok :: "('s, 'a) kop \<Rightarrow> bool" where
  "never_ok m \<longleftrightarrow> (\<forall>s x t. m s \<noteq> Ok x t)"

named_theorems never

lemma never_panic [never]: "never_ok (kpanic e)"
  by (simp add: never_ok_def run)

lemma never_seq [never]: "never_ok n \<Longrightarrow> never_ok (kseq m n)"
  by (auto simp: never_ok_def run split: outcome.splits)

lemma never_bind [never]: "(\<And>x. never_ok (f x)) \<Longrightarrow> never_ok (kbind m f)"
  by (auto simp: never_ok_def run split: outcome.splits)

lemma never_exit [never]: "never_ok exit"
  unfolding exit_def exit_sched_def by (intro never)

lemma exit_if_killed_Ok:
  assumes "exit_if_killed c s = Ok x t"
  shows "t = s" and "cur s = Some p \<Longrightarrow> c \<Longrightarrow> \<not> p_killed (procs s ! p)"
  using assms never_exit by (auto simp: exit_if_killed_def run never_ok_def kwhen_def split: option.splits if_splits)

lemma kseq_returns:
  assumes "kseq m n s = Ok y u"
  obtains x t where "m s = Ok x t" and "n t = Ok y u"
  using assms by (auto simp: run split: outcome.splits)

lemma kbind_returns:
  assumes "kbind m f s = Ok y u"
  obtains x t where "m s = Ok x t" and "f x t = Ok y u"
  using assms by (auto simp: run split: outcome.splits)

lemma trap_Ok_exit:
  assumes "user_mode tf" and "m \<in> {trap forkret_addr h tf, trap_resume tf, trap_syscall_resume p f}" and "m s = Ok () t"
  obtains u where "exit_if_killed True u = Ok () t"
proof -
  have um: "user_mode tf = True" using assms(1) by simp
  consider "trap_syscall forkret_addr tf s = Ok () t" | "kseq (trap_interrupt h tf) (trap_end tf) s = Ok () t"
    | "trap_resume tf s = Ok () t" | "trap_syscall_resume p f s = Ok () t"
    using assms(2,3) by (auto simp: trap_def split: if_splits)
  then show thesis
  proof cases
    case 1
    then show ?thesis unfolding trap_syscall_def by (elim kbind_returns kseq_returns) (auto intro: that)
  next
    case 2
    then show ?thesis unfolding trap_end_def um by (elim kbind_returns kseq_returns) (auto intro: that)
  next
    case 3
    then show ?thesis unfolding trap_resume_def um by (elim kbind_returns kseq_returns) (auto intro: that)
  next
    case 4
    then show ?thesis unfolding trap_syscall_resume_def by (elim kbind_returns kseq_returns) (auto intro: that)
  qed
qed

section \<open>What the check for signals does to the mark\<close>

text \<open>Computations that keep, if they return, the current process and what \<open>p\<close> has to do with signals.\<close>

definition sig_same :: "nat \<Rightarrow> 'z ptab_scheme \<Rightarrow> 'z ptab_scheme \<Rightarrow> bool" where
  "sig_same p s t \<longleftrightarrow> cur t = cur s \<and> p_killed (procs t ! p) = p_killed (procs s ! p)
     \<and> p_pending_signals (procs t ! p) = p_pending_signals (procs s ! p)
     \<and> p_signal_mask (procs t ! p) = p_signal_mask (procs s ! p) \<and> p_signal_handlers (procs t ! p) = p_signal_handlers (procs s ! p)"

definition keeps_sig :: "nat \<Rightarrow> ('z ptab_scheme, 'a) kop \<Rightarrow> bool" where
  "keeps_sig p m \<longleftrightarrow> (\<forall>s x t. m s = Ok x t \<longrightarrow> sig_same p s t)"

lemma keepsD: "keeps_sig p m \<Longrightarrow> m s = Ok x t \<Longrightarrow> sig_same p s t"
  by (auto simp: keeps_sig_def)

named_theorems keeps

lemma keeps_basic [keeps]:
  "keeps_sig p (kret x)" "keeps_sig p (kget g)" "keeps_sig p (kpanic e)" "keeps_sig p (kfault e)" "keeps_sig p (kcheck b e)"
  "keeps_sig p (acquire l)" "keeps_sig p (release l)" "keeps_sig p curproc" "keeps_sig p (get_proc q g')"
  by (auto simp: keeps_sig_def sig_same_def run kcheck_def split: if_splits option.splits)

lemma keeps_bind [keeps]: "keeps_sig p m \<Longrightarrow> (\<And>x. keeps_sig p (f x)) \<Longrightarrow> keeps_sig p (kbind m f)"
  unfolding keeps_sig_def sig_same_def by (clarsimp simp: run split: outcome.splits)

lemma keeps_seq [keeps]: "keeps_sig p m \<Longrightarrow> keeps_sig p n \<Longrightarrow> keeps_sig p (kseq m n)"
  unfolding kseq_def by (rule keeps_bind)

lemma keeps_when [keeps]: "keeps_sig p m \<Longrightarrow> keeps_sig p (kwhen c m)"
  by (simp add: kwhen_def keeps_basic)

lemma keeps_if [keeps]: "keeps_sig p m \<Longrightarrow> keeps_sig p n \<Longrightarrow> keeps_sig p (if c then m else n)"
  by simp

lemma keeps_for [keeps]: "(\<And>x. keeps_sig p (f x)) \<Longrightarrow> keeps_sig p (kfor xs f)"
  by (induction xs) (simp_all add: keeps)

lemma keeps_mod [keeps]: "(\<And>s. sig_same p s (f s)) \<Longrightarrow> keeps_sig p (kmod f)"
  by (simp add: keeps_sig_def run)

lemma keeps_upd [keeps]:
  assumes "\<And>P. p_killed (f P) = p_killed P \<and> p_pending_signals (f P) = p_pending_signals P \<and> p_signal_mask (f P) = p_signal_mask P
    \<and> p_signal_handlers (f P) = p_signal_handlers P"
  shows "keeps_sig p (upd_proc q f :: ('z ptab_scheme, unit) kop)"
proof -
  have "sig_same p s (s\<lparr>procs := (procs s)[q := f (procs s ! q)]\<rparr>)" for s :: "'z ptab_scheme"
    using assms by (cases "q < length (procs s)") (auto simp: sig_same_def nth_list_update list_update_beyond)
  then show ?thesis by (auto simp: keeps_sig_def run)
qed

lemma keeps_uart: "keeps_sig p (uartputc c)"
  unfolding uartputc_def by (intro keeps) (simp_all add: sig_same_def)

lemma keeps_putc [keeps]: "keeps_sig p (consputc c)"
  unfolding consputc_def cgaputc_def by (intro keeps keeps_uart) (simp_all add: sig_same_def)

lemma keeps_cprintf [keeps]: "keeps_sig p (cprintf fmt as)"
  unfolding cprintf_def by (intro keeps) (auto split: option.splits intro: keeps)

lemma keeps_ustore [keeps]: "keeps_sig p (ustore bs va)" "keeps_sig p (ustore32 va w)"
proof -
  show *: "keeps_sig p (ustore bs va)" for bs va
    by (induction bs arbitrary: va) (auto simp: keeps_sig_def sig_same_def ustore1_def run split: outcome.splits option.splits)
  show "keeps_sig p (ustore32 va w)" unfolding ustore32_def by (rule *)
qed

lemma keeps_push [keeps]: "keeps_sig p (push_handler tramp q i)"
  unfolding push_handler_def upd_tf_def by (intro keeps) simp_all

lemma keeps_handlers [keeps]: "keeps_sig p SIGSTOP_handler" "keeps_sig p SIGCONT_handler"
  unfolding SIGSTOP_handler_def SIGCONT_handler_def by (intro keeps; simp)+

text \<open>The mark is set only for a fatal signal, and the signals that are left were there before.\<close>

definition marks_only :: "nat \<Rightarrow> nat set \<Rightarrow> 'z ptab_scheme \<Rightarrow> 'z ptab_scheme \<Rightarrow> bool" where
  "marks_only p I s t \<longleftrightarrow> cur t = cur s
     \<and> (p_killed (procs t ! p) \<longrightarrow> p_killed (procs s ! p) \<or> (\<exists>i\<in>I. fatal (procs s ! p) i))
     \<and> (\<forall>i. fatal (procs t ! p) i \<longrightarrow> fatal (procs s ! p) i)"

lemma sig_same_fatal: "sig_same p s t \<Longrightarrow> fatal (procs t ! p) i = fatal (procs s ! p) i"
  by (simp add: sig_same_def fatal_def)

lemma marks_same: "sig_same p s t \<Longrightarrow> marks_only p I s t"
  using sig_same_fatal by (auto simp: marks_only_def sig_same_def)

lemma marks_trans: "marks_only p I s t \<Longrightarrow> marks_only p J t u \<Longrightarrow> marks_only p (I \<union> J) s u"
  by (fastforce simp: marks_only_def)

lemma sigkill_keeps:
  assumes "SIGKILL_handler s = Ok x t"
  shows "cur t = cur s" and "fatal (procs t ! p) j = fatal (procs s ! p) j"
proof -
  from assms obtain u q where u: "cprintf (Some (bytes ''Killed'' @ [10])) [] s = Ok () u"
    and t: "t = u\<lparr>procs := (procs u)[q := (procs u ! q)\<lparr>p_killed := True\<rparr>]\<rparr>"
    unfolding SIGKILL_handler_def by (elim kseq_returns kbind_returns) (auto simp: run split: option.splits)
  have s: "sig_same p s u" by (rule keepsD [OF keeps_cprintf u])
  have "fatal (procs t ! p) j = fatal (procs u ! p) j"
    using t by (cases "q < length (procs u)") (auto simp: fatal_def nth_list_update list_update_beyond)
  then show "cur t = cur s" "fatal (procs t ! p) j = fatal (procs s ! p) j" using s sig_same_fatal [OF s] t by (auto simp: sig_same_def)
qed

lemma sig_act_marks:
  fixes s :: "'z consst_scheme"
  assumes "sig_act tramp p i sig s = Ok () t"
  shows "sig_same p s t \<or> (SIGKILL_handler s = Ok () t \<and> (i = SIGKILL \<or> i \<noteq> SIGSTOP \<and> i \<noteq> SIGCONT
    \<and> p_signal_mask (procs s ! p) AND sig = 0 \<and> p_signal_handlers (procs s ! p) ! i = SIG_DFL))"
proof -
  let ?h = "kseq (cprintf (Some (bytes ''before backup'' @ [10])) [FInt (of_nat i)])
        (kseq (push_handler tramp p i)
              (cprintf (Some (bytes ''after backup'' @ [10])) [FInt (of_nat i)])) :: ('z consst_scheme, unit) kop"
  let ?c = "kseq (cprintf (Some (bytes ''bennuy'' @ [10])) []) SIGCONT_handler :: ('z consst_scheme, unit) kop"
  have kp: "keeps_sig p ?h" "keeps_sig p ?c" by (intro keeps)+
  note k = keepsD [OF kp(1), of s "()" t] keepsD [OF kp(2), of s "()" t] keepsD [OF keeps_basic(1), of "()" s "()" t p]
    keepsD [OF keeps_handlers(1), of s "()" t p]
  have g: "kbind (get_proc p id) f s = f (procs s ! p) s" for f :: "proc \<Rightarrow> ('z consst_scheme, unit) kop" by (simp add: run)
  show ?thesis using assms k unfolding sig_act_def by (auto simp only: g if_distribR split: if_splits)
qed

lemma sig_step_marks:
  fixes s :: "'z consst_scheme"
  assumes "sig_step tramp p i s = Ok () t" and "i < 32"
  shows "marks_only p {i} s t"
proof (cases "bit (p_pending_signals (procs s ! p)) i")
  case False
  then have "sig_step tramp p i s = Ok () s" by (rule sig_step_skip)
  then show ?thesis using assms(1) by (auto simp: marks_only_def)
next
  case True
  let ?sig = "p_pending_signals (procs s ! p) AND push_bit i 1"
  let ?P = "\<lambda>P. P\<lparr>p_pending_signals := p_pending_signals P XOR push_bit i 1\<rparr>"
  have n: "?sig \<noteq> 0" using and_single [of "p_pending_signals (procs s ! p)" i] True assms(2) by auto
  then have "kseq (cprintf (Some (bytes ''Execute (if not block) signal number %d...'' @ [10])) [FInt (of_nat i)])
      (kseq (upd_proc p ?P) (sig_act tramp p i ?sig)) s = Ok () t"
    using assms(1) by (simp add: sig_step_def run)
  then obtain x u where u: "cprintf (Some (bytes ''Execute (if not block) signal number %d...'' @ [10])) [FInt (of_nat i)] s = Ok x u"
    and act: "kseq (upd_proc p ?P) (sig_act tramp p i ?sig) u = Ok () t" by (rule kseq_returns)
  let ?u = "u\<lparr>procs := (procs u)[p := ?P (procs u ! p)]\<rparr>"
  have act: "sig_act tramp p i ?sig ?u = Ok () t" using act by (simp add: run)
  note su = keepsD [OF keeps_cprintf u, of p]
  have m: "p_signal_mask (procs s ! p) AND ?sig = 0 \<longleftrightarrow> \<not> bit (p_signal_mask (procs s ! p)) i"
    using and_single [of "p_signal_mask (procs s ! p) AND p_pending_signals (procs s ! p)" i] assms(2) True by (auto simp: bit_simps and.assoc)
  have f: "p_killed (procs ?u ! p) = p_killed (procs s ! p)" "p_signal_mask (procs ?u ! p) = p_signal_mask (procs s ! p)"
    "p_signal_handlers (procs ?u ! p) = p_signal_handlers (procs s ! p)" "cur ?u = cur s"
    using su by (cases "p < length (procs u)"; simp add: sig_same_def list_update_beyond)+
  have b: "bit (p_pending_signals (procs ?u ! p)) j \<Longrightarrow> bit (p_pending_signals (procs s ! p)) j" for j
    using su True by (cases "p < length (procs u)"; cases "j = i") (auto simp: sig_same_def list_update_beyond bit_simps)
  have fu: "fatal (procs ?u ! p) j \<Longrightarrow> fatal (procs s ! p) j" for j using b [of j] f(2,3) by (auto simp: fatal_def)
  from sig_act_marks [OF act] show ?thesis
  proof
    assume s: "sig_same p ?u t"
    then show ?thesis using f fu sig_same_fatal [OF s] by (auto simp: marks_only_def sig_same_def)
  next
    assume k: "SIGKILL_handler ?u = Ok () t \<and> (i = SIGKILL \<or> i \<noteq> SIGSTOP \<and> i \<noteq> SIGCONT
      \<and> p_signal_mask (procs ?u ! p) AND ?sig = 0 \<and> p_signal_handlers (procs ?u ! p) ! i = SIG_DFL)"
    then have "fatal (procs s ! p) i" using True f(2,3) m by (auto simp: fatal_def)
    then show ?thesis using k f(4) fu sigkill_keeps [of ?u "()" t] by (auto simp: marks_only_def)
  qed
qed

lemma sig_loop_marks:
  fixes s :: "'z consst_scheme"
  assumes "kfor is (sig_step tramp p) s = Ok x t" and "\<forall>i \<in> set is. i < 32"
  shows "marks_only p (set is) s t"
  using assms
proof (induction "is" arbitrary: s)
  case Nil
  then show ?case by (auto simp: run marks_only_def)
next
  case (Cons i "is")
  then obtain y u where u: "sig_step tramp p i s = Ok y u" "kfor is (sig_step tramp p) u = Ok x t" by (auto elim: kseq_returns)
  then show ?case using marks_trans [OF sig_step_marks [of tramp p i s u]] Cons by simp
qed

lemma trapret_marks:
  fixes u :: "'z consst_scheme"
  assumes "trapret tramp p u = Ok tf t" and "cur t = Some p" and "p_killed (procs t ! p)"
  shows "cur u = Some p" and "p_killed (procs u ! p) \<or> (\<exists>i<32. fatal (procs u ! p) i)"
proof -
  have r: "sig_handler_runner tramp (p_tf (procs u ! p)) u = Ok () t"
    using assms(1) by (auto simp: trapret_def run split: outcome.splits)
  then consider "u = t" | q where "cur u = Some q" "kfor [0..<32] (sig_step tramp q) u = Ok () t"
    by (auto simp: sig_handler_runner_def run split: if_splits option.splits)
  then have "cur u = Some p \<and> (p_killed (procs u ! p) \<or> (\<exists>i<32. fatal (procs u ! p) i))"
  proof cases
    case (2 q)
    have m: "marks_only q (set [0..<32]) u t" by (rule sig_loop_marks [OF 2(2)]) simp
    then have "q = p" using 2(1) assms(2) by (simp add: marks_only_def)
    then show ?thesis using m 2(1) assms(3) by (auto simp: marks_only_def)
  qed (use assms in simp)
  then show "cur u = Some p" "p_killed (procs u ! p) \<or> (\<exists>i<32. fatal (procs u ! p) i)" by auto
qed

section \<open>Properties\<close>

text \<open>
  C9. What the mark \<^verbatim>\<open>killed\<close> does. A system call of a process that has been marked ends it before anything else happens. Whatever
  the trap from user mode is, and whatever the system call or the interrupt does, \<^verbatim>\<open>trap\<close> returns only if the current
  process is not marked, and so it is where \<^verbatim>\<open>trap\<close> goes on after the process has given up the processor, in \<^verbatim>\<open>yield\<close> or in a
  system call that has waited; in every other case \<^verbatim>\<open>exit\<close> has been called, which does not return. Behind \<^verbatim>\<open>trap\<close>,
  \<^verbatim>\<open>trapret\<close> acts on the pending signals: a process reaches user mode with the mark set only if a fatal signal was pending
  then, and it ends at its next trap.
\<close>

theorem killed_leaves_in_trap:
  fixes s :: "'z kbdst_scheme"
  assumes "user_mode tf" and "m \<in> {trap forkret_addr h tf, trap_resume tf, trap_syscall_resume p f}"
  shows "(tf_trapno tf = T_SYSCALL \<and> cur s = Some p \<and> p_killed (procs s ! p) \<longrightarrow> trap forkret_addr h tf s = exit s)
    \<and> (\<forall>t q. m s = Ok () t \<and> cur t = Some q \<longrightarrow> \<not> p_killed (procs t ! q))
    \<and> (\<forall>tf' t. kseq m (trapret tramp p) s = Ok tf' t \<and> cur t = Some p \<and> p_killed (procs t ! p) \<longrightarrow>
        (\<exists>u. m s = Ok () u \<and> \<not> p_killed (procs u ! p) \<and> (\<exists>i<32. fatal (procs u ! p) i)))
    \<and> never_ok (exit :: ('z kbdst_scheme, unit) kop)"
proof -
  have ne: "exit v \<noteq> Ok x t" for v :: "'z kbdst_scheme" and x t using never_exit unfolding never_ok_def by blast
  have 2: "\<not> p_killed (procs t ! q)" if r: "m s = Ok () t" "cur t = Some q" for t q
    using trap_Ok_exit [OF assms r(1)] exit_if_killed_Ok(1,2) r(2) by metis
  have "\<exists>u. m s = Ok () u \<and> \<not> p_killed (procs u ! p) \<and> (\<exists>i<32. fatal (procs u ! p) i)"
    if r: "kseq m (trapret tramp p) s = Ok tf' t" "cur t = Some p" "p_killed (procs t ! p)" for tf' t
  proof -
    obtain u where u: "m s = Ok () u" "trapret tramp p u = Ok tf' t" using r(1) by (rule kseq_returns) simp
    then show ?thesis using 2 [OF u(1)] trapret_marks [OF u(2) r(2,3)] by auto
  qed
  moreover have "trap forkret_addr h tf s = exit s" if "tf_trapno tf = T_SYSCALL" "cur s = Some p" "p_killed (procs s ! p)"
    using that ne by (cases "exit s") (simp_all add: trap_def trap_syscall_def exit_if_killed_def run)
  ultimately show ?thesis using 2 never_exit by blast
qed

definition demo_kbd :: kbdst where
  "demo_kbd = consst.extend demo_sig \<lparr>kbd_shift = 0\<rparr>"

lemma demo_kbd_simps [simp]: "cur demo_kbd = Some 0" "procs demo_kbd = procs demo_sig" "held demo_kbd = {}" "screen_ok demo_kbd"
  using demo_console_ok [of 0 zero_input]
  by (simp_all add: demo_kbd_def consst.extend_def screen_ok_def) (simp_all add: demo_sig_def demo_console_def filest.extend_def
      demo_files_def pipest.extend_def with_pipe_def fsst.extend_def with_fs_def
      logst.extend_def with_log_def bcache.extend_def boot_bcache_def vmem.extend_def kmem.extend_def demo_kmem_def
      sleeps.extend_def demo_sleeps_def ptab.extend_def demo_ptab_def)

text \<open>A process with \<^verbatim>\<open>SIGKILL\<close> pending at a trap: it comes back from \<^verbatim>\<open>trap\<close> without the mark and reaches user mode with it.\<close>

definition demo_victim :: proc where
  "demo_victim = idle_proc\<lparr>p_state := RUNNING, p_signal_handlers := replicate 32 SIG_IGN, p_pending_signals := 0x200,
     p_tf := zero_tf\<lparr>tf_cs := 0x1B, tf_trapno := 46\<rparr>\<rparr>"

theorem killed_leaves_in_trap_witness:
  "\<exists>t. kseq (trap 0 \<lparr>hw_cpu = 0, hw_cr2 = 0, hw_keys = [], hw_com1 = []\<rparr> (p_tf demo_victim)) (trapret [] 0) (demo_kbd\<lparr>procs := [demo_victim]\<rparr>) =
      Ok (p_tf demo_victim) t \<and> p_killed (procs t ! 0) \<and> \<not> p_killed demo_victim \<and> (\<exists>i<32. fatal demo_victim i)"
proof -
  let ?s = "demo_kbd\<lparr>procs := [demo_victim]\<rparr>" and ?tf = "p_tf demo_victim" and ?h = "\<lparr>hw_cpu = 0, hw_cr2 = 0, hw_keys = [], hw_com1 = []\<rparr>"
  have u: "user_mode ?tf" by (simp add: user_mode_def DPL_USER_def demo_victim_def)
  have nk: "\<not> p_killed demo_victim" "tf_trapno ?tf = 46" by (simp_all add: demo_victim_def idle_proc_def)
  have tr: "trap 0 ?h ?tf ?s = Ok () ?s"
    using nk by (simp add: trap_def trap_interrupt_def trap_end_def exit_if_killed_def run T_SYSCALL_def T_IRQ0_def IRQ_TIMER_def IRQ_IDE_def)
  have b: "bit (0x200 :: uint32) 9" by (simp add: bit_numeral_rec)
  then have f: "fatal demo_victim 9" "\<forall>i. \<not> caught demo_victim i"
    by (simp_all add: demo_victim_def fatal_def caught_def SIGKILL_def SIG_IGN_def SIG_DFL_def)
  have v: "p_state demo_victim \<noteq> SLEEPING" "tf_cs ?tf AND 3 = DPL_USER" "screen_ok ?s"
    using u demo_kbd_simps(4) unfolding user_mode_def screen_ok_def by (simp_all add: demo_victim_def DPL_USER_def)
  have e: "\<exists>i<32. fatal demo_victim i" using f(1) by (intro exI [of _ 9]) simp
  obtain t where t: "sig_handler_runner [] ?tf ?s = Ok () t" "cur t = Some 0" "p_tf (procs t ! 0) = ?tf" "p_killed (procs t ! 0)"
    using signals_uncaught [of ?s 0 demo_victim ?tf "[]"] v f(2) e by auto
  then have "kseq (trap 0 ?h ?tf) (trapret [] 0) ?s = Ok ?tf t" using tr by (simp add: run trapret_def)
  then show ?thesis
    using killed_leaves_in_trap [OF u, of "trap 0 ?h ?tf" 0 ?h 0 "kret 0" ?s "[]"] t(2,4) tr by auto
qed

end
