(* ===== verification/Filedata.thy ===== *)
theory Filedata
  imports Fs
begin

text \<open>
  The content of a file as a sequence of bytes: the routines \<^verbatim>\<open>bmap\<close>, \<^verbatim>\<open>readi\<close> and \<^verbatim>\<open>writei\<close> of \<^verbatim>\<open>fs.c\<close>, through the direct
  and the indirect blocks, the log and the buffer cache, are proved to read and to replace a segment of it. The file is
  one whose blocks are allocated up to its size; what is written lies inside it.
\<close>

section \<open>The bytes of a file\<close>

text \<open>The block that holds the indirect addresses, the block number of block \<open>k\<close> of the file, and its byte \<open>x\<close>.\<close>

definition findirect :: "'z fsst_scheme \<Rightarrow> nat \<Rightarrow> nat" where
  "findirect s i = unat (i_addrs (icache s ! i) ! NDIRECT)"

definition faddr :: "'z fsst_scheme \<Rightarrow> nat \<Rightarrow> nat \<Rightarrow> nat" where
  "faddr s i k = (if k < NDIRECT then unat (i_addrs (icache s ! i) ! k)
     else unat (ld32 (content s (findirect s i)) (4 * (k - NDIRECT))))"

definition fbyte :: "'z fsst_scheme \<Rightarrow> nat \<Rightarrow> nat \<Rightarrow> uchar" where
  "fbyte s i x = content s (faddr s i (x div BSIZE)) ! (x mod BSIZE)"

definition fdata :: "'z fsst_scheme \<Rightarrow> nat \<Rightarrow> nat \<Rightarrow> nat \<Rightarrow> uchar list" where
  "fdata s i off n = map (fbyte s i) [off..<off + n]"

text \<open>The first \<open>n\<close> bytes of the file are on the disk.\<close>

definition mapped :: "'z fsst_scheme \<Rightarrow> nat \<Rightarrow> nat \<Rightarrow> bool" where
  "mapped s i n \<longleftrightarrow> i_dev (icache s ! i) = 1 \<and> n \<le> MAXFILE * BSIZE \<and>
     (\<forall>k. k * BSIZE < n \<longrightarrow> faddr s i k \<noteq> 0 \<and> faddr s i k < length (memdisk s)
        \<and> (NDIRECT \<le> k \<longrightarrow> findirect s i \<noteq> 0 \<and> findirect s i < length (memdisk s)))"

text \<open>What reading leaves as it was.\<close>

definition unchanged :: "'z fsst_scheme \<Rightarrow> 'z fsst_scheme \<Rightarrow> bool" where
  "unchanged s t \<longleftrightarrow> log_inv {} t \<and> content t = content s \<and> memdisk t = memdisk s \<and> logged t = logged s \<and> log_frame s t"

lemma unchanged_refl: "log_inv {} s \<Longrightarrow> unchanged s s"
  by (simp add: unchanged_def log_frame_bio bio_frame_refl)

lemma unchanged_trans: "unchanged s t \<Longrightarrow> unchanged t u \<Longrightarrow> unchanged s u"
  by (auto simp: unchanged_def intro: log_frame_trans)

lemma unchangedD:
  fixes s t :: "'z fsst_scheme"
  assumes "unchanged s t"
  shows "log_inv {} t" "content t = content s" "memdisk t = memdisk s" "logged t = logged s" "icache t = icache s" "log_frame s t"
  using assms log_frame_fs [of s t] by (auto simp: unchanged_def)

lemma unchanged_file:
  fixes s t :: "'z fsst_scheme"
  assumes "unchanged s t"
  shows "faddr t = faddr s" "fbyte t = fbyte s" "fdata t = fdata s" "mapped t = mapped s" "findirect t = findirect s"
proof -
  note f = unchangedD [OF assms]
  show d: "findirect t = findirect s" by (simp add: findirect_def f fun_eq_iff)
  show a: "faddr t = faddr s" by (simp add: faddr_def f d fun_eq_iff)
  show b: "fbyte t = fbyte s" by (simp add: fbyte_def f a fun_eq_iff)
  show "fdata t = fdata s" by (simp add: fdata_def b fun_eq_iff)
  show "mapped t = mapped s" by (simp add: mapped_def f a d fun_eq_iff)
qed

text \<open>The state in which the buffer \<open>b\<close> holds the block \<open>a\<close> and nothing else has changed.\<close>

definition has_block :: "'z fsst_scheme \<Rightarrow> nat \<Rightarrow> nat \<Rightarrow> 'z fsst_scheme \<Rightarrow> bool" where
  "has_block s a b t \<longleftrightarrow> log_inv {b} t \<and> blk_of t b = a \<and> b_data (bufs t ! b) = content s a \<and> content t = content s \<and> dirty t = dirty s
     \<and> memdisk t = memdisk s \<and> logged t = logged s \<and> log_frame s t"

lemma wp_fetch:
  fixes s :: "'z fsst_scheme"
  assumes s: "log_inv {} s" and a: "unat a < length (memdisk s)" and K: "\<And>b t. has_block s (unat a) b t \<Longrightarrow> wpk (K b) Q t"
  shows "wpk (kbind (bread 1 a) K) Q s"
  unfolding wp_bind by (rule wpk_mono [OF log_bread [OF s a]]) (auto intro!: K simp: has_block_def dat_of_def)

lemma wp_drop:
  fixes s t :: "'z fsst_scheme"
  assumes s: "log_inv {} s" and a: "a < length (memdisk s)" and t: "has_block s a b t" and K: "\<And>u. unchanged s u \<Longrightarrow> wpk K Q u"
  shows "wpk (kseq (brelse b) K) Q t"
  unfolding wp_seq
proof (rule wpk_mono [OF log_brelse])
  show "log_inv {b} t" using t by (simp add: has_block_def)
  show "dirty t (blk_of t b) \<or> dat_of t b = memdisk t ! blk_of t b"
    using bc.clean_cont [OF log_invD(1) [OF s] a] t by (auto simp: has_block_def dat_of_def)
  fix u :: "'z fsst_scheme"
  assume "log_inv {} u \<and> content u = content t \<and> dirty u = dirty t \<and> memdisk u = memdisk t \<and> wtrace u = wtrace t
      \<and> logged u = logged t \<and> lh_n u = lh_n t \<and> log_frame t u"
  then show "wpk K Q u" using t by (intro K) (auto simp: unchanged_def has_block_def intro: log_frame_trans)
qed

lemma wp_read_block:
  fixes s :: "'z fsst_scheme"
  assumes s: "log_inv {} s" and a: "unat a < length (memdisk s)" and K: "\<And>u. unchanged s u \<Longrightarrow> wpk (K (content s (unat a))) Q u"
  shows "wpk (kbind (bread 1 a) (\<lambda>b. kbind (get_buf b b_data) (\<lambda>d. kseq (brelse b) (K d)))) Q s"
proof (rule wp_fetch [OF s a])
  fix b and t :: "'z fsst_scheme"
  assume t: "has_block s (unat a) b t"
  then have "b_data (bufs t ! b) = content s (unat a)" by (simp add: has_block_def)
  then show "wpk (kbind (get_buf b b_data) (\<lambda>d. kseq (brelse b) (K d))) Q t"
    using wp_drop [OF s a t K] by (simp add: wp_bind get_buf_def wp_get)
qed

lemma bmap_mapped:
  fixes s :: "'z fsst_scheme"
  assumes s: "log_inv {} s" and m: "mapped s i n" "k * BSIZE < n"
  shows "wpk (bmap i k) (\<lambda>a t. unat a = faddr s i k \<and> unchanged s t) s"
proof -
  have k: "faddr s i k \<noteq> 0" "NDIRECT \<le> k \<Longrightarrow> findirect s i \<noteq> 0 \<and> findirect s i < length (memdisk s)" "i_dev (icache s ! i) = 1"
    "k < MAXFILE"
    using m by (auto simp: mapped_def BSIZE_def)
  show ?thesis
  proof (cases "k < NDIRECT")
    case True
    then show ?thesis using k(1) s by (auto simp: bmap_def wp faddr_def unchanged_refl)
  next
    case False
    let ?i = "i_addrs (icache s ! i) ! NDIRECT" and ?j = "4 * (k - NDIRECT)"
    let ?K = "\<lambda>bp. kbind (get_buf bp b_data) (\<lambda>d.
       kbind (if ld32 d ?j = 0 then kbind (balloc 1) (\<lambda>addr. kseq (bset bp (st32 ?j addr)) (kseq (log_write bp) (kret addr)))
              else kret (ld32 d ?j)) (\<lambda>addr. kseq (brelse bp) (kret addr)))"
    have i: "unat ?i < length (memdisk s)" "?i \<noteq> 0" using False k(2) by (auto simp: findirect_def)
    have "wpk (kbind (bread 1 ?i) ?K) (\<lambda>a t. unat a = faddr s i k \<and> unchanged s t) s"
    proof (rule wp_fetch [OF s i(1)])
      fix b and t :: "'z fsst_scheme"
      assume t: "has_block s (unat ?i) b t"
      have d: "b_data (bufs t ! b) = content s (unat ?i)" using t by (simp add: has_block_def)
      have "wpk (kseq (brelse b) (kret (ld32 (content s (unat ?i)) ?j))) (\<lambda>a t. unat a = faddr s i k \<and> unchanged s t) t"
        by (rule wp_drop [OF s i(1) t]) (use False in \<open>simp add: wp faddr_def findirect_def\<close>)
      moreover have "ld32 (content s (unat ?i)) ?j \<noteq> 0" using False k(1) by (auto simp: faddr_def findirect_def)
      ultimately show "wpk (?K b) (\<lambda>a t. unat a = faddr s i k \<and> unchanged s t) t"
        by (simp add: wp_bind get_buf_def wp_get d wp_ret)
    qed
    moreover have "k - NDIRECT < NINDIRECT" using False k(4) by (simp add: MAXFILE_def)
    ultimately show ?thesis using False k(3) i(2)
      by (simp add: bmap_def wp_bind [of "get_inode i id"] wp_get_inode wp_bind [of "kret _"] wp_ret cong: if_cong)
  qed
qed

section \<open>Reading\<close>

text \<open>A piece that does not cross the end of a block.\<close>

lemma chunk_index:
  assumes "x < BSIZE - off mod BSIZE"
  shows "(off + x) div BSIZE = off div BSIZE" and "(off + x) mod BSIZE = off mod BSIZE + x"
proof -
  have "off + x = off div BSIZE * BSIZE + (off mod BSIZE + x)" by simp
  moreover have "off mod BSIZE + x < BSIZE" using assms by simp
  ultimately show "(off + x) div BSIZE = off div BSIZE" "(off + x) mod BSIZE = off mod BSIZE + x"
    by (metis add.commute div_mult_self1_is_m div_less div_mult_self3 add_0 BSIZE_def zero_neq_numeral, metis mod_mult_self3 mod_less)
qed

lemma fdata_append: "fdata s i off (m + n) = fdata s i off m @ fdata s i (off + m) n"
  using upt_add_eq_append [of off "off + m" n] by (simp add: fdata_def add.assoc)

lemma fdata_chunk:
  fixes s :: "'z fsst_scheme"
  assumes "m \<le> BSIZE - off mod BSIZE" and "length (content s (faddr s i (off div BSIZE))) = BSIZE"
  shows "take m (drop (off mod BSIZE) (content s (faddr s i (off div BSIZE)))) = fdata s i off m"
proof (rule nth_equalityI)
  have "0 < BSIZE" by (simp add: BSIZE_def)
  then have "off mod BSIZE < BSIZE" by simp
  then show "length (take m (drop (off mod BSIZE) (content s (faddr s i (off div BSIZE))))) = length (fdata s i off m)"
    using assms by (simp add: fdata_def)
  fix x assume "x < length (take m (drop (off mod BSIZE) (content s (faddr s i (off div BSIZE)))))"
  then have "x < m" by simp
  then show "take m (drop (off mod BSIZE) (content s (faddr s i (off div BSIZE)))) ! x = fdata s i off m ! x"
    using assms chunk_index [of x off] by (simp add: fdata_def fbyte_def)
qed

lemma readi_loop_ok:
  fixes s :: "'z fsst_scheme"
  assumes "log_inv {} s" and "mapped s i N" and "unat off + n \<le> N" and "N < 2 ^ 32"
  shows "wpk (readi_loop i off n) (\<lambda>bs t. bs = fdata s i (unat off) n \<and> unchanged s t) s"
  using assms
proof (induction i off n arbitrary: s rule: readi_loop.induct)
  case (1 i off n)
  show ?case
  proof (cases "n = 0")
    case True
    then show ?thesis using "1.prems"(1) by (subst readi_loop.simps) (simp add: wp fdata_def unchanged_refl)
  next
    case False
    define m where "m = min n (BSIZE - unat off mod BSIZE)"
    let ?k = "unat off div BSIZE"
    have k: "?k * BSIZE < N" using False "1.prems"(3) by (metis add.commute add_strict_increasing le_less_trans div_times_less_eq_dividend less_le_trans neq0_conv)
    have dev: "i_dev (icache s ! i) = 1" and a: "faddr s i ?k < length (memdisk s)" using "1.prems"(2) k by (auto simp: mapped_def)
    have nx: "unat (off + of_nat m) = unat off + m" using "1.prems"(3,4) by (intro unat_add_of_nat) (simp add: m_def)
    have m: "m \<le> n" "m \<le> BSIZE - unat off mod BSIZE" "m + (n - m) = n" by (auto simp: m_def)
    have "wpk (bmap i ?k) (\<lambda>a. wpk (kbind (bread 1 a) (\<lambda>bp. kbind (get_buf bp b_data) (\<lambda>d. kseq (brelse bp)
        (kbind (readi_loop i (off + of_nat m) (n - m)) (\<lambda>r. kret (take m (drop (unat off mod BSIZE) d) @ r))))))
        (\<lambda>bs t. bs = fdata s i (unat off) n \<and> unchanged s t)) s"
    proof (rule wpk_mono [OF bmap_mapped [OF "1.prems"(1,2) k]])
      fix a :: uint32 and t :: "'z fsst_scheme"
      assume t: "unat a = faddr s i ?k \<and> unchanged s t"
      note tD = unchangedD [OF conjunct2 [OF t]] and tF = unchanged_file [OF conjunct2 [OF t]]
      have al: "unat a < length (memdisk t)" using t a tD(3) by simp
      have len: "length (content s (faddr s i ?k)) = BSIZE" using bc.cont_len [OF log_invD(1) [OF "1.prems"(1)] a] .
      show "wpk (kbind (bread 1 a) (\<lambda>bp. kbind (get_buf bp b_data) (\<lambda>d. kseq (brelse bp)
          (kbind (readi_loop i (off + of_nat m) (n - m)) (\<lambda>r. kret (take m (drop (unat off mod BSIZE) d) @ r))))))
          (\<lambda>bs t. bs = fdata s i (unat off) n \<and> unchanged s t) t"
      proof (rule wp_read_block [OF tD(1) al])
        fix u :: "'z fsst_scheme"
        assume u: "unchanged t u"
        have su: "unchanged s u" using t u unchanged_trans by blast
        have "wpk (readi_loop i (off + of_nat m) (n - m)) (\<lambda>bs v. bs = fdata u i (unat (off + of_nat m)) (n - m) \<and> unchanged u v) u"
          using "1.IH" [of m, OF False m_def] "1.prems" nx m unchangedD(1) [OF su] unchanged_file(4) [OF su] by simp
        then show "wpk (kbind (readi_loop i (off + of_nat m) (n - m)) (\<lambda>r. kret (take m (drop (unat off mod BSIZE) (content t (unat a))) @ r)))
            (\<lambda>bs t. bs = fdata s i (unat off) n \<and> unchanged s t) u"
          unfolding wp_bind wp_ret
          by (rule wpk_mono) (use t tD(2) nx m fdata_append [of s i "unat off" m "n - m"] fdata_chunk [OF m(2) len]
            unchanged_file(3) [OF su] unchanged_trans [OF su] in auto)
      qed
    qed
    then show ?thesis using False dev by (subst readi_loop.simps) (simp add: wp_bind [of "get_inode _ _"] wp_get_inode wp_bind [of "bmap _ _"] m_def Let_def)
  qed
qed

lemma readi_ok:
  fixes s :: "'z fsst_scheme"
  assumes s: "log_inv {} s" and m: "mapped s i (unat (i_size (icache s ! i)))" and ty: "i_type (icache s ! i) \<noteq> T_DEV"
    and off: "off \<le> i_size (icache s ! i)" "unat off + unat n < 2 ^ 32"
  shows "wpk (readi dsw i off n) (\<lambda>(r, bs) t. unat r = min (unat n) (unat (i_size (icache s ! i)) - unat off)
     \<and> bs = fdata s i (unat off) (min (unat n) (unat (i_size (icache s ! i)) - unat off)) \<and> unchanged s t) s"
proof -
  let ?size = "i_size (icache s ! i)"
  let ?n = "if ?size < off + n then ?size - off else n"
  have sum: "unat (off + n) = unat off + unat n" using off(2) unat_add_lem [of off n] by simp
  then have guard: "\<not> ?size < off" "\<not> off + n < off" using off(1) by (simp_all add: word_less_nat_alt word_le_nat_alt)
  have n: "unat ?n = min (unat n) (unat ?size - unat off)"
    using off(1) sum by (auto simp: word_less_nat_alt word_le_nat_alt unat_sub)
  have "wpk (readi_loop i off (unat ?n)) (\<lambda>bs t. bs = fdata s i (unat off) (unat ?n) \<and> unchanged s t) s"
    by (rule readi_loop_ok [OF s m]) (use off(1) n unsigned_less [of ?size, where 'a = nat] in \<open>simp_all add: word_le_nat_alt\<close>)
  then have "wpk (kbind (readi_loop i off (unat ?n)) (\<lambda>bs. kret (?n, bs))) (\<lambda>(r, bs) t. unat r = min (unat n) (unat ?size - unat off)
     \<and> bs = fdata s i (unat off) (min (unat n) (unat ?size - unat off)) \<and> unchanged s t) s"
    unfolding wp_bind wp_ret n by (rule wpk_mono) (use n in auto)
  then show ?thesis using ty guard
    by (cases "?size < off + n") (simp_all add: readi_def wp_bind [of "get_inode _ _"] wp_get_inode wp_bind [of "kret _"] wp_ret)
qed

section \<open>Writing\<close>

lemma nth_put_at:
  assumes "r + length cs \<le> length d" and "y < length d"
  shows "put_at r cs d ! y = (if r \<le> y \<and> y < r + length cs then cs ! (y - r) else d ! y)" and "length (put_at r cs d) = length d"
  using assms by (auto simp: put_at_def nth_append min_def)

text \<open>A file of which every block is its own, none in the log.\<close>

definition wfile :: "'z fsst_scheme \<Rightarrow> nat \<Rightarrow> nat \<Rightarrow> bool" where
  "wfile s i N \<longleftrightarrow> mapped s i N \<and> inj_on (faddr s i) {k. k * BSIZE < N}
     \<and> (\<forall>k. k * BSIZE < N \<longrightarrow> faddr s i k \<notin> log_area s \<and> (NDIRECT * BSIZE < N \<longrightarrow> faddr s i k \<noteq> findirect s i))"

text \<open>The first \<open>N\<close> bytes of the file have \<open>bs\<close> at \<open>off\<close> and are else as before, and so is every block outside the file.\<close>

definition wrote_at :: "'z fsst_scheme \<Rightarrow> nat \<Rightarrow> nat \<Rightarrow> nat \<Rightarrow> uchar list \<Rightarrow> 'z fsst_scheme \<Rightarrow> bool" where
  "wrote_at s i N off bs t \<longleftrightarrow> log_inv {} t \<and> memdisk t = memdisk s \<and> log_frame s t
     \<and> (\<forall>a. a \<notin> faddr s i ` {k. k * BSIZE < N} \<longrightarrow> content t a = content s a)
     \<and> (\<forall>x<N. fbyte t i x = (if off \<le> x \<and> x < off + length bs then bs ! (x - off) else fbyte s i x))"

lemma wrote_faddr:
  fixes s t :: "'z fsst_scheme"
  assumes w: "wfile s i N" and t: "log_frame s t" "\<forall>a. a \<notin> faddr s i ` {k. k * BSIZE < N} \<longrightarrow> content t a = content s a"
  shows "findirect t i = findirect s i" and "k * BSIZE < N \<Longrightarrow> faddr t i k = faddr s i k"
proof -
  show d: "findirect t i = findirect s i" using log_frame_fs [OF t(1)] by (simp add: findirect_def)
  assume k: "k * BSIZE < N"
  show "faddr t i k = faddr s i k"
  proof (cases "k < NDIRECT")
    case False
    then have "NDIRECT * BSIZE \<le> k * BSIZE" by simp
    then have "NDIRECT * BSIZE < N" using k by linarith
    then have "findirect s i \<notin> faddr s i ` {k. k * BSIZE < N}" using w by (auto simp: wfile_def)
    then have "content t (findirect s i) = content s (findirect s i)" using t(2) by blast
    then show ?thesis using False d by (simp add: faddr_def)
  qed (simp add: faddr_def log_frame_fs [OF t(1)])
qed

lemma wrote_wfile:
  fixes s t :: "'z fsst_scheme"
  assumes w: "wfile s i N" and t: "wrote_at s i N off bs t"
  shows "wfile t i N" and "\<And>k. k * BSIZE < N \<Longrightarrow> faddr t i k = faddr s i k"
proof -
  have t': "log_frame s t" "\<forall>a. a \<notin> faddr s i ` {k. k * BSIZE < N} \<longrightarrow> content t a = content s a" "memdisk t = memdisk s"
    using t by (auto simp: wrote_at_def)
  note f = wrote_faddr [OF w t'(1,2)]
  show fa: "\<And>k. k * BSIZE < N \<Longrightarrow> faddr t i k = faddr s i k" using f(2) .
  have "inj_on (faddr t i) {k. k * BSIZE < N} = inj_on (faddr s i) {k. k * BSIZE < N}" using fa by (intro inj_on_cong) auto
  then show "wfile t i N" using w fa f(1) t'(3) log_frame_fs [OF t'(1)] log_frame_fields(1,2) [OF t'(1)]
    by (simp add: wfile_def mapped_def)
qed

text \<open>One piece inside a block.\<close>

lemma wrote_piece:
  fixes s t :: "'z fsst_scheme"
  assumes s: "log_inv {} s" and w: "wfile s i N" and p: "off + length cs \<le> N" "length cs \<le> BSIZE - off mod BSIZE" "cs \<noteq> []"
    and a: "a = faddr s i (off div BSIZE)" and t: "log_inv {} t" "memdisk t = memdisk s" "log_frame s t"
    and c: "content t = (content s)(a := put_at (off mod BSIZE) cs (content s a))"
  shows "wrote_at s i N off cs t"
proof -
  let ?k = "off div BSIZE"
  have B: "0 < BSIZE" by (simp add: BSIZE_def)
  have "0 < length cs" using p(3) by simp
  then have k: "?k * BSIZE < N" using p(1) div_times_less_eq_dividend [of off BSIZE] by linarith
  then have "a < length (memdisk s)" using w a by (auto simp: wfile_def mapped_def)
  then have len: "length (content s a) = BSIZE" using bc.cont_len [OF log_invD(1) [OF s]] by blast
  have fits: "off mod BSIZE + length cs \<le> BSIZE" using p(2) B mod_less_divisor [of BSIZE off] by linarith
  have out: "\<forall>x. x \<notin> faddr s i ` {k. k * BSIZE < N} \<longrightarrow> content t x = content s x" using c a k by auto
  have "fbyte t i x = (if off \<le> x \<and> x < off + length cs then cs ! (x - off) else fbyte s i x)" if x: "x < N" for x
  proof -
    let ?j = "x div BSIZE"
    have j: "?j * BSIZE < N" using x div_times_less_eq_dividend [of x BSIZE] by linarith
    have fa: "faddr t i ?j = faddr s i ?j" by (rule wrote_faddr(2) [OF w t(3) out j])
    show ?thesis
    proof (cases "?j = ?k")
      case True
      have "x = ?k * BSIZE + x mod BSIZE" "off = ?k * BSIZE + off mod BSIZE" using True by (metis div_mult_mod_eq)+
      then have eq: "off \<le> x \<and> x < off + length cs \<longleftrightarrow> off mod BSIZE \<le> x mod BSIZE \<and> x mod BSIZE < off mod BSIZE + length cs"
        "x mod BSIZE - off mod BSIZE = x - off" by linarith+
      have "fbyte t i x = put_at (off mod BSIZE) cs (content s a) ! (x mod BSIZE)" using True fa c a by (simp add: fbyte_def)
      also have "\<dots> = (if off \<le> x \<and> x < off + length cs then cs ! (x - off) else content s a ! (x mod BSIZE))"
        using nth_put_at(1) [of "off mod BSIZE" cs "content s a" "x mod BSIZE"] fits len B eq by simp
      finally show ?thesis using True a by (simp add: fbyte_def)
    next
      case False
      then have "faddr s i ?j \<noteq> a" using w a j k by (auto simp: wfile_def inj_on_def)
      moreover have "\<not> (off \<le> x \<and> x < off + length cs)"
      proof
        assume "off \<le> x \<and> x < off + length cs"
        then have "x - off < BSIZE - off mod BSIZE" "off + (x - off) = x" using p(2) by linarith+
        then show False using chunk_index(1) [of "x - off" off] False by simp
      qed
      ultimately show ?thesis using fa c by (auto simp: fbyte_def)
    qed
  qed
  then show ?thesis using t out by (simp add: wrote_at_def)
qed

lemma wrote_at_trans:
  fixes s t u :: "'z fsst_scheme"
  assumes w: "wfile s i N" and t: "wrote_at s i N off cs t" and u: "wrote_at t i N (off + length cs) ds u"
  shows "wrote_at s i N off (cs @ ds) u"
proof -
  have "faddr t i ` {k. k * BSIZE < N} = faddr s i ` {k. k * BSIZE < N}" using wrote_wfile(2) [OF w t] by (intro image_cong) auto
  then show ?thesis using t u by (auto simp: wrote_at_def nth_append intro: log_frame_trans)
qed

text \<open>How many blocks a segment touches.\<close>

definition blocks_of :: "nat \<Rightarrow> nat \<Rightarrow> nat" where
  "blocks_of off n = (if n = 0 then 0 else Suc ((off + n - 1) div BSIZE - off div BSIZE))"

lemma blocks_step:
  assumes "0 < n" and "m = min n (BSIZE - off mod BSIZE)"
  shows "Suc (blocks_of (off + m) (n - m)) \<le> blocks_of off n"
proof (cases "m = n")
  case False
  then have m: "m = BSIZE - off mod BSIZE" "m < n" using assms by auto
  have "0 < BSIZE" by (simp add: BSIZE_def)
  then have "off mod BSIZE < BSIZE" by simp
  then have "off + m = off div BSIZE * BSIZE + BSIZE" using m(1) div_mult_mod_eq [of off BSIZE] by linarith
  then have k: "(off + m) div BSIZE = Suc (off div BSIZE)" using \<open>0 < BSIZE\<close> by simp
  moreover have "(off + m) div BSIZE \<le> (off + n - 1) div BSIZE" using m(2) by (intro div_le_mono) simp
  moreover have "off + m + (n - m) - 1 = off + n - 1" using m(2) by simp
  ultimately show ?thesis using m(2) by (simp add: blocks_of_def)
qed (use assms in \<open>simp add: blocks_of_def\<close>)

lemma wp_update_block:
  fixes s :: "'z fsst_scheme"
  assumes s: "log_inv {} s" and a: "unat a < length (memdisk s)" "unat a \<notin> log_area s"
    and f: "length (f (content s (unat a))) = BSIZE" and room: "length (logged s) + 1 < unat (log_size s)" "1 \<le>s log_outstanding s"
    and K: "\<And>t. log_inv {} t \<Longrightarrow> content t = (content s)(unat a := f (content s (unat a))) \<Longrightarrow> length (logged t) \<le> Suc (length (logged s))
      \<Longrightarrow> memdisk t = memdisk s \<Longrightarrow> log_frame s t \<Longrightarrow> wpk K Q t"
  shows "wpk (kbind (bread 1 a) (\<lambda>b. kseq (bset b f) (kseq (log_write b) (kseq (brelse b) K)))) Q s"
proof -
  have "unat (lh_n s) + 1 < unat (log_size s)" using room(1) log_invD(8) [OF s] by simp
  note u = logged_update [OF s a, of f, OF f this room(2)]
  have "wpk (kbind (bread 1 a) (\<lambda>b. kseq (bset b f) (kseq (log_write b) (brelse b)))) (\<lambda>_. wpk K Q) s"
    by (rule wpk_mono [OF u]) (auto intro!: K)
  then show ?thesis by (simp only: wp_bind wpk_seq)
qed

lemma writei_loop_ok:
  fixes s :: "'z fsst_scheme"
  assumes "log_inv {} s" and "wfile s i N" and "unat off + length bs \<le> N" and "N < 2 ^ 32"
    and "length (logged s) + blocks_of (unat off) (length bs) < unat (log_size s)" and "1 \<le>s log_outstanding s"
  shows "wpk (writei_loop i off bs) (\<lambda>r t. r = off + of_nat (length bs) \<and> wrote_at s i N (unat off) bs t) s"
  using assms
proof (induction i off bs arbitrary: s rule: writei_loop.induct)
  case (1 i off bs)
  show ?case
  proof (cases "bs = []")
    case True
    then show ?thesis using "1.prems"(1) by (subst writei_loop.simps) (auto simp: wp wrote_at_def log_frame_bio bio_frame_refl)
  next
    case False
    define m where "m = min (length bs) (BSIZE - unat off mod BSIZE)"
    let ?k = "unat off div BSIZE" and ?r = "unat off mod BSIZE" and ?cs = "take m bs"
    have B: "0 < BSIZE" by (simp add: BSIZE_def)
    then have rB: "?r < BSIZE" by simp
    have m: "m \<le> length bs" "m \<le> BSIZE - ?r" "0 < m" "length ?cs = m" using False rB by (auto simp: m_def)
    have k: "?k * BSIZE < N" using "1.prems"(3) m div_times_less_eq_dividend [of "unat off" BSIZE] by linarith
    have mp: "mapped s i N" and a: "faddr s i ?k < length (memdisk s)" "faddr s i ?k \<notin> log_area s" and dev: "i_dev (icache s ! i) = 1"
      using "1.prems"(2) k by (auto simp: wfile_def mapped_def)
    have nx: "unat (off + of_nat m) = unat off + m" using "1.prems"(3,4) m(1) by (intro unat_add_of_nat) simp
    have room: "Suc (blocks_of (unat off + m) (length bs - m)) \<le> blocks_of (unat off) (length bs)"
      using blocks_step [of "length bs" m "unat off"] False by (simp add: m_def)
    let ?rest = "writei_loop i (off + of_nat m) (drop m bs)"
    have "wpk (bmap i ?k) (\<lambda>a. wpk (kbind (bread 1 a) (\<lambda>bp. kseq (bset bp (put_at ?r ?cs)) (kseq (log_write bp) (kseq (brelse bp) ?rest))))
        (\<lambda>r t. r = off + of_nat (length bs) \<and> wrote_at s i N (unat off) bs t)) s"
    proof (rule wpk_mono [OF bmap_mapped [OF "1.prems"(1) mp k]])
      fix a' :: uint32 and t :: "'z fsst_scheme"
      assume t: "unat a' = faddr s i ?k \<and> unchanged s t"
      note tD = unchangedD [OF conjunct2 [OF t]] and tL = log_frame_fields [OF unchangedD(6) [OF conjunct2 [OF t]]]
      have len: "length (content t (unat a')) = BSIZE" using bc.cont_len [OF log_invD(1) [OF "1.prems"(1)] a(1)] t tD(2) by simp
      show "wpk (kbind (bread 1 a') (\<lambda>bp. kseq (bset bp (put_at ?r ?cs)) (kseq (log_write bp) (kseq (brelse bp) ?rest))))
          (\<lambda>r t. r = off + of_nat (length bs) \<and> wrote_at s i N (unat off) bs t) t"
      proof (rule wp_update_block [OF tD(1)])
        fix u :: "'z fsst_scheme"
        assume u: "log_inv {} u" "content u = (content t)(unat a' := put_at ?r ?cs (content t (unat a')))" "length (logged u) \<le> Suc (length (logged t))"
          "memdisk u = memdisk t" "log_frame t u"
        have su: "log_frame s u" using tD(6) u(5) by (rule log_frame_trans)
        have wu: "wrote_at s i N (unat off) ?cs u"
          by (rule wrote_piece [OF "1.prems"(1,2) _ _ _ refl u(1) _ su]) (use "1.prems"(3) m u tD t in auto)
        have "wpk ?rest (\<lambda>r v. r = off + of_nat m + of_nat (length (drop m bs)) \<and> wrote_at u i N (unat (off + of_nat m)) (drop m bs) v) u"
          using "1.IH" [OF False m_def, of u] "1.prems"(3-6) m nx room u(1,3) tD(4) tL wrote_wfile(1) [OF "1.prems"(2) wu] log_frame_fields [OF u(5)]
          by simp
        then show "wpk ?rest (\<lambda>r t. r = off + of_nat (length bs) \<and> wrote_at s i N (unat off) bs t) u"
        proof (rule wpk_mono)
          fix r and v :: "'z fsst_scheme"
          assume v: "r = off + of_nat m + of_nat (length (drop m bs)) \<and> wrote_at u i N (unat (off + of_nat m)) (drop m bs) v"
          then have "wrote_at s i N (unat off) (?cs @ drop m bs) v" using wrote_at_trans [OF "1.prems"(2) wu, of "drop m bs" v] nx m(4) by simp
          then show "r = off + of_nat (length bs) \<and> wrote_at s i N (unat off) bs v" using v m(1) by simp
        qed
      qed (use t tD tL a len m rB room "1.prems"(5,6) in \<open>auto simp: put_at_def\<close>)
    qed
    then show ?thesis using False dev
      by (subst writei_loop.simps) (simp add: wp_bind [of "get_inode _ _"] wp_get_inode wp_bind [of "bmap _ _"] m_def Let_def)
  qed
qed

lemma writei_ok:
  fixes s :: "'z fsst_scheme"
  defines "fsz \<equiv> \<lambda>i. i_size (icache s ! i)"
  assumes s: "log_inv {} s" and w: "wfile s i (unat (fsz i))" and ty: "i_type (icache s ! i) \<noteq> T_DEV"
    and off: "unat off + length bs \<le> unat (fsz i)"
    and room: "length (logged s) + blocks_of (unat off) (length bs) < unat (log_size s)" "1 \<le>s log_outstanding s"
  shows "wpk (writei dsw i bs off) (\<lambda>r t. unat r = length bs \<and> wrote_at s i (unat (fsz i)) (unat off) bs t) s"
proof -
  let ?n = "of_nat (length bs) :: uint32"
  have lt: "unat (fsz i) < 2 ^ 32" using unsigned_less [of "fsz i", where 'a = nat] by simp
  have "length bs < 2 ^ 32" using off lt by linarith
  then have n: "unat ?n = length bs" by (simp add: unat_of_nat_32)
  have "unat off + length bs < 2 ^ 32" using off lt by linarith
  then have sum: "unat (off + ?n) = unat off + length bs" by (intro unat_add_of_nat) simp
  have max: "unat (fsz i) \<le> MAXFILE * BSIZE" using w by (simp add: wfile_def mapped_def)
  have "unat (of_nat (MAXFILE * BSIZE) :: uint32) = MAXFILE * BSIZE" by (simp add: MAXFILE_def NDIRECT_def NINDIRECT_def BSIZE_def)
  then have guard: "\<not> fsz i < off" "\<not> off + ?n < off" "\<not> of_nat (MAXFILE * BSIZE) < off + ?n" "\<not> fsz i < off + ?n"
    using off sum max by (simp_all add: word_less_nat_alt)
  have "wpk (writei_loop i off bs) (\<lambda>r t. r = off + ?n \<and> wrote_at s i (unat (fsz i)) (unat off) bs t) s"
    by (rule writei_loop_ok [OF s w off lt room])
  then have "wpk (kbind (writei_loop i off bs) (\<lambda>off. kbind (get_inode i i_size) (\<lambda>sz.
      kseq (kwhen (0 < ?n \<and> sz < off) (kseq (upd_inode i (\<lambda>ip. ip\<lparr>i_size := off\<rparr>)) (iupdate i))) (kret ?n))))
      (\<lambda>r t. unat r = length bs \<and> wrote_at s i (unat (fsz i)) (unat off) bs t) s"
    unfolding wp_bind
  proof (rule wpk_mono)
    fix r and t :: "'z fsst_scheme"
    assume t: "r = off + ?n \<and> wrote_at s i (unat (fsz i)) (unat off) bs t"
    then have "icache t = icache s" using log_frame_fs by (auto simp: wrote_at_def)
    then show "wpk (get_inode i i_size) (\<lambda>sz. wpk (kseq (kwhen (0 < ?n \<and> sz < r) (kseq (upd_inode i (\<lambda>ip. ip\<lparr>i_size := r\<rparr>)) (iupdate i))) (kret ?n))
        (\<lambda>r t. unat r = length bs \<and> wrote_at s i (unat (fsz i)) (unat off) bs t)) t"
      using t guard(4) n by (simp add: wp fsz_def)
  qed
  then show ?thesis using ty guard(1-3) by (simp add: writei_def wp_bind [of "get_inode i id"] wp_get_inode Let_def fsz_def)
qed

section \<open>Properties\<close>

text \<open>C10. A file is a sequence of bytes. For a file whose blocks, direct and indirect, are on the disk and its own, and in a
  transaction with room for the blocks touched, \<^verbatim>\<open>writei\<close> of bytes inside the file returns their number and keeps every
  block of the disk outside the file; any \<^verbatim>\<open>readi\<close> of the file after that returns the bytes written where its segment
  meets theirs and the old bytes elsewhere, cut off at the end of the file, and changes no content.\<close>

theorem file_write_read:
  fixes s :: "'z fsst_scheme"
  assumes "log_inv {} s" and "wfile s i (unat (i_size (icache s ! i)))" and "i_type (icache s ! i) \<noteq> T_DEV"
    and "unat off + length bs \<le> unat (i_size (icache s ! i))"
    and "length (logged s) + blocks_of (unat off) (length bs) < unat (log_size s)" and "1 \<le>s log_outstanding s"
    and "o' \<le> i_size (icache s ! i)" and "unat o' + unat n < 2 ^ 32"
  shows "wpk (writei dsw i bs off) (\<lambda>r t. unat r = length bs
     \<and> (\<forall>a. a \<notin> faddr s i ` {k. k * BSIZE < unat (i_size (icache s ! i))} \<longrightarrow> content t a = content s a)
     \<and> wpk (readi dsw i o' n) (\<lambda>(r', cs) u. content u = content t \<and> unat r' = length cs
        \<and> cs = map (\<lambda>x. if unat off \<le> x \<and> x < unat off + length bs then bs ! (x - unat off) else fbyte s i x)
            [unat o'..<unat o' + min (unat n) (unat (i_size (icache s ! i)) - unat o')]) t) s"
proof (rule wpk_mono [OF writei_ok [OF assms(1-6)]])
  fix r and t :: "'z fsst_scheme"
  let ?size = "unat (i_size (icache s ! i))"
  assume t: "unat r = length bs \<and> wrote_at s i ?size (unat off) bs t"
  then have tw: "wrote_at s i ?size (unat off) bs t" by simp
  then have ic: "icache t = icache s" using log_frame_fs by (auto simp: wrote_at_def)
  have "mapped t i ?size" using wrote_wfile(1) [OF assms(2) tw] by (simp add: wfile_def)
  then have "wpk (readi dsw i o' n) (\<lambda>(r, cs) u. unat r = min (unat n) (?size - unat o') \<and> cs = fdata t i (unat o') (min (unat n) (?size - unat o')) \<and> unchanged t u) t"
    using readi_ok [of t i o' n dsw] tw assms(3,7,8) ic by (simp add: wrote_at_def)
  moreover have "fdata t i (unat o') (min (unat n) (?size - unat o')) = map (\<lambda>x. if unat off \<le> x \<and> x < unat off + length bs then bs ! (x - unat off) else fbyte s i x)
      [unat o'..<unat o' + min (unat n) (?size - unat o')]"
    unfolding fdata_def using tw assms(7) by (intro map_cong) (auto simp: wrote_at_def word_le_nat_alt)
  ultimately have "wpk (readi dsw i o' n) (\<lambda>(r', cs) u. content u = content t \<and> unat r' = length cs
        \<and> cs = map (\<lambda>x. if unat off \<le> x \<and> x < unat off + length bs then bs ! (x - unat off) else fbyte s i x)
            [unat o'..<unat o' + min (unat n) (?size - unat o')]) t"
    by (auto elim!: wpk_mono simp: unchangedD)
  then show "unat r = length bs \<and> (\<forall>a. a \<notin> faddr s i ` {k. k * BSIZE < ?size} \<longrightarrow> content t a = content s a)
     \<and> wpk (readi dsw i o' n) (\<lambda>(r', cs) u. content u = content t \<and> unat r' = length cs
        \<and> cs = map (\<lambda>x. if unat off \<le> x \<and> x < unat off + length bs then bs ! (x - unat off) else fbyte s i x)
            [unat o'..<unat o' + min (unat n) (?size - unat o')]) t"
    using t by (simp add: wrote_at_def)
qed

text \<open>A file of 600 bytes in the blocks 40 and 41.\<close>

definition demo_file :: inode where
  "demo_file = zero_inode\<lparr>i_dev := 1, i_inum := 5, i_ref := 1, i_valid := True, i_type := 2, i_size := 600,
     i_addrs := [40, 41] @ replicate 11 0\<rparr>"

lemma demo_file_block: "k * BSIZE < 600 \<longleftrightarrow> k = 0 \<or> k = 1"
  by (auto simp: BSIZE_def)

theorem file_write_read_witness:
  "\<exists>s :: fsst. wpk (writei \<lparr>dev_read = (\<lambda>_. None), dev_write = (\<lambda>_. None)\<rparr> 0 [1, 2, 3] 511)
     (\<lambda>r t. unat r = 3 \<and> wpk (readi \<lparr>dev_read = (\<lambda>_. None), dev_write = (\<lambda>_. None)\<rparr> 0 510 5) (\<lambda>(r', cs) u. cs = [0, 1, 2, 3, 0]) t) s"
proof -
  obtain t where t: "log_inv {} (with_log t)" "memdisk t = demo_disk" "content t = (!) demo_disk" by (rule demo_log)
  let ?s = "with_fs (with_log t)\<lparr>icache := [demo_file]\<rparr>"
  have ip: "icache ?s ! 0 = demo_file" "i_size demo_file = 600" "i_type demo_file = 2" by (simp_all add: demo_file_def)
  have fa: "faddr ?s 0 0 = 40" "faddr ?s 0 (Suc 0) = 41" by (simp_all add: faddr_def demo_file_def NDIRECT_def)
  have big: "600 \<le> MAXFILE * BSIZE" "\<not> NDIRECT * BSIZE < 600" "\<not> NDIRECT \<le> 0" "\<not> NDIRECT \<le> Suc 0"
    by (simp_all add: MAXFILE_def NDIRECT_def NINDIRECT_def BSIZE_def)
  have "40 < length demo_disk" "41 < length demo_disk" "i_dev demo_file = 1" by (simp_all add: demo_disk_def demo_file_def)
  then have "mapped ?s 0 600" unfolding mapped_def demo_file_block using fa big ip(1) t(2) by auto
  then have "wfile ?s 0 600" unfolding wfile_def demo_file_block using fa big by (auto simp: inj_on_def)
  then have wf: "wfile ?s 0 (unat (i_size (icache ?s ! 0)))" by (simp add: ip)
  have li: "log_inv {} ?s" using t(1) by simp
  have room: "length (logged ?s) + blocks_of (unat (511 :: uint32)) (length [1, 2, 3 :: uchar]) < unat (log_size ?s)" "1 \<le>s log_outstanding ?s"
    by (simp_all add: logged_def blocks_of_def BSIZE_def)
  have "fbyte ?s 0 510 = 0" "fbyte ?s 0 514 = 0" using fa by (simp_all add: fbyte_def t(3) demo_disk_def BSIZE_def)
  moreover have "[510..<515] = [510, 511, 512, 513, 514 :: nat]" by (simp add: upt_conv_Cons)
  ultimately show ?thesis
    using file_write_read [OF li wf _ _ room, of 510 5 "\<lparr>dev_read = (\<lambda>_. None), dev_write = (\<lambda>_. None)\<rparr>"] ip
    by (intro exI [of _ ?s]) (auto elim!: wpk_mono simp: T_DEV_def)
qed

end
