(* ===== verification/Ide.thy ===== *)
theory Ide
  imports Bio
begin

text \<open>
  The disk driver \<^verbatim>\<open>ide.c\<close>: a queue of buffers linked through \<^verbatim>\<open>qnext\<close>, of which the first is the request that the
  disk works on. The ports are a trace of what the driver has written to them; what the driver reads from them is a
  parameter of the model. The queue is proved to implement a sequence, and a request to have the effect that the memory
  disk of \<^verbatim>\<open>memide.c\<close> has, if the disk behaves as the registers are specified to.
\<close>

section \<open>\<^verbatim>\<open>ide.c\<close>\<close>

unbundle bit_operations_syntax

definition SECTOR_SIZE :: nat where "SECTOR_SIZE = 512"
definition FSSIZE :: nat where "FSSIZE = 1000"
definition IDE_BSY :: uchar where "IDE_BSY = 0x80"
definition IDE_DRDY :: uchar where "IDE_DRDY = 0x40"
definition IDE_DF :: uchar where "IDE_DF = 0x20"
definition IDE_ERR :: uchar where "IDE_ERR = 0x01"
definition IDE_CMD_READ :: uchar where "IDE_CMD_READ = 0x20"
definition IDE_CMD_WRITE :: uchar where "IDE_CMD_WRITE = 0x30"
definition IDE_CMD_RDMUL :: uchar where "IDE_CMD_RDMUL = 0xc4"
definition IDE_CMD_WRMUL :: uchar where "IDE_CMD_WRMUL = 0xc5"

lemmas ide_consts = SECTOR_SIZE_def IDE_BSY_def IDE_DRDY_def IDE_DF_def IDE_ERR_def IDE_CMD_READ_def IDE_CMD_WRITE_def
  IDE_CMD_RDMUL_def IDE_CMD_WRMUL_def

text \<open>\<^verbatim>\<open>outb\<close> to a port and \<^verbatim>\<open>outsl\<close> of a block to the data port.\<close>

datatype portw = OutB uint32 uchar | OutSL "uchar list"

record idest = bcache +
  idequeue :: "nat option"
  qnext :: "nat \<Rightarrow> nat option"
  havedisk1 :: bool
  ports :: "portw list"

text \<open>What the disk answers after the writes so far: the values of the status port one after the other, and a block from
  the data port.\<close>

record disk =
  status :: "portw list \<Rightarrow> uchar list"
  data_in :: "portw list \<Rightarrow> uchar list"

definition outb :: "uint32 \<Rightarrow> uchar \<Rightarrow> ('z idest_scheme, unit) kop" where
  "outb p v = kmod (\<lambda>s. s\<lparr>ports := ports s @ [OutB p v]\<rparr>)"

definition outsl :: "uchar list \<Rightarrow> ('z idest_scheme, unit) kop" where
  "outsl d = kmod (\<lambda>s. s\<lparr>ports := ports s @ [OutSL d]\<rparr>)"

text \<open>The loop of \<^verbatim>\<open>idewait\<close> runs through the values of the status port; it never ends if none of them is ready.\<close>

definition idewait :: "disk \<Rightarrow> bool \<Rightarrow> ('z idest_scheme, sint32) kop" where
  "idewait D checkerr =
     kbind (kget ports) (\<lambda>tr.
     case dropWhile (\<lambda>r. r AND (IDE_BSY OR IDE_DRDY) \<noteq> IDE_DRDY) (status D tr) of
       [] \<Rightarrow> kfault ''endless loop''
     | r # _ \<Rightarrow> kret (if checkerr \<and> r AND (IDE_DF OR IDE_ERR) \<noteq> 0 then - 1 else 0))"

text \<open>Whether disk 1 answers in a thousand reads of the status port.\<close>

definition ideinit :: "disk \<Rightarrow> ('z idest_scheme, unit) kop" where
  "ideinit D =
     kseq (kbind (idewait D False) (\<lambda>_. kret ()))
    (kseq (outb 0x1f6 (0xe0 OR 0x10))
    (kbind (kget ports) (\<lambda>tr.
     kseq (kwhen (\<exists>r\<in>set (take 1000 (status D tr)). r \<noteq> 0) (kmod (\<lambda>s. s\<lparr>havedisk1 := True\<rparr>)))
          (outb 0x1f6 0xe0))))"

definition idestart :: "disk \<Rightarrow> nat option \<Rightarrow> ('z idest_scheme, unit) kop" where
  "idestart D bo =
     (case bo of None \<Rightarrow> kpanic ''idestart'' | Some b \<Rightarrow>
       kbind (get_buf b id) (\<lambda>B.
       kseq (kcheck (unat (b_blockno B) \<ge> FSSIZE) ''incorrect blockno'')
      (let sector_per_block = BSIZE div SECTOR_SIZE;
           sector = b_blockno B * of_nat sector_per_block;
           read_cmd = (if sector_per_block = 1 then IDE_CMD_READ else IDE_CMD_RDMUL);
           write_cmd = (if sector_per_block = 1 then IDE_CMD_WRITE else IDE_CMD_WRMUL)
       in
       kseq (kcheck (7 < sector_per_block) ''idestart'')
      (kseq (kbind (idewait D False) (\<lambda>_. kret ()))
      (kseq (outb 0x3f6 0)
      (kseq (outb 0x1f2 (of_nat sector_per_block))
      (kseq (outb 0x1f3 (ucast (sector AND 0xff)))
      (kseq (outb 0x1f4 (ucast (drop_bit 8 sector AND 0xff)))
      (kseq (outb 0x1f5 (ucast (drop_bit 16 sector AND 0xff)))
      (kseq (outb 0x1f6 (ucast (0xe0 OR push_bit 4 (b_dev B AND 1) OR (drop_bit 24 sector AND 0x0f))))
            (if b_dirty B then kseq (outb 0x1f7 write_cmd) (outsl (b_data B))
             else outb 0x1f7 read_cmd)))))))))))"

text \<open>The part of the handler that takes the data from the disk, where the request was to read.\<close>

definition ide_read :: "disk \<Rightarrow> nat \<Rightarrow> ('z idest_scheme, unit) kop" where
  "ide_read D b =
     kbind (get_buf b b_dirty) (\<lambda>dirty.
     kwhen (\<not> dirty)
      (kbind (idewait D True) (\<lambda>r.
       kwhen (0 \<le>s r) (kbind (kget ports) (\<lambda>tr. upd_buf b (\<lambda>B. B\<lparr>b_data := data_in D tr\<rparr>))))))"

definition ideintr :: "disk \<Rightarrow> ('z idest_scheme, unit) kop" where
  "ideintr D =
     kseq (acquire IdeLock)
    (kbind (kget idequeue) (\<lambda>q. case q of None \<Rightarrow> release IdeLock | Some b \<Rightarrow>
     kseq (kmod (\<lambda>s. s\<lparr>idequeue := qnext s b\<rparr>))
    (kseq (ide_read D b)
    (kseq (upd_buf b (\<lambda>B. B\<lparr>b_valid := True\<rparr>))
    (kseq (upd_buf b (\<lambda>B. B\<lparr>b_dirty := False\<rparr>))
    (kseq (wakeup (ChanBuf b))
    (kbind (kget idequeue) (\<lambda>q.
     kseq (kwhen (q \<noteq> None) (idestart D q))
          (release IdeLock)))))))))"

text \<open>The loop that finds the end of the queue and stores \<open>b\<close> there. \<^term>\<open>None\<close> for the first argument of
  \<^term>\<open>ide_append\<close>: the pointer is \<^verbatim>\<open>&idequeue\<close>, else it is a field \<^verbatim>\<open>qnext\<close>. The queue holds at most the buffers of the cache.\<close>

primrec ide_append :: "nat \<Rightarrow> nat \<Rightarrow> nat option \<Rightarrow> ('z idest_scheme, unit) kop" where
  "ide_append 0 b pp = kfault ''endless loop''"
| "ide_append (Suc k) b pp =
     kbind (kget (\<lambda>s. case pp of None \<Rightarrow> idequeue s | Some c \<Rightarrow> qnext s c)) (\<lambda>q.
     case q of
       Some c \<Rightarrow> ide_append k b (Some c)
     | None \<Rightarrow> kmod (\<lambda>s. case pp of None \<Rightarrow> s\<lparr>idequeue := Some b\<rparr> | Some c \<Rightarrow> s\<lparr>qnext := (qnext s)(c := Some b)\<rparr>))"

definition ide_loop :: "nat \<Rightarrow> ('z idest_scheme, unit) kop" where
  "ide_loop b =
     kbind (get_buf b id) (\<lambda>B.
     if \<not> (b_valid B \<and> \<not> b_dirty B) then sleep (ChanBuf b) (Some IdeLock)
     else release IdeLock)"

definition ide_iderw :: "disk \<Rightarrow> nat \<Rightarrow> ('z idest_scheme, unit) kop" where
  "ide_iderw D b =
     kbind (holdingsleep (BufSL b)) (\<lambda>h.
     kseq (kcheck (\<not> h) ''iderw: buf not locked'')
    (kbind (get_buf b id) (\<lambda>B.
     kseq (kcheck (b_valid B \<and> \<not> b_dirty B) ''iderw: nothing to do'')
    (kbind (kget havedisk1) (\<lambda>d1.
     kseq (kcheck (b_dev B \<noteq> 0 \<and> \<not> d1) ''iderw: ide disk 1 not present'')
    (kseq (acquire IdeLock)
    (kseq (kmod (\<lambda>s. s\<lparr>qnext := (qnext s)(b := None)\<rparr>))
    (kseq (ide_append (Suc NBUF) b None)
    (kbind (kget idequeue) (\<lambda>q.
     kseq (kwhen (q = Some b) (idestart D q))
          (ide_loop b)))))))))))"

text \<open>The process that waited, when it runs again.\<close>

definition iderw_resume :: "nat \<Rightarrow> ('z idest_scheme, unit) kop" where
  "iderw_resume b = kseq (sleep_resume IdeLock) (ide_loop b)"

section \<open>The queue\<close>

definition first :: "nat list \<Rightarrow> nat option" where
  "first q = (case q of [] \<Rightarrow> None | b # _ \<Rightarrow> Some b)"

lemma first_simps [simp]: "first [] = None" "first (b # q) = Some b" "first q = None \<longleftrightarrow> q = []" "(\<exists>b. first q = Some b) \<longleftrightarrow> q \<noteq> []"
  by (simp_all add: first_def split: list.split)

primrec linked :: "(nat \<Rightarrow> nat option) \<Rightarrow> nat list \<Rightarrow> bool" where
  "linked qn [] = True"
| "linked qn (b # q) \<longleftrightarrow> qn b = first q \<and> linked qn q"

definition ide_q :: "'z idest_scheme \<Rightarrow> nat list \<Rightarrow> bool" where
  "ide_q s q \<longleftrightarrow> idequeue s = first q \<and> linked (qnext s) q \<and> distinct q \<and> set q \<subseteq> {..<NBUF}"

lemma linked_cong: "(\<And>x. x \<in> set q \<Longrightarrow> f x = g x) \<Longrightarrow> linked f q = linked g q"
  by (induction q) auto

lemma linked_append:
  "linked qn q \<Longrightarrow> q \<noteq> [] \<Longrightarrow> distinct q \<Longrightarrow> b \<notin> set q \<Longrightarrow> qn b = None \<Longrightarrow> linked (qn(last q := Some b)) (q @ [b])"
proof (induction q)
  case (Cons c q)
  show ?case
  proof (cases q)
    case (Cons d r)
    then show ?thesis using Cons.IH Cons.prems by (auto simp: fun_upd_twist)
  qed (use Cons.prems in simp)
qed simp

lemma ide_append_walk:
  "linked (qnext s) (c # q) \<Longrightarrow> length q < k \<Longrightarrow>
   ide_append k b (Some c) s = Ok () (s\<lparr>qnext := (qnext s)(last (c # q) := Some b)\<rparr>)"
proof (induction q arbitrary: c k)
  case Nil
  then obtain k' where "k = Suc k'" by (cases k) auto
  then show ?case using Nil.prems(1) by (simp add: run fun_upd_def)
next
  case (Cons d q)
  then obtain k' where "k = Suc k'" "length q < k'" by (cases k) auto
  then show ?case using Cons.prems(1) Cons.IH [of d k'] by (simp add: run)
qed

lemma ide_append_run:
  assumes q: "ide_q s q" and b: "b \<notin> set q" "b < NBUF" "qnext s b = None"
  obtains t where "ide_append (Suc NBUF) b None s = Ok () t" and "ide_q t (q @ [b])"
    and "t = s\<lparr>idequeue := first (q @ [b]), qnext := qnext t\<rparr>"
proof (cases q)
  case Nil
  show thesis
    by (rule that [of "s\<lparr>idequeue := Some b\<rparr>"]) (use q b Nil in \<open>simp_all add: ide_q_def run\<close>)
next
  case (Cons c r)
  let ?t = "s\<lparr>qnext := (qnext s)(last q := Some b)\<rparr>"
  have "length r < NBUF"
    using q Cons card_mono [of "{..<NBUF}" "set q"] distinct_card [of q] by (auto simp: ide_q_def)
  then have "ide_append NBUF b (Some c) s = Ok () ?t" using q Cons ide_append_walk [of s c r NBUF b] by (simp add: ide_q_def)
  then have "ide_append (Suc NBUF) b None s = Ok () ?t" using q Cons by (simp add: ide_q_def run)
  moreover have "ide_q ?t (q @ [b])" using q b Cons linked_append [of "qnext s" q b] by (auto simp: ide_q_def)
  moreover have "?t = s\<lparr>idequeue := first (q @ [b]), qnext := qnext ?t\<rparr>" using q Cons by (simp add: ide_q_def)
  ultimately show thesis by (rule that)
qed

declare ide_append.simps [simp del]

text \<open>The writes to the ports that start a request.\<close>

definition request :: "buf \<Rightarrow> portw list" where
  "request B =
     [OutB 0x3f6 0, OutB 0x1f2 1, OutB 0x1f3 (ucast (b_blockno B AND 0xff)), OutB 0x1f4 (ucast (drop_bit 8 (b_blockno B) AND 0xff)),
      OutB 0x1f5 (ucast (drop_bit 16 (b_blockno B) AND 0xff)),
      OutB 0x1f6 (ucast (0xe0 OR push_bit 4 (b_dev B AND 1) OR (drop_bit 24 (b_blockno B) AND 0x0f)))]
     @ (if b_dirty B then [OutB 0x1f7 IDE_CMD_WRITE, OutSL (b_data B)] else [OutB 0x1f7 IDE_CMD_READ])"

text \<open>The disk becomes ready and reports no error.\<close>

definition works :: "disk \<Rightarrow> bool" where
  "works D \<longleftrightarrow> (\<forall>tr. \<exists>rs r rs'. status D tr = rs @ r # rs' \<and> (\<forall>x\<in>set rs. x AND (IDE_BSY OR IDE_DRDY) \<noteq> IDE_DRDY)
     \<and> r AND (IDE_BSY OR IDE_DRDY) = IDE_DRDY \<and> r AND (IDE_DF OR IDE_ERR) = 0)"

lemma idewait_run: "works D \<Longrightarrow> idewait D c s = Ok 0 s"
proof -
  assume "works D"
  then obtain rs r rs' where "status D (ports s) = rs @ r # rs'" "\<forall>x\<in>set rs. x AND (IDE_BSY OR IDE_DRDY) \<noteq> IDE_DRDY"
    "r AND (IDE_BSY OR IDE_DRDY) = IDE_DRDY" "r AND (IDE_DF OR IDE_ERR) = 0" unfolding works_def by blast
  then show ?thesis by (simp add: idewait_def run dropWhile_append)
qed

lemma idestart_run:
  assumes "works D" and "unat (b_blockno (bufs s ! b)) < FSSIZE"
  shows "idestart D (Some b) s = Ok () (s\<lparr>ports := ports s @ request (bufs s ! b)\<rparr>)"
  using assms by (simp add: idestart_def run idewait_run outb_def outsl_def request_def BSIZE_def SECTOR_SIZE_def Let_def)

section \<open>Requests and interrupts\<close>

text \<open>A process may hand the buffer \<open>b\<close> to the driver.\<close>

definition may_request :: "'z idest_scheme \<Rightarrow> nat \<Rightarrow> bool" where
  "may_request s b \<longleftrightarrow> b < NBUF \<and> sl_mine (BufSL b) s \<and> \<not> (b_valid (bufs s ! b) \<and> \<not> b_dirty (bufs s ! b))
     \<and> unat (b_blockno (bufs s ! b)) < FSSIZE \<and> (b_dev (bufs s ! b) = 0 \<or> havedisk1 s)"

lemma ide_q_fields: "ide_q (s\<lparr>held := h\<rparr>) q = ide_q s q" "ide_q (s\<lparr>procs := ps\<rparr>) q = ide_q s q"
  "ide_q (s\<lparr>ports := tr\<rparr>) q = ide_q s q" "ide_q (s\<lparr>bufs := bs\<rparr>) q = ide_q s q" "ide_q (s\<lparr>cur := c\<rparr>) q = ide_q s q"
  by (simp_all add: ide_q_def)

lemma iderw_waits:
  assumes q: "ide_q s q" and D: "works D" and p: "cur s = Some p" "p < length (procs s)" "held s = {}" and b: "may_request s b" "b \<notin> set q"
  obtains t where "ide_iderw D b s = Swtch t" and "ide_q t (q @ [b])" and "bufs t = bufs s" and "havedisk1 t = havedisk1 s"
    and "ports t = ports s @ (if q = [] then request (bufs s ! b) else [])" and "held t = {PtableLock}" and "cur t = cur s" and "slks t = slks s"
    and "procs t = (procs s)[p := (procs s ! p)\<lparr>p_chan := Some (ChanBuf b), p_state := SLEEPING\<rparr>]"
proof -
  let ?s = "s\<lparr>held := {IdeLock}, qnext := (qnext s)(b := None)\<rparr>"
  have "linked ((qnext s)(b := None)) q = linked (qnext s) q" using b(2) by (intro linked_cong) auto
  then have q': "ide_q ?s q" using q by (simp add: ide_q_def)
  obtain u where u: "ide_append (Suc NBUF) b None ?s = Ok () u" "ide_q u (q @ [b])" "u = ?s\<lparr>idequeue := first (q @ [b]), qnext := qnext u\<rparr>"
    by (rule ide_append_run [OF q' b(2)]) (use b in \<open>auto simp: may_request_def\<close>)
  define tr where "tr = ports s @ (if q = [] then request (bufs s ! b) else [])"
  let ?v = "u\<lparr>ports := tr\<rparr>"
  have f: "held u = {IdeLock}" "idequeue u = first (q @ [b])" "bufs u = bufs s" "ports u = ports s" "procs u = procs s" "cur u = cur s"
    "havedisk1 u = havedisk1 s" "slks u = slks s"
    by (subst u(3), simp)+
  have "first (q @ [b]) = Some b \<longleftrightarrow> q = []" using b(2) by (cases q) auto
  then have start: "(if first (q @ [b]) = Some b then idestart D (first (q @ [b])) u else Ok () u) = Ok () ?v"
    using f b(1) idestart_run [OF D, of u b] by (cases "q = []") (simp_all add: may_request_def tr_def)
  have "ide_loop b ?v = Swtch (?v\<lparr>held := {PtableLock},
      procs := (procs s)[p := (procs s ! p)\<lparr>p_chan := Some (ChanBuf b), p_state := SLEEPING\<rparr>]\<rparr>)"
    using f b(1) p by (simp add: ide_loop_def run may_request_def sleep_run)
  then have "ide_iderw D b s = Swtch (?v\<lparr>held := {PtableLock},
      procs := (procs s)[p := (procs s ! p)\<lparr>p_chan := Some (ChanBuf b), p_state := SLEEPING\<rparr>]\<rparr>)"
    using b(1) p u(1) f(2) start by (simp add: ide_iderw_def run may_request_def)
  then show thesis by (rule that) (use u(2) f tr_def in \<open>simp_all add: ide_q_fields\<close>)
qed

lemma ideintr_serves:
  fixes s :: "'z idest_scheme"
  assumes q: "ide_q s (c # q)" and D: "works D" and h: "IdeLock \<notin> held s" "PtableLock \<notin> held s"
    and n: "\<forall>x\<in>set q. unat (b_blockno (bufs s ! x)) < FSSIZE" and len: "NBUF \<le> length (bufs s)"
  obtains t where "ideintr D s = Ok () t" and "ide_q t q" and "held t = held s" and "cur t = cur s" and "slks t = slks s" and "havedisk1 t = havedisk1 s"
    and "bufs t = (bufs s)[c := (bufs s ! c)\<lparr>b_data := if b_dirty (bufs s ! c) then b_data (bufs s ! c) else data_in D (ports s),
           b_valid := True, b_dirty := False\<rparr>]"
    and "ports t = ports s @ (if q = [] then [] else request (bufs s ! hd q))" and "procs t = woken (Some (ChanBuf c)) (procs s)"
proof -
  define B where "B = (bufs s ! c)\<lparr>b_data := if b_dirty (bufs s ! c) then b_data (bufs s ! c) else data_in D (ports s),
    b_valid := True, b_dirty := False\<rparr>"
  define t0 where "t0 = s\<lparr>held := insert IdeLock (held s), procs := woken (Some (ChanBuf c)) (procs s), bufs := (bufs s)[c := B], idequeue := first q\<rparr>"
  have q': "idequeue s = Some c" "qnext s c = first q" "ide_q (s\<lparr>idequeue := first q\<rparr>) q" "c \<notin> set q" "c < length (bufs s)"
    using q len by (auto simp: ide_q_def)
  have start: "kwhen (first q \<noteq> None) (idestart D (first q)) t0 = Ok () (t0\<lparr>ports := ports s @ (if q = [] then [] else request (bufs s ! hd q))\<rparr>)"
  proof (cases q)
    case (Cons d r)
    then have "d \<noteq> c" using q'(4) by auto
    then show ?thesis using Cons n idestart_run [OF D, of t0 d] by (simp add: t0_def run)
  qed (simp add: t0_def run)
  let ?s = "s\<lparr>held := insert IdeLock (held s), idequeue := first q\<rparr>"
  let ?B = "(bufs s ! c)\<lparr>b_data := b_data B\<rparr>"
  have read: "ide_read D c ?s = Ok () (?s\<lparr>bufs := (bufs s)[c := ?B]\<rparr>)"
    using D by (cases "b_dirty (bufs s ! c)") (simp_all add: ide_read_def run idewait_run B_def)
  let ?t = "?s\<lparr>bufs := (bufs s)[c := B], procs := woken (Some (ChanBuf c)) (procs s)\<rparr>"
  have t0: "?t = t0" by (simp add: t0_def)
  have upd: "kseq (upd_buf c (\<lambda>B. B\<lparr>b_valid := True\<rparr>)) (kseq (upd_buf c (\<lambda>B. B\<lparr>b_dirty := False\<rparr>)) (kseq (wakeup (ChanBuf c)) k))
      (?s\<lparr>bufs := (bufs s)[c := ?B]\<rparr>) = k t0" for k :: "('z idest_scheme, unit) kop"
    using q'(5) h by (simp add: run wakeup_run B_def flip: t0)
  have "idequeue t0 = first q" by (simp add: t0_def)
  then have "ideintr D s = kseq (kwhen (first q \<noteq> None) (idestart D (first q))) (release IdeLock) t0"
    using q'(1,2) h read by (simp add: ideintr_def run_bind run_get run_mod kseq_Ok upd)
  then have "ideintr D s = Ok () (t0\<lparr>ports := ports s @ (if q = [] then [] else request (bufs s ! hd q)), held := held s\<rparr>)"
    unfolding kseq_Ok [of "kwhen (first q \<noteq> None) (idestart D (first q))" t0, OF start] using h by (simp add: t0_def)
  then show thesis by (rule that) (use q'(3) in \<open>simp_all add: t0_def B_def ide_q_def\<close>)
qed

section \<open>The disk\<close>

text \<open>What the registers are specified to mean: four of them hold a sector number of 28 bits and the drive, a block sent
  after the write command is stored there, and after the read command the data port gives the block that is there.\<close>

record ata =
  reg :: "uint32 \<Rightarrow> uchar"
  surf :: "nat \<Rightarrow> nat \<Rightarrow> uchar list"

definition hw_sector :: "ata \<Rightarrow> nat" where
  "hw_sector h = unat (reg h 0x1f3) + 2 ^ 8 * unat (reg h 0x1f4) + 2 ^ 16 * unat (reg h 0x1f5) + 2 ^ 24 * unat (reg h 0x1f6 AND 0x0f)"

definition hw_drive :: "ata \<Rightarrow> nat" where
  "hw_drive h = unat (drop_bit 4 (reg h 0x1f6) AND 1)"

fun hw_step :: "ata \<Rightarrow> portw \<Rightarrow> ata" where
  "hw_step h (OutB p v) = h\<lparr>reg := (reg h)(p := v)\<rparr>"
| "hw_step h (OutSL d) =
     (if reg h 0x1f7 = 0x30 then h\<lparr>surf := (surf h)(hw_drive h := (surf h (hw_drive h))(hw_sector h := d))\<rparr> else h)"

definition hw_after :: "ata \<Rightarrow> portw list \<Rightarrow> ata" where
  "hw_after h tr = foldl hw_step h tr"

definition behaves :: "disk \<Rightarrow> ata \<Rightarrow> bool" where
  "behaves D h \<longleftrightarrow> works D \<and> (\<forall>tr. reg (hw_after h tr) 0x1f7 = 0x20 \<longrightarrow>
     data_in D tr = surf (hw_after h tr) (hw_drive (hw_after h tr)) (hw_sector (hw_after h tr)))"

lemma hw_after_append: "hw_after h (tr @ tr') = hw_after (hw_after h tr) tr'"
  by (simp add: hw_after_def)

lemma low_bits: "(x :: 'a :: len word) AND 0x0f = take_bit 4 x" "x AND 1 = take_bit 1 x"
proof -
  have "(0x0f :: 'a word) = mask 4" "(1 :: 'a word) = mask 1" by (simp_all add: mask_eq_exp_minus_1)
  then show "x AND 0x0f = take_bit 4 x" "x AND 1 = take_bit 1 x" by (simp_all only: take_bit_eq_mask)
qed

lemma byte_of: "unat (ucast (x AND 0xff) :: uchar) = unat (x :: uint32) mod 256"
proof -
  have "(0xff :: uint32) = mask 8" by (simp add: mask_eq_exp_minus_1)
  then have "x AND 0xff = take_bit 8 x" by (simp only: take_bit_eq_mask)
  then show ?thesis by (simp add: unsigned_ucast_eq unsigned_take_bit_eq take_bit_eq_mod unat_mod)
qed

lemma top_register:
  fixes d y :: uint32
  defines "r \<equiv> (ucast (0xe0 OR (push_bit 4 d AND 0x10) OR (y AND 0x0f)) :: uchar)"
  shows "unat (r AND 0x0f) = unat y mod 16" and "unat (drop_bit 4 r AND 1) = unat d mod 2"
proof -
  have bits: "n < 8 \<Longrightarrow> n = 0 \<or> n = 1 \<or> n = 2 \<or> n = 3 \<or> n = 4 \<or> n = 5 \<or> n = 6 \<or> n = 7" for n :: nat by arith
  have "r AND 0x0f = ucast (y AND 0x0f)"
    by (rule bit_word_eqI) (auto simp: r_def bit_simps dest!: bits)
  also have "unat \<dots> = unat y mod 16"
    by (simp only: low_bits) (simp add: unsigned_ucast_eq unsigned_take_bit_eq take_bit_eq_mod unat_mod mod_less [OF less_trans [OF mod_less_divisor]])
  finally show "unat (r AND 0x0f) = unat y mod 16" .
  have "drop_bit 4 r AND 1 = ucast (d AND 1)"
    by (rule bit_word_eqI) (auto simp: r_def bit_simps dest!: bits)
  also have "unat \<dots> = unat d mod 2"
    by (simp only: low_bits) (simp add: unsigned_ucast_eq unsigned_take_bit_eq take_bit_eq_mod unat_mod mod_less [OF less_trans [OF mod_less_divisor]])
  finally show "unat (drop_bit 4 r AND 1) = unat d mod 2" .
qed

lemma digits_256: "n mod 256 + 256 * (n div 256 mod 256) + 65536 * (n div 65536 mod 256) + 16777216 * (n div 16777216) = (n :: nat)"
proof -
  let ?m = "n div 256"
  let ?k = "?m div 256"
  have eq: "n div 65536 = ?k" "n div 16777216 = ?k div 256" by (simp_all add: div_mult2_eq [symmetric])
  have sum: "r + 256 * r' + 65536 * r'' + 16777216 * j = n" if "m * 256 + r = n" "k * 256 + r' = m" "j * 256 + r'' = k" for m k j r r' r'' :: nat
    using that by linarith
  show ?thesis unfolding eq by (rule sum [OF div_mult_mod_eq div_mult_mod_eq div_mult_mod_eq])
qed

lemma request_sector:
  fixes n :: uint32
  assumes "unat n < 2 ^ 28"
  shows "unat n mod 256 + 2 ^ 8 * (unat (drop_bit 8 n) mod 256) + 2 ^ 16 * (unat (drop_bit 16 n) mod 256) + 2 ^ 24 * (unat (drop_bit 24 n) mod 16) = unat n"
  using assms digits_256 [of "unat n"] by (simp add: drop_bit_eq_div unat_div)

lemma request_hw:
  assumes "unat (b_blockno B) < 2 ^ 28"
  shows "hw_sector (hw_after h (request B)) = unat (b_blockno B)" and "hw_drive (hw_after h (request B)) = unat (b_dev B) mod 2"
    and "reg (hw_after h (request B)) 0x1f7 = (if b_dirty B then 0x30 else 0x20)"
    and "surf (hw_after h (request B)) = (if b_dirty B then (surf h)(unat (b_dev B) mod 2 := (surf h (unat (b_dev B) mod 2))(unat (b_blockno B) := b_data B)) else surf h)"
  using request_sector [OF assms]
  by (simp_all add: hw_after_def request_def hw_sector_def hw_drive_def byte_of top_register IDE_CMD_READ_def IDE_CMD_WRITE_def)

lemma request_done:
  assumes D: "behaves D h" and B: "unat (b_blockno B) < FSSIZE" "b_dev B = 1" and h': "h' = hw_after h tr"
  shows "\<not> b_dirty B \<Longrightarrow> data_in D (tr @ request B) = surf h' 1 (unat (b_blockno B))"
    and "surf (hw_after h (tr @ request B)) 1 = (if b_dirty B then (surf h' 1)(unat (b_blockno B) := b_data B) else surf h' 1)"
proof -
  have lt: "unat (b_blockno B) < 2 ^ 28" using B(1) by (simp add: FSSIZE_def)
  note hw = request_hw [OF lt, of h', folded h']
  have eq: "hw_after h (tr @ request B) = hw_after h' (request B)" by (simp add: hw_after_append h')
  show "data_in D (tr @ request B) = surf h' 1 (unat (b_blockno B))" if "\<not> b_dirty B"
    using D that hw B(2) eq unfolding behaves_def by (metis (no_types, lifting) one_mod_two_eq_one unsigned_1)
  show "surf (hw_after h (tr @ request B)) 1 = (if b_dirty B then (surf h' 1)(unat (b_blockno B) := b_data B) else surf h' 1)"
    using hw(4) B(2) eq by simp
qed

lemma memide_effect:
  fixes s :: "'z idest_scheme"
  assumes "may_request s b" and "b_dev (bufs s ! b) = 1" and "held s = {}" and "cur s = Some p"
    and "length (memdisk s) = FSSIZE" and "NBUF \<le> length (bufs s)"
  obtains m where "iderw b s = Ok () m"
    and "bufs m = (bufs s)[b := (bufs s ! b)\<lparr>b_data := if b_dirty (bufs s ! b) then b_data (bufs s ! b) else memdisk s ! unat (b_blockno (bufs s ! b)),
           b_valid := True, b_dirty := False\<rparr>]"
    and "memdisk m = (if b_dirty (bufs s ! b) then (memdisk s)[unat (b_blockno (bufs s ! b)) := b_data (bufs s ! b)] else memdisk s)"
proof (cases "b_dirty (bufs s ! b)")
  case True
  have "iderw b s = Ok () (s\<lparr>bufs := (bufs s)[b := (bufs s ! b)\<lparr>b_dirty := False, b_valid := True\<rparr>],
      memdisk := (memdisk s)[unat (b_blockno (bufs s ! b)) := b_data (bufs s ! b)], wtrace := wtrace s @ [(unat (b_blockno (bufs s ! b)), b_data (bufs s ! b))]\<rparr>)"
    by (rule iderw_write) (use assms True in \<open>auto simp: may_request_def\<close>)
  then show thesis by (rule that) (use True in \<open>auto intro!: arg_cong [where f = "list_update (bufs s) b"] buf.equality\<close>)
next
  case False
  have "iderw b s = Ok () (s\<lparr>bufs := (bufs s)[b := (bufs s ! b)\<lparr>b_data := memdisk s ! unat (b_blockno (bufs s ! b)), b_valid := True\<rparr>]\<rparr>)"
    by (rule iderw_read) (use assms False in \<open>auto simp: may_request_def\<close>)
  then show thesis by (rule that) (use False in \<open>auto intro!: arg_cong [where f = "list_update (bufs s) b"] buf.equality\<close>)
qed

text \<open>The interrupt comes while the processor runs no process, and the process that it wakes is dispatched.\<close>

definition interrupted :: "'z idest_scheme \<Rightarrow> 'z idest_scheme" where
  "interrupted t = t\<lparr>held := {}, cur := None\<rparr>"

definition ide_dispatched :: "nat \<Rightarrow> 'z idest_scheme \<Rightarrow> 'z idest_scheme" where
  "ide_dispatched p u = u\<lparr>held := {PtableLock}, cur := Some p, procs := (procs u)[p := (procs u ! p)\<lparr>p_state := RUNNING\<rparr>]\<rparr>"

definition demo_hw :: ata where
  "demo_hw = \<lparr>reg = (\<lambda>_. 0), surf = (\<lambda>_ _. replicate BSIZE 7)\<rparr>"

definition demo_ata :: disk where
  "demo_ata = \<lparr>status = (\<lambda>_. [0xc0, 0x40]), data_in = (\<lambda>tr. let h = hw_after demo_hw tr in surf h (hw_drive h) (hw_sector h))\<rparr>"

text \<open>Block 5 of disk 1 is to be read into buffer 0.\<close>

definition demo_ide :: idest where
  "demo_ide = sl_take (BufSL 0) (bcache.extend ((boot_bcache (replicate FSSIZE (replicate BSIZE 7)))
       \<lparr>bufs := (replicate (Suc NBUF) zero_buf)[0 := zero_buf\<lparr>b_dev := 1, b_blockno := 5\<rparr>]\<rparr>)
     \<lparr>idequeue = None, qnext = (\<lambda>_. None), havedisk1 = True, ports = []\<rparr>)"

lemma demo_ata_behaves: "behaves demo_ata demo_hw" "works demo_ata"
proof -
  show "works demo_ata" unfolding works_def
    by (intro allI exI [of _ "[0xc0]"] exI [of _ "0x40"] exI [of _ "[]"]) (simp add: demo_ata_def ide_consts)
  then show "behaves demo_ata demo_hw" by (simp add: behaves_def demo_ata_def Let_def)
qed

lemma demo_ide_simps:
  "ide_q demo_ide []" "cur demo_ide = Some 0" "length (procs demo_ide) = 2" "held demo_ide = {}" "length (bufs demo_ide) = Suc NBUF"
  "memdisk demo_ide = replicate FSSIZE (replicate BSIZE 7)" "ports demo_ide = []" "may_request demo_ide 0"
  "bufs demo_ide ! 0 = zero_buf\<lparr>b_dev := 1, b_blockno := 5\<rparr>"
  by (simp_all add: demo_ide_def bcache.extend_def ide_q_def may_request_def zero_buf_def FSSIZE_def NBUF_def sl_mine_def sl_take_def
      del: replicate.simps)

section \<open>Properties\<close>

text \<open>C15. The queue of the disk driver is served in the order of arrival, and the disk works on one request at a time. A
  request joins the end of the queue, puts its process to sleep and gives the disk a command only if the queue was empty.
  An interrupt finishes the first request: its buffer becomes valid and clean, with the data of the disk if it was to be
  read, its process is woken, and the command for the next request is given.\<close>

theorem ide_queue_fifo:
  assumes "ide_q s q" and "works D" and "cur s = Some p" and "p < length (procs s)" and "held s = {}" and "NBUF \<le> length (bufs s)"
    and "\<forall>x\<in>set q. unat (b_blockno (bufs s ! x)) < FSSIZE"
  shows "(\<forall>b. may_request s b \<and> b \<notin> set q \<longrightarrow>
      (\<exists>t. ide_iderw D b s = Swtch t \<and> ide_q t (q @ [b]) \<and> bufs t = bufs s
         \<and> ports t = ports s @ (if q = [] then request (bufs s ! b) else [])
         \<and> p_state (procs t ! p) = SLEEPING \<and> p_chan (procs t ! p) = Some (ChanBuf b)))
    \<and> (\<forall>c r. q = c # r \<longrightarrow>
      (\<exists>t. ideintr D s = Ok () t \<and> ide_q t r \<and> procs t = woken (Some (ChanBuf c)) (procs s)
         \<and> ports t = ports s @ (if r = [] then [] else request (bufs s ! hd r))
         \<and> bufs t = (bufs s)[c := (bufs s ! c)\<lparr>b_data := if b_dirty (bufs s ! c) then b_data (bufs s ! c) else data_in D (ports s),
             b_valid := True, b_dirty := False\<rparr>]))
    \<and> (q = [] \<longrightarrow> ideintr D s = Ok () s)"
proof (intro conjI allI impI)
  fix b assume b: "may_request s b \<and> b \<notin> set q"
  then have "may_request s b" "b \<notin> set q" by auto
  then obtain t where t: "ide_iderw D b s = Swtch t" "ide_q t (q @ [b])" "bufs t = bufs s"
    "ports t = ports s @ (if q = [] then request (bufs s ! b) else [])"
    "procs t = (procs s)[p := (procs s ! p)\<lparr>p_chan := Some (ChanBuf b), p_state := SLEEPING\<rparr>]"
    by (rule iderw_waits [OF assms(1-5)])
  then show "\<exists>t. ide_iderw D b s = Swtch t \<and> ide_q t (q @ [b]) \<and> bufs t = bufs s
         \<and> ports t = ports s @ (if q = [] then request (bufs s ! b) else [])
         \<and> p_state (procs t ! p) = SLEEPING \<and> p_chan (procs t ! p) = Some (ChanBuf b)" using assms(4) by (intro exI [of _ t]) simp
next
  fix c r assume q: "q = c # r"
  have "IdeLock \<notin> held s" "PtableLock \<notin> held s" "\<forall>x\<in>set r. unat (b_blockno (bufs s ! x)) < FSSIZE" using assms(5,7) q by auto
  from ideintr_serves [OF assms(1) [unfolded q] assms(2) this assms(6)]
  show "\<exists>t. ideintr D s = Ok () t \<and> ide_q t r \<and> procs t = woken (Some (ChanBuf c)) (procs s)
         \<and> ports t = ports s @ (if r = [] then [] else request (bufs s ! hd r))
         \<and> bufs t = (bufs s)[c := (bufs s ! c)\<lparr>b_data := if b_dirty (bufs s ! c) then b_data (bufs s ! c) else data_in D (ports s),
             b_valid := True, b_dirty := False\<rparr>]" by metis
next
  assume "q = []"
  then show "ideintr D s = Ok () s" using assms(1,5) by (simp add: ideintr_def run ide_q_def)
qed

theorem ide_queue_fifo_witness:
  "(\<exists>t. ide_iderw demo_ata 0 demo_ide = Swtch t \<and> ide_q t [0] \<and> ports t = request (zero_buf\<lparr>b_dev := 1, b_blockno := 5\<rparr>))
   \<and> ideintr demo_ata demo_ide = Ok () demo_ide"
  using ide_queue_fifo [of demo_ide "[]" demo_ata 0] demo_ide_simps demo_ata_behaves(2) by fastforce

text \<open>C14. The disk driver and the memory disk are interchangeable. On an idle disk that behaves as its registers are
  specified, a request of a process puts it to sleep, the interrupt makes it runnable again, and when it is dispatched
  the call returns; the buffers and the blocks of the disk are then what the \<^verbatim>\<open>iderw\<close> of \<^verbatim>\<open>memide.c\<close> makes of the same state.\<close>

theorem ide_like_memide:
  assumes "ide_q s []" and "behaves D h" and "cur s = Some p" and "p < length (procs s)" and "held s = {}" and "NBUF \<le> length (bufs s)"
    and "may_request s b" and "b_dev (bufs s ! b) = 1"
    and "length (memdisk s) = FSSIZE" and "\<forall>n<FSSIZE. surf (hw_after h (ports s)) 1 n = memdisk s ! n"
  shows "\<exists>t u v m. ide_iderw D b s = Swtch t \<and> ideintr D (interrupted t) = Ok () u \<and> p_state (procs u ! p) = RUNNABLE
    \<and> iderw_resume b (ide_dispatched p u) = Ok () v \<and> ide_q v [] \<and> held v = {}
    \<and> iderw b s = Ok () m \<and> bufs v = bufs m \<and> (\<forall>n<FSSIZE. surf (hw_after h (ports v)) 1 n = memdisk m ! n)"
proof -
  let ?B = "bufs s ! b"
  have D: "works D" using assms(2) by (simp add: behaves_def)
  have no: "unat (b_blockno ?B) < FSSIZE" "b < length (bufs s)" using assms(6,7) by (auto simp: may_request_def)
  note hw = request_done [OF assms(2) no(1) assms(8) refl, of "ports s"]
  obtain m where m: "iderw b s = Ok () m"
    "bufs m = (bufs s)[b := ?B\<lparr>b_data := if b_dirty ?B then b_data ?B else memdisk s ! unat (b_blockno ?B), b_valid := True, b_dirty := False\<rparr>]"
    "memdisk m = (if b_dirty ?B then (memdisk s)[unat (b_blockno ?B) := b_data ?B] else memdisk s)"
    by (rule memide_effect [OF assms(7,8,5,3,9,6)])
  obtain t where t: "ide_iderw D b s = Swtch t" "ide_q t ([] @ [b])" "bufs t = bufs s" "ports t = ports s @ (if [] = [] then request ?B else [])"
    "procs t = (procs s)[p := (procs s ! p)\<lparr>p_chan := Some (ChanBuf b), p_state := SLEEPING\<rparr>]"
    by (rule iderw_waits [OF assms(1) D assms(3-5,7)]) simp_all
  have i: "ide_q (interrupted t) (b # [])" "bufs (interrupted t) = bufs s" "ports (interrupted t) = ports s @ request ?B" "procs (interrupted t) = procs t"
    using t by (simp_all add: interrupted_def ide_q_fields)
  obtain u where u: "ideintr D (interrupted t) = Ok () u" "ide_q u []" "procs u = woken (Some (ChanBuf b)) (procs (interrupted t))"
    "ports u = ports (interrupted t) @ (if [] = [] then [] else request (bufs (interrupted t) ! hd []))"
    "bufs u = (bufs (interrupted t))[b := (bufs (interrupted t) ! b)\<lparr>b_data := if b_dirty (bufs (interrupted t) ! b) then b_data (bufs (interrupted t) ! b) else data_in D (ports (interrupted t)),
       b_valid := True, b_dirty := False\<rparr>]"
    by (rule ideintr_serves [OF i(1) D]) (use assms(6) i(2) in \<open>simp_all add: interrupted_def\<close>)
  have bu: "bufs u = bufs m" using u(5) m(2) i(2,3) hw(1) assms(10) no(1) by simp
  have run: "p_state (procs u ! p) = RUNNABLE" using u(3) i(4) t(5) assms(4) by (simp add: woken_nth)
  have "b_valid (bufs u ! b) \<and> \<not> b_dirty (bufs u ! b)" using bu m(2) no(2) by simp
  then have "\<exists>v. iderw_resume b (ide_dispatched p u) = Ok () v \<and> ide_q v [] \<and> held v = {} \<and> bufs v = bufs u \<and> ports v = ports u"
    using u(2) sleep_resume_run [of "ide_dispatched p u" p IdeLock]
    by (simp add: iderw_resume_def run_seq ide_loop_def run_bind ide_dispatched_def ide_q_fields)
  moreover have "surf (hw_after h (ports u)) 1 n = memdisk m ! n" if "n < FSSIZE" for n
    using hw(2) u(4) i(3) m(3) assms(9,10) that by (auto simp: nth_list_update)
  ultimately show ?thesis using t(1) u(1) run m(1) bu by metis
qed

theorem ide_like_memide_witness:
  "\<exists>t u v. ide_iderw demo_ata 0 demo_ide = Swtch t \<and> ideintr demo_ata (interrupted t) = Ok () u
    \<and> iderw_resume 0 (ide_dispatched 0 u) = Ok () v \<and> ide_q v [] \<and> (\<exists>m. iderw 0 demo_ide = Ok () m \<and> bufs v = bufs m)"
proof -
  have "\<forall>n<FSSIZE. surf (hw_after demo_hw (ports demo_ide)) 1 n = memdisk demo_ide ! n" "b_dev (bufs demo_ide ! 0) = 1"
    "length (memdisk demo_ide) = FSSIZE" "0 < length (procs demo_ide)" "NBUF \<le> length (bufs demo_ide)"
    by (simp_all add: demo_ide_simps hw_after_def demo_hw_def del: replicate.simps)
  with ide_like_memide [of demo_ide demo_ata demo_hw 0 0] demo_ide_simps demo_ata_behaves(1) show ?thesis by metis
qed

text \<open>Where the disk reports an error, the handler leaves the data of the buffer as they were and marks the buffer valid.\<close>

lemma ide_error_valid:
  assumes "ide_q s [c]" and "held s = {}" and "NBUF \<le> length (bufs s)" and "\<not> b_dirty (bufs s ! c)"
    and "status D (ports s) = [r]" and "r AND (IDE_BSY OR IDE_DRDY) = IDE_DRDY" and "r AND (IDE_DF OR IDE_ERR) \<noteq> 0"
  shows "\<exists>t. ideintr D s = Ok () t \<and> b_valid (bufs t ! c) \<and> b_data (bufs t ! c) = b_data (bufs s ! c)"
proof -
  let ?s = "s\<lparr>held := {IdeLock}, idequeue := None\<rparr>"
  have c: "idequeue s = Some c" "qnext s c = None" "c < length (bufs s)" using assms(1,3) by (auto simp: ide_q_def)
  have "ide_read D c ?s = Ok () ?s" using assms(4-7) by (simp add: ide_read_def idewait_def run)
  then show ?thesis using c assms(2) by (simp add: ideintr_def run wakeup_run)
qed

end
