(* ===== verification/Umalloc.thy ===== *)
theory Umalloc
  imports Xv6_Prelude
begin

text \<open>
  The user-level allocator \<^verbatim>\<open>umalloc.c\<close>: a circular list of free blocks in the order of their addresses. A header is
  named by its address; \<^verbatim>\<open>s.ptr\<close> and \<^verbatim>\<open>s.size\<close> are maps from addresses, which no two live headers share since
  blocks of at least eight bytes do not overlap. The address of the static \<^verbatim>\<open>base\<close> is a parameter, and so is
  whether the kernel has the pages that a call of \<^verbatim>\<open>sbrk\<close> needs. Both loops run until they find their place, and the proofs show that
  they do.
\<close>

section \<open>\<^verbatim>\<open>umalloc.c\<close>\<close>

record arena =
  freep :: uint32
  hptr :: "uint32 \<Rightarrow> uint32"
  hsize :: "uint32 \<Rightarrow> uint32"
  brk :: uint32

text \<open>The address of the header \<open>n\<close> headers behind \<open>p\<close>.\<close>

definition hplus :: "uint32 \<Rightarrow> uint32 \<Rightarrow> uint32" where
  "hplus p n = p + 8 * n"

partial_function (option) free_scan :: "arena \<Rightarrow> uint32 \<Rightarrow> uint32 \<Rightarrow> uint32 option" where
  "free_scan s bp p =
     (if p < bp \<and> bp < hptr s p then Some p
      else if hptr s p \<le> p \<and> (p < bp \<or> bp < hptr s p) then Some p
      else free_scan s bp (hptr s p))"

definition free_join_next :: "uint32 \<Rightarrow> uint32 \<Rightarrow> arena \<Rightarrow> arena" where
  "free_join_next bp p s =
     (if hplus bp (hsize s bp) = hptr s p then
        s\<lparr>hsize := (hsize s)(bp := hsize s bp + hsize s (hptr s p)), hptr := (hptr s)(bp := hptr s (hptr s p))\<rparr>
      else s\<lparr>hptr := (hptr s)(bp := hptr s p)\<rparr>)"

definition free_join_prev :: "uint32 \<Rightarrow> uint32 \<Rightarrow> arena \<Rightarrow> arena" where
  "free_join_prev bp p s =
     (if hplus p (hsize s p) = bp then
        s\<lparr>hsize := (hsize s)(p := hsize s p + hsize s bp), hptr := (hptr s)(p := hptr s bp)\<rparr>
      else s\<lparr>hptr := (hptr s)(p := bp)\<rparr>)"

definition free :: "uint32 \<Rightarrow> arena \<Rightarrow> arena option" where
  "free ap s =
     (let bp = ap - 8 in
      case free_scan s bp (freep s) of
        None \<Rightarrow> None
      | Some p \<Rightarrow> Some ((free_join_prev bp p (free_join_next bp p s))\<lparr>freep := p\<rparr>))"

text \<open>\<^verbatim>\<open>sbrk\<close>, that is \<^verbatim>\<open>sys_sbrk\<close> and \<^verbatim>\<open>growproc\<close>, returns the old end of the memory and moves it, or returns -1. Its argument is
  signed. The new sizes are those that \<^verbatim>\<open>allocuvm\<close> and \<^verbatim>\<open>deallocuvm\<close> return; \<open>ok\<close> says whether the kernel has the pages from
  one size to another.\<close>

definition growproc_sz :: "(uint32 \<Rightarrow> uint32 \<Rightarrow> bool) \<Rightarrow> sint32 \<Rightarrow> uint32 \<Rightarrow> uint32 option" where
  "growproc_sz ok n sz =
     (if 0 <s n then
        let sz' = (if 0x80000000 \<le> sz + n then 0 else if sz + n < sz then sz else if ok sz (sz + n) then sz + n else 0)
        in if sz' = 0 then None else Some sz'
      else if n <s 0 then
        let sz' = (if sz \<le> sz + n then sz else sz + n)
        in if sz' = 0 then None else Some sz'
      else Some sz)"

definition sbrk :: "(uint32 \<Rightarrow> uint32 \<Rightarrow> bool) \<Rightarrow> sint32 \<Rightarrow> arena \<Rightarrow> uint32 \<times> arena" where
  "sbrk ok n s =
     (case growproc_sz ok n (brk s) of
        None \<Rightarrow> (- 1, s)
      | Some sz \<Rightarrow> (brk s, s\<lparr>brk := sz\<rparr>))"

definition morecore :: "(uint32 \<Rightarrow> uint32 \<Rightarrow> bool) \<Rightarrow> uint32 \<Rightarrow> arena \<Rightarrow> (uint32 \<times> arena) option" where
  "morecore ok nu s =
     (let nu = (if nu < 4096 then 4096 else nu);
          (p, s) = sbrk ok (nu * 8) s
      in if p = - 1 then Some (0, s)
         else case free (hplus p 1) (s\<lparr>hsize := (hsize s)(p := nu)\<rparr>) of
           None \<Rightarrow> None
         | Some s \<Rightarrow> Some (freep s, s))"

text \<open>What \<^verbatim>\<open>malloc\<close> does with the block \<open>p\<close> that is large enough, \<open>prevp\<close> the one before it.\<close>

definition malloc_take :: "uint32 \<Rightarrow> uint32 \<Rightarrow> uint32 \<Rightarrow> arena \<Rightarrow> uint32 \<times> arena" where
  "malloc_take nunits prevp p s =
     (if hsize s p = nunits then
        (hplus p 1, s\<lparr>hptr := (hptr s)(prevp := hptr s p), freep := prevp\<rparr>)
      else
       (let k = hsize s p - nunits;
            q = hplus p k
        in (hplus q 1, s\<lparr>hsize := (hsize s)(p := k, q := nunits), freep := prevp\<rparr>)))"

partial_function (option) malloc_scan ::
  "(uint32 \<Rightarrow> uint32 \<Rightarrow> bool) \<Rightarrow> uint32 \<Rightarrow> uint32 \<Rightarrow> uint32 \<Rightarrow> arena \<Rightarrow> (uint32 \<times> arena) option" where
  "malloc_scan ok nunits prevp p s =
     (if nunits \<le> hsize s p then Some (malloc_take nunits prevp p s)
      else if p = freep s then
        Option.bind (morecore ok nunits s)
          (\<lambda>(p', s'). if p' = 0 then Some (0, s') else malloc_scan ok nunits p' (hptr s' p') s')
      else malloc_scan ok nunits p (hptr s p) s)"

definition malloc_units :: "uint32 \<Rightarrow> uint32" where
  "malloc_units nbytes = (nbytes + 8 - 1) div 8 + 1"

definition malloc_init :: "uint32 \<Rightarrow> arena \<Rightarrow> arena" where
  "malloc_init base s =
     (if freep s = 0 then s\<lparr>freep := base, hptr := (hptr s)(base := base), hsize := (hsize s)(base := 0)\<rparr> else s)"

definition malloc ::
  "(uint32 \<Rightarrow> uint32 \<Rightarrow> bool) \<Rightarrow> uint32 \<Rightarrow> uint32 \<Rightarrow> arena \<Rightarrow> (uint32 \<times> arena) option" where
  "malloc ok base nbytes s =
     (let s = malloc_init base s
      in malloc_scan ok (malloc_units nbytes) (freep s) (hptr s (freep s)) s)"

section \<open>The circular list\<close>

text \<open>Following \<open>f\<close> through \<open>xs\<close> leads to \<open>c\<close>.\<close>

primrec lseg :: "('a \<Rightarrow> 'a) \<Rightarrow> 'a list \<Rightarrow> 'a \<Rightarrow> bool" where
  "lseg f [] c = True"
| "lseg f (x # xs) c \<longleftrightarrow> f x = hd (xs @ [c]) \<and> lseg f xs c"

lemma lseg_append: "lseg f (xs @ ys) c \<longleftrightarrow> lseg f xs (hd (ys @ [c])) \<and> lseg f ys c"
  by (induction xs) (auto simp: hd_append)

lemma lseg_cong: "(\<And>x. x \<in> set xs \<Longrightarrow> g x = f x) \<Longrightarrow> lseg g xs c = lseg f xs c"
  by (induction xs) auto

lemma lseg_next: "lseg f (xs @ x # ys) c \<Longrightarrow> f x = hd (ys @ [c])"
  by (simp add: lseg_append)

definition free_stop :: "arena \<Rightarrow> uint32 \<Rightarrow> uint32 \<Rightarrow> bool" where
  "free_stop s bp p \<longleftrightarrow> (p < bp \<and> bp < hptr s p) \<or> (hptr s p \<le> p \<and> (p < bp \<or> bp < hptr s p))"

lemma free_scan_stop: "free_stop s bp p \<Longrightarrow> free_scan s bp p = Some p"
  by (subst free_scan.simps) (auto simp: free_stop_def)

lemma free_scan_step: "\<not> free_stop s bp p \<Longrightarrow> free_scan s bp p = free_scan s bp (hptr s p)"
  by (subst free_scan.simps) (auto simp: free_stop_def)

lemma free_scan_walk:
  "lseg (hptr s) xs c \<Longrightarrow> \<forall>x\<in>set xs. \<not> free_stop s bp x \<Longrightarrow> free_scan s bp (hd (xs @ [c])) = free_scan s bp c"
  by (induction xs) (simp_all add: free_scan_step)

lemma free_scan_finds:
  assumes seg: "lseg (hptr s) (xs @ p # ys) base" and base: "base = hd (xs @ [p])"
    and up: "sorted_wrt (<) (xs @ p # ys)" and below: "\<forall>x\<in>set xs. x < bp" "p < bp" and above: "\<forall>y\<in>set ys. bp < y"
    and q: "q \<in> set (xs @ p # ys)"
  shows "free_scan s bp q = Some p"
proof -
  have bp: "base \<le> p" using base up by (cases xs) auto
  have stop: "free_stop s bp p"
    using lseg_next [OF seg] bp below(2) above by (cases ys) (auto simp: free_stop_def)
  have on: "\<not> free_stop s bp x" if "x \<in> set xs \<union> set ys" for x
  proof (cases "x \<in> set xs")
    case True
    then obtain us vs where xs: "xs = us @ x # vs" by (meson split_list)
    then have "hptr s x = hd (vs @ [p])" using seg lseg_next [of "hptr s" us x "vs @ p # ys"] by (cases vs) auto
    then show ?thesis using up below xs by (cases vs) (auto simp: free_stop_def sorted_wrt_append)
  next
    case False
    with that obtain us vs where ys: "ys = us @ x # vs" by (metis Un_iff split_list)
    then have "hptr s x = hd (vs @ [base])" using seg lseg_next [of "hptr s" "xs @ p # us" x vs] by auto
    then show ?thesis using up below(2) above ys bp by (cases vs) (auto simp: free_stop_def sorted_wrt_append)
  qed
  have from_xs: "free_scan s bp (hd (us @ [p])) = Some p" if "xs = vs @ us" for us vs
    using that seg on stop free_scan_walk [of s us p bp] by (auto simp: lseg_append free_scan_stop)
  consider "q \<in> set xs" | "q = p" | "q \<in> set ys" using q by auto
  then show ?thesis
  proof cases
    case 1
    then obtain us vs where "xs = vs @ q # us" by (meson split_list)
    then show ?thesis using from_xs [of vs "q # us"] by simp
  next
    case 3
    then obtain us vs where ys: "ys = vs @ q # us" by (meson split_list)
    then have "free_scan s bp q = free_scan s bp base"
      using seg on free_scan_walk [of s "q # us" base bp] by (auto simp: lseg_append)
    then show ?thesis using base from_xs [of "[]" xs] by simp
  qed (simp add: stop free_scan_stop)
qed

section \<open>The free blocks\<close>

text \<open>The bytes of a block, those of a list of blocks, and when a block ends before another begins, not next to it.\<close>

definition blk :: "arena \<Rightarrow> uint32 \<Rightarrow> nat set" where
  "blk s a = {unat a..<unat a + 8 * unat (hsize s a)}"

definition free_bytes :: "arena \<Rightarrow> uint32 list \<Rightarrow> nat set" where
  "free_bytes s bs = (\<Union>a\<in>set bs. blk s a)"

definition gap :: "arena \<Rightarrow> uint32 \<Rightarrow> uint32 \<Rightarrow> bool" where
  "gap s a c \<longleftrightarrow> unat a + 8 * unat (hsize s a) < unat c"

text \<open>A block is not empty and does not wrap around.\<close>

definition block_ok :: "arena \<Rightarrow> uint32 \<Rightarrow> bool" where
  "block_ok s a \<longleftrightarrow> 0 < hsize s a \<and> unat a + 8 * unat (hsize s a) < 2 ^ 32"

definition arena_ok :: "uint32 \<Rightarrow> arena \<Rightarrow> uint32 list \<Rightarrow> bool" where
  "arena_ok base s bs \<longleftrightarrow>
     lseg (hptr s) (base # bs) base \<and> sorted_wrt (gap s) (base # bs) \<and> hsize s base = 0
     \<and> (\<forall>a\<in>set bs. block_ok s a) \<and> freep s \<in> set (base # bs)"

lemma gap_less: "gap s a c \<Longrightarrow> a < c"
  by (simp add: gap_def word_less_nat_alt)

lemma gap_trans: "gap s a c \<Longrightarrow> gap s c d \<Longrightarrow> gap s a d"
  by (simp add: gap_def)

lemma sorted_gap_less: "sorted_wrt (gap s) xs \<Longrightarrow> sorted_wrt (<) xs"
  by (rule sorted_wrt_mono_rel) (auto dest: gap_less)

lemma sorted_gap_cong: "(\<And>x. x \<in> set xs \<Longrightarrow> hsize s' x = hsize s x) \<Longrightarrow> sorted_wrt (gap s') xs = sorted_wrt (gap s) xs"
  by (induction xs) (auto simp: gap_def)

lemma sorted_gap_shrink:
  "sorted_wrt (gap s) xs \<Longrightarrow> (\<And>x. x \<in> set xs \<Longrightarrow> unat (hsize s' x) \<le> unat (hsize s x)) \<Longrightarrow> sorted_wrt (gap s') xs"
  by (rule sorted_wrt_mono_rel [of _ "gap s"]) (fastforce simp: gap_def)+

lemma free_bytes_cong: "(\<And>x. x \<in> set xs \<Longrightarrow> hsize s' x = hsize s x) \<Longrightarrow> free_bytes s' xs = free_bytes s xs"
  by (auto simp: free_bytes_def blk_def)

lemma free_bytes_simps [simp]: "free_bytes s [] = {}" "free_bytes s (x # xs) = blk s x \<union> free_bytes s xs" "free_bytes s (xs @ ys) = free_bytes s xs \<union> free_bytes s ys"
  by (auto simp: free_bytes_def)

lemma arena_freep:
  "gap (s\<lparr>freep := p\<rparr>) = gap s" "blk (s\<lparr>freep := p\<rparr>) = blk s" "free_bytes (s\<lparr>freep := p\<rparr>) = free_bytes s" "block_ok (s\<lparr>freep := p\<rparr>) = block_ok s"
  by (simp_all add: gap_def blk_def free_bytes_def block_ok_def fun_eq_iff)

lemma hplus_unat: "unat p + 8 * unat n < 2 ^ 32 \<Longrightarrow> unat (hplus p n) = unat p + 8 * unat n"
proof -
  assume a: "unat p + 8 * unat n < 2 ^ 32"
  then have "unat (8 * n) = 8 * unat n" by (subst unat_mult_lem [THEN iffD1]) simp_all
  then show ?thesis using a unat_add_lem [THEN iffD1, of p "8 * n"] by (simp add: hplus_def)
qed

lemma hplus_eq_iff: "unat p + 8 * unat n < 2 ^ 32 \<Longrightarrow> hplus p n = q \<longleftrightarrow> unat p + 8 * unat n = unat q"
  by (metis hplus_unat word_unat_eq_iff)

lemma block_at: "block_ok s a \<Longrightarrow> unat a \<in> blk s a"
  by (simp add: block_ok_def blk_def word_less_nat_alt)

lemma blocks_apart:
  assumes "block_ok s a" and "block_ok s c" and "blk s a \<inter> blk s c = {}" and "a < c"
  shows "unat a + 8 * unat (hsize s a) \<le> unat c"
  using assms block_at [of s c] by (force simp: blk_def word_less_nat_alt)

lemma sorted_dropWhile_ge: "sorted_wrt (<) ns \<Longrightarrow> y \<in> set (dropWhile (\<lambda>a. a < b) ns) \<Longrightarrow> b \<le> (y :: uint32)"
  by (induction ns) (auto split: if_splits)

text \<open>Where a new block belongs in the list.\<close>

lemma free_place:
  assumes ok: "arena_ok base s bs" and b: "block_ok s b" "base < b" "blk s b \<inter> free_bytes s bs = {}"
  obtains xs p ys where "base # bs = xs @ p # ys" and "base = hd (xs @ [p])"
    and "\<forall>x\<in>set xs. x < b" and "p < b" and "\<forall>y\<in>set ys. b < y"
    and "unat p + 8 * unat (hsize s p) \<le> unat b" and "\<forall>y\<in>set ys. unat b + 8 * unat (hsize s b) \<le> unat y"
proof -
  let ?l = "takeWhile (\<lambda>a. a < b) (base # bs)" and ?r = "dropWhile (\<lambda>a. a < b) (base # bs)"
  have up: "sorted_wrt (<) (base # bs)" using ok sorted_gap_less [of s "base # bs"] by (simp only: arena_ok_def)
  have oks: "\<forall>a\<in>set bs. block_ok s a" using ok by (simp add: arena_ok_def)
  have sep: "blk s a \<inter> blk s b = {}" if "a \<in> set bs" for a using that b(3) by (auto simp: free_bytes_def)
  obtain xs p where l: "?l = xs @ [p]" using b(2) by (metis rev_exhaust takeWhile.simps(2) list.distinct(1))
  have eq: "base # bs = xs @ p # ?r" using l takeWhile_dropWhile_id [of "\<lambda>a. a < b" "base # bs"]
    by (metis append.assoc append_Cons append_Nil)
  have lt: "\<forall>x\<in>set (xs @ [p]). x < b" using l set_takeWhileD by metis
  have r_bs: "set ?r \<subseteq> set bs" using b(2) by (auto dest: set_dropWhileD)
  have ge: "b \<le> y" if "y \<in> set ?r" for y
    using sorted_dropWhile_ge [OF up] that by blast
  have gt: "b < y" if "y \<in> set ?r" for y
  proof -
    have "y \<noteq> b" using sep [of y] that r_bs block_at [OF b(1)] by auto
    then show ?thesis using ge [OF that] by simp
  qed
  have "unat p + 8 * unat (hsize s p) \<le> unat b"
  proof (cases "p = base")
    case False
    then have "p \<in> set bs" using eq by (metis in_set_conv_decomp set_ConsD)
    then show ?thesis using blocks_apart [of s p b] oks sep b(1) lt by auto
  qed (use ok b(2) in \<open>simp add: arena_ok_def word_less_nat_alt\<close>)
  moreover have "\<forall>y\<in>set ?r. unat b + 8 * unat (hsize s b) \<le> unat y"
  proof
    fix y assume y: "y \<in> set ?r"
    then have "y \<in> set bs" using r_bs by blast
    then have "block_ok s y" "blk s b \<inter> blk s y = {}" using oks sep by (auto simp: Int_commute)
    then show "unat b + 8 * unat (hsize s b) \<le> unat y" using blocks_apart b(1) gt [OF y] by blast
  qed
  moreover have "base = hd (xs @ [p])" using eq by (cases xs) auto
  ultimately show thesis using that eq lt gt by auto
qed

lemma free_join_next_frame:
  "x \<noteq> b \<Longrightarrow> hptr (free_join_next b p s) x = hptr s x" "x \<noteq> b \<Longrightarrow> hsize (free_join_next b p s) x = hsize s x"
  "freep (free_join_next b p s) = freep s" "brk (free_join_next b p s) = brk s"
  by (simp_all add: free_join_next_def)

lemma free_join_prev_frame: "x \<noteq> p \<Longrightarrow> hsize (free_join_prev b p s) x = hsize s x"
  by (simp add: free_join_prev_def)

lemma unat_sum: "unat x + unat y < 2 ^ 32 \<Longrightarrow> unat (x + y :: uint32) = unat x + unat y"
  using unat_add_lem [of x y] by simp

lemma free_join_next_ok:
  assumes seg: "hptr s p = hd (ys @ [base])" "lseg (hptr s) ys base" and up: "sorted_wrt (gap s) ys"
    and oks: "\<forall>y\<in>set ys. block_ok s y" and b: "block_ok s b" "base < b" "b \<notin> set ys"
    and fits: "\<forall>y\<in>set ys. unat b + 8 * unat (hsize s b) \<le> unat y"
  obtains zs where "lseg (hptr (free_join_next b p s)) (b # zs) base" and "sorted_wrt (gap (free_join_next b p s)) (b # zs)"
    and "block_ok (free_join_next b p s) b" and "set zs \<subseteq> set ys" and "blk s b \<subseteq> blk (free_join_next b p s) b"
    and "blk (free_join_next b p s) b \<union> free_bytes (free_join_next b p s) zs = blk s b \<union> free_bytes s ys"
proof (cases "hplus b (hsize s b) = hptr s p")
  case True
  let ?s = "free_join_next b p s"
  have "unat b + 8 * unat (hsize s b) = unat (hptr s p)" using True b(1) hplus_eq_iff by (simp add: block_ok_def)
  then obtain c zs where ys: "ys = c # zs" and c: "unat b + 8 * unat (hsize s b) = unat c"
    using seg(1) b(2) by (cases ys) (auto simp: word_less_nat_alt)
  have cok: "unat c + 8 * unat (hsize s c) < 2 ^ 32" using oks ys by (simp add: block_ok_def)
  have size: "unat (hsize ?s b) = unat (hsize s b) + unat (hsize s c)"
    using True seg(1) ys c cok by (simp add: free_join_next_def unat_sum)
  have f: "hptr ?s x = hptr s x" "hsize ?s x = hsize s x" if "x \<in> set zs" for x
    using that b(3) ys free_join_next_frame(1,2) [of x b p s] by auto
  show thesis
  proof
    have "hptr ?s b = hd (zs @ [base])" using True seg ys by (simp add: free_join_next_def)
    moreover have "lseg (hptr ?s) zs base" using seg(2) ys lseg_cong [OF f(1)] by simp
    ultimately show "lseg (hptr ?s) (b # zs) base" by simp
    have "sorted_wrt (gap ?s) zs" using up ys sorted_gap_cong [OF f(2)] by simp
    then show "sorted_wrt (gap ?s) (b # zs)" using up ys c size by (auto simp: gap_def)
    show "block_ok ?s b" using b(1) size c cok by (simp add: block_ok_def word_less_nat_alt)
    show "set zs \<subseteq> set ys" using ys by auto
    show "blk ?s b \<union> free_bytes ?s zs = blk s b \<union> free_bytes s ys"
      using ys c size free_bytes_cong [OF f(2)] by (auto simp: blk_def)
    show "blk s b \<subseteq> blk ?s b" using size by (auto simp: blk_def)
  qed
next
  case False
  let ?s = "free_join_next b p s"
  have s: "hsize ?s = hsize s" "hptr ?s b = hptr s p" using False by (auto simp: free_join_next_def)
  have f: "hptr ?s x = hptr s x" if "x \<in> set ys" for x using that b(3) free_join_next_frame(1) [of x b p s] by auto
  have ne: "unat b + 8 * unat (hsize s b) \<noteq> unat (hptr s p)" using False b(1) hplus_eq_iff by (simp add: block_ok_def)
  show thesis
  proof
    show "lseg (hptr ?s) (b # ys) base"
      using seg s(2) lseg_cong [OF f] by simp
    have "gap s b y" if "y \<in> set ys" for y
      using that fits ne seg(1) up by (cases ys) (auto simp: gap_def)
    then show "sorted_wrt (gap ?s) (b # ys)" using up s(1) sorted_gap_cong [of ys ?s s] by (simp add: gap_def)
    show "block_ok ?s b" using b(1) s(1) by (simp add: block_ok_def)
    show "blk ?s b \<union> free_bytes ?s ys = blk s b \<union> free_bytes s ys" using s(1) by (simp add: blk_def free_bytes_def)
    show "blk s b \<subseteq> blk ?s b" using s(1) by (simp add: blk_def)
  qed simp
qed

lemma free_merge_prev:
  assumes seg: "lseg (hptr s) xs p" "lseg (hptr s) (b # zs) base"
    and up: "sorted_wrt (gap s) (xs @ [p])" "sorted_wrt (gap s) (b # zs)"
    and oks: "\<forall>a\<in>set xs - {base}. block_ok s a" "\<forall>a\<in>set zs. block_ok s a" "block_ok s b"
    and fits: "p < b" "unat p + 8 * unat (hsize s p) \<le> unat b" and s': "s' = free_join_prev b p s"
    and merge: "hplus p (hsize s p) = b" "block_ok s p"
  shows "lseg (hptr s') (xs @ p # zs) base" and "sorted_wrt (gap s') (xs @ p # zs)"
    and "\<forall>a\<in>set (xs @ p # zs) - {base}. block_ok s' a"
    and "free_bytes s' (xs @ p # zs) = free_bytes s (xs @ [p]) \<union> free_bytes s (b # zs)" and "blk s b \<subseteq> blk s' p"
proof -
  have pb: "unat p + 8 * unat (hsize s p) = unat b" "unat b + 8 * unat (hsize s b) < 2 ^ 32"
    using merge oks(3) by (simp_all add: hplus_eq_iff block_ok_def)
  have size: "unat (hsize s' p) = unat (hsize s p) + unat (hsize s b)"
    using merge(1) pb s' by (simp add: free_join_prev_def unat_sum)
  have f: "hptr s' x = hptr s x" "hsize s' x = hsize s x" if "x \<noteq> p" for x
    using that merge(1) s' by (simp_all add: free_join_prev_def)
  have nx: "x \<noteq> p" "gap s x p" if "x \<in> set xs" for x using that up(1) by (auto simp: sorted_wrt_append gap_def)
  have nz: "z \<noteq> p" "gap s b z" if "z \<in> set zs" for z
    using that up(2) fits(1) gap_less [of s b z] by auto
  have link: "hptr s' p = hptr s b" using merge(1) s' by (simp add: free_join_prev_def)
  show "lseg (hptr s') (xs @ p # zs) base"
    using seg link lseg_cong [of xs "hptr s'" "hptr s" p] lseg_cong [of zs "hptr s'" "hptr s" base] f(1) nx(1) nz(1)
    by (simp add: lseg_append)
  have "gap s' x z" if "x \<in> set xs" "z \<in> set zs" for x z
    using nx [OF that(1)] nz(2) [OF that(2)] f(2) pb(1) by (simp add: gap_def)
  moreover have "gap s' x p" if "x \<in> set xs" for x using nx [OF that] f(2) by (simp add: gap_def)
  moreover have "gap s' p z" if "z \<in> set zs" for z using nz(2) [OF that] size pb(1) by (simp add: gap_def)
  ultimately show "sorted_wrt (gap s') (xs @ p # zs)"
    using up sorted_gap_cong [of xs s' s] sorted_gap_cong [of zs s' s] f(2) nx(1) nz(1) by (simp add: sorted_wrt_append)
  show "\<forall>a\<in>set (xs @ p # zs) - {base}. block_ok s' a"
    using oks f(2) nx(1) nz(1) merge(2) size pb by (auto simp: block_ok_def word_less_nat_alt)
  have "blk s' p = blk s p \<union> blk s b" using size pb(1) by (auto simp: blk_def)
  then show "free_bytes s' (xs @ p # zs) = free_bytes s (xs @ [p]) \<union> free_bytes s (b # zs)" "blk s b \<subseteq> blk s' p"
    using free_bytes_cong [of xs s' s] free_bytes_cong [of zs s' s] f(2) nx(1) nz(1) by auto
qed

lemma free_link_prev:
  assumes seg: "lseg (hptr s) xs p" "lseg (hptr s) (b # zs) base"
    and up: "sorted_wrt (gap s) (xs @ [p])" "sorted_wrt (gap s) (b # zs)"
    and oks: "\<forall>a\<in>set xs - {base}. block_ok s a" "\<forall>a\<in>set zs. block_ok s a" "block_ok s b"
    and fits: "p < b" "unat p + 8 * unat (hsize s p) \<le> unat b" and s': "s' = free_join_prev b p s"
    and apart: "hplus p (hsize s p) \<noteq> b" "p \<noteq> base \<Longrightarrow> block_ok s p" "unat p + 8 * unat (hsize s p) < 2 ^ 32"
  shows "lseg (hptr s') (xs @ p # b # zs) base" and "sorted_wrt (gap s') (xs @ p # b # zs)"
    and "\<forall>a\<in>set (xs @ p # b # zs) - {base}. block_ok s' a"
    and "free_bytes s' (xs @ p # b # zs) = free_bytes s (xs @ [p]) \<union> free_bytes s (b # zs)" and "blk s b \<subseteq> blk s' b"
proof -
  have f: "hptr s' x = hptr s x" if "x \<noteq> p" for x using that apart(1) s' by (simp add: free_join_prev_def)
  have link: "hptr s' p = b" "hsize s' = hsize s" using apart(1) s' by (simp_all add: free_join_prev_def)
  have pb: "gap s p b" using fits(2) apart(1,3) by (simp add: gap_def hplus_eq_iff)
  have nx: "x \<noteq> p" "gap s x p" if "x \<in> set xs" for x using that up(1) by (auto simp: sorted_wrt_append gap_def)
  have nz: "z \<noteq> p" "gap s b z" if "z \<in> set zs" for z
    using that up(2) fits(1) gap_less [of s b z] by auto
  have gs: "gap s' = gap s" using link(2) by (simp add: gap_def fun_eq_iff)
  have "lseg (hptr s') xs p" using seg(1) lseg_cong [of xs "hptr s'" "hptr s" p] f nx(1) by simp
  moreover have "hptr s' x = hptr s x" if "x \<in> set (b # zs)" for x using that f nz(1) fits(1) by auto
  then have "lseg (hptr s') (b # zs) base = lseg (hptr s) (b # zs) base" by (rule lseg_cong)
  ultimately show "lseg (hptr s') (xs @ p # b # zs) base" using link(1) seg(2) by (simp add: lseg_append)
  show "sorted_wrt (gap s') (xs @ p # b # zs)"
    using up pb nx(2) nz(2) gap_trans [of s] unfolding gs by (simp add: sorted_wrt_append) blast
  show "\<forall>a\<in>set (xs @ p # b # zs) - {base}. block_ok s' a" using oks apart(2) link(2) by (auto simp: block_ok_def)
  show "free_bytes s' (xs @ p # b # zs) = free_bytes s (xs @ [p]) \<union> free_bytes s (b # zs)" "blk s b \<subseteq> blk s' b"
    using link(2) by (auto simp: free_bytes_def blk_def)
qed

lemma free_joins:
  assumes seg: "lseg (hptr s) xs p" "lseg (hptr s) (b # zs) base" and base: "base = hd (xs @ [p])" "hsize s base = 0" "base < b"
    and up: "sorted_wrt (gap s) (xs @ [p])" "sorted_wrt (gap s) (b # zs)"
    and oks: "\<forall>a\<in>set (xs @ p # b # zs) - {base}. block_ok s a" and fits: "p < b" "unat p + 8 * unat (hsize s p) \<le> unat b"
  obtains cs where "lseg (hptr (free_join_prev b p s)) (base # cs) base" and "sorted_wrt (gap (free_join_prev b p s)) (base # cs)"
    and "\<forall>a\<in>set cs. block_ok (free_join_prev b p s) a"
    and "free_bytes (free_join_prev b p s) (base # cs) = free_bytes s (xs @ [p]) \<union> free_bytes s (b # zs)"
    and "\<exists>a\<in>set cs. blk s b \<subseteq> blk (free_join_prev b p s) a" and "p \<in> set (base # cs)"
    and "hsize (free_join_prev b p s) base = 0"
proof -
  let ?s = "free_join_prev b p s"
  let ?ok = "\<lambda>ns. lseg (hptr ?s) ns base \<and> sorted_wrt (gap ?s) ns \<and> (\<forall>a\<in>set ns - {base}. block_ok ?s a)
    \<and> free_bytes ?s ns = free_bytes s (xs @ [p]) \<union> free_bytes s (b # zs)"
  have "base \<notin> set zs" using up(2) base(3) gap_less [of s b base] by auto
  then have oks': "\<forall>a\<in>set xs - {base}. block_ok s a" "\<forall>a\<in>set zs. block_ok s a" "block_ok s b"
    using oks base(3) by auto
  have "\<exists>ns a. ?ok ns \<and> a \<in> set ns \<and> a \<noteq> base \<and> blk s b \<subseteq> blk ?s a \<and> hd ns = base \<and> p \<in> set ns \<and> ns \<noteq> [] \<and> hsize ?s base = 0"
  proof (cases "hplus p (hsize s p) = b")
    case True
    have ne: "p \<noteq> base" using True base by (auto simp: hplus_def)
    then have p: "block_ok s p" using oks by auto
    have "hd (xs @ p # zs) = base" using base(1) by (cases xs) auto
    moreover have "hsize ?s base = 0" using ne base(2) by (simp add: free_join_prev_def)
    ultimately show ?thesis using free_merge_prev [OF seg up oks' fits refl True p] ne
      by (intro exI [of _ "xs @ p # zs"] exI [of _ p]) simp
  next
    case False
    have p: "p \<noteq> base \<Longrightarrow> block_ok s p" using oks by auto
    have w: "unat p + 8 * unat (hsize s p) < 2 ^ 32" using fits(2) unsigned_less [of b, where ?'a = nat] by simp
    have "hd (xs @ p # b # zs) = base" using base(1) by (cases xs) auto
    moreover have "hsize ?s base = 0" using False base(2) by (simp add: free_join_prev_def)
    ultimately show ?thesis using free_link_prev [OF seg up oks' fits refl False p w] base(3)
      by (intro exI [of _ "xs @ p # b # zs"] exI [of _ b]) simp
  qed
  then obtain ns a where ns: "?ok ns" "a \<in> set ns" "a \<noteq> base" "blk s b \<subseteq> blk ?s a" "hd ns = base" "p \<in> set ns" "ns \<noteq> []"
    "hsize ?s base = 0" by blast
  then have eq: "ns = base # tl ns" by (cases ns) auto
  moreover have "base \<notin> set (tl ns)" using ns(1) eq by (metis gap_less less_irrefl sorted_wrt.simps(2))
  ultimately show thesis using ns that [of "tl ns"] by (metis Diff_iff empty_iff insert_iff list.set(2))
qed

lemma free_ok:
  assumes ok: "arena_ok base s bs" and b: "block_ok s b" "base < b" "blk s b \<inter> free_bytes s bs = {}"
  obtains s' cs where "free (hplus b 1) s = Some s'" and "arena_ok base s' cs" and "free_bytes s' cs = free_bytes s bs \<union> blk s b"
    and "brk s' = brk s" and "\<forall>x. unat x \<notin> free_bytes s' cs \<longrightarrow> hsize s' x = hsize s x" and "\<exists>a\<in>set cs. blk s b \<subseteq> blk s' a"
proof -
  obtain xs p ys where at: "base # bs = xs @ p # ys" "base = hd (xs @ [p])" "\<forall>x\<in>set xs. x < b" "p < b" "\<forall>y\<in>set ys. b < y"
    "unat p + 8 * unat (hsize s p) \<le> unat b" "\<forall>y\<in>set ys. unat b + 8 * unat (hsize s b) \<le> unat y"
    using free_place [OF assms] by metis
  have inv: "lseg (hptr s) (xs @ p # ys) base" "sorted_wrt (gap s) (xs @ p # ys)" "hsize s base = 0" "\<forall>a\<in>set bs. block_ok s a"
    "freep s \<in> set (xs @ p # ys)" using ok unfolding arena_ok_def at(1) by auto
  have scan: "free_scan s b (freep s) = Some p" using free_scan_finds inv at sorted_gap_less by blast
  let ?t = "free_join_next b p s"
  have nb: "b \<notin> set xs" "b \<noteq> p" "b \<notin> set ys" "b \<noteq> base" using at b(2) by auto
  note fr = free_join_next_frame(1,2) [of _ b p s]
  have ys: "hptr s p = hd (ys @ [base])" "lseg (hptr s) ys base" "sorted_wrt (gap s) ys" "\<forall>y\<in>set ys. block_ok s y"
    using inv at(1) b(2) at(5) by (auto simp: lseg_append sorted_wrt_append Cons_eq_append_conv)
  obtain zs where zs: "lseg (hptr ?t) (b # zs) base" "sorted_wrt (gap ?t) (b # zs)" "block_ok ?t b" "set zs \<subseteq> set ys"
    "blk s b \<subseteq> blk ?t b" "blk ?t b \<union> free_bytes ?t zs = blk s b \<union> free_bytes s ys"
    using free_join_next_ok [OF ys b(1,2) nb(3) at(7)] by metis
  have fx: "hptr ?t x = hptr s x" "hsize ?t x = hsize s x" if "x \<in> set (xs @ [p])" for x
    using that nb fr [of x] by auto
  have xs: "lseg (hptr ?t) xs p" "sorted_wrt (gap ?t) (xs @ [p])" "free_bytes ?t (xs @ [p]) = free_bytes s (xs @ [p])"
  proof -
    have "lseg (hptr ?t) xs p = lseg (hptr s) xs p" by (rule lseg_cong) (simp add: fx)
    then show "lseg (hptr ?t) xs p" using inv(1) by (simp add: lseg_append)
    have "sorted_wrt (gap s) (xs @ [p])" using inv(2) by (simp add: sorted_wrt_append)
    then show "sorted_wrt (gap ?t) (xs @ [p])" using sorted_gap_cong [of "xs @ [p]" ?t s, OF fx(2)] by simp
  qed (rule free_bytes_cong [OF fx(2)])
  have oks: "\<forall>a\<in>set (xs @ p # b # zs) - {base}. block_ok ?t a"
  proof
    fix a assume "a \<in> set (xs @ p # b # zs) - {base}"
    then have "a = b \<or> a \<in> set bs" using at(1) zs(4) by (auto simp: Cons_eq_append_conv)
    then show "block_ok ?t a" using zs(3) inv(4) fr(2) [of a] by (cases "a = b") (auto simp: block_ok_def)
  qed
  have t: "hsize ?t base = 0" "unat p + 8 * unat (hsize ?t p) \<le> unat b" using inv(3) at(6) fr(2) nb by simp_all
  let ?u = "free_join_prev b p ?t"
  obtain cs where cs: "lseg (hptr ?u) (base # cs) base" "sorted_wrt (gap ?u) (base # cs)" "\<forall>a\<in>set cs. block_ok ?u a"
    "free_bytes ?u (base # cs) = free_bytes ?t (xs @ [p]) \<union> free_bytes ?t (b # zs)" "\<exists>a\<in>set cs. blk ?t b \<subseteq> blk ?u a"
    "p \<in> set (base # cs)" "hsize ?u base = 0"
    using free_joins [OF xs(1) zs(1) at(2) t(1) b(2) xs(2) zs(2) oks at(4) t(2)] by metis
  have av: "free_bytes ?u cs = free_bytes s bs \<union> blk s b"
    using cs(4,7) xs(3) zs(6) free_bytes_simps(2) [of s base bs] inv(3) unfolding at(1) by (auto simp: blk_def)
  have keep: "hsize ?u x = hsize s x" if "unat x \<notin> free_bytes ?u cs" for x
  proof -
    have ne: "x \<noteq> b" using that av block_at [OF b(1)] by auto
    have "x \<in> set bs \<Longrightarrow> unat x \<in> free_bytes s bs" using inv(4) block_at by (auto simp: free_bytes_def)
    moreover have "p \<in> set (base # bs)" unfolding at(1) by simp
    ultimately have "x = p \<Longrightarrow> x = base" using that av by auto
    then show ?thesis using ne fr(2) [of x] cs(7) inv(3) free_join_prev_frame [of x p b ?t] by (cases "x = p") auto
  qed
  show thesis
  proof
    show "free (hplus b 1) s = Some (?u\<lparr>freep := p\<rparr>)" using scan by (simp add: free_def hplus_def)
    show "arena_ok base (?u\<lparr>freep := p\<rparr>) cs" using cs by (simp add: arena_ok_def arena_freep)
    show "free_bytes (?u\<lparr>freep := p\<rparr>) cs = free_bytes s bs \<union> blk s b" using av by (simp add: arena_freep)
    show "brk (?u\<lparr>freep := p\<rparr>) = brk s" by (simp add: free_join_prev_def free_join_next_def)
    show "\<forall>x. unat x \<notin> free_bytes (?u\<lparr>freep := p\<rparr>) cs \<longrightarrow> hsize (?u\<lparr>freep := p\<rparr>) x = hsize s x"
      using keep by (simp add: arena_freep)
    show "\<exists>a\<in>set cs. blk s b \<subseteq> blk (?u\<lparr>freep := p\<rparr>) a" using cs(5) zs(5) by (auto simp: arena_freep)
  qed
qed

section \<open>Taking a block\<close>

lemma lseg_map: "lseg f xs c \<Longrightarrow> xs \<noteq> [] \<Longrightarrow> map f xs = tl xs @ [c]"
  by (induction xs) (auto simp: hd_append neq_Nil_conv)

lemma lseg_last: "lseg f xs c \<Longrightarrow> xs \<noteq> [] \<Longrightarrow> f (last xs) = c"
  by (induction xs) (auto split: if_splits)

lemma sorted_gap_distinct: "sorted_wrt (gap s) xs \<Longrightarrow> distinct xs"
  using sorted_gap_less [of s xs] by (simp add: strict_sorted_iff)

lemma gap_disjoint: "gap s a c \<Longrightarrow> blk s a \<inter> blk s c = {}"
  by (auto simp: gap_def blk_def)

lemma free_bytes_disjoint:
  assumes "sorted_wrt (gap s) (us @ p # vs)"
  shows "blk s p \<inter> free_bytes s (us @ vs) = {}"
proof -
  have "blk s p \<inter> blk s a = {}" if "a \<in> set (us @ vs)" for a
    using that assms gap_disjoint [of s a p] gap_disjoint [of s p a] by (auto simp: sorted_wrt_append Int_commute)
  then show ?thesis by (auto simp: free_bytes_def)
qed

text \<open>One step of the circle leads to the block \<open>p\<close>.\<close>

lemma arena_prev:
  assumes ok: "arena_ok base s (us @ p # vs)" and q: "q \<in> set (base # us @ p # vs)" "hptr s q = p"
  shows "q = last (base # us)"
proof -
  have seg: "lseg (hptr s) (base # us @ p # vs) base" and d: "distinct (base # us @ p # vs)"
    using ok sorted_gap_distinct [of s "base # us @ p # vs"] by (simp_all add: arena_ok_def)
  have "distinct (map (hptr s) (base # us @ p # vs))" using lseg_map [OF seg] d by auto
  then have "inj_on (hptr s) (set (base # us @ p # vs))" unfolding distinct_map by blast
  moreover have "hptr s (last (base # us)) = p"
    using seg lseg_append [of "hptr s" "base # us" "p # vs" base] lseg_last [of "hptr s" "base # us" p] by simp
  moreover have "last (base # us) \<in> set (base # us @ p # vs)" using last_in_set [of "base # us"] by auto
  ultimately show ?thesis using q by (metis inj_onD)
qed

lemma malloc_take_all:
  assumes ok: "arena_ok base s (us @ p # vs)" and n: "hsize s p = n" and s': "(r, s') = malloc_take n (last (base # us)) p s"
  shows "arena_ok base s' (us @ vs)" and "r = hplus p 1" and "hsize s' = hsize s" and "brk s' = brk s"
    and "free_bytes s' (us @ vs) = free_bytes s (us @ p # vs) - blk s p"
proof -
  let ?q = "last (base # us)"
  obtain ws where ws: "base # us = ws @ [?q]" by (metis append_butlast_last_id list.distinct(1))
  have eq: "base # us @ p # vs = ws @ ?q # p # vs" using arg_cong [OF ws, of "\<lambda>l. l @ p # vs"] by simp
  have s: "s' = s\<lparr>hptr := (hptr s)(?q := hptr s p), freep := ?q\<rparr>" "r = hplus p 1" using n s' by (auto simp: malloc_take_def)
  have inv: "lseg (hptr s) (ws @ ?q # p # vs) base" "sorted_wrt (gap s) (ws @ ?q # p # vs)" "hsize s base = 0"
    "\<forall>a\<in>set (us @ p # vs). block_ok s a"
    using ok eq unfolding arena_ok_def by metis+
  have d: "distinct (ws @ ?q # p # vs)" using sorted_gap_distinct [OF inv(2)] .
  have "lseg ((hptr s)(?q := hptr s p)) ws ?q = lseg (hptr s) ws ?q" using d by (intro lseg_cong) auto
  moreover have "lseg ((hptr s)(?q := hptr s p)) vs base = lseg (hptr s) vs base" using d by (intro lseg_cong) auto
  ultimately have l: "lseg (hptr s') (ws @ ?q # vs) base" using inv(1) s(1) by (simp add: lseg_append)
  have g: "gap s' = gap s" "block_ok s' = block_ok s" "blk s' = blk s"
    using s(1) by (simp_all add: gap_def block_ok_def blk_def fun_eq_iff)
  have "sorted_wrt (gap s) (ws @ ?q # vs)" using inv(2) by (auto simp: sorted_wrt_append)
  moreover have eq': "base # us @ vs = ws @ ?q # vs" using arg_cong [OF ws, of "\<lambda>l. l @ vs"] by simp
  moreover have "freep s' = ?q" "hsize s' = hsize s" using s(1) by simp_all
  ultimately show "arena_ok base s' (us @ vs)" using l inv(3,4) unfolding arena_ok_def g eq' by simp
  show "r = hplus p 1" "hsize s' = hsize s" "brk s' = brk s" using s by simp_all
  show "free_bytes s' (us @ vs) = free_bytes s (us @ p # vs) - blk s p"
    using free_bytes_disjoint [of s us p vs] ok g(3) by (auto simp: free_bytes_def arena_ok_def)
qed

text \<open>No header of another free block lies inside a free block.\<close>

lemma inside_not_node:
  assumes "arena_ok base s bs" and "p \<in> set bs" and "unat q \<in> blk s p" and "q \<noteq> p"
  shows "q \<notin> set (base # bs)"
proof
  assume q: "q \<in> set (base # bs)"
  obtain us vs where bs: "bs = us @ p # vs" using assms(2) by (meson split_list)
  have up: "sorted_wrt (gap s) (base # us @ p # vs)" and oks: "\<forall>a\<in>set bs. block_ok s a" using assms(1) bs by (simp_all add: arena_ok_def)
  show False
  proof (cases "q = base")
    case True
    then show ?thesis using assms(3) up gap_less [of s base p] by (auto simp: blk_def word_less_nat_alt)
  next
    case False
    then have "q \<in> set (us @ vs)" using q bs assms(4) by auto
    moreover from this have "unat q \<in> blk s q" using oks bs block_at by auto
    ultimately show ?thesis using assms(3) free_bytes_disjoint [of s us p vs] up by (auto simp: free_bytes_def)
  qed
qed

lemma malloc_take_part:
  assumes ok: "arena_ok base s bs" and p: "p \<in> set bs" and prev: "prev \<in> set (base # bs)"
    and n: "0 < n" "n < hsize s p" and s': "(r, s') = malloc_take n prev p s" and q: "q = hplus p (hsize s p - n)"
  shows "arena_ok base s' bs" and "r = hplus q 1" and "hsize s' q = n" and "brk s' = brk s" and "blk s' q \<subseteq> blk s p"
    and "\<And>x. x \<noteq> p \<Longrightarrow> x \<noteq> q \<Longrightarrow> hsize s' x = hsize s x" and "free_bytes s' bs = free_bytes s bs - blk s' q"
    and "unat q + 8 * unat n = unat p + 8 * unat (hsize s p)" and "p \<le> q"
proof -
  let ?k = "hsize s p - n"
  have s: "s' = s\<lparr>hsize := (hsize s)(p := ?k, q := n), freep := prev\<rparr>" "r = hplus q 1" using n(2) s' q by (simp_all add: malloc_take_def Let_def less_imp_neq [symmetric])
  have pok: "unat p + 8 * unat (hsize s p) < 2 ^ 32" using ok p by (simp add: arena_ok_def block_ok_def)
  have k: "unat ?k = unat (hsize s p) - unat n" using n(2) by (simp add: unat_sub)
  have nn: "0 < unat n" "unat n < unat (hsize s p)" using n by (simp_all add: word_less_nat_alt)
  have uq: "unat q = unat p + 8 * unat ?k" using q k pok hplus_unat [of p ?k] by simp
  have q_in: "unat q \<in> blk s p" "q \<noteq> p" using uq k nn by (auto simp: blk_def)
  then have qn: "q \<notin> set (base # bs)" by (rule inside_not_node [OF ok p])
  obtain us vs where bs: "bs = us @ p # vs" using p by (meson split_list)
  have inv: "lseg (hptr s) (base # us @ p # vs) base" "sorted_wrt (gap s) (base # us @ p # vs)" "hsize s base = 0"
    "\<forall>a\<in>set bs. block_ok s a" using ok bs by (auto simp: arena_ok_def)
  have d: "p \<noteq> base" "p \<notin> set us" "p \<notin> set vs" using sorted_gap_distinct [OF inv(2)] by auto
  have f: "hsize s' x = hsize s x" if "x \<noteq> p" "x \<noteq> q" for x using that s by simp
  have fp: "hsize s' p = ?k" "hsize s' q = n" using s q_in(2) by auto
  have "sorted_wrt (gap s') (base # us @ p # vs)"
  proof (rule sorted_gap_shrink [OF inv(2)])
    fix x assume "x \<in> set (base # us @ p # vs)"
    then have "x \<noteq> q" using qn bs by auto
    then show "unat (hsize s' x) \<le> unat (hsize s x)" using f [of x] fp(1) k by (cases "x = p") auto
  qed
  moreover have "\<forall>a\<in>set bs. block_ok s' a"
  proof
    fix a assume "a \<in> set bs"
    moreover from this have "a \<noteq> q" using qn by auto
    ultimately show "block_ok s' a" using inv(4) pok qn f [of a] fp(1) k nn by (cases "a = p") (auto simp: block_ok_def word_less_nat_alt)
  qed
  moreover have "hptr s' = hptr s" "freep s' = prev" "hsize s' base = 0" using s(1) f [of base] d(1) qn inv(3) by auto
  ultimately show "arena_ok base s' bs" using inv(1) bs prev unfolding arena_ok_def by simp
  show "r = hplus q 1" "hsize s' q = n" "brk s' = brk s" "\<And>x. x \<noteq> p \<Longrightarrow> x \<noteq> q \<Longrightarrow> hsize s' x = hsize s x"
    using s fp by auto
  show "unat q + 8 * unat n = unat p + 8 * unat (hsize s p)" "p \<le> q" using uq k nn by (simp_all add: word_le_nat_alt)
  show "blk s' q \<subseteq> blk s p" using uq fp(2) k nn by (auto simp: blk_def)
  have "blk s' p = blk s p - blk s' q" using uq fp k nn by (auto simp: blk_def)
  moreover have "free_bytes s' (us @ vs) = free_bytes s (us @ vs)"
  proof (rule free_bytes_cong)
    fix x assume "x \<in> set (us @ vs)"
    then have "x \<noteq> p" "x \<noteq> q" using qn bs d by auto
    then show "hsize s' x = hsize s x" by (rule f)
  qed
  ultimately show "free_bytes s' bs = free_bytes s bs - blk s' q"
    using free_bytes_disjoint [of s us p vs] inv(2) \<open>blk s' q \<subseteq> blk s p\<close> bs by auto
qed

lemma malloc_scan_found: "n \<le> hsize s p \<Longrightarrow> malloc_scan ok n prevp p s = Some (malloc_take n prevp p s)"
  by (subst malloc_scan.simps) simp

lemma malloc_scan_step: "hsize s p < n \<Longrightarrow> p \<noteq> freep s \<Longrightarrow> malloc_scan ok n prevp p s = malloc_scan ok n p (hptr s p) s"
  by (subst malloc_scan.simps) (simp add: linorder_not_less [symmetric])

lemma malloc_scan_walk:
  "lseg (hptr s) us c \<Longrightarrow> \<forall>u\<in>set us. hsize s u < n \<and> u \<noteq> freep s \<Longrightarrow>
   malloc_scan ok n a (hd (us @ [c])) s = malloc_scan ok n (last (a # us)) c s"
  by (induction us arbitrary: a) (auto simp: malloc_scan_step)

text \<open>The round that starts behind \<open>freep\<close>.\<close>

lemma arena_round:
  assumes "arena_ok base s bs"
  obtains us where "lseg (hptr s) us (freep s)" and "hptr s (freep s) = hd (us @ [freep s])" and "freep s \<notin> set us"
    and "set us \<union> {freep s} = set (base # bs)" and "distinct us"
proof -
  obtain xs ys where at: "base # bs = xs @ freep s # ys" using assms by (metis arena_ok_def split_list)
  have seg: "lseg (hptr s) (xs @ freep s # ys) base" "sorted_wrt (gap s) (xs @ freep s # ys)"
    using assms unfolding arena_ok_def at by auto
  have base: "base = hd (xs @ [freep s])" using at by (cases xs) auto
  have d: "distinct (xs @ freep s # ys)" using seg(2) by (rule sorted_gap_distinct)
  show thesis
  proof (rule that [of "ys @ xs"])
    show "lseg (hptr s) (ys @ xs) (freep s)" using seg(1) base by (simp add: lseg_append)
    show "hptr s (freep s) = hd ((ys @ xs) @ [freep s])" using lseg_next [OF seg(1)] base by (cases ys) auto
    show "set (ys @ xs) \<union> {freep s} = set (base # bs)" using at by auto
  qed (use d in auto)
qed

lemma malloc_finds:
  assumes ok: "arena_ok base s bs" and n: "0 < n" and big: "\<exists>a\<in>set bs. n \<le> hsize s a"
  obtains us p vs where "bs = us @ p # vs" and "n \<le> hsize s p"
    and "malloc_scan g n (freep s) (hptr s (freep s)) s = Some (malloc_take n (last (base # us)) p s)"
proof -
  obtain ws where ws: "lseg (hptr s) ws (freep s)" "hptr s (freep s) = hd (ws @ [freep s])" "freep s \<notin> set ws"
    "set ws \<union> {freep s} = set (base # bs)" "distinct ws" using arena_round [OF ok] by metis
  let ?round = "ws @ [freep s]"
  have "\<exists>a\<in>set ?round. n \<le> hsize s a" using big ws(4) by auto
  then obtain xs p ys where at: "?round = xs @ p # ys" "n \<le> hsize s p" "\<forall>x\<in>set xs. \<not> n \<le> hsize s x"
    using split_list_first_prop [of ?round "\<lambda>a. n \<le> hsize s a"] by blast
  have "lseg (hptr s) (freep s # ?round) (hptr s (freep s))" using ws(1,2) by (simp add: lseg_append hd_append)
  then have "lseg (hptr s) ((freep s # xs) @ p # ys) (hptr s (freep s))" unfolding at(1) by simp
  then have seg: "lseg (hptr s) (freep s # xs) p" using lseg_append [of _ "freep s # xs" "p # ys"] by simp
  have round: "distinct (xs @ p # ys)" "last (xs @ p # ys) = freep s" "set (xs @ p # ys) = set (base # bs)"
    unfolding at(1) [symmetric] using ws(3,4,5) by simp_all
  then have fr: "freep s \<notin> set xs" using last_in_set [of "p # ys"] by auto
  have "malloc_scan g n (freep s) (hd (xs @ [p])) s = malloc_scan g n (last (freep s # xs)) p s"
    using seg at(3) fr by (intro malloc_scan_walk) auto
  moreover have "hptr s (freep s) = hd (xs @ [p])" using seg by simp
  ultimately have scan: "malloc_scan g n (freep s) (hptr s (freep s)) s = Some (malloc_take n (last (freep s # xs)) p s)"
    using malloc_scan_found [OF at(2)] by simp
  have "p \<in> set (base # bs)" "set xs \<subseteq> set (base # bs)" using round(3) by auto
  moreover have "p \<noteq> base" using ok at(2) n by (auto simp: arena_ok_def)
  ultimately obtain us vs where bs: "bs = us @ p # vs" by (metis set_ConsD split_list)
  have "freep s \<in> set (base # bs)" using ws(4) by blast
  then have "last (freep s # xs) \<in> set (base # bs)" using last_in_set [of "freep s # xs"] \<open>set xs \<subseteq> _\<close> by auto
  then have "last (freep s # xs) = last (base # us)" using arena_prev [of base s us p vs] ok bs lseg_last [OF seg] by simp
  then show thesis using that bs at(2) scan by metis
qed

lemma malloc_exhausted:
  assumes ok: "arena_ok base s bs" and n: "0 < n" and small: "\<forall>a\<in>set bs. hsize s a < n"
  shows "malloc_scan g n (freep s) (hptr s (freep s)) s =
    Option.bind (morecore g n s) (\<lambda>(p', s'). if p' = 0 then Some (0, s') else malloc_scan g n p' (hptr s' p') s')"
proof -
  obtain ws where ws: "lseg (hptr s) ws (freep s)" "hptr s (freep s) = hd (ws @ [freep s])" "freep s \<notin> set ws"
    "set ws \<union> {freep s} = set (base # bs)" using arena_round [OF ok] by metis
  have lt: "hsize s a < n" if "a \<in> set (base # bs)" for a using that ok n small by (auto simp: arena_ok_def)
  have "malloc_scan g n (freep s) (hptr s (freep s)) s = malloc_scan g n (last (freep s # ws)) (freep s) s"
    unfolding ws(2) using ws lt by (intro malloc_scan_walk) auto
  moreover have "hsize s (freep s) < n" using lt ws(4) by blast
  ultimately show ?thesis by (subst (asm) (2) malloc_scan.simps) (simp add: linorder_not_less [symmetric])
qed

section \<open>More memory\<close>

definition core_units :: "uint32 \<Rightarrow> uint32" where
  "core_units nu = (if nu < 4096 then 4096 else nu)"

lemma arena_ok_size:
  assumes "arena_ok base s bs" and "x \<notin> set (base # bs)"
  shows "arena_ok base (s\<lparr>brk := e, hsize := (hsize s)(x := k)\<rparr>) bs" and "free_bytes (s\<lparr>brk := e, hsize := (hsize s)(x := k)\<rparr>) bs = free_bytes s bs"
proof -
  let ?s = "s\<lparr>brk := e, hsize := (hsize s)(x := k)\<rparr>"
  have f: "hsize ?s a = hsize s a" if "a \<in> set (base # bs)" for a using that assms(2) by auto
  show "free_bytes ?s bs = free_bytes s bs" using f by (intro free_bytes_cong) auto
  have "sorted_wrt (gap ?s) (base # bs)" using assms(1) sorted_gap_cong [of "base # bs" ?s s, OF f] by (simp add: arena_ok_def)
  then show "arena_ok base ?s bs" using assms by (auto simp: arena_ok_def block_ok_def)
qed

text \<open>Where the memory of a process that ends at \<open>b\<close> can be extended by \<open>n\<close> bytes: it stays below the kernel, which has the pages.\<close>

definition grows :: "(uint32 \<Rightarrow> uint32 \<Rightarrow> bool) \<Rightarrow> uint32 \<Rightarrow> uint32 \<Rightarrow> bool" where
  "grows g b n \<longleftrightarrow> b + n < 0x80000000 \<and> g b (b + n)"

lemma positive_int: "0 < unat n \<Longrightarrow> unat n < 2 ^ 31 \<Longrightarrow> 0 <s (n :: sint32)"
proof -
  assume n: "0 < unat n" "unat n < 2 ^ 31"
  have "unat n < 2147483648" using n(2) by simp
  then have u: "uint n < 2147483648" "0 < uint n" using n(1) uint_nat [of n] by linarith+
  then have "sint n = uint n" by (simp add: sint_uint signed_take_bit_int_eq_self)
  then show ?thesis using u(2) by (simp add: word_sless_alt)
qed

lemma sbrk_grow:
  assumes "brk s < 0x80000000" and "0 < unat n" and "unat n < 2 ^ 31"
  shows "sbrk g n s = (if grows g (brk s) n then (brk s, s\<lparr>brk := brk s + n\<rparr>) else (- 1, s))"
    and "unat (brk s + n) = unat (brk s) + unat n"
proof -
  show u: "unat (brk s + n) = unat (brk s) + unat n"
    using assms unat_sum [of "brk s" n] by (simp add: word_less_nat_alt)
  then have "\<not> brk s + n < brk s" "brk s + n \<noteq> 0" using assms(2) by (auto simp: word_less_nat_alt unat_eq_0)
  then show "sbrk g n s = (if grows g (brk s) n then (brk s, s\<lparr>brk := brk s + n\<rparr>) else (- 1, s))"
    using positive_int [OF assms(2,3)]
    by (cases "0x80000000 \<le> brk s + n") (auto simp: sbrk_def growproc_sz_def grows_def Let_def linorder_not_le)
qed

lemma core_units_bytes:
  assumes "unat n < 2 ^ 28"
  shows "unat (core_units n * 8) = 8 * unat (core_units n)" and "0 < unat (core_units n * 8)" and "unat (core_units n * 8) < 2 ^ 31"
proof -
  show u: "unat (core_units n * 8) = 8 * unat (core_units n)"
    using assms by (subst unat_mult_lem [THEN iffD1]) (auto simp: core_units_def)
  show "0 < unat (core_units n * 8)" "unat (core_units n * 8) < 2 ^ 31"
    unfolding u using assms by (auto simp: core_units_def word_less_nat_alt)
qed

lemma morecore_ok:
  assumes ok: "arena_ok base s bs" and below: "free_bytes s bs \<subseteq> {..<unat (brk s)}" "base < brk s" and top: "brk s < 0x80000000"
    and g: "grows g (brk s) (core_units n * 8)" and n: "unat n < 2 ^ 28"
  obtains s' cs where "morecore g n s = Some (freep s', s')" and "arena_ok base s' cs"
    and "free_bytes s' cs = free_bytes s bs \<union> {unat (brk s)..<unat (brk s')}" and "brk s' = brk s + core_units n * 8" and "brk s < brk s'"
    and "\<forall>x. unat x \<notin> free_bytes s' cs \<longrightarrow> hsize s' x = hsize s x" and "\<exists>a\<in>set cs. n \<le> hsize s' a"
proof -
  let ?k = "core_units n" and ?b = "brk s"
  let ?s = "s\<lparr>brk := ?b + ?k * 8, hsize := (hsize s)(?b := ?k)\<rparr>"
  have k: "unat (?k * 8) = 8 * unat ?k" "4096 \<le> unat ?k" "n \<le> ?k"
    using core_units_bytes [OF n] by (auto simp: core_units_def word_less_nat_alt word_le_nat_alt)
  note sb = sbrk_grow [OF top core_units_bytes(2,3) [OF n]]
  have ub: "unat (?b + ?k * 8) = unat ?b + 8 * unat ?k" using sb(2) k(1) by simp
  have fit: "unat ?b + 8 * unat ?k < 2 ^ 32" using ub unsigned_less [of "?b + ?k * 8", where ?'a = nat] by simp
  have nb: "?b \<notin> set (base # bs)" using ok below block_at by (fastforce simp: arena_ok_def free_bytes_def)
  have ok': "arena_ok base ?s bs" "free_bytes ?s bs = free_bytes s bs" using arena_ok_size [OF ok nb] by auto
  have b: "block_ok ?s ?b" "blk ?s ?b = {unat ?b..<unat ?b + 8 * unat ?k}"
    using fit k(2) by (auto simp: block_ok_def blk_def word_less_nat_alt)
  have dj: "blk ?s ?b \<inter> free_bytes ?s bs = {}" "base < ?b" using below ok'(2) b(2) by auto
  obtain s' cs where f: "free (hplus ?b 1) ?s = Some s'" "arena_ok base s' cs" "free_bytes s' cs = free_bytes ?s bs \<union> blk ?s ?b" "brk s' = brk ?s"
    "\<forall>x. unat x \<notin> free_bytes s' cs \<longrightarrow> hsize s' x = hsize ?s x" "\<exists>a\<in>set cs. blk ?s ?b \<subseteq> blk s' a"
    by (rule free_ok [OF ok'(1) b(1) dj(2,1)])
  have "?b \<noteq> - 1" using fit k(2) by (auto simp: unsigned_minus_1_eq_mask mask_eq_exp_minus_1)
  then have m: "morecore g n s = Some (freep s', s')" using f(1) g sb(1) by (simp add: morecore_def core_units_def [symmetric] Let_def)
  show thesis
  proof
    show "free_bytes s' cs = free_bytes s bs \<union> {unat (brk s)..<unat (brk s')}" using f(3,4) ok'(2) b(2) ub by simp
    show "brk s < brk s'" using f(4) ub k(2) by (simp add: word_less_nat_alt)
    have "unat ?b \<in> free_bytes s' cs" using f(3) block_at [OF b(1)] by simp
    then show "\<forall>x. unat x \<notin> free_bytes s' cs \<longrightarrow> hsize s' x = hsize s x" using f(5) by fastforce
    obtain a where a: "a \<in> set cs" "blk ?s ?b \<subseteq> blk s' a" using f(6) by blast
    then have "8 * unat ?k \<le> 8 * unat (hsize s' a)" using card_mono [of "blk s' a" "blk ?s ?b"] by (simp add: blk_def)
    then show "\<exists>a\<in>set cs. n \<le> hsize s' a" using a(1) k(3) by (auto simp: word_le_nat_alt intro!: bexI [of _ a])
  qed (use m f in simp_all)
qed

text \<open>The outcome of a successful call: the block \<open>a\<close> of \<open>n\<close> units comes from what was free or has been got from the
  kernel, and the rest of that is free.\<close>

definition taken :: "uint32 \<Rightarrow> arena \<Rightarrow> uint32 list \<Rightarrow> arena \<Rightarrow> uint32 list \<Rightarrow> uint32 \<Rightarrow> uint32 \<Rightarrow> bool" where
  "taken base s bs s' cs a n \<longleftrightarrow>
     arena_ok base s' cs \<and> hsize s' a = n \<and> block_ok s' a \<and> base < a \<and> brk s \<le> brk s'
     \<and> blk s' a \<subseteq> free_bytes s bs \<union> {unat (brk s)..<unat (brk s')}
     \<and> free_bytes s' cs = (free_bytes s bs \<union> {unat (brk s)..<unat (brk s')}) - blk s' a
     \<and> (\<forall>x. unat x \<notin> free_bytes s bs \<union> {unat (brk s)..<unat (brk s')} \<longrightarrow> hsize s' x = hsize s x)"

lemma malloc_take_ok:
  assumes ok: "arena_ok base s (us @ p # vs)" and n: "0 < n" "n \<le> hsize s p" and s': "(r, s') = malloc_take n (last (base # us)) p s"
  shows "\<exists>cs a. r = hplus a 1 \<and> taken base s (us @ p # vs) s' cs a n"
proof (cases "hsize s p = n")
  case True
  note f = malloc_take_all [OF ok True s']
  have p: "block_ok s p" "base < p" using ok gap_less [of s base p] by (auto simp: arena_ok_def)
  have "taken base s (us @ p # vs) s' (us @ vs) p n"
    using f p True unfolding taken_def by (auto simp: block_ok_def blk_def)
  then show ?thesis using f(2) by blast
next
  case False
  let ?bs = "us @ p # vs" and ?q = "hplus p (hsize s p - n)"
  have lt: "n < hsize s p" using False n(2) by simp
  have p: "p \<in> set ?bs" "last (base # us) \<in> set (base # ?bs)" using last_in_set [of "base # us"] by auto
  note f = malloc_take_part [OF ok p n(1) lt s' refl]
  have pb: "base < p" "unat p + 8 * unat (hsize s p) < 2 ^ 32" "unat p \<in> blk s p"
    using ok gap_less [of s base p] block_at [of s p] by (auto simp: arena_ok_def block_ok_def)
  have "unat ?q \<in> blk s' ?q" using f(3) n(1) by (simp add: blk_def word_less_nat_alt)
  then have q: "unat ?q \<in> blk s p" using f(5) by blast
  have "hsize s' x = hsize s x" if "unat x \<notin> free_bytes s ?bs" for x
    using that pb(3) q f(6) [of x] by auto
  then have "taken base s ?bs s' ?bs ?q n"
    using f pb n(1) unfolding taken_def by (auto simp: block_ok_def)
  then show ?thesis using f(2) by blast
qed

lemma malloc_scan_ok:
  assumes ok: "arena_ok base s bs" and below: "free_bytes s bs \<subseteq> {..<unat (brk s)}" "base < brk s" "base \<noteq> 0"
    and top: "brk s < 0x80000000" and n: "0 < n" "unat n < 2 ^ 28"
  obtains (refused) "malloc_scan g n (freep s) (hptr s (freep s)) s = Some (0, s)" and "\<not> grows g (brk s) (core_units n * 8)"
  | (granted) a cs s' where "malloc_scan g n (freep s) (hptr s (freep s)) s = Some (hplus a 1, s')" and "taken base s bs s' cs a n"
    and "brk s' < 0x80000000"
proof (cases "\<exists>a\<in>set bs. n \<le> hsize s a")
  case True
  then obtain us p vs where at: "bs = us @ p # vs" "n \<le> hsize s p"
    "malloc_scan g n (freep s) (hptr s (freep s)) s = Some (malloc_take n (last (base # us)) p s)" by (rule malloc_finds [OF ok n(1)])
  obtain r s' where rs: "(r, s') = malloc_take n (last (base # us)) p s" by (metis surj_pair)
  obtain cs a where "r = hplus a 1" "taken base s bs s' cs a n" using malloc_take_ok [of base s us p vs n r s'] ok at n(1) rs by blast
  moreover have "brk s' = brk s" using rs by (auto simp: malloc_take_def Let_def split: if_splits)
  ultimately show thesis using granted at(3) rs top by metis
next
  case False
  then have none: "malloc_scan g n (freep s) (hptr s (freep s)) s =
      Option.bind (morecore g n s) (\<lambda>(p', s'). if p' = 0 then Some (0, s') else malloc_scan g n p' (hptr s' p') s')"
    by (intro malloc_exhausted [OF ok n(1)]) auto
  show thesis
  proof (cases "grows g (brk s) (core_units n * 8)")
    case False
    then have "morecore g n s = Some (0, s)" using sbrk_grow(1) [OF top core_units_bytes(2,3) [OF n(2)], of g]
      by (simp add: morecore_def core_units_def [symmetric] Let_def)
    then show thesis using refused none False by simp
  next
    case True
    obtain s1 cs where m: "morecore g n s = Some (freep s1, s1)" "arena_ok base s1 cs" "free_bytes s1 cs = free_bytes s bs \<union> {unat (brk s)..<unat (brk s1)}"
      "brk s1 = brk s + core_units n * 8" "brk s < brk s1" "\<forall>x. unat x \<notin> free_bytes s1 cs \<longrightarrow> hsize s1 x = hsize s x" "\<exists>a\<in>set cs. n \<le> hsize s1 a"
      by (rule morecore_ok [OF ok below(1,2) top True n(2)])
    have "freep s1 \<noteq> 0"
    proof -
      have "freep s1 \<in> set (base # cs)" "\<forall>a\<in>set cs. base < a" using m(2) gap_less by (auto simp: arena_ok_def)
      then show ?thesis using below(3) by auto
    qed
    then have scan: "malloc_scan g n (freep s) (hptr s (freep s)) s = malloc_scan g n (freep s1) (hptr s1 (freep s1)) s1"
      using none m(1) by simp
    obtain us p vs where at: "cs = us @ p # vs" "n \<le> hsize s1 p"
      "malloc_scan g n (freep s1) (hptr s1 (freep s1)) s1 = Some (malloc_take n (last (base # us)) p s1)"
      by (rule malloc_finds [OF m(2) n(1) m(7)])
    obtain r s' where rs: "(r, s') = malloc_take n (last (base # us)) p s1" by (metis surj_pair)
    obtain ds a where a: "r = hplus a 1" "taken base s1 cs s' ds a n" using malloc_take_ok [of base s1 us p vs n r s'] m(2) at n(1) rs by blast
    have b: "brk s' = brk s1" using rs by (auto simp: malloc_take_def Let_def split: if_splits)
    then have "taken base s bs s' ds a n" using a(2) m(3,5,6) by (auto simp: taken_def)
    moreover have "brk s' < 0x80000000" using b m(4) True by (simp add: grows_def)
    ultimately show thesis using granted scan at(3) rs a(1) by metis
  qed
qed

section \<open>A program that uses the allocator\<close>

text \<open>A program starts with the static variables zero and its memory ending behind \<^verbatim>\<open>base\<close> and below the kernel. It calls
  \<^verbatim>\<open>malloc\<close> for at most \<^verbatim>\<open>0x7ffffff0\<close> bytes, so that the number of bytes asked of the kernel is positive as an \<^verbatim>\<open>int\<close>, calls \<^verbatim>\<open>free\<close> on a
  pointer that it holds, and may call \<^verbatim>\<open>sbrk\<close> itself to extend its memory. The set holds the pointers it has been given and has
  not freed.\<close>

inductive uses :: "(uint32 \<Rightarrow> uint32 \<Rightarrow> bool) \<Rightarrow> uint32 \<Rightarrow> arena \<Rightarrow> uint32 set \<Rightarrow> bool" for g base where
  start: "freep s = 0 \<Longrightarrow> base \<noteq> 0 \<Longrightarrow> base < brk s \<Longrightarrow> brk s < 0x80000000 \<Longrightarrow> uses g base s {}"
| malloc: "uses g base s A \<Longrightarrow> nbytes \<le> 0x7ffffff0 \<Longrightarrow> malloc g base nbytes s = Some (r, s') \<Longrightarrow>
    uses g base s' (if r = 0 then A else insert r A)"
| free: "uses g base s A \<Longrightarrow> r \<in> A \<Longrightarrow> free r s = Some s' \<Longrightarrow> uses g base s' (A - {r})"
| sbrk: "uses g base s A \<Longrightarrow> 0 \<le>s n \<Longrightarrow> sbrk g n s = (r, s') \<Longrightarrow> uses g base s' A"

definition held_ok :: "uint32 \<Rightarrow> arena \<Rightarrow> uint32 list \<Rightarrow> uint32 \<Rightarrow> bool" where
  "held_ok base s bs r \<longleftrightarrow>
     block_ok s (r - 8) \<and> base < r - 8 \<and> blk s (r - 8) \<subseteq> {..<unat (brk s)} \<and> blk s (r - 8) \<inter> free_bytes s bs = {}"

definition heap_inv :: "uint32 \<Rightarrow> arena \<Rightarrow> uint32 list \<Rightarrow> uint32 set \<Rightarrow> bool" where
  "heap_inv base s bs A \<longleftrightarrow>
     arena_ok base s bs \<and> base \<noteq> 0 \<and> base < brk s \<and> brk s < 0x80000000 \<and> free_bytes s bs \<subseteq> {..<unat (brk s)} \<and> (\<forall>r\<in>A. held_ok base s bs r)
     \<and> (\<forall>r\<in>A. \<forall>q\<in>A. r \<noteq> q \<longrightarrow> blk s (r - 8) \<inter> blk s (q - 8) = {})"

lemma held_other:
  assumes "held_ok base s bs q" and "unat (q - 8) \<notin> F" and "\<forall>x. unat x \<notin> F \<longrightarrow> hsize s' x = hsize s x"
  shows "hsize s' (q - 8) = hsize s (q - 8)" and "blk s' (q - 8) = blk s (q - 8)" and "block_ok s' (q - 8)"
  using assms by (auto simp: held_ok_def blk_def block_ok_def)

lemma heap_free:
  assumes inv: "heap_inv base s bs A" and r: "r \<in> A"
  obtains s' cs where "free r s = Some s'" and "heap_inv base s' cs (A - {r})"
proof -
  let ?b = "r - 8"
  have b: "arena_ok base s bs" "block_ok s ?b" "base < ?b" "blk s ?b \<inter> free_bytes s bs = {}" "blk s ?b \<subseteq> {..<unat (brk s)}"
    using inv r by (auto simp: heap_inv_def held_ok_def)
  obtain s' cs where f: "free (hplus ?b 1) s = Some s'" "arena_ok base s' cs" "free_bytes s' cs = free_bytes s bs \<union> blk s ?b" "brk s' = brk s"
    "\<forall>x. unat x \<notin> free_bytes s' cs \<longrightarrow> hsize s' x = hsize s x" by (rule free_ok [OF b(1-4)])
  have q: "hsize s' (q - 8) = hsize s (q - 8)" "blk s' (q - 8) = blk s (q - 8)" "block_ok s' (q - 8)" "blk s (q - 8) \<inter> free_bytes s' cs = {}"
    "held_ok base s bs q" if "q \<in> A - {r}" for q
  proof -
    show h: "held_ok base s bs q" using that inv by (simp add: heap_inv_def)
    have "blk s (q - 8) \<inter> blk s ?b = {}" using that inv r by (simp add: heap_inv_def)
    then show d: "blk s (q - 8) \<inter> free_bytes s' cs = {}" using h f(3) by (auto simp: held_ok_def)
    have "unat (q - 8) \<in> blk s (q - 8)" using h block_at by (simp add: held_ok_def)
    then have "unat (q - 8) \<notin> free_bytes s' cs" using d by blast
    then show "hsize s' (q - 8) = hsize s (q - 8)" "blk s' (q - 8) = blk s (q - 8)" "block_ok s' (q - 8)" using held_other [OF h _ f(5)] by auto
  qed
  have "held_ok base s' cs q" if "q \<in> A - {r}" for q using q [OF that] f(4) by (simp add: held_ok_def)
  moreover have "blk s' (p - 8) \<inter> blk s' (q - 8) = {}" if "p \<in> A - {r}" "q \<in> A - {r}" "p \<noteq> q" for p q
    using q(2) that inv by (simp add: heap_inv_def)
  ultimately have "heap_inv base s' cs (A - {r})" using inv f b(5) by (simp add: heap_inv_def)
  moreover have "free r s = Some s'" using f(1) by (simp add: hplus_def)
  ultimately show thesis using that by blast
qed

lemma malloc_units_range:
  assumes "nbytes \<le> 0x7ffffff0"
  shows "0 < malloc_units nbytes" and "unat (malloc_units nbytes) < 2 ^ 28" and "unat nbytes \<le> 8 * (unat (malloc_units nbytes) - 1)"
proof -
  have n: "unat nbytes \<le> 0x7ffffff0" using assms by (simp add: word_le_nat_alt)
  then have "unat (nbytes + 8 - 1) = unat nbytes + 7" using unat_sum [of 7 nbytes] by simp
  then have "unat ((nbytes + 8 - 1) div 8) = (unat nbytes + 7) div 8" by (simp add: unat_div)
  then have "unat (malloc_units nbytes) = Suc ((unat nbytes + 7) div 8)"
    using n unat_sum [of "(nbytes + 8 - 1) div 8" 1] by (simp add: malloc_units_def)
  then show "0 < malloc_units nbytes" "unat (malloc_units nbytes) < 2 ^ 28" "unat nbytes \<le> 8 * (unat (malloc_units nbytes) - 1)"
    using n by (auto simp: word_less_nat_alt)
qed

text \<open>What a call of \<^verbatim>\<open>malloc\<close> gives: nothing, where the memory cannot be extended as needed, or a new pointer to enough bytes; the
  blocks held before keep their sizes.\<close>

definition malloc_gives :: "(uint32 \<Rightarrow> uint32 \<Rightarrow> bool) \<Rightarrow> uint32 \<Rightarrow> arena \<Rightarrow> uint32 set \<Rightarrow> uint32 \<Rightarrow> arena \<Rightarrow> bool" where
  "malloc_gives g nbytes s A r s' \<longleftrightarrow>
     (\<forall>q\<in>A. hsize s' (q - 8) = hsize s (q - 8))
     \<and> (if r = 0 then \<not> grows g (brk s) (core_units (malloc_units nbytes) * 8)
        else r \<notin> A \<and> unat nbytes \<le> 8 * (unat (hsize s' (r - 8)) - 1))"

lemma heap_taken:
  assumes inv: "heap_inv base s bs A" and tk: "taken base s bs s' cs a n" and top: "brk s' < 0x80000000"
  shows "heap_inv base s' cs (insert (hplus a 1) A)" and "hplus a 1 \<notin> A" and "hplus a 1 \<noteq> 0"
    and "\<forall>q\<in>A. hsize s' (q - 8) = hsize s (q - 8)"
proof -
  let ?F = "free_bytes s bs \<union> {unat (brk s)..<unat (brk s')}"
  have a: "arena_ok base s' cs" "block_ok s' a" "base < a" "brk s \<le> brk s'" "blk s' a \<subseteq> ?F" "free_bytes s' cs = ?F - blk s' a"
    "\<forall>x. unat x \<notin> ?F \<longrightarrow> hsize s' x = hsize s x" using tk by (auto simp: taken_def)
  have le: "unat (brk s) \<le> unat (brk s')" using a(4) by (simp add: word_le_nat_alt)
  have q: "held_ok base s bs q" "blk s (q - 8) \<inter> ?F = {}" "blk s' (q - 8) = blk s (q - 8)" "block_ok s' (q - 8)"
    "hsize s' (q - 8) = hsize s (q - 8)" "unat (q - 8) \<notin> ?F" if "q \<in> A" for q
  proof -
    show h: "held_ok base s bs q" using that inv by (simp add: heap_inv_def)
    then show d: "blk s (q - 8) \<inter> ?F = {}" by (fastforce simp: held_ok_def)
    show nf: "unat (q - 8) \<notin> ?F" using d h block_at [of s "q - 8"] by (auto simp: held_ok_def)
    show "blk s' (q - 8) = blk s (q - 8)" "block_ok s' (q - 8)" "hsize s' (q - 8) = hsize s (q - 8)"
      using held_other [OF h nf a(7)] by auto
  qed
  show "\<forall>q\<in>A. hsize s' (q - 8) = hsize s (q - 8)" using q(5) by blast
  have minus: "hplus a 1 - 8 = a" by (simp add: hplus_def)
  show "hplus a 1 \<notin> A" using q(6) [of "hplus a 1"] minus block_at [OF a(2)] a(5) by auto
  show "hplus a 1 \<noteq> 0" using a(2) hplus_unat [of a 1] by (auto simp: block_ok_def word_less_nat_alt)
  have F: "?F \<subseteq> {..<unat (brk s')}" using inv le by (auto simp: heap_inv_def)
  have "held_ok base s' cs (hplus a 1)" unfolding held_ok_def minus using a F by auto
  moreover have "held_ok base s' cs q" if "q \<in> A" for q
    using q [OF that] a(6) le by (auto simp: held_ok_def)
  moreover have "blk s' (q - 8) \<inter> blk s' a = {}" if "q \<in> A" for q using q(2,3) [OF that] a(5) by auto
  moreover have "blk s' (p - 8) \<inter> blk s' (q - 8) = {}" if "p \<in> A" "q \<in> A" "p \<noteq> q" for p q
    using q(3) that inv by (simp add: heap_inv_def)
  ultimately show "heap_inv base s' cs (insert (hplus a 1) A)"
    using inv a(1,4,6) F minus top by (auto simp: heap_inv_def)
qed

lemma heap_malloc:
  assumes inv: "heap_inv base s bs A" and n: "nbytes \<le> 0x7ffffff0"
  obtains r s' cs where "malloc g base nbytes s = Some (r, s')" and "heap_inv base s' cs (if r = 0 then A else insert r A)"
    and "malloc_gives g nbytes s A r s'"
proof -
  let ?n = "malloc_units nbytes"
  note n' = malloc_units_range [OF n]
  have ok: "arena_ok base s bs" "free_bytes s bs \<subseteq> {..<unat (brk s)}" "base < brk s" "base \<noteq> 0" "brk s < 0x80000000" using inv by (auto simp: heap_inv_def)
  have "freep s \<in> set (base # bs)" "\<forall>a\<in>set bs. base < a" using ok(1) gap_less by (auto simp: arena_ok_def)
  then have "freep s \<noteq> 0" using ok(4) by auto
  then have eq: "malloc g base nbytes s = malloc_scan g ?n (freep s) (hptr s (freep s)) s" by (simp add: malloc_def malloc_init_def)
  show thesis
  proof (rule malloc_scan_ok [OF ok n'(1,2), of g])
    assume "malloc_scan g ?n (freep s) (hptr s (freep s)) s = Some (0, s)" "\<not> grows g (brk s) (core_units ?n * 8)"
    then show thesis using that [of 0 s bs] eq inv by (simp add: malloc_gives_def)
  next
    fix a cs s' assume "malloc_scan g ?n (freep s) (hptr s (freep s)) s = Some (hplus a 1, s')" and tk: "taken base s bs s' cs a ?n" "brk s' < 0x80000000"
    moreover have "hsize s' (hplus a 1 - 8) = ?n" using tk(1) by (simp add: taken_def hplus_def)
    ultimately show thesis using that [of "hplus a 1" s' cs] eq heap_taken [OF inv tk(1,2)] n'(3) by (simp add: malloc_gives_def)
  qed
qed

lemma malloc_first:
  assumes "freep s = 0" and "base \<noteq> 0" and "base < brk s" and "brk s < 0x80000000"
  shows "malloc g base nbytes s = malloc g base nbytes (malloc_init base s)" and "heap_inv base (malloc_init base s) [] {}"
    and "brk (malloc_init base s) = brk s"
  using assms by (simp_all add: malloc_def malloc_init_def heap_inv_def arena_ok_def)

definition heap_state :: "uint32 \<Rightarrow> arena \<Rightarrow> uint32 set \<Rightarrow> bool" where
  "heap_state base s A \<longleftrightarrow> (freep s = 0 \<and> base \<noteq> 0 \<and> base < brk s \<and> brk s < 0x80000000 \<and> A = {}) \<or> (\<exists>bs. heap_inv base s bs A)"

lemma malloc_state:
  assumes st: "heap_state base s A" and n: "nbytes \<le> 0x7ffffff0"
  obtains r s' where "malloc g base nbytes s = Some (r, s')" and "heap_state base s' (if r = 0 then A else insert r A)"
    and "malloc_gives g nbytes s A r s'"
proof -
  consider bs where "heap_inv base s bs A" | "freep s = 0" "base \<noteq> 0" "base < brk s" "brk s < 0x80000000" "A = {}" using st by (auto simp: heap_state_def)
  then show thesis
  proof cases
    case 1
    then show thesis using that heap_malloc [OF _ n] by (metis heap_state_def)
  next
    case 2
    note f = malloc_first [OF 2(1-4)]
    from f(2) obtain r s' cs where "malloc g base nbytes (malloc_init base s) = Some (r, s')" "heap_inv base s' cs (if r = 0 then {} else insert r {})"
      "malloc_gives g nbytes (malloc_init base s) {} r s'" by (rule heap_malloc [OF _ n])
    then show thesis using 2(5) f(1,3) by (intro that [of r s']) (auto simp: heap_state_def malloc_gives_def split: if_splits)
  qed
qed

lemma heap_inv_brk:
  assumes "heap_inv base s bs A" and "brk s \<le> e" and "e < 0x80000000"
  shows "heap_inv base (s\<lparr>brk := e\<rparr>) bs A"
proof -
  have "gap (s\<lparr>brk := e\<rparr>) = gap s" "blk (s\<lparr>brk := e\<rparr>) = blk s" "block_ok (s\<lparr>brk := e\<rparr>) = block_ok s" "free_bytes (s\<lparr>brk := e\<rparr>) = free_bytes s"
    by (simp_all add: gap_def blk_def block_ok_def free_bytes_def fun_eq_iff)
  then show ?thesis using assms by (fastforce simp: heap_inv_def held_ok_def arena_ok_def word_le_nat_alt word_less_nat_alt)
qed

text \<open>A call that does not shrink the memory leaves its end where it is or moves it up, below the kernel.\<close>

lemma sbrk_up:
  assumes "sbrk g n s = (r, s')" and "0 \<le>s n" and "brk s < 0x80000000"
  shows "\<exists>e. s' = s\<lparr>brk := e\<rparr> \<and> brk s \<le> e \<and> e < 0x80000000"
proof (cases "n = 0")
  case True
  then show ?thesis using assms by (intro exI [of _ "brk s"]) (auto simp: sbrk_def growproc_sz_def)
next
  case False
  have "0 \<le> sint n" "sint n < 2147483648" using assms(2) sint_less [of n] by (simp_all add: word_sle_eq)
  then have "uint n = sint n" "uint n < 2147483648" by (simp_all add: uint_sint take_bit_int_eq_self)
  then have "unat n < 2147483648" using uint_nat [of n] by linarith
  then have n: "0 < unat n" "unat n < 2 ^ 31" using False by (simp_all add: unat_gt_0)
  note g = sbrk_grow(1) [OF assms(3) n, of g] sbrk_grow(2) [OF assms(3) n]
  show ?thesis
  proof (cases "grows g (brk s) n")
    case True
    then show ?thesis using assms(1) g by (intro exI [of _ "brk s + n"]) (auto simp: grows_def word_le_nat_alt)
  next
    case False
    then show ?thesis using assms(1,3) g(1) by (intro exI [of _ "brk s"]) auto
  qed
qed

lemma uses_state: "uses g base s A \<Longrightarrow> heap_state base s A"
proof (induction rule: uses.induct)
  case (malloc s A nbytes r s')
  then show ?case using malloc_state [of base s A nbytes g] by (metis option.inject prod.inject)
next
  case (free s A r s')
  then obtain bs where "heap_inv base s bs A" by (auto simp: heap_state_def)
  then show ?case using heap_free [of base s bs A r] free.hyps by (metis heap_state_def option.inject)
next
  case (sbrk s A n r s')
  have "brk s < 0x80000000" using sbrk.IH by (auto simp: heap_state_def heap_inv_def)
  then obtain e where "s' = s\<lparr>brk := e\<rparr>" "brk s \<le> e" "e < 0x80000000" using sbrk_up sbrk.hyps by blast
  then show ?case using sbrk.IH heap_inv_brk less_le_trans by (fastforce simp: heap_state_def)
qed (simp add: heap_state_def)

section \<open>Properties\<close>

text \<open>C13. The allocator of the user library never runs forever and never gives out a byte twice. In every state that a
  program can reach by calls of \<^verbatim>\<open>malloc\<close> for at most \<^verbatim>\<open>0x7ffffff0\<close> bytes, of \<^verbatim>\<open>free\<close>, and of \<^verbatim>\<open>sbrk\<close> to extend its memory, the
  search of \<^verbatim>\<open>malloc\<close> through the circular list ends: with a null pointer only where the memory cannot be extended as
  needed, and otherwise with a pointer the program does not hold, to at least the bytes asked for, while every block in use
  keeps its size. The search of \<^verbatim>\<open>free\<close> for its place ends for every pointer in use, and the blocks in use are disjoint and
  lie below the end of the memory.\<close>

theorem malloc_free_safe:
  assumes "uses g base s A"
  shows "(\<forall>nbytes. nbytes \<le> 0x7ffffff0 \<longrightarrow> (\<exists>r s'. malloc g base nbytes s = Some (r, s') \<and> malloc_gives g nbytes s A r s'))
    \<and> (\<forall>r\<in>A. \<exists>s'. free r s = Some s')
    \<and> (\<forall>r\<in>A. blk s (r - 8) \<subseteq> {..<unat (brk s)})
    \<and> (\<forall>r\<in>A. \<forall>q\<in>A. r \<noteq> q \<longrightarrow> blk s (r - 8) \<inter> blk s (q - 8) = {})"
proof -
  have st: "heap_state base s A" using assms by (rule uses_state)
  have "\<exists>r s'. malloc g base nbytes s = Some (r, s') \<and> malloc_gives g nbytes s A r s'" if "nbytes \<le> 0x7ffffff0" for nbytes
    using malloc_state [OF st that] by metis
  moreover have "\<exists>s'. free r s = Some s'" if "r \<in> A" for r
    using st that heap_free by (metis heap_state_def empty_iff)
  moreover have "blk s (r - 8) \<subseteq> {..<unat (brk s)}" if "r \<in> A" for r
    using st that by (auto simp: heap_state_def heap_inv_def held_ok_def)
  moreover have "blk s (r - 8) \<inter> blk s (q - 8) = {}" if "r \<in> A" "q \<in> A" "r \<noteq> q" for r q
    using st that unfolding heap_state_def heap_inv_def by blast
  ultimately show ?thesis by blast
qed

definition demo_arena :: arena where
  "demo_arena = \<lparr>freep = 0, hptr = (\<lambda>_. 0), hsize = (\<lambda>_. 0), brk = 0x3000\<rparr>"

text \<open>A kernel with pages for 64 megabytes.\<close>

definition demo_grant :: "uint32 \<Rightarrow> uint32 \<Rightarrow> bool" where
  "demo_grant b e \<longleftrightarrow> e \<le> 0x4000000"

lemma demo_uses: "uses demo_grant 0x1000 demo_arena {}"
  by (auto simp: demo_arena_def intro: uses.start)

theorem malloc_free_safe_witness:
  "\<exists>s r. uses demo_grant 0x1000 s {r} \<and> 99 \<le> 8 * (unat (hsize s (r - 8)) - 1) \<and> (\<exists>s'. free r s = Some s')"
proof -
  have "(99 :: uint32) \<le> 0x7ffffff0" by simp
  then obtain r s where m: "malloc demo_grant 0x1000 99 demo_arena = Some (r, s)" "malloc_gives demo_grant 99 demo_arena {} r s"
    using malloc_free_safe [OF demo_uses] by blast
  have "r \<noteq> 0" using m(2) by (auto simp: malloc_gives_def grows_def demo_grant_def demo_arena_def malloc_units_def core_units_def)
  moreover from this have u: "uses demo_grant 0x1000 s {r}" using uses.malloc [OF demo_uses _ m(1)] by simp
  ultimately show ?thesis using m(2) malloc_free_safe [OF u] by (auto simp: malloc_gives_def)
qed

text \<open>Larger requests: from \<^verbatim>\<open>0x7ffffff1\<close> bytes on, \<^verbatim>\<open>morecore\<close> asks the kernel for a negative number of bytes, which
  \<^verbatim>\<open>growproc\<close> accepts without extending the memory, so that the block given out lies behind its end; and
  \<^verbatim>\<open>malloc\<close> of \<open>2 ^ 32 - 1\<close> bytes asks for one unit, which is the header alone.\<close>

lemma malloc_wraps:
  "malloc_units 0xffffffff = 1" "sint (core_units (malloc_units 0x7ffffff1) * 8) < 0"
  "sbrk g (core_units (malloc_units 0x7ffffff1) * 8) demo_arena = (0x3000, demo_arena)"
  by (simp_all add: malloc_units_def core_units_def sbrk_def growproc_sz_def demo_arena_def word_sless_alt)

end
