(* ===== verification/Grep.thy ===== *)
theory Grep
  imports Fs
begin

text \<open>
  The user program \<^verbatim>\<open>grep.c\<close>. A string is the list of its bytes without the terminating zero, which is what
  \<^term>\<open>head0\<close> of an empty list reads. The matcher is proved equal to the meaning of patterns, and the loop
  over the input is proved to print the matching lines as long as every read completes a line.
\<close>

section \<open>\<^verbatim>\<open>grep.c\<close>\<close>

lemma head0_pos: "head0 xs \<noteq> 0 \<Longrightarrow> 0 < length xs" "head0 (tl xs) = 42 \<Longrightarrow> Suc 0 < length xs"
  by (cases xs; cases "tl xs"; simp)+

lemma tl_less: "xs \<noteq> [] \<Longrightarrow> 2 * (length ys - Suc 0) + 2 * (length xs - Suc 0) < 2 * length ys + 2 * length xs"
  "xs \<noteq> [] \<Longrightarrow> length xs - Suc 0 < length xs"
  by (cases xs; simp)+

function matchhere :: "uchar list \<Rightarrow> uchar list \<Rightarrow> bool"
  and matchstar :: "uchar \<Rightarrow> uchar list \<Rightarrow> uchar list \<Rightarrow> bool" where
  "matchhere re tx =
     (if head0 re = 0 then True
      else if head0 (tl re) = 42 then matchstar (head0 re) (tl (tl re)) tx
      else if head0 re = 36 \<and> head0 (tl re) = 0 then head0 tx = 0
      else if head0 tx \<noteq> 0 \<and> (head0 re = 46 \<or> head0 re = head0 tx) then matchhere (tl re) (tl tx)
      else False)"
| "matchstar c re tx =
     (if matchhere re tx then True
      else if head0 tx \<noteq> 0 \<and> (head0 tx = c \<or> c = 46) then matchstar c re (tl tx)
      else False)"
  by pat_completeness auto
termination
  by (relation "measure (case_sum (\<lambda>(re, tx). 2 * (length re + length tx)) (\<lambda>(c, re, tx). Suc (2 * (length re + length tx))))")
    (auto dest!: head0_pos simp: tl_less)

declare matchhere.simps [simp del] matchstar.simps [simp del]

text \<open>The \<^verbatim>\<open>do\<close> loop of \<^verbatim>\<open>match\<close> tries every suffix, the empty one included.\<close>

primrec match_from :: "uchar list \<Rightarrow> uchar list \<Rightarrow> bool" where
  "match_from re [] = matchhere re []"
| "match_from re (c # tx) = (if matchhere re (c # tx) then True else if c \<noteq> 0 then match_from re tx else False)"

definition match :: "uchar list \<Rightarrow> uchar list \<Rightarrow> bool" where
  "match re tx = (if head0 re = 94 then matchhere (tl re) tx else match_from re tx)"

text \<open>The inner loop of \<^verbatim>\<open>grep\<close> on the bytes of the buffer: what it prints, and what follows the last newline. \<^verbatim>\<open>strchr\<close> finds
  no newline after a zero byte.\<close>

function grep_lines :: "uchar list \<Rightarrow> uchar list \<Rightarrow> uchar list \<times> uchar list" where
  "grep_lines pat p =
     (let q = takeWhile (\<lambda>c. c \<noteq> 10 \<and> c \<noteq> 0) p in
      if head0 (drop (length q) p) = 10 then
        (let (out, rest) = grep_lines pat (drop (Suc (length q)) p)
         in ((if match pat q then q @ [10] else []) @ out, rest))
      else ([], p))"
  by pat_completeness auto
termination
proof (relation "measure (\<lambda>(pat, p). length p)", goal_cases)
  case (2 pat p q)
  then have "drop (length q) p \<noteq> []" by auto
  then show ?case by simp
qed simp

declare grep_lines.simps [simp del]

text \<open>The outer loop: \<open>rds\<close> are the results of \<^verbatim>\<open>read\<close> until it returns nothing, \<open>m\<close> the bytes kept in the buffer.
  Where no newline is found, \<^verbatim>\<open>p == buf\<close> and the buffer is emptied.\<close>

primrec grep_loop :: "uchar list \<Rightarrow> uchar list \<Rightarrow> uchar list list \<Rightarrow> uchar list" where
  "grep_loop pat m [] = []"
| "grep_loop pat m (r # rds) =
     (if r = [] then []
      else
       (let (out, rest) = grep_lines pat (m @ r)
        in out @ grep_loop pat (if length rest = length (m @ r) then [] else rest) rds))"

definition grep :: "uchar list \<Rightarrow> uchar list list \<Rightarrow> uchar list" where
  "grep pat rds = grep_loop pat [] rds"

section \<open>What patterns mean\<close>

datatype pat = Done | End | One uchar pat | Many uchar pat

function pat_of :: "uchar list \<Rightarrow> pat" where
  "pat_of re =
     (case re of [] \<Rightarrow> Done
      | c # re' \<Rightarrow>
          if head0 re' = 42 then Many c (pat_of (tl re'))
          else if c = 36 \<and> re' = [] then End
          else One c (pat_of re'))"
  by pat_completeness auto
termination
  by (relation "measure length") auto

declare pat_of.simps [simp del]

text \<open>A dot stands for every byte.\<close>

definition fits :: "uchar \<Rightarrow> uchar \<Rightarrow> bool" where
  "fits c x \<longleftrightarrow> c = 46 \<or> c = x"

text \<open>The words that a pattern matches, and whether it holds only at the end of the text.\<close>

primrec words :: "pat \<Rightarrow> uchar list set" where
  "words Done = {[]}"
| "words End = {[]}"
| "words (One c p) = {x # u | x u. fits c x \<and> u \<in> words p}"
| "words (Many c p) = {w @ u | w u. (\<forall>x\<in>set w. fits c x) \<and> u \<in> words p}"

primrec at_end :: "pat \<Rightarrow> bool" where
  "at_end Done = False"
| "at_end End = True"
| "at_end (One c p) = at_end p"
| "at_end (Many c p) = at_end p"

text \<open>A pattern matches at the start of a text.\<close>

definition here :: "pat \<Rightarrow> uchar list \<Rightarrow> bool" where
  "here p tx \<longleftrightarrow> (\<exists>u v. tx = u @ v \<and> u \<in> words p \<and> (at_end p \<longrightarrow> v = []))"

lemma hereI: "tx = u @ v \<Longrightarrow> u \<in> words p \<Longrightarrow> (at_end p \<Longrightarrow> v = []) \<Longrightarrow> here p tx"
  unfolding here_def by blast

lemma hereE:
  assumes "here p tx"
  obtains u v where "tx = u @ v" and "u \<in> words p" and "at_end p \<longrightarrow> v = []"
  using assms unfolding here_def by blast

lemma words_One: "u \<in> words (One c p) \<longleftrightarrow> (\<exists>x w. u = x # w \<and> fits c x \<and> w \<in> words p)"
  and words_Many: "u \<in> words (Many c p) \<longleftrightarrow> (\<exists>w r. u = w @ r \<and> (\<forall>x\<in>set w. fits c x) \<and> r \<in> words p)"
  by simp_all

lemma here_One: "here (One c p) tx \<longleftrightarrow> (\<exists>x t. tx = x # t \<and> fits c x \<and> here p t)"
proof
  assume "here (One c p) tx"
  then obtain x w v where "tx = (x # w) @ v" "fits c x" "w \<in> words p" "at_end p \<longrightarrow> v = []"
    by (elim hereE) (unfold words_One at_end.simps, blast)
  then show "\<exists>x t. tx = x # t \<and> fits c x \<and> here p t" using hereI [of "w @ v" w v p] by auto
next
  assume "\<exists>x t. tx = x # t \<and> fits c x \<and> here p t"
  then obtain x t where x: "tx = x # t" "fits c x" "here p t" by blast
  from x(3) obtain u v where "t = u @ v" "u \<in> words p" "at_end p \<longrightarrow> v = []" by (rule hereE)
  then show "here (One c p) tx" using x(1,2) by (intro hereI [of tx "x # u" v]) auto
qed

lemma here_Many: "here (Many c p) tx \<longleftrightarrow> here p tx \<or> (\<exists>x t. tx = x # t \<and> fits c x \<and> here (Many c p) t)"
proof
  assume "here (Many c p) tx"
  then obtain w r v where w: "tx = (w @ r) @ v" "\<forall>x\<in>set w. fits c x" "r \<in> words p" "at_end p \<longrightarrow> v = []"
    by (elim hereE) (unfold words_Many at_end.simps, blast)
  show "here p tx \<or> (\<exists>x t. tx = x # t \<and> fits c x \<and> here (Many c p) t)"
  proof (cases w)
    case Nil
    then show ?thesis using w by (intro disjI1 hereI [of tx r v]) auto
  next
    case (Cons x w')
    then have "here (Many c p) (w' @ r @ v)" using w by (intro hereI [of _ "w' @ r" v]) (auto simp: words_Many)
    then show ?thesis using w Cons by auto
  qed
next
  assume "here p tx \<or> (\<exists>x t. tx = x # t \<and> fits c x \<and> here (Many c p) t)"
  then show "here (Many c p) tx"
  proof
    assume "here p tx"
    then obtain u v where "tx = u @ v" "u \<in> words p" "at_end p \<longrightarrow> v = []" by (rule hereE)
    then show ?thesis by (intro hereI [of tx u v]) (auto simp: words_Many intro: exI [of _ "[]"])
  next
    assume "\<exists>x t. tx = x # t \<and> fits c x \<and> here (Many c p) t"
    then obtain x t where x: "tx = x # t" "fits c x" "here (Many c p) t" by blast
    from x(3) obtain u v where u: "t = u @ v" "u \<in> words (Many c p)" "at_end p \<longrightarrow> v = []"
      by (elim hereE) simp
    then obtain w r where w: "u = w @ r" "\<forall>x\<in>set w. fits c x" "r \<in> words p" unfolding words_Many by blast
    then have "(x # w) @ r \<in> words (Many c p)" unfolding words_Many using x(2) w(2,3) by (intro exI [of _ "x # w"] exI [of _ r]) auto
    then show ?thesis using x(1) u w(1) by (intro hereI [of tx "(x # w) @ r" v]) auto
  qed
qed

lemma here_Done: "here Done tx" and here_End: "here End tx \<longleftrightarrow> tx = []"
  by (simp_all add: here_def)

lemmas here_simps = here_Done here_End here_One here_Many

section \<open>The matcher\<close>

lemma matchhere_Nil: "matchhere [] tx"
  using matchhere.simps [of "[]" tx] by simp

lemma matchhere_Cons:
  assumes "c \<noteq> 0"
  shows "matchhere (c # re) tx =
     (if head0 re = 42 then matchstar c (tl re) tx
      else if c = 36 \<and> head0 re = 0 then head0 tx = 0
      else head0 tx \<noteq> 0 \<and> (c = 46 \<or> c = head0 tx) \<and> matchhere re (tl tx))"
  using matchhere.simps [of "c # re" tx] assms by simp

lemma matchstar_Nil: "matchstar c re [] = matchhere re []"
  using matchstar.simps [of c re "[]"] by simp

lemma matchstar_Cons: "x \<noteq> 0 \<Longrightarrow> matchstar c re (x # t) = (matchhere re (x # t) \<or> fits c x \<and> matchstar c re t)"
  using matchstar.simps [of c re "x # t"] by (auto simp: fits_def)

lemmas match_eqs = matchhere_Nil matchhere_Cons matchstar_Nil matchstar_Cons

lemma pat_of_eqs:
  "pat_of [] = Done"
  "pat_of (c # re) = (if head0 re = 42 then Many c (pat_of (tl re)) else if c = 36 \<and> re = [] then End else One c (pat_of re))"
  using pat_of.simps [of "[]"] pat_of.simps [of "c # re"] by simp_all

lemma matcher_here:
  "0 \<notin> set re \<Longrightarrow> 0 \<notin> set tx \<Longrightarrow> matchhere re tx \<longleftrightarrow> here (pat_of re) tx"
  "0 \<notin> set re \<Longrightarrow> 0 \<notin> set tx \<Longrightarrow> matchstar c re tx \<longleftrightarrow> here (Many c (pat_of re)) tx"
proof (induction re tx and c re tx rule: matchhere_matchstar.induct)
  case (1 re tx)
  have z: "head0 xs = 0 \<longleftrightarrow> xs = []" if "0 \<notin> set xs" for xs :: "uchar list" using that by (cases xs) auto
  show ?case
  proof (cases re)
    case Nil
    then show ?thesis by (simp add: match_eqs pat_of_eqs here_simps)
  next
    case (Cons c re')
    have c: "c \<noteq> 0" "0 \<notin> set re'" "0 \<notin> set (tl re')" using Cons "1.prems"(1) by (cases re'; auto)+
    have star: "matchstar c (tl re') tx = here (Many c (pat_of (tl re'))) tx" if "head0 re' = 42"
      using "1.IH"(1) "1.prems"(2) c that unfolding Cons by simp
    have rest: "matchhere re' (tl tx) = here (pat_of re') (tl tx)"
      if "head0 re' \<noteq> 42" "\<not> (c = 36 \<and> re' = [])" "tx \<noteq> []" "c = 46 \<or> c = head0 tx"
      using "1.IH"(2) "1.prems"(2) c that z [OF c(2)] z [OF "1.prems"(2)] unfolding Cons by (cases tx) auto
    show ?thesis unfolding Cons
      using star rest c z [OF c(2)] z [OF "1.prems"(2)]
      by (cases tx) (auto simp: match_eqs pat_of_eqs here_simps(1-3) fits_def)
  qed
next
  case (2 c re tx)
  show ?case
  proof (cases tx)
    case Nil
    then show ?thesis using 2 here_simps(4) [of c "pat_of re" "[]"] by (simp add: match_eqs)
  next
    case (Cons x t)
    then have x: "x \<noteq> 0" using "2.prems"(2) by auto
    have h: "matchhere re tx = here (pat_of re) tx" using "2.IH"(1) "2.prems" .
    have s: "matchstar c re t = here (Many c (pat_of re)) t" if "\<not> matchhere re tx" "fits c x"
      using "2.IH"(2) "2.prems" that x Cons by (auto simp: fits_def)
    show ?thesis using h s x here_simps(4) [of c "pat_of re" "x # t"] unfolding Cons by (auto simp: match_eqs)
  qed
qed

text \<open>Where a text has a match of a pattern: anywhere, or at its start if the pattern begins with a caret.\<close>

definition found :: "uchar list \<Rightarrow> uchar list \<Rightarrow> bool" where
  "found re tx \<longleftrightarrow> (if head0 re = 94 then here (pat_of (tl re)) tx else (\<exists>a b. tx = a @ b \<and> here (pat_of re) b))"

lemma match_from_here: "0 \<notin> set re \<Longrightarrow> 0 \<notin> set tx \<Longrightarrow> match_from re tx \<longleftrightarrow> (\<exists>a b. tx = a @ b \<and> here (pat_of re) b)"
proof (induction tx)
  case (Cons c tx)
  have "(\<exists>a b. c # tx = a @ b \<and> here (pat_of re) b) \<longleftrightarrow> here (pat_of re) (c # tx) \<or> (\<exists>a b. tx = a @ b \<and> here (pat_of re) b)"
    by (auto simp: Cons_eq_append_conv)
  then show ?case using Cons matcher_here(1) [of re "c # tx"] by auto
qed (simp add: matcher_here)

lemma match_found: "0 \<notin> set re \<Longrightarrow> 0 \<notin> set tx \<Longrightarrow> match re tx = found re tx"
  using matcher_here(1) [of "tl re" tx] match_from_here [of re tx] by (cases re) (auto simp: match_def found_def)

section \<open>The loop over the input\<close>

text \<open>The complete lines of a text, and what follows the last newline.\<close>

primrec lines_split :: "uchar list \<Rightarrow> uchar list list \<times> uchar list" where
  "lines_split [] = ([], [])"
| "lines_split (c # p) =
     (let (ls, r) = lines_split p
      in if c = 10 then ([] # ls, r) else case ls of [] \<Rightarrow> ([], c # r) | l # ls \<Rightarrow> ((c # l) # ls, r))"

definition unlines :: "uchar list list \<Rightarrow> uchar list" where
  "unlines ls = concat (map (\<lambda>l. l @ [10]) ls)"

lemma lines_split_none: "10 \<notin> set p \<Longrightarrow> lines_split p = ([], p)"
  by (induction p) auto

lemma lines_split_line: "10 \<notin> set l \<Longrightarrow> lines_split (l @ 10 # p) = (l # fst (lines_split p), snd (lines_split p))"
  by (induction l) (auto split: prod.splits)

lemma lines_split_rest: "10 \<notin> set (snd (lines_split p))"
  by (induction p) (auto split: prod.splits list.splits)

lemma lines_split_rest_set: "set (snd (lines_split p)) \<subseteq> set p"
  by (induction p) (auto split: prod.splits list.splits)

lemma first_line:
  assumes "10 \<in> set p"
  obtains l p' where "p = l @ 10 # p'" and "10 \<notin> set l" and "takeWhile (\<lambda>c. c \<noteq> 10) p = l"
  using split_list_first [OF assms] by (auto simp: takeWhile_tail)

lemma lines_split_append:
  "lines_split (p @ q) = (fst (lines_split p) @ fst (lines_split (snd (lines_split p) @ q)), snd (lines_split (snd (lines_split p) @ q)))"
proof (induction p rule: length_induct)
  case (1 p)
  show ?case
  proof (cases "10 \<in> set p")
    case True
    then obtain l p' where l: "p = l @ 10 # p'" "10 \<notin> set l" by (rule first_line)
    moreover have "lines_split (p' @ q) =
        (fst (lines_split p') @ fst (lines_split (snd (lines_split p') @ q)), snd (lines_split (snd (lines_split p') @ q)))"
      using "1.IH" l(1) by simp
    ultimately show ?thesis by (simp add: lines_split_line)
  qed (simp add: lines_split_none)
qed

lemma lines_split_shorter: "10 \<in> set p \<Longrightarrow> length (snd (lines_split p)) < length p"
proof (erule first_line)
  fix l p' assume "p = l @ 10 # p'" "10 \<notin> set l"
  moreover have "length (snd (lines_split p')) \<le> length p'" by (induction p') (auto split: prod.splits list.splits)
  ultimately show ?thesis by (simp add: lines_split_line)
qed

lemma grep_lines_split:
  "0 \<notin> set pat \<Longrightarrow> 0 \<notin> set p \<Longrightarrow>
   grep_lines pat p = (unlines (filter (found pat) (fst (lines_split p))), snd (lines_split p))"
proof (induction pat p rule: grep_lines.induct)
  case (1 pat p)
  have tw: "takeWhile (\<lambda>c. c \<noteq> 10 \<and> c \<noteq> 0) p = takeWhile (\<lambda>c. c \<noteq> 10) p"
    using "1.prems"(2) by (intro takeWhile_cong) auto
  show ?case
  proof (cases "10 \<in> set p")
    case True
    then obtain l p' where l: "p = l @ 10 # p'" "10 \<notin> set l" "takeWhile (\<lambda>c. c \<noteq> 10) p = l" by (rule first_line)
    have z: "0 \<notin> set l" "0 \<notin> set p'" using "1.prems"(2) l(1) by auto
    have "grep_lines pat p' = (unlines (filter (found pat) (fst (lines_split p'))), snd (lines_split p'))"
      using "1.IH" [of l] "1.prems"(1) z(2) l tw by simp
    then show ?thesis using l z tw match_found [OF "1.prems"(1) z(1)]
      by (subst grep_lines.simps) (simp add: lines_split_line unlines_def)
  next
    case False
    then have "takeWhile (\<lambda>c. c \<noteq> 10) p = p" by (auto simp: takeWhile_eq_all_conv)
    moreover have "head0 (drop (length p) p) \<noteq> 10" by simp
    ultimately have "grep_lines pat p = ([], p)" using tw by (subst grep_lines.simps) (simp only: Let_def if_False)
    then show ?thesis using False by (simp add: lines_split_none unlines_def)
  qed
qed

lemma unlines_append: "unlines (a @ b) = unlines a @ unlines b"
  by (simp add: unlines_def)

lemma grep_loop_split:
  "0 \<notin> set pat \<Longrightarrow> 0 \<notin> set m \<Longrightarrow> 10 \<notin> set m \<Longrightarrow> \<forall>r\<in>set rds. 10 \<in> set r \<and> 0 \<notin> set r \<Longrightarrow>
   grep_loop pat m rds = unlines (filter (found pat) (fst (lines_split (m @ concat rds))))"
proof (induction rds arbitrary: m)
  case (Cons r rds)
  let ?p = "m @ r"
  let ?rest = "snd (lines_split ?p)"
  have z: "0 \<notin> set ?p" "10 \<in> set ?p" using Cons.prems by auto
  have "0 \<notin> set ?rest" "10 \<notin> set ?rest" using lines_split_rest_set [of ?p] z(1) lines_split_rest [of ?p] by auto
  then have "grep_loop pat ?rest rds = unlines (filter (found pat) (fst (lines_split (?rest @ concat rds))))"
    using Cons.IH Cons.prems(1,4) by simp
  moreover have "length ?rest \<noteq> length ?p" using lines_split_shorter [OF z(2)] by simp
  ultimately show ?case using Cons.prems(4) grep_lines_split [OF Cons.prems(1) z(1)] lines_split_append [of ?p "concat rds"]
    by (auto simp: unlines_append)
qed (simp add: unlines_def lines_split_none)

text \<open>C18. \<^verbatim>\<open>grep\<close> prints exactly the lines in which the pattern matches: its recursive matcher, with its stars tried
  from the shortest and its anchors, decides the declarative meaning of the pattern, and the loop that keeps the
  unfinished line at the front of the buffer cuts the input into its lines, as long as every read brings at least one
  newline and no byte is zero.\<close>

theorem grep_prints_matches:
  assumes "0 \<notin> set pat" and "\<forall>r\<in>set rds. 10 \<in> set r \<and> 0 \<notin> set r"
  shows "grep pat rds = unlines (filter (found pat) (fst (lines_split (concat rds))))"
  using grep_loop_split [OF assms(1) _ _ assms(2), of "[]"] by (simp add: grep_def)

theorem grep_prints_matches_witness:
  "grep [111, 46, 42, 100] [[111, 108, 100, 10, 99], [99, 10]] = unlines (filter (found [111, 46, 42, 100]) [[111, 108, 100], [99, 99]])"
  using grep_prints_matches [of "[111, 46, 42, 100]" "[[111, 108, 100, 10, 99], [99, 10]]"] by simp

text \<open>Where a read ends inside a line that it began, the loop finds no newline and empties the buffer, so that the start
  of the line is lost: \<^verbatim>\<open>ab\<close> is not found in a line \<^verbatim>\<open>ab\<close> that arrives in two reads.\<close>

lemma grep_loses_line: "grep [97, 98] [[97], [98, 10]] = [] \<and> grep [97, 98] [[97, 98, 10]] = [97, 98, 10]"
  by (simp add: grep_def grep_lines.simps match_def matchhere.simps)

end
