(* ===== verification/Sh.thy ===== *)
theory Sh
  imports Xv6_Prelude
begin

text \<open>
  The shell \<^verbatim>\<open>sh.c\<close>. Its parser works on a line of text with pointers into it: here a list of bytes without the terminating
  zero, and positions. Words are kept as the positions of their first byte and of the byte behind them, until
  \<^verbatim>\<open>nulterminate\<close> ends them with zeros in the line itself. The recursive routines of the parser take a bound on the depth of
  the calls, which \<open>Shgrammar\<close> shows to be enough; there the parser is compared with a grammar. \<open>Shrun\<close> models the part of the
  shell that runs commands. What is left of a line with an error is not printed here in front of the message.
\<close>

section \<open>\<^verbatim>\<open>sh.c\<close>: commands\<close>

definition MAXARGS :: nat where "MAXARGS = 10"

text \<open>The five kinds of commands; \<open>'w\<close> are the words.\<close>

datatype 'w cmd =
    EXEC "'w list"
  | REDIR "'w cmd" 'w sint32 sint32
  | PIPE "'w cmd" "'w cmd"
  | LIST "'w cmd" "'w cmd"
  | BACK "'w cmd"

text \<open>Their constructors; the command of \<^verbatim>\<open>execcmd\<close> has no words yet. The allocation, which the code does not check, is taken to succeed.\<close>

definition execcmd :: "'w cmd" where "execcmd = EXEC []"
definition redircmd :: "'w cmd \<Rightarrow> 'w \<Rightarrow> sint32 \<Rightarrow> sint32 \<Rightarrow> 'w cmd" where "redircmd subcmd f mode fd = REDIR subcmd f mode fd"
definition pipecmd :: "'w cmd \<Rightarrow> 'w cmd \<Rightarrow> 'w cmd" where "pipecmd left right = PIPE left right"
definition listcmd :: "'w cmd \<Rightarrow> 'w cmd \<Rightarrow> 'w cmd" where "listcmd left right = LIST left right"
definition backcmd :: "'w cmd \<Rightarrow> 'w cmd" where "backcmd subcmd = BACK subcmd"

lemmas cmd_defs [simp] = execcmd_def redircmd_def pipecmd_def listcmd_def backcmd_def

section \<open>Tokens\<close>

definition whitespace :: "uchar list" where "whitespace = [32, 9, 13, 10, 11]"
definition symbols :: "uchar list" where "symbols = [60, 124, 62, 38, 59, 40, 41]"

text \<open>The byte at a position, zero at the end.\<close>

definition at :: "uchar list \<Rightarrow> nat \<Rightarrow> uchar" where
  "at buf i = (if i < length buf then buf ! i else 0)"

definition skip :: "(uchar \<Rightarrow> bool) \<Rightarrow> uchar list \<Rightarrow> nat \<Rightarrow> nat" where
  "skip P buf i = i + length (takeWhile P (drop i buf))"

definition skip_ws :: "uchar list \<Rightarrow> nat \<Rightarrow> nat" where
  "skip_ws buf i = skip (\<lambda>c. c \<in> set whitespace) buf i"

text \<open>\<^verbatim>\<open>gettoken\<close> returns the kind of the token, the positions \<^verbatim>\<open>q\<close> and \<^verbatim>\<open>eq\<close>, and the new position.\<close>

definition gettoken :: "uchar list \<Rightarrow> nat \<Rightarrow> uchar \<times> nat \<times> nat \<times> nat" where
  "gettoken buf s =
     (let q = skip_ws buf s;
          c = at buf q;
          (ret, eq) =
            (if c = 0 then (0, q)
             else if c \<in> {124, 40, 41, 59, 38, 60} then (c, q + 1)
             else if c = 62 then (if at buf (q + 1) = 62 then (43, q + 2) else (62, q + 1))
             else (97, skip (\<lambda>c. c \<notin> set whitespace \<and> c \<notin> set symbols) buf q))
      in (ret, q, eq, skip_ws buf eq))"

definition peek :: "uchar list \<Rightarrow> nat \<Rightarrow> uchar list \<Rightarrow> bool \<times> nat" where
  "peek buf s toks =
     (let s = skip_ws buf s in (at buf s \<noteq> 0 \<and> at buf s \<in> set toks, s))"

lemma skip_le: "i \<le> skip P buf i" "skip P buf i \<le> max i (length buf)"
proof -
  have "length (takeWhile P (drop i buf)) \<le> length (drop i buf)" by (rule length_takeWhile_le)
  then show "i \<le> skip P buf i" "skip P buf i \<le> max i (length buf)" by (auto simp: skip_def)
qed

lemma skip_stop: "skip P buf i < length buf \<Longrightarrow> \<not> P (buf ! skip P buf i)"
  using nth_length_takeWhile [of P "drop i buf"] by (simp add: skip_def)

lemma skip_first: "i < length buf \<Longrightarrow> P (buf ! i) \<Longrightarrow> i < skip P buf i"
  by (simp add: skip_def Cons_nth_drop_Suc [symmetric])

lemma skip_ws_le: "i \<le> skip_ws buf i"
  by (simp add: skip_ws_def skip_le)

lemma skip_ws_idem: "skip_ws buf (skip_ws buf i) = skip_ws buf i"
proof -
  let ?j = "skip_ws buf i"
  have "takeWhile (\<lambda>c. c \<in> set whitespace) (drop ?j buf) = []"
  proof (cases "?j < length buf")
    case True
    then have "buf ! ?j \<notin> set whitespace" unfolding skip_ws_def by (rule skip_stop)
    with True show ?thesis by (simp add: Cons_nth_drop_Suc [symmetric])
  qed simp
  then show ?thesis by (simp add: skip_ws_def [of buf ?j] skip_def)
qed

text \<open>A token that is not the end moves on.\<close>

lemma gettoken_pos:
  assumes "gettoken buf s = (ret, q, eq, s')"
  shows "s \<le> q" and "q \<le> eq" and "eq \<le> s'" and "ret \<noteq> 0 \<Longrightarrow> q < length buf \<and> q < eq"
proof -
  let ?c = "at buf q"
  have q: "q = skip_ws buf s" and s': "s' = skip_ws buf eq"
    and ret: "(ret, eq) = (if ?c = 0 then (0, q) else if ?c \<in> {124, 40, 41, 59, 38, 60} then (?c, q + 1)
      else if ?c = 62 then (if at buf (q + 1) = 62 then (43, q + 2) else (62, q + 1))
      else (97, skip (\<lambda>c. c \<notin> set whitespace \<and> c \<notin> set symbols) buf q))"
    using assms by (auto simp: gettoken_def Let_def split: prod.splits)
  show "s \<le> q" "eq \<le> s'" using q s' skip_ws_le by auto
  show "q \<le> eq" using ret skip_le(1) [of q] by (auto split: if_splits)
  assume "ret \<noteq> 0"
  then have c: "?c \<noteq> 0" using ret by (auto split: if_splits)
  then have lt: "q < length buf" by (auto simp: at_def split: if_splits)
  have "?c \<notin> set whitespace" using skip_stop [of "\<lambda>c. c \<in> set whitespace" buf s] lt by (simp add: q skip_ws_def at_def)
  then have "q < eq" using ret c lt skip_first [of q buf "\<lambda>c. c \<notin> set whitespace \<and> c \<notin> set symbols"]
    by (auto simp: at_def symbols_def split: if_splits)
  with lt show "q < length buf \<and> q < eq" by simp
qed

lemma peek_pos:
  assumes "peek buf s toks = (b, s')"
  shows "s \<le> s'" and "b \<Longrightarrow> s' < length buf" and "gettoken buf s' = gettoken buf s"
  using assms skip_ws_le [of s buf] skip_ws_idem [of buf s] by (auto simp: peek_def Let_def at_def gettoken_def split: if_splits)

lemma gettoken_end: "0 \<notin> set buf \<Longrightarrow> gettoken buf s = (0, q, eq, s') \<Longrightarrow> length buf \<le> q"
  by (auto simp: gettoken_def Let_def at_def split: prod.splits if_splits) (metis nth_mem)

lemma gettoken_peek:
  assumes "peek buf s toks = (True, s')" and "gettoken buf s' = (ret, q, eq, s'')"
  shows "s' < s''"
proof -
  have "at buf (skip_ws buf s) \<noteq> 0" "s' = skip_ws buf s" using assms(1) by (auto simp: peek_def Let_def)
  then have "ret \<noteq> 0" "s' \<le> q" using assms(2) by (auto simp: gettoken_def Let_def skip_ws_idem split: if_splits prod.splits)
  then show ?thesis using gettoken_pos [OF assms(2)] by linarith
qed

lemma peek_step:
  assumes "peek buf s toks = (True, s1)" and "gettoken buf s1 = (tok, q, eq, s2)"
  shows "length buf - s2 < length buf - s" and "s < s2"
  using peek_pos [OF assms(1)] gettoken_peek [OF assms] by auto

section \<open>Parsing\<close>

text \<open>A routine of the parser returns a result and the new position, or the shell ends with a message, or the bound on the
  depth of the calls was too small.\<close>

datatype 'a pr = PGot 'a nat | PSyn string | PDeep

definition pbind :: "'a pr \<Rightarrow> ('a \<Rightarrow> nat \<Rightarrow> 'b pr) \<Rightarrow> 'b pr" where
  "pbind m f = (case m of PGot x s \<Rightarrow> f x s | PSyn e \<Rightarrow> PSyn e | PDeep \<Rightarrow> PDeep)"

lemma pbind_simps [simp]: "pbind (PGot x s) f = f x s" "pbind (PSyn e) f = PSyn e" "pbind PDeep f = PDeep"
  by (simp_all add: pbind_def)

lemma pbind_cong [fundef_cong]: "m = m' \<Longrightarrow> (\<And>x s. m' = PGot x s \<Longrightarrow> f x s = g x s) \<Longrightarrow> pbind m f = pbind m' g"
  by (cases m') auto

type_synonym word_at = "nat \<times> nat"

text \<open>The mode and the descriptor of a redirection.\<close>

definition redir_tok :: "word_at cmd \<Rightarrow> uchar \<Rightarrow> word_at \<Rightarrow> word_at cmd" where
  "redir_tok cmd tok w =
     (if tok = 60 then redircmd cmd w 0 0
      else if tok = 62 then redircmd cmd w (0x001 OR 0x200) 1
      else if tok = 43 then redircmd cmd w (0x001 OR 0x200) 1
      else cmd)"

function parseredirs :: "uchar list \<Rightarrow> word_at cmd \<Rightarrow> nat \<Rightarrow> word_at cmd pr" where
  "parseredirs buf cmd s =
     (case peek buf s [60, 62] of (b, s) \<Rightarrow>
      if \<not> b then PGot cmd s
      else
       case gettoken buf s of (tok, _, _, s) \<Rightarrow>
       case gettoken buf s of (tok', q, eq, s) \<Rightarrow>
       if tok' \<noteq> 97 then PSyn ''missing file for redirection''
       else parseredirs buf (redir_tok cmd tok (q, eq)) s)"
  by pat_completeness auto
termination
proof (relation "measure (\<lambda>(buf, cmd, s). length buf - s)", goal_cases)
  case (2 buf cmd s b s1 tok x q1 y eq1 s2 tok' z q w eq s3)
  then show ?case using peek_step [of buf s "[60, 62]" s1 tok q1 eq1 s2] gettoken_pos(1-3) [of buf s2 tok' q eq s3] by auto
qed simp

declare parseredirs.simps [simp del]

text \<open>\<^verbatim>\<open>cmd->argv[argc] = q\<close>, where \<^verbatim>\<open>cmd\<close> points to the innermost command of the tree \<^verbatim>\<open>ret\<close>.\<close>

primrec add_arg :: "'w cmd \<Rightarrow> 'w \<Rightarrow> 'w cmd" where
  "add_arg (EXEC ws) w = EXEC (ws @ [w])"
| "add_arg (REDIR c f m d) w = REDIR (add_arg c w) f m d"
| "add_arg (PIPE c d) w = PIPE c d"
| "add_arg (LIST c d) w = LIST c d"
| "add_arg (BACK c) w = BACK c"

lemma parseredirs_pos: "parseredirs buf cmd s = PGot cmd' s' \<Longrightarrow> s \<le> s'"
proof (induction buf cmd s rule: parseredirs.induct)
  case (1 buf cmd s)
  obtain b s1 where p: "peek buf s [60, 62] = (b, s1)" by force
  obtain tok q1 eq1 s2 where g: "gettoken buf s1 = (tok, q1, eq1, s2)" by (metis prod_cases4)
  obtain tok' q eq s3 where h: "gettoken buf s2 = (tok', q, eq, s3)" by (metis prod_cases4)
  have "s \<le> s1" "s1 \<le> s2" "s2 \<le> s3" using peek_pos(1) [OF p] gettoken_pos(1-3) [OF g] gettoken_pos(1-3) [OF h] by auto
  moreover have "b \<Longrightarrow> tok' = 97 \<Longrightarrow> s3 \<le> s'" using "1.IH" [OF p [symmetric] _ g [symmetric] refl refl h [symmetric] refl refl] "1.prems" p g h
    by (subst (asm) parseredirs.simps) simp
  ultimately show ?case using "1.prems" p g h by (subst (asm) parseredirs.simps) (auto split: if_splits)
qed

function parseexec_loop :: "uchar list \<Rightarrow> nat \<Rightarrow> word_at cmd \<Rightarrow> nat \<Rightarrow> word_at cmd pr" where
  "parseexec_loop buf argc ret s =
     (case peek buf s [124, 41, 38, 59] of (b, s) \<Rightarrow>
      if b then PGot ret s
      else
       case gettoken buf s of (tok, q, eq, s) \<Rightarrow>
       if tok = 0 then PGot ret s
       else if tok \<noteq> 97 then PSyn ''syntax''
       else if MAXARGS \<le> argc + 1 then PSyn ''too many args''
       else pbind (parseredirs buf (add_arg ret (q, eq)) s) (\<lambda>ret s. parseexec_loop buf (argc + 1) ret s))"
  by pat_completeness auto
termination
proof (relation "measure (\<lambda>(buf, argc, ret, s). length buf - s)", goal_cases)
  case (2 buf argc ret s b s1 tok x q y eq s2 ret' s3)
  then have "gettoken buf s1 = (tok, q, eq, s2)" "peek buf s [124, 41, 38, 59] = (b, s1)" by auto
  moreover have "s2 \<le> s3" using 2 parseredirs_pos by metis
  moreover have "tok \<noteq> 0" using 2 by auto
  ultimately show ?case using gettoken_pos [of buf s1 tok q eq s2] peek_pos(1) [of buf s "[124, 41, 38, 59]" b s1] by auto
qed simp

declare parseexec_loop.simps [simp del]

text \<open>The loop of \<^verbatim>\<open>parseline\<close> over the ampersands.\<close>

function parsebacks :: "uchar list \<Rightarrow> word_at cmd \<Rightarrow> nat \<Rightarrow> word_at cmd pr" where
  "parsebacks buf cmd s =
     (case peek buf s [38] of (b, s) \<Rightarrow>
      if \<not> b then PGot cmd s
      else case gettoken buf s of (_, _, _, s) \<Rightarrow> parsebacks buf (backcmd cmd) s)"
  by pat_completeness auto
termination
proof (relation "measure (\<lambda>(buf, cmd, s). length buf - s)", goal_cases)
  case (2 buf cmd s b s1 tok x q y eq s2)
  then show ?case using peek_step [of buf s "[38]" s1 tok q eq s2] by auto
qed simp

declare parsebacks.simps [simp del]

fun parseline :: "nat \<Rightarrow> uchar list \<Rightarrow> nat \<Rightarrow> word_at cmd pr"
  and parsepipe :: "nat \<Rightarrow> uchar list \<Rightarrow> nat \<Rightarrow> word_at cmd pr"
  and parseexec :: "nat \<Rightarrow> uchar list \<Rightarrow> nat \<Rightarrow> word_at cmd pr"
  and parseblock :: "nat \<Rightarrow> uchar list \<Rightarrow> nat \<Rightarrow> word_at cmd pr" where
  "parseline 0 buf s = PDeep"
| "parseline (Suc k) buf s =
     pbind (parsepipe k buf s) (\<lambda>cmd s.
     pbind (parsebacks buf cmd s) (\<lambda>cmd s.
     case peek buf s [59] of (b, s) \<Rightarrow>
     if b then
       case gettoken buf s of (_, _, _, s) \<Rightarrow>
       pbind (parseline k buf s) (\<lambda>r s. PGot (listcmd cmd r) s)
     else PGot cmd s))"
| "parsepipe 0 buf s = PDeep"
| "parsepipe (Suc k) buf s =
     pbind (parseexec k buf s) (\<lambda>cmd s.
     case peek buf s [124] of (b, s) \<Rightarrow>
     if b then
       case gettoken buf s of (_, _, _, s) \<Rightarrow>
       pbind (parsepipe k buf s) (\<lambda>r s. PGot (pipecmd cmd r) s)
     else PGot cmd s)"
| "parseexec 0 buf s = PDeep"
| "parseexec (Suc k) buf s =
     (case peek buf s [40] of (b, s) \<Rightarrow>
      if b then parseblock k buf s
      else
        pbind (parseredirs buf execcmd s) (\<lambda>ret s.
        parseexec_loop buf 0 ret s))"
| "parseblock 0 buf s = PDeep"
| "parseblock (Suc k) buf s =
     (case peek buf s [40] of (b, s) \<Rightarrow>
      if \<not> b then PSyn ''parseblock''
      else
       case gettoken buf s of (_, _, _, s) \<Rightarrow>
       pbind (parseline k buf s) (\<lambda>cmd s.
       case peek buf s [41] of (b, s) \<Rightarrow>
       if \<not> b then PSyn ''syntax - missing )''
       else
        case gettoken buf s of (_, _, _, s) \<Rightarrow>
        parseredirs buf cmd s))"

text \<open>Zeros are stored behind the words, in the line.\<close>

primrec nulterminate :: "word_at cmd \<Rightarrow> uchar list \<Rightarrow> uchar list" where
  "nulterminate (EXEC ws) buf = foldl (\<lambda>buf w. buf[snd w := 0]) buf ws"
| "nulterminate (REDIR c f m d) buf = (nulterminate c buf)[snd f := 0]"
| "nulterminate (PIPE l r) buf = nulterminate r (nulterminate l buf)"
| "nulterminate (LIST l r) buf = nulterminate r (nulterminate l buf)"
| "nulterminate (BACK c) buf = nulterminate c buf"

text \<open>\<^verbatim>\<open>parsecmd\<close> on a line \<open>buf\<close>; the line with its terminating zero is changed by \<^verbatim>\<open>nulterminate\<close>.\<close>

definition parsecmd :: "nat \<Rightarrow> uchar list \<Rightarrow> (word_at cmd \<times> uchar list) pr" where
  "parsecmd k buf =
     pbind (parseline k buf 0) (\<lambda>cmd s.
     case peek buf s [] of (_, s) \<Rightarrow>
     if s \<noteq> length buf then PSyn ''syntax''
     else PGot (cmd, nulterminate cmd (buf @ [0])) s)"

end
