(* ===== verification/Shgrammar.thy ===== *)
theory Shgrammar
  imports Sh
begin

text \<open>
  The grammar of the shell and the proof that the parser of \<^verbatim>\<open>sh.c\<close> implements it. The grammar has its own scanner and builds
  its trees by itself; the routines of the parser are not used in it. The proof goes over the tokens that the parser sees:
  every routine that returns has taken a part of them that its nonterminal derives, and every line that the grammar derives
  is parsed to the tree that the grammar gives.
\<close>

section \<open>The tokens of a line\<close>

datatype 'w tok = Word 'w | Sym uchar

function tokens :: "uchar list \<Rightarrow> nat \<Rightarrow> word_at tok list" where
  "tokens buf s =
     (case gettoken buf s of (ret, q, eq, s) \<Rightarrow>
      if ret = 0 then [] else (if ret = 97 then Word (q, eq) else Sym ret) # tokens buf s)"
  by pat_completeness auto
termination
proof (relation "measure (\<lambda>(buf, s). length buf - s)", goal_cases)
  case (2 buf s ret x q y eq s')
  then have "gettoken buf s = (ret, q, eq, s')" "ret \<noteq> 0" by auto
  then show ?case using gettoken_pos [of buf s ret q eq s'] by auto
qed simp

declare tokens.simps [simp del]

text \<open>Whether the next token begins with one of the bytes.\<close>

definition starts :: "uchar list \<Rightarrow> 'w tok list \<Rightarrow> bool" where
  "starts toks ts = (case ts of Sym c # _ \<Rightarrow> (if c = 43 then 62 else c) \<in> set toks | _ \<Rightarrow> False)"

lemma starts_simps [simp]: "\<not> starts toks []" "\<not> starts toks (Word w # ts)" "starts toks (Sym c # ts) \<longleftrightarrow> (if c = 43 then 62 else c) \<in> set toks"
  by (simp_all add: starts_def)

lemma lex_token:
  assumes "gettoken buf s = (ret, q, eq, s')"
  shows "tokens buf s = (if ret = 0 then [] else (if ret = 97 then Word (q, eq) else Sym ret) # tokens buf s')"
  using assms by (subst tokens.simps) simp

lemma lex_peek:
  assumes "peek buf s toks = (b, s')" and "set toks \<subseteq> set symbols"
  shows "tokens buf s' = tokens buf s" and "b \<longleftrightarrow> starts toks (tokens buf s)"
proof -
  have g: "gettoken buf s' = gettoken buf s" by (rule peek_pos(3) [OF assms(1)])
  show "tokens buf s' = tokens buf s" by (subst tokens.simps, subst (2) tokens.simps) (simp add: g)
  obtain ret q eq s'' where t: "gettoken buf s = (ret, q, eq, s'')" by (metis prod_cases4)
  then have q: "q = skip_ws buf s" and r: "ret = fst (if at buf q = 0 then (0 :: uchar, q) else if at buf q \<in> {124, 40, 41, 59, 38, 60} then (at buf q, q + 1)
      else if at buf q = 62 then (if at buf (q + 1) = 62 then (43, q + 2) else (62, q + 1))
      else (97, skip (\<lambda>c. c \<notin> set whitespace \<and> c \<notin> set symbols) buf q))"
    by (auto simp: gettoken_def Let_def split: prod.splits)
  have b: "b \<longleftrightarrow> at buf q \<noteq> 0 \<and> at buf q \<in> set toks" using assms(1) q by (auto simp: peek_def Let_def)
  show "b \<longleftrightarrow> starts toks (tokens buf s)"
    unfolding lex_token [OF t] using b r assms(2) by (auto simp: symbols_def split: if_splits)
qed

lemma lex_length: "length (tokens buf s) \<le> length buf - s"
proof (induction buf s rule: tokens.induct)
  case (1 buf s)
  obtain ret q eq s' where t: "gettoken buf s = (ret, q, eq, s')" by (metis prod_cases4)
  show ?case
  proof (cases "ret = 0")
    case False
    then have "length (tokens buf s') \<le> length buf - s'" using "1.IH" [OF t [symmetric] refl refl] by simp
    moreover have "length buf - s' < length buf - s" using gettoken_pos [OF t] False by auto
    ultimately show ?thesis unfolding lex_token [OF t] by simp
  qed (simp add: lex_token [OF t])
qed

section \<open>The grammar\<close>

text \<open>A simple command is a sequence of words and redirections in any order. The relation gives its words and its
  redirections, each with its symbol and its file.\<close>

inductive simple :: "'w tok list \<Rightarrow> 'w list \<Rightarrow> (uchar \<times> 'w) list \<Rightarrow> bool" where
  simple_Nil: "simple [] [] []"
| simple_Word: "simple ts ws rs \<Longrightarrow> simple (Word w # ts) (w # ws) rs"
| simple_redir: "simple ts ws rs \<Longrightarrow> r \<in> {60, 62, 43} \<Longrightarrow> simple (Sym r # Word w # ts) ws ((r, w) # rs)"

text \<open>What a redirection means: \<^verbatim>\<open><\<close> opens the file for reading (mode 0) as descriptor 0, and \<^verbatim>\<open>>\<close> and \<^verbatim>\<open>>>\<close> create it and open
  it for writing (mode \<^verbatim>\<open>0x201\<close>) as descriptor 1. The first redirection is the innermost node of the tree.\<close>

fun redirected :: "'w cmd \<Rightarrow> (uchar \<times> 'w) list \<Rightarrow> 'w cmd" where
  "redirected c [] = c"
| "redirected c ((r, w) # rs) = redirected (if r = 60 then REDIR c w 0 0 else REDIR c w 0x201 1) rs"

text \<open>Lines, pipelines and commands with the trees that they stand for. A simple command has fewer than 10 words.\<close>

inductive g_line :: "'w tok list \<Rightarrow> 'w cmd \<Rightarrow> bool"
  and g_pipe :: "'w tok list \<Rightarrow> 'w cmd \<Rightarrow> bool"
  and g_exec :: "'w tok list \<Rightarrow> 'w cmd \<Rightarrow> bool" where
  line_last: "g_pipe ts c \<Longrightarrow> g_line (ts @ replicate n (Sym 38)) ((BACK ^^ n) c)"
| line_list: "g_pipe ts c \<Longrightarrow> g_line us d \<Longrightarrow> g_line (ts @ replicate n (Sym 38) @ Sym 59 # us) (LIST ((BACK ^^ n) c) d)"
| pipe_last: "g_exec ts c \<Longrightarrow> g_pipe ts c"
| pipe_pipe: "g_exec ts c \<Longrightarrow> g_pipe us d \<Longrightarrow> g_pipe (ts @ Sym 124 # us) (PIPE c d)"
| exec_simple: "simple ts ws rs \<Longrightarrow> length ws < 10 \<Longrightarrow> g_exec ts (redirected (EXEC ws) rs)"
| exec_block: "g_line ts c \<Longrightarrow> simple us [] rs \<Longrightarrow> g_exec (Sym 40 # ts @ Sym 41 # us) (redirected c rs)"

section \<open>Building the tree step by step\<close>

text \<open>The parser adds words and redirections to the tree it has, in the order of the tokens. These relations describe its
  steps, and agree with the grammar.\<close>

inductive redir :: "word_at tok list \<Rightarrow> word_at cmd \<Rightarrow> word_at cmd \<Rightarrow> bool" where
  "r \<in> {60, 62, 43} \<Longrightarrow> redir [Sym r, Word w] c (redir_tok c r w)"

inductive redirs :: "word_at tok list \<Rightarrow> word_at cmd \<Rightarrow> word_at cmd \<Rightarrow> bool" where
  redirs_Nil: "redirs [] c c"
| redirs_Cons: "redir r c c' \<Longrightarrow> redirs ts c' c'' \<Longrightarrow> redirs (r @ ts) c c''"

inductive items :: "nat \<Rightarrow> word_at tok list \<Rightarrow> word_at cmd \<Rightarrow> word_at cmd \<Rightarrow> bool" where
  items_Nil: "items 0 [] c c"
| items_Word: "items n ts (add_arg c w) c' \<Longrightarrow> items (Suc n) (Word w # ts) c c'"
| items_redir: "redir r c c' \<Longrightarrow> items n ts c' c'' \<Longrightarrow> items n (r @ ts) c c''"

lemma redir_tok_redirected: "r \<in> {60, 62, 43} \<Longrightarrow> redir_tok c r w = redirected c [(r, w)]"
  by (auto simp: redir_tok_def)

lemma redirected_append: "redirected c (rs @ rs') = redirected (redirected c rs) rs'"
  by (induction c rs rule: redirected.induct) auto

lemma redirected_snoc: "r \<in> {60, 62, 43} \<Longrightarrow> redir_tok (redirected c rs) r w = redirected c (rs @ [(r, w)])"
  by (simp add: redir_tok_redirected redirected_append)

lemma add_arg_redirected: "add_arg (redirected c rs) w = redirected (add_arg c w) rs"
  by (induction c rs rule: redirected.induct) auto

lemma redirs_simple: "redirs ts c c' \<Longrightarrow> \<exists>rs. simple ts [] rs \<and> c' = redirected c rs"
proof (induction rule: redirs.induct)
  case (redirs_Cons r c c' ts c'')
  then obtain k w rs where r: "r = [Sym k, Word w]" "k \<in> {60, 62, 43}" "c' = redirected c [(k, w)]" and
    rs: "simple ts [] rs" "c'' = redirected c' rs" by (auto elim!: redir.cases simp: redir_tok_redirected)
  then have "simple (r @ ts) [] ((k, w) # rs)" "c'' = redirected c ((k, w) # rs)" by (auto intro: simple.intros)
  then show ?case by blast
qed (use simple_Nil in auto)

lemma simple_redirs: "simple ts ws rs \<Longrightarrow> ws = [] \<Longrightarrow> redirs ts c (redirected c rs)"
proof (induction arbitrary: c rule: simple.induct)
  case (simple_redir ts ws rs r w)
  have "redir [Sym r, Word w] c (redirected c [(r, w)])" using redir.intros [of r w c] simple_redir.hyps(2) by (simp add: redir_tok_redirected)
  from redirs_Cons [OF this simple_redir.IH [OF simple_redir.prems]] show ?case by (simp add: redirected_append [symmetric])
qed (auto intro: redirs_Nil)

lemma items_simple: "items n ts c c' \<Longrightarrow> c = redirected (EXEC vs) qs \<Longrightarrow>
  \<exists>ws rs. simple ts ws rs \<and> n = length ws \<and> c' = redirected (EXEC (vs @ ws)) (qs @ rs)"
proof (induction arbitrary: vs qs rule: items.induct)
  case (items_Nil c)
  then show ?case using simple_Nil by (metis append_Nil2 list.size(3))
next
  case (items_Word n ts c w c')
  then have "add_arg c w = redirected (EXEC (vs @ [w])) qs" by (simp add: add_arg_redirected)
  then obtain ws rs where "simple ts ws rs" "n = length ws" "c' = redirected (EXEC ((vs @ [w]) @ ws)) (qs @ rs)" using items_Word.IH by blast
  then show ?case by (intro exI [of _ "w # ws"] exI [of _ rs]) (auto intro: simple_Word)
next
  case (items_redir r c c' n ts c'')
  then obtain k w where r: "r = [Sym k, Word w]" "k \<in> {60, 62, 43}" "c' = redir_tok c k w" by (auto elim: redir.cases)
  then have "c' = redirected (EXEC vs) (qs @ [(k, w)])" using items_redir.prems by (simp add: redirected_snoc)
  then obtain ws rs where "simple ts ws rs" "n = length ws" "c'' = redirected (EXEC (vs @ ws)) ((qs @ [(k, w)]) @ rs)" using items_redir.IH by blast
  then show ?case using r by (intro exI [of _ ws] exI [of _ "(k, w) # rs"]) (auto intro: simple_redir)
qed

lemma simple_items: "simple ts ws rs \<Longrightarrow> items (length ws) ts (redirected (EXEC vs) qs) (redirected (EXEC (vs @ ws)) (qs @ rs))"
proof (induction arbitrary: vs qs rule: simple.induct)
  case (simple_Word ts ws rs w)
  then show ?case using items_Word [of "length ws" ts "redirected (EXEC vs) qs" w] simple_Word.IH [of "vs @ [w]" qs]
    by (simp add: add_arg_redirected)
next
  case (simple_redir ts ws rs r w)
  then show ?case using items_redir [OF redir.intros [of r w "redirected (EXEC vs) qs"]] simple_redir.IH [of vs "qs @ [(r, w)]"]
    by (simp add: redirected_snoc)
qed (simp add: items_Nil)

lemma exec_items: "items n ts (EXEC []) c \<Longrightarrow> n < MAXARGS \<Longrightarrow> g_exec ts c"
  using items_simple [of n ts "EXEC []" c "[]" "[]"] exec_simple by (auto simp: MAXARGS_def)

lemma exec_redirs: "g_line ts c \<Longrightarrow> redirs rs c c' \<Longrightarrow> g_exec (Sym 40 # ts @ Sym 41 # rs) c'"
  using redirs_simple [of rs c c'] exec_block by blast

section \<open>One step of the parser on the tokens\<close>

lemma peek_True:
  assumes "starts toks (tokens buf s)" and "set toks \<subseteq> set symbols"
  obtains s1 where "peek buf s toks = (True, s1)" and "tokens buf s1 = tokens buf s"
  using assms lex_peek [of buf s toks] by (metis surj_pair)

lemma peek_False:
  assumes "\<not> starts toks (tokens buf s)" and "set toks \<subseteq> set symbols"
  obtains s1 where "peek buf s toks = (False, s1)" and "tokens buf s1 = tokens buf s"
  using assms lex_peek [of buf s toks] by (metis surj_pair)

lemma get_Sym:
  assumes "tokens buf s = Sym r # ts"
  obtains q eq s1 where "gettoken buf s = (r, q, eq, s1)" and "tokens buf s1 = ts" and "r \<noteq> 0" and "r \<noteq> 97"
proof -
  obtain ret q eq s1 where g: "gettoken buf s = (ret, q, eq, s1)" by (metis prod_cases4)
  then show thesis using that [of q eq s1] lex_token [OF g] assms by (auto split: if_splits)
qed

lemma get_Word:
  assumes "tokens buf s = Word w # ts"
  obtains s1 where "gettoken buf s = (97, fst w, snd w, s1)" and "tokens buf s1 = ts"
proof -
  obtain ret q eq s1 where g: "gettoken buf s = (ret, q, eq, s1)" by (metis prod_cases4)
  then show thesis using that [of s1] lex_token [OF g] assms by (auto split: if_splits)
qed

lemma get_end:
  assumes "tokens buf s = []"
  obtains q eq s1 where "gettoken buf s = (0, q, eq, s1)" and "tokens buf s1 = []"
proof -
  obtain ret q eq s1 where g: "gettoken buf s = (ret, q, eq, s1)" by (metis prod_cases4)
  then have z: "ret = 0" using lex_token [OF g] assms by (auto split: if_splits)
  then have "at buf q = 0" "q = skip_ws buf s" "s1 = skip_ws buf q" using g
    by (auto simp: gettoken_def Let_def split: if_splits prod.splits)
  then have "gettoken buf s1 = gettoken buf s" by (simp add: gettoken_def skip_ws_idem)
  then have "tokens buf s1 = []" using g z lex_token [of buf s1 ret q eq s1] by simp
  then show thesis using that g z by blast
qed

lemma tok_symbols: "set [60, 62] \<subseteq> set symbols" "set [124, 41, 38, 59] \<subseteq> set symbols" "set [38] \<subseteq> set symbols" "set [59] \<subseteq> set symbols"
  "set [124] \<subseteq> set symbols" "set [40] \<subseteq> set symbols" "set [41] \<subseteq> set symbols" "set [] \<subseteq> set symbols"
  by (auto simp: symbols_def)

section \<open>What the routines accept\<close>

text \<open>The tokens taken by a routine that returns.\<close>

lemma parseredirs_step:
  assumes "tokens buf s = [Sym r, Word w] @ ts" and "r \<in> {60, 62, 43}"
  obtains s1 where "parseredirs buf c s = parseredirs buf (redir_tok c r w) s1" and "tokens buf s1 = ts"
proof -
  have st: "starts [60, 62] (tokens buf s)" using assms by auto
  obtain s1 where p: "peek buf s [60, 62] = (True, s1)" "tokens buf s1 = tokens buf s" by (rule peek_True [OF st tok_symbols(1)])
  have "tokens buf s1 = Sym r # Word w # ts" using assms(1) p(2) by simp
  then obtain q eq s2 where g: "gettoken buf s1 = (r, q, eq, s2)" "tokens buf s2 = Word w # ts" by (metis get_Sym)
  obtain s3 where h: "gettoken buf s2 = (97, fst w, snd w, s3)" "tokens buf s3 = ts" using get_Word [OF g(2)] .
  have "parseredirs buf c s = parseredirs buf (redir_tok c r w) s3" by (subst parseredirs.simps) (simp add: p g h)
  then show thesis using that h(2) by blast
qed

lemma parseredirs_stop:
  assumes "\<not> starts [60, 62] (tokens buf s)"
  obtains s1 where "parseredirs buf c s = PGot c s1" and "tokens buf s1 = tokens buf s"
proof -
  obtain s1 where p: "peek buf s [60, 62] = (False, s1)" "tokens buf s1 = tokens buf s" by (rule peek_False [OF assms tok_symbols(1)])
  have "parseredirs buf c s = PGot c s1" by (subst parseredirs.simps) (simp add: p)
  then show thesis using that p(2) by blast
qed

lemma starts_redir: "starts [60, 62] ts \<longleftrightarrow> (\<exists>r ts'. ts = Sym r # ts' \<and> r \<in> {60, 62, 43})"
  by (cases ts rule: list.exhaust) (auto simp: starts_def split: tok.splits if_splits)

lemma redirs_sound: "parseredirs buf c s = PGot c' s' \<Longrightarrow> \<exists>ts. tokens buf s = ts @ tokens buf s' \<and> redirs ts c c' \<and> \<not> starts [60, 62] (tokens buf s')"
proof (induction "length (tokens buf s)" arbitrary: c s rule: less_induct)
  case less
  show ?case
  proof (cases "starts [60, 62] (tokens buf s)")
    case False
    then obtain s1 where "parseredirs buf c s = PGot c s1" "tokens buf s1 = tokens buf s" by (rule parseredirs_stop)
    then show ?thesis using less.prems False redirs_Nil by auto
  next
    case True
    then obtain r ts where r: "tokens buf s = Sym r # ts" "r \<in> {60, 62, 43}" using starts_redir by blast
    show ?thesis
    proof (cases "\<exists>w us. ts = Word w # us")
      case True
      then obtain w us where l: "tokens buf s = [Sym r, Word w] @ us" using r by auto
      then obtain s1 where s1: "parseredirs buf c s = parseredirs buf (redir_tok c r w) s1" "tokens buf s1 = us" using r(2) by (rule parseredirs_step)
      then obtain vs where "tokens buf s1 = vs @ tokens buf s'" "redirs vs (redir_tok c r w) c'" "\<not> starts [60, 62] (tokens buf s')"
        using less.hyps [of s1] less.prems l by auto
      then show ?thesis using l s1(2) redirs_Cons [OF redir.intros [OF r(2)]] by auto
    next
      case False
      obtain s1 where p: "peek buf s [60, 62] = (True, s1)" "tokens buf s1 = tokens buf s" by (rule peek_True [OF True tok_symbols(1)])
      obtain q eq s2 where g: "gettoken buf s1 = (r, q, eq, s2)" "tokens buf s2 = ts" using r(1) p(2) by (metis get_Sym)
      obtain tok q' eq' s3 where h: "gettoken buf s2 = (tok, q', eq', s3)" by (metis prod_cases4)
      have "tok \<noteq> 97" using lex_token [OF h] g(2) False by auto
      then show ?thesis using less.prems p g h by (subst (asm) parseredirs.simps) simp
    qed
  qed
qed

lemma redirs_complete:
  "redirs ts c c' \<Longrightarrow> tokens buf s = ts @ rest \<Longrightarrow> \<not> starts [60, 62] rest \<Longrightarrow> \<exists>s'. parseredirs buf c s = PGot c' s' \<and> tokens buf s' = rest"
proof (induction arbitrary: s rule: redirs.induct)
  case (redirs_Nil c)
  then show ?case using parseredirs_stop [of buf s c] by auto
next
  case (redirs_Cons r c c' ts c'')
  from redirs_Cons.hyps(1) obtain k w where r: "r = [Sym k, Word w]" "k \<in> {60, 62, 43}" "c' = redir_tok c k w" by (auto elim: redir.cases)
  then have "tokens buf s = [Sym k, Word w] @ (ts @ rest)" using redirs_Cons.prems(1) by simp
  then obtain s1 where "parseredirs buf c s = parseredirs buf (redir_tok c k w) s1" "tokens buf s1 = ts @ rest" using r(2) by (rule parseredirs_step)
  then show ?case using redirs_Cons.IH redirs_Cons.prems(2) r(3) by simp
qed

lemma items_redirs: "redirs rs c c' \<Longrightarrow> items n ts c' c'' \<Longrightarrow> items n (rs @ ts) c c''"
  by (induction rule: redirs.induct) (auto intro: items_redir)

text \<open>The loop of \<^verbatim>\<open>parseexec\<close> goes on at a word, and stops at the end and in front of the symbols that may follow.\<close>

definition after_exec :: "'w tok list \<Rightarrow> bool" where
  "after_exec ts \<longleftrightarrow> ts = [] \<or> starts [124, 41, 38, 59] ts"

lemma after_exec_simps [simp]: "after_exec []" "\<not> after_exec (Word w # ts)" "after_exec (Sym r # ts) \<longleftrightarrow> r \<in> {124, 41, 38, 59}"
  by (auto simp: after_exec_def)

lemma after_exec_not_redir: "after_exec ts \<Longrightarrow> \<not> starts [60, 62] ts"
  by (auto simp: after_exec_def starts_def split: list.splits tok.splits if_splits)

lemma loop_stop:
  assumes "after_exec (tokens buf s)"
  obtains s1 where "parseexec_loop buf n c s = PGot c s1" and "tokens buf s1 = tokens buf s"
proof (cases "starts [124, 41, 38, 59] (tokens buf s)")
  case True
  then obtain s1 where p: "peek buf s [124, 41, 38, 59] = (True, s1)" "tokens buf s1 = tokens buf s" using tok_symbols(2) by (rule peek_True)
  have "parseexec_loop buf n c s = PGot c s1" by (subst parseexec_loop.simps) (simp add: p)
  then show thesis using that p(2) by blast
next
  case False
  then have e: "tokens buf s = []" using assms by (simp add: after_exec_def)
  obtain s1 where p: "peek buf s [124, 41, 38, 59] = (False, s1)" "tokens buf s1 = tokens buf s" using False tok_symbols(2) by (rule peek_False)
  then obtain q eq s2 where g: "gettoken buf s1 = (0, q, eq, s2)" "tokens buf s2 = []" using e by (metis get_end)
  have "parseexec_loop buf n c s = PGot c s2" by (subst parseexec_loop.simps) (simp add: p g)
  then show thesis using that g(2) e by simp
qed

lemma loop_word:
  assumes "tokens buf s = Word w # ts" and "n + 1 < MAXARGS"
  obtains s1 where "parseexec_loop buf n c s = pbind (parseredirs buf (add_arg c w) s1) (\<lambda>ret s. parseexec_loop buf (n + 1) ret s)" and "tokens buf s1 = ts"
proof -
  obtain s1 where p: "peek buf s [124, 41, 38, 59] = (False, s1)" "tokens buf s1 = tokens buf s" using assms(1) tok_symbols(2) peek_False by (metis starts_simps(2))
  obtain s2 where g: "gettoken buf s1 = (97, fst w, snd w, s2)" "tokens buf s2 = ts" using p(2) assms(1) by (metis get_Word)
  have "parseexec_loop buf n c s = pbind (parseredirs buf (add_arg c w) s2) (\<lambda>ret s. parseexec_loop buf (n + 1) ret s)"
    using assms(2) by (subst parseexec_loop.simps) (simp add: p g)
  then show thesis using that g(2) by blast
qed

lemma loop_other:
  assumes "parseexec_loop buf n c s = PGot c' s'"
  shows "after_exec (tokens buf s) \<or> (\<exists>w ts. tokens buf s = Word w # ts \<and> n + 1 < MAXARGS)"
proof (rule ccontr)
  assume not: "\<not> ?thesis"
  then have "\<not> starts [124, 41, 38, 59] (tokens buf s)" by (simp add: after_exec_def)
  then obtain s1 where p: "peek buf s [124, 41, 38, 59] = (False, s1)" "tokens buf s1 = tokens buf s" using tok_symbols(2) by (rule peek_False)
  obtain tok q eq s2 where g: "gettoken buf s1 = (tok, q, eq, s2)" by (metis prod_cases4)
  have "tok \<noteq> 0" "tok = 97 \<Longrightarrow> MAXARGS \<le> n + 1" using lex_token [OF g] p(2) not by auto
  then show False using assms p g by (subst (asm) parseexec_loop.simps) (simp split: if_splits)
qed

lemma pbind_GotE: "pbind m f = PGot x s \<Longrightarrow> (\<And>y t. m = PGot y t \<Longrightarrow> f y t = PGot x s \<Longrightarrow> P) \<Longrightarrow> P"
  by (cases m) auto

lemma items_sound:
  "parseexec_loop buf n c s = PGot c' s' \<Longrightarrow> n < MAXARGS \<Longrightarrow>
   \<exists>m ts. tokens buf s = ts @ tokens buf s' \<and> items m ts c c' \<and> n + m < MAXARGS"
proof (induction "length (tokens buf s)" arbitrary: n c s rule: less_induct)
  case less
  from loop_other [OF less.prems(1)] show ?case
  proof
    assume "after_exec (tokens buf s)"
    then obtain s1 where "parseexec_loop buf n c s = PGot c s1" "tokens buf s1 = tokens buf s" by (rule loop_stop)
    then show ?thesis using less.prems items_Nil by (metis add.right_neutral append_Nil pr.inject(1))
  next
    assume "\<exists>w ts. tokens buf s = Word w # ts \<and> n + 1 < MAXARGS"
    then obtain w ts where w: "tokens buf s = Word w # ts" "n + 1 < MAXARGS" by blast
    then obtain s1 where s1: "parseexec_loop buf n c s = pbind (parseredirs buf (add_arg c w) s1) (\<lambda>ret s. parseexec_loop buf (n + 1) ret s)"
      "tokens buf s1 = ts" by (rule loop_word)
    obtain d s2 where d: "parseredirs buf (add_arg c w) s1 = PGot d s2" "parseexec_loop buf (n + 1) d s2 = PGot c' s'"
      using less.prems(1) unfolding s1(1) by (rule pbind_GotE)
    obtain rs where rs: "tokens buf s1 = rs @ tokens buf s2" "redirs rs (add_arg c w) d" using redirs_sound [OF d(1)] by blast
    have "length (tokens buf s2) < length (tokens buf s)" using rs(1) w(1) s1(2) by simp
    then obtain m us where us: "tokens buf s2 = us @ tokens buf s'" "items m us d c'" "n + 1 + m < MAXARGS" using less.hyps d(2) w(2) by blast
    have "items (Suc m) (Word w # rs @ us) c c'" using items_Word [OF items_redirs [OF rs(2) us(2)]] .
    moreover have "tokens buf s = (Word w # rs @ us) @ tokens buf s'" using w(1) s1(2) rs(1) us(1) by simp
    ultimately show ?thesis using us(3) by (metis add_Suc_shift Suc_eq_plus1 add_Suc)
  qed
qed

lemma items_complete:
  "items m ts c c' \<Longrightarrow> tokens buf s = ts @ rest \<Longrightarrow> after_exec rest \<Longrightarrow> n + m < MAXARGS \<Longrightarrow>
   \<exists>s'. pbind (parseredirs buf c s) (\<lambda>ret s. parseexec_loop buf n ret s) = PGot c' s' \<and> tokens buf s' = rest"
proof (induction arbitrary: s n rule: items.induct)
  case (items_Nil c)
  then have e: "tokens buf s = rest" by simp
  obtain s1 where s1: "parseredirs buf c s = PGot c s1" "tokens buf s1 = rest" using parseredirs_stop [of buf s c] after_exec_not_redir items_Nil.prems(2) e by metis
  obtain s2 where "parseexec_loop buf n c s1 = PGot c s2" "tokens buf s2 = rest" using loop_stop [of buf s1 n c] s1(2) items_Nil.prems(2) by metis
  then show ?case using s1 by simp
next
  case (items_Word m ts c w c')
  obtain s1 where s1: "parseredirs buf c s = PGot c s1" "tokens buf s1 = Word w # (ts @ rest)"
    using parseredirs_stop [of buf s c] items_Word.prems(1) by (metis append_Cons starts_simps(2))
  obtain s2 where "parseexec_loop buf n c s1 = pbind (parseredirs buf (add_arg c w) s2) (\<lambda>ret s. parseexec_loop buf (n + 1) ret s)" "tokens buf s2 = ts @ rest"
    using loop_word [OF s1(2), of n c] items_Word.prems(3) by auto
  then show ?case using items_Word.IH [of s2 "n + 1"] items_Word.prems(2,3) s1(1) by simp
next
  case (items_redir r c c' m ts c'')
  from items_redir.hyps(1) obtain k w where r: "r = [Sym k, Word w]" "k \<in> {60, 62, 43}" "c' = redir_tok c k w" by (auto elim: redir.cases)
  then have "tokens buf s = [Sym k, Word w] @ (ts @ rest)" using items_redir.prems(1) by simp
  then obtain s1 where "parseredirs buf c s = parseredirs buf (redir_tok c k w) s1" "tokens buf s1 = ts @ rest" using r(2) by (rule parseredirs_step)
  then show ?case using items_redir.IH items_redir.prems(2,3) r(3) by simp
qed

text \<open>Looking for one symbol, which is then taken.\<close>

lemma starts_one: "r \<notin> {43, 62} \<Longrightarrow> starts [r] ts \<longleftrightarrow> (\<exists>us. ts = Sym r # us)"
  by (cases ts rule: list.exhaust) (auto simp: starts_def split: tok.splits)

lemma sym_step:
  assumes "tokens buf s = Sym r # ts" and "r \<in> {38, 59, 124, 40, 41}"
  obtains s1 q eq s2 where "peek buf s [r] = (True, s1)" and "gettoken buf s1 = (r, q, eq, s2)" and "tokens buf s2 = ts"
proof -
  have "starts [r] (tokens buf s)" "set [r] \<subseteq> set symbols" using assms by (auto simp: symbols_def)
  then obtain s1 where s1: "peek buf s [r] = (True, s1)" "tokens buf s1 = tokens buf s" by (rule peek_True)
  then have "tokens buf s1 = Sym r # ts" using assms(1) by simp
  then obtain q eq s2 where "gettoken buf s1 = (r, q, eq, s2)" "tokens buf s2 = ts" by (metis get_Sym)
  then show thesis using that s1(1) by blast
qed

lemma sym_none:
  assumes "\<forall>ts. tokens buf s \<noteq> Sym r # ts" and "r \<in> {38, 59, 124, 40, 41}"
  obtains s1 where "peek buf s [r] = (False, s1)" and "tokens buf s1 = tokens buf s"
proof -
  have "\<not> starts [r] (tokens buf s)" "set [r] \<subseteq> set symbols" using assms starts_one [of r "tokens buf s"] by (auto simp: symbols_def)
  then show thesis using that by (rule peek_False)
qed

lemma backs_complete:
  "tokens buf s = replicate n (Sym 38) @ rest \<Longrightarrow> \<forall>us. rest \<noteq> Sym 38 # us \<Longrightarrow> \<exists>s'. parsebacks buf c s = PGot ((BACK ^^ n) c) s' \<and> tokens buf s' = rest"
proof (induction n arbitrary: s c)
  case 0
  then obtain s1 where p: "peek buf s [38] = (False, s1)" "tokens buf s1 = tokens buf s" using sym_none [of buf s 38] by auto
  have "parsebacks buf c s = PGot c s1" by (subst parsebacks.simps) (simp add: p)
  then show ?case using p(2) 0 by auto
next
  case (Suc n)
  then have "tokens buf s = Sym 38 # (replicate n (Sym 38) @ rest)" by simp
  then obtain s1 q eq s2 where p: "peek buf s [38] = (True, s1)" "gettoken buf s1 = (38, q, eq, s2)" "tokens buf s2 = replicate n (Sym 38) @ rest"
    by (rule sym_step) auto
  have "parsebacks buf c s = parsebacks buf (BACK c) s2" by (subst parsebacks.simps) (simp add: p)
  then show ?case using Suc.IH [OF p(3) Suc.prems(2), of "BACK c"] by (simp add: funpow_swap1)
qed

lemma leading: "\<exists>n rest. ts = replicate n (Sym r) @ rest \<and> (\<forall>us. rest \<noteq> Sym r # us)"
proof (induction ts)
  case (Cons t ts)
  then obtain n rest where "ts = replicate n (Sym r) @ rest" "\<forall>us. rest \<noteq> Sym r # us" by blast
  then show ?case
    by (cases "t = Sym r") (metis append_Cons replicate_Suc, metis append_Nil list.inject replicate_0)
qed simp

lemma backs_total:
  obtains n s' where "parsebacks buf c s = PGot ((BACK ^^ n) c) s'" and "tokens buf s = replicate n (Sym 38) @ tokens buf s'"
proof -
  obtain n rest where "tokens buf s = replicate n (Sym 38) @ rest" "\<forall>us. rest \<noteq> Sym 38 # us" using leading by metis
  then show thesis using backs_complete that by metis
qed

text \<open>What is promised by a routine with the nonterminal \<open>G\<close>: the tokens it has taken derive its result, and the depth was enough
  if \<open>D\<close> holds.\<close>

definition parses :: "(word_at tok list \<Rightarrow> word_at cmd \<Rightarrow> bool) \<Rightarrow> bool \<Rightarrow> uchar list \<Rightarrow> nat \<Rightarrow> word_at cmd pr \<Rightarrow> bool" where
  "parses G D buf s m \<longleftrightarrow>
     (case m of PGot c s' \<Rightarrow> \<exists>ts. tokens buf s = ts @ tokens buf s' \<and> G ts c | PSyn _ \<Rightarrow> True | PDeep \<Rightarrow> \<not> D)"

lemma parses_simps [simp]: "parses G D buf s (PGot c s') \<longleftrightarrow> (\<exists>ts. tokens buf s = ts @ tokens buf s' \<and> G ts c)"
  "parses G D buf s (PSyn e)" "parses G D buf s PDeep \<longleftrightarrow> \<not> D"
  by (simp_all add: parses_def)

lemma parses_bind:
  assumes "parses G D buf s m" and "D' \<Longrightarrow> D"
    and "\<And>c s' ts. tokens buf s = ts @ tokens buf s' \<Longrightarrow> G ts c \<Longrightarrow> parses H D' buf s (f c s')"
  shows "parses H D' buf s (pbind m f)"
  using assms by (cases m) auto

lemma redirs_shallow: "parseredirs buf c s \<noteq> PDeep"
  by (induction buf c s rule: parseredirs.induct) (subst parseredirs.simps, auto split: prod.splits)

lemma parses_redirs: "parses (\<lambda>ts c'. redirs ts c c') D buf s (parseredirs buf c s)"
  using redirs_sound [of buf c s] redirs_shallow [of buf c s] by (cases "parseredirs buf c s") auto

lemma loop_shallow: "parseexec_loop buf n c s \<noteq> PDeep"
proof (induction buf n c s rule: parseexec_loop.induct)
  case (1 buf n c s)
  obtain b s1 where p: "peek buf s [124, 41, 38, 59] = (b, s1)" by force
  obtain tok q eq s2 where g: "gettoken buf s1 = (tok, q, eq, s2)" by (metis prod_cases4)
  show ?case
    using "1.IH" [OF p [symmetric] _ g [symmetric] refl refl] redirs_shallow [of buf "add_arg c (q, eq)" s2]
    by (subst parseexec_loop.simps) (cases "parseredirs buf (add_arg c (q, eq)) s2"; simp add: p g)
qed

lemma parses_loop: "parses (\<lambda>ts c'. \<exists>m. items m ts c c' \<and> m < MAXARGS) D buf s (parseexec_loop buf 0 c s)"
proof (cases "parseexec_loop buf 0 c s")
  case (PGot c' s')
  then show ?thesis using items_sound [OF PGot] by (auto simp: MAXARGS_def)
qed (use loop_shallow [of buf 0 c s] in auto)

lemma parse_line_step:
  assumes "\<And>s. parses g_pipe (4 * length (tokens buf s) + 3 \<le> k) buf s (parsepipe k buf s)"
    and "\<And>s. parses g_line (4 * length (tokens buf s) + 4 \<le> k) buf s (parseline k buf s)"
  shows "parses g_line (4 * length (tokens buf s) + 4 \<le> Suc k) buf s (parseline (Suc k) buf s)"
  unfolding parseline.simps
proof (rule parses_bind [OF assms(1)])
  fix c s1 ts
  assume t: "tokens buf s = ts @ tokens buf s1" and c: "g_pipe ts c"
  obtain n s2 where b: "parsebacks buf c s1 = PGot ((BACK ^^ n) c) s2" "tokens buf s1 = replicate n (Sym 38) @ tokens buf s2" by (rule backs_total)
  show "parses g_line (4 * length (tokens buf s) + 4 \<le> Suc k) buf s
      (pbind (parsebacks buf c s1) (\<lambda>cmd s. case peek buf s [59] of (b, s) \<Rightarrow>
        if b then case gettoken buf s of (_, _, _, s) \<Rightarrow> pbind (parseline k buf s) (\<lambda>r s. PGot (listcmd cmd r) s) else PGot cmd s))"
  proof (cases "\<exists>us. tokens buf s2 = Sym 59 # us")
    case False
    then obtain s3 where "peek buf s2 [59] = (False, s3)" "tokens buf s3 = tokens buf s2" using sym_none [of buf s2 59] by auto
    then show ?thesis using b t line_last [OF c, of n] by auto
  next
    case True
    then obtain us where us: "tokens buf s2 = Sym 59 # us" ..
    then obtain s3 q eq s4 where g: "peek buf s2 [59] = (True, s3)" "gettoken buf s3 = (59, q, eq, s4)" "tokens buf s4 = us" by (rule sym_step) auto
    show ?thesis using assms(2) [of s4] b t us g line_list [OF c, of _ _ n] by (cases "parseline k buf s4") auto
  qed
qed simp

lemma parse_pipe_step:
  assumes "\<And>s. parses g_exec (4 * length (tokens buf s) + 2 \<le> k) buf s (parseexec k buf s)"
    and "\<And>s. parses g_pipe (4 * length (tokens buf s) + 3 \<le> k) buf s (parsepipe k buf s)"
  shows "parses g_pipe (4 * length (tokens buf s) + 3 \<le> Suc k) buf s (parsepipe (Suc k) buf s)"
  unfolding parsepipe.simps
proof (rule parses_bind [OF assms(1)])
  fix c s2 ts
  assume t: "tokens buf s = ts @ tokens buf s2" and c: "g_exec ts c"
  show "parses g_pipe (4 * length (tokens buf s) + 3 \<le> Suc k) buf s
      (case peek buf s2 [124] of (b, s) \<Rightarrow>
        if b then case gettoken buf s of (_, _, _, s) \<Rightarrow> pbind (parsepipe k buf s) (\<lambda>r s. PGot (pipecmd c r) s) else PGot c s)"
  proof (cases "\<exists>us. tokens buf s2 = Sym 124 # us")
    case False
    then obtain s3 where "peek buf s2 [124] = (False, s3)" "tokens buf s3 = tokens buf s2" using sym_none [of buf s2 124] by auto
    then show ?thesis using t pipe_last [OF c] by auto
  next
    case True
    then obtain us where us: "tokens buf s2 = Sym 124 # us" ..
    then obtain s3 q eq s4 where g: "peek buf s2 [124] = (True, s3)" "gettoken buf s3 = (124, q, eq, s4)" "tokens buf s4 = us" by (rule sym_step) auto
    show ?thesis using assms(2) [of s4] t us g pipe_pipe [OF c] by (cases "parsepipe k buf s4") auto
  qed
qed simp

text \<open>\<^verbatim>\<open>parseblock\<close> is called in front of a parenthesis.\<close>

lemma parse_exec_step:
  assumes "\<And>s us. tokens buf s = Sym 40 # us \<Longrightarrow> parses g_exec (4 * length (tokens buf s) + 1 \<le> k) buf s (parseblock k buf s)"
  shows "parses g_exec (4 * length (tokens buf s) + 2 \<le> Suc k) buf s (parseexec (Suc k) buf s)"
proof (cases "\<exists>us. tokens buf s = Sym 40 # us")
  case True
  then obtain us where us: "tokens buf s = Sym 40 # us" ..
  then have "starts [40] (tokens buf s)" by simp
  then obtain s1 where p: "peek buf s [40] = (True, s1)" "tokens buf s1 = tokens buf s" using tok_symbols(6) by (rule peek_True)
  show ?thesis using assms [of s1 us] us p by (cases "parseblock k buf s1") auto
next
  case False
  then obtain s1 where p: "peek buf s [40] = (False, s1)" "tokens buf s1 = tokens buf s" using sym_none [of buf s 40] by auto
  have "parses g_exec (4 * length (tokens buf s) + 2 \<le> Suc k) buf s1 (pbind (parseredirs buf (EXEC []) s1) (\<lambda>ret s. parseexec_loop buf 0 ret s))"
  proof (rule parses_bind [OF parses_redirs [of "EXEC []" True]])
    fix c s2 ts
    assume t: "tokens buf s1 = ts @ tokens buf s2" "redirs ts (EXEC []) c"
    then show "parses g_exec (4 * length (tokens buf s) + 2 \<le> Suc k) buf s1 (parseexec_loop buf 0 c s2)"
      using parses_loop [of c True buf s2] exec_items [OF items_redirs [OF t(2)]] by (cases "parseexec_loop buf 0 c s2") auto
  qed simp
  then show ?thesis using p by (simp add: parses_def split: pr.splits)
qed

lemma parse_block_step:
  assumes "\<And>s. parses g_line (4 * length (tokens buf s) + 4 \<le> k) buf s (parseline k buf s)" and "tokens buf s = Sym 40 # us"
  shows "parses g_exec (4 * length (tokens buf s) + 1 \<le> Suc k) buf s (parseblock (Suc k) buf s)"
proof -
  obtain s1 q eq s2 where g: "peek buf s [40] = (True, s1)" "gettoken buf s1 = (40, q, eq, s2)" "tokens buf s2 = us" using assms(2) by (rule sym_step) auto
  show ?thesis
  proof (cases "parseline k buf s2")
    case (PGot c s3)
    then obtain ts where t: "us = ts @ tokens buf s3" "g_line ts c" using assms(1) [of s2] g(3) by auto
    show ?thesis
    proof (cases "\<exists>vs. tokens buf s3 = Sym 41 # vs")
      case False
      then obtain s4 where "peek buf s3 [41] = (False, s4)" using sym_none [of buf s3 41] by auto
      then show ?thesis using g PGot by simp
    next
      case True
      then obtain vs where vs: "tokens buf s3 = Sym 41 # vs" ..
      then obtain s4 q' eq' s5 where h: "peek buf s3 [41] = (True, s4)" "gettoken buf s4 = (41, q', eq', s5)" "tokens buf s5 = vs" by (rule sym_step) auto
      then show ?thesis using g PGot parses_redirs [of c True buf s5] t vs exec_redirs [OF t(2)] assms(2) by (cases "parseredirs buf c s5") auto
    qed
  qed (use assms(1) [of s2] assms(2) g in auto)
qed

lemma parser_sound:
  "parses g_line (4 * length (tokens buf s) + 4 \<le> k) buf s (parseline k buf s) \<and>
   parses g_pipe (4 * length (tokens buf s) + 3 \<le> k) buf s (parsepipe k buf s) \<and>
   parses g_exec (4 * length (tokens buf s) + 2 \<le> k) buf s (parseexec k buf s) \<and>
   (\<forall>us. tokens buf s = Sym 40 # us \<longrightarrow> parses g_exec (4 * length (tokens buf s) + 1 \<le> k) buf s (parseblock k buf s))"
proof (induction k arbitrary: s)
  case (Suc k)
  then show ?case using parse_line_step parse_pipe_step parse_exec_step parse_block_step by blast
qed simp

section \<open>Every line of the grammar is parsed\<close>

definition after_line :: "'w tok list \<Rightarrow> bool" where
  "after_line ts \<longleftrightarrow> ts = [] \<or> (\<exists>us. ts = Sym 41 # us)"

definition after_pipe :: "'w tok list \<Rightarrow> bool" where
  "after_pipe ts \<longleftrightarrow> after_line ts \<or> (\<exists>r us. ts = Sym r # us \<and> r \<in> {38, 59})"

lemma after_exec_of: "after_pipe ts \<Longrightarrow> after_exec ts" "after_line ts \<Longrightarrow> after_pipe ts"
  by (auto simp: after_pipe_def after_line_def)

lemma after_backs: "after_line ts \<Longrightarrow> after_pipe (replicate n (Sym 38) @ ts)" "after_pipe (replicate n (Sym 38) @ Sym 59 # ts)"
  by (cases n; auto simp: after_pipe_def)+

lemma exec_block_complete:
  assumes line: "\<forall>s rest k. tokens buf s = ts @ rest \<longrightarrow> after_line rest \<longrightarrow> 4 * length (tokens buf s) + 4 \<le> k \<longrightarrow>
      (\<exists>s'. parseline k buf s = PGot c s' \<and> tokens buf s' = rest)"
    and rs: "redirs rs c c'" and s: "tokens buf s = (Sym 40 # ts @ Sym 41 # rs) @ rest" and rest: "after_exec rest"
    and k: "4 * length (tokens buf s) + 2 \<le> k"
  shows "\<exists>s'. parseexec k buf s = PGot c' s' \<and> tokens buf s' = rest"
proof -
  have k1: "k = Suc (Suc (k - 2))" using k by arith
  have "starts [40] (tokens buf s)" using s by simp
  then obtain s0 where p: "peek buf s [40] = (True, s0)" "tokens buf s0 = tokens buf s" using tok_symbols(6) by (rule peek_True)
  have "tokens buf s0 = Sym 40 # (ts @ Sym 41 # rs @ rest)" using p(2) s by simp
  then obtain s1 q eq s2 where g: "peek buf s0 [40] = (True, s1)" "gettoken buf s1 = (40, q, eq, s2)" "tokens buf s2 = ts @ Sym 41 # rs @ rest" by (rule sym_step) auto
  have "4 * length (tokens buf s2) + 4 \<le> k - 2" using g(3) s k by simp
  then obtain s3 where l: "parseline (k - 2) buf s2 = PGot c s3" "tokens buf s3 = Sym 41 # (rs @ rest)" using line [rule_format, OF g(3)] by (auto simp: after_line_def)
  from l(2) obtain s4 q' eq' s5 where h: "peek buf s3 [41] = (True, s4)" "gettoken buf s4 = (41, q', eq', s5)" "tokens buf s5 = rs @ rest" by (rule sym_step) auto
  obtain s6 where "parseredirs buf c s5 = PGot c' s6" "tokens buf s6 = rest" using redirs_complete [OF rs h(3) after_exec_not_redir [OF rest]] by blast
  then show ?thesis using p(1) g(1,2) l(1) h(1,2) by (subst k1) simp
qed

lemma items_not_block: "items n ts c c' \<Longrightarrow> \<forall>us. ts \<noteq> Sym 40 # us"
  by (induction rule: items.induct) (auto elim!: redir.cases)

lemma exec_simple_complete:
  assumes "items n ts (EXEC []) c" and "n < MAXARGS" and "tokens buf s = ts @ rest" and "after_exec rest"
    and "4 * length (tokens buf s) + 2 \<le> k"
  shows "\<exists>s'. parseexec k buf s = PGot c s' \<and> tokens buf s' = rest"
proof -
  obtain k1 where k1: "k = Suc k1" using assms(5) by (cases k) auto
  have "\<forall>us. ts \<noteq> Sym 40 # us" using assms(1) by (rule items_not_block)
  then have "\<forall>us. tokens buf s \<noteq> Sym 40 # us" using assms(3,4) by (cases ts) auto
  then obtain s1 where p: "peek buf s [40] = (False, s1)" "tokens buf s1 = tokens buf s" using sym_none [of buf s 40] by auto
  have "\<exists>s'. pbind (parseredirs buf (EXEC []) s1) (\<lambda>ret s. parseexec_loop buf 0 ret s) = PGot c s' \<and> tokens buf s' = rest"
    using items_complete [OF assms(1), of buf s1 rest 0] assms(2-4) p(2) by simp
  then show ?thesis using k1 p(1) by simp
qed

lemma pipe_pipe_complete:
  assumes exec: "\<forall>s rest k. tokens buf s = ts @ rest \<longrightarrow> after_exec rest \<longrightarrow> 4 * length (tokens buf s) + 2 \<le> k \<longrightarrow>
      (\<exists>s'. parseexec k buf s = PGot c s' \<and> tokens buf s' = rest)"
    and s: "tokens buf s = ts @ rest" and rest: "after_exec rest" and k: "4 * length (tokens buf s) + 3 \<le> k"
    and more: "\<And>k1 s1 us. rest = Sym 124 # us \<Longrightarrow> k = Suc k1 \<Longrightarrow> tokens buf s1 = us \<Longrightarrow> \<exists>s'. parsepipe k1 buf s1 = PGot d s' \<and> tokens buf s' = rest'"
    and e: "(e, rest'') = (if \<exists>us. rest = Sym 124 # us then (PIPE c d, rest') else (c, rest))"
  shows "\<exists>s'. parsepipe k buf s = PGot e s' \<and> tokens buf s' = rest''"
proof -
  obtain k1 where k1: "k = Suc k1" using k by (cases k) auto
  obtain s1 where s1: "parseexec k1 buf s = PGot c s1" "tokens buf s1 = rest" using exec [rule_format, OF s rest, of k1] k k1 by auto
  show ?thesis
  proof (cases "\<exists>us. rest = Sym 124 # us")
    case True
    then obtain us where us: "tokens buf s1 = Sym 124 # us" "rest = Sym 124 # us" using s1(2) by auto
    from us(1) obtain s2 q eq s3 where g: "peek buf s1 [124] = (True, s2)" "gettoken buf s2 = (124, q, eq, s3)" "tokens buf s3 = us" by (rule sym_step) auto
    obtain s4 where "parsepipe k1 buf s3 = PGot d s4" "tokens buf s4 = rest'" using more [OF us(2) k1 g(3)] by blast
    then show ?thesis using True e k1 s1(1) g(1,2) by simp
  next
    case False
    then obtain s2 where "peek buf s1 [124] = (False, s2)" "tokens buf s2 = tokens buf s1" using sym_none [of buf s1 124] s1(2) by auto
    then show ?thesis using False e k1 s1 by simp
  qed
qed

lemma line_list_complete:
  assumes pipe: "\<forall>s rest k. tokens buf s = ts @ rest \<longrightarrow> after_pipe rest \<longrightarrow> 4 * length (tokens buf s) + 3 \<le> k \<longrightarrow>
      (\<exists>s'. parsepipe k buf s = PGot c s' \<and> tokens buf s' = rest)"
    and s: "tokens buf s = ts @ replicate n (Sym 38) @ rest" and k: "4 * length (tokens buf s) + 4 \<le> k"
    and rest: "after_line rest \<or> (\<exists>us. rest = Sym 59 # us)"
    and more: "\<And>k1 s1 us. rest = Sym 59 # us \<Longrightarrow> k = Suc k1 \<Longrightarrow> tokens buf s1 = us \<Longrightarrow> \<exists>s'. parseline k1 buf s1 = PGot d s' \<and> tokens buf s' = rest'"
    and e: "(e, rest'') = (if \<exists>us. rest = Sym 59 # us then (LIST ((BACK ^^ n) c) d, rest') else ((BACK ^^ n) c, rest))"
  shows "\<exists>s'. parseline k buf s = PGot e s' \<and> tokens buf s' = rest''"
proof -
  obtain k1 where k1: "k = Suc k1" using k by (cases k) auto
  have "after_pipe (replicate n (Sym 38) @ rest)" using rest after_backs by auto
  then obtain s0 where s0: "parsepipe k1 buf s = PGot c s0" "tokens buf s0 = replicate n (Sym 38) @ rest" using pipe [rule_format, OF s, of k1] k k1 by auto
  have "\<forall>us. rest \<noteq> Sym 38 # us" using rest by (auto simp: after_line_def)
  then obtain s1 where s1: "parsebacks buf c s0 = PGot ((BACK ^^ n) c) s1" "tokens buf s1 = rest" using backs_complete [OF s0(2)] by blast
  show ?thesis
  proof (cases "\<exists>us. rest = Sym 59 # us")
    case True
    then obtain us where us: "tokens buf s1 = Sym 59 # us" "rest = Sym 59 # us" using s1(2) by auto
    from us(1) obtain s2 q eq s3 where g: "peek buf s1 [59] = (True, s2)" "gettoken buf s2 = (59, q, eq, s3)" "tokens buf s3 = us" by (rule sym_step) auto
    obtain s4 where "parseline k1 buf s3 = PGot d s4" "tokens buf s4 = rest'" using more [OF us(2) k1 g(3)] by blast
    then show ?thesis using True e k1 s0(1) s1(1) g(1,2) by simp
  next
    case False
    then obtain s2 where "peek buf s1 [59] = (False, s2)" "tokens buf s2 = tokens buf s1" using sym_none [of buf s1 59] s1(2) by auto
    then show ?thesis using False e k1 s0(1) s1 by simp
  qed
qed

lemma parser_complete:
  "g_line ts c \<Longrightarrow> \<forall>s rest k. tokens buf s = ts @ rest \<longrightarrow> after_line rest \<longrightarrow> 4 * length (tokens buf s) + 4 \<le> k \<longrightarrow>
     (\<exists>s'. parseline k buf s = PGot c s' \<and> tokens buf s' = rest)"
  "g_pipe ts c \<Longrightarrow> \<forall>s rest k. tokens buf s = ts @ rest \<longrightarrow> after_pipe rest \<longrightarrow> 4 * length (tokens buf s) + 3 \<le> k \<longrightarrow>
     (\<exists>s'. parsepipe k buf s = PGot c s' \<and> tokens buf s' = rest)"
  "g_exec ts c \<Longrightarrow> \<forall>s rest k. tokens buf s = ts @ rest \<longrightarrow> after_exec rest \<longrightarrow> 4 * length (tokens buf s) + 2 \<le> k \<longrightarrow>
     (\<exists>s'. parseexec k buf s = PGot c s' \<and> tokens buf s' = rest)"
proof (induction rule: g_line_g_pipe_g_exec.inducts)
  case (line_last ts c n)
  have "\<exists>s'. parseline k buf s = PGot ((BACK ^^ n) c) s' \<and> tokens buf s' = rest"
    if "tokens buf s = ts @ replicate n (Sym 38) @ rest" "after_line rest" "4 * length (tokens buf s) + 4 \<le> k" for s rest k
    using line_list_complete [OF line_last.IH that(1,3), of undefined undefined "(BACK ^^ n) c" rest] that(2) by (auto simp: after_line_def)
  then show ?case by simp
next
  case (line_list ts c us d n)
  have "\<exists>s'. parseline k buf s = PGot (LIST ((BACK ^^ n) c) d) s' \<and> tokens buf s' = rest"
    if "tokens buf s = ts @ replicate n (Sym 38) @ (Sym 59 # us @ rest)" "after_line rest" "4 * length (tokens buf s) + 4 \<le> k" for s rest k
    using line_list_complete [OF line_list.IH(1) that(1,3), of d rest] line_list.IH(2) that by simp
  then show ?case by simp
next
  case (pipe_last ts c)
  have "\<exists>s'. parsepipe k buf s = PGot c s' \<and> tokens buf s' = rest"
    if "tokens buf s = ts @ rest" "after_pipe rest" "4 * length (tokens buf s) + 3 \<le> k" for s rest k
    using pipe_pipe_complete [OF pipe_last.IH that(1) after_exec_of(1) [OF that(2)] that(3), of undefined undefined c rest] that(2)
    by (auto simp: after_pipe_def after_line_def)
  then show ?case by blast
next
  case (pipe_pipe ts c us d)
  have "\<exists>s'. parsepipe k buf s = PGot (PIPE c d) s' \<and> tokens buf s' = rest"
    if "tokens buf s = ts @ (Sym 124 # us @ rest)" "after_pipe rest" "4 * length (tokens buf s) + 3 \<le> k" for s rest k
    using pipe_pipe_complete [OF pipe_pipe.IH(1) that(1) _ that(3), of d rest] pipe_pipe.IH(2) that by simp
  then show ?case by simp
next
  case (exec_simple ts ws rs)
  then have "items (length ws) ts (EXEC []) (redirected (EXEC ws) rs)" "length ws < MAXARGS"
    using simple_items [of ts ws rs "[]" "[]"] by (simp_all add: MAXARGS_def)
  then show ?case using exec_simple_complete by blast
next
  case (exec_block ts c us rs)
  then have "redirs us c (redirected c rs)" using simple_redirs by blast
  then show ?case using exec_block_complete exec_block.IH by blast
qed

section \<open>The parser stays inside the line\<close>

lemma peek_within: "peek buf s toks = (b, s') \<Longrightarrow> s \<le> length buf \<Longrightarrow> s' \<le> length buf"
  using skip_le(2) [of "\<lambda>c. c \<in> set whitespace" buf s] by (auto simp: peek_def Let_def skip_ws_def)

lemma gettoken_within:
  assumes "gettoken buf s = (ret, q, eq, s')" and "s \<le> length buf"
  shows "s' \<le> length buf"
proof -
  have le: "skip P buf i \<le> length buf" if "i \<le> length buf" for P i using skip_le(2) [of P buf i] that by simp
  have q: "q = skip_ws buf s" "q \<le> length buf" using assms le by (auto simp: gettoken_def Let_def skip_ws_def split: prod.splits)
  have "eq \<le> length buf" using assms(1) q le by (auto simp: gettoken_def Let_def at_def split: prod.splits if_splits)
  then show ?thesis using assms(1) le by (auto simp: gettoken_def Let_def skip_ws_def split: prod.splits)
qed

definition within :: "uchar list \<Rightarrow> 'a pr \<Rightarrow> bool" where
  "within buf m \<longleftrightarrow> (case m of PGot _ s \<Rightarrow> s \<le> length buf | _ \<Rightarrow> True)"

lemma within_simps [simp]: "within buf (PGot x s) \<longleftrightarrow> s \<le> length buf" "within buf (PSyn e)" "within buf PDeep"
  by (simp_all add: within_def)

lemma within_bind: "within buf m \<Longrightarrow> (\<And>x s. s \<le> length buf \<Longrightarrow> within buf (f x s)) \<Longrightarrow> within buf (pbind m f)"
  by (cases m) auto

lemma within_peek: "s \<le> length buf \<Longrightarrow> (\<And>b s. s \<le> length buf \<Longrightarrow> within buf (f b s)) \<Longrightarrow> within buf (case peek buf s toks of (b, s) \<Rightarrow> f b s)"
  using peek_within by (auto split: prod.splits)

lemma within_token:
  "s \<le> length buf \<Longrightarrow> (\<And>r q eq s. s \<le> length buf \<Longrightarrow> within buf (f r q eq s)) \<Longrightarrow> within buf (case gettoken buf s of (r, q, eq, s) \<Rightarrow> f r q eq s)"
  using gettoken_within by (auto split: prod.splits)

lemmas within_rules = within_bind within_peek within_token

lemma redirs_within: "s \<le> length buf \<Longrightarrow> within buf (parseredirs buf c s)"
proof (induction buf c s rule: parseredirs.induct)
  case (1 buf c s)
  obtain b s1 where p: "peek buf s [60, 62] = (b, s1)" by force
  obtain tok q1 eq1 s2 where g: "gettoken buf s1 = (tok, q1, eq1, s2)" by (metis prod_cases4)
  obtain tok' q eq s3 where h: "gettoken buf s2 = (tok', q, eq, s3)" by (metis prod_cases4)
  have "s1 \<le> length buf" "s3 \<le> length buf" using peek_within [OF p] gettoken_within [OF g] gettoken_within [OF h] "1.prems" by auto
  then show ?case using "1.IH" [OF p [symmetric] _ g [symmetric] refl refl h [symmetric] refl refl] p g h
    by (subst parseredirs.simps) simp
qed

lemma loop_within: "s \<le> length buf \<Longrightarrow> within buf (parseexec_loop buf n c s)"
proof (induction buf n c s rule: parseexec_loop.induct)
  case (1 buf n c s)
  obtain b s1 where p: "peek buf s [124, 41, 38, 59] = (b, s1)" by force
  obtain tok q eq s2 where g: "gettoken buf s1 = (tok, q, eq, s2)" by (metis prod_cases4)
  have "s1 \<le> length buf" "s2 \<le> length buf" using peek_within [OF p] gettoken_within [OF g] "1.prems" by auto
  then show ?case
    using "1.IH" [OF p [symmetric] _ g [symmetric] refl refl] redirs_within [of s2 buf "add_arg c (q, eq)"]
    by (subst parseexec_loop.simps) (cases "parseredirs buf (add_arg c (q, eq)) s2"; simp add: p g)
qed

lemma backs_within: "s \<le> length buf \<Longrightarrow> within buf (parsebacks buf c s)"
proof (induction buf c s rule: parsebacks.induct)
  case (1 buf c s)
  obtain b s1 where p: "peek buf s [38] = (b, s1)" by force
  obtain tok q eq s2 where g: "gettoken buf s1 = (tok, q, eq, s2)" by (metis prod_cases4)
  have "s1 \<le> length buf" "s2 \<le> length buf" using peek_within [OF p] gettoken_within [OF g] "1.prems" by auto
  then show ?case using "1.IH" [OF p [symmetric] _ g [symmetric] refl refl] by (subst parsebacks.simps) (simp add: p g)
qed

lemma parser_within:
  "s \<le> length buf \<Longrightarrow> within buf (parseline k buf s) \<and> within buf (parsepipe k buf s) \<and> within buf (parseexec k buf s) \<and> within buf (parseblock k buf s)"
proof (induction k arbitrary: s)
  case (Suc k)
  have l: "within buf (parseline (Suc k) buf s)" unfolding parseline.simps
    by (intro within_rules) (use Suc in \<open>auto intro!: within_rules intro: backs_within\<close>)
  have p: "within buf (parsepipe (Suc k) buf s)" unfolding parsepipe.simps
    by (intro within_rules) (use Suc in \<open>auto intro!: within_rules\<close>)
  have e: "within buf (parseexec (Suc k) buf s)" unfolding parseexec.simps
    by (intro within_rules) (use Suc in \<open>auto intro!: within_rules intro: redirs_within loop_within\<close>)
  have b: "within buf (parseblock (Suc k) buf s)" unfolding parseblock.simps
    by (intro within_rules) (use Suc in \<open>auto intro!: within_rules intro: redirs_within\<close>)
  show ?case using l p e b by simp
qed simp

section \<open>The words of the tree\<close>

text \<open>A word is a run of bytes that are neither white space nor symbols, up to such a byte or the end of the line.\<close>

definition is_word :: "uchar list \<Rightarrow> word_at \<Rightarrow> bool" where
  "is_word buf w \<longleftrightarrow> fst w < snd w \<and> snd w \<le> length buf \<and>
     (\<forall>i < length buf. fst w \<le> i \<and> i < snd w \<longrightarrow> buf ! i \<notin> set whitespace \<union> set symbols) \<and>
     (snd w < length buf \<longrightarrow> buf ! snd w \<in> set whitespace \<union> set symbols)"

text \<open>The C string at a word of the line.\<close>

definition string_at :: "uchar list \<Rightarrow> word_at \<Rightarrow> uchar list" where
  "string_at buf w = takeWhile (\<lambda>c. c \<noteq> 0) (drop (fst w) buf)"

lemma skip_all: "i \<le> j \<Longrightarrow> j < skip P buf i \<Longrightarrow> P (buf ! j)"
proof -
  assume j: "i \<le> j" "j < skip P buf i"
  then have k: "j - i < length (takeWhile P (drop i buf))" by (simp add: skip_def less_diff_conv2 add.commute)
  then have "takeWhile P (drop i buf) ! (j - i) = buf ! j"
    using j(1) length_takeWhile_le [of P "drop i buf"] by (simp add: takeWhile_nth)
  then show ?thesis using nth_mem [OF k] set_takeWhileD by metis
qed

lemma gettoken_word:
  assumes "gettoken buf s = (97, q, eq, s')" and "s \<le> length buf"
  shows "is_word buf (q, eq)"
proof -
  have eq: "eq = skip (\<lambda>c. c \<notin> set whitespace \<and> c \<notin> set symbols) buf q" using assms(1)
    by (auto simp: gettoken_def Let_def split: prod.splits if_splits)
  have "q < eq" "q < length buf" using gettoken_pos(4) [OF assms(1)] by auto
  then show ?thesis using skip_le(2) [of "\<lambda>c. c \<notin> set whitespace \<and> c \<notin> set symbols" buf q]
      skip_all [of q _ "\<lambda>c. c \<notin> set whitespace \<and> c \<notin> set symbols" buf] skip_stop [of "\<lambda>c. c \<notin> set whitespace \<and> c \<notin> set symbols" buf q]
    unfolding is_word_def eq fst_conv snd_conv by auto
qed

lemma tokens_words: "s \<le> length buf \<Longrightarrow> Word w \<in> set (tokens buf s) \<Longrightarrow> is_word buf w"
proof (induction buf s rule: tokens.induct)
  case (1 buf s)
  obtain ret q eq s' where t: "gettoken buf s = (ret, q, eq, s')" by (metis prod_cases4)
  have "s' \<le> length buf" using gettoken_within [OF t "1.prems"(1)] .
  then show ?case using "1.IH" [OF t [symmetric] refl refl] "1.prems" gettoken_word [of buf s q eq s'] t
    unfolding lex_token [OF t] by (auto split: if_splits)
qed

definition words_in :: "'w tok list \<Rightarrow> 'w set" where
  "words_in ts = {w. Word w \<in> set ts}"

lemma words_simps [simp]: "words_in [] = {}" "words_in (Word w # ts) = insert w (words_in ts)" "words_in (Sym r # ts) = words_in ts"
  "words_in (ts @ us) = words_in ts \<union> words_in us" "words_in (replicate n (Sym r)) = {}"
  by (auto simp: words_in_def)

lemma set_simple: "simple ts ws rs \<Longrightarrow> set ws \<union> snd ` set rs = words_in ts"
  by (induction rule: simple.induct) auto

lemma set_redirected: "set_cmd (redirected c rs) = set_cmd c \<union> snd ` set rs"
  by (induction c rs rule: redirected.induct) auto

lemma set_backs: "set_cmd ((BACK ^^ n) c) = set_cmd c"
  by (induction n) auto

lemma set_parsed: "g_line ts c \<Longrightarrow> set_cmd c = words_in ts" "g_pipe ts c \<Longrightarrow> set_cmd c = words_in ts" "g_exec ts c \<Longrightarrow> set_cmd c = words_in ts"
proof (induction rule: g_line_g_pipe_g_exec.inducts)
  case (exec_simple ts ws rs)
  then show ?case using set_simple [of ts ws rs] by (simp add: set_redirected)
next
  case (exec_block ts c us rs)
  then show ?case using set_simple [of us "[]" rs] by (auto simp: set_redirected)
qed (auto simp: set_backs)

lemma upd_nth: "j < length xs \<Longrightarrow> xs[i := x] ! j = (if i = j then x else xs ! j)"
  by (cases "i = j") auto

lemma zeros: "length (foldl (\<lambda>buf w. buf[snd w := 0]) buf ws) = length buf \<and>
  (\<forall>i < length buf. foldl (\<lambda>buf w. buf[snd w := 0]) buf ws ! i = (if i \<in> snd ` set ws then 0 else buf ! i))"
  by (induction ws arbitrary: buf) (auto simp: upd_nth)

lemma nulterminate_nth: "length (nulterminate c buf) = length buf \<and>
  (\<forall>i < length buf. nulterminate c buf ! i = (if i \<in> snd ` set_cmd c then 0 else buf ! i))"
  by (induction c arbitrary: buf) (auto simp: zeros upd_nth)

lemma string_at_word:
  assumes "\<forall>w \<in> set_cmd c. is_word buf w" and "0 \<notin> set buf" and w: "w \<in> set_cmd c"
  shows "string_at (nulterminate c (buf @ [0])) w = take (snd w - fst w) (drop (fst w) buf)"
proof -
  let ?b = "nulterminate c (buf @ [0])"
  have b: "length ?b = Suc (length buf)" "\<forall>i < Suc (length buf). ?b ! i = (if i \<in> snd ` set_cmd c then 0 else (buf @ [0]) ! i)"
    using nulterminate_nth [of c "buf @ [0]"] by auto
  have iw: "fst w < snd w" "snd w \<le> length buf" using assms(1) w by (auto simp: is_word_def)
  have keep: "?b ! i = buf ! i" "buf ! i \<noteq> 0" if i: "fst w \<le> i" "i < snd w" for i
  proof -
    have "buf ! i \<notin> set whitespace \<union> set symbols" using assms(1) w i iw unfolding is_word_def by auto
    moreover have "buf ! snd v \<in> set whitespace \<union> set symbols" if "v \<in> set_cmd c" "snd v < length buf" for v
      using assms(1) that unfolding is_word_def by auto
    ultimately have "i \<notin> snd ` set_cmd c" using i iw by force
    then show "?b ! i = buf ! i" "buf ! i \<noteq> 0" using b(2) i iw assms(2) by (auto simp: nth_append) (metis nth_mem order_less_le_trans)
  qed
  have z: "?b ! snd w = 0" using b(2) iw w by auto
  have "drop (fst w) ?b = take (snd w - fst w) (drop (fst w) buf) @ 0 # drop (Suc (snd w)) ?b"
  proof -
    have "drop (snd w) ?b = 0 # drop (Suc (snd w)) ?b" using z b(1) iw(2) by (metis Cons_nth_drop_Suc le_imp_less_Suc)
    moreover have "take (snd w - fst w) (drop (fst w) ?b) = take (snd w - fst w) (drop (fst w) buf)"
      using b(1) iw keep(1) by (intro nth_equalityI) auto
    ultimately show ?thesis using append_take_drop_id [of "snd w - fst w" "drop (fst w) ?b"] iw(1) by simp
  qed
  moreover have "\<forall>x \<in> set (take (snd w - fst w) (drop (fst w) buf)). x \<noteq> 0" using assms(2) by (auto dest!: in_set_takeD in_set_dropD)
  ultimately show ?thesis unfolding string_at_def by (simp add: takeWhile_append2)
qed

section \<open>The line as text\<close>

text \<open>The tokens of a line, each word with its text, by a scan of the bytes: white space separates tokens, \<^verbatim>\<open>>>\<close> is one
  symbol, written 43, the other symbols are single bytes, and a word is a longest run of other bytes.\<close>

definition blank :: "uchar \<Rightarrow> bool" where "blank c \<longleftrightarrow> c \<in> {32, 9, 13, 10, 11}"
definition special :: "uchar \<Rightarrow> bool" where "special c \<longleftrightarrow> c \<in> {60, 124, 62, 38, 59, 40, 41}"
definition plain :: "uchar \<Rightarrow> bool" where "plain c \<longleftrightarrow> \<not> blank c \<and> \<not> special c"

function lexer :: "uchar list \<Rightarrow> uchar list tok list" where
  "lexer [] = []"
| "lexer (c # cs) =
     (if blank c then lexer cs
      else if c = 62 \<and> take 1 cs = [62] then Sym 43 # lexer (drop 1 cs)
      else if special c then Sym c # lexer cs
      else Word (c # takeWhile plain cs) # lexer (dropWhile plain cs))"
  by pat_completeness auto
termination
  by (relation "measure length") (auto simp: le_imp_less_Suc length_dropWhile_le)

declare lexer.simps(2) [simp del]

definition text_at :: "uchar list \<Rightarrow> word_at \<Rightarrow> uchar list" where
  "text_at buf w = take (snd w - fst w) (drop (fst w) buf)"

lemma classes: "c \<in> set whitespace \<longleftrightarrow> blank c" "c \<in> set symbols \<longleftrightarrow> special c" "(\<lambda>c. \<not> blank c \<and> \<not> special c) = plain"
  by (auto simp: whitespace_def symbols_def blank_def special_def plain_def)

lemma drop_skip: "drop (skip P buf i) buf = dropWhile P (drop i buf)"
  by (simp add: skip_def dropWhile_eq_drop add.commute)

lemma lexer_blank: "lexer (dropWhile blank xs) = lexer xs"
  by (induction xs) (auto simp: lexer.simps(2))

lemma text_at_skip: "text_at buf (q, skip P buf q) = takeWhile P (drop q buf)"
  by (simp add: text_at_def skip_def takeWhile_eq_take [symmetric])

lemma lexer_step:
  assumes g: "gettoken buf s = (ret, q, eq, s')" and z: "0 \<notin> set buf"
  shows "lexer (drop s buf) = (if ret = 0 then [] else map_tok (text_at buf) (if ret = 97 then Word (q, eq) else Sym ret) # lexer (drop s' buf))"
proof -
  have q: "q = skip_ws buf s" and s': "s' = skip_ws buf eq" and r: "(ret, eq) = (if at buf q = 0 then (0, q)
      else if at buf q \<in> {124, 40, 41, 59, 38, 60} then (at buf q, q + 1)
      else if at buf q = 62 then (if at buf (q + 1) = 62 then (43, q + 2) else (62, q + 1))
      else (97, skip plain buf q))"
    using g by (auto simp: gettoken_def Let_def classes split: prod.splits)
  have dq: "drop q buf = dropWhile blank (drop s buf)" using q by (simp add: skip_ws_def classes drop_skip)
  have s: "lexer (drop s buf) = lexer (drop q buf)" using dq lexer_blank [of "drop s buf"] by simp
  have e: "lexer (drop s' buf) = lexer (drop eq buf)" using s' lexer_blank [of "drop eq buf"] by (simp add: skip_ws_def classes drop_skip)
  show ?thesis
  proof (cases "drop q buf")
    case Nil
    then show ?thesis using r s by (simp add: at_def)
  next
    case (Cons c cs)
    then have lt: "q < length buf" by (metis drop_eq_Nil list.distinct(1) not_le)
    then have c: "at buf q = c" "c \<in> set buf" using Cons by (simp_all add: at_def hd_drop_conv_nth [symmetric]) (metis in_set_dropD list.set_intros(1))
    have nb: "\<not> blank c" using dq Cons by (metis hd_dropWhile list.distinct(1) list.sel(1))
    have cs: "cs = drop (q + 1) buf" using Cons by (metis drop_Suc list.sel(3) tl_drop Suc_eq_plus1)
    have nx: "take 1 cs = [62] \<longleftrightarrow> at buf (q + 1) = 62" unfolding cs by (auto simp: at_def take_Suc_conv_app_nth hd_drop_conv_nth)
    have c0: "c \<noteq> 0" using c z by auto
    show ?thesis
      using r s e c c0 nb nx lt Cons unfolding s e
      by (auto simp: lexer.simps(2) special_def cs text_at_skip drop_skip plain_def split: if_splits)
  qed
qed

lemma lexer_tokens: "0 \<notin> set buf \<Longrightarrow> map (map_tok (text_at buf)) (tokens buf s) = lexer (drop s buf)"
proof (induction buf s rule: tokens.induct)
  case (1 buf s)
  obtain ret q eq s' where t: "gettoken buf s = (ret, q, eq, s')" by (metis prod_cases4)
  show ?case using "1.IH" [OF t [symmetric] refl refl] "1.prems" unfolding lex_token [OF t] lexer_step [OF t "1.prems"] by simp
qed

text \<open>The grammar does not look into the words.\<close>

lemma map_redirected: "map_cmd f (redirected c rs) = redirected (map_cmd f c) (map (map_prod id f) rs)"
  by (induction c rs rule: redirected.induct) auto

lemma map_backs: "map_cmd f ((BACK ^^ n) c) = (BACK ^^ n) (map_cmd f c)"
  by (induction n) auto

lemma map_simple: "simple ts ws rs \<Longrightarrow> simple (map (map_tok f) ts) (map f ws) (map (map_prod id f) rs)"
  by (induction rule: simple.induct) (auto intro: simple.intros)

lemma map_grammar:
  "g_line ts c \<Longrightarrow> g_line (map (map_tok f) ts) (map_cmd f c)"
  "g_pipe ts c \<Longrightarrow> g_pipe (map (map_tok f) ts) (map_cmd f c)"
  "g_exec ts c \<Longrightarrow> g_exec (map (map_tok f) ts) (map_cmd f c)"
proof (induction rule: g_line_g_pipe_g_exec.inducts)
  case (exec_simple ts ws rs)
  then show ?case using g_line_g_pipe_g_exec.exec_simple [OF map_simple [of ts ws rs f]] by (simp add: map_redirected)
next
  case (exec_block ts c us rs)
  then show ?case using g_line_g_pipe_g_exec.exec_block map_simple [of us "[]" rs f] by (simp add: map_redirected)
qed (auto simp: map_backs map_replicate intro: g_line_g_pipe_g_exec.intros)

lemma map_tok_Sym: "map_tok f x = Sym r \<longleftrightarrow> x = Sym r" "Sym r = map_tok f x \<longleftrightarrow> x = Sym r" "Word v = map_tok f x \<longleftrightarrow> (\<exists>w. x = Word w \<and> v = f w)"
  by (cases x; auto)+

lemma map_syms: "replicate n (Sym r) = map (map_tok f) ts \<longleftrightarrow> ts = replicate n (Sym r)"
proof (induction n arbitrary: ts)
  case (Suc n)
  then show ?case by (cases ts) (auto simp: map_tok_Sym)
qed auto

lemmas unmap = append_eq_map_conv Cons_eq_map_conv map_tok_Sym map_syms

lemma unmap_simple: "simple us vs qs \<Longrightarrow> us = map (map_tok f) ts \<Longrightarrow> \<exists>ws rs. simple ts ws rs \<and> vs = map f ws \<and> qs = map (map_prod id f) rs"
proof (induction arbitrary: ts rule: simple.induct)
  case simple_Nil
  then show ?case using simple.simple_Nil by auto
next
  case (simple_Word us vs qs v)
  then obtain w ts' where "ts = Word w # ts'" "v = f w" "us = map (map_tok f) ts'" by (auto simp: unmap)
  then show ?case using simple_Word.IH [of ts'] simple.simple_Word by (metis list.simps(9))
next
  case (simple_redir us vs qs r v)
  then obtain w ts' where t: "ts = Sym r # Word w # ts'" "v = f w" "us = map (map_tok f) ts'" by (auto simp: unmap)
  then obtain ws rs where "simple ts' ws rs" "vs = map f ws" "qs = map (map_prod id f) rs" using simple_redir.IH by blast
  then show ?case using t simple_redir.hyps(2) by (intro exI [of _ ws] exI [of _ "(r, w) # rs"]) (auto intro: simple.intros)
qed

lemma unmap_grammar:
  "g_line us d \<Longrightarrow> \<forall>ts. us = map (map_tok f) ts \<longrightarrow> (\<exists>c. g_line ts c \<and> d = map_cmd f c)"
  "g_pipe us d \<Longrightarrow> \<forall>ts. us = map (map_tok f) ts \<longrightarrow> (\<exists>c. g_pipe ts c \<and> d = map_cmd f c)"
  "g_exec us d \<Longrightarrow> \<forall>ts. us = map (map_tok f) ts \<longrightarrow> (\<exists>c. g_exec ts c \<and> d = map_cmd f c)"
proof (induction rule: g_line_g_pipe_g_exec.inducts)
  case (line_last us d n)
  then show ?case using g_line_g_pipe_g_exec.line_last by (fastforce simp: unmap map_backs)
next
  case (line_list us d us' d' n)
  show ?case
  proof (intro allI impI)
    fix ts assume "us @ replicate n (Sym 38) @ Sym 59 # us' = map (map_tok f) ts"
    then obtain a b where ts: "ts = a @ replicate n (Sym 38) @ Sym 59 # b" "us = map (map_tok f) a" "us' = map (map_tok f) b" by (auto simp: unmap)
    then obtain c c' where "g_pipe a c" "d = map_cmd f c" "g_line b c'" "d' = map_cmd f c'" using line_list.IH by blast
    then show "\<exists>c. g_line ts c \<and> LIST ((BACK ^^ n) d) d' = map_cmd f c" using ts g_line_g_pipe_g_exec.line_list [of a c b c' n]
      by (intro exI [of _ "LIST ((BACK ^^ n) c) c'"]) (simp add: map_backs)
  qed
next
  case (pipe_last us d)
  then show ?case using g_line_g_pipe_g_exec.pipe_last by blast
next
  case (pipe_pipe us d us' d')
  show ?case
  proof (intro allI impI)
    fix ts assume "us @ Sym 124 # us' = map (map_tok f) ts"
    then obtain a b where ts: "ts = a @ Sym 124 # b" "us = map (map_tok f) a" "us' = map (map_tok f) b" by (auto simp: unmap)
    then obtain c c' where "g_exec a c" "d = map_cmd f c" "g_pipe b c'" "d' = map_cmd f c'" using pipe_pipe.IH by blast
    then show "\<exists>c. g_pipe ts c \<and> PIPE d d' = map_cmd f c" using ts g_line_g_pipe_g_exec.pipe_pipe [of a c b c']
      by (intro exI [of _ "PIPE c c'"]) simp
  qed
next
  case (exec_simple us vs qs)
  show ?case
  proof (intro allI impI)
    fix ts assume "us = map (map_tok f) ts"
    then obtain ws rs where "simple ts ws rs" "vs = map f ws" "qs = map (map_prod id f) rs" using unmap_simple [OF exec_simple.hyps(1)] by blast
    then show "\<exists>c. g_exec ts c \<and> redirected (EXEC vs) qs = map_cmd f c" using g_line_g_pipe_g_exec.exec_simple exec_simple.hyps(2)
      by (intro exI [of _ "redirected (EXEC ws) rs"]) (simp add: map_redirected)
  qed
next
  case (exec_block us d us' qs)
  show ?case
  proof (intro allI impI)
    fix ts assume "Sym 40 # us @ Sym 41 # us' = map (map_tok f) ts"
    then obtain a b where ts: "ts = Sym 40 # a @ Sym 41 # b" "us = map (map_tok f) a" "us' = map (map_tok f) b" by (auto simp: unmap)
    obtain rs where "simple b [] rs" "qs = map (map_prod id f) rs" using unmap_simple [OF exec_block.hyps(2) ts(3)] by auto
    moreover obtain c where "g_line a c" "d = map_cmd f c" using exec_block.IH ts(2) by blast
    ultimately show "\<exists>c. g_exec ts c \<and> redirected d qs = map_cmd f c" using ts(1) g_line_g_pipe_g_exec.exec_block [of a c b rs]
      by (intro exI [of _ "redirected c rs"]) (simp add: map_redirected)
  qed
qed

lemma grammar_text: "0 \<notin> set buf \<Longrightarrow> g_line (lexer buf) d \<longleftrightarrow> (\<exists>c. g_line (tokens buf 0) c \<and> d = map_cmd (text_at buf) c)"
  using lexer_tokens [of buf 0] map_grammar(1) unmap_grammar(1) by (metis drop0)

section \<open>The parser implements the grammar\<close>

lemma parseline_enough:
  assumes "4 * length buf + 4 \<le> k"
  shows "4 * length (tokens buf 0) + 4 \<le> k"
  using assms lex_length [of buf 0] by simp

lemma tokens_end:
  assumes "tokens buf s = []" and "0 \<notin> set buf" and "s \<le> length buf"
  shows "peek buf s [] = (False, length buf)"
proof -
  obtain ret q eq s1 where g: "gettoken buf s = (ret, q, eq, s1)" by (metis prod_cases4)
  then have "ret = 0" using lex_token [OF g] assms(1) by (auto split: if_splits)
  then have "length buf \<le> q" "q = skip_ws buf s" using gettoken_end [OF assms(2)] g by (auto simp: gettoken_def Let_def split: prod.splits)
  then have "skip_ws buf s = length buf" using skip_le(2) [of "\<lambda>c. c \<in> set whitespace" buf s] assms(3) by (simp add: skip_ws_def)
  then show ?thesis by (simp add: peek_def)
qed

lemma peek_end: "peek buf s [] = (b, length buf) \<Longrightarrow> tokens buf s = []"
proof -
  assume "peek buf s [] = (b, length buf)"
  then have "skip_ws buf s = length buf" by (auto simp: peek_def Let_def)
  then have "gettoken buf s = (0, length buf, length buf, skip_ws buf (length buf))" by (simp add: gettoken_def at_def Let_def)
  then show ?thesis by (subst tokens.simps) simp
qed

lemma parsecmd_complete:
  assumes "g_line (tokens buf 0) c" and "0 \<notin> set buf" and "4 * length buf + 4 \<le> k"
  shows "parsecmd k buf = PGot (c, nulterminate c (buf @ [0])) (length buf)"
proof -
  obtain s where s: "parseline k buf 0 = PGot c s" "tokens buf s = []"
    using parser_complete(1) [OF assms(1), rule_format, of buf 0 "[]" k] parseline_enough [OF assms(3)] by (auto simp: after_line_def)
  have "s \<le> length buf" using parser_within [of 0 buf k] s(1) by simp
  then show ?thesis using s(1) tokens_end [OF s(2) assms(2)] by (simp add: parsecmd_def)
qed

lemma parsecmd_sound:
  assumes "parsecmd k buf = PGot (c, b) s"
  shows "g_line (tokens buf 0) c"
proof -
  obtain s1 where l: "parseline k buf 0 = PGot c s1" and e: "snd (peek buf s1 []) = length buf"
    using assms by (cases "parseline k buf 0") (auto simp: parsecmd_def split: prod.splits if_splits)
  have "tokens buf s1 = []" using e peek_end by (metis prod.collapse)
  then show ?thesis using parser_sound [of buf 0 k] l by auto
qed

lemma parsecmd_shallow:
  assumes "4 * length buf + 4 \<le> k"
  shows "parsecmd k buf \<noteq> PDeep"
  using parser_sound [of buf 0 k] parseline_enough [OF assms]
  by (cases "parseline k buf 0") (auto simp: parsecmd_def split: prod.splits)

lemma parsecmd_text:
  assumes "g_line (tokens buf 0) c" and "0 \<notin> set buf" and "4 * length buf + 4 \<le> k"
  obtains b where "parsecmd k buf = PGot (c, b) (length buf)" and "map_cmd (string_at b) c = map_cmd (text_at buf) c"
proof -
  have "\<forall>w \<in> set_cmd c. is_word buf w" using set_parsed(1) [OF assms(1)] tokens_words [of 0 buf] by (auto simp: words_in_def)
  then have "map_cmd (string_at (nulterminate c (buf @ [0]))) c = map_cmd (text_at buf) c"
    using string_at_word [of c buf] assms(2) by (intro cmd.map_cong0) (simp add: text_at_def)
  then show thesis using that parsecmd_complete [OF assms] by blast
qed

lemma parser_grammar:
  assumes "0 \<notin> set buf" and "4 * length buf + 4 \<le> k"
  shows "(\<exists>c b. parsecmd k buf = PGot (c, b) (length buf) \<and> (\<forall>d. g_line (lexer buf) d \<longleftrightarrow> d = map_cmd (string_at b) c)) \<or>
         (\<exists>e. parsecmd k buf = PSyn e) \<and> (\<nexists>d. g_line (lexer buf) d)"
proof (cases "\<exists>c. g_line (tokens buf 0) c")
  case True
  then obtain c where c: "g_line (tokens buf 0) c" ..
  then obtain b where b: "parsecmd k buf = PGot (c, b) (length buf)" "map_cmd (string_at b) c = map_cmd (text_at buf) c"
    using parsecmd_text assms by metis
  have "c' = c" if "g_line (tokens buf 0) c'" for c'
    using parsecmd_complete [OF that assms] parsecmd_complete [OF c assms] by simp
  then show ?thesis using b c grammar_text [OF assms(1)] by metis
next
  case False
  then have "\<nexists>d. g_line (lexer buf) d" using grammar_text [OF assms(1)] by blast
  then show ?thesis using False parsecmd_sound [of k buf] parsecmd_shallow [OF assms(2)] by (cases "parsecmd k buf") fastforce+
qed

text \<open>
  C16. The parser of the shell implements its grammar. For a line without zero bytes, the depth \<open>4 n + 4\<close> of calls is enough for
  \<open>n\<close> bytes, and one of two things happens. Either the grammar derives the line, scanned into words and symbols, as exactly
  one tree; then \<^verbatim>\<open>parsecmd\<close> consumes the whole line and returns this tree: its words, read as C strings in the line that
  \<^verbatim>\<open>nulterminate\<close> leaves, are those of the grammar, with all arguments in their order and every redirection with its file,
  mode and descriptor. Or the grammar does not derive the line; then \<^verbatim>\<open>parsecmd\<close> ends with a message. The scanner and the
  grammar are defined without the routines of the parser.
\<close>

theorem parser_implements_grammar:
  assumes "0 \<notin> set buf" and "4 * length buf + 4 \<le> k"
  shows "(\<exists>c b. parsecmd k buf = PGot (c, b) (length buf) \<and> (\<forall>d. g_line (lexer buf) d \<longleftrightarrow> d = map_cmd (string_at b) c)) \<or>
         (\<exists>e. parsecmd k buf = PSyn e) \<and> (\<nexists>d. g_line (lexer buf) d)"
  using assms by (rule parser_grammar)

text \<open>The line \<^verbatim>\<open>(ls;a)>f&\<close>.\<close>

definition demo_line :: "uchar list" where
  "demo_line = [40, 108, 115, 59, 97, 41, 62, 102, 38]"

lemma demo_parsed: "parsecmd 40 demo_line =
  PGot (BACK (REDIR (LIST (EXEC [(1, 3)]) (EXEC [(4, 5)])) (7, 8) 0x201 1), [40, 108, 115, 0, 97, 0, 62, 102, 0, 0]) 9"
  by code_simp

theorem parser_implements_grammar_witness:
  "0 \<notin> set demo_line \<and> 4 * length demo_line + 4 \<le> 40 \<and>
   g_line (lexer demo_line) (BACK (REDIR (LIST (EXEC [[108, 115]]) (EXEC [[97]])) [102] 0x201 1))"
proof -
  have "0 \<notin> set demo_line" "4 * length demo_line + 4 \<le> 40" by (simp_all add: demo_line_def)
  then show ?thesis using parser_implements_grammar [of demo_line 40] by (auto simp: demo_parsed string_at_def)
qed

end
