(* ===== verification/Shrun.thy ===== *)
theory Shrun
  imports Shgrammar
begin

text \<open>
  The part of \<^verbatim>\<open>sh.c\<close> that runs commands. A process of the shell is the tree of the system calls it makes, with the
  answers of the kernel as arguments of what follows; messages are written without their newline. These trees are run on a table of descriptors, where a call takes the
  lowest free descriptor as \<^verbatim>\<open>fdalloc\<close> of \<^verbatim>\<open>sysfile.c\<close> does. Proved: the programs that the shell starts
  get the standard input and output that the command asks for, and no process of the shell keeps an end of a pipe.
\<close>

section \<open>System calls of the shell\<close>

text \<open>\<open>Stuck\<close> is where a bound of the model was too small; it is proved not to be reached.\<close>

datatype 'w prog =
    Close sint32 "'w prog"
  | Open 'w sint32 "sint32 \<Rightarrow> 'w prog"
  | Pipe "sint32 \<Rightarrow> sint32 \<Rightarrow> sint32 \<Rightarrow> 'w prog"
  | Dup sint32 "'w prog"
  | Fork "sint32 \<Rightarrow> 'w prog"
  | Wait "'w prog"
  | Exec "'w list" "'w prog"
  | Chdir 'w "sint32 \<Rightarrow> 'w prog"
  | Printf string "'w list" "'w prog"
  | Exit
  | Stuck

text \<open>\<^verbatim>\<open>panic\<close> prints and exits.\<close>

definition sh_panic :: "string \<Rightarrow> 'w prog" where
  "sh_panic s = Printf s [] Exit"

definition fork1 :: "(sint32 \<Rightarrow> 'w prog) \<Rightarrow> 'w prog" where
  "fork1 k = Fork (\<lambda>pid. if pid = - 1 then sh_panic ''fork'' else k pid)"

text \<open>\<^verbatim>\<open>runcmd\<close> never returns, so that nothing follows it.\<close>

primrec runcmd :: "'w cmd \<Rightarrow> 'w prog" where
  "runcmd (EXEC argv) =
     (if argv = [] then Exit
      else Exec argv (Printf ''exec %s failed'' [hd argv] Exit))"
| "runcmd (REDIR c f mode fd) =
     Close fd (Open f mode (\<lambda>r.
     if r <s 0 then Printf ''open %s failed'' [f] Exit
     else runcmd c))"
| "runcmd (LIST l r) =
     fork1 (\<lambda>pid. if pid = 0 then runcmd l
     else Wait (runcmd r))"
| "runcmd (PIPE l r) =
     Pipe (\<lambda>res p0 p1.
     if res <s 0 then sh_panic ''pipe''
     else
      fork1 (\<lambda>pid. if pid = 0 then Close 1 (Dup p1 (Close p0 (Close p1 (runcmd l))))
      else
      fork1 (\<lambda>pid. if pid = 0 then Close 0 (Dup p0 (Close p0 (Close p1 (runcmd r))))
      else Close p0 (Close p1 (Wait (Wait Exit))))))"
| "runcmd (BACK c) =
     fork1 (\<lambda>pid. if pid = 0 then runcmd c
     else Exit)"

text \<open>The first loop of \<^verbatim>\<open>main\<close>, with at most \<open>k\<close> rounds.\<close>

primrec main_fds :: "nat \<Rightarrow> uchar list prog \<Rightarrow> uchar list prog" where
  "main_fds 0 rest = Stuck"
| "main_fds (Suc k) rest =
     Open [99, 111, 110, 115, 111, 108, 101] 2 (\<lambda>fd.
     if 0 \<le>s fd then (if 3 \<le>s fd then Close fd rest else main_fds k rest)
     else rest)"

text \<open>\<^verbatim>\<open>runcmd(parsecmd(buf))\<close>: the words of the tree are strings in the buffer that the parser leaves.\<close>

definition run_line :: "uchar list \<Rightarrow> uchar list prog" where
  "run_line buf =
     (case parsecmd (4 * length buf + 4) buf of
        PGot (c, b) _ \<Rightarrow> runcmd (map_cmd (string_at b) c)
      | PSyn e \<Rightarrow> sh_panic e
      | PDeep \<Rightarrow> Stuck)"

text \<open>The second loop of \<^verbatim>\<open>main\<close>; the argument holds what \<^verbatim>\<open>getcmd\<close> reads, one non-empty string for each round.\<close>

primrec main_loop :: "uchar list list \<Rightarrow> uchar list prog" where
  "main_loop [] = Exit"
| "main_loop (buf # bufs) =
     (if take 3 buf = [99, 100, 32] then
        Chdir (drop 3 (butlast buf)) (\<lambda>r.
        if r <s 0 then Printf ''cannot cd %s'' [drop 3 (butlast buf)] (main_loop bufs)
        else main_loop bufs)
      else
        fork1 (\<lambda>pid. if pid = 0 then run_line buf
        else Wait (main_loop bufs)))"

section \<open>Running it\<close>

text \<open>What a descriptor is open on: a file, or an end of a pipe.\<close>

datatype 'f desc = File 'f | PRead nat | PWrite nat

type_synonym 'f fds = "'f desc option list"

text \<open>The answers of the kernel: the identifiers of processes, -1 where \<^verbatim>\<open>fork\<close> fails, whether a pipe can be made, the files
  that \<^verbatim>\<open>open\<close> finds, and whether \<^verbatim>\<open>exec\<close> and \<^verbatim>\<open>chdir\<close> succeed.\<close>

record ('w, 'f) answers =
  a_pid :: "nat \<Rightarrow> sint32"
  a_pipe :: "nat \<Rightarrow> bool"
  a_open :: "'w \<Rightarrow> sint32 \<Rightarrow> 'f option"
  a_exec :: "'w list \<Rightarrow> bool"
  a_chdir :: "'w \<Rightarrow> bool"

text \<open>What is seen of the processes: the programs started and the waits, with the descriptors at that time, and the messages.\<close>

datatype ('w, 'f) event = Started "'w list" "'f fds" | Waited "'f fds" | Said string "'w list" | Moved 'w | Overrun

definition fd_close :: "sint32 \<Rightarrow> 'f fds \<Rightarrow> 'f fds" where
  "fd_close fd t = (if fd <s 0 \<or> of_nat (length t) \<le>s fd then t else t[unat fd := None])"

definition fd_alloc :: "'f desc \<Rightarrow> 'f fds \<Rightarrow> (nat \<times> 'f fds) option" where
  "fd_alloc d t = claim_slot (\<lambda>x. x = None) (\<lambda>_. Some d) t"

definition fd_get :: "sint32 \<Rightarrow> 'f fds \<Rightarrow> 'f desc option" where
  "fd_get fd t = (if fd <s 0 \<or> of_nat (length t) \<le>s fd then None else t ! unat fd)"

text \<open>The events of a process and of the processes it creates, those of a child first; the counter gives fresh names to pipes
  and processes.\<close>

primrec trace :: "('w, 'f) answers \<Rightarrow> 'w prog \<Rightarrow> 'f fds \<Rightarrow> nat \<Rightarrow> ('w, 'f) event list \<times> nat" where
  "trace K (Close fd p) t n = trace K p (fd_close fd t) n"
| "trace K (Open f mode p) t n =
     (case Option.bind (a_open K f mode) (\<lambda>x. fd_alloc (File x) t) of
        None \<Rightarrow> trace K (p (- 1)) t n
      | Some (fd, t') \<Rightarrow> trace K (p (of_nat fd)) t' n)"
| "trace K (Pipe p) t n =
     (if \<not> a_pipe K n then trace K (p (- 1) 0 0) t (Suc n)
      else case fd_alloc (PRead n) t of
        None \<Rightarrow> trace K (p (- 1) 0 0) t (Suc n)
      | Some (fd0, t') \<Rightarrow>
          (case fd_alloc (PWrite n) t' of
             None \<Rightarrow> trace K (p (- 1) 0 0) t (Suc n)
           | Some (fd1, t'') \<Rightarrow> trace K (p 0 (of_nat fd0) (of_nat fd1)) t'' (Suc n)))"
| "trace K (Dup fd p) t n =
     (case Option.bind (fd_get fd t) (\<lambda>d. fd_alloc d t) of
        None \<Rightarrow> trace K p t n
      | Some (fd', t') \<Rightarrow> trace K p t' n)"
| "trace K (Fork p) t n =
     (if a_pid K n = - 1 then trace K (p (- 1)) t (Suc n)
      else case trace K (p 0) t (Suc n) of (es, n') \<Rightarrow>
           case trace K (p (a_pid K n)) t n' of (es', n'') \<Rightarrow> (es @ es', n''))"
| "trace K (Wait p) t n = (case trace K p t n of (es, n') \<Rightarrow> (Waited t # es, n'))"
| "trace K (Exec argv p) t n = (if a_exec K argv then ([Started argv t], n) else trace K p t n)"
| "trace K (Chdir d p) t n =
     (if a_chdir K d then (case trace K (p 0) t n of (es, n') \<Rightarrow> (Moved d # es, n')) else trace K (p (- 1)) t n)"
| "trace K (Printf s ws p) t n = (case trace K p t n of (es, n') \<Rightarrow> (Said s ws # es, n'))"
| "trace K Exit t n = ([], n)"
| "trace K Stuck t n = ([Overrun], n)"

section \<open>What a command asks for\<close>

text \<open>A table in which only the standard descriptors are open.\<close>

definition std :: "'f desc \<Rightarrow> 'f desc \<Rightarrow> 'f desc \<Rightarrow> 'f fds" where
  "std i j e = [Some i, Some j, Some e, None, None, None, None, None, None, None, None, None, None, None, None, None]"

text \<open>A new process that takes part in it, or the message of a process that cannot create one and ends.\<close>

definition forked :: "('w, 'f) answers \<Rightarrow> nat \<Rightarrow> (nat \<Rightarrow> ('w, 'f) event list \<times> nat) \<Rightarrow> ('w, 'f) event list \<times> nat" where
  "forked K n f = (if a_pid K n = - 1 then ([Said ''fork'' []], Suc n) else f (Suc n))"

text \<open>The events that a command asks for, with the standard input \<open>i\<close> and the standard output \<open>j\<close>. Every process of it has
  the three standard descriptors and no other.\<close>

primrec wired :: "('w, 'f) answers \<Rightarrow> 'f desc \<Rightarrow> 'w cmd \<Rightarrow> 'f desc \<Rightarrow> 'f desc \<Rightarrow> nat \<Rightarrow> ('w, 'f) event list \<times> nat" where
  "wired K e (EXEC argv) i j n =
     (if argv = [] then [] else if a_exec K argv then [Started argv (std i j e)] else [Said ''exec %s failed'' [hd argv]], n)"
| "wired K e (REDIR c f mode fd) i j n =
     (case a_open K f mode of
        None \<Rightarrow> ([Said ''open %s failed'' [f]], n)
      | Some x \<Rightarrow> if fd = 0 then wired K e c (File x) j n else wired K e c i (File x) n)"
| "wired K e (LIST l r) i j n =
     forked K n (\<lambda>n.
     case wired K e l i j n of (es, n) \<Rightarrow>
     case wired K e r i j n of (es', n) \<Rightarrow> (es @ Waited (std i j e) # es', n))"
| "wired K e (PIPE l r) i j n =
     (if \<not> a_pipe K n then ([Said ''pipe'' []], Suc n)
      else
       forked K (Suc n) (\<lambda>n1.
       case wired K e l i (PWrite n) n1 of (es, n2) \<Rightarrow>
       case forked K n2 (\<lambda>n3.
              case wired K e r (PRead n) j n3 of (es', n4) \<Rightarrow> (es' @ [Waited (std i j e), Waited (std i j e)], n4)) of
         (es', n4) \<Rightarrow> (es @ es', n4)))"
| "wired K e (BACK c) i j n = forked K n (wired K e c i j)"

definition only_std :: "'f desc \<Rightarrow> ('w, 'f) event \<Rightarrow> bool" where
  "only_std e ev \<longleftrightarrow> (case ev of Started _ t \<Rightarrow> \<exists>i j. t = std i j e | Waited t \<Rightarrow> \<exists>i j. t = std i j e | Overrun \<Rightarrow> False | _ \<Rightarrow> True)"

lemma only_std_simps [simp]: "only_std e (Started ws t) \<longleftrightarrow> (\<exists>i j. t = std i j e)" "only_std e (Waited t) \<longleftrightarrow> (\<exists>i j. t = std i j e)"
  "only_std e (Said m ws)" "only_std e (Moved d)" "\<not> only_std e Overrun"
  by (simp_all add: only_std_def)

text \<open>Redirections are of the standard input and output.\<close>

primrec redirs_std :: "'w cmd \<Rightarrow> bool" where
  "redirs_std (EXEC argv) = True"
| "redirs_std (REDIR c f mode fd) = (fd \<in> {0, 1} \<and> redirs_std c)"
| "redirs_std (LIST l r) = (redirs_std l \<and> redirs_std r)"
| "redirs_std (PIPE l r) = (redirs_std l \<and> redirs_std r)"
| "redirs_std (BACK c) = redirs_std c"

lemma redirs_std_map [simp]: "redirs_std (map_cmd f c) = redirs_std c"
  by (induction c) auto

lemma redirs_std_redirected [simp]: "redirs_std (redirected c rs) = redirs_std c"
  by (induction c rs rule: redirected.induct) auto

lemma redirs_std_backs: "redirs_std ((BACK ^^ n) c) = redirs_std c"
  by (induction n) auto

lemma redirs_std_parsed: "g_line ts c \<Longrightarrow> redirs_std c" "g_pipe ts c \<Longrightarrow> redirs_std c" "g_exec ts c \<Longrightarrow> redirs_std c"
  by (induction rule: g_line_g_pipe_g_exec.inducts) (auto simp: redirs_std_backs)

section \<open>The shell connects its programs\<close>

lemmas fd_ops = fd_close_def fd_alloc_def fd_get_def claim_slot_def std_def

lemma small_signed [simp]: "\<not> 1 <s (0 :: sint32)" "\<not> 3 <s (0 :: sint32)" "\<not> 4 <s (0 :: sint32)" "\<not> 16 \<le>s (0 :: sint32)" "\<not> 16 \<le>s (1 :: sint32)"
  "\<not> 16 \<le>s (3 :: sint32)" "\<not> 16 \<le>s (4 :: sint32)" "- 1 <s (0 :: sint32)" "0 \<le>s (1 :: sint32)" "0 \<le>s (2 :: sint32)" "0 \<le>s (3 :: sint32)"
  "3 \<le>s (3 :: sint32)" "\<not> 3 \<le>s (0 :: sint32)" "\<not> 3 \<le>s (1 :: sint32)" "\<not> 3 \<le>s (2 :: sint32)"
  by code_simp+

lemma std_redir:
  "fd_alloc d (fd_close 0 (std i j e)) = Some (0, std d j e)"
  "fd_alloc d (fd_close 1 (std i j e)) = Some (1, std i d e)"
  by (simp_all add: fd_ops)

lemma std_pipe:
  "fd_alloc d (std i j e) = Some (3, (std i j e)[3 := Some d])"
  "fd_alloc d' ((std i j e)[3 := Some d]) = Some (4, (std i j e)[3 := Some d, 4 := Some d'])"
  "fd_close 4 (fd_close 3 ((std i j e)[3 := Some d, 4 := Some d'])) = std i j e"
  by (simp_all add: fd_ops)

lemma std_left:
  "fd_get 4 (fd_close 1 ((std i j e)[3 := Some d, 4 := Some d'])) = Some d'"
  "fd_alloc d'' (fd_close 1 ((std i j e)[3 := Some d, 4 := Some d'])) = Some (1, (std i d'' e)[3 := Some d, 4 := Some d'])"
  by (simp_all add: fd_ops)

lemma std_right:
  "fd_get 3 (fd_close 0 ((std i j e)[3 := Some d, 4 := Some d'])) = Some d"
  "fd_alloc d'' (fd_close 0 ((std i j e)[3 := Some d, 4 := Some d'])) = Some (0, (std d'' j e)[3 := Some d, 4 := Some d'])"
  by (simp_all add: fd_ops)

lemmas std_rules = std_redir std_pipe std_left std_right

lemma runcmd_wired:
  assumes "\<forall>n. a_pid K n \<noteq> 0"
  shows "redirs_std c \<Longrightarrow> trace K (runcmd c) (std i j e) n = wired K e c i j n"
proof (induction c arbitrary: i j n)
  case (REDIR c f mode fd)
  then show ?case by (cases "a_open K f mode") (auto simp: std_rules)
qed (use assms in \<open>simp_all add: fork1_def sh_panic_def forked_def std_rules split: prod.splits\<close>)

lemma forked_std: "ev \<in> set (fst (forked K n f)) \<Longrightarrow> (\<And>n. ev \<in> set (fst (f n)) \<Longrightarrow> only_std e ev) \<Longrightarrow> only_std e ev"
  by (auto simp: forked_def split: if_splits)

lemma wired_std: "ev \<in> set (fst (wired K e c i j n)) \<Longrightarrow> only_std e ev"
proof (induction c arbitrary: i j n)
  case (REDIR c f mode fd)
  then show ?case by (auto split: option.splits if_splits)
next
  case (PIPE l r)
  then show ?case by (auto simp: forked_def split: prod.splits if_splits) (metis fst_conv)+
next
  case (LIST l r)
  then show ?case by (auto simp: forked_def split: prod.splits if_splits) (metis fst_conv)+
qed (auto split: if_splits elim: forked_std)

section \<open>A session\<close>

text \<open>The first loop of \<^verbatim>\<open>main\<close> opens the console on the standard descriptors that are closed.\<close>

definition first_fds :: "'f desc option \<Rightarrow> 'f desc option \<Rightarrow> 'f desc option \<Rightarrow> 'f fds" where
  "first_fds a b c = [a, b, c, None, None, None, None, None, None, None, None, None, None, None, None, None]"

definition filled :: "'f \<Rightarrow> 'f desc option \<Rightarrow> 'f desc" where
  "filled x d = (case d of None \<Rightarrow> File x | Some d \<Rightarrow> d)"

lemma main_fds_std:
  assumes "a_open K [99, 111, 110, 115, 111, 108, 101] 2 = Some x"
  shows "trace K (main_fds 4 rest) (first_fds a b c) n = trace K rest (std (filled x a) (filled x b) (filled x c)) n"
proof -
  have "main_fds 4 rest = main_fds (Suc (Suc (Suc (Suc 0)))) rest" by (simp add: eval_nat_numeral)
  then show ?thesis using assms by (cases a; cases b; cases c) (simp_all add: fd_ops filled_def first_fds_def)
qed

text \<open>What a line asks for: another directory, a command of the grammar, or nothing but a message, since the grammar does not
  derive it.\<close>

datatype line_request = Goto "uchar list" | Command "uchar list cmd" | Wrong string

definition asks :: "uchar list \<Rightarrow> line_request \<Rightarrow> bool" where
  "asks buf r \<longleftrightarrow>
     (if take 3 buf = [99, 100, 32] then r = Goto (drop 3 (butlast buf))
      else case r of Command c \<Rightarrow> g_line (lexer buf) c | Wrong m \<Rightarrow> (\<nexists>c. g_line (lexer buf) c) | Goto d \<Rightarrow> False)"

text \<open>The events of a session, whose processes have the descriptors \<open>i\<close>, \<open>j\<close> and \<open>e\<close>. The shell ends if it cannot create a
  process for a line.\<close>

primrec session :: "(uchar list, 'f) answers \<Rightarrow> 'f desc \<Rightarrow> 'f desc \<Rightarrow> 'f desc \<Rightarrow> line_request list \<Rightarrow> nat \<Rightarrow> (uchar list, 'f) event list \<times> nat" where
  "session K i j e [] n = ([], n)"
| "session K i j e (r # rs) n =
     (case r of
        Goto d \<Rightarrow>
          (case session K i j e rs n of (es, n) \<Rightarrow> ((if a_chdir K d then Moved d else Said ''cannot cd %s'' [d]) # es, n))
      | Command c \<Rightarrow>
          forked K n (\<lambda>n.
          case wired K e c i j n of (es, n) \<Rightarrow>
          case session K i j e rs n of (es', n) \<Rightarrow> (es @ Waited (std i j e) # es', n))
      | Wrong m \<Rightarrow>
          forked K n (\<lambda>n.
          case session K i j e rs n of (es, n) \<Rightarrow> (Said m [] # Waited (std i j e) # es, n)))"

lemma run_line_wired:
  assumes "\<forall>n. a_pid K n \<noteq> 0" and "0 \<notin> set buf"
  obtains (command) c where "g_line (lexer buf) c" and "\<And>n. trace K (run_line buf) (std i j e) n = wired K e c i j n"
  | (message) m where "\<nexists>c. g_line (lexer buf) c" and "\<And>n. trace K (run_line buf) (std i j e) n = ([Said m []], n)"
proof -
  let ?k = "4 * length buf + 4"
  from parser_grammar [OF assms(2) order_refl] show thesis
  proof
    assume "\<exists>c b. parsecmd ?k buf = PGot (c, b) (length buf) \<and> (\<forall>d. g_line (lexer buf) d \<longleftrightarrow> d = map_cmd (string_at b) c)"
    then obtain c b where c: "parsecmd ?k buf = PGot (c, b) (length buf)" "g_line (lexer buf) (map_cmd (string_at b) c)" by blast
    then have "trace K (run_line buf) (std i j e) n = wired K e (map_cmd (string_at b) c) i j n" for n
      using runcmd_wired [OF assms(1) redirs_std_parsed(1) [OF c(2)]] by (simp add: run_line_def)
    then show thesis using command c(2) by blast
  next
    assume "(\<exists>m. parsecmd ?k buf = PSyn m) \<and> (\<nexists>d. g_line (lexer buf) d)"
    then obtain m where "parsecmd ?k buf = PSyn m" "\<nexists>d. g_line (lexer buf) d" by blast
    then show thesis using message [of m] by (simp add: run_line_def sh_panic_def)
  qed
qed

lemma main_loop_session:
  assumes "\<forall>n. a_pid K n \<noteq> 0" and "\<forall>buf \<in> set bufs. 0 \<notin> set buf"
  shows "\<exists>rs. list_all2 asks bufs rs \<and> (\<forall>n. trace K (main_loop bufs) (std i j e) n = session K i j e rs n)"
  using assms(2)
proof (induction bufs)
  case (Cons buf bufs)
  then obtain rs where rs: "list_all2 asks bufs rs" "\<forall>n. trace K (main_loop bufs) (std i j e) n = session K i j e rs n" by auto
  show ?case
  proof (cases "take 3 buf = [99, 100, 32]")
    case True
    then have "list_all2 asks (buf # bufs) (Goto (drop 3 (butlast buf)) # rs)" using rs(1) by (simp add: asks_def)
    moreover have "trace K (main_loop (buf # bufs)) (std i j e) n = session K i j e (Goto (drop 3 (butlast buf)) # rs) n" for n
      using True rs(2) by (simp split: prod.splits)
    ultimately show ?thesis by blast
  next
    case False
    have "0 \<notin> set buf" using Cons.prems by simp
    from assms(1) this show ?thesis
    proof (cases rule: run_line_wired [where i = i and j = j and e = e])
      case (command c)
      then have "list_all2 asks (buf # bufs) (Command c # rs)" using False rs(1) by (simp add: asks_def)
      moreover have "trace K (main_loop (buf # bufs)) (std i j e) n = session K i j e (Command c # rs) n" for n
        using False rs(2) command(2) assms(1) by (simp add: fork1_def sh_panic_def forked_def split: prod.splits)
      ultimately show ?thesis by blast
    next
      case (message m)
      then have "list_all2 asks (buf # bufs) (Wrong m # rs)" using False rs(1) by (simp add: asks_def)
      moreover have "trace K (main_loop (buf # bufs)) (std i j e) n = session K i j e (Wrong m # rs) n" for n
        using False rs(2) message(2) assms(1) by (simp add: fork1_def sh_panic_def forked_def split: prod.splits)
      ultimately show ?thesis by blast
    qed
  qed
qed simp

lemma session_std: "ev \<in> set (fst (session K i j e rs n)) \<Longrightarrow> only_std e ev"
proof (induction rs arbitrary: n)
  case (Cons r rs)
  have ih: "only_std e ev" if "session K i j e rs n = (es, n')" "ev \<in> set es" for n es n' using Cons.IH [of n] that by simp
  have w: "only_std e ev" if "wired K e c i j n = (es, n')" "ev \<in> set es" for c n es n' using wired_std [of ev K e c i j n] that by simp
  have s: "only_std e (Waited (std i j e))" by auto
  show ?case using Cons.prems s by (cases r) (auto simp: forked_def simp del: only_std_simps(2) split: prod.splits if_splits dest: ih w)
qed simp

text \<open>
  C17. The shell connects its programs. Let the shell start with any of the descriptors 0, 1 and 2 open and no other, and let the
  console exist. Then a session in which the lines \<open>bufs\<close> are read has exactly the events that the lines ask for by the
  grammar: each program of a pipeline is started with the end of the pipe it needs as standard input or output,
  redirections replace them, a list runs its right side after a wait for the left one, and a line that is not in the
  grammar only ends the process created for it, with a message. Where a pipe or a process cannot be made, the process
  that asked for it says so and ends. Every program that is started, and every process of the shell that waits, has the
  three standard descriptors open and no other, so that a reader sees the end of its input when the writers have ended.
\<close>

theorem shell_connects:
  assumes "\<forall>n. a_pid K n \<noteq> 0" and "a_open K [99, 111, 110, 115, 111, 108, 101] 2 = Some x" and "\<forall>buf \<in> set bufs. 0 \<notin> set buf"
  shows "(\<exists>rs. list_all2 asks bufs rs \<and>
            trace K (main_fds 4 (main_loop bufs)) (first_fds a b c) n = session K (filled x a) (filled x b) (filled x c) rs n) \<and>
         (\<forall>ev \<in> set (fst (trace K (main_fds 4 (main_loop bufs)) (first_fds a b c) n)). only_std (filled x c) ev)"
  using main_fds_std [OF assms(2)] main_loop_session [OF assms(1,3), of "filled x a" "filled x b" "filled x c"] session_std by metis

text \<open>The line \<^verbatim>\<open>a|b>f\<close> with its newline.\<close>

definition demo_answers :: "(uchar list, nat) answers" where
  "demo_answers = \<lparr>a_pid = (\<lambda>n. 7), a_pipe = (\<lambda>n. True), a_open = (\<lambda>f mode. Some (length f)), a_exec = (\<lambda>_. True), a_chdir = (\<lambda>_. False)\<rparr>"

definition demo_pipeline :: "uchar list" where
  "demo_pipeline = [97, 124, 98, 62, 102, 10]"

lemma demo_pipeline_parsed: "parsecmd (4 * length demo_pipeline + 4) demo_pipeline =
  PGot (PIPE (EXEC [(0, 1)]) (REDIR (EXEC [(2, 3)]) (4, 5) 0x201 1), [97, 0, 98, 0, 102, 0, 0]) 6"
  by code_simp

lemma demo_pipeline_asks: "asks demo_pipeline r \<longleftrightarrow> r = Command (PIPE (EXEC [[97]]) (REDIR (EXEC [[98]]) [102] 0x201 1))"
proof -
  have "0 \<notin> set demo_pipeline" "take 3 demo_pipeline \<noteq> [99, 100, 32]" by (simp_all add: demo_pipeline_def)
  then show ?thesis using parser_grammar [of demo_pipeline, OF _ order_refl]
    by (auto simp: demo_pipeline_parsed string_at_def asks_def split: line_request.splits)
qed

theorem shell_connects_witness:
  "(\<forall>n. a_pid demo_answers n \<noteq> 0) \<and> a_open demo_answers [99, 111, 110, 115, 111, 108, 101] 2 = Some 7 \<and>
   fst (trace demo_answers (main_fds 4 (main_loop [demo_pipeline])) (first_fds None None None) 0) =
     [Started [[97]] (std (File 7) (PWrite 1) (File 7)), Started [[98]] (std (PRead 1) (File 1) (File 7)),
      Waited (std (File 7) (File 7) (File 7)), Waited (std (File 7) (File 7) (File 7)), Waited (std (File 7) (File 7) (File 7))]"
proof -
  have h: "\<forall>n. a_pid demo_answers n \<noteq> 0" "a_open demo_answers [99, 111, 110, 115, 111, 108, 101] 2 = Some 7"
    "\<forall>buf \<in> set [demo_pipeline]. 0 \<notin> set buf"
    by (simp_all add: demo_answers_def demo_pipeline_def)
  from shell_connects [OF h, of None None None 0] have
    "trace demo_answers (main_fds 4 (main_loop [demo_pipeline])) (first_fds None None None) 0 =
     session demo_answers (File 7) (File 7) (File 7) [Command (PIPE (EXEC [[97]]) (REDIR (EXEC [[98]]) [102] 0x201 1))] 0"
    by (auto simp: list_all2_Cons1 demo_pipeline_asks filled_def)
  then show ?thesis using h(1,2) by (simp add: forked_def) (simp add: demo_answers_def)
qed

end
