(* ===== verification/Sleepwake.thy ===== *)
theory Sleepwake
  imports Ptable
begin

text \<open>
  \<^verbatim>\<open>sleep\<close> and \<^verbatim>\<open>wakeup\<close> on several processors. Every process runs the sequence of actions that \<open>Ptable\<close> gives for the
  code, and the actions of all processes are interleaved in any order; a lock is taken only when it is free. Any number of
  processes wait for a condition under a lock, as \<^verbatim>\<open>acquiresleep\<close>, \<^verbatim>\<open>piperead\<close> or \<^verbatim>\<open>begin_op\<close> do, and any number make it
  true and wake the others. Proved: no wakeup is lost.
\<close>

section \<open>Programs\<close>

text \<open>
  Besides the actions, a process leaves the processor (\<^verbatim>\<open>sched\<close>; the scheduler then releases the table lock), is
  dispatched (the scheduler has taken the table lock), tests the condition, jumps, makes the condition true or uses it up.
\<close>

datatype instr = Do act | Sched | Dispatch | Test nat | Goto nat | Make | Take

text \<open>\<^verbatim>\<open>acquire(lk); while(!condition) sleep(ch, lk); condition = 0; release(lk);\<close>\<close>

definition waiter :: "nat \<Rightarrow> chan \<Rightarrow> lockid \<Rightarrow> instr list" where
  "waiter p ch lk =
     [Do (Acq lk), Test 12] @ map Do (sleep_acts p ch lk) @ [Sched, Dispatch] @ map Do (resume_acts p lk) @
     [Goto 1, Take, Do (Rel lk)]"

text \<open>\<^verbatim>\<open>acquire(lk); condition = 1; wakeup(ch); release(lk);\<close>\<close>

definition waker :: "chan \<Rightarrow> lockid \<Rightarrow> instr list" where
  "waker ch lk = [Do (Acq lk), Make] @ map Do (wakeup_acts ch) @ [Do (Rel lk)]"

definition code :: "chan \<Rightarrow> lockid \<Rightarrow> nat set \<Rightarrow> nat set \<Rightarrow> nat \<Rightarrow> instr list" where
  "code ch lk W V i = (if i \<in> W then waiter i ch lk else if i \<in> V then waker ch lk else [])"

record world =
  owner :: "lockid \<Rightarrow> nat option"
  table :: "proc list"
  ready :: bool
  pc :: "nat \<Rightarrow> nat"

definition fetch :: "(nat \<Rightarrow> instr list) \<Rightarrow> world \<Rightarrow> nat \<Rightarrow> instr option" where
  "fetch C w i = (if pc w i < length (C i) then Some (C i ! pc w i) else None)"

definition goto :: "nat \<Rightarrow> nat \<Rightarrow> world \<Rightarrow> world" where
  "goto i k w = w\<lparr>pc := (pc w)(i := k)\<rparr>"

definition adv :: "nat \<Rightarrow> world \<Rightarrow> world" where
  "adv i w = goto i (Suc (pc w i)) w"

section \<open>Interleaving\<close>

inductive wstep :: "(nat \<Rightarrow> instr list) \<Rightarrow> world \<Rightarrow> world \<Rightarrow> bool" for C where
  w_acq: "fetch C w i = Some (Do (Acq l)) \<Longrightarrow> owner w l = None \<Longrightarrow> wstep C w (adv i (w\<lparr>owner := (owner w)(l := Some i)\<rparr>))"
| w_rel: "fetch C w i = Some (Do (Rel l)) \<Longrightarrow> owner w l = Some i \<Longrightarrow> wstep C w (adv i (w\<lparr>owner := (owner w)(l := None)\<rparr>))"
| w_upd: "fetch C w i = Some (Do (Upd f)) \<Longrightarrow> wstep C w (adv i (w\<lparr>table := f (table w)\<rparr>))"
| w_sched: "fetch C w i = Some Sched \<Longrightarrow> owner w PtableLock = Some i \<Longrightarrow>
     wstep C w (adv i (w\<lparr>owner := (owner w)(PtableLock := None)\<rparr>))"
| w_dispatch: "fetch C w i = Some Dispatch \<Longrightarrow> owner w PtableLock = None \<Longrightarrow> p_state (table w ! i) = RUNNABLE \<Longrightarrow>
     wstep C w (adv i (w\<lparr>owner := (owner w)(PtableLock := Some i), table := (table w)[i := (table w ! i)\<lparr>p_state := RUNNING\<rparr>]\<rparr>))"
| w_test: "fetch C w i = Some (Test k) \<Longrightarrow> wstep C w (if ready w then goto i k w else adv i w)"
| w_goto: "fetch C w i = Some (Goto k) \<Longrightarrow> wstep C w (goto i k w)"
| w_make: "fetch C w i = Some Make \<Longrightarrow> wstep C w (adv i (w\<lparr>ready := True\<rparr>))"
| w_take: "fetch C w i = Some Take \<Longrightarrow> wstep C w (adv i (w\<lparr>ready := False\<rparr>))"

text \<open>\<^verbatim>\<open>kill\<close> may make a sleeping process runnable at any time at which the table lock is free.\<close>

inductive killed_awake :: "world \<Rightarrow> world \<Rightarrow> bool" where
  "owner w PtableLock = None \<Longrightarrow> p_state (table w ! i) = SLEEPING \<Longrightarrow>
   killed_awake w (w\<lparr>table := (table w)[i := (table w ! i)\<lparr>p_state := RUNNABLE\<rparr>]\<rparr>)"

definition reaches :: "(nat \<Rightarrow> instr list) \<Rightarrow> world \<Rightarrow> world \<Rightarrow> bool" where
  "reaches C = (\<lambda>u w. wstep C u w \<or> killed_awake u w)\<^sup>*\<^sup>*"

definition start :: "nat set \<Rightarrow> world \<Rightarrow> bool" where
  "start W w \<longleftrightarrow> owner w = (\<lambda>_. None) \<and> pc w = (\<lambda>_. 0) \<and> (\<forall>i\<in>W. i < length (table w) \<and> p_state (table w ! i) = RUNNING)"

text \<open>The step that a process can make, as a function.\<close>

definition wdo :: "instr \<Rightarrow> nat \<Rightarrow> world \<Rightarrow> world option" where
  "wdo x i w = (case x of
       Do (Acq l) \<Rightarrow> if owner w l = None then Some (adv i (w\<lparr>owner := (owner w)(l := Some i)\<rparr>)) else None
     | Do (Rel l) \<Rightarrow> if owner w l = Some i then Some (adv i (w\<lparr>owner := (owner w)(l := None)\<rparr>)) else None
     | Do (Upd f) \<Rightarrow> Some (adv i (w\<lparr>table := f (table w)\<rparr>))
     | Sched \<Rightarrow> if owner w PtableLock = Some i then Some (adv i (w\<lparr>owner := (owner w)(PtableLock := None)\<rparr>)) else None
     | Test k \<Rightarrow> Some (if ready w then goto i k w else adv i w)
     | Make \<Rightarrow> Some (adv i (w\<lparr>ready := True\<rparr>))
     | _ \<Rightarrow> None)"

lemma wdo_step: "fetch C w i = Some x \<Longrightarrow> wdo x i w = Some w' \<Longrightarrow> wstep C w w'"
  by (auto simp: wdo_def split: instr.splits act.splits if_splits intro: wstep.intros dest: w_test [of C w i])

section \<open>The invariant\<close>

lemma waiter_code: "lk \<noteq> PtableLock \<Longrightarrow> waiter p ch lk =
  [Do (Acq lk), Test 12, Do (Acq PtableLock), Do (Rel lk), Do (at_proc p (\<lambda>q. q\<lparr>p_chan := Some ch\<rparr>)),
   Do (at_proc p (\<lambda>q. q\<lparr>p_state := SLEEPING\<rparr>)), Sched, Dispatch, Do (at_proc p (\<lambda>q. q\<lparr>p_chan := None\<rparr>)),
   Do (Rel PtableLock), Do (Acq lk), Goto 1, Take, Do (Rel lk)]"
  by (simp add: waiter_def sleep_acts_def resume_acts_def)

lemma waker_code: "waker ch lk =
  [Do (Acq lk), Make, Do (Acq PtableLock), Do (Upd (woken (Some ch))), Do (Rel PtableLock), Do (Rel lk)]"
  by (simp add: waker_def wakeup_acts_def)

text \<open>Which process owns a lock, by where it is in its code.\<close>

definition owns_lk :: "nat set \<Rightarrow> nat set \<Rightarrow> world \<Rightarrow> nat \<Rightarrow> bool" where
  "owns_lk W V w i \<longleftrightarrow> i \<in> W \<and> pc w i \<in> {1, 2, 3, 11, 12, 13} \<or> i \<in> V \<and> pc w i \<in> {1, 2, 3, 4, 5}"

definition owns_pt :: "nat set \<Rightarrow> nat set \<Rightarrow> world \<Rightarrow> nat \<Rightarrow> bool" where
  "owns_pt W V w i \<longleftrightarrow> i \<in> W \<and> pc w i \<in> {3, 4, 5, 6, 8, 9} \<or> i \<in> V \<and> pc w i \<in> {3, 4}"

definition waiter_ok :: "chan \<Rightarrow> world \<Rightarrow> nat \<Rightarrow> bool" where
  "waiter_ok ch w i \<longleftrightarrow> pc w i \<le> 14 \<and> i < length (table w) \<and>
     (if pc w i = 6 then p_state (table w ! i) = SLEEPING \<and> p_chan (table w ! i) = Some ch
      else if pc w i = 7 then p_state (table w ! i) \<in> {SLEEPING, RUNNABLE} \<and> p_chan (table w ! i) = Some ch
      else p_state (table w ! i) = RUNNING \<and> (pc w i = 5 \<longrightarrow> p_chan (table w ! i) = Some ch))"

text \<open>A process that has found the condition false and has not been woken since; one that has to wake the others.\<close>

definition committed :: "world \<Rightarrow> nat \<Rightarrow> bool" where
  "committed w i \<longleftrightarrow> pc w i \<in> {2, 3, 4, 5, 6} \<or> pc w i = 7 \<and> p_state (table w ! i) = SLEEPING"

definition has_to_wake :: "world \<Rightarrow> nat \<Rightarrow> bool" where
  "has_to_wake w i \<longleftrightarrow> pc w i \<in> {2, 3}"

definition sw_inv :: "chan \<Rightarrow> lockid \<Rightarrow> nat set \<Rightarrow> nat set \<Rightarrow> world \<Rightarrow> bool" where
  "sw_inv ch lk W V w \<longleftrightarrow>
     (\<forall>i. owner w lk = Some i \<longleftrightarrow> owns_lk W V w i) \<and>
     (\<forall>i. owner w PtableLock = Some i \<longleftrightarrow> owns_pt W V w i) \<and>
     (\<forall>i\<in>W. waiter_ok ch w i) \<and> (\<forall>i\<in>V. pc w i \<le> 6) \<and>
     (ready w \<longrightarrow> (\<forall>i\<in>W. committed w i \<longrightarrow> (\<exists>v\<in>V. has_to_wake w v)))"

lemma fetch_waiter:
  assumes "lk \<noteq> PtableLock" and "i \<in> W" and "fetch (code ch lk W V) w i = Some x"
  shows "(pc w i, x) \<in> set (zip [0..<14] (waiter i ch lk))"
proof -
  have len: "length (waiter i ch lk) = 14" using assms(1) by (simp add: waiter_code)
  have "pc w i < 14" "x = waiter i ch lk ! pc w i" using assms by (auto simp: fetch_def code_def len split: if_splits)
  then show ?thesis using len by (auto simp: in_set_zip intro!: exI [of _ "pc w i"])
qed

lemma fetch_waker:
  assumes "i \<notin> W" and "fetch (code ch lk W V) w i = Some x"
  shows "i \<in> V \<and> (pc w i, x) \<in> set (zip [0..<6] (waker ch lk))"
proof -
  have len: "length (waker ch lk) = 6" by (simp add: waker_code)
  have "i \<in> V" "pc w i < 6" "x = waker ch lk ! pc w i" using assms by (auto simp: fetch_def code_def len split: if_splits)
  then show ?thesis using len by (auto simp: in_set_zip intro!: exI [of _ "pc w i"])
qed

lemma upto_14: "[0..<14] = [0, 1, 2, 3, 4, 5, 6, 7, 8, 9, 10, 11, 12, 13]" "[0..<6] = [0, 1, 2, 3, 4, 5]"
  by (simp_all add: upt_rec)

text \<open>The instructions and where they stand.\<close>

lemma fetch_cases:
  assumes "lk \<noteq> PtableLock" and "fetch (code ch lk W V) w i = Some x"
  shows "i \<in> W \<and> (x = Do (Acq lk) \<and> pc w i \<in> {0, 10} \<or> x = Do (Acq PtableLock) \<and> pc w i = 2 \<or>
      x = Do (Rel lk) \<and> pc w i \<in> {3, 13} \<or> x = Do (Rel PtableLock) \<and> pc w i = 9 \<or>
      x = Do (at_proc i (\<lambda>q. q\<lparr>p_chan := Some ch\<rparr>)) \<and> pc w i = 4 \<or> x = Do (at_proc i (\<lambda>q. q\<lparr>p_state := SLEEPING\<rparr>)) \<and> pc w i = 5 \<or>
      x = Do (at_proc i (\<lambda>q. q\<lparr>p_chan := None\<rparr>)) \<and> pc w i = 8 \<or> x = Sched \<and> pc w i = 6 \<or> x = Dispatch \<and> pc w i = 7 \<or>
      x = Test 12 \<and> pc w i = 1 \<or> x = Goto 1 \<and> pc w i = 11 \<or> x = Take \<and> pc w i = 12) \<or>
    i \<in> V \<and> i \<notin> W \<and> (x = Do (Acq lk) \<and> pc w i = 0 \<or> x = Make \<and> pc w i = 1 \<or> x = Do (Acq PtableLock) \<and> pc w i = 2 \<or>
      x = Do (Upd (woken (Some ch))) \<and> pc w i = 3 \<or> x = Do (Rel PtableLock) \<and> pc w i = 4 \<or> x = Do (Rel lk) \<and> pc w i = 5)"
proof (cases "i \<in> W")
  case True
  then show ?thesis using fetch_waiter [OF assms(1) True assms(2)] by (auto simp: waiter_code [OF assms(1)] upto_14)
next
  case False
  then show ?thesis using fetch_waker [OF False assms(2)] by (auto simp: waker_code upto_14)
qed

lemma fetch_acq:
  assumes "lk \<noteq> PtableLock" and "W \<inter> V = {}" and "fetch (code ch lk W V) w i = Some (Do (Acq l))"
  shows "i \<in> W \<and> i \<notin> V \<and> (l = lk \<and> pc w i \<in> {0, 10} \<or> l = PtableLock \<and> pc w i = 2) \<or>
    i \<in> V \<and> i \<notin> W \<and> (l = lk \<and> pc w i = 0 \<or> l = PtableLock \<and> pc w i = 2)"
  using fetch_cases [OF assms(1,3)] assms(2) by (auto simp: at_proc_def)

lemma fetch_rel:
  assumes "lk \<noteq> PtableLock" and "W \<inter> V = {}" and "fetch (code ch lk W V) w i = Some (Do (Rel l))"
  shows "i \<in> W \<and> i \<notin> V \<and> (l = lk \<and> pc w i \<in> {3, 13} \<or> l = PtableLock \<and> pc w i = 9) \<or>
    i \<in> V \<and> i \<notin> W \<and> (l = lk \<and> pc w i = 5 \<or> l = PtableLock \<and> pc w i = 4)"
  using fetch_cases [OF assms(1,3)] assms(2) by (auto simp: at_proc_def)

text \<open>A step of process \<open>i\<close>: what happens to a lock, by where the process was and is.\<close>

definition moves :: "nat \<Rightarrow> nat option \<Rightarrow> bool \<Rightarrow> nat option \<Rightarrow> bool \<Rightarrow> bool" where
  "moves i ow P ow' P' \<longleftrightarrow> ow' = ow \<and> P' = P \<or> ow = None \<and> ow' = Some i \<and> P' \<or> ow = Some i \<and> ow' = None \<and> \<not> P'"

lemma moves_owner:
  assumes "moves i ow (P i) ow' (P' i)" and "\<forall>j. ow = Some j \<longleftrightarrow> P j" and "\<forall>j. j \<noteq> i \<longrightarrow> P' j = P j"
  shows "\<forall>j. ow' = Some j \<longleftrightarrow> P' j"
  using assms unfolding moves_def by (metis option.inject option.simps(3))

lemma sw_stepI:
  assumes inv: "sw_inv ch lk W V w" and pc: "pc w' = (pc w)(i := k)"
    and lk: "moves i (owner w lk) (owns_lk W V w i) (owner w' lk) (owns_lk W V w' i)"
    and pt: "moves i (owner w PtableLock) (owns_pt W V w i) (owner w' PtableLock) (owns_pt W V w' i)"
    and tab: "\<forall>j\<in>W. j \<noteq> i \<longrightarrow> waiter_ok ch w' j" and i: "i \<in> W \<Longrightarrow> waiter_ok ch w' i" and v: "i \<in> V \<Longrightarrow> k \<le> 6"
    and rd: "ready w' \<Longrightarrow> \<forall>j\<in>W. committed w' j \<longrightarrow> (\<exists>v\<in>V. has_to_wake w' v)"
  shows "sw_inv ch lk W V w'"
proof -
  have "\<forall>j. j \<noteq> i \<longrightarrow> owns_lk W V w' j = owns_lk W V w j" "\<forall>j. j \<noteq> i \<longrightarrow> owns_pt W V w' j = owns_pt W V w j"
    by (simp_all add: owns_lk_def owns_pt_def pc)
  then have "\<forall>j. owner w' lk = Some j \<longleftrightarrow> owns_lk W V w' j" "\<forall>j. owner w' PtableLock = Some j \<longleftrightarrow> owns_pt W V w' j"
    using moves_owner [of i "owner w lk" "owns_lk W V w" "owner w' lk" "owns_lk W V w'"]
      moves_owner [of i "owner w PtableLock" "owns_pt W V w" "owner w' PtableLock" "owns_pt W V w'"] lk pt inv
    by (simp_all add: sw_inv_def)
  then show ?thesis using inv tab i v rd by (auto simp: sw_inv_def pc)
qed

text \<open>A step that leaves the entries of the other processes alone.\<close>

lemma waiter_ok_other:
  assumes "sw_inv ch lk W V w" and "j \<in> W" and "j \<noteq> i" and "pc w' = (pc w)(i := k)"
    and "length (table w') = length (table w)" and "table w' ! j = table w ! j"
  shows "waiter_ok ch w' j"
proof -
  have "waiter_ok ch w j" using assms(1,2) by (simp add: sw_inv_def)
  then show ?thesis using assms(3-6) by (simp add: waiter_ok_def split: if_splits)
qed

text \<open>The condition is not made true, no process commits itself to sleeping, and no waking is done.\<close>

lemma ready_keep:
  assumes "sw_inv ch lk W V w" and "ready w' \<Longrightarrow> ready w"
    and "\<And>j. j \<in> W \<Longrightarrow> committed w' j \<Longrightarrow> committed w j" and "\<And>v. v \<in> V \<Longrightarrow> has_to_wake w v \<Longrightarrow> has_to_wake w' v"
  shows "ready w' \<Longrightarrow> \<forall>j\<in>W. committed w' j \<longrightarrow> (\<exists>v\<in>V. has_to_wake w' v)"
  using assms by (fastforce simp: sw_inv_def)

lemmas sw_defs = moves_def owns_lk_def owns_pt_def adv_def goto_def

text \<open>A step that leaves the table alone.\<close>

lemma sw_plainI:
  assumes inv: "sw_inv ch lk W V w" and "W \<inter> V = {}" and "pc w' = (pc w)(i := k)" and "table w' = table w" and "i \<in> W \<union> V"
    and "moves i (owner w lk) (owns_lk W V w i) (owner w' lk) (owns_lk W V w' i)"
    and "moves i (owner w PtableLock) (owns_pt W V w i) (owner w' PtableLock) (owns_pt W V w' i)"
    and "i \<in> W \<Longrightarrow> waiter_ok ch w i \<Longrightarrow> waiter_ok ch w' i" and "i \<in> V \<Longrightarrow> k \<le> 6"
    and "ready w' \<Longrightarrow> \<forall>j\<in>W. committed w' j \<longrightarrow> (\<exists>v\<in>V. has_to_wake w' v)"
  shows "sw_inv ch lk W V w'"
proof (rule sw_stepI [OF inv assms(3,6,7)])
  show "\<forall>j\<in>W. j \<noteq> i \<longrightarrow> waiter_ok ch w' j" using waiter_ok_other [OF inv _ _ assms(3)] assms(4) by auto
  show "i \<in> W \<Longrightarrow> waiter_ok ch w' i" using inv assms(8) by (simp add: sw_inv_def)
qed (use assms(9,10) in blast)+

lemma inv_acq:
  assumes "sw_inv ch lk W V w" and "lk \<noteq> PtableLock" and "W \<inter> V = {}"
    and "fetch (code ch lk W V) w i = Some (Do (Acq l))" and "owner w l = None"
  shows "sw_inv ch lk W V (adv i (w\<lparr>owner := (owner w)(l := Some i)\<rparr>))" (is "sw_inv _ _ _ _ ?w")
proof -
  note * = fetch_acq [OF assms(2,3,4)]
  show ?thesis
  proof (rule sw_plainI [OF assms(1,3), of _ i "Suc (pc w i)"])
    show "\<forall>j\<in>W. committed ?w j \<longrightarrow> (\<exists>v\<in>V. has_to_wake ?w v)" if "ready ?w"
      by (rule ready_keep [OF assms(1) _ _ _ that]) (use * in \<open>auto simp: committed_def has_to_wake_def sw_defs split: if_splits\<close>)
  qed (use * assms(2,5) in \<open>auto simp: sw_defs waiter_ok_def\<close>)
qed

lemma inv_rel:
  assumes "sw_inv ch lk W V w" and "lk \<noteq> PtableLock" and "W \<inter> V = {}"
    and "fetch (code ch lk W V) w i = Some (Do (Rel l))" and "owner w l = Some i"
  shows "sw_inv ch lk W V (adv i (w\<lparr>owner := (owner w)(l := None)\<rparr>))" (is "sw_inv _ _ _ _ ?w")
proof -
  note * = fetch_rel [OF assms(2,3,4)]
  show ?thesis
  proof (rule sw_plainI [OF assms(1,3), of _ i "Suc (pc w i)"])
    show "\<forall>j\<in>W. committed ?w j \<longrightarrow> (\<exists>v\<in>V. has_to_wake ?w v)" if "ready ?w"
      by (rule ready_keep [OF assms(1) _ _ _ that]) (use * in \<open>auto simp: committed_def has_to_wake_def sw_defs split: if_splits\<close>)
  qed (use * assms(2,5) in \<open>auto simp: sw_defs waiter_ok_def\<close>)
qed

lemma inv_sched:
  assumes "sw_inv ch lk W V w" and "lk \<noteq> PtableLock" and "W \<inter> V = {}"
    and "fetch (code ch lk W V) w i = Some Sched" and "owner w PtableLock = Some i"
  shows "sw_inv ch lk W V (adv i (w\<lparr>owner := (owner w)(PtableLock := None)\<rparr>))" (is "sw_inv _ _ _ _ ?w")
proof -
  have *: "i \<in> W" "i \<notin> V" "pc w i = 6" using fetch_cases [OF assms(2,4)] assms(3) by auto
  show ?thesis
  proof (rule sw_plainI [OF assms(1,3), of _ i "Suc (pc w i)"])
    show "\<forall>j\<in>W. committed ?w j \<longrightarrow> (\<exists>v\<in>V. has_to_wake ?w v)" if "ready ?w"
      by (rule ready_keep [OF assms(1) _ _ _ that]) (use * in \<open>auto simp: committed_def has_to_wake_def sw_defs split: if_splits\<close>)
  qed (use * assms(2,5) in \<open>auto simp: sw_defs waiter_ok_def\<close>)
qed

text \<open>Only the owner of \<open>lk\<close> tests and changes the condition.\<close>

lemma inv_test:
  assumes "sw_inv ch lk W V w" and "lk \<noteq> PtableLock" and "W \<inter> V = {}" and "fetch (code ch lk W V) w i = Some (Test k)"
  shows "sw_inv ch lk W V (if ready w then goto i k w else adv i w)" (is "sw_inv _ _ _ _ ?w")
proof -
  have *: "i \<in> W" "i \<notin> V" "pc w i = 1" "k = 12" using fetch_cases [OF assms(2,4)] assms(3) by auto
  show ?thesis
  proof (rule sw_plainI [OF assms(1,3), of _ i "pc ?w i"])
    show "\<forall>j\<in>W. committed ?w j \<longrightarrow> (\<exists>v\<in>V. has_to_wake ?w v)" if "ready ?w"
      by (rule ready_keep [OF assms(1) _ _ _ that]) (use * that in \<open>auto simp: committed_def has_to_wake_def sw_defs split: if_splits\<close>)
  qed (use * assms(2) in \<open>auto simp: sw_defs waiter_ok_def\<close>)
qed

lemma inv_goto:
  assumes "sw_inv ch lk W V w" and "lk \<noteq> PtableLock" and "W \<inter> V = {}" and "fetch (code ch lk W V) w i = Some (Goto k)"
  shows "sw_inv ch lk W V (goto i k w)" (is "sw_inv _ _ _ _ ?w")
proof -
  have *: "i \<in> W" "i \<notin> V" "pc w i = 11" "k = 1" using fetch_cases [OF assms(2,4)] assms(3) by auto
  show ?thesis
  proof (rule sw_plainI [OF assms(1,3), of _ i k])
    show "\<forall>j\<in>W. committed ?w j \<longrightarrow> (\<exists>v\<in>V. has_to_wake ?w v)" if "ready ?w"
      by (rule ready_keep [OF assms(1) _ _ _ that]) (use * that in \<open>auto simp: committed_def has_to_wake_def sw_defs split: if_splits\<close>)
  qed (use * assms(2) in \<open>auto simp: sw_defs waiter_ok_def\<close>)
qed

lemma inv_make:
  assumes "sw_inv ch lk W V w" and "lk \<noteq> PtableLock" and "W \<inter> V = {}" and "fetch (code ch lk W V) w i = Some Make"
  shows "sw_inv ch lk W V (adv i (w\<lparr>ready := True\<rparr>))"
proof -
  have *: "i \<in> V" "i \<notin> W" "pc w i = 1" using fetch_cases [OF assms(2,4)] by auto
  show ?thesis
    by (rule sw_plainI [OF assms(1,3), of _ i "Suc (pc w i)"]) (use * in \<open>auto simp: sw_defs has_to_wake_def intro!: bexI [of _ i]\<close>)
qed

lemma inv_take:
  assumes "sw_inv ch lk W V w" and "lk \<noteq> PtableLock" and "W \<inter> V = {}" and "fetch (code ch lk W V) w i = Some Take"
  shows "sw_inv ch lk W V (adv i (w\<lparr>ready := False\<rparr>))"
proof -
  have *: "i \<in> W" "i \<notin> V" "pc w i = 12" using fetch_cases [OF assms(2,4)] assms(3) by auto
  show ?thesis
    by (rule sw_plainI [OF assms(1,3), of _ i "Suc (pc w i)"]) (use * in \<open>auto simp: sw_defs waiter_ok_def\<close>)
qed

text \<open>A step that changes the entry of the process itself.\<close>

lemma sw_ownI:
  assumes inv: "sw_inv ch lk W V w" and "W \<inter> V = {}" and "pc w' = (pc w)(i := k)" and "table w' = (table w)[i := P]" and "i \<in> W"
    and "moves i (owner w lk) (owns_lk W V w i) (owner w' lk) (owns_lk W V w' i)"
    and "moves i (owner w PtableLock) (owns_pt W V w i) (owner w' PtableLock) (owns_pt W V w' i)"
    and "waiter_ok ch w i \<Longrightarrow> waiter_ok ch w' i" and "ready w' = ready w" and "committed w' i \<Longrightarrow> committed w i"
  shows "sw_inv ch lk W V w'"
proof (rule sw_stepI [OF inv assms(3,6,7)])
  show "\<forall>j\<in>W. j \<noteq> i \<longrightarrow> waiter_ok ch w' j" using waiter_ok_other [OF inv _ _ assms(3)] assms(4) by auto
  show "waiter_ok ch w' i" using inv assms(5,8) by (simp add: sw_inv_def)
  have "i \<notin> V" using assms(2,5) by blast
  then show "i \<in> V \<Longrightarrow> k \<le> 6" by blast
  have c: "committed w j" if "committed w' j" for j
    using that assms(3,4,10) by (cases "j = i") (auto simp: committed_def)
  have h: "has_to_wake w' v" if "v \<in> V" "has_to_wake w v" for v
    using that \<open>i \<notin> V\<close> assms(3) by (auto simp: has_to_wake_def)
  show "\<forall>j\<in>W. committed w' j \<longrightarrow> (\<exists>v\<in>V. has_to_wake w' v)" if "ready w'"
    by (rule ready_keep [OF inv _ _ _ that]) (use assms(9) c h in auto)
qed

lemma inv_dispatch:
  assumes "sw_inv ch lk W V w" and "lk \<noteq> PtableLock" and "W \<inter> V = {}"
    and "fetch (code ch lk W V) w i = Some Dispatch" and "owner w PtableLock = None"
  shows "sw_inv ch lk W V (adv i (w\<lparr>owner := (owner w)(PtableLock := Some i), table := (table w)[i := (table w ! i)\<lparr>p_state := RUNNING\<rparr>]\<rparr>))"
proof -
  have *: "i \<in> W" "i \<notin> V" "pc w i = 7" using fetch_cases [OF assms(2,4)] assms(3) by auto
  show ?thesis
    by (rule sw_ownI [OF assms(1,3), of _ i "Suc (pc w i)" "(table w ! i)\<lparr>p_state := RUNNING\<rparr>"])
      (use * assms(2,5) in \<open>auto simp: sw_defs waiter_ok_def committed_def\<close>)
qed

lemma inv_own:
  assumes "sw_inv ch lk W V w" and "W \<inter> V = {}" and "i \<in> W"
    and "pc w i = 4 \<and> f = (\<lambda>q. q\<lparr>p_chan := Some ch\<rparr>) \<or> pc w i = 5 \<and> f = (\<lambda>q. q\<lparr>p_state := SLEEPING\<rparr>) \<or> pc w i = 8 \<and> f = (\<lambda>q. q\<lparr>p_chan := None\<rparr>)"
  shows "sw_inv ch lk W V (adv i (w\<lparr>table := (table w)[i := f (table w ! i)]\<rparr>))"
proof -
  have *: "i \<notin> V" using assms(2,3) by blast
  show ?thesis
    by (rule sw_ownI [OF assms(1,2), of _ i "Suc (pc w i)" "f (table w ! i)"])
      (use * assms(3,4) in \<open>auto simp: sw_defs waiter_ok_def committed_def\<close>)
qed

text \<open>The step that wakes: its process owns both locks, so that every process that has committed itself is asleep.\<close>

lemma inv_woken:
  assumes inv: "sw_inv ch lk W V w" and "W \<inter> V = {}" and i: "i \<in> V" "pc w i = 3"
  shows "sw_inv ch lk W V (adv i (w\<lparr>table := woken (Some ch) (table w)\<rparr>))" (is "sw_inv _ _ _ _ ?w")
proof -
  have iW: "i \<notin> W" using i(1) assms(2) by blast
  have "owner w lk = Some i" "owner w PtableLock = Some i" using inv i by (simp_all add: sw_inv_def owns_lk_def owns_pt_def)
  then have alone: "\<not> owns_lk W V w j" "\<not> owns_pt W V w j" if "j \<noteq> i" for j using inv that by (auto simp: sw_inv_def)
  have ok: "waiter_ok ch w j" if "j \<in> W" for j using inv that by (simp add: sw_inv_def)
  have pcs: "pc w j \<notin> {1, 2, 3, 4, 5, 6, 8, 9, 11, 12, 13}" if "j \<in> W" for j
    using alone [of j] that iW by (auto simp: owns_lk_def owns_pt_def)
  show ?thesis
  proof (rule sw_stepI [OF inv, of _ i "Suc (pc w i)"])
    show "\<forall>j\<in>W. j \<noteq> i \<longrightarrow> waiter_ok ch ?w j"
    proof (intro ballI impI)
      fix j
      assume "j \<in> W" "j \<noteq> i"
      then show "waiter_ok ch ?w j" using ok [of j] pcs [of j] by (auto simp: waiter_ok_def sw_defs woken_nth split: if_splits)
    qed
    show "\<forall>j\<in>W. committed ?w j \<longrightarrow> (\<exists>v\<in>V. has_to_wake ?w v)"
      using ok pcs iW by (auto simp: committed_def waiter_ok_def sw_defs woken_nth split: if_splits)
  qed (use i iW in \<open>auto simp: sw_defs\<close>)
qed

lemma inv_upd:
  assumes "sw_inv ch lk W V w" and "lk \<noteq> PtableLock" and "W \<inter> V = {}" and "fetch (code ch lk W V) w i = Some (Do (Upd f))"
  shows "sw_inv ch lk W V (adv i (w\<lparr>table := f (table w)\<rparr>))"
proof -
  have "(i \<in> W \<and> (\<exists>g. f = (\<lambda>ps. ps[i := g (ps ! i)]) \<and>
      (pc w i = 4 \<and> g = (\<lambda>q. q\<lparr>p_chan := Some ch\<rparr>) \<or> pc w i = 5 \<and> g = (\<lambda>q. q\<lparr>p_state := SLEEPING\<rparr>) \<or> pc w i = 8 \<and> g = (\<lambda>q. q\<lparr>p_chan := None\<rparr>)))) \<or>
    (i \<in> V \<and> pc w i = 3 \<and> f = woken (Some ch))"
    using fetch_cases [OF assms(2,4)] by (auto simp: at_proc_def)
  then show ?thesis using inv_own [OF assms(1,3)] inv_woken [OF assms(1,3)] by blast
qed

lemma inv_kill:
  assumes inv: "sw_inv ch lk W V w" and "owner w PtableLock = None" and "p_state (table w ! i) = SLEEPING"
  shows "sw_inv ch lk W V (w\<lparr>table := (table w)[i := (table w ! i)\<lparr>p_state := RUNNABLE\<rparr>]\<rparr>)" (is "sw_inv _ _ _ _ ?w")
proof -
  have pt: "pc w j \<noteq> 6" if "j \<in> W" for j using inv assms(2) that by (auto simp: sw_inv_def owns_pt_def)
  have ok: "waiter_ok ch ?w j" if "j \<in> W" for j
  proof -
    have "waiter_ok ch w j" using inv that by (simp add: sw_inv_def)
    then show ?thesis using pt [OF that] assms(3) by (cases "j = i") (auto simp: waiter_ok_def split: if_splits)
  qed
  have "committed ?w j \<Longrightarrow> committed w j" for j by (cases "j = i"; cases "i < length (table w)") (auto simp: committed_def list_update_beyond)
  then have "\<forall>j\<in>W. committed ?w j \<longrightarrow> (\<exists>v\<in>V. has_to_wake ?w v)" if "ready ?w"
    using ready_keep [OF inv _ _ _ that] by (simp add: has_to_wake_def)
  then show ?thesis using inv ok unfolding sw_inv_def owns_lk_def owns_pt_def by simp
qed

lemma inv_reaches:
  assumes "reaches (code ch lk W V) u w" and "sw_inv ch lk W V u" and "lk \<noteq> PtableLock" and "W \<inter> V = {}"
  shows "sw_inv ch lk W V w"
  using assms(1) unfolding reaches_def
proof (induction rule: rtranclp_induct)
  case base
  show ?case by (rule assms(2))
next
  case (step v w)
  from step.hyps(2) show ?case
  proof
    assume "wstep (code ch lk W V) v w"
    then show ?thesis using step.IH assms(3,4)
      by (induction rule: wstep.induct) (blast intro: inv_acq inv_rel inv_upd inv_sched inv_dispatch inv_test inv_goto inv_make inv_take)+
  next
    assume "killed_awake v w"
    then show ?thesis using step.IH by (auto elim!: killed_awake.cases intro: inv_kill)
  qed
qed

lemma inv_start: "start W w \<Longrightarrow> sw_inv ch lk W V w"
  by (auto simp: start_def sw_inv_def owns_lk_def owns_pt_def waiter_ok_def committed_def)

section \<open>No wakeup is lost\<close>

text \<open>A process that has made the condition true and has the waking still before it.\<close>

definition still_wakes :: "chan \<Rightarrow> lockid \<Rightarrow> world \<Rightarrow> nat \<Rightarrow> bool" where
  "still_wakes ch lk w v \<longleftrightarrow> Make \<in> set (take (pc w v) (waker ch lk)) \<and> Do (Upd (woken (Some ch))) \<in> set (drop (pc w v) (waker ch lk))"

lemma still_wakesI: "has_to_wake w v \<Longrightarrow> still_wakes ch lk w v"
  by (auto simp: has_to_wake_def still_wakes_def waker_code)

lemma asleep_committed: "sw_inv ch lk W V w \<Longrightarrow> i \<in> W \<Longrightarrow> p_state (table w ! i) = SLEEPING \<Longrightarrow> committed w i"
  by (auto simp: sw_inv_def waiter_ok_def committed_def split: if_splits)

text \<open>A process that owns the table lock can go on, and so can one that has to wake the others or waits for that lock.\<close>

lemma owner_goes_on:
  assumes inv: "sw_inv ch lk W V w" and "lk \<noteq> PtableLock" and "W \<inter> V = {}" and o: "owner w PtableLock = Some j"
  shows "\<exists>w'. wstep (code ch lk W V) w w'"
proof -
  have own: "owns_pt W V w j" using inv o unfolding sw_inv_def by blast
  show ?thesis
  proof (cases "j \<in> W")
    case True
    then have j: "pc w j \<in> {3, 4, 5, 6, 8, 9}" using own assms(3) by (auto simp: owns_pt_def)
    have "owner w lk = Some j" if "pc w j = 3" using inv True that by (simp add: sw_inv_def owns_lk_def)
    then have "\<exists>x. fetch (code ch lk W V) w j = Some x \<and> wdo x j w \<noteq> None" using j True o
      by (auto simp: fetch_def code_def waiter_code [OF assms(2)] at_proc_def wdo_def)
    then show ?thesis using wdo_step by blast
  next
    case False
    then have "pc w j \<in> {3, 4}" "j \<in> V" using own by (auto simp: owns_pt_def)
    then have "\<exists>x. fetch (code ch lk W V) w j = Some x \<and> wdo x j w \<noteq> None" using False o
      by (auto simp: fetch_def code_def waker_code wdo_def)
    then show ?thesis using wdo_step by blast
  qed
qed

lemma waker_goes_on:
  assumes inv: "sw_inv ch lk W V w" and "lk \<noteq> PtableLock" and "W \<inter> V = {}" and v: "v \<in> V" "has_to_wake w v"
  shows "\<exists>w'. wstep (code ch lk W V) w w'"
proof (cases "owner w PtableLock")
  case None
  have "pc w v \<noteq> 3" using inv None v(1) by (auto simp: sw_inv_def owns_pt_def)
  then have "pc w v = 2" "v \<notin> W" using v assms(3) by (auto simp: has_to_wake_def)
  then show ?thesis using v(1) None w_acq [of "code ch lk W V" w v PtableLock] by (auto simp: fetch_def code_def waker_code)
qed (use owner_goes_on [OF assms(1-3)] in blast)

lemma lock_use:
  assumes inv: "sw_inv ch lk W V w" and "lk \<noteq> PtableLock" and "W \<inter> V = {}"
  shows "fetch (code ch lk W V) w i = Some (Do (Rel l)) \<Longrightarrow> owner w l = Some i"
    and "fetch (code ch lk W V) w i = Some (Do (Acq l)) \<Longrightarrow> owner w l \<noteq> Some i"
    and "fetch (code ch lk W V) w i = Some Sched \<Longrightarrow> owner w PtableLock = Some i \<and> owner w lk \<noteq> Some i \<and> p_state (table w ! i) = SLEEPING"
proof -
  have o: "owner w lk = Some i \<longleftrightarrow> owns_lk W V w i" "owner w PtableLock = Some i \<longleftrightarrow> owns_pt W V w i"
    and ok: "i \<in> W \<Longrightarrow> waiter_ok ch w i" using inv by (simp_all add: sw_inv_def)
  show "fetch (code ch lk W V) w i = Some (Do (Rel l)) \<Longrightarrow> owner w l = Some i"
    using fetch_rel [OF assms(2,3), of ch w i l] o by (auto simp: owns_lk_def owns_pt_def)
  show "fetch (code ch lk W V) w i = Some (Do (Acq l)) \<Longrightarrow> owner w l \<noteq> Some i"
    using fetch_acq [OF assms(2,3), of ch w i l] o by (auto simp: owns_lk_def owns_pt_def)
  show "fetch (code ch lk W V) w i = Some Sched \<Longrightarrow> owner w PtableLock = Some i \<and> owner w lk \<noteq> Some i \<and> p_state (table w ! i) = SLEEPING"
    using fetch_cases [OF assms(2), of ch W V w i Sched] o ok assms(3) by (auto simp: owns_lk_def owns_pt_def waiter_ok_def)
qed

text \<open>
  C5. No wakeup is lost, whatever the interleaving. Let the processes of \<open>W\<close> wait for a condition with \<^verbatim>\<open>sleep(ch, lk)\<close> in a loop
  under \<open>lk\<close>, and let those of \<open>V\<close> make it true and call \<^verbatim>\<open>wakeup(ch)\<close> under \<open>lk\<close>, on any number of processors, while \<^verbatim>\<open>kill\<close>
  may wake sleeping processes at any time. In every state that can be reached: if the condition holds and a process is
  asleep, then some process that has made the condition true has its wakeup still before it. Hence the processes cannot
  all come to rest with the condition true and one of them asleep. Locks are used as \<^verbatim>\<open>acquire\<close> and \<^verbatim>\<open>release\<close> demand, and
  whoever calls \<^verbatim>\<open>sched\<close> is marked as sleeping, owns the table lock and has released \<open>lk\<close>.
\<close>

theorem sleep_no_lost_wakeup:
  assumes "lk \<noteq> PtableLock" and "W \<inter> V = {}" and "start W u" and "reaches (code ch lk W V) u w"
  shows "(\<forall>i\<in>W. ready w \<longrightarrow> p_state (table w ! i) = SLEEPING \<longrightarrow> (\<exists>v\<in>V. still_wakes ch lk w v))
    \<and> (ready w \<longrightarrow> (\<nexists>w'. wstep (code ch lk W V) w w') \<longrightarrow> (\<forall>i\<in>W. p_state (table w ! i) \<noteq> SLEEPING))
    \<and> (\<forall>i l. fetch (code ch lk W V) w i = Some (Do (Rel l)) \<longrightarrow> owner w l = Some i)
    \<and> (\<forall>i l. fetch (code ch lk W V) w i = Some (Do (Acq l)) \<longrightarrow> owner w l \<noteq> Some i)
    \<and> (\<forall>i. fetch (code ch lk W V) w i = Some Sched \<longrightarrow>
         owner w PtableLock = Some i \<and> owner w lk \<noteq> Some i \<and> p_state (table w ! i) = SLEEPING)"
proof -
  have inv: "sw_inv ch lk W V w" using inv_reaches [OF assms(4) inv_start [OF assms(3)] assms(1,2)] .
  have pending: "\<exists>v\<in>V. has_to_wake w v" if "i \<in> W" "ready w" "p_state (table w ! i) = SLEEPING" for i
    using inv asleep_committed [OF inv that(1,3)] that(1,2) by (auto simp: sw_inv_def)
  show ?thesis
    using pending still_wakesI waker_goes_on [OF inv assms(1,2)] lock_use [OF inv assms(1,2)] by meson
qed

section \<open>A run\<close>

primrec run_order :: "(nat \<Rightarrow> instr list) \<Rightarrow> nat list \<Rightarrow> world \<Rightarrow> world option" where
  "run_order C [] w = Some w"
| "run_order C (i # is) w = (case fetch C w i of None \<Rightarrow> None | Some x \<Rightarrow> Option.bind (wdo x i w) (run_order C is))"

lemma run_order_reaches: "run_order C is u = Some w \<Longrightarrow> reaches C u w"
proof (induction "is" arbitrary: u)
  case (Cons i "is")
  then obtain x v where "fetch C u i = Some x" "wdo x i u = Some v" "run_order C is v = Some w"
    by (auto split: option.splits bind_splits)
  then have "wstep C u v" "reaches C v w" using wdo_step Cons.IH by blast+
  then show ?case unfolding reaches_def by (metis (mono_tags, lifting) converse_rtranclp_into_rtranclp)
qed (simp add: reaches_def)

text \<open>Process 0 goes to sleep; process 1 makes the condition true.\<close>

definition demo_start :: world where
  "demo_start = \<lparr>owner = (\<lambda>_. None), table = [idle_proc\<lparr>p_state := RUNNING\<rparr>, idle_proc\<lparr>p_state := RUNNING\<rparr>], ready = False, pc = (\<lambda>_. 0)\<rparr>"

lemma demo_asleep: "\<exists>w. run_order (code ChanTicks TicksLock {0} {1}) [0, 0, 0, 0, 0, 0, 0, 1, 1] demo_start = Some w
    \<and> ready w \<and> p_state (table w ! 0) = SLEEPING \<and> pc w 1 = 2"
  by (simp add: demo_start_def fetch_def code_def waiter_code waker_code wdo_def adv_def goto_def at_proc_def)

theorem sleep_no_lost_wakeup_witness:
  "\<exists>w. start {0} demo_start \<and> reaches (code ChanTicks TicksLock {0} {1}) demo_start w \<and> ready w
    \<and> p_state (table w ! 0) = SLEEPING \<and> still_wakes ChanTicks TicksLock w 1"
proof -
  obtain w where w: "run_order (code ChanTicks TicksLock {0} {1}) [0, 0, 0, 0, 0, 0, 0, 1, 1] demo_start = Some w"
    "ready w" "p_state (table w ! 0) = SLEEPING" using demo_asleep by blast
  have s: "TicksLock \<noteq> PtableLock" "{0 :: nat} \<inter> {1} = {}" "start {0} demo_start" by (simp_all add: start_def demo_start_def)
  have r: "reaches (code ChanTicks TicksLock {0} {1}) demo_start w" by (rule run_order_reaches [OF w(1)])
  from sleep_no_lost_wakeup [OF s r] w(2,3) have "still_wakes ChanTicks TicksLock w 1" by simp
  then show ?thesis using s(3) r w(2,3) by blast
qed

end
