(* ===== verification/Spec2Isabelle.thy ===== *)
theory Spec2Isabelle
  imports Trap Filedata Ide Umalloc Grep Shrun Sleepwake
begin

text \<open>
  A verification of the operating system in \<^verbatim>\<open>src/\<close>: an xv6 kernel for the x86, extended by signals, with its user library and
  some user programs. The routines of the C code are translated one by one into HOL functions, and the theories below prove
  what the parts promise to each other and to user programs.

  \<^bold>\<open>How code is modelled.\<close> A kernel routine is a function on a state record (\<open>kop\<close> of \<open>Xv6_Prelude\<close>). It ends in one of four
  ways: it returns (\<open>Ok\<close>), it calls \<^verbatim>\<open>panic\<close> (\<open>Panic\<close>), it gives up the processor in \<^verbatim>\<open>sched\<close> (\<open>Swtch\<close>), or it does what C
  leaves undefined or the hardware faults on (\<open>Fault\<close>). A routine that waits comes in two parts, the code up to the switch and
  a \<^verbatim>\<open>_resume\<close> definition for the code after it, so that whatever other processes do in between is covered. C integers are
  words of their width, \<^verbatim>\<open>int\<close> is compared by \<open><s\<close> and \<open>\<le>s\<close>. The state grows with the parts, one record extending the other:
  held locks, process table, sleep locks, page allocator, page tables, buffer cache, log, file system, pipes, file table,
  console, keyboard. Arrays of structures are lists and pointers into them are indices; where the code links structures through
  memory (the free list, page tables, the on-disk structures, saved trap frames) the bytes themselves are modelled.

  \<^bold>\<open>The parts.\<close>
  \<^item> \<open>Xv6_Prelude\<close>: outcomes, sequencing, weakest preconditions (\<open>wpk\<close>, collections \<open>wp\<close> and \<open>run\<close>), searches in tables, the
    contract \<open>slot_table\<close>.
  \<^item> \<open>Cstring\<close> (\<^verbatim>\<open>string.c\<close>, \<^verbatim>\<open>ulib.c\<close>): memory and string routines on byte memory, with overlap and termination.
  \<^item> \<open>Locks\<close>, \<open>Spinlock\<close> (\<^verbatim>\<open>spinlock.c\<close>): the contract of a lock, its implementation by nested interrupt disabling, which is undone exactly, and an
    atomic exchange, and mutual exclusion for every interleaving of processors.
  \<^item> \<open>Ptable\<close>, \<open>Sleepwake\<close>, \<open>Proc\<close>, \<open>Sleeplock\<close> (\<^verbatim>\<open>proc.c\<close>, \<^verbatim>\<open>sleeplock.c\<close>): the process table; \<^verbatim>\<open>sleep\<close> and \<^verbatim>\<open>wakeup\<close> as lists of
    atomic actions, whose interleavings never lose a wakeup; the life of a process, the scheduler as a round-robin over the
    table, handing over of sleep locks.
  \<^item> \<open>Signal\<close> (\<^verbatim>\<open>proc.c\<close>): \<^verbatim>\<open>kill\<close>, \<^verbatim>\<open>sigaction\<close>, the runner of pending signals, the frame on the user stack, \<^verbatim>\<open>sigret\<close>.
  \<^item> \<open>Kalloc\<close>, \<open>Vm\<close>, \<open>Umem\<close> (\<^verbatim>\<open>kalloc.c\<close>, \<^verbatim>\<open>vm.c\<close>): the allocator as a set of pages, page tables, accesses to user memory.
  \<^item> \<open>Bio\<close>, \<open>Ide\<close> (\<^verbatim>\<open>bio.c\<close>, \<^verbatim>\<open>memide.c\<close>, \<^verbatim>\<open>ide.c\<close>): the cache is transparent and recycles the least recently used buffer; the
    disk driver serves its queue in order and has the effect of the memory disk.
  \<^item> \<open>Layout\<close>, \<open>Log\<close>, \<open>Fs\<close>, \<open>Filedata\<close> (\<^verbatim>\<open>fs.h\<close>, \<^verbatim>\<open>log.c\<close>, \<^verbatim>\<open>fs.c\<close>): on-disk structures, atomicity of a commit under crashes,
    block and inode allocation, the inode cache, paths, and the content of a file as a sequence of bytes.
  \<^item> \<open>Ring\<close>, \<open>Pipe\<close>, \<open>File\<close> (\<^verbatim>\<open>pipe.c\<close>, \<^verbatim>\<open>file.c\<close>): ring buffers as queues, pipes, and the file table.
  \<^item> \<open>Numfmt\<close>, \<open>Console\<close>, \<open>Kbd\<close> (\<^verbatim>\<open>console.c\<close>, \<^verbatim>\<open>printf.c\<close>, \<^verbatim>\<open>kbd.c\<close>, \<^verbatim>\<open>uart.c\<close>): number output, the screen as a terminal of 24 rows, the
    line editor, the keyboard as a machine on the events of its keys.
  \<^item> \<open>Syscall\<close>, \<open>Sysfile\<close>, \<open>Exec\<close>, \<open>Trap\<close> (\<^verbatim>\<open>syscall.c\<close>, \<^verbatim>\<open>sysproc.c\<close>, \<^verbatim>\<open>sysfile.c\<close>, \<^verbatim>\<open>exec.c\<close>, \<^verbatim>\<open>trap.c\<close>, \<^verbatim>\<open>trapasm.S\<close>): checked
    arguments, the system calls, loading of programs, and the way into the kernel and back. This theory adds the path of a
    signal handler's return through a trap.
  \<^item> \<open>Umalloc\<close>, \<open>Grep\<close>, \<open>Sh\<close>, \<open>Shgrammar\<close>, \<open>Shrun\<close> (\<^verbatim>\<open>umalloc.c\<close>, \<^verbatim>\<open>grep.c\<close>, \<^verbatim>\<open>sh.c\<close>): the user-level allocator, the matcher
    against the language of its pattern, the parser of the shell against a grammar with its own scanner and actions, and the
    processes and descriptors that the shell creates for what the grammar derives.

  \<^bold>\<open>Interfaces.\<close> \<open>lock_contract\<close> is interpreted by the abstract locks and by the code of \<^verbatim>\<open>spinlock.c\<close>, \<open>page_alloc\<close> by the free
  list, \<open>block_cache\<close> by the buffer cache, \<open>fifo\<close> by the ring of a pipe, \<open>slot_table\<close> by the file table.

  \<^bold>\<open>Loops and bounds.\<close> Loops over tables are \<open>kfor\<close> or recursion over the list of indices. Loops that follow memory the code
  does not bound are \<open>partial_function\<close>s (strings, the lists of \<^verbatim>\<open>umalloc.c\<close>), and that they return is proved. A few loops take a
  number of rounds: a walk along the buffer list or the disk queue has \<open>Suc NBUF\<close> rounds, one more than there are buffers;
  \<^verbatim>\<open>printint\<close> has 16, the size of its buffer; \<^verbatim>\<open>fetchstr\<close> has the bytes up to the end of the process; the erasing of a line has
  the characters of the line; the parser of the shell has call depth \<open>4 n + 4\<close> for \<open>n\<close> bytes and the loop that opens the
  console 4 rounds. Each bound is either the code's own or proved to be enough.

  \<^bold>\<open>Parameters.\<close> What is not C code under \<^verbatim>\<open>src/\<close> is an argument: the bytes of \<^verbatim>\<open>initcode.S\<close> and \<^verbatim>\<open>implicit_sigret.S\<close>, values read
  from device ports, the answers of the kernel to user programs.

  \<^bold>\<open>Not modelled.\<close>
  \<^item> Programming of processor and interrupt hardware, whose effect is outside the C state: \<^verbatim>\<open>lapic.c\<close>, \<^verbatim>\<open>ioapic.c\<close>, \<^verbatim>\<open>picirq.c\<close>,
    \<^verbatim>\<open>mp.c\<close>, \<^verbatim>\<open>uartinit\<close>, \<^verbatim>\<open>seginit\<close>, \<^verbatim>\<open>tvinit\<close>, \<^verbatim>\<open>idtinit\<close>.
  \<^item> Booting: \<^verbatim>\<open>bootasm.S\<close>, \<^verbatim>\<open>bootmain.c\<close>, \<^verbatim>\<open>entry.S\<close>, \<^verbatim>\<open>entryother.S\<close>, \<^verbatim>\<open>main.c\<close>, which calls the modelled initialisations in turn;
    \<^verbatim>\<open>swtch.S\<close> and the stubs \<^verbatim>\<open>usys.S\<close> and \<^verbatim>\<open>vectors.pl\<close> are assembly without C counterpart.
  \<^item> \<^verbatim>\<open>mkfs.c\<close>, a tool of the build that runs on the host.
  \<^item> Test programs (\<^verbatim>\<open>usertests.c\<close>, \<^verbatim>\<open>forktest.c\<close>, \<^verbatim>\<open>stressfs.c\<close>, \<^verbatim>\<open>mytest.c\<close>, \<^verbatim>\<open>zombie.c\<close>), the small commands (\<^verbatim>\<open>cat.c\<close>, \<^verbatim>\<open>echo.c\<close>, \<^verbatim>\<open>kill.c\<close>,
    \<^verbatim>\<open>ln.c\<close>, \<^verbatim>\<open>ls.c\<close>, \<^verbatim>\<open>mkdir.c\<close>, \<^verbatim>\<open>rm.c\<close>, \<^verbatim>\<open>wc.c\<close>, \<^verbatim>\<open>init.c\<close>) and the \<^verbatim>\<open>main\<close> of \<^verbatim>\<open>grep.c\<close>, which are sequences of system calls;
    \<^verbatim>\<open>getcmd\<close> of the shell, whose input is an argument.
  \<^item> Concurrency inside a kernel routine beyond the switches in \<^verbatim>\<open>sched\<close>: code under a spin lock is sequential, which is what
    mutual exclusion of the locks gives; the spin lock itself, and \<^verbatim>\<open>sleep\<close> against \<^verbatim>\<open>wakeup\<close>, are modelled with interleaved
    steps. The interrupt flag is part of the state of \<open>Spinlock\<close> only, so that the \<^verbatim>\<open>sti\<close> of the scheduler has no counterpart.
  \<^item> The rest of a system call that waits inside another routine is an argument of \<open>trap_syscall_resume\<close>.
  \<^item> Growth of a file in \<^verbatim>\<open>writei\<close> is modelled, but the theorem on file contents is about writes inside the file.
\<close>

section \<open>Properties of the whole kernel\<close>

lemma uload_procs:
  assumes "uload n va s = Ok bs s"
  shows "uload n va (s\<lparr>procs := ps\<rparr>) = Ok bs (s\<lparr>procs := ps\<rparr>)"
  using assms
proof (induction n arbitrary: va bs)
  case (Suc n)
  from Suc.prems obtain b bs' where "bs = b # bs'" "uload1 va s = Ok b s" "uload n (va + 1) s = Ok bs' s"
    by (auto simp: run uload1_def split: outcome.splits option.splits)
  moreover from this(2) have "uload1 va (s\<lparr>procs := ps\<rparr>) = Ok b (s\<lparr>procs := ps\<rparr>)"
    by (auto simp: uload1_def split: option.splits)
  ultimately show ?case using Suc.IH by (simp add: run)
qed (simp add: run)

text \<open>
  C40. The way back from a signal handler through the kernel: when the code under the handler's frame makes the
  system call \<^verbatim>\<open>sigret\<close>, the trap loads every register from the frame that was saved on the user stack,
  except \<^verbatim>\<open>%eax\<close>, which is 0 whatever was saved, since \<^verbatim>\<open>syscall\<close> stores the result of the call there.
\<close>

theorem sigret_trap:
  fixes s :: "'z kbdst_scheme"
  assumes "cur s = Some p" and "p < length (procs s)" and "procs s ! p = P"
    and "\<not> p_killed P" and "p_pending_signals P = 0"
    and "user_mode tf" and "tf_trapno tf = T_SYSCALL" and "tf_eax tf = of_nat SYS_sigret"
    and "uload sizeof_trapframe (p_user_trap_fram_backup P) s = Ok (tf_bytes saved) s"
  shows "\<exists>t. alltraps forkret_addr tramp h tf s
      = Ok (saved\<lparr>tf_esp := tf_esp saved + of_nat sizeof_trapframe, tf_eax := 0\<rparr>) t \<and> cur t = Some p"
proof -
  let ?tf = "saved\<lparr>tf_esp := tf_esp saved + of_nat sizeof_trapframe\<rparr>"
  let ?s = "s\<lparr>procs := (procs s)[p := P\<lparr>p_tf := tf\<rparr>]\<rparr>"
  let ?u = "s\<lparr>procs := (procs s)[p := P\<lparr>p_tf := ?tf\<rparr>]\<rparr>"
  let ?t = "s\<lparr>procs := (procs s)[p := P\<lparr>p_tf := ?tf\<lparr>tf_eax := 0\<rparr>\<rparr>]\<rparr>"
  have "uload sizeof_trapframe (p_user_trap_fram_backup P) ?s = Ok (tf_bytes saved) ?s"
    using assms(9) by (rule uload_procs)
  then have sr: "sys_sigret ?s = Ok 0 ?u"
    using assms(1,2) by (simp add: sys_sigret_def sigret_def run tf_of_bytes_bytes)
  have n: "tf_eax tf = 24" using assms(8) by (simp add: SYS_sigret_def)
  have "syscall forkret_addr ?s = Ok () ?t"
    using assms(1,2) sr by (simp add: syscall_def run n syscalls_def upd_tf_def word_sless_alt)
  then have "trap forkret_addr h tf ?s = Ok () ?t"
    using assms(1,2,4,7) by (simp add: trap_def trap_syscall_def run exit_if_killed_def)
  moreover have "sig_handler_runner tramp (?tf\<lparr>tf_eax := 0\<rparr>) ?t = Ok () ?t"
  proof -
    have "kfor [0..<32] (sig_step tramp p) ?t = Ok () ?t"
      using assms(2,5) by (intro kfor_skip ballI sig_step_skip) simp
    then show ?thesis using assms(1) by (simp add: sig_handler_runner_def run)
  qed
  ultimately have "alltraps forkret_addr tramp h tf s = Ok (?tf\<lparr>tf_eax := 0\<rparr>) ?t"
    using assms(1,2,3,6) by (simp add: alltraps_def trapret_def run)
  then show ?thesis using assms(1) by simp
qed

definition demo_saved :: trapframe where
  "demo_saved = zero_tf\<lparr>tf_esp := 0x1900, tf_eip := 0x40, tf_eax := 42, tf_cs := 0x1B\<rparr>"

definition demo_return :: kbdst where
  "demo_return = demo_kbd\<lparr>physmem := put_mem 0x80102800 (tf_bytes demo_saved) demo_mem,
     procs := [idle_proc\<lparr>p_state := RUNNING, p_user_trap_fram_backup := 0x1800\<rparr>]\<rparr>"

theorem sigret_trap_witness:
  "\<exists>t. alltraps 0 [] \<lparr>hw_cpu = 0, hw_cr2 = 0, hw_keys = [], hw_com1 = []\<rparr>
       (zero_tf\<lparr>tf_cs := 0x1B, tf_trapno := 64, tf_eax := 24\<rparr>) demo_return
     = Ok (zero_tf\<lparr>tf_esp := 0x194C, tf_eip := 0x40, tf_eax := 0, tf_cs := 0x1B\<rparr>) t"
proof -
  let ?tf = "zero_tf\<lparr>tf_cs := 0x1B, tf_trapno := 64, tf_eax := 24\<rparr>"
  let ?h = "\<lparr>hw_cpu = 0, hw_cr2 = 0, hw_keys = [], hw_com1 = []\<rparr>"
  have c: "cr3 demo_kbd = 0x100000" "physmem demo_kbd = demo_mem"
    by (simp_all add: demo_kbd_def consst.extend_def demo_sig_def)
  have fr: "frame demo_mem 0x80100000 0x1800 = 0x80102000"
  proof -
    have "pdx 0x1800 = 0" "ptx 0x1800 = 1" by (simp_all add: pdx_def ptx_def PDX_def PTX_def)
    then show ?thesis by (simp add: frame_def pte_of_def tbl_def ent_def slot_def load32_def demo_mem_def present_def
        PTE_P_def PTE_ADDR_def P2V_def KERNBASE_def)
  qed
  have "seen_at demo_kbd 0x1800 0x80102800"
    using demo_page by (simp add: seen_at_def c P2V_def KERNBASE_def fr)
  moreover have "tf_bytes demo_saved \<noteq> []"
    using length_tf_bytes [of demo_saved] by (auto simp: sizeof_trapframe_def simp del: length_tf_bytes)
  ultimately have sa: "seen_at demo_return 0x1800 0x80102800"
    using ustore_seen(2) [of demo_kbd "0x1800" "0x80102800" 0 "tf_bytes demo_saved"]
    by (simp add: demo_return_def c seen_at_def sizeof_trapframe_def)
  have ld: "uload sizeof_trapframe 0x1800 demo_return = Ok (tf_bytes demo_saved) demo_return"
    using uload_put_mem [OF sa, of "tf_bytes demo_saved" demo_mem] by (simp add: demo_return_def sizeof_trapframe_def)
  from sigret_trap [of demo_return 0 "procs demo_return ! 0" ?tf demo_saved 0 "[]" ?h] ld
  show ?thesis
    by (auto simp: demo_return_def user_mode_def DPL_USER_def T_SYSCALL_def SYS_sigret_def idle_proc_def sizeof_trapframe_def demo_saved_def)
qed

end
